(* ===== verification/Prelude.thy ===== *)
theory Prelude
  imports Main "HOL-Library.Word" "HOL-Library.List_Lexorder" "HOL-Library.Char_ord"
begin

text \<open>
  Shared vocabulary of the EyaKV development: the byte strings the program stores and sends,
  the C++ exceptions its handlers distinguish, the result type of fallible code, and the
  generic facts on lists, words and association lists that the component theories use.

  A \<open>std::string\<close> is a list of bytes (\<open>char\<close> is an 8-bit type in HOL), ordered
  lexicographically by unsigned byte value, which is what \<open>std::char_traits<char>\<close> does.
\<close>

type_synonym bytes = string
type_synonym u8 = "8 word"
type_synonym u32 = "32 word"
type_synonym u64 = "64 word"

named_theorems codec_simps \<open>round-trip equations of the byte encodings\<close>
named_theorems layer_simps \<open>what a lookup returns after an update of a storage layer\<close>
named_theorems exec_defs \<open>definitions unfolded to evaluate a handler\<close>

section \<open>Exceptions and results\<close>

text \<open>
  The standard exception classes that some \<open>catch\<close> clause of the program tells apart.
  \<open>StdException\<close> is a plain \<open>std::exception\<close>, which is what remains of any exception after
  \<open>throw e\<close> on a \<open>const std::exception &e\<close>. \<open>UB\<close> marks undefined behaviour (a read past the
  end of a buffer); it is not an exception and no handler catches it.
\<close>

datatype exn =
    OutOfRange string
  | RuntimeError string
  | OverflowError string
  | InvalidArgument string
  | BadVariantAccess
  | StdException
  | UB

fun what :: "exn \<Rightarrow> string" where
  "what (OutOfRange m) = m"
| "what (RuntimeError m) = m"
| "what (OverflowError m) = m"
| "what (InvalidArgument m) = m"
| "what BadVariantAccess = ''std::get: wrong index for variant''"
| "what StdException = ''std::exception''"
| "what UB = ''''"

text \<open>Copying an exception through its static type \<open>std::exception\<close> slices it.\<close>

definition slice_exn :: "exn \<Rightarrow> exn" where
  "slice_exn e = (if e = UB then UB else StdException)"

type_synonym 'a res = "exn + 'a"

definition rbind :: "'a res \<Rightarrow> ('a \<Rightarrow> 'b res) \<Rightarrow> 'b res" where
  "rbind m f = (case m of Inl e \<Rightarrow> Inl e | Inr x \<Rightarrow> f x)"

lemma rbind_simps [simp]:
  "rbind (Inl e) f = Inl e"
  "rbind (Inr x) f = f x"
  by (simp_all add: rbind_def)

lemma rbind_eq_Inr_iff: "rbind m f = Inr y \<longleftrightarrow> (\<exists>x. m = Inr x \<and> f x = Inr y)"
  by (cases m) auto

lemma rbind_cong [fundef_cong]:
  "m = m' \<Longrightarrow> (\<And>x. m' = Inr x \<Longrightarrow> f x = f' x) \<Longrightarrow> rbind m f = rbind m' f'"
  by (cases m') auto

section \<open>Lists\<close>

lemma last_takeWhile_P: "takeWhile P xs \<noteq> [] \<Longrightarrow> P (last (takeWhile P xs))"
  by (metis last_in_set set_takeWhileD)

lemma takeWhile_append_all: "(\<And>x. x \<in> set xs \<Longrightarrow> P x) \<Longrightarrow> takeWhile P (xs @ ys) = xs @ takeWhile P ys"
  by (rule takeWhile_append2)

lemma filter_takeWhile_sorted:
  "sorted_wrt (\<lambda>x y. P y \<longrightarrow> P x) xs \<Longrightarrow> filter P xs = takeWhile P xs"
  by (induction xs) (auto simp: filter_empty_conv)

lemma dropWhile_filter_sorted:
  "sorted_wrt (\<lambda>x y. P y \<longrightarrow> P x) xs \<Longrightarrow> filter (\<lambda>x. \<not> P x) xs = dropWhile P xs"
  by (induction xs) (auto simp: filter_id_conv)

lemma filter_fresh:
  "x \<notin> f ` set xs \<Longrightarrow> filter (\<lambda>y. f y \<noteq> x) xs = xs"
  "x \<notin> f ` set xs \<Longrightarrow> filter (\<lambda>y. f y = x) xs = []"
  by (induction xs) auto

lemma map_of_fresh: "k \<notin> fst ` set xs \<Longrightarrow> map_of xs k = None"
  by (simp add: map_of_eq_None_iff)

lemma take_drop_mid:
  assumes "a \<le> b"
  shows "xs = take a xs @ drop a (take b xs) @ drop b xs"
proof -
  have "take a (take b xs) = take a xs" using assms by (simp add: min_absorb1)
  then have "take a xs @ drop a (take b xs) = take b xs" by (metis append_take_drop_id)
  then show ?thesis by (metis append.assoc append_take_drop_id)
qed

lemma disjoint_part: "K = A \<union> B \<Longrightarrow> f ` B \<inter> f ` A = {} \<Longrightarrow> x \<in> A \<longleftrightarrow> x \<in> K \<and> f x \<notin> f ` B"
  by blast

lemma distinct_strict: "sorted_wrt (\<lambda>a b. f a < (f b :: 'o::order)) xs \<Longrightarrow> distinct xs"
  by (induction xs) auto

lemma sorted_wrt_filter_mono: "sorted_wrt R xs \<Longrightarrow> sorted_wrt R (filter P xs)"
  by (rule sorted_wrt_filter)

section \<open>Association lists with an order on the keys\<close>

text \<open>
  The specification of an ordered map: a list of entries, strictly increasing in the key.
  \<open>alist_upd\<close> and \<open>alist_del\<close> keep the order; the skip list refines them.
\<close>

fun alist_upd :: "'k::linorder \<Rightarrow> 'v \<Rightarrow> ('k \<times> 'v) list \<Rightarrow> ('k \<times> 'v) list" where
  "alist_upd k v [] = [(k, v)]"
| "alist_upd k v ((k', v') # xs) =
     (if k' < k then (k', v') # alist_upd k v xs
      else if k' = k then (k, v) # xs
      else (k, v) # (k', v') # xs)"

definition ksorted :: "('k::linorder \<times> 'v) list \<Rightarrow> bool" where
  "ksorted xs = sorted_wrt (<) (map fst xs)"

lemma ksorted_simps [simp]:
  "ksorted []"
  "ksorted ((k, v) # xs) \<longleftrightarrow> (\<forall>k' \<in> fst ` set xs. k < k') \<and> ksorted xs"
  by (auto simp: ksorted_def)

lemma ksorted_distinct: "ksorted xs \<Longrightarrow> distinct (map fst xs)"
  by (simp add: ksorted_def strict_sorted_iff)

lemma fst_set_alist_upd: "fst ` set (alist_upd k v xs) = insert k (fst ` set xs)"
  by (induction k v xs rule: alist_upd.induct) (simp_all add: insert_commute)

lemma ksorted_alist_upd: "ksorted xs \<Longrightarrow> ksorted (alist_upd k v xs)"
proof (induction k v xs rule: alist_upd.induct)
  case (2 k v k' v' xs)
  then have "\<forall>a \<in> fst ` set xs. k < a" if "k < k'"
    using that by (meson ksorted_simps(2) order.strict_trans)
  with 2 show ?case by (auto simp: fst_set_alist_upd simp del: image_iff)
qed simp

lemma map_of_below: "ksorted xs \<Longrightarrow> \<forall>k' \<in> fst ` set xs. k < k' \<Longrightarrow> map_of xs k = None"
  by (induction xs) auto

lemma map_of_alist_upd: "ksorted xs \<Longrightarrow> map_of (alist_upd k v xs) = (map_of xs)(k \<mapsto> v)"
proof (induction xs)
  case Nil
  then show ?case by simp
next
  case (Cons x xs)
  obtain k' v' where x: "x = (k', v')" by fastforce
  with Cons show ?case by (auto simp: fun_eq_iff)
qed

lemma length_alist_upd:
  "ksorted xs \<Longrightarrow> length (alist_upd k v xs) = (if map_of xs k = None then Suc (length xs) else length xs)"
proof (induction xs)
  case Nil
  then show ?case by simp
next
  case (Cons x xs)
  obtain k' v' where x: "x = (k', v')" by fastforce
  have "map_of xs k = None" if "k < k'"
    using Cons.prems that by (intro map_of_below) (auto simp: x)
  with Cons show ?case by (auto simp: x)
qed

lemma ksorted_append:
  "ksorted (xs @ ys) \<longleftrightarrow> ksorted xs \<and> ksorted ys \<and> (\<forall>k \<in> fst ` set xs. \<forall>k' \<in> fst ` set ys. k < k')"
  by (auto simp: ksorted_def sorted_wrt_append)

lemma alist_upd_append:
  "\<forall>k' \<in> fst ` set xs. k' < k \<Longrightarrow> alist_upd k v (xs @ ys) = xs @ alist_upd k v ys"
  by (induction xs) auto

lemma ksorted_concat:
  "sorted_wrt (\<lambda>xs ys. \<forall>k \<in> fst ` set xs. \<forall>k' \<in> fst ` set ys. k < k') xss \<Longrightarrow> \<forall>xs \<in> set xss. ksorted xs \<Longrightarrow>
     ksorted (concat xss)"
  by (induction xss) (auto simp: ksorted_append)

lemma map_of_concat_other:
  "\<forall>xs \<in> set xss. k \<notin> fst ` set xs \<Longrightarrow> map_of (concat xss) k = None"
  by (induction xss) (auto simp: map_of_eq_None_iff)

lemma map_of_concat_nth:
  assumes "i < length xss" "\<forall>j < length xss. j \<noteq> i \<longrightarrow> k \<notin> fst ` set (xss ! j)"
  shows "map_of (concat xss) k = map_of (xss ! i) k"
proof -
  have eq: "xss = take i xss @ xss ! i # drop (Suc i) xss" using assms(1) by (rule id_take_nth_drop)
  have "\<forall>xs \<in> set (take i xss). k \<notin> fst ` set xs"
  proof
    fix xs assume "xs \<in> set (take i xss)"
    then obtain j where "j < i" "j < length xss" "xs = xss ! j"
      unfolding in_set_conv_nth by auto
    then show "k \<notin> fst ` set xs" using assms(2) by simp
  qed
  then have 1: "map_of (concat (take i xss)) k = None" by (rule map_of_concat_other)
  have "\<forall>xs \<in> set (drop (Suc i) xss). k \<notin> fst ` set xs"
  proof
    fix xs assume "xs \<in> set (drop (Suc i) xss)"
    then obtain j where "j < length xss - Suc i" "xs = xss ! (Suc i + j)"
      unfolding in_set_conv_nth by auto
    then show "k \<notin> fst ` set xs" using assms(2) by simp
  qed
  then have 2: "map_of (concat (drop (Suc i) xss)) k = None" by (rule map_of_concat_other)
  show ?thesis by (subst eq) (simp add: map_add_def 1 2 split: option.split)
qed

text \<open>An ordered entry list is determined by its lookups.\<close>

lemma ksorted_unique: "ksorted xs \<Longrightarrow> ksorted ys \<Longrightarrow> map_of xs = map_of ys \<Longrightarrow> xs = ys"
proof -
  assume xs: "ksorted xs" and ys: "ksorted ys" and eq: "map_of xs = map_of ys"
  have s: "set xs = set ys"
    using eq ksorted_distinct [OF xs] ksorted_distinct [OF ys] by (metis map_of_inject_set)
  have "map fst xs = map fst ys"
    using xs ys s by (intro sorted_distinct_set_unique) (auto simp: ksorted_def strict_sorted_iff)
  then show ?thesis
  proof (intro nth_equalityI)
    show len: "length xs = length ys" using \<open>map fst xs = map fst ys\<close> by (metis length_map)
    fix i assume i: "i < length xs"
    have k: "fst (xs ! i) = fst (ys ! i)" using \<open>map fst xs = map fst ys\<close> i len by (metis nth_map)
    have "map_of xs (fst (xs ! i)) = Some (snd (xs ! i))" "map_of ys (fst (ys ! i)) = Some (snd (ys ! i))"
      using i len ksorted_distinct [OF xs] ksorted_distinct [OF ys] by (simp_all add: map_of_is_SomeI)
    then show "xs ! i = ys ! i" using eq k by (simp add: prod_eq_iff)
  qed
qed

text \<open>Merging entry lists into a \<open>std::map\<close>, oldest first: later entries overwrite.\<close>

definition alist_merge :: "('k::linorder \<times> 'v) list \<Rightarrow> ('k \<times> 'v) list \<Rightarrow> ('k \<times> 'v) list" where
  "alist_merge m es = fold (\<lambda>(k, v) m. alist_upd k v m) es m"

lemma alist_merge_simps [simp]:
  "alist_merge m [] = m"
  "alist_merge m ((k, v) # es) = alist_merge (alist_upd k v m) es"
  by (simp_all add: alist_merge_def)

lemma ksorted_alist_merge: "ksorted m \<Longrightarrow> ksorted (alist_merge m es)"
proof (induction es arbitrary: m)
  case (Cons e es)
  then show ?case by (cases e) (simp add: ksorted_alist_upd)
qed simp

lemma map_of_alist_merge:
  "ksorted m \<Longrightarrow> map_of (alist_merge m es) = map_of m ++ map_of (rev es)"
proof (induction es arbitrary: m)
  case (Cons e es)
  obtain k v where e: "e = (k, v)" by fastforce
  from Cons.prems have "ksorted (alist_upd k v m)" by (rule ksorted_alist_upd)
  with Cons.IH Cons.prems show ?case
    by (auto simp: e map_of_alist_upd map_add_def fun_eq_iff split: option.splits)
qed simp

lemma map_of_rev_distinct: "distinct (map fst xs) \<Longrightarrow> map_of (rev xs) = map_of xs"
  by (rule map_of_inject_set[THEN iffD2]) (auto simp: rev_map[symmetric])

section \<open>Words\<close>

lemma unat_of_nat_lt: "n < 2 ^ LENGTH('a) \<Longrightarrow> unat (word_of_nat n :: 'a::len word) = n"
  by (simp add: unat_of_nat take_bit_nat_eq_self)

lemma unat_bound: "unat (w :: 'a::len word) < 2 ^ LENGTH('a)"
  by (rule unsigned_less)

end
