(* ===== verification/CppLib.thy ===== *)
theory CppLib
  imports Prelude "HOL-Library.AList"
begin

text \<open>
  The parts of the C++ library the sources use on plain data: \<open>std::to_string\<close>, \<open>std::stoll\<close>
  and \<open>std::stoull\<close> (with the exceptions they throw), \<open>::tolower\<close>, and the two ways integers
  are laid out as bytes: \<open>htonl\<close>/\<open>ntohl\<close> (big-endian) and a raw \<open>memcpy\<close> of the host
  representation, which is little-endian on the supported hosts.
\<close>

section \<open>Decimal text\<close>

definition digit_char :: "nat \<Rightarrow> char" where
  "digit_char d = ''0123456789'' ! (d mod 10)"

definition isdigit :: "char \<Rightarrow> bool" where
  "isdigit c \<longleftrightarrow> 48 \<le> (of_char c :: nat) \<and> (of_char c :: nat) \<le> 57"

definition digit_val :: "char \<Rightarrow> nat" where
  "digit_val c = of_char c - 48"

lemma digit_char_props:
  assumes "d < 10"
  shows "isdigit (digit_char d)" "digit_val (digit_char d) = d"
proof -
  have "\<forall>d \<in> set [0..<10]. isdigit (digit_char d) \<and> digit_val (digit_char d) = d"
    by code_simp
  with assms show "isdigit (digit_char d)" "digit_val (digit_char d) = d" by auto
qed

fun nat_to_string :: "nat \<Rightarrow> string" where
  "nat_to_string n = (if n < 10 then [digit_char n] else nat_to_string (n div 10) @ [digit_char (n mod 10)])"

declare nat_to_string.simps [simp del]

definition int_to_string :: "int \<Rightarrow> string" where
  "int_to_string i = (if i < 0 then CHR ''-'' # nat_to_string (nat (- i)) else nat_to_string (nat i))"

fun digits_val :: "nat \<Rightarrow> string \<Rightarrow> nat" where
  "digits_val a [] = a"
| "digits_val a (c # cs) = digits_val (10 * a + digit_val c) cs"

lemma digits_val_append: "digits_val a (xs @ ys) = digits_val (digits_val a xs) ys"
  by (induction xs arbitrary: a) auto

lemma nat_to_string_digits: "c \<in> set (nat_to_string n) \<Longrightarrow> isdigit c"
proof (induction n rule: nat_to_string.induct)
  case (1 n)
  show ?case
  proof (cases "n < 10")
    case True
    with "1.prems" show ?thesis by (simp add: nat_to_string.simps [of n] digit_char_props)
  next
    case False
    with "1.prems" have "c \<in> set (nat_to_string (n div 10)) \<or> c = digit_char (n mod 10)"
      by (auto simp: nat_to_string.simps [of n])
    then show ?thesis using "1.IH" False by (auto simp: digit_char_props)
  qed
qed

lemma nat_to_string_nonempty [simp]: "nat_to_string n \<noteq> []"
  by (subst nat_to_string.simps) simp

lemma digits_val_to_string [simp]: "digits_val 0 (nat_to_string n) = n"
proof (induction n rule: nat_to_string.induct)
  case (1 n)
  show ?case
  proof (cases "n < 10")
    case True
    then show ?thesis by (simp add: nat_to_string.simps [of n] digit_char_props)
  next
    case False
    with 1 show ?thesis by (simp add: nat_to_string.simps [of n] digits_val_append digit_char_props)
  qed
qed

definition isspace :: "char \<Rightarrow> bool" where
  "isspace c \<longleftrightarrow> c = CHR '' '' \<or> (9 \<le> (of_char c :: nat) \<and> (of_char c :: nat) \<le> 13)"

text \<open>
  \<open>strtoll\<close>/\<open>strtoull\<close> in base 10: skip white space, an optional sign, then the longest run of
  digits; what follows is ignored. \<open>None\<close> when there is no digit.
\<close>

definition strto_parts :: "string \<Rightarrow> (bool \<times> nat) option" where
  "strto_parts s =
     (let t = dropWhile isspace s;
          (neg, u) = (case t of
             [] \<Rightarrow> (False, [])
           | c # cs \<Rightarrow> if c = CHR ''-'' then (True, cs) else if c = CHR ''+'' then (False, cs) else (False, t));
          ds = takeWhile isdigit u
      in if ds = [] then None else Some (neg, digits_val 0 ds))"

definition stoll :: "string \<Rightarrow> int res" where
  "stoll s = (case strto_parts s of
       None \<Rightarrow> Inl (InvalidArgument ''stoll'')
     | Some (neg, n) \<Rightarrow>
         (let i = (if neg then - int n else int n)
          in if - (2 ^ 63) \<le> i \<and> i < 2 ^ 63 then Inr i else Inl (OutOfRange ''stoll'')))"

definition stoi :: "string \<Rightarrow> int res" where
  "stoi s = (case strto_parts s of
       None \<Rightarrow> Inl (InvalidArgument ''stoi'')
     | Some (neg, n) \<Rightarrow>
         (let i = (if neg then - int n else int n)
          in if - (2 ^ 31) \<le> i \<and> i < 2 ^ 31 then Inr i else Inl (OutOfRange ''stoi'')))"

definition stoull :: "string \<Rightarrow> u64 res" where
  "stoull s = (case strto_parts s of
       None \<Rightarrow> Inl (InvalidArgument ''stoull'')
     | Some (neg, n) \<Rightarrow>
         if n < 2 ^ 64 then Inr (if neg then - word_of_nat n else word_of_nat n)
         else Inl (OutOfRange ''stoull''))"

lemma isdigit_not_space: "isdigit c \<Longrightarrow> \<not> isspace c"
  by (auto simp: isdigit_def isspace_def)

lemma isdigit_not_sign: "isdigit c \<Longrightarrow> c \<noteq> CHR ''-'' \<and> c \<noteq> CHR ''+''"
  by (auto simp: isdigit_def)

lemma strto_parts_digits:
  assumes "s \<noteq> []" "\<forall>c \<in> set s. isdigit c"
  shows "strto_parts s = Some (False, digits_val 0 s)"
proof -
  obtain c cs where s: "s = c # cs" using assms(1) by (cases s) auto
  have d: "isdigit c" using assms(2) s by simp
  have tw: "takeWhile isdigit (c # cs) = c # cs" using assms(2) s by (metis takeWhile_eq_all_conv)
  show ?thesis
    using d by (simp add: s strto_parts_def Let_def isdigit_not_space isdigit_not_sign tw del: digits_val.simps takeWhile.simps)
qed

lemma strto_parts_to_string: "strto_parts (nat_to_string n) = Some (False, n)"
  using nat_to_string_digits by (simp add: strto_parts_digits)

lemma digits_val_zeros: "digits_val 0 (replicate n (CHR ''0'') @ s) = digits_val 0 s"
  by (induction n) (simp_all add: digit_val_def)

lemma strto_parts_neg: "strto_parts (CHR ''-'' # nat_to_string n) = Some (True, n)"
proof -
  have tw: "takeWhile isdigit (nat_to_string n) = nat_to_string n"
    using nat_to_string_digits by (metis takeWhile_eq_all_conv)
  show ?thesis
    by (simp add: strto_parts_def Let_def isspace_def tw)
qed

lemma stoll_to_string: "- (2 ^ 63) \<le> i \<Longrightarrow> i < 2 ^ 63 \<Longrightarrow> stoll (int_to_string i) = Inr i"
  by (auto simp: stoll_def int_to_string_def strto_parts_to_string strto_parts_neg)

lemma stoull_to_string: "stoull (nat_to_string (unat w)) = Inr w"
proof -
  have "unat w < 2 ^ 64" using unat_bound [of w] by simp
  then show ?thesis by (simp add: stoull_def strto_parts_to_string)
qed

section \<open>Bytes\<close>

fun le_bytes :: "nat \<Rightarrow> nat \<Rightarrow> bytes" where
  "le_bytes 0 n = []"
| "le_bytes (Suc k) n = char_of (n mod 256) # le_bytes k (n div 256)"

fun le_value :: "bytes \<Rightarrow> nat" where
  "le_value [] = 0"
| "le_value (c # cs) = of_char c + 256 * le_value cs"

lemma length_le_bytes [simp]: "length (le_bytes k n) = k"
  by (induction k arbitrary: n) auto

lemma le_value_le_bytes: "n < 256 ^ k \<Longrightarrow> le_value (le_bytes k n) = n"
proof (induction k arbitrary: n)
  case (Suc k)
  then have "n div 256 < 256 ^ k" by (simp add: less_mult_imp_div_less mult.commute)
  with Suc show ?case by simp
qed simp

definition le32 :: "u32 \<Rightarrow> bytes" where "le32 w = le_bytes 4 (unat w)"
definition le64 :: "u64 \<Rightarrow> bytes" where "le64 w = le_bytes 8 (unat w)"
definition be32 :: "u32 \<Rightarrow> bytes" where "be32 w = rev (le_bytes 4 (unat w))"
definition of_le32 :: "bytes \<Rightarrow> u32" where "of_le32 bs = word_of_nat (le_value bs)"
definition of_le64 :: "bytes \<Rightarrow> u64" where "of_le64 bs = word_of_nat (le_value bs)"
definition of_be32 :: "bytes \<Rightarrow> u32" where "of_be32 bs = word_of_nat (le_value (rev bs))"
definition byte8 :: "u8 \<Rightarrow> bytes" where "byte8 w = [char_of (unat w)]"
definition of_byte8 :: "bytes \<Rightarrow> u8" where "of_byte8 bs = word_of_nat (of_char (hd bs))"

lemma length_int_bytes [simp]:
  "length (le32 w) = 4" "length (le64 v) = 8" "length (be32 w) = 4" "length (byte8 b) = 1"
  by (simp_all add: le32_def le64_def be32_def byte8_def)

lemma of_le32_le32 [simp, codec_simps]: "of_le32 (le32 w) = w"
proof -
  have "unat w < 256 ^ 4" using unat_bound [of w] by simp
  then show ?thesis by (simp add: of_le32_def le32_def le_value_le_bytes del: le_bytes.simps)
qed

lemma of_le64_le64 [simp, codec_simps]: "of_le64 (le64 w) = w"
proof -
  have "unat w < 256 ^ 8" using unat_bound [of w] by simp
  then show ?thesis by (simp add: of_le64_def le64_def le_value_le_bytes del: le_bytes.simps)
qed

lemma of_be32_be32 [simp, codec_simps]: "of_be32 (be32 w) = w"
proof -
  have "unat w < 256 ^ 4" using unat_bound [of w] by simp
  then show ?thesis by (simp add: of_be32_def be32_def le_value_le_bytes del: le_bytes.simps)
qed

lemma of_byte8_byte8 [simp, codec_simps]: "of_byte8 (byte8 w) = w"
proof -
  have "unat w < 256" using unat_bound [of w] by simp
  then show ?thesis by (simp add: of_byte8_def byte8_def)
qed

text \<open>
  \<open>memcpy\<close> of \<open>n\<close> bytes at \<open>data + offset\<close>. Reading past the end of the buffer is undefined
  behaviour in the source.
\<close>

definition read_bytes :: "bytes \<Rightarrow> nat \<Rightarrow> nat \<Rightarrow> bytes res" where
  "read_bytes data off n = (if off + n \<le> length data then Inr (take n (drop off data)) else Inl UB)"

lemma read_bytes_append:
  "length pre = off \<Longrightarrow> length xs = n \<Longrightarrow> read_bytes (pre @ xs @ post) off n = Inr xs"
  by (auto simp: read_bytes_def)

lemma read_bytes_Inr_iff:
  "read_bytes data off n = Inr xs \<longleftrightarrow> off + n \<le> length data \<and> xs = take n (drop off data)"
  by (auto simp: read_bytes_def)

definition tolower :: "char \<Rightarrow> char" where
  "tolower c = (let n = (of_char c :: nat) in if 65 \<le> n \<and> n \<le> 90 then char_of (n + 32) else c)"

section \<open>Unordered containers\<close>

text \<open>
  \<open>std::unordered_set<std::string>\<close> is a list without repetitions and
  \<open>std::unordered_map\<close> an association list with distinct keys; the list order stands for the
  iteration order, which the C++ standard leaves open. New elements go to the end. Nothing but
  the order of an enumeration depends on that choice.
\<close>

type_synonym uset = "string list"
type_synonym 'v umap = "(string \<times> 'v) list"

definition uset_insert :: "string \<Rightarrow> uset \<Rightarrow> bool \<times> uset" where
  "uset_insert x s = (if x \<in> set s then (False, s) else (True, s @ [x]))"

definition uset_erase :: "string \<Rightarrow> uset \<Rightarrow> bool \<times> uset" where
  "uset_erase x s = (x \<in> set s, filter (\<lambda>y. y \<noteq> x) s)"

definition umap_emplace :: "string \<Rightarrow> 'v \<Rightarrow> 'v umap \<Rightarrow> 'v umap" where
  "umap_emplace k v m = (if map_of m k = None then m @ [(k, v)] else m)"

definition umap_erase :: "string \<Rightarrow> 'v umap \<Rightarrow> bool \<times> 'v umap" where
  "umap_erase k m = (map_of m k \<noteq> None, AList.delete k m)"

lemma uset_insert_props:
  assumes "distinct s"
  shows "distinct (snd (uset_insert x s))" "set (snd (uset_insert x s)) = insert x (set s)"
  using assms by (auto simp: uset_insert_def)

lemma uset_erase_props:
  assumes "distinct s"
  shows "distinct (snd (uset_erase x s))" "set (snd (uset_erase x s)) = set s - {x}"
  using assms by (auto simp: uset_erase_def)

lemma map_of_update [simp]: "map_of (AList.update k v m) = (map_of m)(k \<mapsto> v)"
  by (rule update_conv')

lemma map_of_delete [simp]: "map_of (AList.delete k m) = (map_of m)(k := None)"
  by (rule delete_conv')

end
