(* ===== verification/Serializer.thy ===== *)
theory Serializer
  imports CppLib
begin

text \<open>
  \<open>include/common/serialization/serializer.h\<close>: the length-prefixed encodings of strings and of
  containers of strings, and their decoders, which read at a data pointer plus an offset that
  they advance. A decoder returns the value and the new offset, or \<open>UB\<close> where the source would
  read past its buffer.

  The locale \<open>codec\<close> is the contract every encoding meets: decoding at the place where the
  encoding was written gives the value back and stops right after it, whatever stands before
  and behind. Sequences of encodings are handled once, inside the locale.
\<close>

type_synonym 'a decoder = "bytes \<Rightarrow> nat \<Rightarrow> ('a \<times> nat) res"

section \<open>Repeating a decoder\<close>

fun dec_n :: "nat \<Rightarrow> 'a decoder \<Rightarrow> 'a list decoder" where
  "dec_n 0 d data off = Inr ([], off)"
| "dec_n (Suc n) d data off =
     rbind (d data off) (\<lambda>(x, off'). rbind (dec_n n d data off') (\<lambda>(xs, off''). Inr (x # xs, off'')))"

definition dec_pair :: "'a decoder \<Rightarrow> 'b decoder \<Rightarrow> ('a \<times> 'b) decoder" where
  "dec_pair d e data off =
     rbind (d data off) (\<lambda>(x, off'). rbind (e data off') (\<lambda>(y, off''). Inr ((x, y), off'')))"

definition map_dec :: "('a \<Rightarrow> 'b) \<Rightarrow> 'a decoder \<Rightarrow> 'b decoder" where
  "map_dec f d data off = rbind (d data off) (\<lambda>(x, off'). Inr (f x, off'))"

locale codec =
  fixes enc :: "'a \<Rightarrow> bytes"
    and dec :: "'a decoder"
    and ok :: "'a \<Rightarrow> bool"
  assumes dec_enc:
    "ok x \<Longrightarrow> dec (pre @ enc x @ post) (length pre) = Inr (x, length pre + length (enc x))"
begin

lemma dec_enc_at:
  assumes "ok x" and "data = pre @ enc x @ post" and "off = length pre"
  shows "dec data off = Inr (x, off + length (enc x))"
  using dec_enc [of x pre post] assms by simp

lemma dec_n_enc:
  "list_all ok xs \<Longrightarrow>
     dec_n (length xs) dec (pre @ concat (map enc xs) @ post) (length pre)
       = Inr (xs, length pre + length (concat (map enc xs)))"
proof (induction xs arbitrary: pre)
  case Nil
  then show ?case by simp
next
  case (Cons x xs)
  let ?data = "pre @ concat (map enc (x # xs)) @ post"
  have one: "dec ?data (length pre) = Inr (x, length (pre @ enc x))"
    using Cons.prems by (subst dec_enc_at [where x = x and pre = pre and post = "concat (map enc xs) @ post"]) auto
  have "?data = (pre @ enc x) @ concat (map enc xs) @ post" by simp
  then have rest: "dec_n (length xs) dec ?data (length (pre @ enc x))
      = Inr (xs, length (pre @ enc x) + length (concat (map enc xs)))"
    using Cons.IH [of "pre @ enc x"] Cons.prems by simp
  show ?case using one rest by simp
qed

lemma dec_n_at:
  assumes "list_all ok xs" and "data = pre @ concat (map enc xs) @ post" and "off = length pre"
    and "n = length xs"
  shows "dec_n n dec data off = Inr (xs, off + length (concat (map enc xs)))"
  using dec_n_enc [of xs pre post] assms by simp

text \<open>An encoding determines its value and where it ends: no two streams are confused.\<close>

lemma enc_unique:
  assumes "ok x" "ok y" "enc x @ p = enc y @ q"
  shows "x = y \<and> p = q"
proof -
  have "dec (enc x @ p) 0 = Inr (x, length (enc x))"
    using dec_enc_at [OF assms(1), of "enc x @ p" "[]" p 0] by simp
  moreover have "dec (enc x @ p) 0 = Inr (y, length (enc y))"
    using dec_enc_at [OF assms(2), of "enc x @ p" "[]" q 0] assms(3) by simp
  ultimately show ?thesis using assms(3) by simp
qed

end

section \<open>Strings\<close>

definition ser_string :: "string \<Rightarrow> bytes" where
  "ser_string str = be32 (word_of_nat (length str)) @ str"

definition deserializeString :: "string decoder" where
  "deserializeString data off =
     rbind (read_bytes data off 4) (\<lambda>b4.
       let len = unat (of_be32 b4) in
       rbind (read_bytes data (off + 4) len) (\<lambda>s. Inr (s, off + 4 + len)))"

definition string_ok :: "string \<Rightarrow> bool" where
  "string_ok s \<longleftrightarrow> length s < 2 ^ 32"

lemma length_ser_string [simp]: "length (ser_string s) = 4 + length s"
  by (simp add: ser_string_def)

interpretation str: codec ser_string deserializeString string_ok
proof
  fix x pre post
  assume ok: "string_ok x"
  let ?w = "word_of_nat (length x) :: u32"
  have len: "unat ?w = length x"
    using ok by (simp add: string_ok_def unat_of_nat_lt)
  have r1: "read_bytes (pre @ ser_string x @ post) (length pre) 4 = Inr (be32 ?w)"
    using read_bytes_append [of pre "length pre" "be32 ?w" 4 "x @ post"] by (simp add: ser_string_def)
  have r2: "read_bytes (pre @ ser_string x @ post) (length pre + 4) (length x) = Inr x"
    using read_bytes_append [of "pre @ be32 ?w" "length pre + 4" x "length x" post]
    by (simp add: ser_string_def)
  show "deserializeString (pre @ ser_string x @ post) (length pre) = Inr (x, length pre + length (ser_string x))"
    using r1 r2 len by (simp add: deserializeString_def Let_def)
qed

lemma deserializeString_progress:
  "deserializeString data off = Inr (s, off') \<Longrightarrow> off + 4 \<le> off' \<and> off' \<le> length data"
  by (auto simp: deserializeString_def rbind_eq_Inr_iff read_bytes_Inr_iff Let_def)

section \<open>Containers of strings\<close>

definition ser_strings :: "string list \<Rightarrow> bytes" where
  "ser_strings vec = be32 (word_of_nat (length vec)) @ concat (map ser_string vec)"

definition ser_deque :: "string list \<Rightarrow> bytes" where
  "ser_deque deque = be32 (word_of_nat (length deque)) @ concat (map ser_string deque)"

definition ser_uset :: "uset \<Rightarrow> bytes" where
  "ser_uset st = be32 (word_of_nat (length st)) @ concat (map ser_string st)"

definition ser_kv :: "string \<times> string \<Rightarrow> bytes" where
  "ser_kv p = ser_string (fst p) @ ser_string (snd p)"

definition ser_pairs :: "(string \<times> string) list \<Rightarrow> bytes" where
  "ser_pairs vec = be32 (word_of_nat (length vec)) @ concat (map ser_kv vec)"

definition ser_umap :: "string umap \<Rightarrow> bytes" where
  "ser_umap m = be32 (word_of_nat (length m)) @ concat (map ser_kv m)"

definition deserialize_count :: "nat decoder" where
  "deserialize_count data off = rbind (read_bytes data off 4) (\<lambda>b. Inr (unat (of_be32 b), off + 4))"

definition deserializeVector :: "string list decoder" where
  "deserializeVector data off =
     rbind (deserialize_count data off) (\<lambda>(size, off1). dec_n size deserializeString data off1)"

definition deserializeKV :: "(string \<times> string) decoder" where
  "deserializeKV = dec_pair deserializeString deserializeString"

definition deserializePairs :: "(string \<times> string) list decoder" where
  "deserializePairs data off =
     rbind (deserialize_count data off) (\<lambda>(size, off1). dec_n size deserializeKV data off1)"

definition deserializeDeque :: "string list decoder" where
  "deserializeDeque data off =
     rbind (deserialize_count data off) (\<lambda>(size, off1). dec_n size deserializeString data off1)"

definition deserializeSet :: "uset decoder" where
  "deserializeSet data off =
     rbind (deserialize_count data off) (\<lambda>(size, off1).
       rbind (dec_n size deserializeString data off1) (\<lambda>(xs, off2).
         Inr (fold (\<lambda>x s. snd (uset_insert x s)) xs [], off2)))"

definition deserializeMap :: "string umap decoder" where
  "deserializeMap data off =
     rbind (deserialize_count data off) (\<lambda>(size, off1).
       rbind (dec_n size deserializeKV data off1) (\<lambda>(xs, off2).
         Inr (fold (\<lambda>(k, v) m. umap_emplace k v m) xs [], off2)))"

definition strings_ok :: "string list \<Rightarrow> bool" where
  "strings_ok xs \<longleftrightarrow> length xs < 2 ^ 32 \<and> list_all string_ok xs"

definition kv_ok :: "string \<times> string \<Rightarrow> bool" where
  "kv_ok p \<longleftrightarrow> string_ok (fst p) \<and> string_ok (snd p)"

definition pairs_ok :: "(string \<times> string) list \<Rightarrow> bool" where
  "pairs_ok xs \<longleftrightarrow> length xs < 2 ^ 32 \<and> list_all kv_ok xs"

definition uset_ok :: "uset \<Rightarrow> bool" where
  "uset_ok s \<longleftrightarrow> distinct s \<and> strings_ok s"

definition umap_ok :: "string umap \<Rightarrow> bool" where
  "umap_ok m \<longleftrightarrow> distinct (map fst m) \<and> pairs_ok m"

text \<open>
  Some values are read back in a normal form: equal to what was written in every observable
  respect, but laid out anew in memory. \<open>codec_upto\<close> is the contract with that normal form named.
\<close>

locale codec_upto =
  fixes enc :: "'a \<Rightarrow> bytes"
    and dec :: "'a decoder"
    and ok :: "'a \<Rightarrow> bool"
    and norm :: "'a \<Rightarrow> 'a"
  assumes dec_norm:
    "ok x \<Longrightarrow> dec (pre @ enc x @ post) (length pre) = Inr (norm x, length pre + length (enc x))"
begin

lemma dec_norm_at:
  assumes "ok x" and "data = pre @ enc x @ post" and "off = length pre"
  shows "dec data off = Inr (norm x, off + length (enc x))"
  using dec_norm [of x pre post] assms by simp

lemma map_dec_at:
  assumes "ok x" and "data = pre @ enc x @ post" and "off = length pre"
  shows "map_dec f dec data off = Inr (f (norm x), off + length (enc x))"
  using dec_norm_at [OF assms] by (simp add: map_dec_def)

lemma dec_n_norm_at:
  "list_all ok xs \<Longrightarrow> data = pre @ concat (map enc xs) @ post \<Longrightarrow> off = length pre \<Longrightarrow>
     dec_n (length xs) dec data off = Inr (map norm xs, off + length (concat (map enc xs)))"
proof (induction xs arbitrary: pre off)
  case (Cons x xs)
  have one: "dec data off = Inr (norm x, off + length (enc x))"
    using Cons.prems by (intro dec_norm_at [of x _ pre "concat (map enc xs) @ post"]) auto
  have "dec_n (length xs) dec data (off + length (enc x))
      = Inr (map norm xs, off + length (enc x) + length (concat (map enc xs)))"
    using Cons.prems by (intro Cons.IH [of "pre @ enc x"]) auto
  then show ?case using one by (simp add: add.assoc)
qed simp

end

sublocale codec \<subseteq> upto: codec_upto enc dec ok "\<lambda>x. x"
  by unfold_locales (rule dec_enc)

text \<open>Two encodings one after the other: the contract of the parts gives that of the pair.\<close>

locale codec_pair = fst: codec enc1 dec1 ok1 + snd: codec enc2 dec2 ok2
  for enc1 :: "'a \<Rightarrow> bytes" and dec1 ok1 and enc2 :: "'b \<Rightarrow> bytes" and dec2 ok2
begin

definition enc_pair :: "'a \<times> 'b \<Rightarrow> bytes" where
  "enc_pair p = enc1 (fst p) @ enc2 (snd p)"

definition ok_pair :: "'a \<times> 'b \<Rightarrow> bool" where
  "ok_pair p \<longleftrightarrow> ok1 (fst p) \<and> ok2 (snd p)"

end

sublocale codec_pair \<subseteq> pair: codec enc_pair "dec_pair dec1 dec2" ok_pair
proof
  fix x pre post
  assume ok: "ok_pair x"
  let ?data = "pre @ enc_pair x @ post"
  have 1: "dec1 ?data (length pre) = Inr (fst x, length (pre @ enc1 (fst x)))"
    using ok by (subst fst.dec_enc_at [of "fst x" _ pre "enc2 (snd x) @ post"]) (auto simp: ok_pair_def enc_pair_def)
  have 2: "dec2 ?data (length (pre @ enc1 (fst x)))
      = Inr (snd x, length (pre @ enc1 (fst x)) + length (enc2 (snd x)))"
    using ok by (subst snd.dec_enc_at [of "snd x" _ "pre @ enc1 (fst x)" post]) (auto simp: ok_pair_def enc_pair_def)
  show "dec_pair dec1 dec2 ?data (length pre) = Inr (x, length pre + length (enc_pair x))"
    using 1 2 by (simp add: dec_pair_def enc_pair_def)
qed

interpretation ss: codec_pair ser_string deserializeString string_ok ser_string deserializeString string_ok
  by unfold_locales

lemma ser_kv_pair: "ser_kv = ss.enc_pair"
  by (simp add: fun_eq_iff ser_kv_def ss.enc_pair_def)

lemma kv_ok_pair: "kv_ok = ss.ok_pair"
  by (simp add: fun_eq_iff kv_ok_def ss.ok_pair_def)

interpretation kv: codec ser_kv deserializeKV kv_ok
  unfolding ser_kv_pair kv_ok_pair deserializeKV_def by unfold_locales

text \<open>The shape all counted containers share: a big-endian count, then the elements.\<close>

lemma deserialize_count_at:
  assumes "data = pre @ be32 (word_of_nat n) @ post" and "off = length pre" and "n < 2 ^ 32"
  shows "deserialize_count data off = Inr (n, off + 4)"
  using assms read_bytes_append [of pre off "be32 (word_of_nat n)" 4 post]
  by (simp add: deserialize_count_def unat_of_nat_lt)

context codec
begin

lemma counted_dec:
  assumes "list_all ok xs" and "length xs < 2 ^ 32"
    and "enc_xs = be32 (word_of_nat (length xs)) @ concat (map enc xs)"
  shows "rbind (deserialize_count (pre @ enc_xs @ post) (length pre))
      (\<lambda>(size, off1). dec_n size dec (pre @ enc_xs @ post) off1) = Inr (xs, length pre + length enc_xs)"
proof -
  let ?c = "be32 (word_of_nat (length xs))"
  have "deserialize_count (pre @ enc_xs @ post) (length pre) = Inr (length xs, length (pre @ ?c))"
    using deserialize_count_at [of "pre @ enc_xs @ post" pre "length xs" "concat (map enc xs) @ post"]
      assms(2,3) by simp
  moreover have "dec_n (length xs) dec (pre @ enc_xs @ post) (length (pre @ ?c))
      = Inr (xs, length (pre @ ?c) + length (concat (map enc xs)))"
    by (rule dec_n_at [of xs _ "pre @ ?c" post]) (simp_all add: assms)
  ultimately show ?thesis by (simp add: assms(3))
qed

end

interpretation strs: codec ser_strings deserializeVector strings_ok
  by unfold_locales (simp only: deserializeVector_def, rule str.counted_dec [OF _ _ ser_strings_def], simp_all add: strings_ok_def)

interpretation dq: codec ser_deque deserializeDeque strings_ok
  by unfold_locales (simp only: deserializeDeque_def, rule str.counted_dec [OF _ _ ser_deque_def], simp_all add: strings_ok_def)

interpretation prs: codec ser_pairs deserializePairs pairs_ok
  by unfold_locales (simp only: deserializePairs_def, rule kv.counted_dec [OF _ _ ser_pairs_def], simp_all add: pairs_ok_def)

lemma fold_uset_insert: "distinct (s @ xs) \<Longrightarrow> fold (\<lambda>x s. snd (uset_insert x s)) xs s = s @ xs"
proof (induction xs arbitrary: s)
  case (Cons x xs)
  then have "x \<notin> set s" by auto
  with Cons show ?case by (simp add: uset_insert_def)
qed simp

lemma fold_umap_emplace:
  "distinct (map fst (m @ xs)) \<Longrightarrow> fold (\<lambda>(k, v) m. umap_emplace k v m) xs m = m @ xs"
proof (induction xs arbitrary: m)
  case (Cons x xs)
  obtain k v where x: "x = (k, v)" by fastforce
  from Cons.prems have "map_of m k = None" by (auto simp: x map_of_eq_None_iff)
  with Cons show ?case by (simp add: x umap_emplace_def)
qed simp

interpretation us: codec ser_uset deserializeSet uset_ok
proof
  fix x pre post
  assume ok: "uset_ok x"
  have "deserializeSet (pre @ ser_uset x @ post) (length pre) =
      rbind (rbind (deserialize_count (pre @ ser_uset x @ post) (length pre))
        (\<lambda>(size, off1). dec_n size deserializeString (pre @ ser_uset x @ post) off1))
        (\<lambda>(xs, off2). Inr (fold (\<lambda>x s. snd (uset_insert x s)) xs [], off2))"
    by (simp add: deserializeSet_def rbind_def split: sum.split)
  also have "\<dots> = Inr (x, length pre + length (ser_uset x))"
    using ok str.counted_dec [of x "ser_uset x" pre post] fold_uset_insert [of "[]" x]
    by (simp add: uset_ok_def strings_ok_def ser_uset_def)
  finally show "deserializeSet (pre @ ser_uset x @ post) (length pre) = Inr (x, length pre + length (ser_uset x))" .
qed

interpretation um: codec ser_umap deserializeMap umap_ok
proof
  fix x pre post
  assume ok: "umap_ok x"
  have "deserializeMap (pre @ ser_umap x @ post) (length pre) =
      rbind (rbind (deserialize_count (pre @ ser_umap x @ post) (length pre))
        (\<lambda>(size, off1). dec_n size deserializeKV (pre @ ser_umap x @ post) off1))
        (\<lambda>(xs, off2). Inr (fold (\<lambda>(k, v) m. umap_emplace k v m) xs [], off2))"
    by (simp add: deserializeMap_def rbind_def split: sum.split)
  also have "\<dots> = Inr (x, length pre + length (ser_umap x))"
    using ok kv.counted_dec [of x "ser_umap x" pre post] fold_umap_emplace [of "[]" x]
    by (simp add: umap_ok_def pairs_ok_def ser_umap_def)
  finally show "deserializeMap (pre @ ser_umap x @ post) (length pre) = Inr (x, length pre + length (ser_umap x))" .
qed

section \<open>Payloads without a count\<close>

text \<open>
  The loop \<open>while (offset < payload.size()) xs.push_back(deserializeString(...))\<close> of the WAL
  recovery handlers. Every string takes at least its four length bytes, so the loop ends.
\<close>

function dec_strings :: "bytes \<Rightarrow> nat \<Rightarrow> string list res" where
  "dec_strings data off =
     (if off < length data then
        (case deserializeString data off of
           Inl e \<Rightarrow> Inl e
         | Inr (s, off') \<Rightarrow> rbind (dec_strings data off') (\<lambda>xs. Inr (s # xs)))
      else Inr [])"
  by pat_completeness auto
termination
  by (relation "measure (\<lambda>(data, off). length data - off)") (auto dest: deserializeString_progress)

declare dec_strings.simps [simp del]

function dec_string_pairs :: "bytes \<Rightarrow> nat \<Rightarrow> (string \<times> string) list res" where
  "dec_string_pairs data off =
     (if off < length data then
        (case deserializeKV data off of
           Inl e \<Rightarrow> Inl e
         | Inr (p, off') \<Rightarrow> rbind (dec_string_pairs data off') (\<lambda>ps. Inr (p # ps)))
      else Inr [])"
  by pat_completeness auto
termination
  by (relation "measure (\<lambda>(data, off). length data - off)")
    (auto simp: deserializeKV_def dec_pair_def rbind_eq_Inr_iff dest!: deserializeString_progress)

declare dec_string_pairs.simps [simp del]

lemma dec_strings_enc:
  "list_all string_ok xs \<Longrightarrow> dec_strings (pre @ concat (map ser_string xs)) (length pre) = Inr xs"
proof (induction xs arbitrary: pre)
  case Nil
  then show ?case by (subst dec_strings.simps) simp
next
  case (Cons x xs)
  let ?data = "pre @ concat (map ser_string (x # xs))"
  have "deserializeString ?data (length pre) = Inr (x, length (pre @ ser_string x))"
    using Cons.prems by (subst str.dec_enc_at [of x _ pre "concat (map ser_string xs)"]) auto
  moreover have "dec_strings ?data (length (pre @ ser_string x)) = Inr xs"
    using Cons.IH [of "pre @ ser_string x"] Cons.prems by simp
  ultimately show ?case by (subst dec_strings.simps) simp
qed

lemma dec_string_pairs_enc:
  "list_all kv_ok xs \<Longrightarrow> dec_string_pairs (pre @ concat (map ser_kv xs)) (length pre) = Inr xs"
proof (induction xs arbitrary: pre)
  case Nil
  then show ?case by (subst dec_string_pairs.simps) simp
next
  case (Cons x xs)
  let ?data = "pre @ concat (map ser_kv (x # xs))"
  have "deserializeKV ?data (length pre) = Inr (x, length (pre @ ser_kv x))"
    using Cons.prems by (subst kv.dec_enc_at [of x _ pre "concat (map ser_kv xs)"]) auto
  moreover have "dec_string_pairs ?data (length (pre @ ser_kv x)) = Inr xs"
    using Cons.IH [of "pre @ ser_kv x"] Cons.prems by simp
  moreover have "length pre < length ?data" by (simp add: ser_kv_def)
  ultimately show ?case by (subst dec_string_pairs.simps) simp
qed

end
