(* ===== verification/SkipList.thy ===== *)
theory SkipList
  imports Serializer
begin

text \<open>
  \<open>SkipListNode\<close> and \<open>SkipList\<close> (\<open>common/ds/skip_list.h\<close>), the ordered map under the memtable
  and the sorted sets, on an explicit heap: a node is addressed by its index, node 0 is the
  sentinel \<open>head_\<close>, \<open>new\<close> takes the next index and \<open>delete\<close> empties the slot. A node's
  \<open>level\<close> is the length of its \<open>next\<close> array. The comparison and size functions the class takes
  as function pointers are the fields of \<open>sl_ops\<close>.

  The invariant says that every level is the sub-chain of the bottom level that it should be
  and that keys increase strictly; inside the locale \<open>ordered_keys\<close> each operation is shown to
  keep it and to act on the list of entries as its specification does. Loops over pointers run
  with the heap size as fuel, which the invariant shows to be enough: a chain visits a node at
  most once.
\<close>

section \<open>Nodes and the heap\<close>

record ('k, 'v) sl_node =
  nkey :: 'k
  nvalue :: 'v
  seq :: u32
  nxt :: "nat option list"

type_synonym ('k, 'v) sl_heap = "('k, 'v) sl_node option list"

record ('k, 'v) sl_ops =
  compare_func :: "'k \<Rightarrow> 'k \<Rightarrow> int"
  key_gt :: "'k \<Rightarrow> 'k \<Rightarrow> bool"
  key_size :: "'k \<Rightarrow> u64"
  value_size :: "'v \<Rightarrow> u64"
  default_key :: 'k
  default_value :: 'v
  sizeof_node :: u64

record ('k, 'v) skip_list =
  MAX_LEVEL :: nat
  current_level :: nat
  sl_heap :: "('k, 'v) sl_heap"
  sl_size :: nat
  current_size :: u64

definition new_node :: "'k \<Rightarrow> 'v \<Rightarrow> nat \<Rightarrow> ('k, 'v) sl_node" where
  "new_node k v level = \<lparr>nkey = k, nvalue = v, seq = 0, nxt = replicate level None\<rparr>"

text \<open>
  \<open>get_value\<close> without an interleaved writer. The \<open>continue\<close> in its do-while loop jumps to the
  loop condition, which compares the sequence number with itself: a node whose sequence number
  is odd yields the default value instead of being retried.
\<close>

definition get_value :: "('k, 'v) sl_ops \<Rightarrow> ('k, 'v) sl_node \<Rightarrow> 'v" where
  "get_value ops nd = (if odd (unat (seq nd)) then default_value ops else nvalue nd)"

definition set_value :: "'v \<Rightarrow> ('k, 'v) sl_node \<Rightarrow> ('k, 'v) sl_node" where
  "set_value v nd = nd\<lparr>nvalue := v, seq := seq nd + 1 + 1\<rparr>"

definition node_at :: "('k, 'v) sl_heap \<Rightarrow> nat \<Rightarrow> ('k, 'v) sl_node option" where
  "node_at h n = (if n < length h then h ! n else None)"

definition nd_of :: "('k, 'v) sl_heap \<Rightarrow> nat \<Rightarrow> ('k, 'v) sl_node" where
  "nd_of h n = the (node_at h n)"

definition key_of :: "('k, 'v) sl_heap \<Rightarrow> nat \<Rightarrow> 'k" where
  "key_of h n = nkey (nd_of h n)"

definition lvl :: "('k, 'v) sl_heap \<Rightarrow> nat \<Rightarrow> nat" where
  "lvl h n = (case node_at h n of None \<Rightarrow> 0 | Some nd \<Rightarrow> length (nxt nd))"

definition next_at :: "('k, 'v) sl_heap \<Rightarrow> nat \<Rightarrow> nat \<Rightarrow> nat option" where
  "next_at h i n = (case node_at h n of
       None \<Rightarrow> None
     | Some nd \<Rightarrow> if i < length (nxt nd) then nxt nd ! i else None)"

definition set_next :: "nat \<Rightarrow> nat \<Rightarrow> nat option \<Rightarrow> ('k, 'v) sl_heap \<Rightarrow> ('k, 'v) sl_heap" where
  "set_next i n p h = (case node_at h n of
       None \<Rightarrow> h
     | Some nd \<Rightarrow> h[n := Some (nd\<lparr>nxt := (nxt nd)[i := p]\<rparr>)])"

section \<open>Operations\<close>

definition random_level :: "bool list \<Rightarrow> nat \<Rightarrow> nat" where
  "random_level coins max_level = 1 + length (takeWhile id (take (max_level - 1) coins))"

definition init_current_size :: "('k, 'v) sl_ops \<Rightarrow> nat \<Rightarrow> u64" where
  "init_current_size ops max_level =
     key_size ops (default_key ops) + value_size ops (default_value ops) + 8 * word_of_nat max_level"

definition sl_new :: "('k, 'v) sl_ops \<Rightarrow> nat \<Rightarrow> ('k, 'v) skip_list" where
  "sl_new ops max_level =
     \<lparr>MAX_LEVEL = max_level, current_level = 1,
      sl_heap = [Some (new_node (default_key ops) (default_value ops) max_level)],
      sl_size = 0, current_size = init_current_size ops max_level\<rparr>"

text \<open>
  The search loop all operations share. \<open>walk\<close> moves right on one level while the next key
  satisfies \<open>P\<close>; \<open>descend\<close> does so from the top level down and records the \<open>update\<close> vector.
\<close>

fun walk :: "('k \<Rightarrow> bool) \<Rightarrow> ('k, 'v) sl_heap \<Rightarrow> nat \<Rightarrow> nat \<Rightarrow> nat \<Rightarrow> nat" where
  "walk P h i 0 cur = cur"
| "walk P h i (Suc fuel) cur = (case next_at h i cur of
       None \<Rightarrow> cur
     | Some n \<Rightarrow> if P (key_of h n) then walk P h i fuel n else cur)"

fun descend :: "('k \<Rightarrow> bool) \<Rightarrow> ('k, 'v) sl_heap \<Rightarrow> nat \<Rightarrow> nat \<Rightarrow> nat list \<Rightarrow> nat \<times> nat list" where
  "descend P h 0 cur upd = (cur, upd)"
| "descend P h (Suc i) cur upd =
     (let c = walk P h i (length h) cur in descend P h i c (c # upd))"

definition search_lt :: "('k, 'v) sl_ops \<Rightarrow> 'k \<Rightarrow> ('k, 'v) skip_list \<Rightarrow> nat \<times> nat list" where
  "search_lt ops key s = descend (\<lambda>k. compare_func ops k key < 0) (sl_heap s) (current_level s) 0 []"

text \<open>The node behind the search position, when its key equals the one searched.\<close>

definition find_node :: "('k, 'v) sl_ops \<Rightarrow> 'k \<Rightarrow> ('k, 'v) skip_list \<Rightarrow> nat option" where
  "find_node ops key s = (case next_at (sl_heap s) 0 (fst (search_lt ops key s)) of
       None \<Rightarrow> None
     | Some n \<Rightarrow> if compare_func ops (key_of (sl_heap s) n) key = 0 then Some n else None)"

definition node_bytes :: "('k, 'v) sl_ops \<Rightarrow> 'k \<Rightarrow> 'v \<Rightarrow> nat \<Rightarrow> u64" where
  "node_bytes ops k v level = key_size ops k + value_size ops v + 8 * word_of_nat level + sizeof_node ops"

definition sl_insert :: "('k, 'v) sl_ops \<Rightarrow> bool list \<Rightarrow> 'k \<Rightarrow> 'v \<Rightarrow> ('k, 'v) skip_list \<Rightarrow> ('k, 'v) skip_list" where
  "sl_insert ops coins key v s =
     (case find_node ops key s of
        Some n \<Rightarrow>
          let nd = nd_of (sl_heap s) n
          in s\<lparr>sl_heap := (sl_heap s)[n := Some (set_value v nd)],
               current_size := current_size s + (value_size ops v - value_size ops (get_value ops nd))\<rparr>
      | None \<Rightarrow>
          let h = sl_heap s;
              level = random_level coins (MAX_LEVEL s);
              update = snd (search_lt ops key s) @ replicate (level - current_level s) 0;
              node = (new_node key v level)\<lparr>nxt := map (\<lambda>i. next_at h i (update ! i)) [0..<level]\<rparr>
          in s\<lparr>current_level := max level (current_level s),
               sl_heap := fold (\<lambda>i. set_next i (update ! i) (Some (length h))) [0..<level] (h @ [Some node]),
               sl_size := sl_size s + 1,
               current_size := current_size s + node_bytes ops key v level\<rparr>)"

definition sl_get :: "('k, 'v) sl_ops \<Rightarrow> 'k \<Rightarrow> ('k, 'v) skip_list \<Rightarrow> 'v res" where
  "sl_get ops key s = (case find_node ops key s of
       Some n \<Rightarrow> Inr (get_value ops (nd_of (sl_heap s) n))
     | None \<Rightarrow> Inl (OutOfRange ''Key not found''))"

text \<open>
  \<open>handle_value\<close>: the callback changes the value in place and may throw midway; then the second
  increment of the sequence number and the size update do not happen.
\<close>

definition sl_handle_value ::
  "('k, 'v) sl_ops \<Rightarrow> 'k \<Rightarrow> ('v \<Rightarrow> 'r res \<times> 'v) \<Rightarrow> ('k, 'v) skip_list \<Rightarrow> ('r \<times> 'v) res \<times> ('k, 'v) skip_list" where
  "sl_handle_value ops key value_handle s = (case find_node ops key s of
       None \<Rightarrow> (Inl (OutOfRange ''Key not found''), s)
     | Some n \<Rightarrow>
         let nd = nd_of (sl_heap s) n; old_value = nvalue nd
         in case value_handle old_value of
              (Inl e, v) \<Rightarrow>
                (Inl e, s\<lparr>sl_heap := (sl_heap s)[n := Some (nd\<lparr>nvalue := v, seq := seq nd + 1\<rparr>)]\<rparr>)
            | (Inr r, v) \<Rightarrow>
                (Inr (r, old_value),
                 s\<lparr>sl_heap := (sl_heap s)[n := Some (nd\<lparr>nvalue := v, seq := seq nd + 1 + 1\<rparr>)],
                   current_size := current_size s + (value_size ops v - value_size ops old_value)\<rparr>))"

text \<open>Unlinking a node from its predecessors, bottom up, stopping at the first level it is not on.\<close>

fun unlink :: "nat \<Rightarrow> nat \<Rightarrow> nat list \<Rightarrow> ('k, 'v) sl_heap \<Rightarrow> ('k, 'v) sl_heap" where
  "unlink n i [] h = h"
| "unlink n i (u # us) h =
     (if next_at h i u \<noteq> Some n then h
      else unlink n (Suc i) us (set_next i u (next_at h i n) h))"

fun shrink_level :: "('k, 'v) sl_heap \<Rightarrow> nat \<Rightarrow> nat" where
  "shrink_level h 0 = 0"
| "shrink_level h (Suc l) = (if 0 < l \<and> next_at h l 0 = None then shrink_level h l else Suc l)"

definition sl_remove :: "('k, 'v) sl_ops \<Rightarrow> 'k \<Rightarrow> ('k, 'v) skip_list \<Rightarrow> bool \<times> ('k, 'v) skip_list" where
  "sl_remove ops key s = (case find_node ops key s of
       None \<Rightarrow> (False, s)
     | Some n \<Rightarrow>
         let nd = nd_of (sl_heap s) n;
             h = (unlink n 0 (snd (search_lt ops key s)) (sl_heap s))[n := None]
         in (True, s\<lparr>sl_heap := h, sl_size := sl_size s - 1,
                     current_level := shrink_level h (current_level s),
                     current_size := current_size s - node_bytes ops (nkey nd) (get_value ops nd) (length (nxt nd))\<rparr>))"

text \<open>The deletion loop of \<open>remove_range_by_key\<close>: heap, number of nodes and bytes removed.\<close>

fun remove_loop :: "('k, 'v) sl_ops \<Rightarrow> 'k \<Rightarrow> nat list \<Rightarrow> nat \<Rightarrow> nat option \<Rightarrow>
    ('k, 'v) sl_heap \<times> nat \<times> u64 \<Rightarrow> ('k, 'v) sl_heap \<times> nat \<times> u64" where
  "remove_loop ops max_key upd 0 cur st = st"
| "remove_loop ops max_key upd (Suc fuel) None st = st"
| "remove_loop ops max_key upd (Suc fuel) (Some n) (h, removed, sub) =
     (if compare_func ops (key_of h n) max_key \<le> 0 then
        let nd = nd_of h n
        in remove_loop ops max_key upd fuel (next_at h 0 n)
             ((unlink n 0 upd h)[n := None], removed + 1,
              sub + node_bytes ops (nkey nd) (get_value ops nd) (length (nxt nd)))
      else (h, removed, sub))"

definition sl_remove_range_by_key ::
  "('k, 'v) sl_ops \<Rightarrow> 'k \<Rightarrow> 'k \<Rightarrow> ('k, 'v) skip_list \<Rightarrow> nat \<times> ('k, 'v) skip_list" where
  "sl_remove_range_by_key ops min_key max_key s =
     (if key_gt ops min_key max_key then (0, s)
      else
        let (cur, upd) = search_lt ops min_key s;
            (h, removed, sub) = remove_loop ops max_key upd (length (sl_heap s))
              (next_at (sl_heap s) 0 cur) (sl_heap s, 0, 0)
        in (removed, s\<lparr>sl_heap := h, sl_size := sl_size s - removed,
                       current_size := current_size s - sub,
                       current_level := shrink_level h (current_level s)\<rparr>))"

text \<open>The nodes visited by a traversal of the bottom level from a given pointer.\<close>

fun chain :: "('k, 'v) sl_heap \<Rightarrow> nat \<Rightarrow> nat option \<Rightarrow> nat list" where
  "chain h 0 cur = []"
| "chain h (Suc fuel) None = []"
| "chain h (Suc fuel) (Some n) = n # chain h fuel (next_at h 0 n)"

definition sl_nodes :: "('k, 'v) skip_list \<Rightarrow> nat list" where
  "sl_nodes s = chain (sl_heap s) (length (sl_heap s)) (next_at (sl_heap s) 0 0)"

definition entry_of :: "('k, 'v) sl_ops \<Rightarrow> ('k, 'v) sl_heap \<Rightarrow> nat \<Rightarrow> 'k \<times> 'v" where
  "entry_of ops h n = (key_of h n, get_value ops (nd_of h n))"

definition sl_get_all_entries :: "('k, 'v) sl_ops \<Rightarrow> ('k, 'v) skip_list \<Rightarrow> ('k \<times> 'v) list" where
  "sl_get_all_entries ops s = map (entry_of ops (sl_heap s)) (sl_nodes s)"

definition sl_for_each :: "('k, 'v) sl_ops \<Rightarrow> ('k \<Rightarrow> 'v \<Rightarrow> 's \<Rightarrow> 's) \<Rightarrow> ('k, 'v) skip_list \<Rightarrow> 's \<Rightarrow> 's" where
  "sl_for_each ops callback s = fold (\<lambda>n. case entry_of ops (sl_heap s) n of (k, v) \<Rightarrow> callback k v) (sl_nodes s)"

definition sl_range_by_rank :: "('k, 'v) sl_ops \<Rightarrow> nat \<Rightarrow> nat \<Rightarrow> ('k, 'v) skip_list \<Rightarrow> ('k \<times> 'v) list" where
  "sl_range_by_rank ops start_rank end_rank s =
     (if end_rank < start_rank then []
      else map (entry_of ops (sl_heap s)) (drop start_rank (take (Suc end_rank) (sl_nodes s))))"

definition sl_remove_range_by_rank ::
  "('k, 'v) sl_ops \<Rightarrow> nat \<Rightarrow> nat \<Rightarrow> ('k, 'v) skip_list \<Rightarrow> nat \<times> ('k, 'v) skip_list" where
  "sl_remove_range_by_rank ops start_rank end_rank s =
     (if end_rank < start_rank then (0, s)
      else
        let ns = sl_nodes s;
            key_at = (\<lambda>i. if i < length ns then key_of (sl_heap s) (ns ! i) else default_key ops)
        in sl_remove_range_by_key ops (key_at start_rank) (key_at end_rank) s)"

text \<open>\<open>range_by_key\<close> starts at the node the search stops on, which is the last one not above \<open>min_key\<close>.\<close>

definition sl_range_by_key :: "('k, 'v) sl_ops \<Rightarrow> 'k \<Rightarrow> 'k \<Rightarrow> ('k, 'v) skip_list \<Rightarrow> ('k \<times> 'v) list" where
  "sl_range_by_key ops min_key max_key s =
     (if key_gt ops min_key max_key then []
      else
        let h = sl_heap s;
            cur = fst (descend (\<lambda>k. compare_func ops k min_key \<le> 0) h (current_level s) 0 [])
        in map (entry_of ops h)
             (takeWhile (\<lambda>n. compare_func ops (key_of h n) max_key \<le> 0) (chain h (length h) (Some cur))))"

definition sl_rank :: "('k, 'v) sl_ops \<Rightarrow> 'k \<Rightarrow> ('k, 'v) skip_list \<Rightarrow> nat option" where
  "sl_rank ops key s =
     (let h = sl_heap s; ns = sl_nodes s;
          r = length (takeWhile (\<lambda>n. compare_func ops (key_of h n) key < 0) ns)
      in if r < length ns \<and> compare_func ops (key_of h (ns ! r)) key = 0 then Some r else None)"

definition sl_clear :: "('k, 'v) sl_ops \<Rightarrow> ('k, 'v) skip_list \<Rightarrow> ('k, 'v) skip_list" where
  "sl_clear ops s =
     (let h = fold (\<lambda>n h. h[n := None]) (sl_nodes s) (sl_heap s)
      in s\<lparr>sl_heap := fold (\<lambda>i. set_next i 0 None) [0..<MAX_LEVEL s] h,
           current_level := 1, sl_size := 0, current_size := init_current_size ops (MAX_LEVEL s)\<rparr>)"

text \<open>
  Appending a node behind the last nodes of its levels: the loop body shared by the copy
  constructor, the copy assignment (\<open>tail_nodes\<close>) and \<open>deserialize\<close> (\<open>level_nodes\<close>).
\<close>

definition link_last :: "'k \<times> 'v \<times> nat \<Rightarrow> nat list \<times> ('k, 'v) sl_heap \<Rightarrow> nat list \<times> ('k, 'v) sl_heap" where
  "link_last e st = (case e of (k, v, level) \<Rightarrow> case st of (tails, h) \<Rightarrow>
     (map (\<lambda>j. if j < level then length h else tails ! j) [0..<length tails],
      fold (\<lambda>j. set_next j (tails ! j) (Some (length h))) [0..<level] (h @ [Some (new_node k v level)])))"

definition sl_copy :: "('k, 'v) sl_ops \<Rightarrow> ('k, 'v) skip_list \<Rightarrow> ('k, 'v) skip_list" where
  "sl_copy ops other =
     (let h = sl_heap other;
          head = [Some (new_node (default_key ops) (default_value ops) (MAX_LEVEL other))];
          es = map (\<lambda>n. (key_of h n, get_value ops (nd_of h n), lvl h n)) (sl_nodes other)
      in other\<lparr>sl_heap := snd (fold link_last es (replicate (MAX_LEVEL other) 0, head))\<rparr>)"

definition sl_serialize :: "('k, 'v) sl_ops \<Rightarrow> ('k \<Rightarrow> bytes) \<Rightarrow> ('v \<Rightarrow> bytes) \<Rightarrow> ('k, 'v) skip_list \<Rightarrow> bytes" where
  "sl_serialize ops sk sv s =
     be32 (word_of_nat (current_level s)) @ be32 (word_of_nat (sl_size s)) @
     concat (map (\<lambda>n. be32 (word_of_nat (lvl (sl_heap s) n)) @ sk (key_of (sl_heap s) n)
                      @ sv (get_value ops (nd_of (sl_heap s) n))) (sl_nodes s))"

definition dec_node :: "'k decoder \<Rightarrow> 'v decoder \<Rightarrow> ('k \<times> 'v \<times> nat) decoder" where
  "dec_node dk dv data off =
     rbind (deserialize_count data off) (\<lambda>(level, off1).
     rbind (dk data off1) (\<lambda>(k, off2).
     rbind (dv data off2) (\<lambda>(v, off3). Inr ((k, v, level), off3))))"

text \<open>
  \<open>level_nodes\<close> has \<open>curr_lvl + 1\<close> entries and the sentinel \<open>MAX_LEVEL\<close> links; a stored level
  beyond either is written out of bounds. \<open>current_size_\<close> is not touched.
\<close>

definition sl_deserialize ::
  "'k decoder \<Rightarrow> 'v decoder \<Rightarrow> bytes \<Rightarrow> nat \<Rightarrow> ('k, 'v) skip_list \<Rightarrow> (('k, 'v) skip_list \<times> nat) res" where
  "sl_deserialize dk dv data off s =
     rbind (deserialize_count data off) (\<lambda>(l, off1).
     rbind (deserialize_count data off1) (\<lambda>(sz, off2).
       let curr_lvl = min l (MAX_LEVEL s)
       in rbind (dec_n sz (dec_node dk dv) data off2) (\<lambda>(es, off3).
            if list_ex (\<lambda>(k, v, level). curr_lvl + 1 < level \<or> MAX_LEVEL s < level) es then Inl UB
            else Inr (s\<lparr>current_level := curr_lvl,
                        sl_heap := snd (fold link_last es (replicate (curr_lvl + 1) 0, sl_heap s)),
                        sl_size := sz\<rparr>, off3))))"

section \<open>Chains\<close>

text \<open>\<open>linked f c ns\<close>: following \<open>f\<close> from \<open>c\<close> visits exactly \<open>ns\<close> and then ends.\<close>

fun linked :: "(nat \<Rightarrow> nat option) \<Rightarrow> nat \<Rightarrow> nat list \<Rightarrow> bool" where
  "linked f c [] \<longleftrightarrow> f c = None"
| "linked f c (n # ns) \<longleftrightarrow> f c = Some n \<and> linked f n ns"

lemma linked_append: "linked f c (xs @ ys) \<Longrightarrow> linked f (last (c # xs)) ys"
  by (induction xs arbitrary: c) (auto split: if_splits)

lemma linked_next: "linked f c (xs @ ys) \<Longrightarrow> f (last (c # xs)) = (case ys of [] \<Rightarrow> None | y # _ \<Rightarrow> Some y)"
  by (drule linked_append) (cases ys; simp)

lemma linked_cong: "(\<And>n. n \<in> set (c # ns) \<Longrightarrow> f n = g n) \<Longrightarrow> linked f c ns = linked g c ns"
  by (induction ns arbitrary: c) auto

lemma linked_insert:
  assumes "linked f c (xs @ ys)" "distinct (c # xs @ ys)" "new \<notin> set (c # xs @ ys)"
  shows "linked (f(new := f (last (c # xs)), last (c # xs) := Some new)) c (xs @ new # ys)"
  using assms
proof (induction xs arbitrary: c)
  case Nil
  then show ?case
    by (cases ys) (auto intro: linked_cong [THEN iffD1, rotated])
next
  case (Cons x xs)
  let ?l = "last (x # xs)"
  have "linked (f(new := f ?l, ?l := Some new)) x (xs @ new # ys)"
    using Cons.prems by (intro Cons.IH) auto
  moreover have "c \<noteq> ?l" "c \<noteq> new" using Cons.prems last_in_set [of "x # xs"] by auto
  moreover have "last (c # x # xs) = ?l" by simp
  moreover have "f c = Some x" using Cons.prems by simp
  ultimately show ?case by (simp add: fun_upd_def del: last.simps)
qed

lemma linked_remove:
  assumes "linked f c (xs @ n # ys)" "distinct (c # xs @ n # ys)"
  shows "linked (f(last (c # xs) := f n)) c (xs @ ys)"
  using assms
proof (induction xs arbitrary: c)
  case Nil
  then show ?case
    by (cases ys) (auto intro: linked_cong [THEN iffD1, rotated])
next
  case (Cons x xs)
  have "c \<noteq> last (x # xs)" using Cons.prems last_in_set [of "x # xs"] by auto
  with Cons show ?case by simp
qed

lemma chain_linked: "linked (next_at h 0) c ns \<Longrightarrow> length ns \<le> fuel \<Longrightarrow> chain h fuel (next_at h 0 c) = ns"
proof (induction ns arbitrary: c fuel)
  case Nil
  then show ?case by (cases fuel) auto
next
  case (Cons n ns)
  then show ?case by (cases fuel) auto
qed

lemma walk_linked:
  "linked (next_at h i) c ns \<Longrightarrow> length ns \<le> fuel \<Longrightarrow>
     walk P h i fuel c = last (c # takeWhile (\<lambda>n. P (key_of h n)) ns)"
proof (induction ns arbitrary: c fuel)
  case Nil
  then show ?case by (cases fuel) auto
next
  case (Cons n ns)
  then show ?case by (cases fuel) auto
qed

section \<open>Heap updates\<close>

text \<open>What a node holds besides its links: unchanged by linking and unlinking.\<close>

definition core :: "('k, 'v) sl_heap \<Rightarrow> nat \<Rightarrow> ('k \<times> 'v \<times> u32 \<times> nat) option" where
  "core h n = map_option (\<lambda>nd. (nkey nd, nvalue nd, seq nd, length (nxt nd))) (node_at h n)"

lemma node_at_simps:
  "node_at (h[n := x]) m = (if m = n \<and> n < length h then x else node_at h m)"
  "node_at (h @ [x]) m = (if m = length h then x else node_at h m)"
  by (auto simp: node_at_def nth_append)

lemma node_at_bound: "node_at h n = Some nd \<Longrightarrow> n < length h"
  by (auto simp: node_at_def split: if_splits)

lemma length_set_next [simp]: "length (set_next i n p h) = length h"
  by (simp add: set_next_def split: option.split)

lemma next_set_next:
  "next_at (set_next i n p h) j m = (if j = i \<and> m = n \<and> i < lvl h n then p else next_at h j m)"
  by (auto simp: set_next_def next_at_def lvl_def node_at_simps nth_list_update
      split: option.splits dest: node_at_bound)

lemma core_set_next [simp]: "core (set_next i n p h) m = core h m"
  by (auto simp: set_next_def core_def node_at_simps split: option.splits)

lemma core_lvl: "core h n = core h' n' \<Longrightarrow> lvl h n = lvl h' n'"
  by (auto simp: core_def lvl_def split: option.splits)

lemma core_live: "core h n = core h' n' \<Longrightarrow> node_at h n = None \<longleftrightarrow> node_at h' n' = None"
  by (auto simp: core_def)

lemma core_entry:
  "core h n = core h' n' \<Longrightarrow> node_at h n \<noteq> None \<Longrightarrow>
     key_of h n = key_of h' n' \<and> entry_of ops h n = entry_of ops h' n'"
  by (cases "node_at h n"; cases "node_at h' n'") (auto simp: core_def entry_of_def key_of_def nd_of_def get_value_def)

lemma lvl_set_next [simp]: "lvl (set_next i n p h) m = lvl h m"
  by (rule core_lvl) simp

lemma next_beyond: "lvl h n \<le> i \<Longrightarrow> next_at h i n = None"
  by (auto simp: next_at_def lvl_def split: option.splits)

text \<open>The two linking loops, level by level.\<close>

lemma fold_set_next_core [simp]: "core (fold (\<lambda>i. set_next i (u i) p) is h) m = core h m"
  by (induction "is" arbitrary: h) auto

lemma fold_set_next_length [simp]: "length (fold (\<lambda>i. set_next i (u i) p) is h) = length h"
  by (induction "is" arbitrary: h) auto

lemma fold_set_next_next:
  "\<forall>i \<in> set is. i < lvl h (u i) \<Longrightarrow>
     next_at (fold (\<lambda>i. set_next i (u i) p) is h) j m = (if j \<in> set is \<and> m = u j then p else next_at h j m)"
  by (induction "is" arbitrary: h) (auto simp: next_set_next)

lemma unlink_core [simp]: "core (unlink n i us h) m = core h m"
  by (induction n i us h rule: unlink.induct) auto

lemma unlink_length [simp]: "length (unlink n i us h) = length h"
  by (induction n i us h rule: unlink.induct) auto

text \<open>
  When the node is the successor of the recorded predecessor exactly on its own levels,
  unlinking redirects those predecessors and nothing else.
\<close>

lemma unlink_next:
  assumes "\<And>j. j < length us \<Longrightarrow> next_at h (i + j) (us ! j) = Some n \<longleftrightarrow> i + j < L"
    and "L \<le> i + length us" and "n \<notin> set us"
  shows "next_at (unlink n i us h) j m =
    (if i \<le> j \<and> j < L \<and> m = us ! (j - i) then next_at h j n else next_at h j m)"
  using assms
proof (induction us arbitrary: i h)
  case Nil
  then have "\<not> (i \<le> j \<and> j < L)" by simp
  then show ?case by auto
next
  case (Cons u us)
  show ?case
  proof (cases "i < L")
    case False
    have "\<not> (i \<le> j \<and> j < L \<and> m = (u # us) ! (j - i))" using False by simp
    then show ?thesis using Cons.prems(1) [of 0] False by auto
  next
    case True
    then have u: "next_at h i u = Some n" using Cons.prems(1) [of 0] by simp
    then have iu: "i < lvl h u" using next_beyond [of h u i] by fastforce
    let ?h = "set_next i u (next_at h i n) h"
    have IH: "next_at (unlink n (Suc i) us ?h) j m =
      (if Suc i \<le> j \<and> j < L \<and> m = us ! (j - Suc i) then next_at ?h j n else next_at ?h j m)"
    proof (rule Cons.IH)
      fix j assume "j < length us"
      then show "next_at ?h (Suc i + j) (us ! j) = Some n \<longleftrightarrow> Suc i + j < L"
        using Cons.prems(1) [of "Suc j"] by (simp add: next_set_next)
    qed (use Cons.prems in auto)
    have "(u # us) ! (j - i) = (if j = i then u else us ! (j - Suc i))" if "i \<le> j"
      using that by (cases "j - i") (auto simp: nth_Cons Suc_diff_Suc [symmetric])
    then show ?thesis using IH u iu True Cons.prems(3)
      by (auto simp: next_set_next)
  qed
qed

section \<open>The structural invariant\<close>

text \<open>
  \<open>ids\<close> are the nodes of the bottom level in order. The nodes in use are the sentinel and
  \<open>ids\<close>, and level \<open>i\<close> links the nodes that are higher than \<open>i\<close>.
\<close>

definition tower :: "('k, 'v) sl_heap \<Rightarrow> nat \<Rightarrow> nat list \<Rightarrow> nat list" where
  "tower h i ids = filter (\<lambda>n. i < lvl h n) ids"

definition sl_struct :: "('k, 'v) sl_heap \<Rightarrow> nat \<Rightarrow> nat \<Rightarrow> nat list \<Rightarrow> bool" where
  "sl_struct h max_level cl ids \<longleftrightarrow>
     distinct (0 # ids) \<and>
     (\<forall>n. node_at h n \<noteq> None \<longleftrightarrow> n \<in> set (0 # ids)) \<and>
     lvl h 0 = max_level \<and> 1 \<le> cl \<and> cl \<le> max_level \<and>
     (\<forall>n \<in> set ids. 1 \<le> lvl h n \<and> lvl h n \<le> cl) \<and>
     (\<forall>i < max_level. linked (next_at h i) 0 (tower h i ids))"

lemma sl_struct_lvl: "sl_struct h ml cl ids \<Longrightarrow> n \<in> set ids \<Longrightarrow> 1 \<le> lvl h n \<and> lvl h n \<le> cl"
  by (simp add: sl_struct_def)

lemma tower_append: "tower h i (xs @ ys) = tower h i xs @ tower h i ys"
  by (simp add: tower_def)

lemma tower_0: "\<forall>n \<in> set ids. 1 \<le> lvl h n \<Longrightarrow> tower h 0 ids = ids"
  by (simp add: tower_def filter_id_conv Suc_le_eq)

lemma tower_top: "\<forall>n \<in> set ids. lvl h n \<le> i \<Longrightarrow> tower h i ids = []"
  by (auto simp: tower_def filter_empty_conv)

lemma tower_set: "set (tower h i ids) \<subseteq> set ids"
  by (auto simp: tower_def)

lemma tower_cong: "(\<And>n. n \<in> set ids \<Longrightarrow> lvl h n = lvl h' n) \<Longrightarrow> tower h i ids = tower h' i ids"
  by (auto simp: tower_def intro: filter_cong)

lemma distinct_tower: "distinct (c # ids) \<Longrightarrow> distinct (c # tower h i ids)"
  by (auto simp: tower_def)

lemma ids_bound: "\<forall>n \<in> set ids. node_at h n \<noteq> None \<Longrightarrow> distinct ids \<Longrightarrow> length ids \<le> length h"
proof -
  assume "\<forall>n \<in> set ids. node_at h n \<noteq> None" and d: "distinct ids"
  then have "set ids \<subseteq> {..<length h}" by (auto dest: node_at_bound)
  then have "card (set ids) \<le> card {..<length h}" by (rule card_mono [rotated]) simp
  with d show ?thesis by (simp add: distinct_card)
qed

text \<open>Where the search for a downward closed predicate ends: behind the last node that satisfies it.\<close>

definition preds :: "('k, 'v) sl_heap \<Rightarrow> nat list \<Rightarrow> nat \<Rightarrow> nat" where
  "preds h xs i = last (0 # tower h i xs)"

lemma walk_step:
  assumes st: "sl_struct h ml cl (xs @ ys)" and i: "i < ml"
    and xs: "\<forall>n \<in> set xs. P (key_of h n)" and ys: "\<forall>n \<in> set ys. \<not> P (key_of h n)"
  shows "walk P h i (length h) (preds h xs (Suc i)) = preds h xs i"
proof -
  let ?Q = "\<lambda>n. P (key_of h n)"
  have lk: "linked (next_at h i) 0 (tower h i xs @ tower h i ys)"
    using st i by (simp add: sl_struct_def tower_append)
  have len: "length (tower h i (xs @ ys)) \<le> length h"
    using st by (intro ids_bound) (auto simp: sl_struct_def tower_def)
  have tw: "takeWhile ?Q (zs @ tower h i ys) = zs" if "set zs \<subseteq> set xs" for zs
  proof -
    have "takeWhile ?Q (tower h i ys) = []"
      using ys tower_set [of h i ys] by (cases "tower h i ys") auto
    then show ?thesis using that xs by (subst takeWhile_append2) auto
  qed
  show ?thesis
  proof (cases "tower h (Suc i) xs")
    case Nil
    have "walk P h i (length h) 0 = last (0 # takeWhile ?Q (tower h i xs @ tower h i ys))"
      using len by (intro walk_linked [OF lk]) (simp add: tower_append)
    also have "\<dots> = preds h xs i" by (simp only: tw [OF tower_set] preds_def)
    finally show ?thesis using Nil by (simp add: preds_def)
  next
    case (Cons a as)
    define n where "n = last (tower h (Suc i) xs)"
    have "n \<in> set (tower h (Suc i) xs)" using Cons by (simp add: n_def)
    then have "n \<in> set (tower h i xs)" by (auto simp: tower_def)
    then obtain us vs where s: "tower h i xs = us @ n # vs" by (meson split_list)
    have "linked (next_at h i) n (vs @ tower h i ys)"
      using linked_append [of "next_at h i" 0 "us @ [n]" "vs @ tower h i ys"] lk s by simp
    moreover have "length (vs @ tower h i ys) \<le> length h" using len s by (simp add: tower_append)
    ultimately have "walk P h i (length h) n = last (n # takeWhile ?Q (vs @ tower h i ys))"
      by (rule walk_linked)
    also have "set vs \<subseteq> set xs" using s tower_set [of h i xs] by auto
    then have "last (n # takeWhile ?Q (vs @ tower h i ys)) = preds h xs i"
      using tw [of vs] by (simp add: preds_def s)
    finally show ?thesis using Cons by (simp add: preds_def n_def)
  qed
qed

lemma descend_preds:
  assumes st: "sl_struct h ml cl (xs @ ys)"
    and xs: "\<forall>n \<in> set xs. P (key_of h n)" and ys: "\<forall>n \<in> set ys. \<not> P (key_of h n)"
  shows "i \<le> ml \<Longrightarrow> descend P h i (preds h xs i) upd = (preds h xs 0, map (preds h xs) [0..<i] @ upd)"
proof (induction i arbitrary: upd)
  case (Suc i)
  then show ?case using walk_step [OF st _ xs ys, of i] by (simp add: Let_def)
qed simp

lemma preds_top: "sl_struct h ml cl (xs @ ys) \<Longrightarrow> cl \<le> i \<Longrightarrow> preds h xs i = 0"
proof -
  assume st: "sl_struct h ml cl (xs @ ys)" and "cl \<le> i"
  then have "\<forall>n \<in> set xs. lvl h n \<le> i" using sl_struct_lvl [OF st] by fastforce
  then show ?thesis by (simp add: preds_def tower_top)
qed

lemma next_preds:
  assumes "sl_struct h ml cl (xs @ ys)" "i < ml"
  shows "next_at h i (preds h xs i) = (case tower h i ys of [] \<Rightarrow> None | y # _ \<Rightarrow> Some y)"
  using assms linked_next [of "next_at h i" 0 "tower h i xs" "tower h i ys"]
  by (simp add: preds_def sl_struct_def tower_append)

lemma next_preds_0:
  assumes "sl_struct h ml cl (xs @ ys)"
  shows "next_at h 0 (preds h xs 0) = (case ys of [] \<Rightarrow> None | y # _ \<Rightarrow> Some y)"
proof -
  have "tower h 0 ys = ys" using assms by (intro tower_0) (auto simp: sl_struct_def)
  then show ?thesis using next_preds [OF assms, of 0] assms by (simp add: sl_struct_def)
qed

lemma preds_lvl:
  assumes "sl_struct h ml cl (xs @ ys)" "i < ml"
  shows "i < lvl h (preds h xs i)" "preds h xs i \<in> set (0 # xs)"
proof -
  have "preds h xs i \<in> set (0 # tower h i xs)" unfolding preds_def by (rule last_in_set) simp
  then show "i < lvl h (preds h xs i)" "preds h xs i \<in> set (0 # xs)"
    using assms by (auto simp: tower_def sl_struct_def)
qed

lemma descend_struct:
  assumes "sl_struct h ml cl (xs @ ys)"
    and "\<forall>n \<in> set xs. P (key_of h n)" and "\<forall>n \<in> set ys. \<not> P (key_of h n)"
  shows "descend P h cl 0 [] = (preds h xs 0, map (preds h xs) [0..<cl])"
  using descend_preds [OF assms, of cl "[]"] preds_top [OF assms(1), of cl] assms(1)
  by (simp add: sl_struct_def)

section \<open>The operations keep the structure\<close>

lemma sl_struct_linked: "sl_struct h ml cl ids \<Longrightarrow> i < ml \<Longrightarrow> linked (next_at h i) 0 (tower h i ids)"
  by (simp add: sl_struct_def)

lemma sl_struct_fresh: "sl_struct h ml cl ids \<Longrightarrow> length h \<notin> set (0 # ids)"
proof -
  assume "sl_struct h ml cl ids"
  then have "length h \<in> set (0 # ids) \<longleftrightarrow> node_at h (length h) \<noteq> None" unfolding sl_struct_def by blast
  then show ?thesis by (simp add: node_at_def)
qed

lemma sl_struct_insert:
  assumes st: "sl_struct h ml cl (xs @ ys)" and lev: "1 \<le> level" "level \<le> ml"
    and len: "length (nxt node) = level"
    and nxt: "\<And>i. i < level \<Longrightarrow> nxt node ! i = next_at h i (preds h xs i)"
    and h': "h' = fold (\<lambda>i. set_next i (u i) (Some (length h))) [0..<level] (h @ [Some node])"
    and u: "\<And>i. i < level \<Longrightarrow> u i = preds h xs i"
  shows "sl_struct h' ml (max level cl) (xs @ length h # ys)"
proof -
  let ?new = "length h" and ?h1 = "h @ [Some node]"
  have core': "core h' m = core ?h1 m" for m by (simp add: h')
  have lvl': "lvl h' m = (if m = ?new then level else lvl h m)" for m
    using core_lvl [OF core', of m] len by (auto simp: lvl_def node_at_simps)
  have live: "node_at h' m \<noteq> None \<longleftrightarrow> m = ?new \<or> node_at h m \<noteq> None" for m
    using core_live [OF core', of m] by (simp add: node_at_simps)
  have new: "?new \<notin> set (0 # xs @ ys)" by (rule sl_struct_fresh [OF st])
  have pos: "i < lvl ?h1 (u i)" if "i < level" for i
  proof -
    have "i < lvl h (preds h xs i)" "preds h xs i \<in> set (0 # xs)"
      using preds_lvl [OF st, of i] that lev by auto
    then show ?thesis using new u [OF that] by (auto simp: lvl_def node_at_simps)
  qed
  have next1: "next_at ?h1 i m = (if m = ?new then (if i < level then nxt node ! i else None) else next_at h i m)" for i m
    by (simp add: next_at_def node_at_simps len)
  have next': "next_at h' i m = (if i < level \<and> m = preds h xs i then Some ?new else next_at ?h1 i m)" for i m
    using fold_set_next_next [of "[0..<level]" ?h1 u "Some ?new" i m] pos u by (auto simp: h')
  have tow: "tower h' i zs = tower h i zs" if "set zs \<subseteq> set (xs @ ys)" for i zs
    using that new by (intro tower_cong) (auto simp: lvl')
  have "linked (next_at h' i) 0 (tower h' i (xs @ ?new # ys))" if i: "i < ml" for i
  proof (cases "i < level")
    case True
    have "next_at h' i = (next_at h i)(?new := next_at h i (preds h xs i), preds h xs i := Some ?new)"
      using True nxt [OF True] by (auto simp: fun_eq_iff next' next1)
    moreover have "tower h' i (xs @ ?new # ys) = tower h i xs @ ?new # tower h i ys"
      using True tow [of xs i] tow [of ys i] by (simp add: tower_append) (simp add: tower_def lvl')
    moreover have "distinct (0 # tower h i xs @ tower h i ys)" "?new \<notin> set (0 # tower h i xs @ tower h i ys)"
      using distinct_tower [of 0 "xs @ ys" h i] st new tower_set [of h i "xs @ ys"]
      by (auto simp: sl_struct_def tower_append)
    ultimately show ?thesis
      using linked_insert [of "next_at h i" 0 "tower h i xs" "tower h i ys" ?new] sl_struct_linked [OF st i]
      by (simp only: preds_def tower_append simp_thms not_False_eq_True)
  next
    case False
    have "tower h' i (xs @ ?new # ys) = tower h i (xs @ ys)"
      using False tow [of xs i] tow [of ys i] by (simp add: tower_append) (simp add: tower_def lvl')
    moreover have "linked (next_at h' i) 0 (tower h i (xs @ ys)) = linked (next_at h i) 0 (tower h i (xs @ ys))"
      using False new tower_set [of h i "xs @ ys"] by (intro linked_cong) (auto simp: next' next1)
    ultimately show ?thesis using sl_struct_linked [OF st i] by simp
  qed
  moreover have "distinct (0 # xs @ ?new # ys)" using st new by (auto simp: sl_struct_def)
  moreover have "lvl h' 0 = ml" using st new by (simp add: sl_struct_def lvl')
  moreover have "1 \<le> max level cl \<and> max level cl \<le> ml" using st lev by (simp add: sl_struct_def)
  moreover have "\<forall>n \<in> set (xs @ ?new # ys). 1 \<le> lvl h' n \<and> lvl h' n \<le> max level cl"
    using sl_struct_lvl [OF st] lev by (auto simp: lvl' le_max_iff_disj)
  moreover have "\<forall>m. node_at h' m \<noteq> None \<longleftrightarrow> m \<in> set (0 # xs @ ?new # ys)"
  proof -
    have "\<forall>m. node_at h m \<noteq> None \<longleftrightarrow> m \<in> set (0 # xs @ ys)" using st unfolding sl_struct_def by blast
    then show ?thesis using live by (metis Un_iff insert_iff list.simps(15) set_append)
  qed
  ultimately show ?thesis unfolding sl_struct_def by blast
qed

lemma sl_struct_unlink:
  assumes st: "sl_struct h ml cl (xs @ n # ys)"
    and us: "us = map (preds h xs) [0..<cl]"
    and h': "h' = (unlink n 0 us h)[n := None]"
  shows "sl_struct h' ml cl (xs @ ys)" "\<And>m. m \<noteq> n \<Longrightarrow> core h' m = core h m"
    "preds h' xs = preds h xs" "length h' = length h"
proof -
  have n: "n \<noteq> 0" "n \<notin> set xs" "n \<notin> set ys" using st by (auto simp: sl_struct_def)
  have cl: "cl \<le> ml" using st by (simp add: sl_struct_def)
  have nl: "1 \<le> lvl h n" "lvl h n \<le> cl" using sl_struct_lvl [OF st, of n] by simp_all
  have live_n: "n < length h" using st node_at_bound [of h n] by (fastforce simp: sl_struct_def)
  have succ: "next_at h j (us ! j) = Some n \<longleftrightarrow> j < lvl h n" if "j < length us" for j
  proof -
    have j: "j < ml" using that cl by (simp add: us)
    have "hd (tower h j ys) \<noteq> n" if "tower h j ys \<noteq> []"
      using n that tower_set [of h j ys] hd_in_set by fastforce
    then show ?thesis
      using next_preds [OF st j] that j by (auto simp: us tower_def split: list.splits)
  qed
  have "preds h xs j \<noteq> n" if "j < cl" for j
    using preds_lvl(2) [OF st, of j] that cl n by auto
  then have nus: "n \<notin> set us" by (force simp: us)
  have next1: "next_at (unlink n 0 us h) j m = (if j < lvl h n \<and> m = preds h xs j then next_at h j n else next_at h j m)" for j m
    using unlink_next [of us h 0 n "lvl h n" j m] succ nl nus by (auto simp: us)
  have core1: "core h' m = core h m" if "m \<noteq> n" for m
    using unlink_core [of n 0 us h m] that by (simp add: h' core_def node_at_simps)
  have noden: "node_at h' n = None" using live_n by (simp add: h' node_at_simps)
  have next': "next_at h' j m = (if j < lvl h n \<and> m = preds h xs j then next_at h j n else next_at h j m)" if "m \<noteq> n" for j m
    using next1 [of j m] that by (simp add: h' next_at_def node_at_simps)
  have lvl': "lvl h' m = lvl h m" if "m \<noteq> n" for m using core_lvl [OF core1 [OF that]] .
  have tow: "tower h' i zs = tower h i zs" if "n \<notin> set zs" for i zs
    using that by (intro tower_cong lvl') auto
  have lk: "linked (next_at h' i) 0 (tower h' i (xs @ ys))" if i: "i < ml" for i
  proof -
    let ?t = "tower h i xs @ tower h i ys"
    have t': "tower h' i (xs @ ys) = ?t" using tow [of "xs @ ys"] n by (simp add: tower_append)
    have old: "linked (next_at h i) 0 (tower h i xs @ (if i < lvl h n then [n] else []) @ tower h i ys)"
      using sl_struct_linked [OF st i] by (cases "i < lvl h n") (simp_all add: tower_def)
    have d: "distinct (0 # tower h i xs @ n # tower h i ys)"
      using st tower_set [of h i xs] tower_set [of h i ys] by (auto simp: sl_struct_def tower_def)
    have "linked (if i < lvl h n then (next_at h i)(preds h xs i := next_at h i n) else next_at h i) 0 ?t"
      using old linked_remove [OF _ d, of "next_at h i"]
      by (cases "i < lvl h n") (simp_all add: preds_def del: last.simps)
    moreover have "linked (next_at h' i) 0 ?t =
        linked (if i < lvl h n then (next_at h i)(preds h xs i := next_at h i n) else next_at h i) 0 ?t"
    proof (rule linked_cong)
      fix m assume "m \<in> set (0 # ?t)"
      then have "m \<noteq> n" using d by auto
      then show "next_at h' i m = (if i < lvl h n then (next_at h i)(preds h xs i := next_at h i n) else next_at h i) m"
        using next' [of m i] by simp
    qed
    ultimately show ?thesis using t' by simp
  qed
  have "node_at h' m \<noteq> None \<longleftrightarrow> m \<in> set (0 # xs @ ys)" for m
  proof (cases "m = n")
    case False
    then show ?thesis using core_live [OF core1 [OF False]] st by (auto simp: sl_struct_def)
  qed (use n noden in auto)
  moreover have "\<forall>m \<in> set (xs @ ys). 1 \<le> lvl h' m \<and> lvl h' m \<le> cl"
    using sl_struct_lvl [OF st] lvl' n by (metis Un_iff insert_iff list.simps(15) set_append)
  moreover have "lvl h' 0 = ml" using st lvl' [of 0] n by (simp add: sl_struct_def)
  ultimately show "sl_struct h' ml cl (xs @ ys)"
    using lk st unfolding sl_struct_def by (auto simp del: append_assoc)
  show "\<And>m. m \<noteq> n \<Longrightarrow> core h' m = core h m" by (rule core1)
  show "preds h' xs = preds h xs" using tow n by (simp add: preds_def fun_eq_iff)
  show "length h' = length h" by (simp add: h')
qed

lemma shrink_level_le: "shrink_level h l \<le> l" "1 \<le> l \<Longrightarrow> 1 \<le> shrink_level h l"
  by (induction l) auto

lemma shrink_level_empty: "shrink_level h l \<le> i \<Longrightarrow> i < l \<Longrightarrow> next_at h i 0 = None"
  by (induction l) (auto split: if_splits simp: less_Suc_eq)

lemma sl_struct_shrink:
  assumes st: "sl_struct h ml cl ids"
  shows "sl_struct h ml (shrink_level h cl) ids"
proof -
  let ?l = "shrink_level h cl"
  have "lvl h n \<le> ?l" if n: "n \<in> set ids" for n
  proof (rule ccontr)
    assume "\<not> lvl h n \<le> ?l"
    moreover have "?l < cl" using calculation sl_struct_lvl [OF st n] by simp
    ultimately have "next_at h ?l 0 = None" "n \<in> set (tower h ?l ids)" "?l < ml"
      using shrink_level_empty [of h cl ?l] n st by (auto simp: tower_def sl_struct_def)
    then show False using sl_struct_linked [OF st, of ?l] by (cases "tower h ?l ids") auto
  qed
  then show ?thesis
    using st shrink_level_le(1) [of h cl] shrink_level_le(2) [of cl h] by (auto simp: sl_struct_def)
qed

lemma sl_struct_set_node:
  assumes st: "sl_struct h ml cl ids" and n: "node_at h n = Some nd" and eq: "nxt nd' = nxt nd"
  shows "sl_struct (h[n := Some nd']) ml cl ids"
proof -
  let ?h = "h[n := Some nd']"
  have node: "node_at ?h m = (if m = n then Some nd' else node_at h m)" for m
    using node_at_bound [OF n] by (simp add: node_at_simps)
  have "next_at ?h i m = next_at h i m" "lvl ?h m = lvl h m" "node_at ?h m = None \<longleftrightarrow> node_at h m = None" for i m
    using n eq by (auto simp: next_at_def lvl_def node)
  then show ?thesis
    using st unfolding sl_struct_def tower_def by (simp add: linked_cong [of 0 _ "next_at ?h _" "next_at h _"])
qed

text \<open>Appending nodes at the end, with the last node of every level at hand.\<close>

lemma link_last_struct:
  assumes st: "sl_struct h ml cl ids" and t: "tails = map (preds h ids) [0..<T]"
    and l: "1 \<le> level" "level \<le> cl" "level \<le> T"
    and res: "link_last (k, v, level) (tails, h) = (tails', h')"
  shows "sl_struct h' ml cl (ids @ [length h])" "tails' = map (preds h' (ids @ [length h])) [0..<T]"
    "core h' = (core h)(length h := Some (k, v, 0, level))" "length h' = Suc (length h)"
proof -
  let ?new = "length h" and ?node = "new_node k v level"
  have h': "h' = fold (\<lambda>j. set_next j (tails ! j) (Some ?new)) [0..<level] (h @ [Some ?node])"
    and t': "tails' = map (\<lambda>j. if j < level then ?new else tails ! j) [0..<length tails]"
    using res by (simp_all add: link_last_def)
  have st0: "sl_struct h ml cl (ids @ [])" and cl: "cl \<le> ml" using st by (simp_all add: sl_struct_def)
  have tl: "tails ! j = preds h ids j" if "j < level" for j using that l t by simp
  have "nxt ?node ! i = next_at h i (preds h ids i)" if "i < level" for i
    using next_preds [OF st0, of i] that l cl by (simp add: new_node_def tower_def)
  then have "sl_struct h' ml (max level cl) (ids @ ?new # [])"
    using l cl tl by (intro sl_struct_insert [OF st0 _ _ _ _ h']) (auto simp: new_node_def)
  then show 1: "sl_struct h' ml cl (ids @ [?new])" using l by (simp add: max_absorb2)
  show c: "core h' = (core h)(?new := Some (k, v, 0, level))"
    unfolding h' fun_eq_iff fold_set_next_core by (auto simp: core_def node_at_simps new_node_def)
  show "length h' = Suc ?new" by (simp add: h')
  have new: "?new \<notin> set (0 # ids)" by (rule sl_struct_fresh [OF st])
  have lvl': "lvl h' m = (if m = ?new then level else lvl h m)" for m
    using fun_cong [OF c, of m] by (cases "node_at h' m"; cases "node_at h m") (auto simp: core_def lvl_def split: if_splits)
  have "tower h' j ids = tower h j ids" for j using new by (intro tower_cong) (auto simp: lvl')
  then have "preds h' (ids @ [?new]) j = (if j < level then ?new else preds h ids j)" for j
    by (simp add: preds_def tower_append) (simp add: tower_def lvl')
  then show "tails' = map (preds h' (ids @ [?new])) [0..<T]" by (simp add: t' t)
qed

lemma link_all_struct:
  assumes "sl_struct h ml cl ids" "tails = map (preds h ids) [0..<T]"
    "\<forall>(k, v, level) \<in> set es. 1 \<le> level \<and> level \<le> cl \<and> level \<le> T"
  shows "let h' = snd (fold link_last es (tails, h)); new = [length h..<length h + length es]
    in sl_struct h' ml cl (ids @ new) \<and> core h' 0 = core h 0 \<and> (\<forall>m \<in> set ids. core h' m = core h m) \<and>
      map (core h') new = map (\<lambda>(k, v, level). Some (k, v, 0, level)) es"
  using assms
proof (induction es arbitrary: h tails ids)
  case Nil
  then show ?case by simp
next
  case (Cons e es)
  obtain k v level where e: "e = (k, v, level)" by (cases e)
  obtain tails1 h1 where r: "link_last e (tails, h) = (tails1, h1)" by fastforce
  note step = link_last_struct [OF Cons.prems(1,2) _ _ _ r [unfolded e]]
  have l: "1 \<le> level" "level \<le> cl" "level \<le> T" using Cons.prems(3) by (auto simp: e)
  let ?ids = "ids @ [length h]"
  have IH: "let h' = snd (fold link_last es (tails1, h1)); new = [length h1..<length h1 + length es]
    in sl_struct h' ml cl (?ids @ new) \<and> core h' 0 = core h1 0 \<and> (\<forall>m \<in> set ?ids. core h' m = core h1 m) \<and>
      map (core h') new = map (\<lambda>(k, v, level). Some (k, v, 0, level)) es"
    using Cons.IH [OF step(1,2) [OF l]] Cons.prems(3) by simp
  have new: "length h \<notin> set (0 # ids)" by (rule sl_struct_fresh [OF Cons.prems(1)])
  have c1: "core h1 m = core h m" if "m \<noteq> length h" for m using that by (simp add: step(3) [OF l])
  have c2: "core h1 (length h) = Some (k, v, 0, level)" by (simp add: step(3) [OF l])
  have up: "[length h..<length h + length (e # es)] = length h # [Suc (length h)..<Suc (length h) + length es]"
    by (subst upt_conv_Cons) (simp_all del: upt_Suc)
  have fold: "fold link_last (e # es) (tails, h) = fold link_last es (tails1, h1)" by (simp add: r)
  have m: "core h1 0 = core h 0" "\<forall>m \<in> set ids. core h1 m = core h m"
    using c1 new by (metis list.set_intros)+
  show ?case
    using IH m c2 unfolding up fold Let_def step(4) [OF l] by (simp add: e)
qed

section \<open>Ordered keys\<close>

text \<open>
  What the skip list relies on in its comparison function: on the keys in use it is the order of
  some linear order under the ranking \<open>rk\<close>. Two keys of equal rank are the same key to the list.
\<close>

type_synonym 'v cell = "'v \<times> bool"

text \<open>A node's value, and whether its sequence number was left odd.\<close>

definition cell_of :: "('k, 'v) sl_heap \<Rightarrow> nat \<Rightarrow> 'k \<times> 'v cell" where
  "cell_of h n = (key_of h n, nvalue (nd_of h n), odd (unat (seq (nd_of h n))))"

definition observe :: "('k, 'v) sl_ops \<Rightarrow> 'v cell \<Rightarrow> 'v" where
  "observe ops c = (if snd c then default_value ops else fst c)"

definition sl_cells :: "('k, 'v) skip_list \<Rightarrow> ('k \<times> 'v cell) list" where
  "sl_cells s = map (cell_of (sl_heap s)) (sl_nodes s)"

text \<open>The specification of the operations on the ordered list of cells.\<close>

fun put_by :: "('k \<Rightarrow> 'o::linorder) \<Rightarrow> 'k \<Rightarrow> 'v \<Rightarrow> ('k \<times> 'v cell) list \<Rightarrow> ('k \<times> 'v cell) list" where
  "put_by rk k v [] = [(k, v, False)]"
| "put_by rk k v ((k', c) # xs) =
     (if rk k' < rk k then (k', c) # put_by rk k v xs
      else if rk k' = rk k then (k', v, snd c) # xs
      else (k, v, False) # (k', c) # xs)"

fun find_by :: "('k \<Rightarrow> 'o) \<Rightarrow> 'k \<Rightarrow> ('k \<times> 'c) list \<Rightarrow> 'c option" where
  "find_by rk k [] = None"
| "find_by rk k ((k', c) # xs) = (if rk k' = rk k then Some c else find_by rk k xs)"

definition alter_by :: "('k \<Rightarrow> 'o) \<Rightarrow> 'k \<Rightarrow> ('c \<Rightarrow> 'c) \<Rightarrow> ('k \<times> 'c) list \<Rightarrow> ('k \<times> 'c) list" where
  "alter_by rk k f xs = map (\<lambda>(k', c). if rk k' = rk k then (k', f c) else (k', c)) xs"

lemma put_by_append: "\<forall>x \<in> set xs. rk (fst x) < rk k \<Longrightarrow> put_by rk k v (xs @ ys) = xs @ put_by rk k v ys"
  by (induction xs) auto

lemma set_put_by_fresh:
  "\<forall>x \<in> set xs. rk (fst x) \<noteq> rk k \<Longrightarrow> set (put_by rk k v xs) = insert (k, v, False) (set xs)"
  by (induction rk k v xs rule: put_by.induct) (simp_all add: insert_commute)

lemma find_by_Some: "(k, c) \<in> set xs \<Longrightarrow> sorted_wrt (\<lambda>a b. rk a < (rk b :: 'o::linorder)) (map fst xs) \<Longrightarrow> find_by rk k xs = Some c"
  by (induction xs) force+

lemma find_by_mem: "find_by rk k xs = Some c \<Longrightarrow> \<exists>k'. (k', c) \<in> set xs \<and> rk k' = rk k"
  by (induction xs) (auto split: if_splits)

lemma find_by_append: "\<forall>x \<in> set xs. rk (fst x) \<noteq> rk k \<Longrightarrow> find_by rk k (xs @ ys) = find_by rk k ys"
  by (induction xs) auto

lemma find_by_none: "\<forall>x \<in> set xs. rk (fst x) \<noteq> rk k \<Longrightarrow> find_by rk k xs = None"
  by (induction xs) auto

lemma alter_by_other: "\<forall>x \<in> set xs. rk (fst x) \<noteq> rk k \<Longrightarrow> alter_by rk k f xs = xs"
  by (auto simp: alter_by_def intro!: map_idI)

lemma core_cell:
  "core h n = core h' n' \<Longrightarrow> node_at h n \<noteq> None \<Longrightarrow> cell_of h n = cell_of h' n'"
  by (cases "node_at h n"; cases "node_at h' n'") (auto simp: core_def cell_of_def key_of_def nd_of_def)

lemma entry_cell: "entry_of ops h n = (key_of h n, observe ops (snd (cell_of h n)))"
  by (simp add: entry_of_def cell_of_def observe_def get_value_def)

lemma fst_cell [simp]: "fst (cell_of h n) = key_of h n"
  by (simp add: cell_of_def)

lemma random_level_bounds: "1 \<le> m \<Longrightarrow> 1 \<le> random_level coins m \<and> random_level coins m \<le> m"
  using length_takeWhile_le [of id "take (m - 1) coins"] by (auto simp: random_level_def)

lemma even_seq_step [simp]:
  "even (unat (w + 1 :: u32)) \<longleftrightarrow> odd (unat w)"
  "even (unat (2 + w :: u32)) \<longleftrightarrow> even (unat w)"
proof -
  have *: "even (unat (w + 1 :: u32)) \<longleftrightarrow> odd (unat w)" for w
  proof -
    have "unat (w + 1) = (unat w + 1) mod 2 ^ 32" by (simp add: unat_word_ariths)
    then show ?thesis by (metis dvd_mod_iff even_add even_numeral even_power odd_one zero_less_numeral)
  qed
  have "2 + w = (w + 1) + 1" by simp
  then show "even (unat (w + 1)) \<longleftrightarrow> odd (unat w)" "even (unat (2 + w)) \<longleftrightarrow> even (unat w)"
    by (simp_all only: *) simp
qed

lemma split_at_first:
  "\<exists>xs ys. ids = xs @ ys \<and> (\<forall>x \<in> set xs. P x) \<and> (case ys of [] \<Rightarrow> True | y # _ \<Rightarrow> \<not> P y)"
proof -
  have "case dropWhile P ids of [] \<Rightarrow> True | y # _ \<Rightarrow> \<not> P y"
    using hd_dropWhile [of P ids] by (cases "dropWhile P ids") (simp_all only: list.case list.sel simp_thms list.distinct)
  moreover have "\<forall>x \<in> set (takeWhile P ids). P x" by (auto dest: set_takeWhileD)
  ultimately show ?thesis by (metis takeWhile_dropWhile_id)
qed

locale ordered_keys =
  fixes ops :: "('k, 'v) sl_ops"
    and rk :: "'k \<Rightarrow> 'o::linorder"
    and valid :: "'k \<Rightarrow> bool"
  assumes cmp_lt: "valid a \<Longrightarrow> valid b \<Longrightarrow> compare_func ops a b < 0 \<longleftrightarrow> rk a < rk b"
    and cmp_eq: "valid a \<Longrightarrow> valid b \<Longrightarrow> compare_func ops a b = 0 \<longleftrightarrow> rk a = rk b"
    and gt_iff: "valid a \<Longrightarrow> valid b \<Longrightarrow> key_gt ops a b \<longleftrightarrow> rk b < rk a"
begin

definition ordered_ks :: "'k list \<Rightarrow> bool" where
  "ordered_ks ks \<longleftrightarrow> sorted_wrt (\<lambda>a b. rk a < rk b) ks \<and> (\<forall>k \<in> set ks. valid k)"

definition ordered :: "('k, 'v) sl_heap \<Rightarrow> nat list \<Rightarrow> bool" where
  "ordered h ids \<longleftrightarrow> ordered_ks (map (key_of h) ids)"

lemma ordered_append:
  "ordered_ks (ks @ ls) \<longleftrightarrow> ordered_ks ks \<and> ordered_ks ls \<and> (\<forall>a \<in> set ks. \<forall>b \<in> set ls. rk a < rk b)"
  "ordered_ks (k # ks) \<longleftrightarrow> valid k \<and> ordered_ks ks \<and> (\<forall>b \<in> set ks. rk k < rk b)"
  "ordered_ks []"
  by (auto simp: ordered_ks_def sorted_wrt_append)

definition rep :: "('k, 'v) skip_list \<Rightarrow> nat list \<Rightarrow> bool" where
  "rep s ids \<longleftrightarrow> sl_struct (sl_heap s) (MAX_LEVEL s) (current_level s) ids \<and> ordered (sl_heap s) ids
     \<and> sl_size s = length ids
     \<and> core (sl_heap s) 0 = Some (default_key ops, default_value ops, 0, MAX_LEVEL s)"

definition sl_inv :: "('k, 'v) skip_list \<Rightarrow> bool" where
  "sl_inv s \<longleftrightarrow> rep s (sl_nodes s)"

lemma cmp_le: "valid a \<Longrightarrow> valid b \<Longrightarrow> compare_func ops a b \<le> 0 \<longleftrightarrow> rk a \<le> rk b"
  using cmp_lt [of a b] cmp_eq [of a b] by (auto simp: order.order_iff_strict)

lemma rep_nodes:
  assumes "rep s ids"
  shows "sl_nodes s = ids"
proof -
  have st: "sl_struct (sl_heap s) (MAX_LEVEL s) (current_level s) ids" using assms by (simp add: rep_def)
  then have t: "tower (sl_heap s) 0 ids = ids" by (intro tower_0) (simp add: sl_struct_def)
  have "length (0 # ids) \<le> length (sl_heap s)"
    using st by (intro ids_bound) (auto simp: sl_struct_def)
  moreover have "linked (next_at (sl_heap s) 0) 0 ids"
    using sl_struct_linked [OF st, of 0] st t by (simp add: sl_struct_def)
  ultimately show ?thesis
    unfolding sl_nodes_def by (intro chain_linked) auto
qed

lemma rep_inv: "rep s ids \<Longrightarrow> sl_inv s"
  by (simp add: sl_inv_def rep_nodes)

text \<open>Where the search for a key ends, and what it finds.\<close>

lemma ordered_split:
  assumes "ordered h ids" "valid k"
  obtains xs ys where "ids = xs @ ys" "\<forall>n \<in> set xs. rk (key_of h n) < rk k" "\<forall>n \<in> set ys. rk k \<le> rk (key_of h n)"
    "\<forall>n \<in> set ids. valid (key_of h n)" "\<forall>n \<in> set (tl ys). rk k < rk (key_of h n)"
proof -
  obtain xs ys where s: "ids = xs @ ys" "\<forall>n \<in> set xs. rk (key_of h n) < rk k"
    "case ys of [] \<Rightarrow> True | y # _ \<Rightarrow> \<not> rk (key_of h y) < rk k"
    using split_at_first [of ids "\<lambda>n. rk (key_of h n) < rk k"] by blast
  have "\<forall>n \<in> set ys. rk k \<le> rk (key_of h n)" "\<forall>n \<in> set (tl ys). rk k < rk (key_of h n)"
    using s assms(1) by (auto simp: ordered_def ordered_append not_less split: list.splits)
  moreover have "\<forall>n \<in> set ids. valid (key_of h n)" using assms(1) by (auto simp: ordered_def ordered_ks_def)
  ultimately show thesis using s that by metis
qed

lemma search_lt_split:
  assumes rep: "rep s (xs @ ys)" and k: "valid k"
    and xs: "\<forall>n \<in> set xs. rk (key_of (sl_heap s) n) < rk k"
    and ys: "\<forall>n \<in> set ys. rk k \<le> rk (key_of (sl_heap s) n)"
  shows "search_lt ops k s = (preds (sl_heap s) xs 0, map (preds (sl_heap s) xs) [0..<current_level s])"
    and "find_node ops k s = (case ys of [] \<Rightarrow> None | y # _ \<Rightarrow> if rk (key_of (sl_heap s) y) = rk k then Some y else None)"
proof -
  have st: "sl_struct (sl_heap s) (MAX_LEVEL s) (current_level s) (xs @ ys)"
    and va: "\<forall>n \<in> set (xs @ ys). valid (key_of (sl_heap s) n)"
    using rep by (auto simp: rep_def ordered_def ordered_ks_def)
  show 1: "search_lt ops k s = (preds (sl_heap s) xs 0, map (preds (sl_heap s) xs) [0..<current_level s])"
    unfolding search_lt_def using va xs ys k
    by (intro descend_struct [OF st]) (auto simp: cmp_lt not_less)
  show "find_node ops k s = (case ys of [] \<Rightarrow> None | y # _ \<Rightarrow> if rk (key_of (sl_heap s) y) = rk k then Some y else None)"
    using va k by (auto simp: find_node_def 1 next_preds_0 [OF st] cmp_eq split: list.splits)
qed

lemma rep_struct: "rep s ids \<Longrightarrow> sl_struct (sl_heap s) (MAX_LEVEL s) (current_level s) ids"
  by (simp add: rep_def)

lemma rep_cells: "rep s ids \<Longrightarrow> sl_cells s = map (cell_of (sl_heap s)) ids"
  by (simp add: sl_cells_def rep_nodes)

lemma rep_live: "rep s ids \<Longrightarrow> n \<in> set ids \<Longrightarrow> node_at (sl_heap s) n \<noteq> None"
  by (simp add: rep_def sl_struct_def)

lemma rep_of_inv: "sl_inv s \<Longrightarrow> rep s (sl_nodes s)"
  by (simp add: sl_inv_def)

text \<open>Replacing the contents of one node, keeping its key and links.\<close>

lemma rep_set_node:
  assumes rep: "rep s (xs @ n # ys)"
    and nd': "nkey nd' = key_of (sl_heap s) n" "nxt nd' = nxt (nd_of (sl_heap s) n)"
    and s': "sl_heap s' = (sl_heap s)[n := Some nd']" "MAX_LEVEL s' = MAX_LEVEL s"
      "current_level s' = current_level s" "sl_size s' = sl_size s"
  shows "rep s' (xs @ n # ys)"
    and "sl_cells s' = map (cell_of (sl_heap s)) xs @ (nkey nd', nvalue nd', odd (unat (seq nd'))) # map (cell_of (sl_heap s)) ys"
proof -
  obtain nd where nd: "node_at (sl_heap s) n = Some nd" using rep_live [OF rep, of n] by auto
  have n: "n \<notin> set xs" "n \<notin> set ys" using rep by (auto simp: rep_def sl_struct_def)
  have eq: "nd_of (sl_heap s') m = (if m = n then nd' else nd_of (sl_heap s) m)" for m
    using node_at_bound [OF nd] by (simp add: s' nd_of_def node_at_simps)
  have key: "key_of (sl_heap s') m = key_of (sl_heap s) m" for m
    using nd'(1) by (simp add: key_of_def eq)
  have "n \<noteq> 0" using rep by (auto simp: rep_def sl_struct_def)
  then have c0: "core (sl_heap s') 0 = core (sl_heap s) 0" by (simp add: s' core_def node_at_simps)
  have "sl_struct (sl_heap s') (MAX_LEVEL s') (current_level s') (xs @ n # ys)"
    using sl_struct_set_node [OF rep_struct [OF rep] nd, of nd'] nd' nd by (simp add: s' nd_of_def)
  then show r: "rep s' (xs @ n # ys)"
    using rep key c0 by (simp add: rep_def ordered_def) (simp add: s' cong: map_cong)
  have "cell_of (sl_heap s') m = cell_of (sl_heap s) m" if "m \<noteq> n" for m
    using that by (simp add: cell_of_def key eq)
  then show "sl_cells s' = map (cell_of (sl_heap s)) xs @ (nkey nd', nvalue nd', odd (unat (seq nd'))) # map (cell_of (sl_heap s)) ys"
    using n nd'(1) by (auto simp: rep_cells [OF r] cell_of_def key eq)
qed

lemma insert_new:
  assumes rep: "rep s (xs @ ys)" and k: "valid k"
    and xs: "\<forall>n \<in> set xs. rk (key_of (sl_heap s) n) < rk k"
    and ys: "\<forall>n \<in> set ys. rk k < rk (key_of (sl_heap s) n)"
  shows "rep (sl_insert ops coins k v s) (xs @ length (sl_heap s) # ys) \<and>
    sl_cells (sl_insert ops coins k v s) =
      map (cell_of (sl_heap s)) xs @ (k, v, False) # map (cell_of (sl_heap s)) ys"
proof -
  let ?h = "sl_heap s" and ?new = "length (sl_heap s)"
  let ?l = "random_level coins (MAX_LEVEL s)"
  note st = rep_struct [OF rep]
  have le: "\<forall>n \<in> set ys. rk k \<le> rk (key_of ?h n)" using ys by auto
  have search: "search_lt ops k s = (preds ?h xs 0, map (preds ?h xs) [0..<current_level s])"
    and nf: "find_node ops k s = None"
    using search_lt_split [OF rep k xs le] ys by (auto split: list.splits)
  define u where "u = map (preds ?h xs) [0..<current_level s] @ replicate (?l - current_level s) 0"
  have u: "u ! i = preds ?h xs i" if "i < ?l" for i
    using that preds_top [OF st, of i] by (auto simp: u_def nth_append)
  define node where "node = (new_node k v ?l)\<lparr>nxt := map (\<lambda>i. next_at ?h i (u ! i)) [0..<?l]\<rparr>"
  define h' where "h' = fold (\<lambda>i. set_next i (u ! i) (Some ?new)) [0..<?l] (?h @ [Some node])"
  let ?s = "sl_insert ops coins k v s"
  have s': "sl_heap ?s = h'" "MAX_LEVEL ?s = MAX_LEVEL s" "current_level ?s = max ?l (current_level s)"
    "sl_size ?s = sl_size s + 1"
    by (simp_all add: sl_insert_def nf search Let_def h'_def node_def u_def)
  have lev: "1 \<le> ?l \<and> ?l \<le> MAX_LEVEL s"
    using random_level_bounds [of "MAX_LEVEL s"] st by (auto simp: sl_struct_def)
  have st': "sl_struct h' (MAX_LEVEL s) (max ?l (current_level s)) (xs @ ?new # ys)"
    using lev u by (intro sl_struct_insert [OF st _ _ _ _ h'_def]) (auto simp: node_def)
  have core': "core h' m = (if m = ?new then Some (k, v, 0, ?l) else core ?h m)" for m
    unfolding h'_def fold_set_next_core by (auto simp: core_def node_at_simps node_def new_node_def)
  have new: "key_of h' ?new = k \<and> cell_of h' ?new = (k, v, False)"
    using core' [of ?new] by (auto simp: core_def cell_of_def key_of_def nd_of_def)
  have nn: "?new \<notin> set (0 # xs @ ys)" by (rule sl_struct_fresh [OF st])
  have old: "key_of h' m = key_of ?h m \<and> cell_of h' m = cell_of ?h m" if "m \<in> set (xs @ ys)" for m
  proof -
    have "core h' m = core ?h m" using that nn core' [of m] by auto
    then show ?thesis
      using core_entry [of ?h m h' m] core_cell [of ?h m h' m] rep_live [OF rep that] by simp
  qed
  have "ordered h' (xs @ ?new # ys)"
  proof -
    have "map (key_of h') (xs @ ?new # ys) = map (key_of ?h) xs @ k # map (key_of ?h) ys"
      using old new by simp
    moreover have "ordered_ks (map (key_of ?h) xs @ k # map (key_of ?h) ys)"
      using rep k xs ys by (auto simp: rep_def ordered_def ordered_append)
    ultimately show ?thesis by (simp only: ordered_def)
  qed
  then have r: "rep ?s (xs @ ?new # ys)"
    using st' rep core' [of 0] nn by (simp add: rep_def s')
  then show ?thesis using old new by (simp add: rep_cells [OF r] s')
qed

lemma insert_spec:
  assumes inv: "sl_inv s" and k: "valid k"
  shows "sl_inv (sl_insert ops coins k v s)"
    and "sl_cells (sl_insert ops coins k v s) = put_by rk k v (sl_cells s)"
proof -
  let ?h = "sl_heap s"
  note rep0 = rep_of_inv [OF inv]
  then have "ordered ?h (sl_nodes s)" by (simp add: rep_def)
  then obtain xs ys where ids: "sl_nodes s = xs @ ys" and xs: "\<forall>n \<in> set xs. rk (key_of ?h n) < rk k"
    and ys: "\<forall>n \<in> set ys. rk k \<le> rk (key_of ?h n)" "\<forall>n \<in> set (tl ys). rk k < rk (key_of ?h n)"
    using ordered_split [OF _ k] by metis
  have rep: "rep s (xs @ ys)" using rep0 ids by simp
  have cells: "sl_cells s = map (cell_of ?h) xs @ map (cell_of ?h) ys" by (simp add: rep_cells [OF rep])
  have put: "put_by rk k v (sl_cells s) = map (cell_of ?h) xs @ put_by rk k v (map (cell_of ?h) ys)"
    unfolding cells using xs by (intro put_by_append) auto
  show "sl_inv (sl_insert ops coins k v s)"
    and "sl_cells (sl_insert ops coins k v s) = put_by rk k v (sl_cells s)"
  proof (atomize(full), cases "\<exists>y zs. ys = y # zs \<and> rk (key_of ?h y) = rk k")
    case True
    then obtain y zs where y: "ys = y # zs" "rk (key_of ?h y) = rk k" by blast
    then have f: "find_node ops k s = Some y" using search_lt_split(2) [OF rep k xs ys(1)] by simp
    have rep': "rep s (xs @ y # zs)" using rep y by simp
    let ?nd = "set_value v (nd_of ?h y)"
    have nd: "nkey ?nd = key_of ?h y" "nxt ?nd = nxt (nd_of ?h y)" by (simp_all add: set_value_def key_of_def)
    have "put_by rk k v (map (cell_of ?h) ys) = (nkey ?nd, nvalue ?nd, odd (unat (seq ?nd))) # map (cell_of ?h) zs"
      using y by (simp add: cell_of_def set_value_def key_of_def)
    then show "sl_inv (sl_insert ops coins k v s) \<and>
        sl_cells (sl_insert ops coins k v s) = put_by rk k v (sl_cells s)"
      using rep_set_node [OF rep' nd, of "sl_insert ops coins k v s"] put rep_inv
      by (simp add: sl_insert_def f Let_def)
  next
    case False
    then have lt: "\<forall>n \<in> set ys. rk k < rk (key_of ?h n)" using ys by (cases ys) auto
    then have "put_by rk k v (map (cell_of ?h) ys) = (k, v, False) # map (cell_of ?h) ys"
      by (cases ys) (auto simp: cell_of_def)
    then show "sl_inv (sl_insert ops coins k v s) \<and>
        sl_cells (sl_insert ops coins k v s) = put_by rk k v (sl_cells s)"
      using insert_new [OF rep k xs lt] put rep_inv by metis
  qed
qed

lemma find_cases:
  assumes inv: "sl_inv s" and k: "valid k"
  obtains (found) xs n ys where "rep s (xs @ n # ys)" "find_node ops k s = Some n"
      "snd (search_lt ops k s) = map (preds (sl_heap s) xs) [0..<current_level s]"
      "rk (key_of (sl_heap s) n) = rk k"
      "\<forall>m \<in> set xs. rk (key_of (sl_heap s) m) < rk k" "\<forall>m \<in> set ys. rk k < rk (key_of (sl_heap s) m)"
  | (absent) "find_node ops k s = None" "\<forall>x \<in> set (sl_cells s). rk (fst x) \<noteq> rk k"
proof -
  let ?h = "sl_heap s"
  note rep0 = rep_of_inv [OF inv]
  then have "ordered ?h (sl_nodes s)" by (simp add: rep_def)
  then obtain xs ys where ids: "sl_nodes s = xs @ ys" and xs: "\<forall>n \<in> set xs. rk (key_of ?h n) < rk k"
    and ys: "\<forall>n \<in> set ys. rk k \<le> rk (key_of ?h n)" "\<forall>n \<in> set (tl ys). rk k < rk (key_of ?h n)"
    using ordered_split [OF _ k] by metis
  have rep: "rep s (xs @ ys)" using rep0 ids by simp
  note find = search_lt_split [OF rep k xs ys(1)]
  show thesis
  proof (cases "\<exists>y zs. ys = y # zs \<and> rk (key_of ?h y) = rk k")
    case True
    then obtain y zs where "ys = y # zs" "rk (key_of ?h y) = rk k" by blast
    then show thesis using rep find xs ys(2) by (intro found [of xs y zs]) auto
  next
    case False
    then have "find_node ops k s = None" using find(2) by (cases ys) auto
    moreover have "\<forall>n \<in> set ys. rk k \<noteq> rk (key_of ?h n)" using False ys by (cases ys) auto
    then have "\<forall>x \<in> set (sl_cells s). rk (fst x) \<noteq> rk k"
      using xs by (auto simp: rep_cells [OF rep])
    ultimately show thesis by (rule absent)
  qed
qed

lemma found_cells:
  assumes "rep s (xs @ n # ys)" "rk (key_of (sl_heap s) n) = rk k"
    "\<forall>m \<in> set xs. rk (key_of (sl_heap s) m) < rk k" "\<forall>m \<in> set ys. rk k < rk (key_of (sl_heap s) m)"
  shows "find_by rk k (sl_cells s) = Some (snd (cell_of (sl_heap s) n))"
    and "alter_by rk k f (sl_cells s) =
      map (cell_of (sl_heap s)) xs @ (key_of (sl_heap s) n, f (snd (cell_of (sl_heap s) n))) # map (cell_of (sl_heap s)) ys"
    and "filter (\<lambda>x. rk (fst x) \<noteq> rk k) (sl_cells s) = map (cell_of (sl_heap s)) (xs @ ys)"
proof -
  let ?c = "cell_of (sl_heap s)"
  have xs: "\<forall>x \<in> set (map ?c xs). rk (fst x) \<noteq> rk k" and ys: "\<forall>x \<in> set (map ?c ys). rk (fst x) \<noteq> rk k"
    using assms by auto
  have cells: "sl_cells s = map ?c xs @ (key_of (sl_heap s) n, snd (?c n)) # map ?c ys"
    by (simp add: rep_cells [OF assms(1)]) (simp add: cell_of_def)
  show "find_by rk k (sl_cells s) = Some (snd (?c n))"
    unfolding cells using find_by_append [OF xs] assms(2) by simp
  show "alter_by rk k f (sl_cells s) = map ?c xs @ (key_of (sl_heap s) n, f (snd (?c n))) # map ?c ys"
    unfolding cells using alter_by_other [OF xs, of f] alter_by_other [OF ys, of f] assms(2)
    by (simp add: alter_by_def)
  show "filter (\<lambda>x. rk (fst x) \<noteq> rk k) (sl_cells s) = map ?c (xs @ ys)"
    unfolding cells using xs ys assms(2) by (simp add: filter_id_conv)
qed

lemma get_spec:
  assumes "sl_inv s" "valid k"
  shows "sl_get ops k s = (case find_by rk k (sl_cells s) of
    Some c \<Rightarrow> Inr (observe ops c) | None \<Rightarrow> Inl (OutOfRange ''Key not found''))"
  using assms
proof (cases rule: find_cases)
  case (found xs n ys)
  then show ?thesis
    using found_cells(1) [OF found(1,4,5,6)] entry_cell [of ops "sl_heap s" n]
    by (simp add: sl_get_def entry_of_def)
next
  case absent
  then show ?thesis by (simp add: sl_get_def find_by_none)
qed

lemma handle_spec:
  assumes "sl_inv s" "valid k"
  shows "case find_by rk k (sl_cells s) of
      None \<Rightarrow> sl_handle_value ops k f s = (Inl (OutOfRange ''Key not found''), s)
    | Some (v, stuck) \<Rightarrow>
        \<exists>s'. sl_handle_value ops k f s = (map_sum id (\<lambda>r. (r, v)) (fst (f v)), s') \<and> sl_inv s' \<and>
          sl_cells s' = alter_by rk k (\<lambda>_. (snd (f v), stuck \<noteq> (\<exists>e. fst (f v) = Inl e))) (sl_cells s)"
  using assms
proof (cases rule: find_cases)
  case absent
  then show ?thesis by (simp add: sl_handle_value_def find_by_none)
next
  case (found xs n ys)
  let ?nd = "nd_of (sl_heap s) n" and ?s = "snd (sl_handle_value ops k f s)"
  let ?nd' = "?nd\<lparr>nvalue := snd (f (nvalue ?nd)),
    seq := (case fst (f (nvalue ?nd)) of Inl _ \<Rightarrow> seq ?nd + 1 | Inr _ \<Rightarrow> seq ?nd + 1 + 1)\<rparr>"
  have s': "sl_heap ?s = (sl_heap s)[n := Some ?nd']" "MAX_LEVEL ?s = MAX_LEVEL s"
    "current_level ?s = current_level s" "sl_size ?s = sl_size s"
    by (auto simp: sl_handle_value_def found(2) Let_def split: prod.splits sum.splits)
  have res: "fst (sl_handle_value ops k f s) = map_sum id (\<lambda>r. (r, nvalue ?nd)) (fst (f (nvalue ?nd)))"
    by (auto simp: sl_handle_value_def found(2) Let_def split: prod.splits sum.splits)
  have keep: "nkey ?nd' = key_of (sl_heap s) n" "nxt ?nd' = nxt ?nd" by (simp_all add: key_of_def)
  note set = rep_set_node [OF found(1) keep s']
  have stuck: "odd (unat (seq ?nd')) \<longleftrightarrow> odd (unat (seq ?nd)) \<noteq> (\<exists>e. fst (f (nvalue ?nd)) = Inl e)"
    by (cases "fst (f (nvalue ?nd))") auto
  have cell: "find_by rk k (sl_cells s) = Some (nvalue ?nd, odd (unat (seq ?nd)))"
    using found_cells(1) [OF found(1,4,5,6)] by (simp add: cell_of_def)
  have "sl_cells ?s = alter_by rk k (\<lambda>_. (snd (f (nvalue ?nd)), odd (unat (seq ?nd)) \<noteq> (\<exists>e. fst (f (nvalue ?nd)) = Inl e))) (sl_cells s)"
    using set(2) stuck keep(1) by (simp add: found_cells(2) [OF found(1,4,5,6)])
  then show ?thesis
    using cell res rep_inv [OF set(1)] by (simp add: prod_eq_iff)
qed

lemma remove_spec:
  assumes "sl_inv s" "valid k"
  shows "sl_inv (snd (sl_remove ops k s)) \<and>
    sl_cells (snd (sl_remove ops k s)) = filter (\<lambda>x. rk (fst x) \<noteq> rk k) (sl_cells s) \<and>
    (fst (sl_remove ops k s) \<longleftrightarrow> find_by rk k (sl_cells s) \<noteq> None)"
  using assms
proof (cases rule: find_cases)
  case absent
  then show ?thesis using assms(1) by (simp add: sl_remove_def find_by_none filter_id_conv)
next
  case (found xs n ys)
  let ?h = "(unlink n 0 (snd (search_lt ops k s)) (sl_heap s))[n := None]" and ?s = "snd (sl_remove ops k s)"
  note un = sl_struct_unlink [OF rep_struct [OF found(1)] found(3) refl]
  have s': "sl_heap ?s = ?h" "MAX_LEVEL ?s = MAX_LEVEL s" "current_level ?s = shrink_level ?h (current_level s)"
    "sl_size ?s = sl_size s - 1" "fst (sl_remove ops k s)"
    by (simp_all add: sl_remove_def found(2) Let_def)
  have n: "n \<notin> set (xs @ ys)" and n0: "0 \<noteq> n" using rep_struct [OF found(1)] by (auto simp: sl_struct_def)
  have old: "key_of ?h m = key_of (sl_heap s) m \<and> cell_of ?h m = cell_of (sl_heap s) m" if "m \<in> set (xs @ ys)" for m
  proof -
    have "core ?h m = core (sl_heap s) m" using un(2) [of m] n that by metis
    moreover have "node_at (sl_heap s) m \<noteq> None" using rep_live [OF found(1), of m] that by auto
    ultimately show ?thesis using core_entry [of "sl_heap s" m ?h m] core_cell [of "sl_heap s" m ?h m] by simp
  qed
  have "map (key_of ?h) (xs @ ys) = map (key_of (sl_heap s)) xs @ map (key_of (sl_heap s)) ys"
    using old by simp
  then have "ordered ?h (xs @ ys)"
    using found(1) by (simp only: ordered_def) (auto simp: rep_def ordered_def ordered_append)
  then have r: "rep ?s (xs @ ys)"
    using sl_struct_shrink [OF un(1)] found(1) un(2) [of 0] n0 by (simp add: rep_def s')
  show ?thesis
    using rep_inv [OF r] found_cells [OF found(1,4,5,6)] old s' by (simp add: rep_cells [OF r])
qed

lemma remove_loop_spec:
  assumes "sl_struct h ml cl (xs @ zs @ ys)" "upd = map (preds h xs) [0..<cl]"
    "cur = (case zs @ ys of [] \<Rightarrow> None | y # _ \<Rightarrow> Some y)" "length zs \<le> fuel"
    "\<forall>n \<in> set (zs @ ys). valid (key_of h n)" "valid max_key"
    "\<forall>n \<in> set zs. rk (key_of h n) \<le> rk max_key" "\<forall>n \<in> set ys. rk max_key < rk (key_of h n)"
  shows "\<exists>h' sub'. remove_loop ops max_key upd fuel cur (h, r, sub) = (h', r + length zs, sub') \<and>
    sl_struct h' ml cl (xs @ ys) \<and> (\<forall>m. m \<notin> set zs \<longrightarrow> core h' m = core h m)"
  using assms
proof (induction zs arbitrary: h cur fuel r sub)
  case Nil
  show ?case
  proof (cases "\<exists>y ys' f. ys = y # ys' \<and> fuel = Suc f")
    case True
    then obtain y where "cur = Some y" "valid (key_of h y)" "rk max_key < rk (key_of h y)"
      using Nil.prems by auto
    then show ?thesis using True Nil.prems cmp_le [of "key_of h y" max_key] by auto
  next
    case False
    then show ?thesis using Nil.prems by (cases fuel; cases ys) auto
  qed
next
  case (Cons z zs)
  obtain f where fuel: "fuel = Suc f" "length zs \<le> f" using Cons.prems(4) by (cases fuel) auto
  have st: "sl_struct h ml cl (xs @ z # (zs @ ys))" using Cons.prems(1) by simp
  note un = sl_struct_unlink [OF st Cons.prems(2) refl]
  let ?h = "(unlink z 0 upd h)[z := None]"
  have z: "z \<notin> set (zs @ ys)" using st by (auto simp: sl_struct_def)
  have keys: "key_of ?h m = key_of h m" if "m \<in> set (zs @ ys)" for m
  proof -
    have "m \<noteq> z" using that z by auto
    moreover have "node_at h m \<noteq> None" using st that by (auto simp: sl_struct_def)
    ultimately show ?thesis using core_entry [of h m ?h m] un(2) [of m] by auto
  qed
  have st2: "sl_struct h ml cl ((xs @ [z]) @ zs @ ys)" using st by simp
  have "preds h (xs @ [z]) 0 = z"
    using st sl_struct_lvl [OF st, of z] by (simp add: preds_def tower_def)
  then have nxt: "next_at h 0 z = (case zs @ ys of [] \<Rightarrow> None | y # _ \<Rightarrow> Some y)"
    using next_preds_0 [OF st2] by simp
  have le: "compare_func ops (key_of h z) max_key \<le> 0" using Cons.prems cmp_le by auto
  have upd: "upd = map (preds ?h xs) [0..<cl]" using un(3) Cons.prems(2) by simp
  have v1: "\<forall>n \<in> set (zs @ ys). valid (key_of ?h n)" and v2: "\<forall>n \<in> set zs. rk (key_of ?h n) \<le> rk max_key"
    and v3: "\<forall>n \<in> set ys. rk max_key < rk (key_of ?h n)"
    using keys Cons.prems(5,7,8) by auto
  obtain h' sub' where IH: "remove_loop ops max_key upd f (next_at h 0 z) (?h, r + 1,
        sub + node_bytes ops (nkey (nd_of h z)) (get_value ops (nd_of h z)) (length (nxt (nd_of h z)))) = (h', r + 1 + length zs, sub')"
    "sl_struct h' ml cl (xs @ ys)" "\<forall>m. m \<notin> set zs \<longrightarrow> core h' m = core ?h m"
    using Cons.IH [OF un(1) upd nxt fuel(2) v1 Cons.prems(6) v2 v3, where r = "r + 1"] by blast
  have "core h' m = core h m" if "m \<notin> set (z # zs)" for m
    using IH(3) un(2) [of m] that by auto
  then show ?case using IH le Cons.prems(3) by (simp add: fuel Let_def)
qed

lemma ordered_split_le:
  assumes "ordered h ids" "valid b" "\<forall>n \<in> set (xs @ ys). valid (key_of h n)" "ids = xs @ ys"
  obtains zs ws where "ys = zs @ ws" "\<forall>n \<in> set zs. rk (key_of h n) \<le> rk b" "\<forall>n \<in> set ws. rk b < rk (key_of h n)"
proof -
  obtain zs ws where s: "ys = zs @ ws" "\<forall>n \<in> set zs. rk (key_of h n) \<le> rk b"
    "case ws of [] \<Rightarrow> True | y # _ \<Rightarrow> \<not> rk (key_of h y) \<le> rk b"
    using split_at_first [of ys "\<lambda>n. rk (key_of h n) \<le> rk b"] by blast
  have "\<forall>n \<in> set ws. rk b < rk (key_of h n)"
    using s assms(1,4) by (cases ws) (auto simp: ordered_def ordered_append intro: order.strict_trans)
  with s that show thesis by metis
qed

lemma remove_range_spec:
  assumes inv: "sl_inv s" and a: "valid a" and b: "valid b"
  shows "sl_inv (snd (sl_remove_range_by_key ops a b s)) \<and>
    sl_cells (snd (sl_remove_range_by_key ops a b s)) = filter (\<lambda>x. \<not> (rk a \<le> rk (fst x) \<and> rk (fst x) \<le> rk b)) (sl_cells s) \<and>
    fst (sl_remove_range_by_key ops a b s) = length (filter (\<lambda>x. rk a \<le> rk (fst x) \<and> rk (fst x) \<le> rk b) (sl_cells s))"
proof (cases "rk b < rk a")
  case True
  then have "\<not> (rk a \<le> r \<and> r \<le> rk b)" for r by auto
  then show ?thesis using True inv gt_iff [OF a b] by (simp add: sl_remove_range_by_key_def)
next
  case False
  let ?h = "sl_heap s"
  note rep0 = rep_of_inv [OF inv]
  then have ord: "ordered ?h (sl_nodes s)" by (simp add: rep_def)
  obtain xs ys where ids: "sl_nodes s = xs @ ys" and xs: "\<forall>n \<in> set xs. rk (key_of ?h n) < rk a"
    and ys: "\<forall>n \<in> set ys. rk a \<le> rk (key_of ?h n)" and va: "\<forall>n \<in> set (xs @ ys). valid (key_of ?h n)"
    using ordered_split [OF ord a] by metis
  obtain zs ws where y: "ys = zs @ ws" and zs: "\<forall>n \<in> set zs. rk (key_of ?h n) \<le> rk b" and ws: "\<forall>n \<in> set ws. rk b < rk (key_of ?h n)"
    using ordered_split_le [OF ord b va ids] by metis
  have rep: "rep s (xs @ zs @ ws)" using rep0 ids y by simp
  note st = rep_struct [OF rep]
  have search: "search_lt ops a s = (preds ?h xs 0, map (preds ?h xs) [0..<current_level s])"
    using search_lt_split(1) [of s xs ys a] rep a xs ys y by simp
  have vy: "\<forall>n \<in> set (zs @ ws). valid (key_of ?h n)" using va y by auto
  have fuel: "length zs \<le> length ?h"
    using st ids_bound [of "xs @ zs @ ws" ?h] by (auto simp: sl_struct_def)
  obtain h' sub' where loop: "remove_loop ops b (map (preds ?h xs) [0..<current_level s]) (length ?h)
      (next_at ?h 0 (preds ?h xs 0)) (?h, 0, 0) = (h', 0 + length zs, sub')"
    "sl_struct h' (MAX_LEVEL s) (current_level s) (xs @ ws)" "\<forall>m. m \<notin> set zs \<longrightarrow> core h' m = core ?h m"
    using remove_loop_spec [OF st refl next_preds_0 [OF st] fuel vy b zs ws, where r = 0 and sub = 0] by blast
  let ?s = "snd (sl_remove_range_by_key ops a b s)"
  have s': "sl_heap ?s = h'" "MAX_LEVEL ?s = MAX_LEVEL s" "current_level ?s = shrink_level h' (current_level s)"
    "sl_size ?s = sl_size s - length zs" "fst (sl_remove_range_by_key ops a b s) = length zs"
    using loop(1) False gt_iff [OF a b] by (simp_all add: sl_remove_range_by_key_def search)
  have d: "set zs \<inter> set (xs @ ws) = {}" and z0: "0 \<notin> set zs" using st by (auto simp: sl_struct_def)
  have old: "key_of h' m = key_of ?h m \<and> cell_of h' m = cell_of ?h m" if m: "m \<in> set (xs @ ws)" for m
  proof -
    have "core h' m = core ?h m" using loop(3) d m by blast
    moreover have "node_at ?h m \<noteq> None" using rep_live [OF rep, of m] m by auto
    ultimately show ?thesis using core_entry [of ?h m h' m] core_cell [of ?h m h' m] by simp
  qed
  have "map (key_of h') (xs @ ws) = map (key_of ?h) xs @ map (key_of ?h) ws" using old by simp
  then have "ordered h' (xs @ ws)"
    using rep by (simp only: ordered_def) (auto simp: rep_def ordered_def ordered_append)
  then have r: "rep ?s (xs @ ws)"
    using sl_struct_shrink [OF loop(2)] rep loop(3) z0 by (simp add: rep_def s')
  have f1: "filter (\<lambda>x. rk a \<le> rk (fst x) \<and> rk (fst x) \<le> rk b) (sl_cells s) = map (cell_of ?h) zs"
    using xs ys zs ws y by (auto simp: rep_cells [OF rep] filter_empty_conv filter_id_conv not_le)
  have out: "\<not> (rk a \<le> rk (fst x) \<and> rk (fst x) \<le> rk b)" if "x \<in> set (map (cell_of ?h) (xs @ ws))" for x
    using that xs ws by (fastforce simp: not_le [symmetric])
  have f2: "filter (\<lambda>x. \<not> (rk a \<le> rk (fst x) \<and> rk (fst x) \<le> rk b)) (sl_cells s) = map (cell_of ?h) (xs @ ws)"
  proof -
    have "filter (\<lambda>x. \<not> (rk a \<le> rk (fst x) \<and> rk (fst x) \<le> rk b)) (map (cell_of ?h) zs) = []"
      using zs ys y by (auto simp: filter_empty_conv)
    moreover have "filter (\<lambda>x. \<not> (rk a \<le> rk (fst x) \<and> rk (fst x) \<le> rk b)) (map (cell_of ?h) (xs @ ws)) = map (cell_of ?h) (xs @ ws)"
      using out by (intro filter_True ballI) blast
    ultimately show ?thesis by (simp only: rep_cells [OF rep] map_append filter_append append_Nil)
  qed
  have "sl_cells ?s = map (cell_of ?h) (xs @ ws)" using old by (simp add: s' rep_cells [OF r])
  then show ?thesis using rep_inv [OF r] unfolding f1 f2 by (simp add: s')
qed

text \<open>Reading operations.\<close>

lemma entries_cells:
  "sl_inv s \<Longrightarrow> sl_get_all_entries ops s = map (\<lambda>(k, c). (k, observe ops c)) (sl_cells s)"
  by (simp add: sl_get_all_entries_def sl_cells_def entry_cell) (simp add: cell_of_def)

lemma for_each_entries:
  "sl_for_each ops f s = fold (\<lambda>(k, v). f k v) (sl_get_all_entries ops s)"
  by (simp add: sl_for_each_def sl_get_all_entries_def fold_map comp_def)

lemma cells_ordered: "sl_inv s \<Longrightarrow> ordered_ks (map fst (sl_cells s))"
  by (simp add: sl_inv_def rep_def ordered_def sl_cells_def comp_def)

lemma size_cells: "sl_inv s \<Longrightarrow> sl_size s = length (sl_cells s)"
  by (simp add: sl_inv_def rep_def sl_cells_def)

lemma range_by_rank_spec:
  "sl_range_by_rank ops a b s =
     (if b < a then [] else drop a (take (Suc b) (sl_get_all_entries ops s)))"
  by (simp add: sl_range_by_rank_def sl_get_all_entries_def drop_map take_map)

lemma rank_spec:
  assumes "sl_inv s" "valid k"
  shows "sl_rank ops k s = (if find_by rk k (sl_cells s) = None then None
    else Some (length (filter (\<lambda>x. rk (fst x) < rk k) (sl_cells s))))"
  using assms
proof (cases rule: find_cases)
  case (found xs n ys)
  let ?h = "sl_heap s"
  have ids: "sl_nodes s = xs @ n # ys" by (rule rep_nodes [OF found(1)])
  have va: "\<forall>m \<in> set (xs @ n # ys). valid (key_of ?h m)"
    using found(1) by (auto simp: rep_def ordered_def ordered_ks_def)
  have "takeWhile (\<lambda>m. compare_func ops (key_of ?h m) k < 0) (xs @ n # ys) = xs"
    using found va assms(2) by (subst takeWhile_append2) (auto simp: cmp_lt)
  moreover have "filter (\<lambda>x. rk (fst x) < rk k) (sl_cells s) = map (cell_of ?h) xs"
    using found by (auto simp: rep_cells [OF found(1)] filter_empty_conv filter_id_conv)
  ultimately show ?thesis
    using found va assms(2) found_cells(1) [OF found(1,4,5,6)] by (simp add: sl_rank_def ids Let_def cmp_eq)
next
  case absent
  let ?h = "sl_heap s" and ?P = "\<lambda>m. compare_func ops (key_of (sl_heap s) m) k < 0"
  have "rk (key_of ?h m) \<noteq> rk k \<and> valid (key_of ?h m)" if "m \<in> set (sl_nodes s)" for m
    using absent(2) cells_ordered [OF assms(1)] that by (auto simp: sl_cells_def ordered_ks_def)
  then have "compare_func ops (key_of ?h (sl_nodes s ! i)) k \<noteq> 0" if "i < length (sl_nodes s)" for i
    using that assms(2) by (simp add: cmp_eq)
  then show ?thesis using find_by_none [OF absent(2)] by (simp add: sl_rank_def Let_def)
qed

text \<open>
  \<open>range_by_key\<close> returns the entries from the last one not above \<open>min_key\<close> (or the sentinel, when
  there is none) up to \<open>max_key\<close>; one entry below the range is included unless \<open>min_key\<close> itself
  is present.
\<close>

lemma range_by_key_spec:
  assumes inv: "sl_inv s" and a: "valid a" and b: "valid b" and ab: "rk a \<le> rk b"
    and head: "key_of (sl_heap s) 0 = k0" "valid k0"
  shows "map fst (sl_range_by_key ops a b s) =
    (let ks = map fst (sl_cells s); below = filter (\<lambda>k. rk k \<le> rk a) ks
     in takeWhile (\<lambda>k. rk k \<le> rk b) (last (k0 # below) # filter (\<lambda>k. rk a < rk k) ks))"
proof -
  let ?h = "sl_heap s"
  note rep0 = rep_of_inv [OF inv]
  then have ord: "ordered ?h (sl_nodes s)" by (simp add: rep_def)
  have va: "\<forall>n \<in> set ([] @ sl_nodes s). valid (key_of ?h n)"
    using ord by (auto simp: ordered_def ordered_ks_def)
  obtain xs ys where ids: "sl_nodes s = xs @ ys" and xs: "\<forall>n \<in> set xs. rk (key_of ?h n) \<le> rk a"
    and ys: "\<forall>n \<in> set ys. rk a < rk (key_of ?h n)"
    using ordered_split_le [OF ord a va] by auto
  have rep: "rep s (xs @ ys)" using rep0 ids by simp
  note st = rep_struct [OF rep]
  have des: "fst (descend (\<lambda>k. compare_func ops k a \<le> 0) ?h (current_level s) 0 []) = preds ?h xs 0"
    using descend_struct [OF st, of "\<lambda>k. compare_func ops k a \<le> 0"] xs ys va ids a by (auto simp: cmp_le not_le)
  have t0: "tower ?h 0 zs = zs" if "set zs \<subseteq> set (xs @ ys)" for zs
    using that sl_struct_lvl [OF st] by (intro tower_0) auto
  have p: "preds ?h xs 0 = last (0 # xs)" using t0 [of xs] by (simp add: preds_def)
  have lk: "linked (next_at ?h 0) (last (0 # xs)) ys"
    using linked_append [of _ 0 xs ys] sl_struct_linked [OF st, of 0] st t0 [of "xs @ ys"]
    by (simp add: sl_struct_def del: last.simps)
  have "length (0 # xs @ ys) \<le> length ?h"
    using st by (intro ids_bound) (auto simp: sl_struct_def)
  then obtain f where f: "length ?h = Suc f" "length ys \<le> f" by (cases "length ?h") auto
  then have ch: "chain ?h (length ?h) (Some (last (0 # xs))) = last (0 # xs) # ys"
    using chain_linked [OF lk] by simp
  have vh: "valid (key_of ?h m)" if "m \<in> set (last (0 # xs) # ys)" for m
    using that va ids head last_in_set [of xs] by (auto split: if_splits)
  have tw: "takeWhile (\<lambda>n. compare_func ops (key_of ?h n) b \<le> 0) (last (0 # xs) # ys)
      = takeWhile (\<lambda>n. rk (key_of ?h n) \<le> rk b) (last (0 # xs) # ys)"
    using vh b by (intro takeWhile_cong) (auto simp: cmp_le)
  have keys: "map fst (sl_cells s) = map (key_of ?h) xs @ map (key_of ?h) ys"
    by (simp add: rep_cells [OF rep])
  have f1: "filter (\<lambda>k. rk k \<le> rk a) (map fst (sl_cells s)) = map (key_of ?h) xs"
    using xs ys by (auto simp: keys filter_empty_conv filter_id_conv not_le)
  have f2: "filter (\<lambda>k. rk a < rk k) (map fst (sl_cells s)) = map (key_of ?h) ys"
    using xs ys by (auto simp: keys filter_empty_conv filter_id_conv not_less)
  have l: "last (k0 # map (key_of ?h) xs) = key_of ?h (last (0 # xs))"
    using head by (simp add: last_map)
  have "\<not> key_gt ops a b" using gt_iff [OF a b] ab by simp
  then have "map fst (sl_range_by_key ops a b s) =
      map (key_of ?h) (takeWhile (\<lambda>n. rk (key_of ?h n) \<le> rk b) (last (0 # xs) # ys))"
    by (simp only: sl_range_by_key_def Let_def des p ch tw if_False map_map) (simp add: entry_of_def comp_def)
  also have "\<dots> = takeWhile (\<lambda>k. rk k \<le> rk b) (map (key_of ?h) (last (0 # xs) # ys))"
    by (simp add: takeWhile_map comp_def)
  finally show ?thesis by (simp only: Let_def f1 f2 l list.map)
qed

lemma clear_spec:
  assumes "sl_inv s"
  shows "sl_inv (sl_clear ops s)" "sl_cells (sl_clear ops s) = []"
proof -
  let ?h = "sl_heap s" and ?ids = "sl_nodes s"
  note st = rep_struct [OF rep_of_inv [OF assms]]
  define h1 where "h1 = fold (\<lambda>n h. h[n := None]) ?ids ?h"
  have node1: "node_at h1 m = (if m \<in> set ids then None else node_at h m)" if "h1 = fold (\<lambda>n h. h[n := None]) ids h" for h1 h ids m
    using that by (induction ids arbitrary: h) (auto simp: node_at_simps node_at_def)
  have n1: "node_at h1 m = (if m = 0 then node_at ?h 0 else None)" for m
  proof -
    have "node_at ?h m \<noteq> None \<longleftrightarrow> m \<in> set (0 # ?ids)" "0 \<notin> set ?ids" using st by (auto simp only: sl_struct_def distinct.simps)
    then show ?thesis using node1 [OF h1_def, of m] by auto
  qed
  have l0: "lvl h1 0 = MAX_LEVEL s" using st n1 by (simp add: sl_struct_def lvl_def)
  let ?h2 = "fold (\<lambda>i. set_next i 0 None) [0..<MAX_LEVEL s] h1"
  have nxt: "next_at ?h2 i 0 = None" if "i < MAX_LEVEL s" for i
    using fold_set_next_next [of "[0..<MAX_LEVEL s]" h1 "\<lambda>_. 0" None i 0] that l0 by simp
  have "core ?h2 m = core h1 m" for m by simp
  then have live: "node_at ?h2 m \<noteq> None \<longleftrightarrow> m = 0" "lvl ?h2 0 = MAX_LEVEL s" for m
    using core_live [of ?h2 m h1 m] n1 [of m] core_lvl [of ?h2 0 h1 0] l0 st by (auto simp: sl_struct_def)
  have "core h1 0 = core ?h 0" using n1 [of 0] by (simp add: core_def)
  then have c0: "core ?h2 0 = Some (default_key ops, default_value ops, 0, MAX_LEVEL s)"
    using rep_of_inv [OF assms] by (simp add: rep_def)
  have "sl_struct ?h2 (MAX_LEVEL s) 1 []"
    using live nxt st by (auto simp: sl_struct_def tower_def)
  then have r: "rep (sl_clear ops s) []"
    using c0 by (simp add: rep_def sl_clear_def Let_def h1_def ordered_def ordered_ks_def)
  then show "sl_inv (sl_clear ops s)" "sl_cells (sl_clear ops s) = []"
    using rep_inv rep_cells [OF r] by auto
qed

lemma new_spec:
  assumes "1 \<le> ml"
  shows "sl_inv (sl_new ops ml)" "sl_cells (sl_new ops ml) = []"
proof -
  have "sl_struct (sl_heap (sl_new ops ml)) ml 1 []"
    using assms by (auto simp: sl_new_def sl_struct_def node_at_def lvl_def new_node_def tower_def next_at_def)
  then have r: "rep (sl_new ops ml) []"
    by (simp add: rep_def sl_new_def ordered_def ordered_ks_def core_def node_at_def new_node_def)
  then show "sl_inv (sl_new ops ml)" "sl_cells (sl_new ops ml) = []"
    using rep_inv rep_cells [OF r] by auto
qed

text \<open>The list as a sequence of nodes to append: its own levels, keys and observed values.\<close>

definition node_list :: "('k, 'v) skip_list \<Rightarrow> ('k \<times> 'v \<times> nat) list" where
  "node_list s = map (\<lambda>n. (key_of (sl_heap s) n, get_value ops (nd_of (sl_heap s) n), lvl (sl_heap s) n)) (sl_nodes s)"

text \<open>A list of nodes appended to an empty list: the entries are those of the nodes, in order.\<close>

lemma link_all_rep:
  assumes inv: "sl_inv s0" "sl_cells s0 = []" and cl: "1 \<le> cl" "cl \<le> MAX_LEVEL s0" "cl \<le> T"
    and lv: "\<forall>(k, v, level) \<in> set es. 1 \<le> level \<and> level \<le> cl"
    and ord: "ordered_ks (map fst es)"
    and s: "sl_heap s = snd (fold link_last es (replicate T 0, sl_heap s0))"
      "MAX_LEVEL s = MAX_LEVEL s0" "current_level s = cl" "sl_size s = length es"
  shows "sl_inv s" "sl_cells s = map (\<lambda>(k, v, level). (k, v, False)) es" "node_list s = es"
proof -
  let ?h = "sl_heap s0" and ?new = "[length (sl_heap s0)..<length (sl_heap s0) + length es]"
  have nil: "sl_nodes s0 = []" using inv(2) by (simp add: sl_cells_def)
  have st0: "sl_struct ?h (MAX_LEVEL s0) cl []"
    using rep_struct [OF rep_of_inv [OF inv(1)]] cl nil by (simp add: sl_struct_def)
  have t0: "replicate T 0 = map (preds ?h []) [0..<T]"
    by (rule nth_equalityI) (simp_all add: preds_def tower_def)
  have "\<forall>(k, v, level) \<in> set es. 1 \<le> level \<and> level \<le> cl \<and> level \<le> T" using lv cl(3) by fastforce
  note all = link_all_struct [OF st0 t0 this, unfolded Let_def s(1) [symmetric]]
  then have st: "sl_struct (sl_heap s) (MAX_LEVEL s0) cl ?new" and c0: "core (sl_heap s) 0 = core ?h 0"
    and cn: "map (core (sl_heap s)) ?new = map (\<lambda>(k, v, level). Some (k, v, 0, level)) es" by auto
  have node: "key_of (sl_heap s) n = k \<and> cell_of (sl_heap s) n = (k, v, False)"
    if "core (sl_heap s) n = Some (k, v, 0, level)" for n k v level
    using that by (auto simp: core_def key_of_def cell_of_def nd_of_def)
  have el: "core (sl_heap s) (?new ! i) = (case es ! i of (k, v, level) \<Rightarrow> Some (k, v, 0, level))" if "i < length es" for i
    using arg_cong [OF cn, of "\<lambda>l. l ! i"] that by (simp del: map_eq_conv)
  have nd: "key_of (sl_heap s) (?new ! i) = fst (es ! i) \<and> cell_of (sl_heap s) (?new ! i) = (case es ! i of (k, v, level) \<Rightarrow> (k, v, False))"
    if "i < length es" for i
    using el [OF that] node [of "?new ! i"] by (cases "es ! i") simp
  have cells: "map (cell_of (sl_heap s)) ?new = map (\<lambda>(k, v, level). (k, v, False)) es"
    and keys: "map (key_of (sl_heap s)) ?new = map fst es"
    using nd by (auto intro!: nth_equalityI)
  have r: "rep s ?new"
    using st c0 rep_of_inv [OF inv(1)] ord by (simp add: rep_def s(2-4) ordered_def keys)
  show "sl_inv s" by (rule rep_inv [OF r])
  show "sl_cells s = map (\<lambda>(k, v, level). (k, v, False)) es" using cells by (simp add: rep_cells [OF r])
  have lv: "get_value ops (nd_of (sl_heap s) n) = v \<and> lvl (sl_heap s) n = level"
    if "core (sl_heap s) n = Some (k, v, 0, level)" for n k v level
    using that by (auto simp: core_def get_value_def nd_of_def lvl_def)
  have "(key_of (sl_heap s) (?new ! i), get_value ops (nd_of (sl_heap s) (?new ! i)), lvl (sl_heap s) (?new ! i)) = es ! i"
    if "i < length es" for i
    using el [OF that] node [of "?new ! i"] lv [of "?new ! i"] by (cases "es ! i") simp
  then show "node_list s = es" unfolding node_list_def rep_nodes [OF r] by (intro nth_equalityI) simp_all
qed

lemma node_list_props:
  assumes "sl_inv s"
  shows "\<forall>(k, v, level) \<in> set (node_list s). 1 \<le> level \<and> level \<le> current_level s"
    "ordered_ks (map fst (node_list s))" "length (node_list s) = sl_size s"
    "map (\<lambda>(k, v, level). (k, v, False)) (node_list s) = map (\<lambda>(k, c). (k, observe ops c, False)) (sl_cells s)"
    "1 \<le> current_level s" "current_level s \<le> MAX_LEVEL s"
proof -
  note r = rep_of_inv [OF assms]
  show "\<forall>(k, v, level) \<in> set (node_list s). 1 \<le> level \<and> level \<le> current_level s"
    using sl_struct_lvl [OF rep_struct [OF r]] by (auto simp: node_list_def)
  show "ordered_ks (map fst (node_list s))" "length (node_list s) = sl_size s"
    using r by (simp_all add: node_list_def rep_def ordered_def comp_def)
  show "map (\<lambda>(k, v, level). (k, v, False)) (node_list s) = map (\<lambda>(k, c). (k, observe ops c, False)) (sl_cells s)"
    by (simp add: node_list_def sl_cells_def cell_of_def observe_def get_value_def)
  show "1 \<le> current_level s" "current_level s \<le> MAX_LEVEL s" using rep_struct [OF r] by (simp_all add: sl_struct_def)
qed

text \<open>A copy has the same entries; a value that could not be read comes out as the default value.\<close>

lemma copy_spec:
  assumes "sl_inv s"
  shows "sl_inv (sl_copy ops s)" "sl_cells (sl_copy ops s) = map (\<lambda>(k, c). (k, observe ops c, False)) (sl_cells s)"
proof -
  note n = node_list_props [OF assms]
  have ml: "1 \<le> MAX_LEVEL s" using n(5,6) by simp
  note new = new_spec [OF ml]
  have eq: "sl_heap (sl_copy ops s) = snd (fold link_last (node_list s) (replicate (MAX_LEVEL s) 0, sl_heap (sl_new ops (MAX_LEVEL s))))"
    "MAX_LEVEL (sl_copy ops s) = MAX_LEVEL (sl_new ops (MAX_LEVEL s))" "current_level (sl_copy ops s) = current_level s"
    "sl_size (sl_copy ops s) = length (node_list s)"
    using n(3) by (simp_all add: sl_copy_def node_list_def sl_new_def Let_def)
  have le: "current_level s \<le> MAX_LEVEL (sl_new ops (MAX_LEVEL s))" using n(6) by (simp add: sl_new_def)
  show "sl_inv (sl_copy ops s)" "sl_cells (sl_copy ops s) = map (\<lambda>(k, c). (k, observe ops c, False)) (sl_cells s)"
    using link_all_rep [OF new n(5) le n(6) n(1,2) eq] n(4) by simp_all
qed

lemma remove_range_by_rank_spec:
  assumes inv: "sl_inv s" and "a \<le> b" "b < sl_size s"
  shows "sl_inv (snd (sl_remove_range_by_rank ops a b s)) \<and>
    sl_cells (snd (sl_remove_range_by_rank ops a b s)) = take a (sl_cells s) @ drop (Suc b) (sl_cells s) \<and>
    fst (sl_remove_range_by_rank ops a b s) = Suc b - a"
proof -
  let ?ks = "map fst (sl_cells s)"
  have len: "length (sl_nodes s) = sl_size s" "length ?ks = sl_size s" using size_cells [OF inv] by (simp_all add: sl_cells_def)
  have ord: "sorted_wrt (\<lambda>x y. rk x < rk y) ?ks" and va: "\<forall>k \<in> set ?ks. valid k"
    using cells_ordered [OF inv] by (simp_all add: ordered_ks_def)
  have mono: "rk (?ks ! i) < rk (?ks ! j) \<longleftrightarrow> i < j" if "i < sl_size s" "j < sl_size s" for i j
    using sorted_wrt_nth_less [OF ord] that len by (metis (no_types, lifting) linorder_neqE_nat order.asym order.irrefl)
  have key: "key_of (sl_heap s) (sl_nodes s ! i) = ?ks ! i" if "i < sl_size s" for i
    using that len by (simp add: sl_cells_def)
  have eq: "sl_remove_range_by_rank ops a b s = sl_remove_range_by_key ops (?ks ! a) (?ks ! b) s"
    using assms len key by (simp add: sl_remove_range_by_rank_def Let_def)
  have v: "valid (?ks ! a)" "valid (?ks ! b)" using va assms len by (metis le_less_trans nth_mem)+
  let ?P = "\<lambda>x. rk (?ks ! a) \<le> rk (fst x) \<and> rk (fst x) \<le> rk (?ks ! b)"
  have P: "?P (sl_cells s ! i) \<longleftrightarrow> a \<le> i \<and> i \<le> b" if "i < sl_size s" for i
    using mono [of i a] mono [of b i] assms that len by (auto simp: not_less [symmetric])
  have split: "sl_cells s = take a (sl_cells s) @ drop a (take (Suc b) (sl_cells s)) @ drop (Suc b) (sl_cells s)"
    by (rule take_drop_mid) (use assms in simp)
  have lc: "length (sl_cells s) = sl_size s" using len by simp
  have 1: "\<forall>x \<in> set (take a (sl_cells s)). \<not> ?P x" "\<forall>x \<in> set (drop (Suc b) (sl_cells s)). \<not> ?P x"
    "\<forall>x \<in> set (drop a (take (Suc b) (sl_cells s))). ?P x"
  proof -
    have at: "\<exists>i. x = sl_cells s ! i \<and> i < sl_size s \<and> (i < a)" if "x \<in> set (take a (sl_cells s))" for x
      using that lc by (auto simp: in_set_conv_nth)
    show "\<forall>x \<in> set (take a (sl_cells s)). \<not> ?P x" using at P by (metis not_le)
    have at: "\<exists>i. x = sl_cells s ! i \<and> i < sl_size s \<and> b < i" if x: "x \<in> set (drop (Suc b) (sl_cells s))" for x
    proof -
      obtain i where "i < length (drop (Suc b) (sl_cells s))" "x = drop (Suc b) (sl_cells s) ! i"
        using x unfolding in_set_conv_nth by blast
      then show ?thesis using lc by (intro exI [of _ "Suc b + i"]) auto
    qed
    show "\<forall>x \<in> set (drop (Suc b) (sl_cells s)). \<not> ?P x" using at P by (metis not_le)
    have at: "\<exists>i. x = sl_cells s ! i \<and> i < sl_size s \<and> a \<le> i \<and> i \<le> b" if x: "x \<in> set (drop a (take (Suc b) (sl_cells s)))" for x
    proof -
      obtain i where "i < length (drop a (take (Suc b) (sl_cells s)))" "x = drop a (take (Suc b) (sl_cells s)) ! i"
        using x unfolding in_set_conv_nth by blast
      then show ?thesis using lc assms by (intro exI [of _ "a + i"]) auto
    qed
    show "\<forall>x \<in> set (drop a (take (Suc b) (sl_cells s))). ?P x" using at P by metis
  qed
  have f1: "filter ?P (sl_cells s) = drop a (take (Suc b) (sl_cells s))"
    by (subst split) (use 1 in \<open>simp only: filter_append filter_True filter_False append_Nil append_Nil2\<close>)
  have f2: "filter (\<lambda>x. \<not> ?P x) (sl_cells s) = take a (sl_cells s) @ drop (Suc b) (sl_cells s)"
    by (subst split) (use 1 in \<open>simp only: filter_append filter_True filter_False append_Nil append_Nil2 not_not simp_thms\<close>)
  show ?thesis
    using remove_range_spec [OF inv v] assms lc unfolding eq f1 f2 by simp
qed

end

section \<open>Persisting a list\<close>

text \<open>What \<open>deserialize\<close> makes of the empty list \<open>s0\<close> when it reads back the list \<open>s\<close>.\<close>

definition sl_restored :: "('k, 'v) sl_ops \<Rightarrow> ('k, 'v) skip_list \<Rightarrow> ('k, 'v) skip_list \<Rightarrow> ('k, 'v) skip_list" where
  "sl_restored ops s s0 =
     (let es = map (\<lambda>n. (key_of (sl_heap s) n, get_value ops (nd_of (sl_heap s) n), lvl (sl_heap s) n)) (sl_nodes s)
      in s0\<lparr>current_level := current_level s,
            sl_heap := snd (fold link_last es (replicate (current_level s + 1) 0, sl_heap s0)),
            sl_size := sl_size s\<rparr>)"

locale stored_list = ordered_keys ops rk valid + k: codec sk dk okk + v: codec sv dv okv
  for ops :: "('k, 'v) sl_ops" and rk :: "'k \<Rightarrow> 'o::linorder" and valid
    and sk :: "'k \<Rightarrow> bytes" and dk okk and sv :: "'v \<Rightarrow> bytes" and dv okv
begin

definition enc_node :: "'k \<times> 'v \<times> nat \<Rightarrow> bytes" where
  "enc_node e = (case e of (k, v, level) \<Rightarrow> be32 (word_of_nat level) @ sk k @ sv v)"

definition ok_node :: "'k \<times> 'v \<times> nat \<Rightarrow> bool" where
  "ok_node e \<longleftrightarrow> (case e of (k, v, level) \<Rightarrow> level < 2 ^ 32 \<and> okk k \<and> okv v)"

end

sublocale stored_list \<subseteq> node: codec enc_node "dec_node dk dv" ok_node
proof
  fix e :: "'k \<times> 'v \<times> nat" and pre post
  assume ok: "ok_node e"
  obtain k v level where e: "e = (k, v, level)" by (cases e)
  let ?data = "pre @ enc_node e @ post" and ?l = "be32 (word_of_nat level)"
  have d: "?data = pre @ ?l @ sk k @ sv v @ post" by (simp add: e enc_node_def)
  have 1: "deserialize_count ?data (length pre) = Inr (level, length (pre @ ?l))"
    using deserialize_count_at [OF d, of "length pre"] ok by (simp add: e ok_node_def)
  have 2: "dk ?data (length (pre @ ?l)) = Inr (k, length (pre @ ?l @ sk k))"
    using ok by (subst k.dec_enc_at [of k _ "pre @ ?l" "sv v @ post"]) (auto simp: e ok_node_def enc_node_def)
  have 3: "dv ?data (length (pre @ ?l @ sk k)) = Inr (v, length (pre @ ?l @ sk k) + length (sv v))"
    using ok by (subst v.dec_enc_at [of v _ "pre @ ?l @ sk k" post]) (auto simp: e ok_node_def enc_node_def)
  show "dec_node dk dv ?data (length pre) = Inr (e, length pre + length (enc_node e))"
    using 1 2 3 by (simp add: dec_node_def e enc_node_def)
qed

context stored_list
begin

lemma deserialize_spec:
  assumes inv: "sl_inv s" and small: "sl_size s < 2 ^ 32" "MAX_LEVEL s < 2 ^ 32"
    and ok: "\<forall>(k, c) \<in> set (sl_cells s). okk k \<and> okv (observe ops c)"
    and s0: "sl_inv s0" "sl_cells s0 = []" "MAX_LEVEL s0 = MAX_LEVEL s"
    and data: "data = pre @ sl_serialize ops sk sv s @ post" "off = length pre"
  shows "sl_deserialize dk dv data off s0 = Inr (sl_restored ops s s0, off + length (sl_serialize ops sk sv s))"
    "sl_inv (sl_restored ops s s0)"
    "sl_cells (sl_restored ops s s0) = map (\<lambda>(k, c). (k, observe ops c, False)) (sl_cells s)"
    "node_list (sl_restored ops s s0) = node_list s"
proof -
  let ?cl = "current_level s" and ?es = "node_list s"
  let ?a = "be32 (word_of_nat ?cl)" and ?b = "be32 (word_of_nat (sl_size s))" and ?c = "concat (map enc_node (node_list s))"
  note n = node_list_props [OF inv]
  have ser: "sl_serialize ops sk sv s = ?a @ ?b @ ?c"
    by (simp add: sl_serialize_def node_list_def enc_node_def comp_def)
  have clb: "?cl < 2 ^ 32" using n(6) small by simp
  have okn: "list_all ok_node ?es"
    using ok n(1) clb by (fastforce simp: list_all_iff ok_node_def node_list_def sl_cells_def cell_of_def observe_def get_value_def)
  have 1: "deserialize_count data off = Inr (?cl, off + 4)"
    using deserialize_count_at [of data pre ?cl "?b @ ?c @ post" off] clb data ser by simp
  have 2: "deserialize_count data (off + 4) = Inr (sl_size s, off + 8)"
    using deserialize_count_at [of data "pre @ ?a" "sl_size s" "?c @ post" "off + 4"] small data ser by simp
  have 3: "dec_n (sl_size s) (dec_node dk dv) data (off + 8) = Inr (?es, off + 8 + length ?c)"
    by (rule node.dec_n_at [OF okn, of _ "pre @ ?a @ ?b" post]) (simp_all add: data ser n(3))
  have lv: "\<not> list_ex (\<lambda>(k, v, level). ?cl + 1 < level \<or> MAX_LEVEL s0 < level) ?es"
    using n(1,6) s0(3) by (fastforce simp: list_ex_iff)
  have eq: "sl_restored ops s s0 = s0\<lparr>current_level := ?cl,
      sl_heap := snd (fold link_last ?es (replicate (?cl + 1) 0, sl_heap s0)), sl_size := sl_size s\<rparr>"
    by (simp add: sl_restored_def node_list_def Let_def)
  show "sl_deserialize dk dv data off s0 = Inr (sl_restored ops s s0, off + length (sl_serialize ops sk sv s))"
    using 1 2 3 lv n(6) s0(3) by (simp add: sl_deserialize_def ser eq min_absorb1 Let_def)
  show "sl_inv (sl_restored ops s s0)"
    "sl_cells (sl_restored ops s s0) = map (\<lambda>(k, c). (k, observe ops c, False)) (sl_cells s)"
    "node_list (sl_restored ops s s0) = node_list s"
    using link_all_rep [OF s0(1,2) n(5) _ _ n(1,2), of "?cl + 1" "sl_restored ops s s0"] n(3,4,6) s0(3)
    by (simp_all add: eq)
qed

text \<open>Writing and reading back depend only on the node list, so doing it twice changes nothing.\<close>

lemma restored_cong:
  "node_list s = node_list s' \<Longrightarrow> current_level s = current_level s' \<Longrightarrow> sl_size s = sl_size s' \<Longrightarrow>
     sl_restored ops s s0 = sl_restored ops s' s0"
  by (simp add: sl_restored_def node_list_def)

lemma serialize_cong:
  assumes "node_list s = node_list s'" "current_level s = current_level s'" "sl_size s = sl_size s'"
  shows "sl_serialize ops sk sv s = sl_serialize ops sk sv s'"
proof -
  have ser: "sl_serialize ops sk sv x = be32 (word_of_nat (current_level x)) @ be32 (word_of_nat (sl_size x)) @ concat (map enc_node (node_list x))" for x
    by (simp add: sl_serialize_def node_list_def enc_node_def comp_def)
  show ?thesis by (simp add: ser assms)
qed

end

end
