(* ===== verification/Doubles.thy ===== *)
theory Doubles
  imports CppLib
begin

text \<open>
  The IEEE-754 binary64 values behind the sorted-set scores: a \<open>double\<close> is its 64-bit pattern.
  Comparison, addition (round to nearest, ties to even), \<open>std::stod\<close> and \<open>std::to_string\<close>
  (\<open>%f\<close>) are computed exactly on integers. Comparison is an order embedding into the integers
  (\<open>dkey\<close>) away from NaN, which is all that the sorted-set proofs use.
\<close>

type_synonym double = "64 word"

definition dmag :: "double \<Rightarrow> nat" where "dmag w = unat w mod 2 ^ 63"
definition dneg :: "double \<Rightarrow> bool" where "dneg w \<longleftrightarrow> 2 ^ 63 \<le> unat w"

definition inf_mag :: nat where "inf_mag = 2047 * 2 ^ 52"
definition is_nan :: "double \<Rightarrow> bool" where "is_nan w \<longleftrightarrow> inf_mag < dmag w"

definition mk_double :: "bool \<Rightarrow> nat \<Rightarrow> double" where
  "mk_double neg mag = word_of_nat ((if neg then 2 ^ 63 else 0) + mag)"

text \<open>Comparison: sign and magnitude as an integer; both zeros are 0.\<close>

definition dkey :: "double \<Rightarrow> int" where
  "dkey w = (if dneg w then - int (dmag w) else int (dmag w))"

definition double_lt :: "double \<Rightarrow> double \<Rightarrow> bool" where
  "double_lt a b \<longleftrightarrow> \<not> is_nan a \<and> \<not> is_nan b \<and> dkey a < dkey b"

definition double_eq :: "double \<Rightarrow> double \<Rightarrow> bool" where
  "double_eq a b \<longleftrightarrow> \<not> is_nan a \<and> \<not> is_nan b \<and> dkey a = dkey b"

section \<open>Rounding\<close>

fun flog2 :: "nat \<Rightarrow> nat" where
  "flog2 n = (if n < 2 then 0 else Suc (flog2 (n div 2)))"

declare flog2.simps [simp del]

definition rne_div :: "nat \<Rightarrow> nat \<Rightarrow> nat" where
  "rne_div a b = (let q = a div b; r = a mod b
     in if b < 2 * r \<or> (2 * r = b \<and> odd q) then q + 1 else q)"

text \<open>The exponent of the last place for the rational \<open>n / d\<close>, never below that of the subnormals.\<close>

definition ulp_exp :: "nat \<Rightarrow> nat \<Rightarrow> int" where
  "ulp_exp n d = (let k0 = int (flog2 n) - int (flog2 d);
       small = (if 0 \<le> k0 then n < d * 2 ^ nat k0 else n * 2 ^ nat (- k0) < d);
       k = (if small then k0 - 1 else k0)
     in max (k - 52) (- 1074))"

text \<open>The magnitude bits of the binary64 value nearest to \<open>n / d\<close>, infinity when it is too large.\<close>

definition round_mag :: "nat \<Rightarrow> nat \<Rightarrow> nat" where
  "round_mag n d = (if n = 0 then 0 else
     let e = ulp_exp n d;
         m = (if 0 \<le> e then rne_div n (d * 2 ^ nat e) else rne_div (n * 2 ^ nat (- e)) d)
     in min inf_mag (nat (e + 1074) * 2 ^ 52 + m))"

text \<open>A finite magnitude as significand and exponent.\<close>

definition dsig :: "double \<Rightarrow> nat" where
  "dsig w = (if dmag w < 2 ^ 52 then dmag w else 2 ^ 52 + dmag w mod 2 ^ 52)"

definition dexp :: "double \<Rightarrow> int" where
  "dexp w = (if dmag w < 2 ^ 52 then - 1074 else int (dmag w div 2 ^ 52) - 1075)"

definition double_add :: "double \<Rightarrow> double \<Rightarrow> double" where
  "double_add a b =
     (if is_nan a then a else if is_nan b then b
      else if dmag a = inf_mag then
        (if dmag b = inf_mag \<and> dneg a \<noteq> dneg b then mk_double True (inf_mag + 2 ^ 51) else a)
      else if dmag b = inf_mag then b
      else
        let e0 = min (dexp a) (dexp b);
            ia = int (dsig a * 2 ^ nat (dexp a - e0));
            ib = int (dsig b * 2 ^ nat (dexp b - e0));
            s = (if dneg a then - ia else ia) + (if dneg b then - ib else ib)
        in if s = 0 then mk_double (dneg a \<and> dneg b) 0
           else mk_double (s < 0)
             (if 0 \<le> e0 then round_mag (nat \<bar>s\<bar> * 2 ^ nat e0) 1 else round_mag (nat \<bar>s\<bar>) (2 ^ nat (- e0))))"

section \<open>Products and conversions\<close>

definition double_of_u64 :: "u64 \<Rightarrow> double" where
  "double_of_u64 n = mk_double False (round_mag (unat n) 1)"

text \<open>The product of two finite doubles, and the truncation of a finite double that is not negative.\<close>

definition double_mul_fin :: "double \<Rightarrow> double \<Rightarrow> double" where
  "double_mul_fin a b =
     (let e = dexp a + dexp b; m = dsig a * dsig b
      in mk_double (dneg a \<noteq> dneg b)
           (if 0 \<le> e then round_mag (m * 2 ^ nat e) 1 else round_mag m (2 ^ nat (- e))))"

definition double_trunc :: "double \<Rightarrow> nat" where
  "double_trunc w = (if 0 \<le> dexp w then dsig w * 2 ^ nat (dexp w) else dsig w div 2 ^ nat (- dexp w))"

section \<open>Text\<close>

definition lower :: "string \<Rightarrow> string" where "lower s = map tolower s"

definition hexval :: "char \<Rightarrow> nat option" where
  "hexval c = (let n = (of_char c :: nat) in
     if 48 \<le> n \<and> n \<le> 57 then Some (n - 48)
     else if 97 \<le> n \<and> n \<le> 102 then Some (n - 87)
     else if 65 \<le> n \<and> n \<le> 70 then Some (n - 55) else None)"

definition ishex :: "char \<Rightarrow> bool" where "ishex c \<longleftrightarrow> hexval c \<noteq> None"

fun hex_digits_val :: "nat \<Rightarrow> string \<Rightarrow> nat" where
  "hex_digits_val a [] = a"
| "hex_digits_val a (c # cs) = hex_digits_val (16 * a + the (hexval c)) cs"

text \<open>An optional exponent part behind the mantissa: the letter, a sign, at least one digit.\<close>

definition exp_part :: "char \<Rightarrow> string \<Rightarrow> int" where
  "exp_part x s = (case s of
       [] \<Rightarrow> 0
     | c # cs \<Rightarrow>
         if tolower c = x then
           (let (neg, t) = (case cs of
                  [] \<Rightarrow> (False, [])
                | k # ks \<Rightarrow> if k = CHR ''-'' then (True, ks) else if k = CHR ''+'' then (False, ks) else (False, cs));
                ds = takeWhile isdigit t
            in if ds = [] then 0 else if neg then - int (digits_val 0 ds) else int (digits_val 0 ds))
         else 0)"

text \<open>The mantissa: digits, an optional point and more digits. Returns both digit runs and the rest.\<close>

definition mantissa :: "(char \<Rightarrow> bool) \<Rightarrow> string \<Rightarrow> string \<times> string \<times> string" where
  "mantissa dig s =
     (let ip = takeWhile dig s; r = dropWhile dig s
      in case r of
           [] \<Rightarrow> (ip, [], [])
         | c # cs \<Rightarrow>
             if c = CHR ''.'' then (ip, takeWhile dig cs, dropWhile dig cs) else (ip, [], r))"

definition scaled :: "nat \<Rightarrow> nat \<Rightarrow> int \<Rightarrow> nat \<times> nat" where
  "scaled base v e = (if 0 \<le> e then (v * base ^ nat e, 1) else (v, base ^ nat (- e)))"

text \<open>
  \<open>std::stod\<close>: \<open>strtod\<close> (decimal, hexadecimal, infinities and NaN), with
  \<open>std::invalid_argument\<close> when nothing was converted and \<open>std::out_of_range\<close> when \<open>strtod\<close>
  reports \<open>ERANGE\<close> (an overflow, or an inexact subnormal result).
\<close>

definition stod_ratio :: "bool \<Rightarrow> nat \<Rightarrow> nat \<Rightarrow> double res" where
  "stod_ratio neg n d =
     (let mag = round_mag n d; w = mk_double neg mag
      in if mag = inf_mag then Inl (OutOfRange ''stod'')
         else if mag < 2 ^ 52 \<and> mag * d \<noteq> n * 2 ^ 1074 then Inl (OutOfRange ''stod'')
         else Inr w)"

definition stod :: "string \<Rightarrow> double res" where
  "stod s =
     (let t = dropWhile isspace s;
          (neg, u) = (case t of
             [] \<Rightarrow> (False, [])
           | c # cs \<Rightarrow> if c = CHR ''-'' then (True, cs) else if c = CHR ''+'' then (False, cs) else (False, t));
          l = lower u
      in if take 3 l = ''inf'' then Inr (mk_double neg inf_mag)
         else if take 3 l = ''nan'' then Inr (mk_double neg (inf_mag + 2 ^ 51))
         else
           let (hip, hfp, hr) = mantissa ishex (drop 2 u)
           in if take 2 l = ''0x'' \<and> hip @ hfp \<noteq> [] then
                (case scaled 2 (hex_digits_val 0 (hip @ hfp)) (exp_part (CHR ''p'') hr - 4 * int (length hfp)) of
                   (n, d) \<Rightarrow> stod_ratio neg n d)
              else
                let (ip, fp, r) = mantissa isdigit u
                in if ip @ fp = [] then Inl (InvalidArgument ''stod'')
                   else (case scaled 10 (digits_val 0 (ip @ fp)) (exp_part (CHR ''e'') r - int (length fp)) of
                           (n, d) \<Rightarrow> stod_ratio neg n d))"

definition pad6 :: "nat \<Rightarrow> string" where
  "pad6 n = (let s = nat_to_string n in replicate (6 - length s) (CHR ''0'') @ s)"

definition double_to_string :: "double \<Rightarrow> string" where
  "double_to_string w =
     (let sgn = (if dneg w then ''-'' else '''')
      in if is_nan w then sgn @ ''nan''
         else if dmag w = inf_mag then sgn @ ''inf''
         else
           let v = (if 0 \<le> dexp w then dsig w * 2 ^ nat (dexp w) * 1000000
                    else rne_div (dsig w * 1000000) (2 ^ nat (- dexp w)))
           in sgn @ nat_to_string (v div 1000000) @ ''.'' @ pad6 (v mod 1000000))"

section \<open>The order\<close>

lemma double_lt_irrefl: "\<not> double_lt a a"
  by (simp add: double_lt_def)

lemma double_lt_trans: "double_lt a b \<Longrightarrow> double_lt b c \<Longrightarrow> double_lt a c"
  by (simp add: double_lt_def)

lemma double_trichotomy:
  "\<not> is_nan a \<Longrightarrow> \<not> is_nan b \<Longrightarrow> double_lt a b \<or> double_eq a b \<or> double_lt b a"
  by (auto simp: double_lt_def double_eq_def)

lemma double_nan: "is_nan a \<Longrightarrow> \<not> double_lt a b \<and> \<not> double_lt b a \<and> \<not> double_eq a b"
  by (simp add: double_lt_def double_eq_def)

lemma dkey_zero [simp]: "dkey 0 = 0" "\<not> is_nan 0"
  by (simp_all add: dkey_def dmag_def dneg_def is_nan_def inf_mag_def)

section \<open>Evaluation\<close>

lemmas stod_eval = stod_def Let_def lower_def tolower_def isspace_def mantissa_def isdigit_def ishex_def hexval_def scaled_def
  digit_val_def exp_part_def stod_ratio_def round_mag_def ulp_exp_def flog2.simps rne_div_def inf_mag_def mk_double_def is_nan_def
  dmag_def dneg_def dkey_def

lemma stod_samples: "stod ''1'' = Inr 0x3FF0000000000000" "stod ''2'' = Inr 0x4000000000000000" "stod ''5'' = Inr 0x4014000000000000"
  by (simp_all add: stod_eval)

text \<open>Code equations on integers, whose numerals evaluate in binary.\<close>

lemma int_dmag: "int (dmag w) = uint w mod 2 ^ 63"
  by (simp add: dmag_def zmod_int)

lemma dneg_uint: "dneg w \<longleftrightarrow> 2 ^ 63 \<le> uint w"
proof -
  have "dneg w \<longleftrightarrow> int (2 ^ 63) \<le> int (unat w)" unfolding dneg_def of_nat_le_iff ..
  then show ?thesis by simp
qed

lemma dkey_code [code]: "dkey w = (if 2 ^ 63 \<le> uint w then - (uint w mod 2 ^ 63) else uint w mod 2 ^ 63)"
  unfolding dkey_def int_dmag dneg_uint ..

lemma is_nan_code [code]: "is_nan w \<longleftrightarrow> 2047 * 2 ^ 52 < uint w mod 2 ^ 63"
proof -
  have "is_nan w \<longleftrightarrow> int inf_mag < int (dmag w)" unfolding is_nan_def of_nat_less_iff ..
  then show ?thesis by (simp add: int_dmag inf_mag_def)
qed

end
