(* ===== verification/ZSet.thy ===== *)
theory ZSet
  imports SkipList Doubles "HOL-Library.Product_Lexorder"
begin

text \<open>
  \<open>ZSet\<close> (\<open>common/ds/zset.h\<close>, \<open>zset.cpp\<close>): a sorted set as a skip list ordered by score and member
  plus a hash map from members to scores. The invariant says that both hold the same pairs; the
  lemmas show which operations keep it and what they compute. Scores are binary64 values; the
  order of the list is the order of scores as long as no score is NaN.
\<close>

section \<open>Keys\<close>

type_synonym zkey = "double \<times> string"

definition zkey_lt :: "zkey \<Rightarrow> zkey \<Rightarrow> bool" where
  "zkey_lt a b = (if \<not> double_eq (fst a) (fst b) then double_lt (fst a) (fst b) else snd a < snd b)"

definition compare_zset_keys :: "zkey \<Rightarrow> zkey \<Rightarrow> int" where
  "compare_zset_keys a b = (if zkey_lt a b then - 1 else if zkey_lt b a then 1 else 0)"

text \<open>
  The skip list of a sorted set: default size functions (\<open>sizeof\<close>), keys \<open>{0.0, ""}\<close> and empty
  strings as defaults. Sizes are those of the x86-64 libstdc++ layout.
\<close>

definition zops :: "(zkey, string) sl_ops" where
  "zops = \<lparr>compare_func = compare_zset_keys, key_gt = (\<lambda>a b. zkey_lt b a),
     key_size = (\<lambda>_. 40), value_size = (\<lambda>_. 32), default_key = (0, ''''), default_value = '''',
     sizeof_node = 96\<rparr>"

definition zrk :: "zkey \<Rightarrow> int \<times> string" where
  "zrk k = (dkey (fst k), snd k)"

definition zvalid :: "zkey \<Rightarrow> bool" where
  "zvalid k \<longleftrightarrow> \<not> is_nan (fst k)"

lemma zkey_lt_rk: "zvalid a \<Longrightarrow> zvalid b \<Longrightarrow> zkey_lt a b \<longleftrightarrow> zrk a < zrk b"
  by (auto simp: zkey_lt_def zvalid_def zrk_def double_eq_def double_lt_def less_prod_def')

interpretation zl: ordered_keys zops zrk zvalid
proof
  fix a b
  assume v: "zvalid a" "zvalid b"
  show "compare_func zops a b < 0 \<longleftrightarrow> zrk a < zrk b" "key_gt zops a b \<longleftrightarrow> zrk b < zrk a"
    using v by (auto simp: zops_def compare_zset_keys_def zkey_lt_rk)
  show "compare_func zops a b = 0 \<longleftrightarrow> zrk a = zrk b"
    using v by (auto simp: zops_def compare_zset_keys_def zkey_lt_rk)
qed

section \<open>Operations\<close>

record zset =
  zsl :: "(zkey, string) skip_list"
  member_score_map :: "double umap"
  size_extra_bytes :: u64

definition HASH_NODE_COST :: u64 where "HASH_NODE_COST = 32"
definition sizeof_zset :: u64 where "sizeof_zset = 192"
definition DEFAULT_MAX_LEVEL :: nat where "DEFAULT_MAX_LEVEL = 16"

text \<open>Short strings live in the string object: \<open>capacity()\<close> is at least 15.\<close>

definition str_capacity :: "string \<Rightarrow> u64" where
  "str_capacity s = word_of_nat (max 15 (length s))"

definition member_cost :: "string \<Rightarrow> u64" where
  "member_cost m = str_capacity m + HASH_NODE_COST + 8"

definition zset_new :: zset where
  "zset_new = \<lparr>zsl = sl_new zops DEFAULT_MAX_LEVEL, member_score_map = [], size_extra_bytes = sizeof_zset\<rparr>"

definition zset_copy :: "zset \<Rightarrow> zset" where
  "zset_copy other = \<lparr>zsl = sl_copy zops (zsl other), member_score_map = member_score_map other,
     size_extra_bytes = size_extra_bytes other\<rparr>"

definition zadd :: "bool list \<Rightarrow> string \<Rightarrow> string \<Rightarrow> zset \<Rightarrow> zset res" where
  "zadd coins member sc z = rbind (stod sc) (\<lambda>score.
     let insert_new = (\<lambda>sl extra.
       z\<lparr>zsl := sl_insert zops coins (score, member) member sl,
         member_score_map := AList.update member score (member_score_map z),
         size_extra_bytes := extra + 8\<rparr>)
     in case map_of (member_score_map z) member of
          Some old \<Rightarrow>
            if double_eq old score then Inr z
            else Inr (insert_new (snd (sl_remove zops (old, member) (zsl z))) (size_extra_bytes z - 8))
        | None \<Rightarrow> Inr (insert_new (zsl z) (size_extra_bytes z + (str_capacity member + HASH_NODE_COST))))"

definition zscore :: "string \<Rightarrow> zset \<Rightarrow> string option" where
  "zscore member z = map_option double_to_string (map_of (member_score_map z) member)"

definition zrem :: "string \<Rightarrow> zset \<Rightarrow> bool \<times> zset" where
  "zrem member z = (case map_of (member_score_map z) member of
       None \<Rightarrow> (False, z)
     | Some score \<Rightarrow>
         (True, z\<lparr>zsl := snd (sl_remove zops (score, member) (zsl z)),
                  size_extra_bytes := size_extra_bytes z - member_cost member,
                  member_score_map := AList.delete member (member_score_map z)\<rparr>))"

definition zrank :: "string \<Rightarrow> zset \<Rightarrow> nat option" where
  "zrank member z = (case map_of (member_score_map z) member of
       None \<Rightarrow> None
     | Some score \<Rightarrow> sl_rank zops (score, member) (zsl z))"

definition with_score :: "zkey \<times> string \<Rightarrow> string \<times> string" where
  "with_score item = (snd item, double_to_string (fst (fst item)))"

definition high_member :: string where "high_member = [char_of (255 :: nat)]"

definition zrange_by_score :: "string \<Rightarrow> string \<Rightarrow> zset \<Rightarrow> (string \<times> string) list res" where
  "zrange_by_score min_sc max_sc z =
     rbind (stod min_sc) (\<lambda>min_score. rbind (stod max_sc) (\<lambda>max_score.
       Inr (map with_score (sl_range_by_key zops (min_score, '''') (max_score, high_member) (zsl z)))))"

definition zrange_by_rank :: "nat \<Rightarrow> nat \<Rightarrow> zset \<Rightarrow> (string \<times> string) list" where
  "zrange_by_rank start end z = map with_score (sl_range_by_rank zops start end (zsl z))"

definition zrem_range_by_score :: "string \<Rightarrow> string \<Rightarrow> zset \<Rightarrow> (nat \<times> zset) res" where
  "zrem_range_by_score min_sc max_sc z =
     rbind (stod min_sc) (\<lambda>min_score. rbind (stod max_sc) (\<lambda>max_score.
       let a = (min_score, ''''); b = (max_score, high_member);
           to_remove = map snd (sl_range_by_key zops a b (zsl z));
           (n, sl) = sl_remove_range_by_key zops a b (zsl z)
       in Inr (n, z\<lparr>zsl := sl,
                    member_score_map := fold AList.delete to_remove (member_score_map z),
                    size_extra_bytes := fold (\<lambda>m x. x - member_cost m) to_remove (size_extra_bytes z)\<rparr>)))"

definition zrem_range_by_rank :: "nat \<Rightarrow> nat \<Rightarrow> zset \<Rightarrow> nat \<times> zset" where
  "zrem_range_by_rank start end z =
     (if end < start then (0, z)
      else
        let to_remove = map snd (sl_range_by_rank zops start end (zsl z))
        in if to_remove = [] then (0, z)
           else
             let (m, extra) = fold (\<lambda>member (m, extra).
                   if map_of m member = None then (m, extra)
                   else (AList.delete member m, extra - member_cost member))
                   to_remove (member_score_map z, size_extra_bytes z);
                 (n, sl) = sl_remove_range_by_rank zops start end (zsl z)
             in (n, z\<lparr>zsl := sl, member_score_map := m, size_extra_bytes := extra\<rparr>))"

definition zincrby :: "bool list \<Rightarrow> string \<Rightarrow> string \<Rightarrow> zset \<Rightarrow> (string option \<times> zset) res" where
  "zincrby coins member incr z = rbind (stod incr) (\<lambda>increment.
     case map_of (member_score_map z) member of
       None \<Rightarrow> Inr (None, z)
     | Some old_score \<Rightarrow>
         let new_score = double_add old_score increment
         in Inr (Some (double_to_string new_score),
                 z\<lparr>zsl := sl_insert zops coins (new_score, member) member
                            (snd (sl_remove zops (old_score, member) (zsl z))),
                   member_score_map := AList.update member new_score (member_score_map z)\<rparr>))"

definition zclear :: "zset \<Rightarrow> zset" where
  "zclear z = \<lparr>zsl = sl_clear zops (zsl z), member_score_map = [], size_extra_bytes = sizeof_zset\<rparr>"

definition zcard :: "zset \<Rightarrow> nat" where
  "zcard z = length (member_score_map z)"

definition zset_memory_usage :: "zset \<Rightarrow> u64" where
  "zset_memory_usage z = size_extra_bytes z + current_size (zsl z)"

definition zset_for_each :: "(string \<Rightarrow> double \<Rightarrow> 's \<Rightarrow> 's) \<Rightarrow> zset \<Rightarrow> 's \<Rightarrow> 's" where
  "zset_for_each callback z = sl_for_each zops (\<lambda>key member. callback member (fst key)) (zsl z)"

section \<open>Encodings\<close>

definition ser_double :: "double \<Rightarrow> bytes" where "ser_double v = le64 v"

definition deserializeDouble :: "double decoder" where
  "deserializeDouble data off = rbind (read_bytes data off 8) (\<lambda>b. Inr (of_le64 b, off + 8))"

definition ser_zkey :: "zkey \<Rightarrow> bytes" where
  "ser_zkey key = ser_double (fst key) @ ser_string (snd key)"

definition deserializeZSetKey :: "zkey decoder" where
  "deserializeZSetKey = dec_pair deserializeDouble deserializeString"

definition ser_zskiplist :: "(zkey, string) skip_list \<Rightarrow> bytes" where
  "ser_zskiplist sl = sl_serialize zops ser_zkey ser_string sl"

definition ser_score :: "string \<times> double \<Rightarrow> bytes" where
  "ser_score p = ser_string (fst p) @ ser_double (snd p)"

definition ser_score_map :: "double umap \<Rightarrow> bytes" where
  "ser_score_map m = be32 (word_of_nat (length m)) @ concat (map ser_score m)"

definition ser_zset :: "zset \<Rightarrow> bytes" where
  "ser_zset z = ser_zskiplist (zsl z) @ ser_score_map (member_score_map z)"

definition deserialize_score_map :: "double umap decoder" where
  "deserialize_score_map data off =
     rbind (deserialize_count data off) (\<lambda>(size, off1).
       rbind (dec_n size (dec_pair deserializeString deserializeDouble) data off1) (\<lambda>(xs, off2).
         Inr (fold (\<lambda>(k, v). AList.update k v) xs [], off2)))"

definition zset_deserialize :: "bytes \<Rightarrow> nat \<Rightarrow> zset \<Rightarrow> (zset \<times> nat) res" where
  "zset_deserialize data off z =
     rbind (sl_deserialize deserializeZSetKey deserializeString data off (sl_clear zops (zsl z))) (\<lambda>(sl, off1).
     rbind (deserialize_score_map data off1) (\<lambda>(m, off2).
       Inr (\<lparr>zsl = sl, member_score_map = m,
             size_extra_bytes = fold (\<lambda>p x. x + member_cost (fst p)) m sizeof_zset\<rparr>, off2)))"

definition deserializeZSet :: "zset decoder" where
  "deserializeZSet data off = zset_deserialize data off zset_new"

section \<open>Invariant\<close>

text \<open>The list and the map hold the same members with the same scores.\<close>

definition zkeys :: "zset \<Rightarrow> zkey list" where
  "zkeys z = map fst (sl_cells (zsl z))"

definition zset_inv :: "zset \<Rightarrow> bool" where
  "zset_inv z \<longleftrightarrow> zl.sl_inv (zsl z) \<and> distinct (map fst (member_score_map z)) \<and>
     (\<forall>x \<in> set (sl_cells (zsl z)). snd x = (snd (fst x), False)) \<and>
     (\<forall>s m. (s, m) \<in> set (zkeys z) \<longleftrightarrow> map_of (member_score_map z) m = Some s)"

definition zscores :: "zset \<Rightarrow> string \<rightharpoonup> double" where
  "zscores z = map_of (member_score_map z)"

lemma zset_inv_new: "zset_inv zset_new" "zscores zset_new = Map.empty"
  using zl.new_spec [of DEFAULT_MAX_LEVEL]
  by (simp_all add: zset_inv_def zset_new_def zkeys_def zscores_def DEFAULT_MAX_LEVEL_def)

lemma zkeys_ordered: "zset_inv z \<Longrightarrow> sorted_wrt (\<lambda>a b. zrk a < zrk b) (zkeys z)" "zset_inv z \<Longrightarrow> k \<in> set (zkeys z) \<Longrightarrow> zvalid k"
  using zl.cells_ordered [of "zsl z"] by (auto simp: zset_inv_def zkeys_def zl.ordered_ks_def)

lemma zcell_score:
  assumes "zset_inv z" "x \<in> set (sl_cells (zsl z))"
  shows "zscores z (snd (fst x)) = Some (fst (fst x))"
proof -
  have "(fst (fst x), snd (fst x)) \<in> set (zkeys z)" using assms(2) by (simp add: zkeys_def)
  then show ?thesis using assms(1) unfolding zset_inv_def zscores_def by blast
qed

lemma zscores_valid: "zset_inv z \<Longrightarrow> zscores z m = Some s \<Longrightarrow> zvalid (s, m)"
  using zkeys_ordered(2) [of z "(s, m)"] by (simp add: zset_inv_def zscores_def)

text \<open>Removing a member's node, and inserting a node for a member that has none.\<close>

lemma zsl_removed:
  assumes inv: "zset_inv z" and m: "zscores z m = Some s"
  shows "zl.sl_inv (snd (sl_remove zops (s, m) (zsl z)))"
    and "set (sl_cells (snd (sl_remove zops (s, m) (zsl z)))) = {x \<in> set (sl_cells (zsl z)). snd (fst x) \<noteq> m}"
proof -
  have v: "zvalid (s, m)" by (rule zscores_valid [OF inv m])
  have sl: "zl.sl_inv (zsl z)" using inv by (simp add: zset_inv_def)
  note r = zl.remove_spec [OF sl v]
  show "zl.sl_inv (snd (sl_remove zops (s, m) (zsl z)))" using r by simp
  have "zrk (fst x) = zrk (s, m) \<longleftrightarrow> snd (fst x) = m" if x: "x \<in> set (sl_cells (zsl z))" for x
  proof
    assume "snd (fst x) = m"
    then show "zrk (fst x) = zrk (s, m)" using m zcell_score [OF inv x] by (simp add: zrk_def)
  qed (simp add: zrk_def)
  then show "set (sl_cells (snd (sl_remove zops (s, m) (zsl z)))) = {x \<in> set (sl_cells (zsl z)). snd (fst x) \<noteq> m}"
    using r by auto
qed

lemma zsl_inserted:
  assumes sl: "zl.sl_inv sl" and v: "zvalid (s, m)" and fresh: "\<forall>x \<in> set (sl_cells sl). snd (fst x) \<noteq> m"
  shows "zl.sl_inv (sl_insert zops coins (s, m) m sl)"
    and "set (sl_cells (sl_insert zops coins (s, m) m sl)) = insert ((s, m), m, False) (set (sl_cells sl))"
proof -
  note i = zl.insert_spec [OF sl v, of coins m]
  show "zl.sl_inv (sl_insert zops coins (s, m) m sl)" by (rule i(1))
  have "\<forall>x \<in> set (sl_cells sl). zrk (fst x) \<noteq> zrk (s, m)" using fresh by (auto simp: zrk_def)
  then show "set (sl_cells (sl_insert zops coins (s, m) m sl)) = insert ((s, m), m, False) (set (sl_cells sl))"
    unfolding i(2) by (rule set_put_by_fresh)
qed

text \<open>Setting a member's score: the common effect of \<open>zadd\<close> and \<open>zincrby\<close>.\<close>

lemma zset_inv_put:
  assumes inv: "zset_inv z" and v: "\<not> is_nan s"
    and sl: "sl = (case zscores z m of Some old \<Rightarrow> snd (sl_remove zops (old, m) (zsl z)) | None \<Rightarrow> zsl z)"
    and z': "zsl z' = sl_insert zops coins (s, m) m sl" "member_score_map z' = AList.update m s (member_score_map z)"
  shows "zset_inv z'" "zscores z' = (zscores z)(m \<mapsto> s)"
proof -
  have base: "zl.sl_inv sl" "set (sl_cells sl) = {x \<in> set (sl_cells (zsl z)). snd (fst x) \<noteq> m}"
  proof (atomize(full), cases "zscores z m")
    case None
    then have "\<forall>x \<in> set (sl_cells (zsl z)). snd (fst x) \<noteq> m"
      using zcell_score [OF inv] by fastforce
    then show "zl.sl_inv sl \<and> set (sl_cells sl) = {x \<in> set (sl_cells (zsl z)). snd (fst x) \<noteq> m}"
      using None inv by (auto simp: sl zset_inv_def)
  next
    case (Some old)
    then show "zl.sl_inv sl \<and> set (sl_cells sl) = {x \<in> set (sl_cells (zsl z)). snd (fst x) \<noteq> m}"
      using zsl_removed [OF inv Some] by (simp add: sl)
  qed
  have v': "zvalid (s, m)" using v by (simp add: zvalid_def)
  have fresh: "\<forall>x \<in> set (sl_cells sl). snd (fst x) \<noteq> m" using base(2) by auto
  note ins = zsl_inserted [OF base(1) v' fresh, of coins]
  have keys: "(s', m') \<in> set (zkeys z') \<longleftrightarrow> (s', m') = (s, m) \<or> (m' \<noteq> m \<and> (s', m') \<in> set (zkeys z))" for s' m'
    using ins(2) base(2) by (auto simp: zkeys_def z')
  have "\<forall>x \<in> set (sl_cells (zsl z')). snd x = (snd (fst x), False)"
    using ins(2) base(2) inv by (auto simp: z' zset_inv_def)
  moreover have "(s', m') \<in> set (zkeys z') \<longleftrightarrow> map_of (member_score_map z') m' = Some s'" for s' m'
    using inv by (auto simp: keys z' zset_inv_def)
  moreover have "distinct (map fst (member_score_map z'))"
    using inv by (simp add: z' zset_inv_def distinct_update)
  ultimately show "zset_inv z'" using ins(1) by (simp add: zset_inv_def z')
  show "zscores z' = (zscores z)(m \<mapsto> s)" by (simp add: zscores_def z')
qed

lemma zadd_spec:
  assumes inv: "zset_inv z" and sc: "stod sc = Inr s" and nan: "\<not> is_nan s"
  shows "\<exists>z'. zadd coins m sc z = Inr z' \<and> zset_inv z' \<and>
    zscores z' = (case zscores z m of
      Some old \<Rightarrow> if double_eq old s then zscores z else (zscores z)(m \<mapsto> s)
    | None \<Rightarrow> (zscores z)(m \<mapsto> s))"
proof (cases "zscores z m")
  case None
  then show ?thesis
    using zset_inv_put [OF inv nan, of "zsl z" m _ coins] sc by (simp add: zadd_def zscores_def Let_def)
next
  case (Some old)
  then show ?thesis
    using zset_inv_put [OF inv nan, of "snd (sl_remove zops (old, m) (zsl z))" m _ coins] sc inv
    by (simp add: zadd_def zscores_def Let_def)
qed

lemma zadd_error: "stod sc = Inl e \<Longrightarrow> zadd coins m sc z = Inl e"
  by (simp add: zadd_def)

lemma zincrby_spec:
  assumes inv: "zset_inv z" and sc: "stod incr = Inr d" and old: "zscores z m = Some s"
    and nan: "\<not> is_nan (double_add s d)"
  shows "\<exists>z'. zincrby coins m incr z = Inr (Some (double_to_string (double_add s d)), z') \<and> zset_inv z' \<and>
    zscores z' = (zscores z)(m \<mapsto> double_add s d)"
  using zset_inv_put [OF inv nan, of "snd (sl_remove zops (s, m) (zsl z))" m _ coins] sc old
  by (simp add: zincrby_def zscores_def Let_def)

lemma zrem_spec:
  assumes inv: "zset_inv z"
  shows "zset_inv (snd (zrem m z))" "zscores (snd (zrem m z)) = (zscores z)(m := None)"
    "fst (zrem m z) \<longleftrightarrow> zscores z m \<noteq> None"
proof (atomize(full), cases "zscores z m")
  case None
  then show "zset_inv (snd (zrem m z)) \<and> zscores (snd (zrem m z)) = (zscores z)(m := None) \<and> (fst (zrem m z) \<longleftrightarrow> zscores z m \<noteq> None)"
    using inv by (simp add: zrem_def zscores_def fun_upd_idem)
next
  case (Some s)
  note r = zsl_removed [OF inv Some]
  let ?z = "snd (zrem m z)"
  have z': "zsl ?z = snd (sl_remove zops (s, m) (zsl z))" "member_score_map ?z = AList.delete m (member_score_map z)"
    "fst (zrem m z)" using Some by (simp_all add: zrem_def zscores_def)
  have keys: "(s', m') \<in> set (zkeys ?z) \<longleftrightarrow> m' \<noteq> m \<and> (s', m') \<in> set (zkeys z)" for s' m'
    using r(2) by (auto simp: zkeys_def z')
  have "zset_inv ?z"
    using inv r keys unfolding zset_inv_def by (auto simp: z' distinct_delete)
  then show "zset_inv (snd (zrem m z)) \<and> zscores (snd (zrem m z)) = (zscores z)(m := None) \<and> (fst (zrem m z) \<longleftrightarrow> zscores z m \<noteq> None)"
    using Some by (simp add: zscores_def z')
qed

section \<open>Ranks\<close>

lemma zrank_spec:
  assumes inv: "zset_inv z" and m: "zscores z m = Some s"
  shows "\<exists>r < length (zkeys z). zrank m z = Some r \<and> zkeys z ! r = (s, m)"
proof -
  have v: "zvalid (s, m)" by (rule zscores_valid [OF inv m])
  have sl: "zl.sl_inv (zsl z)" using inv by (simp add: zset_inv_def)
  have mem: "(s, m) \<in> set (zkeys z)" using inv m by (simp add: zset_inv_def zscores_def)
  then obtain xs ys where k: "zkeys z = xs @ (s, m) # ys" by (meson split_list)
  have ord: "sorted_wrt (\<lambda>a b. zrk a < zrk b) (zkeys z)" using zkeys_ordered(1) [OF inv] .
  have "filter (\<lambda>x. zrk x < zrk (s, m)) (zkeys z) = xs"
    using ord by (auto simp: k sorted_wrt_append filter_empty_conv filter_id_conv)
  then have len: "length (filter (\<lambda>x. zrk (fst x) < zrk (s, m)) (sl_cells (zsl z))) = length xs"
    by (simp add: zkeys_def filter_map comp_def) (metis length_map)
  obtain c where "((s, m), c) \<in> set (sl_cells (zsl z))" using mem by (auto simp: zkeys_def)
  then have "find_by zrk (s, m) (sl_cells (zsl z)) \<noteq> None"
    using find_by_Some [of "(s, m)" c "sl_cells (zsl z)" zrk] ord by (simp add: zkeys_def)
  then have "sl_rank zops (s, m) (zsl z) = Some (length xs)"
    using zl.rank_spec [OF sl v] len by simp
  then show ?thesis using m k by (intro exI [of _ "length xs"]) (simp add: zrank_def zscores_def)
qed

lemma zrange_by_rank_spec:
  assumes inv: "zset_inv z" and ab: "a \<le> b"
  shows "zrange_by_rank a b z = map (\<lambda>(s, m). (m, double_to_string s)) (drop a (take (Suc b) (zkeys z)))"
proof -
  have sl: "zl.sl_inv (zsl z)" and sh: "\<forall>x \<in> set (sl_cells (zsl z)). snd x = (snd (fst x), False)"
    using inv by (auto simp: zset_inv_def)
  have "sl_get_all_entries zops (zsl z) = map (\<lambda>k. (k, snd k)) (zkeys z)"
    unfolding zl.entries_cells [OF sl] zkeys_def using sh by (force simp: observe_def)
  then show ?thesis
    using ab by (simp add: zrange_by_rank_def zl.range_by_rank_spec drop_map take_map with_score_def case_prod_beta)
qed

lemma zcard_keys: "zset_inv z \<Longrightarrow> zcard z = length (zkeys z)"
proof -
  assume inv: "zset_inv z"
  have d: "distinct (member_score_map z)" using inv by (simp add: zset_inv_def distinct_map)
  have dk: "distinct (zkeys z)"
    using zkeys_ordered(1) [OF inv] by (rule distinct_strict)
  have "set (zkeys z) = prod.swap ` set (member_score_map z)"
    using inv by (force simp: zset_inv_def)
  then have "card (set (zkeys z)) = card (set (member_score_map z))"
    by (simp add: card_image)
  then show ?thesis using d dk by (simp add: zcard_def distinct_card)
qed

lemma erase_members:
  assumes "distinct (map fst m)"
  shows "let r = fold (\<lambda>k (m, x). if map_of m k = None then (m, x) else (AList.delete k m, g k x)) ks (m, x)
    in distinct (map fst (fst r)) \<and> map_of (fst r) = (\<lambda>k. if k \<in> set ks then None else map_of m k)"
  using assms
proof (induction ks arbitrary: m x)
  case (Cons k ks)
  let ?m = "if map_of m k = None then m else AList.delete k m"
  have d: "distinct (map fst ?m)" using Cons.prems by (simp add: distinct_delete)
  have m: "map_of ?m = (map_of m)(k := None)" by (auto simp: fun_eq_iff)
  have "fold (\<lambda>k (m, x). if map_of m k = None then (m, x) else (AList.delete k m, g k x)) (k # ks) (m, x)
    = fold (\<lambda>k (m, x). if map_of m k = None then (m, x) else (AList.delete k m, g k x)) ks
        (?m, if map_of m k = None then x else g k x)"
    by simp
  then show ?case using Cons.IH [OF d] by (simp only: Let_def m) (auto simp: fun_eq_iff)
qed simp

lemma zrem_range_by_rank_spec:
  assumes inv: "zset_inv z" and ab: "a \<le> b" "b < zcard z"
  shows "zset_inv (snd (zrem_range_by_rank a b z))"
    "zkeys (snd (zrem_range_by_rank a b z)) = take a (zkeys z) @ drop (Suc b) (zkeys z)"
    "fst (zrem_range_by_rank a b z) = Suc b - a"
proof -
  let ?out = "drop a (take (Suc b) (zkeys z))" and ?z = "snd (zrem_range_by_rank a b z)"
  have sl: "zl.sl_inv (zsl z)" and sh: "\<forall>x \<in> set (sl_cells (zsl z)). snd x = (snd (fst x), False)"
    and dm: "distinct (map fst (member_score_map z))"
    and km: "\<And>s m. (s, m) \<in> set (zkeys z) \<longleftrightarrow> map_of (member_score_map z) m = Some s"
    using inv by (auto simp: zset_inv_def)
  have size: "b < sl_size (zsl z)" using zl.size_cells [OF sl] zcard_keys [OF inv] ab by (simp add: zkeys_def)
  note rr = zl.remove_range_by_rank_spec [OF sl ab(1) size]
  have rem: "map snd (sl_range_by_rank zops a b (zsl z)) = map snd ?out"
  proof -
    have "map fst (zrange_by_rank a b z) = map snd (sl_range_by_rank zops a b (zsl z))"
      by (simp add: zrange_by_rank_def with_score_def comp_def)
    then show ?thesis using zrange_by_rank_spec [OF inv ab(1)] by (simp add: comp_def case_prod_beta)
  qed
  have ne: "?out \<noteq> []" using ab zcard_keys [OF inv] by simp
  note er = erase_members [OF dm, of "\<lambda>m x. x - member_cost m" "map snd ?out" "size_extra_bytes z", unfolded Let_def]
  have z': "zsl ?z = snd (sl_remove_range_by_rank zops a b (zsl z))"
    "member_score_map ?z = fst (fold (\<lambda>k (m, x). if map_of m k = None then (m, x) else (AList.delete k m, x - member_cost k))
       (map snd ?out) (member_score_map z, size_extra_bytes z))"
    "fst (zrem_range_by_rank a b z) = fst (sl_remove_range_by_rank zops a b (zsl z))"
    using ab ne by (simp_all add: zrem_range_by_rank_def rem Let_def case_prod_beta)
  have keys: "zkeys ?z = take a (zkeys z) @ drop (Suc b) (zkeys z)"
    using rr by (simp add: zkeys_def z' take_map drop_map)
  have split: "zkeys z = take a (zkeys z) @ ?out @ drop (Suc b) (zkeys z)"
    by (rule take_drop_mid) (use ab in simp)
  have d: "distinct (map snd (zkeys z))"
  proof -
    have "inj_on snd (set (zkeys z))"
      by (rule inj_onI) (metis km option.inject prod.collapse)
    then show ?thesis using distinct_strict [OF zkeys_ordered(1) [OF inv]] by (simp add: distinct_map)
  qed
  have part: "(s, m) \<in> set (zkeys ?z) \<longleftrightarrow> (s, m) \<in> set (zkeys z) \<and> m \<notin> set (map snd ?out)" for s m
  proof -
    have "snd ` set ?out \<inter> snd ` set (zkeys ?z) = {}" using d unfolding keys by (subst (asm) split) auto
    moreover have "set (zkeys z) = set (zkeys ?z) \<union> set ?out" unfolding keys by (subst split) auto
    ultimately show ?thesis using disjoint_part [of "set (zkeys z)" "set (zkeys ?z)" "set ?out" snd "(s, m)"] by simp
  qed
  show "zset_inv ?z"
    unfolding zset_inv_def
  proof (intro conjI allI)
    show "zl.sl_inv (zsl ?z)" using rr by (simp add: z')
    show "distinct (map fst (member_score_map ?z))" using er by (simp add: z')
    show "\<forall>x \<in> set (sl_cells (zsl ?z)). snd x = (snd (fst x), False)"
      using rr sh by (auto simp: z' dest: in_set_takeD in_set_dropD)
    show "(s, m) \<in> set (zkeys ?z) \<longleftrightarrow> map_of (member_score_map ?z) m = Some s" for s m
      using er km by (simp add: part z'(2))
  qed
  show "zkeys ?z = take a (zkeys z) @ drop (Suc b) (zkeys z)" by (rule keys)
  show "fst (zrem_range_by_rank a b z) = Suc b - a" using rr by (simp add: z')
qed

lemma zclear_spec: "zset_inv z \<Longrightarrow> zset_inv (zclear z)" "zset_inv z \<Longrightarrow> zscores (zclear z) = Map.empty"
  using zl.clear_spec [of "zsl z"] by (simp_all add: zset_inv_def zclear_def zkeys_def zscores_def)

section \<open>Reading a sorted set back\<close>

interpretation dbl: codec ser_double deserializeDouble "\<lambda>_. True"
proof
  fix x :: double and pre post
  show "deserializeDouble (pre @ ser_double x @ post) (length pre) = Inr (x, length pre + length (ser_double x))"
    using read_bytes_append [of pre "length pre" "le64 x" 8 post] by (simp add: deserializeDouble_def ser_double_def)
qed

interpretation ds: codec_pair ser_double deserializeDouble "\<lambda>_. True" ser_string deserializeString string_ok
  by unfold_locales

interpretation sd: codec_pair ser_string deserializeString string_ok ser_double deserializeDouble "\<lambda>_. True"
  by unfold_locales

definition zkey_ok :: "zkey \<Rightarrow> bool" where "zkey_ok k \<longleftrightarrow> string_ok (snd k)"

lemma zkey_pair: "ser_zkey = ds.enc_pair" "zkey_ok = ds.ok_pair"
  by (simp_all add: fun_eq_iff ser_zkey_def ds.enc_pair_def zkey_ok_def ds.ok_pair_def)

interpretation zst: stored_list zops zrk zvalid ser_zkey deserializeZSetKey zkey_ok ser_string deserializeString string_ok
  unfolding zkey_pair deserializeZSetKey_def by unfold_locales

lemma fold_update_fresh:
  "distinct (map fst (m @ xs)) \<Longrightarrow> fold (\<lambda>(k, v). AList.update k v) xs m = m @ xs"
proof (induction xs arbitrary: m)
  case (Cons x xs)
  obtain k v where x: "x = (k, v)" by fastforce
  have "k \<notin> fst ` set m \<Longrightarrow> AList.update k v m = m @ [(k, v)]" by (induction m) auto
  with Cons show ?case by (simp add: x)
qed simp

definition score_map_ok :: "double umap \<Rightarrow> bool" where
  "score_map_ok m \<longleftrightarrow> distinct (map fst m) \<and> length m < 2 ^ 32 \<and> list_all (\<lambda>p. string_ok (fst p)) m"

interpretation smap: codec ser_score_map deserialize_score_map score_map_ok
proof
  fix x :: "double umap" and pre post
  assume ok: "score_map_ok x"
  have enc: "ser_score = sd.enc_pair" by (simp add: fun_eq_iff ser_score_def sd.enc_pair_def)
  have "deserialize_score_map (pre @ ser_score_map x @ post) (length pre) =
      rbind (rbind (deserialize_count (pre @ ser_score_map x @ post) (length pre))
        (\<lambda>(size, off1). dec_n size (dec_pair deserializeString deserializeDouble) (pre @ ser_score_map x @ post) off1))
        (\<lambda>(xs, off2). Inr (fold (\<lambda>(k, v). AList.update k v) xs [], off2))"
    by (simp add: deserialize_score_map_def rbind_def split: sum.split)
  also have "\<dots> = Inr (x, length pre + length (ser_score_map x))"
    using ok sd.pair.counted_dec [of x "ser_score_map x" pre post] fold_update_fresh [of "[]" x]
    by (simp add: score_map_ok_def ser_score_map_def enc sd.ok_pair_def list_all_iff)
  finally show "deserialize_score_map (pre @ ser_score_map x @ post) (length pre) = Inr (x, length pre + length (ser_score_map x))" .
qed

definition zset_ok :: "zset \<Rightarrow> bool" where
  "zset_ok z \<longleftrightarrow> zset_inv z \<and> length (member_score_map z) < 2 ^ 32 \<and>
     list_all (\<lambda>p. string_ok (fst p)) (member_score_map z) \<and> MAX_LEVEL (zsl z) = DEFAULT_MAX_LEVEL"

definition zset_norm :: "zset \<Rightarrow> zset" where
  "zset_norm z = \<lparr>zsl = sl_restored zops (zsl z) (sl_clear zops (zsl zset_new)), member_score_map = member_score_map z,
     size_extra_bytes = fold (\<lambda>p x. x + member_cost (fst p)) (member_score_map z) sizeof_zset\<rparr>"

lemma zset_cells_ok:
  assumes "zset_ok z"
  shows "\<forall>(k, c) \<in> set (sl_cells (zsl z)). zkey_ok k \<and> string_ok (observe zops c)"
proof -
  have inv: "zset_inv z" using assms by (simp add: zset_ok_def)
  have "zkey_ok (fst x) \<and> string_ok (observe zops (snd x))" if x: "x \<in> set (sl_cells (zsl z))" for x
  proof -
    have "(snd (fst x), fst (fst x)) \<in> set (member_score_map z)"
      using zcell_score [OF inv x] by (auto simp: zscores_def dest: map_of_SomeD)
    then have "string_ok (snd (fst x))" using assms by (auto simp: zset_ok_def list_all_iff)
    moreover have "snd x = (snd (fst x), False)" using inv x by (simp add: zset_inv_def)
    ultimately show ?thesis by (simp add: zkey_ok_def observe_def)
  qed
  then show ?thesis by auto
qed

lemma zset_restore:
  assumes ok: "zset_ok z"
  shows "deserializeZSet (pre @ ser_zset z @ post) (length pre) = Inr (zset_norm z, length pre + length (ser_zset z))"
    "zl.sl_inv (zsl (zset_norm z))" "sl_cells (zsl (zset_norm z)) = sl_cells (zsl z)"
    "zl.node_list (zsl (zset_norm z)) = zl.node_list (zsl z)"
proof -
  have inv: "zset_inv z" "zl.sl_inv (zsl z)" and sh: "\<forall>x \<in> set (sl_cells (zsl z)). snd x = (snd (fst x), False)"
    and ml: "MAX_LEVEL (zsl z) = DEFAULT_MAX_LEVEL" using ok by (auto simp: zset_ok_def zset_inv_def)
  let ?s0 = "sl_clear zops (zsl zset_new)"
  have s0: "zl.sl_inv ?s0" "sl_cells ?s0 = []" "MAX_LEVEL ?s0 = MAX_LEVEL (zsl z)"
    using zl.clear_spec [of "zsl zset_new"] zset_inv_new ml
    by (auto simp: zset_inv_def) (simp_all add: zset_new_def sl_clear_def Let_def sl_new_def)
  have size: "sl_size (zsl z) < 2 ^ 32"
    using zl.size_cells [OF inv(2)] zcard_keys [OF inv(1)] ok by (simp add: zcard_def zkeys_def zset_ok_def)
  have small: "MAX_LEVEL (zsl z) < 2 ^ 32" using ml by (simp add: DEFAULT_MAX_LEVEL_def)
  let ?a = "ser_zskiplist (zsl z)" and ?b = "ser_score_map (member_score_map z)"
  let ?data = "pre @ ser_zset z @ post"
  have d: "?data = pre @ sl_serialize zops ser_zkey ser_string (zsl z) @ (?b @ post)"
    by (simp add: ser_zset_def ser_zskiplist_def)
  note sl = zst.deserialize_spec [OF inv(2) size small zset_cells_ok [OF ok] s0 d refl]
  have sm: "score_map_ok (member_score_map z)" using ok by (simp add: score_map_ok_def zset_ok_def zset_inv_def)
  have "deserialize_score_map ?data (length pre + length ?a) = Inr (member_score_map z, length pre + length ?a + length ?b)"
    by (rule smap.dec_enc_at [OF sm, of _ "pre @ ?a" post]) (simp_all add: ser_zset_def)
  then show "deserializeZSet ?data (length pre) = Inr (zset_norm z, length pre + length (ser_zset z))"
    using sl(1) by (simp add: deserializeZSet_def zset_deserialize_def zset_norm_def ser_zset_def ser_zskiplist_def)
  show "zl.sl_inv (zsl (zset_norm z))" using sl(2) by (simp add: zset_norm_def)
  have "(case x of (k, c) \<Rightarrow> (k, observe zops c, False)) = x" if "x \<in> set (sl_cells (zsl z))" for x
    using bspec [OF sh that] by (cases x) (simp add: observe_def)
  then show "sl_cells (zsl (zset_norm z)) = sl_cells (zsl z)"
    using sl(3) by (simp add: zset_norm_def map_idI)
  show "zl.node_list (zsl (zset_norm z)) = zl.node_list (zsl z)" using sl(4) by (simp add: zset_norm_def)
qed

interpretation zcodec: codec_upto ser_zset deserializeZSet zset_ok zset_norm
  by unfold_locales (rule zset_restore(1))

lemma zset_norm_same:
  assumes "zset_ok z"
  shows "zset_inv (zset_norm z)" "zkeys (zset_norm z) = zkeys z" "zscores (zset_norm z) = zscores z"
  using assms zset_restore(2,3) [OF assms] by (auto simp: zset_inv_def zkeys_def zscores_def zset_ok_def) (auto simp: zset_norm_def)

lemma zset_norm_levels:
  "current_level (zsl (zset_norm z)) = current_level (zsl z)" "sl_size (zsl (zset_norm z)) = sl_size (zsl z)"
  "MAX_LEVEL (zsl (zset_norm z)) = DEFAULT_MAX_LEVEL" "member_score_map (zset_norm z) = member_score_map z"
  by (simp_all add: zset_norm_def sl_restored_def Let_def sl_clear_def zset_new_def sl_new_def)

lemma zset_norm_stable:
  assumes "zset_ok z"
  shows "zset_ok (zset_norm z)" "ser_zset (zset_norm z) = ser_zset z" "zset_norm (zset_norm z) = zset_norm z"
proof -
  note n = zset_norm_levels [of z] and nl = zset_restore(4) [OF assms]
  show "zset_ok (zset_norm z)" using assms zset_norm_same(1) [OF assms] by (simp add: zset_ok_def n)
  show "ser_zset (zset_norm z) = ser_zset z"
    using zst.serialize_cong [OF nl n(1,2)] by (simp add: ser_zset_def ser_zskiplist_def n)
  show "zset_norm (zset_norm z) = zset_norm z"
    using zst.restored_cong [OF nl n(1,2), of "sl_clear zops (zsl zset_new)"] by (simp add: zset_norm_def [of "zset_norm z"] n)
      (simp add: zset_norm_def)
qed

section \<open>Reachable sorted sets\<close>

text \<open>
  What the operations make of a new sorted set. Scores that are not numbers are left out (the code
  accepts them and they have no place in the order), and so are removals by rank beyond the end and
  removals by score.
\<close>

inductive zset_reach :: "zset \<Rightarrow> bool" where
  reach_new: "zset_reach zset_new"
| reach_add: "zset_reach z \<Longrightarrow> stod sc = Inr d \<Longrightarrow> \<not> is_nan d \<Longrightarrow> zadd coins m sc z = Inr z' \<Longrightarrow> zset_reach z'"
| reach_incr: "zset_reach z \<Longrightarrow> stod inc = Inr d \<Longrightarrow> zscores z m = Some s \<Longrightarrow> \<not> is_nan (double_add s d) \<Longrightarrow>
    zincrby coins m inc z = Inr (r, z') \<Longrightarrow> zset_reach z'"
| reach_rem: "zset_reach z \<Longrightarrow> zset_reach (snd (zrem m z))"
| reach_rem_rank: "zset_reach z \<Longrightarrow> a \<le> b \<Longrightarrow> b < zcard z \<Longrightarrow> zset_reach (snd (zrem_range_by_rank a b z))"
| reach_clear: "zset_reach z \<Longrightarrow> zset_reach (zclear z)"

lemma reach_inv: "zset_reach z \<Longrightarrow> zset_inv z"
proof (induction rule: zset_reach.induct)
  case (reach_add z sc d coins m z')
  then show ?case using zadd_spec [of z sc d coins m] by auto
next
  case (reach_incr z inc d m s coins r z')
  then show ?case using zincrby_spec [of z inc d m s coins] by auto
qed (simp_all add: zset_inv_new zrem_spec zrem_range_by_rank_spec zclear_spec)

lemma zrank_nth:
  assumes inv: "zset_inv z" and r: "r < length (zkeys z)"
  shows "zrank (snd (zkeys z ! r)) z = Some r"
proof -
  obtain s m where k: "zkeys z ! r = (s, m)" by (rule prod.exhaust)
  then have "(s, m) \<in> set (zkeys z)" using r by (metis nth_mem)
  then have sm: "zscores z m = Some s" using inv by (simp add: zset_inv_def zscores_def)
  obtain r' where r': "r' < length (zkeys z)" "zrank m z = Some r'" "zkeys z ! r' = (s, m)" using zrank_spec [OF inv sm] by blast
  have "distinct (zkeys z)" using zkeys_ordered(1) [OF inv] by (rule distinct_strict)
  then have "r' = r" using r r'(1,3) k nth_eq_iff_index_eq by metis
  then show ?thesis using r'(2) k by simp
qed

section \<open>Properties\<close>


definition two_members :: zset where
  "two_members = (let sl = sl_insert zops [] (0x3FF0000000000000, ''a'') ''a'' (sl_new zops 16)
     in \<lparr>zsl = sl_insert zops [] (0x4014000000000000, ''b'') ''b'' sl,
         member_score_map = [(''a'', 0x3FF0000000000000), (''b'', 0x4014000000000000)], size_extra_bytes = 302\<rparr>)"

lemma two_members_reach: "zset_reach two_members"
proof -
  have n: "\<not> is_nan 0x3FF0000000000000" "\<not> is_nan 0x4014000000000000" by code_simp+
  let ?z = "\<lparr>zsl = sl_insert zops [] (0x3FF0000000000000, ''a'') ''a'' (sl_new zops 16),
      member_score_map = [(''a'', 0x3FF0000000000000)], size_extra_bytes = 247\<rparr>"
  have 1: "zadd [] ''a'' ''1'' zset_new = Inr ?z" by (simp only: zadd_def stod_samples rbind_simps Let_def) code_simp
  have 2: "zadd [] ''b'' ''5'' ?z = Inr two_members" by (simp only: zadd_def stod_samples rbind_simps Let_def) code_simp
  show ?thesis using reach_add [OF reach_add [OF reach_new stod_samples(1) n(1) 1] stod_samples(3) n(2) 2] .
qed


text \<open>
  Removing members by score corrupts a sorted set. In the set with members of scores 1 and 5,
  removing the scores from 2 to 5 removes one member from the list, as it should, but both from the
  score map: the walk that collects the members starts one entry before the range. Afterwards the
  first member is listed with its score by rank and is unknown when asked for.
\<close>

theorem score_removal_breaks_zset:
  "\<exists>z'. zset_reach two_members \<and> zrem_range_by_score ''2'' ''5'' two_members = Inr (1, z') \<and>
     zkeys z' = [(0x3FF0000000000000, ''a'')] \<and> zscore ''a'' z' = None \<and> zcard z' = 0 \<and> \<not> zset_inv z'"
proof -
  let ?a = "(0x4000000000000000, '''') :: zkey" and ?b = "(0x4014000000000000, high_member) :: zkey"
  let ?sl = "sl_remove_range_by_key zops ?a ?b (zsl two_members)"
  define z' where "z' = two_members\<lparr>zsl := snd ?sl, member_score_map := [],
      size_extra_bytes := fold (\<lambda>m x. x - member_cost m) [''a'', ''b''] (size_extra_bytes two_members)\<rparr>"
  have r: "map snd (sl_range_by_key zops ?a ?b (zsl two_members)) = [''a'', ''b'']" "fst ?sl = 1" by code_simp+
  have m: "member_score_map two_members = [(''a'', 0x3FF0000000000000), (''b'', 0x4014000000000000)]" by code_simp
  have rem: "zrem_range_by_score ''2'' ''5'' two_members = Inr (1, z')"
    using r by (simp add: zrem_range_by_score_def stod_samples Let_def case_prod_beta m z'_def)
  have k: "zkeys z' = [(0x3FF0000000000000, ''a'')]"
  proof -
    have "map fst (sl_cells (snd ?sl)) = [(0x3FF0000000000000, ''a'')]" by code_simp
    then show ?thesis by (simp add: zkeys_def z'_def)
  qed
  have "zscore ''a'' z' = None" "zcard z' = 0" by (simp_all add: zscore_def zcard_def z'_def)
  moreover have "\<not> zset_inv z'" using zcard_keys [of z'] k \<open>zcard z' = 0\<close> by auto
  ultimately show ?thesis using rem k two_members_reach by blast
qed

end
