(* ===== verification/EyaValue.thy ===== *)
theory EyaValue
  imports ZSet
begin

text \<open>
  \<open>EyaValue\<close> (\<open>common/types/value.h\<close>), the five kinds of values a key can hold, and \<open>EValue\<close>
  (\<open>storage/node.h\<close>), a value with its deletion mark and expiry time, with their encodings in
  data blocks and log records and the size estimates that drive flushing.
\<close>

section \<open>Values\<close>

datatype eya_value =
    VString string
  | VDeque "string list"
  | VSet uset
  | VHash "string umap"
  | VZSet zset

record evalue =
  evalue :: eya_value
  deleted :: bool
  expire_time :: u32

text \<open>\<open>EValue()\<close>: the first alternative of the variant, an empty string.\<close>

definition evalue_default :: evalue where
  "evalue_default = \<lparr>evalue = VString '''', deleted = False, expire_time = 0\<rparr>"

definition mk_evalue :: "eya_value \<Rightarrow> evalue" where
  "mk_evalue v = \<lparr>evalue = v, deleted = False, expire_time = 0\<rparr>"

definition is_deleted :: "evalue \<Rightarrow> bool" where "is_deleted v = deleted v"

definition is_expired :: "nat \<Rightarrow> evalue \<Rightarrow> bool" where
  "is_expired now v \<longleftrightarrow> 0 < expire_time v \<and> unat (expire_time v) < now"

definition live :: "nat \<Rightarrow> evalue \<Rightarrow> bool" where
  "live now v \<longleftrightarrow> \<not> is_deleted v \<and> \<not> is_expired now v"

section \<open>Size estimates\<close>

definition HASH_COST :: u64 where "HASH_COST = 32"
definition sizeof_string :: u64 where "sizeof_string = 32"
definition sizeof_deque :: u64 where "sizeof_deque = 80"
definition sizeof_unordered :: u64 where "sizeof_unordered = 56"
definition sizeof_evalue :: u64 where "sizeof_evalue = 208"

definition str_size :: "string \<Rightarrow> u64" where "str_size s = word_of_nat (length s)"

text \<open>The branch for vectors never applies: a list value is a \<open>std::deque\<close> and costs only its own size.\<close>

fun estimateEyaValueSize :: "eya_value \<Rightarrow> u64" where
  "estimateEyaValueSize (VString s) = str_size s + sizeof_string"
| "estimateEyaValueSize (VDeque xs) = sizeof_deque"
| "estimateEyaValueSize (VSet xs) = fold (\<lambda>s t. t + (str_size s + sizeof_string + HASH_COST)) xs sizeof_unordered"
| "estimateEyaValueSize (VHash m) =
     fold (\<lambda>(k, v) t. t + (str_size k + str_size v + sizeof_string * 2 + HASH_COST)) m sizeof_unordered"
| "estimateEyaValueSize (VZSet z) = zset_memory_usage z"

definition estimateEValueSize :: "evalue \<Rightarrow> u64" where
  "estimateEValueSize v = sizeof_evalue + estimateEyaValueSize (evalue v)"

section \<open>Encodings\<close>

fun variant_index :: "eya_value \<Rightarrow> u8" where
  "variant_index (VString _) = 0"
| "variant_index (VDeque _) = 1"
| "variant_index (VSet _) = 2"
| "variant_index (VHash _) = 3"
| "variant_index (VZSet _) = 4"

fun ser_alternative :: "eya_value \<Rightarrow> bytes" where
  "ser_alternative (VString s) = ser_string s"
| "ser_alternative (VDeque xs) = ser_deque xs"
| "ser_alternative (VSet xs) = ser_uset xs"
| "ser_alternative (VHash m) = ser_umap m"
| "ser_alternative (VZSet z) = ser_zset z"

definition serialize_eya_value :: "eya_value \<Rightarrow> bytes" where
  "serialize_eya_value v = byte8 (variant_index v) @ ser_alternative v"

definition deserialize_eya_value :: "eya_value decoder" where
  "deserialize_eya_value data off =
     rbind (read_bytes data off 1) (\<lambda>b.
       let index = of_byte8 b; o1 = off + 1
       in if index = 0 then map_dec VString deserializeString data o1
          else if index = 1 then map_dec VDeque deserializeDeque data o1
          else if index = 2 then map_dec VSet deserializeSet data o1
          else if index = 3 then map_dec VHash deserializeMap data o1
          else if index = 4 then map_dec VZSet deserializeZSet data o1
          else Inl (RuntimeError ''Invalid EyaValue index''))"

definition ser_evalue :: "evalue \<Rightarrow> bytes" where
  "ser_evalue v = byte8 (if deleted v then 1 else 0) @ be32 (expire_time v) @ serialize_eya_value (evalue v)"

text \<open>A \<open>bool\<close> copied from a byte other than 0 and 1 has no value.\<close>

definition deserialize_evalue :: "evalue decoder" where
  "deserialize_evalue data off =
     rbind (read_bytes data off 1) (\<lambda>b.
     rbind (if of_byte8 b = 0 then Inr False else if of_byte8 b = 1 then Inr True else Inl UB) (\<lambda>del.
     rbind (read_bytes data (off + 1) 4) (\<lambda>e.
     rbind (deserialize_eya_value data (off + 5)) (\<lambda>(v, off').
       Inr (\<lparr>evalue = v, deleted = del, expire_time = of_be32 e\<rparr>, off')))))"

section \<open>Reading values back\<close>

fun eya_ok :: "eya_value \<Rightarrow> bool" where
  "eya_ok (VString s) \<longleftrightarrow> string_ok s"
| "eya_ok (VDeque xs) \<longleftrightarrow> strings_ok xs"
| "eya_ok (VSet xs) \<longleftrightarrow> uset_ok xs"
| "eya_ok (VHash m) \<longleftrightarrow> umap_ok m"
| "eya_ok (VZSet z) \<longleftrightarrow> zset_ok z"

fun eya_norm :: "eya_value \<Rightarrow> eya_value" where
  "eya_norm (VZSet z) = VZSet (zset_norm z)"
| "eya_norm v = v"

definition evalue_ok :: "evalue \<Rightarrow> bool" where "evalue_ok v \<longleftrightarrow> eya_ok (evalue v)"

definition evalue_norm :: "evalue \<Rightarrow> evalue" where "evalue_norm v = v\<lparr>evalue := eya_norm (evalue v)\<rparr>"

interpretation eya: codec_upto serialize_eya_value deserialize_eya_value eya_ok eya_norm
proof
  fix v pre post
  assume ok: "eya_ok v"
  let ?i = "byte8 (variant_index v)" and ?data = "pre @ serialize_eya_value v @ post"
  have d: "?data = (pre @ ?i) @ ser_alternative v @ post" by (simp add: serialize_eya_value_def)
  have 1: "read_bytes ?data (length pre) 1 = Inr ?i"
    using read_bytes_append [of pre "length pre" ?i 1 "ser_alternative v @ post"] by (simp add: serialize_eya_value_def)
  have data: "?data = (pre @ ?i) @ x @ post" "length pre + 1 = length (pre @ ?i)" if "ser_alternative v = x" for x
    using that d by simp_all
  show "deserialize_eya_value ?data (length pre) = Inr (eya_norm v, length pre + length (serialize_eya_value v))"
  proof (cases v)
    case (VString s)
    then show ?thesis
      using 1 ok str.upto.map_dec_at [of s, OF _ data, where f = VString]
      by (simp add: deserialize_eya_value_def serialize_eya_value_def del: append_assoc)
  next
    case (VDeque xs)
    then show ?thesis
      using 1 ok dq.upto.map_dec_at [of xs, OF _ data, where f = VDeque]
      by (simp add: deserialize_eya_value_def serialize_eya_value_def del: append_assoc)
  next
    case (VSet xs)
    then show ?thesis
      using 1 ok us.upto.map_dec_at [of xs, OF _ data, where f = VSet]
      by (simp add: deserialize_eya_value_def serialize_eya_value_def del: append_assoc)
  next
    case (VHash m)
    then show ?thesis
      using 1 ok um.upto.map_dec_at [of m, OF _ data, where f = VHash]
      by (simp add: deserialize_eya_value_def serialize_eya_value_def del: append_assoc)
  next
    case (VZSet z)
    then show ?thesis
      using 1 ok zcodec.map_dec_at [of z, OF _ data, where f = VZSet]
      by (simp add: deserialize_eya_value_def serialize_eya_value_def del: append_assoc)
  qed
qed

interpretation ev: codec_upto ser_evalue deserialize_evalue evalue_ok evalue_norm
proof
  fix v pre post
  assume ok: "evalue_ok v"
  let ?b = "byte8 (if deleted v then 1 else 0)" and ?e = "be32 (expire_time v)" and ?x = "serialize_eya_value (evalue v)"
  let ?data = "pre @ ser_evalue v @ post"
  have d: "?data = pre @ ?b @ ?e @ ?x @ post" by (simp add: ser_evalue_def)
  have 1: "read_bytes ?data (length pre) 1 = Inr ?b"
    using read_bytes_append [of pre "length pre" ?b 1 "?e @ ?x @ post"] d by simp
  have 2: "read_bytes ?data (length pre + 1) 4 = Inr ?e"
    using read_bytes_append [of "pre @ ?b" "length pre + 1" ?e 4 "?x @ post"] d by simp
  have 3: "deserialize_eya_value ?data (length pre + 5) = Inr (eya_norm (evalue v), length pre + 5 + length ?x)"
    using ok by (intro eya.dec_norm_at [of _ _ "pre @ ?b @ ?e" post]) (simp_all add: evalue_ok_def d)
  show "deserialize_evalue ?data (length pre) = Inr (evalue_norm v, length pre + length (ser_evalue v))"
    using 1 2 3 by (simp add: deserialize_evalue_def ser_evalue_def evalue_norm_def)
qed

text \<open>A value read back encodes to the same bytes and is a fixed point of reading back.\<close>

lemma eya_norm_stable:
  assumes "eya_ok v"
  shows "eya_ok (eya_norm v)" "serialize_eya_value (eya_norm v) = serialize_eya_value v" "eya_norm (eya_norm v) = eya_norm v"
  using assms by (cases v; simp add: serialize_eya_value_def zset_norm_stable)+

lemma evalue_norm_stable:
  assumes "evalue_ok v"
  shows "evalue_ok (evalue_norm v)" "ser_evalue (evalue_norm v) = ser_evalue v" "evalue_norm (evalue_norm v) = evalue_norm v"
  using assms by (simp_all add: evalue_ok_def evalue_norm_def ser_evalue_def eya_norm_stable)

lemma evalue_norm_flags [simp]:
  "deleted (evalue_norm v) = deleted v" "expire_time (evalue_norm v) = expire_time v"
  "is_deleted (evalue_norm v) = is_deleted v" "is_expired now (evalue_norm v) = is_expired now v" "live now (evalue_norm v) = live now v"
  by (simp_all add: evalue_norm_def is_deleted_def is_expired_def live_def)

section \<open>Properties\<close>

text \<open>
  C31: Values survive encoding. Reading an encoded value of any type back, anywhere in a byte stream,
  consumes exactly its bytes and gives the same deletion mark and expiry time and the same contents;
  a sorted set comes back with the same members in the same order and the same scores, and encodes
  to the same bytes again.
\<close>

theorem value_roundtrip:
  assumes "evalue_ok v"
  shows "\<exists>v'. deserialize_evalue (pre @ ser_evalue v @ post) (length pre) = Inr (v', length pre + length (ser_evalue v)) \<and>
    deleted v' = deleted v \<and> expire_time v' = expire_time v \<and> ser_evalue v' = ser_evalue v \<and>
    (case evalue v of
       VZSet z \<Rightarrow> (\<exists>z'. evalue v' = VZSet z' \<and> zset_inv z' \<and> zkeys z' = zkeys z \<and> zscores z' = zscores z)
     | _ \<Rightarrow> evalue v' = evalue v)"
proof (intro exI [of _ "evalue_norm v"] conjI)
  show "deserialize_evalue (pre @ ser_evalue v @ post) (length pre) = Inr (evalue_norm v, length pre + length (ser_evalue v))"
    by (rule ev.dec_norm [OF assms])
  show "case evalue v of
       VZSet z \<Rightarrow> (\<exists>z'. evalue (evalue_norm v) = VZSet z' \<and> zset_inv z' \<and> zkeys z' = zkeys z \<and> zscores z' = zscores z)
     | _ \<Rightarrow> evalue (evalue_norm v) = evalue v"
    using assms by (auto simp: evalue_ok_def evalue_norm_def zset_norm_same split: eya_value.split)
qed (simp_all add: evalue_norm_stable assms)

theorem value_roundtrip_witness:
  "\<exists>v'. deserialize_evalue (''x'' @ ser_evalue (mk_evalue (VDeque [''a'', ''b''])) @ ''y'') 1 = Inr (v', 1 + length (ser_evalue (mk_evalue (VDeque [''a'', ''b''])))) \<and>
     evalue v' = VDeque [''a'', ''b'']"
proof -
  have "evalue_ok (mk_evalue (VDeque [''a'', ''b'']))" by (simp add: evalue_ok_def mk_evalue_def strings_ok_def string_ok_def)
  from value_roundtrip [OF this, of "''x''" "''y''"] show ?thesis by (auto simp: mk_evalue_def)
qed

end
