(* ===== verification/BloomFilter.thy ===== *)
theory BloomFilter
  imports Doubles Serializer
begin

text \<open>
  \<open>BloomFilter\<close> (\<open>common/ds/bloom_filter.h\<close>, \<open>bloom_filter.cpp\<close>): an array of bytes and a number
  of hash functions derived from two polynomial hashes. The locale \<open>approx_member\<close> states what
  its clients (memtable shards, SSTables) rely on: a key that was added is never denied.
\<close>

unbundle bit_operations_syntax

record bloom_filter =
  bits :: "u8 list"
  num_hash_functions :: nat

definition SSTABLE_BLOOM_BITS_PER_KEY :: nat where "SSTABLE_BLOOM_BITS_PER_KEY = 10"

text \<open>The literal \<open>0.69\<close> of the source, as a binary64 pattern.\<close>

definition ln2_approx :: double where "ln2_approx = 0x3FE6147AE147AE14"

definition bloom_empty :: bloom_filter where
  "bloom_empty = \<lparr>bits = [], num_hash_functions = 0\<rparr>"

definition bloom_new :: "u64 \<Rightarrow> u64 \<Rightarrow> bloom_filter" where
  "bloom_new expected_elements bits_per_key =
     (let total_bits = expected_elements * bits_per_key;
          num_bytes = unat ((total_bits + 7) div 8)
      in \<lparr>bits = replicate num_bytes 0,
          num_hash_functions =
            min 30 (max 1 (double_trunc (double_mul_fin (double_of_u64 bits_per_key) ln2_approx)))\<rparr>)"

fun poly_hash :: "u32 \<Rightarrow> u32 \<Rightarrow> string \<Rightarrow> u32" where
  "poly_hash m h [] = h"
| "poly_hash m h (c # cs) = poly_hash m (h * m + of_char c) cs"

definition get_hashes :: "bloom_filter \<Rightarrow> string \<Rightarrow> u32 list" where
  "get_hashes f key =
     (let h1 = poly_hash 31 0 key; h2 = poly_hash 37 0 key
      in map (\<lambda>i. h1 + word_of_nat i * h2) [0..<num_hash_functions f])"

definition set_bit_at :: "nat \<Rightarrow> u8 list \<Rightarrow> u8 list" where
  "set_bit_at pos bs = bs[pos div 8 := (bs ! (pos div 8)) OR push_bit (pos mod 8) 1]"

definition test_bit_at :: "nat \<Rightarrow> u8 list \<Rightarrow> bool" where
  "test_bit_at pos bs \<longleftrightarrow> (bs ! (pos div 8)) AND push_bit (pos mod 8) 1 \<noteq> 0"

definition bloom_add :: "string \<Rightarrow> bloom_filter \<Rightarrow> bloom_filter" where
  "bloom_add key f =
     (if bits f = [] then f
      else let num_bits = length (bits f) * 8
           in f\<lparr>bits := fold (\<lambda>hash. set_bit_at (unat hash mod num_bits)) (get_hashes f key) (bits f)\<rparr>)"

definition may_contain :: "bloom_filter \<Rightarrow> string \<Rightarrow> bool" where
  "may_contain f key =
     (if bits f = [] then True
      else let num_bits = length (bits f) * 8
           in list_all (\<lambda>hash. test_bit_at (unat hash mod num_bits) (bits f)) (get_hashes f key))"

definition ser_bloom :: "bloom_filter \<Rightarrow> bytes" where
  "ser_bloom f = le32 (word_of_nat (num_hash_functions f)) @ le32 (word_of_nat (length (bits f)))
     @ map (\<lambda>b. char_of (unat b)) (bits f)"

text \<open>
  \<open>deserialize\<close> advances the offset over the two header words only, not over the bit array.
\<close>

definition deserializeBloom :: "bloom_filter decoder" where
  "deserializeBloom data off =
     rbind (read_bytes data off 4) (\<lambda>h.
     rbind (read_bytes data (off + 4) 4) (\<lambda>n.
     rbind (read_bytes data (off + 8) (unat (of_le32 n))) (\<lambda>bs.
       Inr (\<lparr>bits = map (\<lambda>c. word_of_nat (of_char c)) bs, num_hash_functions = unat (of_le32 h)\<rparr>, off + 8))))"

section \<open>Bit arrays\<close>

lemma length_set_bit_at [simp]: "length (set_bit_at p bs) = length bs"
  by (simp add: set_bit_at_def)

lemma test_bit_at_iff: "test_bit_at p bs \<longleftrightarrow> bit (bs ! (p div 8)) (p mod 8)"
  by (auto simp: test_bit_at_def push_bit_of_1 and_exp_eq_0_iff_not_bit)

lemma test_set_bit_at:
  assumes "p < 8 * length bs"
  shows "test_bit_at q (set_bit_at p bs) \<longleftrightarrow> p = q \<or> test_bit_at q bs"
proof -
  have p: "p div 8 < length bs" using assms by (simp add: div_less_iff_less_mult mult.commute)
  have eq: "p = q" if "p div 8 = q div 8" "p mod 8 = q mod 8"
    using that by (metis div_mult_mod_eq)
  have len: "q mod 8 < LENGTH(8)" by simp
  show ?thesis
    using p len by (auto simp: test_bit_at_iff set_bit_at_def nth_list_update push_bit_of_1 bit_simps dest: eq)
qed

lemma length_fold_set_bit [simp]: "length (fold (\<lambda>h. set_bit_at (g h)) hs bs) = length bs"
  by (induction hs arbitrary: bs) auto

lemma test_fold_set_bit:
  "\<forall>h \<in> set hs. g h < 8 * length bs \<Longrightarrow>
     test_bit_at q (fold (\<lambda>h. set_bit_at (g h)) hs bs) \<longleftrightarrow> q \<in> g ` set hs \<or> test_bit_at q bs"
  by (induction hs arbitrary: bs) (auto simp: test_set_bit_at)

section \<open>No false negatives\<close>

locale approx_member =
  fixes add :: "'k \<Rightarrow> 'f \<Rightarrow> 'f"
    and query :: "'f \<Rightarrow> 'k \<Rightarrow> bool"
  assumes query_added: "query (add k f) k"
    and query_mono: "query f k \<Longrightarrow> query (add k' f) k"
begin

lemma query_fold_mono: "query f k \<Longrightarrow> query (fold add ks f) k"
  by (induction ks arbitrary: f) (auto simp: query_mono)

lemma no_false_negative: "k \<in> set ks \<Longrightarrow> query (fold add ks f) k"
proof (induction ks arbitrary: f)
  case (Cons a ks)
  then show ?case by (cases "k = a") (auto simp: query_added query_fold_mono)
qed simp

lemma denied_never_added: "\<not> query (fold add ks f) k \<Longrightarrow> k \<notin> set ks"
  using no_false_negative by blast

end

lemma bloom_add_test:
  assumes "bits f \<noteq> []"
  shows "test_bit_at q (bits (bloom_add k f)) \<longleftrightarrow>
    q \<in> (\<lambda>h. unat h mod (length (bits f) * 8)) ` set (get_hashes f k) \<or> test_bit_at q (bits f)"
  using assms by (simp add: bloom_add_def Let_def test_fold_set_bit mult.commute)

lemma bloom_add_shape [simp]:
  "length (bits (bloom_add k f)) = length (bits f)"
  "num_hash_functions (bloom_add k f) = num_hash_functions f"
  "get_hashes (bloom_add k f) = get_hashes f"
  by (auto simp: bloom_add_def Let_def get_hashes_def)

lemma bloom_add_bits_Nil [simp]: "bits (bloom_add k f) = [] \<longleftrightarrow> bits f = []"
  by (metis bloom_add_shape(1) length_0_conv)

interpretation bloom: approx_member bloom_add may_contain
proof
  fix k f
  show "may_contain (bloom_add k f) k"
    by (cases "bits f = []") (auto simp: may_contain_def Let_def bloom_add_test list_all_iff)
next
  fix f k k'
  assume "may_contain f k"
  then show "may_contain (bloom_add k' f) k"
    by (cases "bits f = []") (auto simp: may_contain_def Let_def bloom_add_test list_all_iff)
qed

section \<open>Persisting a filter\<close>

definition bloom_ok :: "bloom_filter \<Rightarrow> bool" where
  "bloom_ok f \<longleftrightarrow> num_hash_functions f < 2 ^ 32 \<and> length (bits f) < 2 ^ 32"

lemma length_ser_bloom: "length (ser_bloom f) = 8 + length (bits f)"
  by (simp add: ser_bloom_def)

lemma byte_of_char_of [simp]: "word_of_nat (unat b mod 256) = (b :: u8)"
proof -
  have "unat b < 256" using unat_bound [of b] by simp
  then show ?thesis by simp
qed

lemma deserializeBloom_at:
  assumes "bloom_ok f" and "data = pre @ ser_bloom f @ post" and "off = length pre"
  shows "deserializeBloom data off = Inr (f, off + 8)"
proof -
  let ?h = "le32 (word_of_nat (num_hash_functions f))" and ?n = "le32 (word_of_nat (length (bits f)))"
  let ?b = "map (\<lambda>b. char_of (unat b)) (bits f) :: bytes"
  have d: "data = pre @ ?h @ ?n @ ?b @ post" using assms by (simp add: ser_bloom_def)
  have 1: "read_bytes data off 4 = Inr ?h"
    using read_bytes_append [of pre off ?h 4 "?n @ ?b @ post"] d assms by simp
  have 2: "read_bytes data (off + 4) 4 = Inr ?n"
    using read_bytes_append [of "pre @ ?h" "off + 4" ?n 4 "?b @ post"] d assms by simp
  have 3: "read_bytes data (off + 8) (length (bits f)) = Inr ?b"
    using read_bytes_append [of "pre @ ?h @ ?n" "off + 8" ?b "length (bits f)" post] d assms by simp
  have len: "unat (word_of_nat (length (bits f)) :: u32) = length (bits f)"
    "unat (word_of_nat (num_hash_functions f) :: u32) = num_hash_functions f"
    using assms(1) by (simp_all add: bloom_ok_def unat_of_nat_lt)
  show ?thesis
    using 1 2 3 len by (simp add: deserializeBloom_def comp_def)
qed

section \<open>Properties\<close>

text \<open>
  A Bloom filter never denies a key it was given: whatever filter one starts from (also an empty
  one, a filter read back from disk, or one whose size was fixed for fewer elements), after any
  sequence of \<open>add\<close> calls, \<open>may_contain\<close> answers true for each of the added keys.
\<close>
theorem bloom_no_false_negative:
  "\<forall>k. k \<in> set ks \<longrightarrow> may_contain (fold bloom_add ks f) k"
  using bloom.no_false_negative by blast

theorem bloom_no_false_negative_witness:
  "may_contain (fold bloom_add [''a'', ''b''] (bloom_new 4 10)) ''a''"
  using bloom_no_false_negative [of "[''a'', ''b'']" "bloom_new 4 10"] by simp

end
