(* ===== verification/MemTable.thy ===== *)
theory MemTable
  imports EyaValue BloomFilter
begin

text \<open>
  \<open>MemTable\<close> (\<open>storage/memtable.h\<close>, \<open>memtable.cpp\<close>): sixteen skip lists, one per range of first
  key bytes, each with a Bloom filter in front. The shards partition the key space in key order,
  so that concatenating them gives the entries in order.

  \<open>kv_table\<close> is the contract of a table of versions: what a lookup returns after a write, and
  that the entry list is ordered and agrees with lookup. The memtable meets it as long as no
  update callback has thrown (the cells are stable); so does the ordered map into which tables
  are merged.
\<close>

section \<open>State and operations\<close>

definition k_num_shards :: nat where "k_num_shards = 16"

definition compare_strings :: "string \<Rightarrow> string \<Rightarrow> int" where
  "compare_strings a b = (if a < b then - 1 else if b < a then 1 else 0)"

definition calculateStringSize :: "string \<Rightarrow> u64" where
  "calculateStringSize s = str_size s + sizeof_string"

definition mops :: "(string, evalue) sl_ops" where
  "mops = \<lparr>compare_func = compare_strings, key_gt = (\<lambda>a b. b < a), key_size = calculateStringSize,
     value_size = estimateEValueSize, default_key = '''', default_value = evalue_default, sizeof_node = 264\<rparr>"

record memtable =
  memtable_size :: u64
  tables :: "(string, evalue) skip_list list"
  bloom_filters :: "bloom_filter list"
  mt_size :: nat

definition shard_bloom :: bloom_filter where
  "shard_bloom = bloom_new (1000000 div 16) (word_of_nat SSTABLE_BLOOM_BITS_PER_KEY)"

definition memtable_new :: "u64 \<Rightarrow> nat \<Rightarrow> memtable" where
  "memtable_new size_kb skiplist_max_level =
     \<lparr>memtable_size = size_kb * 1024, tables = replicate k_num_shards (sl_new mops skiplist_max_level),
      bloom_filters = replicate k_num_shards shard_bloom, mt_size = 0\<rparr>"

definition get_shard_index :: "string \<Rightarrow> nat" where
  "get_shard_index key = (case key of
       [] \<Rightarrow> 0
     | c # _ \<Rightarrow> min (of_char c div (256 div k_num_shards)) (k_num_shards - 1))"

definition sizeof_memtable :: u64 where "sizeof_memtable = 112"

definition memtable_memory_usage :: "memtable \<Rightarrow> u64" where
  "memtable_memory_usage mt =
     fold (\<lambda>i usage. usage + current_size (tables mt ! i) + word_of_nat (length (bits (bloom_filters mt ! i))))
       [0..<k_num_shards] sizeof_memtable"

definition should_flush :: "memtable \<Rightarrow> bool" where
  "should_flush mt \<longleftrightarrow> memtable_size mt \<noteq> 0 \<and> memtable_size mt \<le> memtable_memory_usage mt"

text \<open>\<open>put\<close> behind its size check.\<close>

definition memtable_store :: "bool list \<Rightarrow> string \<Rightarrow> evalue \<Rightarrow> memtable \<Rightarrow> memtable" where
  "memtable_store coins key v mt =
     (let idx = get_shard_index key;
          old = tables mt ! idx;
          new = sl_insert mops coins key v old;
          mt' = mt\<lparr>tables := (tables mt)[idx := new]\<rparr>
      in if sl_size old < sl_size new
         then mt'\<lparr>mt_size := mt_size mt + 1,
                  bloom_filters := (bloom_filters mt)[idx := bloom_add key (bloom_filters mt ! idx)]\<rparr>
         else mt')"

definition memtable_put :: "bool list \<Rightarrow> string \<Rightarrow> evalue \<Rightarrow> memtable \<Rightarrow> memtable res" where
  "memtable_put coins key v mt =
     (if should_flush mt then Inl (OverflowError ''MemTable size exceeds limit'')
      else Inr (memtable_store coins key v mt))"

definition memtable_get :: "string \<Rightarrow> memtable \<Rightarrow> evalue option" where
  "memtable_get key mt =
     (let idx = get_shard_index key
      in if \<not> may_contain (bloom_filters mt ! idx) key then None
         else case sl_get mops key (tables mt ! idx) of Inr v \<Rightarrow> Some v | Inl _ \<Rightarrow> None)"

definition tombstone :: evalue where
  "tombstone = evalue_default\<lparr>deleted := True\<rparr>"

definition memtable_remove :: "bool list \<Rightarrow> string \<Rightarrow> memtable \<Rightarrow> bool \<times> memtable" where
  "memtable_remove coins key mt =
     (let idx = get_shard_index key
      in case sl_handle_value mops key (\<lambda>v. (Inr (), v\<lparr>deleted := True\<rparr>)) (tables mt ! idx) of
           (Inr _, t) \<Rightarrow> (True, mt\<lparr>tables := (tables mt)[idx := t]\<rparr>)
         | (Inl _, t) \<Rightarrow>
             (False, mt\<lparr>tables := (tables mt)[idx := sl_insert mops coins key tombstone t],
                        mt_size := mt_size mt + 1,
                        bloom_filters := (bloom_filters mt)[idx := bloom_add key (bloom_filters mt ! idx)]\<rparr>))"

definition memtable_clear :: "memtable \<Rightarrow> memtable" where
  "memtable_clear mt = mt\<lparr>tables := map (sl_clear mops) (tables mt),
     bloom_filters := replicate k_num_shards shard_bloom, mt_size := 0\<rparr>"

definition memtable_get_all_entries :: "memtable \<Rightarrow> (string \<times> evalue) list" where
  "memtable_get_all_entries mt = concat (map (sl_get_all_entries mops) (tables mt))"

definition memtable_for_each :: "(string \<Rightarrow> evalue \<Rightarrow> 's \<Rightarrow> 's) \<Rightarrow> memtable \<Rightarrow> 's \<Rightarrow> 's" where
  "memtable_for_each callback mt = fold (\<lambda>(k, v). callback k v) (memtable_get_all_entries mt)"

definition memtable_handle_value ::
  "string \<Rightarrow> (evalue \<Rightarrow> 'r res \<times> evalue) \<Rightarrow> memtable \<Rightarrow> ('r \<times> evalue) res \<times> memtable" where
  "memtable_handle_value key value_handle mt =
     (let idx = get_shard_index key
      in if \<not> may_contain (bloom_filters mt ! idx) key then (Inl (OutOfRange ''Key not found''), mt)
         else case sl_handle_value mops key value_handle (tables mt ! idx) of
                (r, t) \<Rightarrow> (r, mt\<lparr>tables := (tables mt)[idx := t]\<rparr>))"

definition cancel_size_limit :: "memtable \<Rightarrow> memtable" where
  "cancel_size_limit mt = mt\<lparr>memtable_size := 0\<rparr>"

definition set_size_limit :: "u64 \<Rightarrow> memtable \<Rightarrow> memtable" where
  "set_size_limit sz mt = mt\<lparr>memtable_size := sz\<rparr>"

section \<open>Shards\<close>

interpretation ml: ordered_keys mops "\<lambda>k. k" "\<lambda>_. True"
  by unfold_locales (auto simp: mops_def compare_strings_def)

lemma shard_bound [simp]: "get_shard_index k < k_num_shards"
  by (auto simp: get_shard_index_def k_num_shards_def min_less_iff_disj split: list.split)

lemma char_less_iff: "c < d \<longleftrightarrow> (of_char c :: nat) < of_char d"
  by (simp add: less_char_def)

text \<open>Keys of a lower shard are smaller: the shards are ranges of the key order.\<close>

lemma shard_order: "get_shard_index a < get_shard_index b \<Longrightarrow> a < b"
proof (cases a)
  case Nil
  moreover assume "get_shard_index a < get_shard_index b"
  ultimately show ?thesis by (cases b) (auto simp: get_shard_index_def)
next
  case (Cons c cs)
  moreover assume lt: "get_shard_index a < get_shard_index b"
  moreover obtain d ds where "b = d # ds" using lt by (cases b) (auto simp: get_shard_index_def)
  ultimately have "(of_char c :: nat) div 16 < of_char d div 16"
    by (auto simp: get_shard_index_def k_num_shards_def min_def split: if_splits)
  then have "(of_char c :: nat) < of_char d" by (metis div_le_mono not_le)
  then show ?thesis using Cons \<open>b = d # ds\<close> by (simp add: char_less_iff)
qed

definition mt_inv :: "memtable \<Rightarrow> bool" where
  "mt_inv mt \<longleftrightarrow> length (tables mt) = k_num_shards \<and> length (bloom_filters mt) = k_num_shards \<and>
     (\<forall>i < k_num_shards. ml.sl_inv (tables mt ! i) \<and>
        (\<forall>k \<in> fst ` set (sl_cells (tables mt ! i)). get_shard_index k = i \<and> may_contain (bloom_filters mt ! i) k)) \<and>
     mt_size mt = sum_list (map sl_size (tables mt))"

text \<open>The cell of a key, and the value a reader sees in it.\<close>

definition mt_cell :: "memtable \<Rightarrow> string \<Rightarrow> evalue cell option" where
  "mt_cell mt k = find_by (\<lambda>k. k) k (sl_cells (tables mt ! get_shard_index k))"

definition mt_stable :: "memtable \<Rightarrow> bool" where
  "mt_stable mt \<longleftrightarrow> (\<forall>k c. mt_cell mt k = Some c \<longrightarrow> \<not> snd c)"

lemma find_by_id: "find_by (\<lambda>k. k) k xs = map_of xs k"
  by (induction xs) auto

lemma mt_cell_map: "mt_cell mt k = map_of (sl_cells (tables mt ! get_shard_index k)) k"
  by (simp add: mt_cell_def find_by_id)

lemma mt_inv_key:
  "mt_inv mt \<Longrightarrow> i < k_num_shards \<Longrightarrow> k \<in> fst ` set (sl_cells (tables mt ! i)) \<Longrightarrow>
     get_shard_index k = i \<and> may_contain (bloom_filters mt ! i) k"
  unfolding mt_inv_def by blast

lemma mt_inv_shard:
  assumes "mt_inv mt"
  shows "ml.sl_inv (tables mt ! get_shard_index k)"
    "mt_cell mt k = Some c \<Longrightarrow> may_contain (bloom_filters mt ! get_shard_index k) k"
proof -
  show "ml.sl_inv (tables mt ! get_shard_index k)" using assms by (simp add: mt_inv_def)
  assume "mt_cell mt k = Some c"
  then have "k \<in> fst ` set (sl_cells (tables mt ! get_shard_index k))"
    by (simp add: mt_cell_map) (metis domI dom_map_of_conv_image_fst)
  then show "may_contain (bloom_filters mt ! get_shard_index k) k"
    using assms shard_bound unfolding mt_inv_def by blast
qed

lemma memtable_get_cell:
  assumes "mt_inv mt"
  shows "memtable_get k mt = map_option (observe mops) (mt_cell mt k)"
  using ml.get_spec [OF mt_inv_shard(1) [OF assms] TrueI, where k = k] mt_inv_shard(2) [OF assms, of k]
  by (auto simp: memtable_get_def Let_def mt_cell_def split: option.splits)

section \<open>Writes\<close>

lemma fst_put_by: "fst ` set (put_by (\<lambda>k :: 'a::linorder. k) k v xs) = insert k (fst ` set xs)"
  by (induction "\<lambda>k :: 'a. k" k v xs rule: put_by.induct) (auto simp: insert_commute)

lemma map_of_put_by:
  "ksorted xs \<Longrightarrow> map_of (put_by (\<lambda>k. k) k v xs) =
     (map_of xs)(k \<mapsto> (v, case map_of xs k of Some c \<Rightarrow> snd c | None \<Rightarrow> False))"
proof (induction xs)
  case (Cons x xs)
  obtain k' c where x: "x = (k', c)" by (rule prod.exhaust)
  have "map_of xs k = None" if "k \<le> k'"
    using Cons.prems that by (intro map_of_below) (auto simp: x)
  then show ?case using Cons by (auto simp: x fun_eq_iff)
qed simp

lemma map_of_alter_by: "map_of (alter_by (\<lambda>k. k) k f xs) = (map_of xs)(k := map_option f (map_of xs k))"
  by (induction xs) (auto simp: alter_by_def fun_eq_iff)

lemma fst_alter_by: "map fst (alter_by r k f xs) = map fst xs"
  by (auto simp: alter_by_def)

lemma ml_ksorted: "ml.sl_inv s \<Longrightarrow> ksorted (sl_cells s)"
  using ml.cells_ordered [of s] by (simp add: ksorted_def ml.ordered_ks_def)

lemma length_put_by:
  "ksorted xs \<Longrightarrow> length (put_by (\<lambda>k. k) k v xs) = (if map_of xs k = None then Suc (length xs) else length xs)"
proof (induction xs)
  case (Cons x xs)
  obtain k' c where x: "x = (k', c)" by (rule prod.exhaust)
  have "map_of xs k = None" if "k < k'"
    using Cons.prems that by (intro map_of_below) (auto simp: x)
  then show ?case using Cons by (auto simp: x)
qed simp

text \<open>Replacing one shard by another list of keys of that shard, all of them known to its filter.\<close>

lemma mt_inv_replace:
  assumes inv: "mt_inv mt" and t: "ml.sl_inv t"
    and keys: "\<forall>k' \<in> fst ` set (sl_cells t). get_shard_index k' = get_shard_index k \<and> may_contain f k'"
    and mt': "tables mt' = (tables mt)[get_shard_index k := t]"
      "bloom_filters mt' = (bloom_filters mt)[get_shard_index k := f]"
      "mt_size mt' + sl_size (tables mt ! get_shard_index k) = mt_size mt + sl_size t"
  shows "mt_inv mt'"
proof -
  let ?i = "get_shard_index k"
  have len: "?i < length (tables mt)" using inv by (simp add: mt_inv_def)
  have "sl_size (tables mt ! ?i) \<le> sum_list (map sl_size (tables mt))"
    using len by (intro member_le_sum_list) simp_all
  then have "mt_size mt' = sum_list (map sl_size (tables mt'))"
    using mt'(3) len inv by (simp add: mt'(1) map_update sum_list_update mt_inv_def)
  then show ?thesis
    using inv t keys by (auto simp: mt_inv_def mt'(1,2) nth_list_update)
qed

lemma mt_cell_replace:
  assumes "mt_inv mt" "tables mt' = (tables mt)[get_shard_index k := t]"
    and "\<And>k'. k' \<noteq> k \<Longrightarrow> map_of (sl_cells t) k' = map_of (sl_cells (tables mt ! get_shard_index k)) k'"
  shows "mt_cell mt' = (mt_cell mt)(k := map_of (sl_cells t) k)"
proof
  fix k'
  have "get_shard_index k < length (tables mt)" using assms(1) by (simp add: mt_inv_def)
  then show "mt_cell mt' k' = ((mt_cell mt)(k := map_of (sl_cells t) k)) k'"
    using assms(2,3) by (auto simp: mt_cell_map nth_list_update)
qed

lemma store_spec:
  assumes inv: "mt_inv mt"
  shows "mt_inv (memtable_store coins k v mt)"
    "mt_cell (memtable_store coins k v mt) =
       (mt_cell mt)(k \<mapsto> (v, case mt_cell mt k of Some c \<Rightarrow> snd c | None \<Rightarrow> False))"
proof -
  let ?i = "get_shard_index k" and ?old = "tables mt ! get_shard_index k"
  let ?new = "sl_insert mops coins k v ?old" and ?mt = "memtable_store coins k v mt"
  note sl = mt_inv_shard(1) [OF inv, of k]
  note ins = ml.insert_spec [OF sl TrueI, where k = k and coins = coins and v = v]
  note srt = ml_ksorted [OF sl]
  have size: "sl_size ?new = (if mt_cell mt k = None then Suc (sl_size ?old) else sl_size ?old)"
    using ml.size_cells [OF sl] ml.size_cells [OF ins(1)] length_put_by [OF srt] by (simp add: ins(2) mt_cell_map)
  let ?f = "if mt_cell mt k = None then bloom_add k (bloom_filters mt ! ?i) else bloom_filters mt ! ?i"
  have mt': "tables ?mt = (tables mt)[?i := ?new]" "bloom_filters ?mt = (bloom_filters mt)[?i := ?f]"
    "mt_size ?mt + sl_size ?old = mt_size mt + sl_size ?new"
    using size by (auto simp: memtable_store_def Let_def)
  have "get_shard_index k' = ?i \<and> may_contain ?f k'" if "k' \<in> fst ` set (sl_cells ?new)" for k'
  proof (cases "k' = k")
    case True
    then show ?thesis using mt_inv_shard(2) [OF inv, of k] bloom.query_added by (auto split: option.splits)
  next
    case False
    then have "k' \<in> fst ` set (sl_cells ?old)" using that by (simp add: ins(2) fst_put_by)
    then show ?thesis using mt_inv_key [OF inv shard_bound, of k' k] bloom.query_mono by simp
  qed
  then show "mt_inv ?mt" by (intro mt_inv_replace [OF inv ins(1) _ mt']) blast
  show "mt_cell ?mt = (mt_cell mt)(k \<mapsto> (v, case mt_cell mt k of Some c \<Rightarrow> snd c | None \<Rightarrow> False))"
    using mt_cell_replace [OF inv mt'(1)] map_of_put_by [OF srt] by (simp add: ins(2) mt_cell_map)
qed

lemma handle_cell:
  assumes inv: "mt_inv mt" and c: "mt_cell mt k = Some (v, stuck)"
  shows "\<exists>mt'. memtable_handle_value k f mt = (map_sum id (\<lambda>r. (r, v)) (fst (f v)), mt') \<and> mt_inv mt' \<and>
    mt_cell mt' = (mt_cell mt)(k \<mapsto> (snd (f v), stuck \<noteq> (\<exists>e. fst (f v) = Inl e)))"
proof -
  let ?i = "get_shard_index k" and ?old = "tables mt ! get_shard_index k"
  note sl = mt_inv_shard(1) [OF inv, of k]
  obtain t where t: "sl_handle_value mops k f ?old = (map_sum id (\<lambda>r. (r, v)) (fst (f v)), t)" "ml.sl_inv t"
    "sl_cells t = alter_by (\<lambda>k. k) k (\<lambda>_. (snd (f v), stuck \<noteq> (\<exists>e. fst (f v) = Inl e))) (sl_cells ?old)"
    using ml.handle_spec [OF sl TrueI, where k = k and f = f] c by (auto simp: mt_cell_def)
  let ?mt = "mt\<lparr>tables := (tables mt)[?i := t]\<rparr>"
  have r: "memtable_handle_value k f mt = (map_sum id (\<lambda>r. (r, v)) (fst (f v)), ?mt)"
    using mt_inv_shard(2) [OF inv c] t(1) by (simp add: memtable_handle_value_def Let_def)
  have keys: "map fst (sl_cells t) = map fst (sl_cells ?old)" by (simp add: t(3) fst_alter_by)
  have sz: "sl_size t = sl_size ?old"
    using ml.size_cells [OF sl] ml.size_cells [OF t(2)] arg_cong [OF keys, of length] by simp
  have "\<forall>k' \<in> fst ` set (sl_cells t). get_shard_index k' = ?i \<and> may_contain (bloom_filters mt ! ?i) k'"
    using inv arg_cong [OF keys, of set] by (simp add: mt_inv_def)
  moreover have "?i < length (bloom_filters mt)" using inv by (simp add: mt_inv_def)
  ultimately have "mt_inv ?mt" using sz by (intro mt_inv_replace [OF inv t(2), where f = "bloom_filters mt ! ?i"]) simp_all
  moreover have "mt_cell ?mt = (mt_cell mt)(k := map_of (sl_cells t) k)"
    by (rule mt_cell_replace [OF inv]) (simp_all add: t(3) map_of_alter_by)
  then have "mt_cell ?mt = (mt_cell mt)(k \<mapsto> (snd (f v), stuck \<noteq> (\<exists>e. fst (f v) = Inl e)))"
    using c by (simp add: t(3) map_of_alter_by mt_cell_map)
  ultimately show ?thesis using r by blast
qed

lemma handle_absent:
  assumes inv: "mt_inv mt" and c: "mt_cell mt k = None"
  shows "memtable_handle_value k f mt = (Inl (OutOfRange ''Key not found''), mt)"
proof -
  have "sl_handle_value mops k f (tables mt ! get_shard_index k) = (Inl (OutOfRange ''Key not found''), tables mt ! get_shard_index k)"
    using ml.handle_spec [OF mt_inv_shard(1) [OF inv, of k] TrueI, where k = k and f = f] c by (simp add: mt_cell_def)
  then show ?thesis by (simp add: memtable_handle_value_def Let_def)
qed

lemma remove_cell:
  assumes inv: "mt_inv mt"
  shows "mt_inv (snd (memtable_remove coins k mt))"
    "mt_cell (snd (memtable_remove coins k mt)) = (mt_cell mt)(k \<mapsto> (case mt_cell mt k of
       Some (v, stuck) \<Rightarrow> (v\<lparr>deleted := True\<rparr>, stuck) | None \<Rightarrow> (tombstone, False)))"
    "fst (memtable_remove coins k mt) \<longleftrightarrow> mt_cell mt k \<noteq> None"
proof -
  let ?f = "\<lambda>v. (Inr () :: unit res, v\<lparr>deleted := True\<rparr>)" and ?i = "get_shard_index k"
  let ?goal = "mt_inv (snd (memtable_remove coins k mt)) \<and>
    mt_cell (snd (memtable_remove coins k mt)) = (mt_cell mt)(k \<mapsto> (case mt_cell mt k of
       Some (v, stuck) \<Rightarrow> (v\<lparr>deleted := True\<rparr>, stuck) | None \<Rightarrow> (tombstone, False))) \<and>
    (fst (memtable_remove coins k mt) \<longleftrightarrow> mt_cell mt k \<noteq> None)"
  have ?goal
  proof (cases "mt_cell mt k")
    case None
    note h = ml.handle_spec [OF mt_inv_shard(1) [OF inv, of k] TrueI, where k = k and f = ?f]
    have abs: "sl_handle_value mops k ?f (tables mt ! ?i) = (Inl (OutOfRange ''Key not found''), tables mt ! ?i)"
      using h None by (simp add: mt_cell_def)
    note srt = ml_ksorted [OF mt_inv_shard(1) [OF inv, of k]]
    note ins = ml.insert_spec [OF mt_inv_shard(1) [OF inv, of k] TrueI, where k = k and coins = coins and v = tombstone]
    have "sl_size (tables mt ! ?i) < sl_size (sl_insert mops coins k tombstone (tables mt ! ?i))"
      using ml.size_cells [OF mt_inv_shard(1) [OF inv, of k]] ml.size_cells [OF ins(1)] length_put_by [OF srt] None
      by (simp add: ins(2) mt_cell_map)
    then have eq: "memtable_remove coins k mt = (False, memtable_store coins k tombstone mt)"
      using abs by (simp add: memtable_remove_def memtable_store_def Let_def)
    show ?goal using store_spec [OF inv, of coins k tombstone] None by (simp add: eq)
  next
    case (Some c)
    obtain v stuck where c: "c = (v, stuck)" by (rule prod.exhaust)
    obtain mt' where r: "memtable_handle_value k ?f mt = (Inr ((), v), mt')" "mt_inv mt'"
      "mt_cell mt' = (mt_cell mt)(k \<mapsto> (v\<lparr>deleted := True\<rparr>, stuck))"
      using handle_cell [OF inv, of k v stuck ?f] Some c by auto
    then have "memtable_remove coins k mt = (True, mt')"
      using mt_inv_shard(2) [OF inv Some] by (auto simp: memtable_remove_def memtable_handle_value_def Let_def split: prod.splits)
    then show ?goal using r Some c by simp
  qed
  then show "mt_inv (snd (memtable_remove coins k mt))"
    "mt_cell (snd (memtable_remove coins k mt)) = (mt_cell mt)(k \<mapsto> (case mt_cell mt k of
       Some (v, stuck) \<Rightarrow> (v\<lparr>deleted := True\<rparr>, stuck) | None \<Rightarrow> (tombstone, False)))"
    "fst (memtable_remove coins k mt) \<longleftrightarrow> mt_cell mt k \<noteq> None" by blast+
qed

lemma new_inv:
  assumes "1 \<le> ml"
  shows "mt_inv (memtable_new sz ml)" "mt_cell (memtable_new sz ml) = Map.empty"
  using ml.new_spec [OF assms]
  by (auto simp: mt_inv_def memtable_new_def mt_cell_map sum_list_replicate sl_new_def)

lemma clear_inv:
  assumes "mt_inv mt"
  shows "mt_inv (memtable_clear mt)" "mt_cell (memtable_clear mt) = Map.empty"
proof -
  have t: "length (tables mt) = k_num_shards" "\<And>i. i < k_num_shards \<Longrightarrow> ml.sl_inv (tables mt ! i)"
    using assms by (auto simp: mt_inv_def)
  have "map sl_size (map (sl_clear mops) (tables mt)) = map (\<lambda>_. 0) (tables mt)"
    by (simp add: sl_clear_def Let_def)
  then have "sum_list (map sl_size (map (sl_clear mops) (tables mt))) = 0" by (simp only: sum_list_0)
  then show "mt_inv (memtable_clear mt)"
    using t ml.clear_spec by (auto simp: mt_inv_def memtable_clear_def comp_def)
  show "mt_cell (memtable_clear mt) = Map.empty"
    using t ml.clear_spec by (auto simp: mt_cell_map memtable_clear_def)
qed

section \<open>Entries\<close>

lemma entries_spec:
  assumes inv: "mt_inv mt"
  shows "ksorted (memtable_get_all_entries mt)" "map_of (memtable_get_all_entries mt) k = memtable_get k mt"
proof -
  let ?e = "\<lambda>i. sl_get_all_entries mops (tables mt ! i)" and ?xss = "map (sl_get_all_entries mops) (tables mt)"
  have len: "length ?xss = k_num_shards" "length (tables mt) = k_num_shards" using inv by (simp_all add: mt_inv_def)
  have e: "?e i = map (\<lambda>(k, c). (k, observe mops c)) (sl_cells (tables mt ! i))" if "i < k_num_shards" for i
    using inv that by (intro ml.entries_cells) (simp add: mt_inv_def)
  have keys: "map fst (?e i) = map fst (sl_cells (tables mt ! i))" if "i < k_num_shards" for i
    using e [OF that] by auto
  have idx: "get_shard_index k = i" if "i < k_num_shards" "k \<in> fst ` set (?e i)" for i k
    using mt_inv_key [OF inv that(1), of k] that arg_cong [OF keys [OF that(1)], of set] by simp
  have "sorted_wrt (\<lambda>xs ys. \<forall>k \<in> fst ` set xs. \<forall>k' \<in> fst ` set ys. k < k') ?xss"
    unfolding sorted_wrt_iff_nth_less
  proof (intro allI impI ballI)
    fix i j k k'
    assume ij: "i < j" "j < length ?xss" and k: "k \<in> fst ` set (?xss ! i)" "k' \<in> fst ` set (?xss ! j)"
    then have "get_shard_index k = i" "get_shard_index k' = j" using idx [of i k] idx [of j k'] len by auto
    with ij(1) show "k < k'" by (intro shard_order) simp
  qed
  moreover have "\<forall>xs \<in> set ?xss. ksorted xs"
  proof
    fix xs assume "xs \<in> set ?xss"
    then obtain i where i: "i < k_num_shards" "xs = ?e i" using len by (metis in_set_conv_nth nth_map)
    then show "ksorted xs" using ml_ksorted [of "tables mt ! i"] keys [OF i(1)] inv by (simp add: ksorted_def mt_inv_def)
  qed
  ultimately show "ksorted (memtable_get_all_entries mt)"
    unfolding memtable_get_all_entries_def by (rule ksorted_concat)
  have "map_of (concat ?xss) k = map_of (?xss ! get_shard_index k) k"
  proof (rule map_of_concat_nth)
    show "get_shard_index k < length ?xss" using len by simp
    show "\<forall>j < length ?xss. j \<noteq> get_shard_index k \<longrightarrow> k \<notin> fst ` set (?xss ! j)" using idx len by fastforce
  qed
  then show "map_of (memtable_get_all_entries mt) k = memtable_get k mt"
    using len by (simp add: memtable_get_all_entries_def memtable_get_cell [OF inv] e mt_cell_map map_of_map)
qed

section \<open>Tables of versions\<close>

locale kv_table =
  fixes get :: "'t \<Rightarrow> 'k::linorder \<Rightarrow> 'v option"
    and put :: "'c \<Rightarrow> 'k \<Rightarrow> 'v \<Rightarrow> 't \<Rightarrow> 't"
    and entries :: "'t \<Rightarrow> ('k \<times> 'v) list"
    and inv :: "'t \<Rightarrow> bool"
  assumes put_inv: "inv t \<Longrightarrow> inv (put c k v t)"
    and get_put: "inv t \<Longrightarrow> get (put c k v t) = (get t)(k \<mapsto> v)"
    and entries_sorted: "inv t \<Longrightarrow> ksorted (entries t)"
    and entries_get: "inv t \<Longrightarrow> map_of (entries t) = get t"
begin

definition write_all :: "('c \<times> 'k \<times> 'v) list \<Rightarrow> 't \<Rightarrow> 't" where
  "write_all ws = fold (\<lambda>(c, k, v). put c k v) ws"

lemma write_all_inv: "inv t \<Longrightarrow> inv (write_all ws t)"
  by (induction ws arbitrary: t) (auto simp: write_all_def put_inv)

lemma get_write_all: "inv t \<Longrightarrow> get (write_all ws t) = get t ++ map_of (rev (map snd ws))"
proof (induction ws arbitrary: t)
  case Nil
  then show ?case by (simp add: write_all_def)
next
  case (Cons w ws)
  obtain c k v where w: "w = (c, k, v)" by (cases w)
  have "get (write_all (w # ws) t) = get (write_all ws (put c k v t))" by (simp add: write_all_def w)
  also have "\<dots> = (get t)(k \<mapsto> v) ++ map_of (rev (map snd ws))"
    by (simp only: Cons.IH [OF put_inv [OF Cons.prems]] get_put [OF Cons.prems])
  finally show ?case by (auto simp: w map_add_def fun_eq_iff split: option.splits)
qed

text \<open>Writing the same history into any table gives the same entries, those of the merged list.\<close>

lemma entries_write_all:
  assumes "inv t"
  shows "entries (write_all ws t) = alist_merge (entries t) (map snd ws)"
proof (rule ksorted_unique)
  show "ksorted (entries (write_all ws t))" by (rule entries_sorted [OF write_all_inv [OF assms]])
  show "ksorted (alist_merge (entries t) (map snd ws))"
    by (rule ksorted_alist_merge [OF entries_sorted [OF assms]])
  show "map_of (entries (write_all ws t)) = map_of (alist_merge (entries t) (map snd ws))"
    using entries_get [OF write_all_inv [OF assms]] get_write_all [OF assms] entries_get [OF assms]
    by (simp add: map_of_alist_merge [OF entries_sorted [OF assms]])
qed

end

definition mt_ok :: "memtable \<Rightarrow> bool" where "mt_ok mt \<longleftrightarrow> mt_inv mt \<and> mt_stable mt"

lemma observe_stable: "mt_ok mt \<Longrightarrow> memtable_get k mt = map_option fst (mt_cell mt k)"
  unfolding mt_ok_def mt_stable_def
  by (cases "mt_cell mt k") (fastforce simp: memtable_get_cell observe_def)+

lemma store_ok: "mt_ok mt \<Longrightarrow> mt_ok (memtable_store coins k v mt)"
  using store_spec [of mt coins k v] unfolding mt_ok_def mt_stable_def
  by (auto split: option.splits)

lemma store_get:
  assumes "mt_ok mt"
  shows "memtable_get k' (memtable_store coins k v mt) = (if k' = k then Some v else memtable_get k' mt)"
  using observe_stable [OF assms] observe_stable [OF store_ok [OF assms]] assms
  by (simp add: store_spec(2) mt_ok_def)

interpretation mt: kv_table "\<lambda>mt k. memtable_get k mt" memtable_store memtable_get_all_entries mt_ok
  by unfold_locales (auto simp: store_ok store_get fun_eq_iff entries_spec mt_ok_def [symmetric], simp_all add: mt_ok_def entries_spec)

interpretation al: kv_table map_of "\<lambda>_ :: unit. alist_upd" "\<lambda>xs. xs" ksorted
  by unfold_locales (simp_all add: ksorted_alist_upd map_of_alist_upd)

lemma new_ok: "1 \<le> ml \<Longrightarrow> mt_ok (memtable_new sz ml)"
  using new_inv [of ml sz] by (simp add: mt_ok_def mt_stable_def)

lemma remove_ok:
  assumes "mt_ok mt"
  shows "mt_ok (snd (memtable_remove coins k mt))"
    "memtable_get k' (snd (memtable_remove coins k mt)) = (if k' = k then
       Some (case memtable_get k mt of Some v \<Rightarrow> v\<lparr>deleted := True\<rparr> | None \<Rightarrow> tombstone) else memtable_get k' mt)"
proof -
  note r = remove_cell [of mt coins k]
  show ok: "mt_ok (snd (memtable_remove coins k mt))"
    using r assms unfolding mt_ok_def mt_stable_def by (auto split: option.splits)
  show "memtable_get k' (snd (memtable_remove coins k mt)) = (if k' = k then
       Some (case memtable_get k mt of Some v \<Rightarrow> v\<lparr>deleted := True\<rparr> | None \<Rightarrow> tombstone) else memtable_get k' mt)"
    using observe_stable [OF assms] observe_stable [OF ok] assms
    by (auto simp: r(2) mt_ok_def split: option.splits)
qed

text \<open>An update that succeeds, and one that throws midway.\<close>

lemma handle_ok:
  assumes ok: "mt_ok mt" and v: "memtable_get k mt = Some v" and f: "f v = (Inr r, v')"
  shows "\<exists>mt'. memtable_handle_value k f mt = (Inr (r, v), mt') \<and> mt_ok mt' \<and>
    (\<forall>k'. memtable_get k' mt' = (if k' = k then Some v' else memtable_get k' mt))"
proof -
  obtain stuck where c: "mt_cell mt k = Some (v, stuck)" using observe_stable [OF ok, of k] v by (cases "mt_cell mt k") auto
  then have "\<not> stuck" using ok by (auto simp: mt_ok_def mt_stable_def)
  then obtain mt' where r: "memtable_handle_value k f mt = (Inr (r, v), mt')" "mt_inv mt'"
    "mt_cell mt' = (mt_cell mt)(k \<mapsto> (v', False))"
    using handle_cell [OF _ c, of f] ok f by (auto simp: mt_ok_def)
  have ok': "mt_ok mt'" using r ok by (auto simp: mt_ok_def mt_stable_def)
  show ?thesis
    using r ok' observe_stable [OF ok] observe_stable [OF ok'] by (intro exI [of _ mt']) simp
qed

lemma handle_throws:
  assumes inv: "mt_inv mt" and c: "mt_cell mt k = Some (v, False)" and f: "f v = (Inl e, v')"
  shows "\<exists>mt'. memtable_handle_value k f mt = (Inl e, mt') \<and> mt_inv mt' \<and>
    (\<forall>k'. memtable_get k' mt' = (if k' = k then Some evalue_default else memtable_get k' mt))"
proof -
  obtain mt' where r: "memtable_handle_value k f mt = (Inl e, mt')" "mt_inv mt'"
    "mt_cell mt' = (mt_cell mt)(k \<mapsto> (v', True))"
    using handle_cell [OF inv c, of f] f by auto
  then show ?thesis
    by (intro exI [of _ mt']) (simp add: memtable_get_cell inv observe_def mops_def)
qed

section \<open>Properties\<close>

text \<open>
  C18: A memtable is a sorted map. Whatever sequence of writes goes into a new memtable and whatever
  levels the skip lists draw, its sixteen shards behind their Bloom filters answer every lookup with
  the last value written for the key, and listing the shards one after the other gives exactly the
  sorted list that inserting the same writes into an ordered association list gives.
\<close>

theorem memtable_is_sorted_map:
  assumes "1 \<le> max_level"
  shows "let mt = fold (\<lambda>(coins, k, v). memtable_store coins k v) ws (memtable_new sz max_level)
    in memtable_get_all_entries mt = fold (\<lambda>(coins, k, v). alist_upd k v) ws [] \<and> (\<forall>k. memtable_get k mt = map_of (rev (map snd ws)) k)"
proof -
  let ?new = "memtable_new sz max_level"
  have ok: "mt_ok ?new" by (rule new_ok [OF assms])
  have "mt_cell ?new = Map.empty" by (rule new_inv(2) [OF assms])
  then have get: "(\<lambda>k. memtable_get k ?new) = Map.empty" using observe_stable [OF ok] by (simp add: fun_eq_iff)
  have e: "memtable_get_all_entries ?new = []"
    using mt.entries_get [OF ok] unfolding get by simp
  have "memtable_get_all_entries (mt.write_all ws ?new) = al.write_all (map (\<lambda>w. ((), snd w)) ws) []"
    using mt.entries_write_all [OF ok, of ws] al.entries_write_all [of "[]" "map (\<lambda>w. ((), snd w)) ws"] by (simp add: e comp_def)
  moreover have "al.write_all (map (\<lambda>w. ((), snd w)) ws) [] = fold (\<lambda>(coins, k, v). alist_upd k v) ws []"
    unfolding al.write_all_def by (simp add: fold_map comp_def split_def)
  moreover have "(\<lambda>k. memtable_get k (mt.write_all ws ?new)) = map_of (rev (map snd ws))"
    using mt.get_write_all [OF ok, of ws] unfolding get by simp
  ultimately show ?thesis by (simp add: mt.write_all_def [symmetric] Let_def fun_eq_iff)
qed

theorem memtable_is_sorted_map_witness:
  "let v = (\<lambda>s. mk_evalue (VString s)); ws = [([True], ''b'', v ''1''), ([], ''a'', v ''2''), ([], ''b'', v ''3'')];
       mt = fold (\<lambda>(coins, k, v). memtable_store coins k v) ws (memtable_new 0 16)
   in memtable_get_all_entries mt = [(''a'', v ''2''), (''b'', v ''3'')] \<and> memtable_get ''b'' mt = Some (v ''3'')"
proof -
  let ?v = "\<lambda>s. mk_evalue (VString s)"
  let ?ws = "[([True], ''b'', ?v ''1''), ([], ''a'', ?v ''2''), ([], ''b'', ?v ''3'')]"
  have "fold (\<lambda>(coins :: bool list, k, v). alist_upd k v) ?ws [] = [(''a'', ?v ''2''), (''b'', ?v ''3'')]" by code_simp
  then show ?thesis using memtable_is_sorted_map [of 16 ?ws 0] by (simp add: Let_def)
qed

end
