(* ===== verification/LruCache.thy ===== *)
theory LruCache
  imports Serializer "HOL-Library.Multiset"
begin

text \<open>
  \<open>LRUCache\<close> (\<open>common/ds/lru_cache.h\<close>): a \<open>std::list\<close> of key/value pairs, most recent first, and
  an index from keys to list iterators. A list iterator stays attached to its node while the
  node is spliced around, so a node carries an identity, and the index maps keys to identities.
  The specification is the recency list alone; the lemmas of this theory show that index and
  list never drift apart and that the cache is that list.
\<close>

record ('k, 'v) lru_cache =
  capacity :: nat
  items :: "(nat \<times> 'k \<times> 'v) list"
  index :: "('k \<times> nat) list"
  fresh :: nat

definition lru_new :: "nat \<Rightarrow> ('k, 'v) lru_cache" where
  "lru_new c = \<lparr>capacity = c, items = [], index = [], fresh = 0\<rparr>"

text \<open>\<open>items_.splice(items_.begin(), items_, it)\<close>, and the write through the iterator.\<close>

definition splice_front :: "nat \<Rightarrow> (nat \<times> 'k \<times> 'v) list \<Rightarrow> (nat \<times> 'k \<times> 'v) list" where
  "splice_front i xs = filter (\<lambda>x. fst x = i) xs @ filter (\<lambda>x. fst x \<noteq> i) xs"

definition write_node :: "nat \<Rightarrow> 'v \<Rightarrow> (nat \<times> 'k \<times> 'v) list \<Rightarrow> (nat \<times> 'k \<times> 'v) list" where
  "write_node i v xs = map (\<lambda>(j, k, w). if j = i then (j, k, v) else (j, k, w)) xs"

definition lru_get :: "'k \<Rightarrow> ('k, 'v) lru_cache \<Rightarrow> 'v option \<times> ('k, 'v) lru_cache" where
  "lru_get key c = (case map_of (index c) key of
       None \<Rightarrow> (None, c)
     | Some i \<Rightarrow> (map_option snd (map_of (items c) i), c\<lparr>items := splice_front i (items c)\<rparr>))"

text \<open>Evicting from an empty list (capacity 0) decrements \<open>end()\<close> of an empty list.\<close>

definition lru_put :: "'k \<Rightarrow> 'v \<Rightarrow> ('k, 'v) lru_cache \<Rightarrow> ('k, 'v) lru_cache res" where
  "lru_put key v c = (case map_of (index c) key of
       Some i \<Rightarrow> Inr (c\<lparr>items := splice_front i (write_node i v (items c))\<rparr>)
     | None \<Rightarrow>
         rbind (if capacity c \<le> length (items c) then
                  (if items c = [] then Inl UB
                   else Inr (c\<lparr>index := AList.delete (fst (snd (last (items c)))) (index c),
                               items := butlast (items c)\<rparr>))
                else Inr c)
           (\<lambda>c. Inr (c\<lparr>items := (fresh c, key, v) # items c,
                       index := AList.update key (fresh c) (index c),
                       fresh := Suc (fresh c)\<rparr>)))"

definition lru_exists :: "'k \<Rightarrow> ('k, 'v) lru_cache \<Rightarrow> bool" where
  "lru_exists key c \<longleftrightarrow> map_of (index c) key \<noteq> None"

definition lru_clear :: "('k, 'v) lru_cache \<Rightarrow> ('k, 'v) lru_cache" where
  "lru_clear c = c\<lparr>items := [], index := []\<rparr>"

definition lru_serialize :: "('k \<Rightarrow> bytes) \<Rightarrow> ('v \<Rightarrow> bytes) \<Rightarrow> ('k, 'v) lru_cache \<Rightarrow> bytes" where
  "lru_serialize sk sv c = le32 (word_of_nat (length (items c)))
     @ concat (map (\<lambda>(i, k, v). sk k @ sv v) (items c))"

text \<open>The nodes read by \<open>deserialize\<close> get the next identities, in order; the index is rebuilt.\<close>

definition lru_deserialize ::
  "'k decoder \<Rightarrow> 'v decoder \<Rightarrow> bytes \<Rightarrow> nat \<Rightarrow> ('k, 'v) lru_cache \<Rightarrow> (('k, 'v) lru_cache \<times> nat) res" where
  "lru_deserialize dk dv data off c =
     rbind (read_bytes data off 4) (\<lambda>b.
     rbind (dec_n (unat (of_le32 b)) (dec_pair dk dv) data (off + 4)) (\<lambda>(kvs, off').
       let its = zip [fresh c..<fresh c + length kvs] kvs
       in Inr (c\<lparr>items := its,
                 index := fold (\<lambda>(i, k, v). AList.update k i) its [],
                 fresh := fresh c + length kvs\<rparr>, off')))"

section \<open>Specification: the recency list\<close>

definition lru_abs :: "('k, 'v) lru_cache \<Rightarrow> ('k \<times> 'v) list" where
  "lru_abs c = map snd (items c)"

definition spec_get :: "'k \<Rightarrow> ('k \<times> 'v) list \<Rightarrow> 'v option \<times> ('k \<times> 'v) list" where
  "spec_get k xs = (case map_of xs k of
       None \<Rightarrow> (None, xs)
     | Some v \<Rightarrow> (Some v, (k, v) # filter (\<lambda>x. fst x \<noteq> k) xs))"

definition spec_put :: "nat \<Rightarrow> 'k \<Rightarrow> 'v \<Rightarrow> ('k \<times> 'v) list \<Rightarrow> ('k \<times> 'v) list" where
  "spec_put cap k v xs =
     (if k \<in> fst ` set xs then (k, v) # filter (\<lambda>x. fst x \<noteq> k) xs
      else (k, v) # take (cap - 1) xs)"

definition key_ids :: "(nat \<times> 'k \<times> 'v) list \<Rightarrow> ('k \<times> nat) list" where
  "key_ids xs = map (\<lambda>(i, k, v). (k, i)) xs"

definition lru_wf :: "(nat \<times> 'k \<times> 'v) list \<Rightarrow> bool" where
  "lru_wf xs \<longleftrightarrow> distinct (map fst xs) \<and> distinct (map (fst \<circ> snd) xs)"

definition lru_inv :: "('k, 'v) lru_cache \<Rightarrow> bool" where
  "lru_inv c \<longleftrightarrow> lru_wf (items c) \<and> (\<forall>i \<in> fst ` set (items c). i < fresh c) \<and>
     map_of (index c) = map_of (key_ids (items c)) \<and> length (items c) \<le> capacity c"

lemma lru_inv_new: "lru_inv (lru_new c)"
  by (simp add: lru_inv_def lru_new_def lru_wf_def key_ids_def)

lemma key_ids_None: "map_of (key_ids xs) k = None \<longleftrightarrow> k \<notin> fst ` set (map snd xs)"
  by (induction xs) (auto simp: key_ids_def)

lemma key_ids_fst: "map fst (key_ids xs) = map (fst \<circ> snd) xs"
  by (auto simp: key_ids_def)

text \<open>Where a key is indexed, the list splits at its node, and key and identity occur nowhere else.\<close>

lemma lru_split:
  assumes "lru_wf xs" "map_of (key_ids xs) k = Some i"
  obtains as v bs where "xs = as @ (i, k, v) # bs"
    "i \<notin> fst ` set (as @ bs)" "k \<notin> fst ` snd ` set (as @ bs)"
proof -
  from assms(2) have "(k, i) \<in> set (key_ids xs)" by (rule map_of_SomeD)
  then obtain v where "(i, k, v) \<in> set xs" by (auto simp: key_ids_def)
  then obtain as bs where xs: "xs = as @ (i, k, v) # bs" by (meson split_list)
  with assms(1) have "i \<notin> fst ` set (as @ bs)" "k \<notin> fst ` snd ` set (as @ bs)"
    by (auto simp: lru_wf_def image_comp comp_def)
  with xs that show thesis by blast
qed

lemma splice_front_split:
  assumes "i \<notin> fst ` set (as @ bs)"
  shows "splice_front i (as @ (i, k, v) # bs) = (i, k, v) # as @ bs"
proof -
  have "i \<notin> fst ` set as" "i \<notin> fst ` set bs" using assms by auto
  then show ?thesis by (simp add: splice_front_def filter_fresh)
qed

lemma write_node_split:
  assumes "i \<notin> fst ` set (as @ bs)"
  shows "write_node i w (as @ (i, k, v) # bs) = as @ (i, k, w) # bs"
proof -
  have "map (\<lambda>(j, k, u). if j = i then (j, k, w) else (j, k, u)) ys = ys" if "i \<notin> fst ` set ys" for ys :: "(nat \<times> 'a \<times> 'b) list"
    using that by (intro map_idI) force
  with assms show ?thesis by (simp add: write_node_def image_Un)
qed

text \<open>Moving a node to the front, with a new value or not, keeps the list well formed and indexed.\<close>

lemma lru_front:
  assumes "lru_inv c" "items c = as @ (i, k, v) # bs"
  shows "lru_inv (c\<lparr>items := (i, k, w) # as @ bs\<rparr>)"
proof -
  have wf: "lru_wf (as @ (i, k, v) # bs)" using assms by (simp add: lru_inv_def)
  then have m: "mset (key_ids ((i, k, w) # as @ bs)) = mset (key_ids (as @ (i, k, v) # bs))"
    by (simp add: key_ids_def)
  have d: "distinct (map fst (key_ids (as @ (i, k, v) # bs)))"
    using wf by (simp add: key_ids_fst lru_wf_def)
  have wf': "lru_wf ((i, k, w) # as @ bs)" using wf by (auto simp: lru_wf_def)
  then have "distinct (map fst (key_ids ((i, k, w) # as @ bs)))"
    unfolding key_ids_fst lru_wf_def by blast
  with d m have "map_of (key_ids ((i, k, w) # as @ bs)) = map_of (key_ids (as @ (i, k, v) # bs))"
    by (intro map_of_inject_set [THEN iffD2]) (auto dest: mset_eq_setD)
  with assms wf' show ?thesis by (auto simp: lru_inv_def)
qed

lemma filter_other_key:
  assumes "k \<notin> fst ` snd ` set (as @ bs)"
  shows "filter (\<lambda>x. fst x \<noteq> k) (map snd (as @ (i, k, v) # bs)) = map snd (as @ bs)"
    and "map_of (map snd (as @ (i, k, v) # bs)) k = Some v"
proof -
  have k: "k \<notin> fst ` set (map snd as)" "k \<notin> fst ` set (map snd bs)" using assms by auto
  then show "filter (\<lambda>x. fst x \<noteq> k) (map snd (as @ (i, k, v) # bs)) = map snd (as @ bs)"
    by (simp add: filter_fresh del: set_map)
  show "map_of (map snd (as @ (i, k, v) # bs)) k = Some v"
    using map_of_fresh [OF k(1)] by (simp add: map_add_def)
qed

section \<open>The cache implements the recency list\<close>

lemma lru_index_None:
  "lru_inv c \<Longrightarrow> map_of (index c) k = None \<longleftrightarrow> k \<notin> fst ` set (lru_abs c)"
  by (simp add: lru_inv_def key_ids_None lru_abs_def)

lemma lru_get_step:
  assumes "lru_inv c"
  shows "lru_inv (snd (lru_get k c)) \<and> capacity (snd (lru_get k c)) = capacity c \<and>
    (fst (lru_get k c), lru_abs (snd (lru_get k c))) = spec_get k (lru_abs c)"
proof (cases "map_of (index c) k")
  case None
  then have "map_of (lru_abs c) k = None"
    using lru_index_None [OF assms] by (simp add: map_of_eq_None_iff)
  with None assms show ?thesis by (simp add: lru_get_def spec_get_def)
next
  case (Some i)
  then have k: "map_of (key_ids (items c)) k = Some i" and wf: "lru_wf (items c)"
    using assms by (simp_all add: lru_inv_def)
  obtain as v bs where s: "items c = as @ (i, k, v) # bs"
    "i \<notin> fst ` set (as @ bs)" "k \<notin> fst ` snd ` set (as @ bs)"
    by (rule lru_split [OF wf k])
  have "map_of (items c) i = Some (k, v)"
    using map_of_fresh [of i as] s(2) by (simp add: s(1) map_add_def image_Un)
  moreover have "splice_front i (items c) = (i, k, v) # as @ bs"
    using splice_front_split [OF s(2)] s(1) by simp
  ultimately show ?thesis
    using Some lru_front [OF assms s(1), of v] filter_other_key [OF s(3), of i v]
    by (simp add: lru_get_def spec_get_def lru_abs_def s(1))
qed

lemma lru_put_hit:
  assumes "lru_inv c" "map_of (index c) k = Some i"
  shows "\<exists>c'. lru_put k v c = Inr c' \<and> lru_inv c' \<and> capacity c' = capacity c \<and>
    lru_abs c' = spec_put (capacity c) k v (lru_abs c)"
proof -
  have m: "map_of (key_ids (items c)) k = Some i" and wf: "lru_wf (items c)"
    using assms by (simp_all add: lru_inv_def)
  obtain as w bs where s: "items c = as @ (i, k, w) # bs"
    "i \<notin> fst ` set (as @ bs)" "k \<notin> fst ` snd ` set (as @ bs)"
    by (rule lru_split [OF wf m])
  have it: "splice_front i (write_node i v (items c)) = (i, k, v) # as @ bs"
    using splice_front_split [OF s(2)] write_node_split [OF s(2)] s(1) by simp
  have put: "lru_put k v c = Inr (c\<lparr>items := (i, k, v) # as @ bs\<rparr>)"
    using assms(2) it by (simp add: lru_put_def)
  have "k \<in> fst ` set (lru_abs c)" by (simp add: lru_abs_def s(1))
  then have "lru_abs (c\<lparr>items := (i, k, v) # as @ bs\<rparr>) = spec_put (capacity c) k v (lru_abs c)"
    using filter_other_key(1) [OF s(3), of i w] by (simp add: spec_put_def lru_abs_def s(1))
  then show ?thesis
    using put lru_front [OF assms(1) s(1), of v] by simp
qed

lemma lru_inv_push:
  assumes "lru_inv c" "map_of (index c) k = None" "length (items c) < capacity c"
  shows "lru_inv (c\<lparr>items := (fresh c, k, v) # items c, index := AList.update k (fresh c) (index c),
    fresh := Suc (fresh c)\<rparr>)"
  using assms lru_index_None [OF assms(1), of k]
  by (force simp: lru_inv_def lru_wf_def key_ids_def lru_abs_def)

lemma lru_inv_evict:
  assumes "lru_inv c" "items c \<noteq> []"
  shows "lru_inv (c\<lparr>index := AList.delete (fst (snd (last (items c)))) (index c), items := butlast (items c)\<rparr>)"
proof -
  obtain xs i k v where s: "items c = xs @ [(i, k, v)]"
    using assms(2) by (metis append_butlast_last_id prod_cases3)
  have wf: "lru_wf (xs @ [(i, k, v)])" using assms s by (simp add: lru_inv_def)
  then have "k \<notin> fst ` set (key_ids xs)" by (force simp: lru_wf_def key_ids_def)
  then have "map_of (key_ids xs) k = None" by (rule map_of_fresh)
  moreover have "key_ids (xs @ [(i, k, v)]) = key_ids xs @ [(k, i)]" by (simp add: key_ids_def)
  ultimately have "(map_of (key_ids (xs @ [(i, k, v)])))(k := None) = map_of (key_ids xs)"
    by (auto simp: map_add_def fun_eq_iff split: option.splits)
  then show ?thesis
    using assms s wf by (auto simp: lru_inv_def lru_wf_def)
qed

lemma lru_put_miss:
  assumes "lru_inv c" "map_of (index c) k = None" "0 < capacity c"
  shows "\<exists>c'. lru_put k v c = Inr c' \<and> lru_inv c' \<and> capacity c' = capacity c \<and>
    lru_abs c' = spec_put (capacity c) k v (lru_abs c)"
proof (cases "capacity c \<le> length (items c)")
  case False
  then have t: "take (capacity c - 1) (lru_abs c) = lru_abs c"
    by (simp add: lru_abs_def)
  let ?c = "c\<lparr>items := (fresh c, k, v) # items c, index := AList.update k (fresh c) (index c),
    fresh := Suc (fresh c)\<rparr>"
  have "lru_put k v c = Inr ?c" using assms False by (simp add: lru_put_def)
  moreover have "lru_inv ?c" using lru_inv_push [OF assms(1,2), of v] False by simp
  moreover have "lru_abs ?c = spec_put (capacity c) k v (lru_abs c)"
    using t lru_index_None [OF assms(1), of k] assms(2) by (simp add: spec_put_def) (simp add: lru_abs_def)
  ultimately show ?thesis by simp
next
  case True
  then have ne: "items c \<noteq> []" and len: "length (items c) = capacity c"
    using assms by (auto simp: lru_inv_def)
  let ?c = "c\<lparr>index := AList.delete (fst (snd (last (items c)))) (index c), items := butlast (items c)\<rparr>"
  have inv: "lru_inv ?c" by (rule lru_inv_evict [OF assms(1) ne])
  have n: "map_of (index ?c) k = None" using assms(2) by simp
  let ?d = "?c\<lparr>items := (fresh ?c, k, v) # items ?c, index := AList.update k (fresh ?c) (index ?c),
    fresh := Suc (fresh ?c)\<rparr>"
  have "lru_put k v c = Inr ?d" using True ne assms(2) by (simp add: lru_put_def)
  moreover have "lru_inv ?d" using lru_inv_push [OF inv n, of v] len assms(3) by simp
  moreover have "lru_abs ?d = spec_put (capacity c) k v (lru_abs c)"
    using lru_index_None [OF assms(1), of k] assms(2) len
    by (simp add: spec_put_def) (simp add: lru_abs_def take_map butlast_conv_take)
  ultimately show ?thesis by simp
qed

lemma lru_put_step:
  assumes "lru_inv c" "0 < capacity c"
  shows "\<exists>c'. lru_put k v c = Inr c' \<and> lru_inv c' \<and> capacity c' = capacity c \<and>
    lru_abs c' = spec_put (capacity c) k v (lru_abs c)"
  using lru_put_hit [OF assms(1), of k] lru_put_miss [OF assms(1) _ assms(2), of k]
  by (cases "map_of (index c) k") simp_all

text \<open>Runs of operations, and the cache they leave.\<close>

datatype ('k, 'v) lru_op = LGet 'k | LPut 'k 'v | LClear

fun lru_run :: "('k, 'v) lru_op list \<Rightarrow> ('k, 'v) lru_cache \<Rightarrow> ('k, 'v) lru_cache res" where
  "lru_run [] c = Inr c"
| "lru_run (LGet k # ops) c = lru_run ops (snd (lru_get k c))"
| "lru_run (LPut k v # ops) c = rbind (lru_put k v c) (lru_run ops)"
| "lru_run (LClear # ops) c = lru_run ops (lru_clear c)"

fun spec_run :: "nat \<Rightarrow> ('k, 'v) lru_op list \<Rightarrow> ('k \<times> 'v) list \<Rightarrow> ('k \<times> 'v) list" where
  "spec_run cap [] xs = xs"
| "spec_run cap (LGet k # ops) xs = spec_run cap ops (snd (spec_get k xs))"
| "spec_run cap (LPut k v # ops) xs = spec_run cap ops (spec_put cap k v xs)"
| "spec_run cap (LClear # ops) xs = spec_run cap ops []"

lemma lru_clear_inv: "lru_inv c \<Longrightarrow> lru_inv (lru_clear c)"
  by (simp add: lru_inv_def lru_clear_def lru_wf_def key_ids_def)

lemma lru_run_refines:
  "lru_inv c \<Longrightarrow> 0 < capacity c \<Longrightarrow>
     \<exists>c'. lru_run ops c = Inr c' \<and> lru_inv c' \<and> capacity c' = capacity c \<and>
       lru_abs c' = spec_run (capacity c) ops (lru_abs c)"
proof (induction ops arbitrary: c)
  case (Cons op ops)
  show ?case
  proof (cases op)
    case (LGet k)
    have "lru_abs (snd (lru_get k c)) = snd (spec_get k (lru_abs c))"
      using lru_get_step [OF Cons.prems(1), of k] by (metis snd_conv)
    with LGet Cons.IH [of "snd (lru_get k c)"] Cons.prems lru_get_step [OF Cons.prems(1), of k]
    show ?thesis by simp
  next
    case (LPut k v)
    then obtain c' where "lru_put k v c = Inr c'" "lru_inv c'" "capacity c' = capacity c"
      "lru_abs c' = spec_put (capacity c) k v (lru_abs c)"
      using lru_put_step [OF Cons.prems] by blast
    with LPut Cons.IH [of c'] Cons.prems show ?thesis by simp
  next
    case LClear
    have "lru_abs (lru_clear c) = []" by (simp add: lru_abs_def lru_clear_def)
    moreover have "capacity (lru_clear c) = capacity c" by (simp add: lru_clear_def)
    ultimately show ?thesis
      using LClear Cons.IH [of "lru_clear c"] Cons.prems lru_clear_inv [OF Cons.prems(1)] by simp
  qed
qed simp

section \<open>Persisting a cache\<close>

lemma index_rebuilt:
  assumes "distinct (map (fst \<circ> snd) its)"
  shows "map_of (fold (\<lambda>(i, k, v). AList.update k i) its m) = map_of m ++ map_of (key_ids its)"
  using assms
proof (induction its arbitrary: m)
  case (Cons it its)
  obtain i k v where it: "it = (i, k, v)" by (cases it)
  with Cons.prems have "k \<notin> fst ` set (key_ids its)" by (force simp: key_ids_def)
  then have "map_of (key_ids its) k = None" by (rule map_of_fresh)
  with Cons show ?case by (auto simp: it key_ids_def map_add_def fun_eq_iff split: option.splits)
qed (simp add: key_ids_def)

context codec_pair
begin

lemma lru_deserialize_at:
  assumes inv: "lru_inv c" and ok: "list_all ok_pair (lru_abs c)" and len: "length (items c) < 2 ^ 32"
    and data: "data = pre @ lru_serialize enc1 enc2 c @ post" "off = length pre"
  shows "\<exists>d. lru_deserialize dec1 dec2 data off c0 = Inr (d, off + length (lru_serialize enc1 enc2 c)) \<and>
    lru_abs d = lru_abs c \<and> capacity d = capacity c0 \<and> (length (items c) \<le> capacity c0 \<longrightarrow> lru_inv d)"
proof -
  let ?n = "le32 (word_of_nat (length (items c)))" and ?body = "concat (map enc_pair (lru_abs c))"
  have "map (\<lambda>(i, k, v). enc1 k @ enc2 v) (items c) = map enc_pair (lru_abs c)"
    by (auto simp: lru_abs_def enc_pair_def)
  then have ser: "lru_serialize enc1 enc2 c = ?n @ ?body" by (simp add: lru_serialize_def)
  have 1: "read_bytes data off 4 = Inr ?n"
    using read_bytes_append [of pre off ?n 4 "?body @ post"] data ser by simp
  have 2: "dec_n (length (lru_abs c)) (dec_pair dec1 dec2) data (off + 4) = Inr (lru_abs c, off + 4 + length ?body)"
    by (rule pair.dec_n_at [OF ok, of _ "pre @ ?n" post]) (simp_all add: data ser)
  have u: "unat (word_of_nat (length (items c)) :: u32) = length (lru_abs c)"
    using len by (simp add: unat_of_nat_lt lru_abs_def)
  let ?its = "zip [fresh c0..<fresh c0 + length (lru_abs c)] (lru_abs c)"
  have its: "map fst ?its = [fresh c0..<fresh c0 + length (lru_abs c)]" "map snd ?its = lru_abs c"
    by simp_all
  have "map (fst \<circ> snd) ?its = map (fst \<circ> snd) (items c)"
    using its(2) by (metis lru_abs_def map_map)
  then have wf: "lru_wf ?its" using inv its(1) by (simp add: lru_wf_def lru_inv_def)
  have low: "\<forall>i \<in> fst ` set ?its. i < fresh c0 + length (lru_abs c)"
    using its(1) by (metis atLeastLessThan_iff atLeastLessThan_upt image_set)
  let ?d = "c0\<lparr>items := ?its, index := fold (\<lambda>(i, k, v). AList.update k i) ?its [],
      fresh := fresh c0 + length (lru_abs c)\<rparr>"
  have "lru_deserialize dec1 dec2 data off c0 = Inr (?d, off + length (lru_serialize enc1 enc2 c))"
    using 1 2 u by (simp add: lru_deserialize_def ser Let_def)
  moreover have "lru_abs ?d = lru_abs c" using its(2) by (simp add: lru_abs_def)
  moreover have "length (items c) \<le> capacity c0 \<longrightarrow> lru_inv ?d"
    using wf low index_rebuilt [of ?its "[]"] by (simp add: lru_inv_def lru_wf_def lru_abs_def)
  ultimately show ?thesis by (intro exI [of _ ?d]) simp
qed

end

section \<open>Properties\<close>

section \<open>Reading through a cache\<close>

text \<open>
  What a reader relies on: a hit returns the binding, a lookup keeps the bindings, and storing
  adds at most the stored one (others may be evicted). A cache that holds only correct answers
  then stays so, and reading through it gives a correct answer.
\<close>

locale lossy_cache =
  fixes get :: "'k \<Rightarrow> 'c \<Rightarrow> 'v option \<times> 'c"
    and put :: "'k \<Rightarrow> 'v \<Rightarrow> 'c \<Rightarrow> 'c res"
    and binding :: "'c \<Rightarrow> 'k \<Rightarrow> 'v option"
    and inv :: "'c \<Rightarrow> bool"
  assumes get_hit: "inv c \<Longrightarrow> fst (get k c) = binding c k"
    and get_keeps: "inv c \<Longrightarrow> binding (snd (get k c)) = binding c"
    and get_inv: "inv c \<Longrightarrow> inv (snd (get k c))"
    and put_total: "inv c \<Longrightarrow> \<exists>c'. put k v c = Inr c' \<and> inv c' \<and> binding c' \<subseteq>\<^sub>m (binding c)(k \<mapsto> v)"
begin

definition coherent :: "('k \<Rightarrow> 'v \<Rightarrow> bool) \<Rightarrow> 'c \<Rightarrow> bool" where
  "coherent F c \<longleftrightarrow> inv c \<and> (\<forall>k v. binding c k = Some v \<longrightarrow> F k v)"

lemma coherent_get: "coherent F c \<Longrightarrow> coherent F (snd (get k c))"
  by (simp add: coherent_def get_inv get_keeps)

lemma coherent_hit: "coherent F c \<Longrightarrow> fst (get k c) = Some v \<Longrightarrow> F k v"
  by (simp add: coherent_def get_hit)

lemma coherent_put: "coherent F c \<Longrightarrow> F k v \<Longrightarrow> \<exists>c'. put k v c = Inr c' \<and> coherent F c'"
proof -
  assume c: "coherent F c" and F: "F k v"
  obtain c' where c': "put k v c = Inr c'" "inv c'" "binding c' \<subseteq>\<^sub>m (binding c)(k \<mapsto> v)"
    using put_total [of c k v] c by (auto simp: coherent_def)
  have "F k' v'" if b: "binding c' k' = Some v'" for k' v'
  proof -
    have "((binding c)(k \<mapsto> v)) k' = Some v'" using c'(3) b by (force simp: map_le_def dom_def)
    then show ?thesis using c F by (auto simp: coherent_def split: if_splits)
  qed
  then show ?thesis using c' by (auto simp: coherent_def)
qed

end

lemma map_of_filter_key: "map_of (filter (\<lambda>x. fst x \<noteq> k) xs) k' = (if k' = k then None else map_of xs k')"
  by (induction xs) auto

lemma map_of_spec_get: "map_of (snd (spec_get k xs)) = map_of xs"
  by (auto simp: spec_get_def fun_eq_iff map_of_filter_key split: option.split)

lemma map_of_take: "map_of (take n xs) k = Some v \<Longrightarrow> map_of xs k = Some v"
proof (induction xs arbitrary: n)
  case (Cons x xs)
  then show ?case by (cases n) (auto split: if_splits)
qed simp

lemma map_of_spec_put: "map_of (spec_put cap k v xs) k' = Some w \<Longrightarrow> ((map_of xs)(k \<mapsto> v)) k' = Some w"
  by (auto simp: spec_put_def map_of_filter_key dest: map_of_take split: if_splits)

interpretation lru: lossy_cache lru_get lru_put "\<lambda>c. map_of (lru_abs c)" "\<lambda>c. lru_inv c \<and> 0 < capacity c"
proof
  fix c :: "('a, 'b) lru_cache" and k
  assume inv: "lru_inv c \<and> 0 < capacity c"
  note g = lru_get_step [of c k]
  have e: "fst (lru_get k c) = fst (spec_get k (lru_abs c))" "lru_abs (snd (lru_get k c)) = snd (spec_get k (lru_abs c))"
    using g inv by (metis fst_conv, metis snd_conv)
  show "fst (lru_get k c) = map_of (lru_abs c) k" unfolding e by (simp add: spec_get_def split: option.split)
  show "map_of (lru_abs (snd (lru_get k c))) = map_of (lru_abs c)" unfolding e by (rule map_of_spec_get)
  show "lru_inv (snd (lru_get k c)) \<and> 0 < capacity (snd (lru_get k c))" using g inv by simp
  show "\<exists>c'. lru_put k v c = Inr c' \<and> (lru_inv c' \<and> 0 < capacity c') \<and> map_of (lru_abs c') \<subseteq>\<^sub>m (map_of (lru_abs c))(k \<mapsto> v)" for v
  proof -
    obtain c' where c': "lru_put k v c = Inr c'" "lru_inv c'" "capacity c' = capacity c"
      "lru_abs c' = spec_put (capacity c) k v (lru_abs c)" using lru_put_step [of c k v] inv by auto
    have "map_of (lru_abs c') \<subseteq>\<^sub>m (map_of (lru_abs c))(k \<mapsto> v)"
      unfolding map_le_def c'(4)
    proof
      fix a assume "a \<in> dom (map_of (spec_put (capacity c) k v (lru_abs c)))"
      then obtain w where "map_of (spec_put (capacity c) k v (lru_abs c)) a = Some w" by blast
      with map_of_spec_put [OF this]
      show "map_of (spec_put (capacity c) k v (lru_abs c)) a = ((map_of (lru_abs c))(k \<mapsto> v)) a" by simp
    qed
    then show ?thesis using c' inv by auto
  qed
qed

lemma map_of_take_filter:
  "map_of (take m xs) k = Some v \<Longrightarrow> k \<noteq> k' \<Longrightarrow> map_of (take m (filter (\<lambda>x. fst x \<noteq> k') xs)) k = Some v"
proof (induction xs arbitrary: m)
  case (Cons x xs)
  then obtain j where j: "m = Suc j" by (cases m) simp_all
  have "map_of (take j ys) k = Some v \<Longrightarrow> map_of (take (Suc j) ys) k = Some v" for ys
    by (rule map_of_take [of j]) simp
  then show ?case using Cons j by (cases x) (auto split: if_splits)
qed simp

text \<open>A key is among the \<open>m\<close> entries used last.\<close>

definition recent :: "nat \<Rightarrow> 'k \<Rightarrow> 'v \<Rightarrow> ('k, 'v) lru_cache \<Rightarrow> bool" where
  "recent m k v c \<longleftrightarrow> lru_inv c \<and> m \<le> capacity c \<and> map_of (take m (lru_abs c)) k = Some v"

lemma recent_put:
  assumes "recent m k v c" "k' \<noteq> k" "m < capacity c" "lru_put k' v' c = Inr c'"
  shows "recent (Suc m) k v c' \<and> capacity c' = capacity c"
proof -
  have "lru_inv c'" "capacity c' = capacity c" "lru_abs c' = spec_put (capacity c) k' v' (lru_abs c)"
    using lru_put_step [of c k' v'] assms by (auto simp: recent_def)
  then show ?thesis using assms map_of_take_filter [of m "lru_abs c" k v k']
    by (auto simp: recent_def spec_put_def min_def)
qed

lemma recent_new:
  assumes "lru_inv c" "0 < capacity c" "lru_put k v c = Inr c'"
  shows "recent 1 k v c' \<and> capacity c' = capacity c"
  using lru_put_step [OF assms(1,2), of k v] assms(2,3) by (auto simp: recent_def spec_put_def)

lemma recent_get:
  assumes "recent m k v c"
  shows "fst (lru_get k c) = Some v"
proof -
  from assms have "map_of (lru_abs c) k = Some v" by (auto simp: recent_def dest: map_of_take)
  then show ?thesis using lru_get_step [of c k] assms by (auto simp: recent_def spec_get_def)
qed



end
