(* ===== verification/SSTable.thy ===== *)
theory SSTable
  imports MemTable LruCache
begin

text \<open>
  \<open>SSTable\<close> and \<open>SSTableBuilder\<close> (\<open>storage/sstable.h\<close>, \<open>sstable.cpp\<close>): an immutable file of sorted
  entries, laid out as data blocks, an index block, a Bloom filter, the key range, a footer and
  the level. The builder produces the bytes of the file, \<open>load\<close> reads the metadata back, and
  lookups read single blocks through the block cache. A file handle is its bytes; reads beyond
  the end fail as \<open>fread\<close> and \<open>pread\<close> do.
\<close>

section \<open>Footer and index entries\<close>

record sst_footer =
  index_block_offset :: u64
  index_block_size :: u64
  bloom_filter_offset :: u64
  bloom_filter_size :: u64
  data_block_count :: u64
  footer_entry_count :: u64
  min_key_offset :: u64
  min_key_size :: u64
  max_key_offset :: u64
  max_key_size :: u64
  magic :: u64

definition SSTABLE_MAGIC_NUMBER :: u64 where "SSTABLE_MAGIC_NUMBER = 0x4579614B56"
definition FOOTER_SIZE :: nat where "FOOTER_SIZE = 8 * 11"
definition SSTABLE_BLOCK_SIZE :: nat where "SSTABLE_BLOCK_SIZE = 4 * 1024"

definition ser_footer :: "sst_footer \<Rightarrow> bytes" where
  "ser_footer f = concat (map le64
     [index_block_offset f, index_block_size f, bloom_filter_offset f, bloom_filter_size f, data_block_count f,
      footer_entry_count f, min_key_offset f, min_key_size f, max_key_offset f, max_key_size f, magic f])"

definition deserialize_footer :: "bytes \<Rightarrow> sst_footer" where
  "deserialize_footer data = (let u = (\<lambda>i. of_le64 (take 8 (drop (8 * i) data)))
     in \<lparr>index_block_offset = u 0, index_block_size = u 1, bloom_filter_offset = u 2, bloom_filter_size = u 3,
         data_block_count = u 4, footer_entry_count = u 5, min_key_offset = u 6, min_key_size = u 7,
         max_key_offset = u 8, max_key_size = u 9, magic = u 10\<rparr>)"

record index_entry =
  first_key :: string
  block_offset :: u64
  block_size :: u64

definition ser_index_entry :: "index_entry \<Rightarrow> bytes" where
  "ser_index_entry e = le32 (word_of_nat (length (first_key e))) @ first_key e @ le64 (block_offset e) @ le64 (block_size e)"

definition deserialize_index_entry :: "index_entry decoder" where
  "deserialize_index_entry data off =
     rbind (read_bytes data off 4) (\<lambda>l. let key_len = unat (of_le32 l) in
     rbind (read_bytes data (off + 4) key_len) (\<lambda>k.
     rbind (read_bytes data (off + 4 + key_len) 8) (\<lambda>o8.
     rbind (read_bytes data (off + 12 + key_len) 8) (\<lambda>s.
       Inr (\<lparr>first_key = k, block_offset = of_le64 o8, block_size = of_le64 s\<rparr>, off + 20 + key_len)))))"

lemma deserialize_index_progress:
  "deserialize_index_entry data off = Inr (e, off') \<Longrightarrow> off < off' \<and> off' \<le> length data"
  by (auto simp: deserialize_index_entry_def rbind_eq_Inr_iff read_bytes_Inr_iff Let_def)

function dec_index :: "bytes \<Rightarrow> nat \<Rightarrow> index_entry list res" where
  "dec_index data off =
     (if off < length data then
        (case deserialize_index_entry data off of
           Inl e \<Rightarrow> Inl e
         | Inr (e, off') \<Rightarrow> rbind (dec_index data off') (\<lambda>es. Inr (e # es)))
      else Inr [])"
  by pat_completeness auto
termination
  by (relation "measure (\<lambda>(data, off). length data - off)") (auto dest: deserialize_index_progress)

declare dec_index.simps [simp del]

section \<open>Loading\<close>

record sstable =
  filepath :: string
  has_cache :: bool
  sst_file :: bytes
  sst_index :: "index_entry list"
  sst_bloom :: bloom_filter
  min_key :: string
  max_key :: string
  entry_count :: u64
  level :: u32
  sequence_number :: u64

definition fread_at :: "bytes \<Rightarrow> nat \<Rightarrow> nat \<Rightarrow> bytes option" where
  "fread_at file off n = (let r = take n (drop off file) in if length r = n then Some r else None)"

text \<open>\<open>path::stem\<close> and \<open>path::extension\<close> of a file name: a leading dot does not start an extension.\<close>

definition path_split :: "string \<Rightarrow> string \<times> string" where
  "path_split name = (case dropWhile (\<lambda>c. c \<noteq> CHR ''.'') (rev name) of
       dot # pre \<Rightarrow> if pre = [] then (name, []) else (rev pre, dot # rev (takeWhile (\<lambda>c. c \<noteq> CHR ''.'') (rev name)))
     | [] \<Rightarrow> (name, []))"

definition file_sequence :: "string \<Rightarrow> u64" where
  "file_sequence name = (case stoull (fst (path_split name)) of Inr s \<Rightarrow> s | Inl _ \<Rightarrow> 0)"

text \<open>
  \<open>load\<close> on the name and the bytes of the file. \<open>None\<close> is \<open>return false\<close>. A file
  shorter than footer and level together makes the seek to the footer fail, and the read with it.
\<close>

definition sst_load :: "string \<Rightarrow> bool \<Rightarrow> bytes \<Rightarrow> sstable option res" where
  "sst_load name cached file =
     (let n = length file in
      if n < FOOTER_SIZE \<or> n < FOOTER_SIZE + 4 then Inr None
      else
        let lv = of_le32 (take 4 (drop (n - 4) file));
            f = deserialize_footer (take FOOTER_SIZE (drop (n - 4 - FOOTER_SIZE) file))
        in if magic f \<noteq> SSTABLE_MAGIC_NUMBER then Inr None
           else
             case (if 0 < min_key_size f then fread_at file (unat (min_key_offset f)) (unat (min_key_size f)) else Some [],
                   if 0 < max_key_size f then fread_at file (unat (max_key_offset f)) (unat (max_key_size f)) else Some [],
                   fread_at file (unat (index_block_offset f)) (unat (index_block_size f))) of
               (Some mn, Some mx, Some idx) \<Rightarrow>
                 rbind (dec_index idx 0) (\<lambda>es.
                   case fread_at file (unat (bloom_filter_offset f)) (unat (bloom_filter_size f)) of
                     None \<Rightarrow> Inr None
                   | Some blm \<Rightarrow> rbind (deserializeBloom blm 0) (\<lambda>(bf, _).
                       Inr (Some \<lparr>filepath = name, has_cache = cached, sst_file = file, sst_index = es, sst_bloom = bf,
                         min_key = mn, max_key = mx, entry_count = footer_entry_count f, level = lv,
                         sequence_number = file_sequence name\<rparr>)))
             | _ \<Rightarrow> Inr None)"

text \<open>
  The constructor ignores the outcome of \<open>load\<close>: after a failed load the level and the sequence
  number of the object are uninitialised, and every caller reads them.
\<close>

definition sst_open :: "string \<Rightarrow> bool \<Rightarrow> bytes \<Rightarrow> sstable res" where
  "sst_open name cached file = rbind (sst_load name cached file) (\<lambda>t. case t of Some t \<Rightarrow> Inr t | None \<Rightarrow> Inl UB)"

definition sst_file_size :: "sstable \<Rightarrow> u64" where "sst_file_size t = word_of_nat (length (sst_file t))"

section \<open>Lookups\<close>

definition sst_may_contain :: "sstable \<Rightarrow> string \<Rightarrow> bool" where
  "sst_may_contain t key \<longleftrightarrow> min_key t \<le> key \<and> key \<le> max_key t \<and> may_contain (sst_bloom t) key"

text \<open>The binary search for the last block whose first key is not above the key.\<close>

function bsearch :: "index_entry list \<Rightarrow> string \<Rightarrow> nat \<Rightarrow> nat \<Rightarrow> nat" where
  "bsearch idx key left right =
     (if left < right then
        let mid = left + (right - left) div 2
        in if first_key (idx ! mid) \<le> key then bsearch idx key (mid + 1) right else bsearch idx key left mid
      else left)"
  by pat_completeness auto
termination
  by (relation "measure (\<lambda>(idx, key, left, right). right - left)") (auto simp: Let_def)

declare bsearch.simps [simp del]

definition find_block_index :: "sstable \<Rightarrow> string \<Rightarrow> nat" where
  "find_block_index t key =
     (if sst_index t = [] then 0
      else let l = bsearch (sst_index t) key 0 (length (sst_index t)) in if 0 < l then l - 1 else 0)"

type_synonym block = "(string \<times> evalue) list"

function parse_block :: "bytes \<Rightarrow> block res" where
  "parse_block bs =
     (if length bs < 4 then Inr []
      else
        let klen = unat (of_le32 (take 4 bs)); r1 = drop 4 bs
        in if length r1 < klen + 4 then Inr []
           else
             let vlen = unat (of_le32 (take 4 (drop klen r1))); r2 = drop (klen + 4) r1
             in if length r2 < vlen then Inr []
                else rbind (deserialize_evalue r2 0) (\<lambda>(v, _).
                       rbind (parse_block (drop vlen r2)) (\<lambda>es. Inr ((take klen r1, v) # es))))"
  by pat_completeness auto
termination
  by (relation "measure length") auto

declare parse_block.simps [simp del]

text \<open>Reading a block from the file; an index past the end or a short read gives no entries.\<close>

definition read_block_file :: "sstable \<Rightarrow> nat \<Rightarrow> block res" where
  "read_block_file t i =
     (if length (sst_index t) \<le> i then Inr []
      else case fread_at (sst_file t) (unat (block_offset (sst_index t ! i))) (unat (block_size (sst_index t ! i))) of
             None \<Rightarrow> Inr []
           | Some bs \<Rightarrow> parse_block bs)"

type_synonym block_cache = "(string, block) lru_cache"

definition cache_key :: "sstable \<Rightarrow> nat \<Rightarrow> string" where
  "cache_key t i = nat_to_string (unat (sequence_number t)) @ ''_'' @ nat_to_string i"

text \<open>
  \<open>read_data_block\<close>: tables opened by \<open>load_all\<close> share the block cache of the manager, tables
  created while running have none. A failed read is not cached.
\<close>

definition read_data_block :: "sstable \<Rightarrow> nat \<Rightarrow> block_cache \<Rightarrow> (block \<times> block_cache) res" where
  "read_data_block t i c =
     (if length (sst_index t) \<le> i then Inr ([], c)
      else case (if has_cache t then lru_get (cache_key t i) c else (None, c)) of
             (Some es, c') \<Rightarrow> Inr (es, c')
           | (None, c') \<Rightarrow>
               (case fread_at (sst_file t) (unat (block_offset (sst_index t ! i))) (unat (block_size (sst_index t ! i))) of
                  None \<Rightarrow> Inr ([], c')
                | Some bs \<Rightarrow> rbind (parse_block bs) (\<lambda>es.
                    rbind (if has_cache t then lru_put (cache_key t i) es c' else Inr c') (\<lambda>c''. Inr (es, c'')))))"

definition search_in_block :: "block \<Rightarrow> string \<Rightarrow> evalue option" where
  "search_in_block blk key = (case dropWhile (\<lambda>p. fst p < key) blk of
       [] \<Rightarrow> None
     | p # _ \<Rightarrow> if fst p = key then Some (snd p) else None)"

definition sst_get :: "sstable \<Rightarrow> string \<Rightarrow> block_cache \<Rightarrow> (evalue option \<times> block_cache) res" where
  "sst_get t key c =
     (if \<not> sst_may_contain t key then Inr (None, c)
      else rbind (read_data_block t (find_block_index t key) c) (\<lambda>(b, c'). Inr (search_in_block b key, c')))"

text \<open>The block loop of \<open>range\<close> and \<open>range_map\<close>; within a block it stops behind the end key.\<close>

definition block_range :: "string \<Rightarrow> string \<Rightarrow> block \<Rightarrow> block" where
  "block_range a b blk = filter (\<lambda>p. a \<le> fst p) (takeWhile (\<lambda>p. \<not> (b < fst p)) blk)"

fun range_loop :: "sstable \<Rightarrow> string \<Rightarrow> string \<Rightarrow> nat \<Rightarrow> nat list \<Rightarrow> block_cache \<Rightarrow> (block \<times> block_cache) res" where
  "range_loop t a b start [] c = Inr ([], c)"
| "range_loop t a b start (i # is) c =
     (if start < i \<and> b < first_key (sst_index t ! i) then Inr ([], c)
      else rbind (read_data_block t i c) (\<lambda>(blk, c1).
           rbind (range_loop t a b start is c1) (\<lambda>(rest, c2). Inr (block_range a b blk @ rest, c2))))"

definition sst_range :: "sstable \<Rightarrow> string \<Rightarrow> string \<Rightarrow> block_cache \<Rightarrow> (block \<times> block_cache) res" where
  "sst_range t a b c =
     (if max_key t < a \<or> b < min_key t then Inr ([], c)
      else let start = find_block_index t a in range_loop t a b start [start..<length (sst_index t)] c)"

definition sst_range_map :: "sstable \<Rightarrow> string \<Rightarrow> string \<Rightarrow> block_cache \<Rightarrow> (block \<times> block_cache) res" where
  "sst_range_map t a b c = rbind (sst_range t a b c) (\<lambda>(es, c'). Inr (alist_merge [] es, c'))"

text \<open>\<open>for_each\<close> with a callback that may stop the iteration, one block at a time.\<close>

fun for_each_until :: "(string \<Rightarrow> evalue \<Rightarrow> 's \<Rightarrow> bool \<times> 's) \<Rightarrow> block \<Rightarrow> 's \<Rightarrow> bool \<times> 's" where
  "for_each_until f [] s = (True, s)"
| "for_each_until f ((k, v) # es) s = (case f k v s of (go, s') \<Rightarrow> if go then for_each_until f es s' else (False, s'))"

fun for_each_blocks ::
  "(string \<Rightarrow> evalue \<Rightarrow> 's \<Rightarrow> bool \<times> 's) \<Rightarrow> sstable \<Rightarrow> nat list \<Rightarrow> 's \<Rightarrow> block_cache \<Rightarrow> ('s \<times> block_cache) res" where
  "for_each_blocks f t [] s c = Inr (s, c)"
| "for_each_blocks f t (i # is) s c =
     rbind (read_data_block t i c) (\<lambda>(b, c').
       case for_each_until f b s of (go, s') \<Rightarrow> if go then for_each_blocks f t is s' c' else Inr (s', c'))"

definition sst_for_each ::
  "(string \<Rightarrow> evalue \<Rightarrow> 's \<Rightarrow> bool \<times> 's) \<Rightarrow> sstable \<Rightarrow> 's \<Rightarrow> block_cache \<Rightarrow> ('s \<times> block_cache) res" where
  "sst_for_each f t s c = for_each_blocks f t [0..<length (sst_index t)] s c"

section \<open>The builder\<close>

record sst_builder =
  b_level :: u32
  b_block_size :: nat
  b_out :: bytes
  b_entry_count :: nat
  current_offset :: nat
  entries_in_block :: nat
  first_key_in_block :: string
  current_block :: bytes
  index_entries :: "index_entry list"
  b_bloom :: "bloom_filter option"
  b_min_key :: string
  b_max_key :: string
  finished :: bool
  aborted :: bool

definition builder_new :: "u32 \<Rightarrow> nat \<Rightarrow> sst_builder" where
  "builder_new lv bsize = \<lparr>b_level = lv, b_block_size = bsize, b_out = [], b_entry_count = 0, current_offset = 0,
     entries_in_block = 0, first_key_in_block = [], current_block = [], index_entries = [], b_bloom = None,
     b_min_key = [], b_max_key = [], finished = False, aborted = False\<rparr>"

definition serialize_entry :: "string \<Rightarrow> evalue \<Rightarrow> bytes" where
  "serialize_entry key v = (let value_data = ser_evalue v
     in le32 (word_of_nat (length key)) @ key @ le32 (word_of_nat (length value_data)) @ value_data)"

definition flush_block :: "sst_builder \<Rightarrow> sst_builder" where
  "flush_block b =
     (if current_block b = [] then b
      else b\<lparr>index_entries := index_entries b @ [\<lparr>first_key = first_key_in_block b,
               block_offset = word_of_nat (current_offset b), block_size = word_of_nat (length (current_block b))\<rparr>],
             b_out := b_out b @ current_block b,
             current_offset := current_offset b + length (current_block b),
             current_block := [], first_key_in_block := [], entries_in_block := 0\<rparr>)"

definition builder_add :: "string \<Rightarrow> evalue \<Rightarrow> sst_builder \<Rightarrow> sst_builder" where
  "builder_add key v b =
     (if finished b \<or> aborted b then b
      else
        let bf = (case b_bloom b of Some f \<Rightarrow> f | None \<Rightarrow> bloom_new 10000 (word_of_nat SSTABLE_BLOOM_BITS_PER_KEY));
            b1 = b\<lparr>b_bloom := Some (bloom_add key bf),
                   b_min_key := (if b_entry_count b = 0 then key else b_min_key b),
                   b_max_key := key,
                   first_key_in_block := (if entries_in_block b = 0 then key else first_key_in_block b),
                   current_block := current_block b @ serialize_entry key v,
                   entries_in_block := entries_in_block b + 1,
                   b_entry_count := b_entry_count b + 1\<rparr>
        in if b_block_size b \<le> length (current_block b1) then flush_block b1 else b1)"

definition write_footer :: "sst_builder \<Rightarrow> sst_builder" where
  "write_footer b =
     (let index_start = current_offset b;
          index_data = concat (map ser_index_entry (index_entries b));
          bloom_start = index_start + length index_data;
          bloom_data = (case b_bloom b of Some f \<Rightarrow> ser_bloom f | None \<Rightarrow> []);
          min_off = bloom_start + length bloom_data;
          max_off = min_off + length (b_min_key b);
          w = (\<lambda>n. word_of_nat n :: u64);
          footer = \<lparr>index_block_offset = w index_start, index_block_size = w (length index_data),
            bloom_filter_offset = w bloom_start, bloom_filter_size = w (length bloom_data),
            data_block_count = w (length (index_entries b)), footer_entry_count = w (b_entry_count b),
            min_key_offset = w min_off, min_key_size = w (length (b_min_key b)),
            max_key_offset = w max_off, max_key_size = w (length (b_max_key b)), magic = SSTABLE_MAGIC_NUMBER\<rparr>
      in b\<lparr>b_out := b_out b @ index_data @ bloom_data @ b_min_key b @ b_max_key b @ ser_footer footer @ le32 (b_level b),
           current_offset := max_off + length (b_max_key b) + FOOTER_SIZE + 4\<rparr>)"

definition builder_finish :: "sst_builder \<Rightarrow> bool \<times> sst_builder" where
  "builder_finish b =
     (if finished b \<or> aborted b then (False, b)
      else (True, (write_footer (flush_block b))\<lparr>finished := True\<rparr>))"

definition build_sstable :: "u32 \<Rightarrow> (string \<times> evalue) list \<Rightarrow> bytes" where
  "build_sstable lv es =
     b_out (snd (builder_finish (fold (\<lambda>(k, v). builder_add k v) es (builder_new lv SSTABLE_BLOCK_SIZE))))"

section \<open>Entries and blocks as bytes\<close>

definition entry_ok :: "string \<times> evalue \<Rightarrow> bool" where
  "entry_ok e \<longleftrightarrow> length (fst e) < 2 ^ 32 \<and> length (ser_evalue (snd e)) < 2 ^ 32 \<and> evalue_ok (snd e)"

definition entry_norm :: "string \<times> evalue \<Rightarrow> string \<times> evalue" where
  "entry_norm e = (fst e, evalue_norm (snd e))"

definition blk :: "block \<Rightarrow> bytes" where
  "blk es = concat (map (\<lambda>(k, v). serialize_entry k v) es)"

lemma blk_simps [simp]: "blk [] = []" "blk ((k, v) # es) = serialize_entry k v @ blk es" "blk (xs @ ys) = blk xs @ blk ys"
  by (simp_all add: blk_def)

lemma serialize_entry_nonempty [simp]: "serialize_entry k v \<noteq> []"
proof -
  have "length (serialize_entry k v) = 8 + length k + length (ser_evalue v)" by (simp add: serialize_entry_def Let_def)
  then show ?thesis by (metis add_is_0 list.size(3) zero_neq_numeral)
qed

lemma blk_Nil_iff [simp]: "blk es = [] \<longleftrightarrow> es = []"
  by (cases es) auto

lemma parse_entry:
  assumes "entry_ok (k, v)"
  shows "parse_block (serialize_entry k v @ bs) = rbind (parse_block bs) (\<lambda>es. Inr ((k, evalue_norm v) # es))"
proof -
  let ?kl = "le32 (word_of_nat (length k))" and ?vl = "le32 (word_of_nat (length (ser_evalue v)))"
  define x where "x = serialize_entry k v @ bs"
  define r1 where "r1 = k @ ?vl @ ser_evalue v @ bs"
  define r2 where "r2 = ser_evalue v @ bs"
  have e: "x = ?kl @ r1" by (simp add: x_def serialize_entry_def r1_def Let_def)
  have lk: "unat (word_of_nat (length k) :: u32) = length k"
    "unat (word_of_nat (length (ser_evalue v)) :: u32) = length (ser_evalue v)"
    using assms by (simp_all add: entry_ok_def unat_of_nat_lt)
  have d1: "take 4 x = ?kl" "drop 4 x = r1" "\<not> length x < 4" by (simp_all add: e)
  have d2: "take 4 (drop (length k) r1) = ?vl" "drop (length k + 4) r1 = r2" "take (length k) r1 = k"
    "\<not> length r1 < length k + 4" by (simp_all add: r1_def r2_def)
  have d3: "\<not> length r2 < length (ser_evalue v)" "drop (length (ser_evalue v)) r2 = bs" by (simp_all add: r2_def)
  have dec: "deserialize_evalue r2 0 = Inr (evalue_norm v, length (ser_evalue v))"
    using ev.dec_norm [of v "[]" bs] assms by (simp add: entry_ok_def r2_def)
  have "parse_block x = rbind (parse_block bs) (\<lambda>es. Inr ((k, evalue_norm v) # es))"
    by (subst parse_block.simps) (simp only: d1 d2 d3 dec lk of_le32_le32 Let_def if_False rbind_simps prod.case)
  then show ?thesis by (simp add: x_def)
qed

lemma parse_blk: "list_all entry_ok es \<Longrightarrow> parse_block (blk es) = Inr (map entry_norm es)"
proof (induction es)
  case Nil
  then show ?case by (subst parse_block.simps) simp
next
  case (Cons e es)
  obtain k v where "e = (k, v)" by (rule prod.exhaust)
  with Cons show ?case by (simp add: parse_entry entry_norm_def)
qed

interpretation ie: codec ser_index_entry deserialize_index_entry "\<lambda>e. length (first_key e) < 2 ^ 32"
proof
  fix e :: index_entry and pre post
  assume ok: "length (first_key e) < 2 ^ 32"
  let ?l = "le32 (word_of_nat (length (first_key e)))" and ?k = "first_key e"
  let ?o = "le64 (block_offset e)" and ?s = "le64 (block_size e)"
  let ?data = "pre @ ser_index_entry e @ post"
  have d: "?data = pre @ ?l @ ?k @ ?o @ ?s @ post" by (simp add: ser_index_entry_def)
  have 1: "read_bytes ?data (length pre) 4 = Inr ?l"
    using read_bytes_append [of pre "length pre" ?l 4] d by simp
  have 2: "read_bytes ?data (length pre + 4) (length ?k) = Inr ?k"
    using read_bytes_append [of "pre @ ?l" "length pre + 4" ?k "length ?k"] d by simp
  have 3: "read_bytes ?data (length pre + 4 + length ?k) 8 = Inr ?o"
    using read_bytes_append [of "pre @ ?l @ ?k" "length pre + 4 + length ?k" ?o 8] d by simp
  have 4: "read_bytes ?data (length pre + 12 + length ?k) 8 = Inr ?s"
    using read_bytes_append [of "pre @ ?l @ ?k @ ?o" "length pre + 12 + length ?k" ?s 8] d by simp
  have len: "unat (word_of_nat (length ?k) :: u32) = length ?k" using ok by (simp add: unat_of_nat_lt)
  show "deserialize_index_entry ?data (length pre) = Inr (e, length pre + length (ser_index_entry e))"
    using 1 2 3 4 len by (simp add: deserialize_index_entry_def Let_def) (simp add: ser_index_entry_def)
qed

lemma dec_index_enc:
  "list_all (\<lambda>e. length (first_key e) < 2 ^ 32) es \<Longrightarrow>
     dec_index (pre @ concat (map ser_index_entry es)) (length pre) = Inr es"
proof (induction es arbitrary: pre)
  case Nil
  then show ?case by (subst dec_index.simps) simp
next
  case (Cons e es)
  let ?data = "pre @ concat (map ser_index_entry (e # es))"
  have "deserialize_index_entry ?data (length pre) = Inr (e, length (pre @ ser_index_entry e))"
    using Cons.prems by (subst ie.dec_enc_at [of e _ pre "concat (map ser_index_entry es)"]) auto
  moreover have "dec_index ?data (length (pre @ ser_index_entry e)) = Inr es"
    using Cons.IH [of "pre @ ser_index_entry e"] Cons.prems by simp
  moreover have "length pre < length ?data" by (simp add: ser_index_entry_def)
  ultimately show ?case by (subst dec_index.simps) simp
qed

lemma length_ser_footer [simp]: "length (ser_footer f) = FOOTER_SIZE"
  by (simp add: ser_footer_def FOOTER_SIZE_def)

lemma footer_roundtrip: "deserialize_footer (ser_footer f) = f"
  by (simp add: deserialize_footer_def ser_footer_def Let_def)

section \<open>What the builder writes\<close>

fun mk_index :: "nat \<Rightarrow> block list \<Rightarrow> index_entry list" where
  "mk_index off [] = []"
| "mk_index off (b # bs) =
     \<lparr>first_key = fst (hd b), block_offset = word_of_nat off, block_size = word_of_nat (length (blk b))\<rparr>
       # mk_index (off + length (blk b)) bs"

lemma mk_index_snoc:
  "mk_index off (bs @ [b]) = mk_index off bs @
     [\<lparr>first_key = fst (hd b), block_offset = word_of_nat (off + length (blk (concat bs))), block_size = word_of_nat (length (blk b))\<rparr>]"
  by (induction bs arbitrary: off) (simp_all add: add.assoc)

definition builder_bloom :: "block \<Rightarrow> bloom_filter" where
  "builder_bloom es = fold bloom_add (map fst es) (bloom_new 10000 (word_of_nat SSTABLE_BLOOM_BITS_PER_KEY))"

definition builder_inv :: "u32 \<Rightarrow> block \<Rightarrow> block list \<Rightarrow> block \<Rightarrow> sst_builder \<Rightarrow> bool" where
  "builder_inv lv es bss cur b \<longleftrightarrow> es = concat bss @ cur \<and>
     [] \<notin> set bss \<and> b_out b = blk (concat bss) \<and> current_offset b = length (blk (concat bss)) \<and>
     index_entries b = mk_index 0 bss \<and> current_block b = blk cur \<and> entries_in_block b = length cur \<and>
     (cur \<noteq> [] \<longrightarrow> first_key_in_block b = fst (hd cur)) \<and> b_entry_count b = length es \<and>
     b_bloom b = (if es = [] then None else Some (builder_bloom es)) \<and>
     (es \<noteq> [] \<longrightarrow> b_min_key b = fst (hd es) \<and> b_max_key b = fst (last es)) \<and>
     \<not> finished b \<and> \<not> aborted b \<and> b_level b = lv"

lemma builder_inv_new: "builder_inv lv [] [] [] (builder_new lv n)"
  by (simp add: builder_inv_def builder_new_def)

lemma builder_inv_flush:
  assumes "builder_inv lv es bss cur b"
  shows "builder_inv lv es (if cur = [] then bss else bss @ [cur]) [] (flush_block b)"
proof (cases "cur = []")
  case True
  then show ?thesis using assms by (simp add: builder_inv_def flush_block_def)
next
  case False
  then show ?thesis using assms by (simp add: builder_inv_def flush_block_def mk_index_snoc)
qed

lemma builder_inv_add:
  assumes inv: "builder_inv lv es bss cur b"
  shows "\<exists>bss' cur'. builder_inv lv (es @ [(k, v)]) bss' cur' (builder_add k v b)"
proof -
  let ?bf = "case b_bloom b of Some f \<Rightarrow> f | None \<Rightarrow> bloom_new 10000 (word_of_nat SSTABLE_BLOOM_BITS_PER_KEY)"
  let ?b1 = "b\<lparr>b_bloom := Some (bloom_add k ?bf), b_min_key := (if b_entry_count b = 0 then k else b_min_key b), b_max_key := k,
    first_key_in_block := (if entries_in_block b = 0 then k else first_key_in_block b),
    current_block := current_block b @ serialize_entry k v, entries_in_block := entries_in_block b + 1,
    b_entry_count := b_entry_count b + 1\<rparr>"
  have bl: "b_bloom b = (if es = [] then None else Some (builder_bloom es))" using inv by (simp add: builder_inv_def)
  have bloom: "bloom_add k ?bf = builder_bloom (es @ [(k, v)])"
    by (cases "es = []") (simp_all add: bl builder_bloom_def)
  have c: "b_entry_count b = length es" "es \<noteq> [] \<longrightarrow> b_min_key b = fst (hd es)" "entries_in_block b = length cur"
    "cur \<noteq> [] \<longrightarrow> first_key_in_block b = fst (hd cur)" using inv unfolding builder_inv_def by blast+
  have mn: "(if b_entry_count b = 0 then k else b_min_key b) = fst (hd (es @ [(k, v)]))" using c by (cases es) simp_all
  have fk: "(if entries_in_block b = 0 then k else first_key_in_block b) = fst (hd (cur @ [(k, v)]))"
    using c by (cases cur) simp_all
  have b1: "builder_inv lv (es @ [(k, v)]) bss (cur @ [(k, v)]) ?b1"
    using inv unfolding builder_inv_def bloom mn fk by simp
  have add: "builder_add k v b = (if b_block_size b \<le> length (current_block ?b1) then flush_block ?b1 else ?b1)"
    using inv by (simp add: builder_add_def builder_inv_def Let_def)
  show ?thesis
  proof (cases "b_block_size b \<le> length (current_block ?b1)")
    case True
    then show ?thesis unfolding add using builder_inv_flush [OF b1] by (simp only: if_True) blast
  next
    case False
    then show ?thesis unfolding add using b1 by (simp only: if_False) blast
  qed
qed

lemma builder_inv_fold:
  "builder_inv lv es bss cur b \<Longrightarrow>
     \<exists>bss' cur'. builder_inv lv (es @ es') bss' cur' (fold (\<lambda>(k, v). builder_add k v) es' b)"
proof (induction es' arbitrary: es bss cur b)
  case Nil
  then show ?case by auto
next
  case (Cons e es')
  obtain k v where e: "e = (k, v)" by (rule prod.exhaust)
  obtain bss1 cur1 where "builder_inv lv (es @ [(k, v)]) bss1 cur1 (builder_add k v b)"
    using builder_inv_add [OF Cons.prems] by blast
  then show ?case using Cons.IH by (fastforce simp: e)
qed

text \<open>The file of a non-empty table: the blocks of some partition of the entries, then the metadata.\<close>

definition sst_tail :: "u32 \<Rightarrow> block \<Rightarrow> block list \<Rightarrow> sst_footer \<times> bytes" where
  "sst_tail lv es bss =
     (let w = (\<lambda>n. word_of_nat n :: u64); n0 = length (blk es); idx = concat (map ser_index_entry (mk_index 0 bss));
          bl = ser_bloom (builder_bloom es); mn = fst (hd es); mx = fst (last es);
          f = \<lparr>index_block_offset = w n0, index_block_size = w (length idx),
            bloom_filter_offset = w (n0 + length idx), bloom_filter_size = w (length bl),
            data_block_count = w (length (mk_index 0 bss)), footer_entry_count = w (length es),
            min_key_offset = w (n0 + length idx + length bl), min_key_size = w (length mn),
            max_key_offset = w (n0 + length idx + length bl + length mn), max_key_size = w (length mx),
            magic = SSTABLE_MAGIC_NUMBER\<rparr>
      in (f, idx @ bl @ mn @ mx @ ser_footer f @ le32 lv))"

lemma write_footer_layout:
  assumes "builder_inv lv es bss [] b" "es \<noteq> []"
  shows "b_out (write_footer b) = blk es @ snd (sst_tail lv es bss)"
  using assms by (simp add: builder_inv_def write_footer_def sst_tail_def Let_def)

lemma build_sstable_layout:
  assumes "es \<noteq> []"
  shows "\<exists>bss. concat bss = es \<and> [] \<notin> set bss \<and> build_sstable lv es = blk es @ snd (sst_tail lv es bss)"
proof -
  let ?b = "fold (\<lambda>(k, v). builder_add k v) es (builder_new lv SSTABLE_BLOCK_SIZE)"
  obtain bss0 cur0 where "builder_inv lv es bss0 cur0 ?b"
    using builder_inv_fold [OF builder_inv_new, of lv es SSTABLE_BLOCK_SIZE] by auto
  from builder_inv_flush [OF this] obtain bss where inv: "builder_inv lv es bss [] (flush_block ?b)" by blast
  have b: "\<not> finished ?b" "\<not> aborted ?b"
    using \<open>builder_inv lv es bss0 cur0 ?b\<close> unfolding builder_inv_def by blast+
  have "build_sstable lv es = b_out (write_footer (flush_block ?b))"
    using b by (simp add: build_sstable_def builder_finish_def)
  also have "\<dots> = blk es @ snd (sst_tail lv es bss)"
    by (rule write_footer_layout [OF inv assms])
  finally have "build_sstable lv es = blk es @ snd (sst_tail lv es bss)" .
  moreover have "concat bss = es" "[] \<notin> set bss" using inv unfolding builder_inv_def by simp_all
  ultimately show ?thesis by blast
qed

section \<open>Loading what was built\<close>

lemma fread_at_append: "off = length pre \<Longrightarrow> n = length x \<Longrightarrow> fread_at (pre @ x @ post) off n = Some x"
  by (simp add: fread_at_def Let_def)

lemma fread_key: "off = length pre \<Longrightarrow> w = word_of_nat (length x) \<Longrightarrow> unat w = length x \<Longrightarrow>
    (if 0 < (w :: u64) then fread_at (pre @ x @ post) off (unat w) else Some []) = Some x"
  by (cases "x = []") (auto simp: fread_at_append word_gt_0 unat_eq_0)

lemma bloom_fold_shape: "length (bits (fold bloom_add ks f)) = length (bits f)" "num_hash_functions (fold bloom_add ks f) = num_hash_functions f"
  by (induction ks arbitrary: f) auto

lemma builder_bloom_ok: "bloom_ok (builder_bloom es)"
proof -
  have "((10000 :: u64) * 10 + 7) div 8 = 12500" by code_simp
  then have "length (bits (builder_bloom es)) = 12500"
    by (simp add: builder_bloom_def bloom_fold_shape bloom_new_def SSTABLE_BLOOM_BITS_PER_KEY_def Let_def)
  moreover have "num_hash_functions (builder_bloom es) \<le> 30"
    by (simp add: builder_bloom_def bloom_fold_shape bloom_new_def Let_def)
  ultimately show ?thesis by (simp add: bloom_ok_def)
qed

lemma first_keys_mk_index: "map first_key (mk_index off bss) = map (\<lambda>b. fst (hd b)) bss"
  by (induction bss arbitrary: off) auto

lemma length_mk_index [simp]: "length (mk_index off bss) = length bss"
  by (induction bss arbitrary: off) auto

lemma mk_index_nth:
  "i < length bss \<Longrightarrow> mk_index off bss ! i = \<lparr>first_key = fst (hd (bss ! i)),
     block_offset = word_of_nat (off + length (blk (concat (take i bss)))), block_size = word_of_nat (length (blk (bss ! i)))\<rparr>"
proof (induction bss arbitrary: off i)
  case (Cons b bss)
  then show ?case by (cases i) (simp_all add: add.assoc)
qed simp

definition sst_of :: "string \<Rightarrow> bool \<Rightarrow> u32 \<Rightarrow> block \<Rightarrow> block list \<Rightarrow> sstable" where
  "sst_of name cached lv es bss = \<lparr>filepath = name, has_cache = cached, sst_file = blk es @ snd (sst_tail lv es bss),
     sst_index = mk_index 0 bss, sst_bloom = builder_bloom es, min_key = fst (hd es), max_key = fst (last es),
     entry_count = word_of_nat (length es), level = lv, sequence_number = file_sequence name\<rparr>"

lemma load_built:
  assumes ne: "es \<noteq> []" and bss: "concat bss = es" "[] \<notin> set bss" and ok: "list_all entry_ok es"
    and small: "length (blk es @ snd (sst_tail lv es bss)) < 2 ^ 64"
  shows "sst_load name cached (blk es @ snd (sst_tail lv es bss)) = Inr (Some (sst_of name cached lv es bss))"
proof -
  define d where "d = blk es"
  define idx where "idx = concat (map ser_index_entry (mk_index 0 bss))"
  define bl where "bl = ser_bloom (builder_bloom es)"
  define mn where "mn = fst (hd es)"
  define mx where "mx = fst (last es)"
  define f where "f = fst (sst_tail lv es bss)"
  define F where "F = d @ idx @ bl @ mn @ mx @ ser_footer f @ le32 lv"
  have fl: "blk es @ snd (sst_tail lv es bss) = F"
    by (simp add: F_def f_def sst_tail_def Let_def d_def idx_def bl_def mn_def mx_def)
  have len: "length F = length d + length idx + length bl + length mn + length mx + FOOTER_SIZE + 4"
    by (simp add: F_def)
  have sm: "length F < 2 ^ 64" using small fl by simp
  have U: "unat (word_of_nat n :: u64) = n" if "n \<le> length F" for n
    using that sm by (intro unat_of_nat_lt) simp
  have fields: "unat (index_block_offset f) = length d" "unat (index_block_size f) = length idx"
    "unat (bloom_filter_offset f) = length (d @ idx)" "unat (bloom_filter_size f) = length bl"
    "unat (min_key_offset f) = length (d @ idx @ bl)" "unat (max_key_offset f) = length (d @ idx @ bl @ mn)"
    using len by (simp_all add: f_def sst_tail_def Let_def d_def [symmetric] idx_def [symmetric] bl_def [symmetric]
        mn_def [symmetric] U flip: of_nat_add)
  have sizes: "min_key_size f = word_of_nat (length mn)" "max_key_size f = word_of_nat (length mx)"
    "magic f = SSTABLE_MAGIC_NUMBER" "footer_entry_count f = word_of_nat (length es)"
    by (simp_all add: f_def sst_tail_def Let_def mn_def mx_def)
  have lvl: "of_le32 (take 4 (drop (length F - 4) F)) = lv"
  proof -
    have "F = (d @ idx @ bl @ mn @ mx @ ser_footer f) @ le32 lv" by (simp add: F_def)
    moreover have "length F - 4 = length (d @ idx @ bl @ mn @ mx @ ser_footer f)" by (simp add: F_def)
    ultimately have "drop (length F - 4) F = le32 lv" by (metis append_eq_conv_conj)
    then show ?thesis by simp
  qed
  have foot: "deserialize_footer (take FOOTER_SIZE (drop (length F - 4 - FOOTER_SIZE) F)) = f"
  proof -
    have "F = (d @ idx @ bl @ mn @ mx) @ ser_footer f @ le32 lv" by (simp add: F_def)
    moreover have "length F - 4 - FOOTER_SIZE = length (d @ idx @ bl @ mn @ mx)" by (simp add: F_def)
    ultimately have "take FOOTER_SIZE (drop (length F - 4 - FOOTER_SIZE) F) = ser_footer f"
      by (metis append_eq_conv_conj length_ser_footer)
    then show ?thesis by (simp add: footer_roundtrip)
  qed
  have un: "unat (min_key_size f) = length mn" "unat (max_key_size f) = length mx"
    using sizes U [of "length mn"] U [of "length mx"] len by simp_all
  have F1: "F = (d @ idx @ bl) @ mn @ mx @ ser_footer f @ le32 lv" by (simp add: F_def)
  have F2: "F = (d @ idx @ bl @ mn) @ mx @ ser_footer f @ le32 lv" by (simp add: F_def)
  have r1: "(if 0 < min_key_size f then fread_at F (unat (min_key_offset f)) (unat (min_key_size f)) else Some []) = Some mn"
    unfolding F1 by (rule fread_key [OF fields(5) sizes(1) un(1)])
  have r2: "(if 0 < max_key_size f then fread_at F (unat (max_key_offset f)) (unat (max_key_size f)) else Some []) = Some mx"
    unfolding F2 by (rule fread_key [OF fields(6) sizes(2) un(2)])
  have r3: "fread_at F (unat (index_block_offset f)) (unat (index_block_size f)) = Some idx"
    unfolding F_def using fields by (intro fread_at_append) simp_all
  have r4: "fread_at F (unat (bloom_filter_offset f)) (unat (bloom_filter_size f)) = Some bl"
    using fread_at_append [of _ "d @ idx" _ bl] fields by (simp add: F_def)
  have "list_all (\<lambda>e. length (first_key e) < 2 ^ 32) (mk_index 0 bss)"
  proof -
    have "length (fst (hd b)) < 2 ^ 32" if "b \<in> set bss" for b
    proof -
      have "b \<noteq> []" using that bss(2) by blast
      then have "hd b \<in> set b" by (rule hd_in_set)
      then have "hd b \<in> set es" unfolding bss(1) [symmetric] set_concat using that by blast
      then show ?thesis using ok by (auto simp: list_all_iff entry_ok_def)
    qed
    then have "\<forall>k \<in> set (map first_key (mk_index 0 bss)). length k < 2 ^ 32" by (auto simp: first_keys_mk_index)
    then show ?thesis by (simp add: list_all_iff)
  qed
  then have di: "dec_index idx 0 = Inr (mk_index 0 bss)" using dec_index_enc [of "mk_index 0 bss" "[]"] by (simp add: idx_def)
  have db: "deserializeBloom bl 0 = Inr (builder_bloom es, 8)"
    using deserializeBloom_at [OF builder_bloom_ok, of bl "[]" es "[]" 0] by (simp add: bl_def)
  have "sst_load name cached F = Inr (Some \<lparr>filepath = name, has_cache = cached, sst_file = F, sst_index = mk_index 0 bss, sst_bloom = builder_bloom es, min_key = mn,
      max_key = mx, entry_count = word_of_nat (length es), level = lv,
      sequence_number = file_sequence name\<rparr>)"
  proof -
    have c: "(length F < FOOTER_SIZE \<or> length F < FOOTER_SIZE + 4) = False" using len by simp
    show ?thesis
      unfolding sst_load_def Let_def c if_False lvl foot r1 r2 r3 r4 sizes(3,4)
      by (simp add: di db)
  qed
  then show ?thesis by (simp add: fl sst_of_def mn_def mx_def)
qed

section \<open>Lookups in a built table\<close>

text \<open>The binary search: behind the result the first keys are above the key, before it they are not.\<close>

definition partitions :: "index_entry list \<Rightarrow> string \<Rightarrow> nat \<Rightarrow> bool" where
  "partitions idx key p \<longleftrightarrow> p \<le> length idx \<and> (\<forall>j < p. first_key (idx ! j) \<le> key) \<and>
     (\<forall>j < length idx. p \<le> j \<longrightarrow> key < first_key (idx ! j))"

lemma bsearch_spec:
  "sorted (map first_key idx) \<Longrightarrow> left \<le> right \<Longrightarrow> right \<le> length idx \<Longrightarrow>
     \<forall>j < left. first_key (idx ! j) \<le> key \<Longrightarrow> \<forall>j < length idx. right \<le> j \<longrightarrow> key < first_key (idx ! j) \<Longrightarrow>
     partitions idx key (bsearch idx key left right)"
proof (induction idx key left right rule: bsearch.induct)
  case (1 idx key left right)
  have mono: "first_key (idx ! i) \<le> first_key (idx ! j)" if "i \<le> j" "j < length idx" for i j
    using sorted_nth_mono [OF "1.prems"(1), of i j] that by simp
  show ?case
  proof (cases "left < right")
    case True
    define mid where "mid = left + (right - left) div 2"
    have mid: "left \<le> mid" "mid < right" "mid < length idx" using True "1.prems" by (auto simp: mid_def)
    show ?thesis
    proof (cases "first_key (idx ! mid) \<le> key")
      case le: True
      have "\<forall>j < mid + 1. first_key (idx ! j) \<le> key"
      proof (intro allI impI)
        fix j assume "j < mid + 1"
        then have "first_key (idx ! j) \<le> first_key (idx ! mid)" using mono mid by simp
        then show "first_key (idx ! j) \<le> key" using le by (rule order.trans)
      qed
      then have "partitions idx key (bsearch idx key (mid + 1) right)"
        using "1.IH"(1) [OF True mid_def le] "1.prems" mid by simp
      then show ?thesis using True le by (subst bsearch.simps) (simp add: mid_def [symmetric])
    next
      case gt: False
      have "key < first_key (idx ! j)" if j: "j < length idx" "mid \<le> j" for j
      proof -
        have "first_key (idx ! mid) \<le> first_key (idx ! j)" using mono [of mid j] j by simp
        then show ?thesis using gt by (meson not_le order.strict_trans2)
      qed
      then have "partitions idx key (bsearch idx key left mid)"
        using "1.IH"(2) [OF True mid_def gt] "1.prems" mid by simp
      then show ?thesis using True gt by (subst bsearch.simps) (simp add: mid_def [symmetric])
    qed
  next
    case False
    then show ?thesis using "1.prems" by (subst bsearch.simps) (simp add: partitions_def)
  qed
qed

lemma ksorted_blocks:
  assumes "ksorted (concat bss)" "i < j" "j < length bss" "k \<in> fst ` set (bss ! i)" "k' \<in> fst ` set (bss ! j)"
  shows "k < k'"
proof -
  have e: "bss = take j bss @ bss ! j # drop (Suc j) bss" using assms(3) by (rule id_take_nth_drop)
  have "bss ! i \<in> set (take j bss)" using assms(2,3) by (metis in_set_conv_nth length_take min.absorb4 nth_take)
  then have "k \<in> fst ` set (concat (take j bss))" using assms(4) by auto
  moreover have "ksorted (concat (take j bss) @ bss ! j @ concat (drop (Suc j) bss))"
    using assms(1) by (subst (asm) e) simp
  ultimately show ?thesis using assms(5) unfolding ksorted_append set_append image_Un by blast
qed

lemma ksorted_block: "ksorted (concat bss) \<Longrightarrow> b \<in> set bss \<Longrightarrow> ksorted b"
  by (induction bss) (auto simp: ksorted_append)

lemma ksorted_hd_le: "ksorted b \<Longrightarrow> k \<in> fst ` set b \<Longrightarrow> fst (hd b) \<le> k"
  by (cases b) (fastforce intro: less_imp_le)+

lemma sorted_first_keys:
  assumes "ksorted (concat bss)" "[] \<notin> set bss"
  shows "sorted (map first_key (mk_index off bss))"
proof -
  have "fst (hd (bss ! i)) \<le> fst (hd (bss ! j))" if ij: "i < j" "j < length bss" for i j
  proof -
    have "bss ! i \<noteq> []" "bss ! j \<noteq> []" using ij assms(2) by (metis nth_mem order.strict_trans)+
    then have "fst (hd (bss ! i)) \<in> fst ` set (bss ! i)" "fst (hd (bss ! j)) \<in> fst ` set (bss ! j)" by simp_all
    from ksorted_blocks [OF assms(1) ij this] show ?thesis by simp
  qed
  then show ?thesis unfolding first_keys_mk_index sorted_wrt_iff_nth_less by simp
qed

text \<open>The block the search settles on is the only one that can hold the key.\<close>

lemma find_block_index_holds:
  assumes srt: "ksorted (concat bss)" and ne: "[] \<notin> set bss" and t: "sst_index t = mk_index 0 bss"
    and j: "j < length bss" and k: "k \<in> fst ` set (bss ! j)"
  shows "find_block_index t k = j"
proof -
  let ?p = "bsearch (mk_index 0 bss) k 0 (length bss)"
  have p: "partitions (mk_index 0 bss) k ?p"
    by (rule bsearch_spec [OF sorted_first_keys [OF srt ne]]) simp_all
  have fk: "first_key (mk_index 0 bss ! i) = fst (hd (bss ! i))" if "i < length bss" for i
    using that by (simp add: mk_index_nth)
  have "fst (hd (bss ! j)) \<le> k" using ksorted_hd_le [OF ksorted_block [OF srt] k] j by simp
  then have "\<not> ?p \<le> j" using p j fk [OF j] unfolding partitions_def by (metis leD length_mk_index)
  moreover have "\<not> Suc j < ?p"
  proof
    assume a: "Suc j < ?p"
    then have l: "Suc j < length bss" using p by (simp add: partitions_def)
    then have "bss ! Suc j \<noteq> []" using ne by (metis nth_mem)
    then have "fst (hd (bss ! Suc j)) \<in> fst ` set (bss ! Suc j)" by simp
    from ksorted_blocks [OF srt lessI l k this] have "k < first_key (mk_index 0 bss ! Suc j)" using fk [OF l] by simp
    then show False using p a unfolding partitions_def by (meson leD)
  qed
  ultimately have "?p = Suc j" by simp
  moreover have "mk_index 0 bss \<noteq> []" using j by (metis length_mk_index list.size(3) not_less_zero)
  ultimately show ?thesis by (simp add: find_block_index_def t)
qed

lemma find_block_index_bound: 
  assumes "sst_index t \<noteq> []" "sorted (map first_key (sst_index t))"
  shows "find_block_index t k < length (sst_index t)"
proof -
  have "bsearch (sst_index t) k 0 (length (sst_index t)) \<le> length (sst_index t)"
    using bsearch_spec [OF assms(2), of 0 "length (sst_index t)" k] by (simp add: partitions_def)
  then show ?thesis using assms(1) by (auto simp: find_block_index_def Let_def)
qed

lemma search_in_block_map_of: "ksorted b \<Longrightarrow> search_in_block b k = map_of b k"
proof (induction b)
  case (Cons e b)
  obtain k' v where e: "e = (k', v)" by (rule prod.exhaust)
  have "map_of b k = None" if "\<not> k' < k"
    using Cons.prems that by (intro map_of_below) (auto simp: e)
  then show ?case using Cons by (auto simp: e search_in_block_def)
qed (simp add: search_in_block_def)

lemma sst_of_sel [simp]:
  "sst_index (sst_of name cached lv es bss) = mk_index 0 bss" "sst_bloom (sst_of name cached lv es bss) = builder_bloom es"
  "min_key (sst_of name cached lv es bss) = fst (hd es)" "max_key (sst_of name cached lv es bss) = fst (last es)"
  by (simp_all add: sst_of_def)

lemma read_block_built:
  assumes i: "i < length bss" and bss: "concat bss = es" and ok: "list_all entry_ok es"
    and small: "length (blk es) < 2 ^ 64"
  shows "read_block_file (sst_of name cached lv es bss) i = Inr (map entry_norm (bss ! i))"
proof -
  have e: "bss = take i bss @ bss ! i # drop (Suc i) bss" using i by (rule id_take_nth_drop)
  have es: "es = concat (take i bss) @ bss ! i @ concat (drop (Suc i) bss)" unfolding bss [symmetric] by (subst e) simp
  have d: "blk es = blk (concat (take i bss)) @ blk (bss ! i) @ blk (concat (drop (Suc i) bss))" unfolding es by simp
  have len: "length (blk es) = length (blk (concat (take i bss))) + length (blk (bss ! i)) + length (blk (concat (drop (Suc i) bss)))"
    unfolding d by simp
  then have u: "unat (word_of_nat (length (blk (concat (take i bss)))) :: u64) = length (blk (concat (take i bss)))"
    "unat (word_of_nat (length (blk (bss ! i))) :: u64) = length (blk (bss ! i))"
    using small by (simp_all add: unat_of_nat_lt)
  have "fread_at (sst_file (sst_of name cached lv es bss)) (length (blk (concat (take i bss)))) (length (blk (bss ! i))) = Some (blk (bss ! i))"
    unfolding sst_of_def sstable.select_convs d append_assoc by (rule fread_at_append) simp_all
  moreover have "list_all entry_ok (bss ! i)" using ok unfolding es by simp
  ultimately show ?thesis using i u by (simp add: read_block_file_def mk_index_nth parse_blk)
qed

lemma map_of_entry_norm: "map_of (map entry_norm es) k = map_option evalue_norm (map_of es k)"
  by (induction es) (auto simp: entry_norm_def)

lemma fst_entry_norm [simp]: "fst (entry_norm e) = fst e"
  by (simp add: entry_norm_def)

lemma ksorted_entry_norm [simp]: "ksorted (map entry_norm es) \<longleftrightarrow> ksorted es"
  by (simp add: ksorted_def comp_def)

lemma built_may_contain:
  assumes "ksorted es" "k \<in> fst ` set es"
  shows "sst_may_contain (sst_of name cached lv es bss) k"
proof -
  have "es \<noteq> []" using assms(2) by auto
  have "k \<le> fst (last es)"
  proof -
    have e: "es = butlast es @ [last es]" using \<open>es \<noteq> []\<close> by simp
    have "k \<in> fst ` set (butlast es @ [last es])" using assms(2) e by metis
    moreover have "ksorted (butlast es @ [last es])" using assms(1) e by metis
    ultimately show ?thesis unfolding ksorted_append by (auto intro: less_imp_le)
  qed
  moreover have "fst (hd es) \<le> k" by (rule ksorted_hd_le [OF assms])
  moreover have "may_contain (builder_bloom es) k"
    using assms(2) bloom.no_false_negative [of k "map fst es"] by (simp add: builder_bloom_def)
  ultimately show ?thesis by (simp add: sst_may_contain_def)
qed

section \<open>Reading through the block cache\<close>

lemma digits_no_underscore: "CHR ''_'' \<notin> set (nat_to_string n)"
proof
  assume "CHR ''_'' \<in> set (nat_to_string n)"
  then have "isdigit (CHR ''_'')" by (rule nat_to_string_digits)
  then show False by (simp add: isdigit_def)
qed

lemma nat_to_string_inj: "nat_to_string n = nat_to_string m \<Longrightarrow> n = m"
  by (metis digits_val_to_string)

lemma cache_key_inj:
  assumes "cache_key t i = cache_key t' j"
  shows "sequence_number t = sequence_number t'" "i = j"
proof -
  have p: "takeWhile (\<lambda>c. c \<noteq> CHR ''_'') (cache_key t i) = nat_to_string (unat (sequence_number t))"
    "dropWhile (\<lambda>c. c \<noteq> CHR ''_'') (cache_key t i) = ''_'' @ nat_to_string i" for t i
    using digits_no_underscore unfolding cache_key_def
    by (subst takeWhile_append2 dropWhile_append2, metis, simp)+
  show "sequence_number t = sequence_number t'" using p(1) [of t i] p(1) [of t' j] assms nat_to_string_inj by (metis word_unat_eq_iff)
  show "i = j" using p(2) [of t i] p(2) [of t' j] assms nat_to_string_inj by simp
qed

text \<open>
  Blocks are cached under sequence number and block number, so a cache is coherent with a set of
  tables whose sequence numbers differ.
\<close>

definition block_of :: "sstable set \<Rightarrow> string \<Rightarrow> block \<Rightarrow> bool" where
  "block_of T k b \<longleftrightarrow> (\<forall>t \<in> T. has_cache t \<longrightarrow> (\<forall>i < length (sst_index t). cache_key t i = k \<longrightarrow> read_block_file t i = Inr b))"

definition cache_ok :: "sstable set \<Rightarrow> block_cache \<Rightarrow> bool" where
  "cache_ok T c \<longleftrightarrow> inj_on sequence_number {t \<in> T. has_cache t} \<and> lru.coherent (block_of T) c"

lemma block_of_self:
  assumes "inj_on sequence_number {t \<in> T. has_cache t}" "t \<in> T" "has_cache t" "read_block_file t i = Inr b"
  shows "block_of T (cache_key t i) b"
  unfolding block_of_def
proof (intro ballI impI allI)
  fix t' j assume t': "t' \<in> T" "has_cache t'" "cache_key t' j = cache_key t i"
  then have "t' = t" "j = i" using cache_key_inj [OF t'(3)] assms(1-3) by (auto dest: inj_onD)
  then show "read_block_file t' j = Inr b" using assms(4) by simp
qed

lemma read_data_block_ok:
  assumes c: "cache_ok T c" and t: "t \<in> T" and b: "read_block_file t i = Inr b"
  shows "\<exists>c'. cache_ok T c' \<and> read_data_block t i c = Inr (b, c')"
proof -
  have inj: "inj_on sequence_number {t \<in> T. has_cache t}" and coh: "lru.coherent (block_of T) c"
    using c by (simp_all add: cache_ok_def)
  consider (short) "length (sst_index t) \<le> i" | (plain) "i < length (sst_index t)" "\<not> has_cache t"
    | (hit) es where "i < length (sst_index t)" "has_cache t" "fst (lru_get (cache_key t i) c) = Some es"
    | (miss) "i < length (sst_index t)" "has_cache t" "fst (lru_get (cache_key t i) c) = None"
    using not_le_imp_less [of "length (sst_index t)" i] by (cases "fst (lru_get (cache_key t i) c)") blast+
  then show ?thesis
  proof cases
    case short
    then show ?thesis using b c by (auto simp: read_data_block_def read_block_file_def)
  next
    case plain
    then show ?thesis using b c by (auto simp: read_data_block_def read_block_file_def split: option.splits)
  next
    case hit
    have "block_of T (cache_key t i) es" by (rule lru.coherent_hit [OF coh hit(3)])
    then have "read_block_file t i = Inr es" using hit(1,2) t by (simp add: block_of_def)
    then have "es = b" using b by simp
    then have "read_data_block t i c = Inr (b, snd (lru_get (cache_key t i) c))"
      using hit by (cases "lru_get (cache_key t i) c") (simp add: read_data_block_def)
    then show ?thesis using inj lru.coherent_get [OF coh] by (auto simp: cache_ok_def)
  next
    case miss
    define c1 where "c1 = snd (lru_get (cache_key t i) c)"
    have g: "lru_get (cache_key t i) c = (None, c1)" using miss(3) unfolding c1_def by (metis prod.collapse)
    have c1: "lru.coherent (block_of T) c1" unfolding c1_def by (rule lru.coherent_get [OF coh])
    obtain c2 where c2: "lru_put (cache_key t i) b c1 = Inr c2" "lru.coherent (block_of T) c2"
      using lru.coherent_put [OF c1 block_of_self [OF inj t miss(2) b]] by blast
    show ?thesis
      using miss(1,2) g b c1 c2 inj
      by (cases "fread_at (sst_file t) (unat (block_offset (sst_index t ! i))) (unat (block_size (sst_index t ! i)))")
        (auto simp: read_data_block_def read_block_file_def cache_ok_def)
  qed
qed

text \<open>A table file that holds given entries, and lookups in it.\<close>

definition represents :: "sstable \<Rightarrow> block \<Rightarrow> bool" where
  "represents t es \<longleftrightarrow> es \<noteq> [] \<and> ksorted es \<and> list_all entry_ok es \<and> length (sst_file t) < 2 ^ 64 \<and>
     (\<exists>bss. concat bss = es \<and> [] \<notin> set bss \<and> t = sst_of (filepath t) (has_cache t) (level t) es bss)"

lemma represents_blocks:
  assumes "represents t es"
  obtains bss where "concat bss = es" "[] \<notin> set bss" "sst_index t = mk_index 0 bss" "bss \<noteq> []"
    "\<And>k. k \<in> fst ` set es \<Longrightarrow> sst_may_contain t k" "min_key t = fst (hd es)" "max_key t = fst (last es)"
    "\<And>i. i < length bss \<Longrightarrow> read_block_file t i = Inr (map entry_norm (bss ! i))"
    "\<And>k. find_block_index t k < length bss"
proof -
  obtain bss where t: "concat bss = es" "[] \<notin> set bss" "t = sst_of (filepath t) (has_cache t) (level t) es bss"
    and es: "es \<noteq> []" "ksorted es" "list_all entry_ok es" "length (sst_file t) < 2 ^ 64"
    using assms by (auto simp: represents_def)
  have ne: "bss \<noteq> []" using t(1) es(1) by auto
  have "sst_file t = blk es @ snd (sst_tail (level t) es bss)" using arg_cong [OF t(3), of sst_file] by (simp add: sst_of_def)
  then have small: "length (blk es) < 2 ^ 64" using es(4) by simp
  have r: "read_block_file t i = Inr (map entry_norm (bss ! i))" if "i < length bss" for i
    using read_block_built [OF that t(1) es(3) small] t(3) by metis
  have idx: "sst_index t = mk_index 0 bss" by (subst t(3)) simp
  have mm: "min_key t = fst (hd es)" "max_key t = fst (last es)" by (subst t(3), simp)+
  have may: "sst_may_contain t k" if "k \<in> fst ` set es" for k
    by (subst t(3)) (rule built_may_contain [OF es(2) that])
  have "mk_index 0 bss \<noteq> []" using ne by (metis length_0_conv length_mk_index)
  then have "find_block_index t k < length bss" for k
    using find_block_index_bound [of t k] sorted_first_keys [of bss 0] es t idx by simp
  then show thesis using that t(1,2) idx ne may mm r by blast
qed

lemma build_represents:
  assumes "es \<noteq> []" "ksorted es" "list_all entry_ok es" "length (build_sstable lv es) < 2 ^ 64"
  shows "\<exists>t. sst_open name cached (build_sstable lv es) = Inr t \<and> represents t es \<and> level t = lv \<and>
    sst_file t = build_sstable lv es \<and> filepath t = name \<and> has_cache t = cached \<and> sequence_number t = file_sequence name"
proof -
  obtain bss where b: "concat bss = es" "[] \<notin> set bss" "build_sstable lv es = blk es @ snd (sst_tail lv es bss)"
    using build_sstable_layout [OF assms(1)] by blast
  then have "sst_open name cached (build_sstable lv es) = Inr (sst_of name cached lv es bss)"
    using load_built [OF assms(1) b(1,2) assms(3), of lv name cached] assms(4) by (simp add: sst_open_def)
  moreover have "represents (sst_of name cached lv es bss) es"
    using assms b by (auto simp: represents_def sst_of_def)
  ultimately show ?thesis using b(3) by (simp add: sst_of_def)
qed

text \<open>A lookup in a table file is a lookup in the entries it was built from.\<close>

lemma sst_get_spec:
  assumes t: "represents t es" and T: "t \<in> T" and c: "cache_ok T c"
  shows "\<exists>c'. cache_ok T c' \<and> sst_get t k c = Inr (map_option evalue_norm (map_of es k), c')"
proof -
  obtain bss where b: "concat bss = es" "[] \<notin> set bss" "sst_index t = mk_index 0 bss" "bss \<noteq> []"
    "\<And>k. k \<in> fst ` set es \<Longrightarrow> sst_may_contain t k"
    "\<And>i. i < length bss \<Longrightarrow> read_block_file t i = Inr (map entry_norm (bss ! i))"
    "\<And>k. find_block_index t k < length bss"
    by (rule represents_blocks [OF t]) (rule that; blast)
  have srt: "ksorted (concat bss)" using t b(1) by (simp add: represents_def)
  let ?i = "find_block_index t k"
  show ?thesis
  proof (cases "sst_may_contain t k")
    case False
    then have "map_of es k = None" using b(5) by (metis map_of_eq_None_iff)
    then show ?thesis using False c by (auto simp: sst_get_def)
  next
    case True
    have "k \<notin> fst ` set (bss ! j)" if "j < length bss" "j \<noteq> ?i" for j
      using find_block_index_holds [OF srt b(2,3) that(1)] that(2) by auto
    then have m: "map_of es k = map_of (bss ! ?i) k"
      using map_of_concat_nth [OF b(7), of k k] b(1) by simp
    have "ksorted (bss ! ?i)" using ksorted_block [OF srt] b(7) by simp
    moreover obtain c' where "cache_ok T c'" "read_data_block t ?i c = Inr (map entry_norm (bss ! ?i), c')"
      using read_data_block_ok [OF c T b(6) [OF b(7)]] by blast
    ultimately show ?thesis
      using True m by (auto simp: sst_get_def search_in_block_map_of map_of_entry_norm)
  qed
qed

lemma for_each_until_append:
  "for_each_until f (xs @ ys) s = (case for_each_until f xs s of (go, s') \<Rightarrow> if go then for_each_until f ys s' else (False, s'))"
proof (induction xs arbitrary: s)
  case (Cons x xs)
  then show ?case by (cases x) (simp split: prod.split)
qed simp

lemma for_each_blocks_spec:
  assumes T: "t \<in> T" and b: "\<forall>i \<in> set is. read_block_file t i = Inr (g i)"
  shows "cache_ok T c \<Longrightarrow> \<exists>c'. cache_ok T c' \<and> for_each_blocks f t is s c = Inr (snd (for_each_until f (concat (map g is)) s), c')"
  using b
proof (induction "is" arbitrary: s c)
  case (Cons i "is")
  obtain c1 where c1: "cache_ok T c1" "read_data_block t i c = Inr (g i, c1)"
    using read_data_block_ok [OF Cons.prems(1) T, of i "g i"] Cons.prems(2) by auto
  obtain go s1 where f: "for_each_until f (g i) s = (go, s1)" by (rule prod.exhaust)
  show ?case
  proof (cases go)
    case True
    obtain c2 where "cache_ok T c2" "for_each_blocks f t is s1 c1 = Inr (snd (for_each_until f (concat (map g is)) s1), c2)"
      using Cons.IH [OF c1(1)] Cons.prems(2) by fastforce
    then show ?thesis using c1 f True by (auto simp: for_each_until_append)
  next
    case False
    then show ?thesis using c1 f by (auto simp: for_each_until_append)
  qed
qed simp

lemma sst_for_each_spec:
  assumes t: "represents t es" and T: "t \<in> T" and c: "cache_ok T c"
  shows "\<exists>c'. cache_ok T c' \<and> sst_for_each f t s c = Inr (snd (for_each_until f (map entry_norm es) s), c')"
proof -
  obtain bss where b: "concat bss = es" "sst_index t = mk_index 0 bss"
    "\<And>i. i < length bss \<Longrightarrow> read_block_file t i = Inr (map entry_norm (bss ! i))"
    by (rule represents_blocks [OF t]) (rule that; blast)
  have "concat (map (\<lambda>i. map entry_norm (bss ! i)) [0..<length bss]) = map entry_norm (concat (map ((!) bss) [0..<length bss]))"
    by (simp add: map_concat comp_def)
  also have "\<dots> = map entry_norm es" by (simp add: map_nth b(1))
  finally show ?thesis
    using for_each_blocks_spec [OF T, of "[0..<length bss]" "\<lambda>i. map entry_norm (bss ! i)" c f s] b(2,3) c
    by (simp add: sst_for_each_def)
qed

section \<open>Range scans of a built table\<close>

definition in_range :: "string \<Rightarrow> string \<Rightarrow> string \<times> evalue \<Rightarrow> bool" where
  "in_range a b e \<longleftrightarrow> a \<le> fst e \<and> fst e \<le> b"

lemma in_range_norm [simp]: "in_range a b (entry_norm e) = in_range a b e"
  by (simp add: in_range_def)

lemma block_range_sorted: "ksorted es \<Longrightarrow> block_range a b es = filter (in_range a b) es"
proof (induction es)
  case (Cons e es)
  obtain k v where e: "e = (k, v)" by (rule prod.exhaust)
  have "filter (in_range a b) es = []" if "b < k"
  proof -
    have "\<not> fst x \<le> b" if x: "x \<in> set es" for x
    proof -
      have "k < fst x" using Cons.prems x by (simp add: e)
      then have "b < fst x" by (rule order.strict_trans [OF \<open>b < k\<close>])
      then show ?thesis by simp
    qed
    then show ?thesis by (simp add: filter_empty_conv in_range_def)
  qed
  then show ?case using Cons by (cases "b < k") (auto simp: e block_range_def in_range_def [abs_def])
qed (simp add: block_range_def)

lemma range_loop_spec:
  assumes srt: "ksorted (concat bss)" and ne: "[] \<notin> set bss" and idx: "sst_index t = mk_index 0 bss"
    and rd: "\<And>i. i < length bss \<Longrightarrow> read_block_file t i = Inr (map entry_norm (bss ! i))" and T: "t \<in> T"
  shows "cache_ok T c \<Longrightarrow> i \<le> length bss \<Longrightarrow> \<exists>c'. cache_ok T c' \<and> range_loop t a b start [i..<length bss] c =
    Inr (map entry_norm (filter (in_range a b) (concat (drop i bss))), c')"
proof (induction "length bss - i" arbitrary: i c)
  case 0
  then show ?case by auto
next
  case (Suc n)
  have i: "i < length bss" using Suc by simp
  have d: "drop i bss = bss ! i # drop (Suc i) bss" using i by (simp add: Cons_nth_drop_Suc)
  have u: "[i..<length bss] = i # [Suc i..<length bss]" using i by (rule upt_conv_Cons)
  have fk: "first_key (mk_index 0 bss ! i) = fst (hd (bss ! i))" using i by (simp add: mk_index_nth)
  have blki: "ksorted (map entry_norm (bss ! i))" using ksorted_block [OF srt] i by simp
  show ?case
  proof (cases "start < i \<and> b < first_key (sst_index t ! i)")
    case True
    have "filter (in_range a b) (concat (drop i bss)) = []"
    proof -
      have "ksorted (concat (take i bss) @ concat (drop i bss))"
        using srt by (metis append_take_drop_id concat_append)
      then have s: "ksorted (concat (drop i bss))" by (simp add: ksorted_append)
      have "bss ! i \<noteq> []" using ne i by (metis nth_mem)
      then have "hd (concat (drop i bss)) = hd (bss ! i)" by (simp add: d)
      then have "\<not> in_range a b e" if "e \<in> set (concat (drop i bss))" for e
        using ksorted_hd_le [OF s, of "fst e"] that True fk idx order.strict_trans2 [of b "fst (hd (bss ! i))" "fst e"]
        by (fastforce simp: in_range_def)
      then show ?thesis by (simp add: filter_empty_conv)
    qed
    then show ?thesis using True Suc.prems(1) by (auto simp: u)
  next
    case False
    obtain c1 where c1: "cache_ok T c1" "read_data_block t i c = Inr (map entry_norm (bss ! i), c1)"
      using read_data_block_ok [OF Suc.prems(1) T rd [OF i]] by blast
    obtain c2 where c2: "cache_ok T c2" "range_loop t a b start [Suc i..<length bss] c1 =
        Inr (map entry_norm (filter (in_range a b) (concat (drop (Suc i) bss))), c2)"
    proof -
      have "n = length bss - Suc i" "Suc i \<le> length bss" using Suc.hyps(2) i by simp_all
      then show thesis using that Suc.hyps(1) [OF _ c1(1)] by blast
    qed
    have "range_loop t a b start [i..<length bss] c =
      Inr (block_range a b (map entry_norm (bss ! i)) @ map entry_norm (filter (in_range a b) (concat (drop (Suc i) bss))), c2)"
      by (simp only: u range_loop.simps False if_False c1 c2 rbind_simps prod.case)
    then show ?thesis using c2(1) by (auto simp: d block_range_sorted [OF blki] filter_map comp_def)
  qed
qed

lemma before_start_below:
  assumes srt: "ksorted (concat bss)" and ne: "[] \<notin> set bss" and t: "sst_index t = mk_index 0 bss" and b: "bss \<noteq> []"
    and e: "e \<in> set (concat (take (find_block_index t a) bss))"
  shows "fst e < a"
proof -
  let ?i = "find_block_index t a" and ?p = "bsearch (mk_index 0 bss) a 0 (length bss)"
  have p: "partitions (mk_index 0 bss) a ?p"
    by (rule bsearch_spec [OF sorted_first_keys [OF srt ne]]) simp_all
  obtain j where j: "j < ?i" "j < length bss" "e \<in> set (bss ! j)"
  proof -
    obtain x where "x \<in> set (take ?i bss)" "e \<in> set x" using e by auto
    then show thesis using that by (auto simp: in_set_conv_nth [of x])
  qed
  have mi: "mk_index 0 bss \<noteq> []" using b by (metis length_0_conv length_mk_index)
  then have ip: "?i = ?p - 1" "?i < ?p" using j(1) by (auto simp: find_block_index_def t Let_def split: if_splits)
  then have il: "?i < length bss" using p by (simp add: partitions_def)
  have "first_key (mk_index 0 bss ! ?i) \<le> a" using p ip by (simp add: partitions_def)
  then have le: "fst (hd (bss ! ?i)) \<le> a" using il by (simp add: mk_index_nth)
  have "bss ! ?i \<noteq> []" using ne il by (metis nth_mem)
  then have "fst (hd (bss ! ?i)) \<in> fst ` set (bss ! ?i)" by simp
  from ksorted_blocks [OF srt j(1) il imageI [OF j(3)] this] show ?thesis using le by (rule order.strict_trans2)
qed

lemma sst_range_spec:
  assumes t: "represents t es" and T: "t \<in> T" and c: "cache_ok T c"
  shows "\<exists>c'. cache_ok T c' \<and> sst_range t a b c = Inr (map entry_norm (filter (in_range a b) es), c')"
proof -
  obtain bss where bss: "concat bss = es" "[] \<notin> set bss" "sst_index t = mk_index 0 bss" "bss \<noteq> []"
    and may: "\<And>k. k \<in> fst ` set es \<Longrightarrow> sst_may_contain t k"
    and rd: "\<And>i. i < length bss \<Longrightarrow> read_block_file t i = Inr (map entry_norm (bss ! i))"
    and fi: "\<And>k. find_block_index t k < length bss"
    by (rule represents_blocks [OF t]) (rule that; blast)
  have srt: "ksorted (concat bss)" using t bss(1) by (simp add: represents_def)
  show ?thesis
  proof (cases "max_key t < a \<or> b < min_key t")
    case True
    have "\<not> in_range a b e" if "e \<in> set es" for e
      using may [of "fst e"] that True order.strict_trans2 [of b "min_key t" "fst e"]
        order.strict_trans1 [of "fst e" "max_key t" a]
      by (fastforce simp: sst_may_contain_def in_range_def)
    then have "filter (in_range a b) es = []" by (simp add: filter_empty_conv)
    then show ?thesis using True c by (auto simp: sst_range_def)
  next
    case False
    let ?i = "find_block_index t a"
    have "fst e < a" if "e \<in> set (concat (take ?i bss))" for e
      by (rule before_start_below [OF srt bss(2-4) that])
    then have "filter (in_range a b) (concat (take ?i bss)) = []" by (fastforce simp: filter_empty_conv in_range_def)
    moreover have "es = concat (take ?i bss) @ concat (drop ?i bss)"
      using bss(1) by (metis append_take_drop_id concat_append)
    ultimately have "filter (in_range a b) es = filter (in_range a b) (concat (drop ?i bss))"
      by (metis append_Nil filter_append)
    then show ?thesis
      using False range_loop_spec [OF srt bss(2,3) rd T c, of ?i a b ?i] less_imp_le [OF fi] bss(3)
      by (simp add: sst_range_def Let_def)
  qed
qed

text \<open>What is read back can be stored again, unchanged.\<close>

lemma entry_norm_stable:
  "entry_ok e \<Longrightarrow> entry_ok (entry_norm e)" "entry_ok e \<Longrightarrow> entry_norm (entry_norm e) = entry_norm e"
  by (simp_all add: entry_ok_def entry_norm_def evalue_norm_stable)

lemma cache_ok_mono: "cache_ok T c \<Longrightarrow> {t \<in> T'. has_cache t} \<subseteq> T \<Longrightarrow> cache_ok T' c"
  unfolding cache_ok_def lru.coherent_def block_of_def inj_on_def by blast

lemma cache_ok_new: "0 < n \<Longrightarrow> inj_on sequence_number {t \<in> T. has_cache t} \<Longrightarrow> cache_ok T (lru_new n)"
  using lru_inv_new [of n] by (simp add: cache_ok_def lru.coherent_def) (simp add: lru_new_def lru_abs_def)

section \<open>File sizes\<close>

lemma blk_block_bound: "b \<noteq> [] \<Longrightarrow> 8 + length (fst (hd b)) \<le> length (blk b)"
  by (cases b) (auto simp: serialize_entry_def Let_def)

lemma index_bound: "[] \<notin> set bss \<Longrightarrow> length (concat (map ser_index_entry (mk_index off bss))) \<le> 3 * length (blk (concat bss))"
proof (induction bss arbitrary: off)
  case (Cons b bss)
  have b: "8 + length (fst (hd b)) \<le> length (blk b)" using Cons.prems by (intro blk_block_bound) auto
  have e: "length (ser_index_entry e) = 20 + length (first_key e)" for e by (simp add: ser_index_entry_def)
  show ?case using b Cons.IH [of "off + length (blk b)"] Cons.prems by (simp add: e)
qed simp

lemma length_builder_bloom: "length (ser_bloom (builder_bloom es)) = 12508"
proof -
  have "((10000 :: u64) * 10 + 7) div 8 = 12500" by code_simp
  then show ?thesis
    by (simp add: length_ser_bloom builder_bloom_def bloom_fold_shape bloom_new_def SSTABLE_BLOOM_BITS_PER_KEY_def Let_def)
qed

text \<open>The metadata of a table is linear in its data.\<close>

lemma build_length_bound:
  assumes "es \<noteq> []"
  shows "length (build_sstable lv es) \<le> 6 * length (blk es) + 12600"
proof -
  obtain bss where b: "concat bss = es" "[] \<notin> set bss" "build_sstable lv es = blk es @ snd (sst_tail lv es bss)"
    using build_sstable_layout [OF assms] by blast
  have hd: "length (fst (hd es)) \<le> length (blk es)" using blk_block_bound [OF assms] by simp
  have "length (fst (last es)) \<le> length (blk es)"
    using blk_simps(3) [of "butlast es" "[last es]"] blk_block_bound [of "[last es]"] assms by simp
  then show ?thesis
    using hd index_bound [OF b(2), of 0] b(1)
    by (simp add: b(3) sst_tail_def Let_def length_builder_bloom FOOTER_SIZE_def)
qed

definition storable :: "block \<Rightarrow> bool" where
  "storable es \<longleftrightarrow> ksorted es \<and> list_all entry_ok es \<and> length (blk es) < 2 ^ 60"

lemma storable_fits: "storable es \<Longrightarrow> es \<noteq> [] \<Longrightarrow> length (build_sstable lv es) < 2 ^ 64"
  using build_length_bound [of es lv] by (simp add: storable_def)

section \<open>Writing a table and looking it up\<close>

text \<open>
  C15: Writing an ordered, non-empty list of entries with the builder, opening the file and looking
  up a key returns the stored value of that key, as it is read back from its encoding, and nothing
  for every other key: block cutting, index, key range, Bloom filter, footer and the binary search
  agree. With the block cache in front the answer is the same, and the cache stays coherent.
\<close>

theorem sstable_build_open_get:
  assumes "es \<noteq> []" "storable es"
  shows "\<exists>t. sst_open name cached (build_sstable lv es) = Inr t \<and>
    (\<forall>c k. cache_ok {t} c \<longrightarrow>
      (\<exists>c'. sst_get t k c = Inr (map_option evalue_norm (map_of es k), c') \<and> cache_ok {t} c'))"
proof -
  have "length (build_sstable lv es) < 2 ^ 64" by (rule storable_fits [OF assms(2,1)])
  then obtain t where t: "sst_open name cached (build_sstable lv es) = Inr t" "represents t es"
    using build_represents [OF assms(1), of lv name cached] assms(2) by (auto simp: storable_def)
  then show ?thesis using sst_get_spec [OF t(2), of "{t}"] by blast
qed

lemmas storable_simps = storable_def entry_ok_def evalue_ok_def mk_evalue_def tombstone_def evalue_default_def serialize_entry_def
  ser_evalue_def serialize_eya_value_def string_ok_def strings_ok_def ser_string_def ser_deque_def less_char_def Let_def

theorem sstable_build_open_get_witness:
  "\<exists>t. sst_open ''0000000000000001.sst'' True (build_sstable 0 [(''a'', mk_evalue (VString ''x'')), (''b'', mk_evalue (VDeque [''y'']))]) = Inr t \<and>
     (\<exists>c'. sst_get t ''b'' (lru_new 4) = Inr (Some (mk_evalue (VDeque [''y''])), c'))"
proof -
  let ?es = "[(''a'', mk_evalue (VString ''x'')), (''b'', mk_evalue (VDeque [''y'']))]"
  have "storable ?es" by (simp add: storable_simps)
  then obtain t where t: "sst_open ''0000000000000001.sst'' True (build_sstable 0 ?es) = Inr t"
    "\<And>c k. cache_ok {t} c \<Longrightarrow> \<exists>c'. sst_get t k c = Inr (map_option evalue_norm (map_of ?es k), c')"
    using sstable_build_open_get [of ?es "''0000000000000001.sst''" True 0] by blast
  have "cache_ok {t} (lru_new 4)" by (rule cache_ok_new) (auto simp: inj_on_def)
  from t(2) [OF this, of "''b''"] t(1) show ?thesis
    by (simp add: evalue_norm_def mk_evalue_def)
qed

text \<open>
  A range scan of a table written by the builder returns exactly its entries between the two
  bounds, in order, through any coherent cache: the scan may start inside the table and stop
  early, but it neither loses nor repeats an entry.
\<close>

theorem sstable_range_exact:
  assumes "es \<noteq> []" "storable es"
  shows "\<exists>t. sst_open name cached (build_sstable lv es) = Inr t \<and>
    (\<forall>c. cache_ok {t} c \<longrightarrow>
      (\<exists>c'. sst_range t a b c = Inr (map entry_norm (filter (\<lambda>e. a \<le> fst e \<and> fst e \<le> b) es), c')))"
proof -
  have "length (build_sstable lv es) < 2 ^ 64" by (rule storable_fits [OF assms(2,1)])
  then obtain t where t: "sst_open name cached (build_sstable lv es) = Inr t" "represents t es"
    using build_represents [OF assms(1), of lv name cached] assms(2) by (auto simp: storable_def)
  have "\<exists>c'. sst_range t a b c = Inr (map entry_norm (filter (\<lambda>e. a \<le> fst e \<and> fst e \<le> b) es), c')" if "cache_ok {t} c" for c
    using sst_range_spec [OF t(2) _ that, of a b] by (auto simp: in_range_def [abs_def])
  then show ?thesis using t(1) by blast
qed

theorem sstable_range_exact_witness:
  "\<exists>t. sst_open ''1.sst'' False (build_sstable 0 [(''a'', mk_evalue (VString ''x'')), (''b'', tombstone), (''d'', mk_evalue (VString ''''))]) = Inr t \<and>
     (\<exists>c'. sst_range t ''aa'' ''c'' (lru_new 1) = Inr ([(''b'', tombstone)], c'))"
proof -
  let ?es = "[(''a'', mk_evalue (VString ''x'')), (''b'', tombstone), (''d'', mk_evalue (VString ''''))]"
  have "storable ?es" by (simp add: storable_simps)
  then obtain t where t: "sst_open ''1.sst'' False (build_sstable 0 ?es) = Inr t"
    "\<And>c. cache_ok {t} c \<Longrightarrow> \<exists>c'. sst_range t ''aa'' ''c'' c = Inr (map entry_norm (filter (\<lambda>e. ''aa'' \<le> fst e \<and> fst e \<le> ''c'') ?es), c')"
    using sstable_range_exact [of ?es "''1.sst''" False 0 "''aa''" "''c''"] by blast
  have c: "cache_ok {t} (lru_new 1)" by (rule cache_ok_new) (auto simp: inj_on_def)
  have f: "map entry_norm (filter (\<lambda>e. ''aa'' \<le> fst e \<and> fst e \<le> ''c'') ?es) = [(''b'', tombstone)]"
    by (simp add: entry_norm_def evalue_norm_def tombstone_def evalue_default_def less_eq_char_def less_char_def)
  from t(2) [OF c, unfolded f] t(1) show ?thesis by blast
qed

end
