(* ===== verification/SSTableManager.thy ===== *)
theory SSTableManager
  imports SSTable
begin

text \<open>
  \<open>SSTableManager\<close> (\<open>storage/sstable.h\<close>, \<open>sstable.cpp\<close>): the table files of a directory arranged in
  levels, newest first within a level and lower levels newer than deeper ones. New tables enter
  level 0; compaction merges a level into the next one. The directory is an association list from
  file names to bytes; \<open>pow\<close>, which the size limit of a level is computed with, is a parameter of
  the configuration (\<open>level_full\<close>). Locks are not modelled: each operation runs alone.
\<close>

section \<open>State\<close>

datatype merge_strategy = SIZE_TIERED_COMPACTION | LEVEL_COMPACTION

record sst_manager =
  sst_dir :: "(string \<times> bytes) list"
  merge_strategy :: merge_strategy
  merge_threshold :: nat
  level_full :: "nat \<Rightarrow> u64 \<Rightarrow> bool"
  level_sstables :: "sstable list list"
  level_sstable_size :: "u64 list"
  max_level :: nat
  next_sequence_number :: u64
  sstable_count :: nat
  mgr_cache :: block_cache

definition BlockCacheCapacity :: nat where "BlockCacheCapacity = 100000"

definition setw16 :: "string \<Rightarrow> string" where
  "setw16 s = replicate (16 - length s) (CHR ''0'') @ s"

definition sst_name :: "u64 \<Rightarrow> string" where
  "sst_name n = setw16 (nat_to_string (unat n)) @ ''.sst''"

definition generate_filename :: "sst_manager \<Rightarrow> string \<times> sst_manager" where
  "generate_filename m = (sst_name (next_sequence_number m), m\<lparr>next_sequence_number := next_sequence_number m + 1\<rparr>)"

text \<open>Growing the level vectors to hold a level.\<close>

definition grow_levels :: "nat \<Rightarrow> sst_manager \<Rightarrow> sst_manager" where
  "grow_levels lv m =
     (if max_level m < lv
      then m\<lparr>max_level := lv,
             level_sstables := level_sstables m @ replicate (lv + 1 - length (level_sstables m)) [],
             level_sstable_size := level_sstable_size m @ replicate (lv + 1 - length (level_sstable_size m)) 0\<rparr>
      else m)"

definition create_from_entries :: "block \<Rightarrow> nat \<Rightarrow> sst_manager \<Rightarrow> (sstable option \<times> sst_manager) res" where
  "create_from_entries es lv m =
     (if es = [] then Inr (None, m)
      else
        let (name, m1) = generate_filename m;
            bytes = build_sstable (word_of_nat lv) es;
            m2 = m1\<lparr>sst_dir := AList.update name bytes (sst_dir m1)\<rparr>
        in rbind (sst_open name False bytes) (\<lambda>t.
             let m3 = grow_levels lv m2
             in Inr (Some t, m3\<lparr>level_sstables := (level_sstables m3)[lv := t # level_sstables m3 ! lv],
                  level_sstable_size := (level_sstable_size m3)[lv := level_sstable_size m3 ! lv + sst_file_size t]\<rparr>)))"

section \<open>Lookups and iteration\<close>

fun lookup_tables :: "sstable list \<Rightarrow> string \<Rightarrow> block_cache \<Rightarrow> (evalue option \<times> block_cache) res" where
  "lookup_tables [] key c = Inr (None, c)"
| "lookup_tables (t # ts) key c =
     rbind (sst_get t key c) (\<lambda>(r, c'). case r of Some v \<Rightarrow> Inr (Some v, c') | None \<Rightarrow> lookup_tables ts key c')"

definition all_tables :: "sst_manager \<Rightarrow> sstable list" where
  "all_tables m = concat (map (\<lambda>i. level_sstables m ! i) [0..<Suc (max_level m)])"

definition mgr_get :: "string \<Rightarrow> sst_manager \<Rightarrow> (evalue option \<times> sst_manager) res" where
  "mgr_get key m = rbind (lookup_tables (all_tables m) key (mgr_cache m)) (\<lambda>(r, c). Inr (r, m\<lparr>mgr_cache := c\<rparr>))"

text \<open>The callback's answer ends only the table it is given at.\<close>

fun each_table ::
  "(string \<Rightarrow> evalue \<Rightarrow> 's \<Rightarrow> bool \<times> 's) \<Rightarrow> sstable list \<Rightarrow> 's \<Rightarrow> block_cache \<Rightarrow> ('s \<times> block_cache) res" where
  "each_table f [] s c = Inr (s, c)"
| "each_table f (t # ts) s c = rbind (sst_for_each f t s c) (\<lambda>(s', c'). each_table f ts s' c')"

definition for_each_newest ::
  "(string \<Rightarrow> evalue \<Rightarrow> 's \<Rightarrow> bool \<times> 's) \<Rightarrow> 's \<Rightarrow> sst_manager \<Rightarrow> ('s \<times> sst_manager) res" where
  "for_each_newest f s m = rbind (each_table f (all_tables m) s (mgr_cache m)) (\<lambda>(s', c). Inr (s', m\<lparr>mgr_cache := c\<rparr>))"

definition for_each_oldest ::
  "(string \<Rightarrow> evalue \<Rightarrow> 's \<Rightarrow> bool \<times> 's) \<Rightarrow> 's \<Rightarrow> sst_manager \<Rightarrow> ('s \<times> sst_manager) res" where
  "for_each_oldest f s m =
     rbind (each_table f (concat (map (\<lambda>i. rev (level_sstables m ! i)) (rev [0..<Suc (max_level m)]))) s (mgr_cache m))
       (\<lambda>(s', c). Inr (s', m\<lparr>mgr_cache := c\<rparr>))"

definition range_query :: "string \<Rightarrow> string \<Rightarrow> sst_manager \<Rightarrow> (block \<times> sst_manager) res" where
  "range_query a b m =
     for_each_oldest (\<lambda>k v mp. (True, if a \<le> k \<and> k \<le> b then alist_upd k v mp else mp)) [] m"

definition get_total_size :: "sst_manager \<Rightarrow> u64" where
  "get_total_size m = fold (\<lambda>i total. total + level_sstable_size m ! i) [0..<Suc (max_level m)] 0"

definition mgr_empty :: "sst_manager \<Rightarrow> bool" where "mgr_empty m \<longleftrightarrow> sstable_count m = 0"

section \<open>Compaction\<close>

text \<open>\<open>map[key] = value\<close> over the entries of tables given oldest first.\<close>

definition collect :: "sstable list \<Rightarrow> block_cache \<Rightarrow> (block \<times> block_cache) res" where
  "collect ts c = each_table (\<lambda>k v mp. (True, alist_upd k v mp)) ts [] c"

definition live_entries :: "nat \<Rightarrow> block \<Rightarrow> block" where
  "live_entries now mp = filter (\<lambda>e. \<not> is_deleted (snd e) \<and> \<not> is_expired now (snd e)) mp"

text \<open>Dropping merged tables from a level and subtracting their sizes.\<close>

definition drop_tables :: "nat \<Rightarrow> sstable list \<Rightarrow> sst_manager \<Rightarrow> sst_manager" where
  "drop_tables lv merged m = fold (\<lambda>t m.
       if t \<in> set (level_sstables m ! lv)
       then m\<lparr>level_sstables := (level_sstables m)[lv := remove1 t (level_sstables m ! lv)],
              level_sstable_size := (level_sstable_size m)[lv := level_sstable_size m ! lv - sst_file_size t]\<rparr>
       else m) merged m"

definition remove_files :: "sstable list \<Rightarrow> sst_manager \<Rightarrow> sst_manager" where
  "remove_files ts m = m\<lparr>sst_dir := fold (\<lambda>t. AList.delete (filepath t)) ts (sst_dir m)\<rparr>"

datatype step = Done bool sst_manager | Continue sst_manager

text \<open>The part both strategies share: the surviving entries, if any, become a table of the next level.\<close>

definition store_live :: "block \<Rightarrow> nat \<Rightarrow> sst_manager \<Rightarrow> (bool \<times> sst_manager) res" where
  "store_live es lv m =
     (if es = [] then Inr (True, m)
      else rbind (create_from_entries es lv m) (\<lambda>(t, m'). Inr (t \<noteq> None, m')))"

text \<open>\<open>merge_sstables_by_strategy_0\<close> up to its recursive call.\<close>

definition merge_level :: "nat \<Rightarrow> nat \<Rightarrow> sst_manager \<Rightarrow> step res" where
  "merge_level now lv m =
     (let ts = level_sstables m ! lv
      in if ts = [] then Inr (Done True m)
         else rbind (collect (rev ts) (mgr_cache m)) (\<lambda>(mp, c).
           rbind (store_live (live_entries now mp) (lv + 1) (m\<lparr>mgr_cache := c\<rparr>)) (\<lambda>(ok, m2).
              Inr (if ok then Continue (remove_files ts (drop_tables lv ts m2)) else Done False m2))))"

text \<open>\<open>merge_sstables_by_strategy_1\<close> below the deepest level, up to its recursive calls.\<close>

definition overlaps :: "sstable \<Rightarrow> sstable \<Rightarrow> bool" where
  "overlaps t u \<longleftrightarrow> \<not> (max_key t < min_key u \<or> max_key u < min_key t)"

definition merge_oldest :: "nat \<Rightarrow> nat \<Rightarrow> sst_manager \<Rightarrow> step res" where
  "merge_oldest now lv m =
     (if level_sstables m ! lv = [] then Inr (Done True m)
      else
        let t = last (level_sstables m ! lv);
            us = filter (overlaps t) (level_sstables m ! (lv + 1))
        in rbind (collect (rev us @ [t]) (mgr_cache m)) (\<lambda>(mp, c).
           rbind (store_live (live_entries now mp) (lv + 1) (m\<lparr>mgr_cache := c\<rparr>)) (\<lambda>(ok, m2).
              Inr (if ok then Continue (remove_files (t # us) (drop_tables lv [t] (drop_tables (lv + 1) us m2)))
                   else Done False m2))))"

text \<open>
  The recursion of \<open>merge_sstables\<close> with its strategies. \<open>None\<close> is running out of fuel; with a
  merge threshold of one every merged level triggers the next and there is no bound.
\<close>

type_synonym compaction = "nat \<Rightarrow> sst_manager \<Rightarrow> (bool \<times> sst_manager) res option"

definition merge_by_strategy_0 :: "compaction \<Rightarrow> nat \<Rightarrow> compaction" where
  "merge_by_strategy_0 merge_sstables now lv m =
     (case merge_level now lv m of
        Inl e \<Rightarrow> Some (Inl e)
      | Inr (Done b m') \<Rightarrow> Some (Inr (b, m'))
      | Inr (Continue m') \<Rightarrow> map_option (\<lambda>r. rbind r (\<lambda>(_, m''). Inr (True, m''))) (merge_sstables (lv + 1) m'))"

definition merge_by_strategy_1 :: "compaction \<Rightarrow> nat \<Rightarrow> compaction" where
  "merge_by_strategy_1 merge_sstables now lv m =
     (if lv = max_level m then merge_by_strategy_0 merge_sstables now lv m
      else case merge_oldest now lv m of
        Inl e \<Rightarrow> Some (Inl e)
      | Inr (Done b m') \<Rightarrow> Some (Inr (b, m'))
      | Inr (Continue m') \<Rightarrow>
          (case merge_sstables lv m' of
             None \<Rightarrow> None
           | Some (Inl e) \<Rightarrow> Some (Inl e)
           | Some (Inr (_, m'')) \<Rightarrow>
               map_option (\<lambda>r. rbind r (\<lambda>(_, m3). Inr (True, m3))) (merge_sstables (lv + 1) m'')))"

fun merge_sstables :: "nat \<Rightarrow> nat \<Rightarrow> compaction" where
  "merge_sstables 0 now lv m = None"
| "merge_sstables (Suc n) now lv m =
     (if max_level m < lv then Some (Inr (False, m))
      else case merge_strategy m of
             SIZE_TIERED_COMPACTION \<Rightarrow>
               if merge_threshold m \<le> length (level_sstables m ! lv) then merge_by_strategy_0 (merge_sstables n now) now lv m
               else Some (Inr (True, m))
           | LEVEL_COMPACTION \<Rightarrow>
               if level_full m lv (level_sstable_size m ! lv) then merge_by_strategy_1 (merge_sstables n now) now lv m
               else Some (Inr (True, m)))"

definition create_new_sstable :: "nat \<Rightarrow> nat \<Rightarrow> block \<Rightarrow> sst_manager \<Rightarrow> (sstable option \<times> sst_manager) res option" where
  "create_new_sstable fuel now es m =
     (case create_from_entries es 0 m of
        Inl e \<Rightarrow> Some (Inl e)
      | Inr (None, m') \<Rightarrow> Some (Inr (None, m'))
      | Inr (Some t, m') \<Rightarrow>
          map_option (\<lambda>r. rbind r (\<lambda>(_, m''). Inr (Some t, m''))) (merge_sstables fuel now 0 m'))"

section \<open>Loading a directory\<close>

text \<open>
  One directory entry of \<open>load_all\<close>: a file whose bytes make the loader throw is skipped.
\<close>

definition load_entry :: "string \<times> bytes \<Rightarrow> sst_manager \<Rightarrow> sst_manager res" where
  "load_entry f m =
     (if snd (path_split (fst f)) \<noteq> ''.sst'' then Inr m
      else case sst_open (fst f) True (snd f) of
             Inl UB \<Rightarrow> Inl UB
           | Inl _ \<Rightarrow> Inr m
           | Inr t \<Rightarrow>
               let m1 = (if next_sequence_number m \<le> sequence_number t
                         then m\<lparr>next_sequence_number := sequence_number t + 1\<rparr> else m);
                   lv = unat (level t);
                   m2 = grow_levels lv m1
               in Inr (m2\<lparr>level_sstables := (level_sstables m2)[lv := level_sstables m2 ! lv @ [t]],
                       level_sstable_size := (level_sstable_size m2)[lv := level_sstable_size m2 ! lv + sst_file_size t],
                       sstable_count := sstable_count m2 + 1\<rparr>))"

fun load_entries :: "(string \<times> bytes) list \<Rightarrow> sst_manager \<Rightarrow> sst_manager res" where
  "load_entries [] m = Inr m"
| "load_entries (f # fs) m = rbind (load_entry f m) (load_entries fs)"

text \<open>Descending by sequence number.\<close>

definition newest_first :: "sstable list \<Rightarrow> sstable list" where
  "newest_first ts = rev (sort_key sequence_number ts)"

definition sort_sstables_by_sequence :: "sst_manager \<Rightarrow> sst_manager" where
  "sort_sstables_by_sequence m = m\<lparr>level_sstables := map newest_first (level_sstables m)\<rparr>"

fun strategy_number :: "merge_strategy \<Rightarrow> int" where
  "strategy_number SIZE_TIERED_COMPACTION = 0"
| "strategy_number LEVEL_COMPACTION = 1"

text \<open>Merging every level but the deepest; the bound is read again in each round.\<close>

fun merge_all :: "nat \<Rightarrow> nat \<Rightarrow> nat \<Rightarrow> sst_manager \<Rightarrow> sst_manager res option" where
  "merge_all 0 now i m = None"
| "merge_all (Suc n) now i m =
     (if i < max_level m then
        (case merge_by_strategy_0 (merge_sstables n now) now i m of
           None \<Rightarrow> None
         | Some (Inl e) \<Rightarrow> Some (Inl e)
         | Some (Inr (_, m')) \<Rightarrow> merge_all n now (i + 1) m')
      else Some (Inr m))"

definition write_smeta :: "sst_manager \<Rightarrow> sst_manager" where
  "write_smeta m = m\<lparr>sst_dir := AList.update ''.smeta'' (int_to_string (strategy_number (merge_strategy m))) (sst_dir m)\<rparr>"

text \<open>
  \<open>normalize_sstables\<close>: when the recorded strategy is missing or differs, everything above the
  deepest level is merged. After a record that does not parse, the strategy read is compared
  uninitialised.
\<close>

definition normalize_sstables :: "nat \<Rightarrow> nat \<Rightarrow> sst_manager \<Rightarrow> sst_manager res option" where
  "normalize_sstables fuel now m =
     (case map_of (sst_dir m) ''.smeta'' of
        None \<Rightarrow> map_option (\<lambda>r. rbind r (\<lambda>m'. Inr (write_smeta m'))) (merge_all fuel now 0 m)
      | Some content \<Rightarrow>
          (case stoi content of
             Inl _ \<Rightarrow> map_option (\<lambda>r. rbind r (\<lambda>_. Inl UB)) (merge_all fuel now 0 m)
           | Inr last_strategy \<Rightarrow>
               if last_strategy \<noteq> strategy_number (merge_strategy m)
               then map_option (\<lambda>r. rbind r (\<lambda>m'. Inr (write_smeta m'))) (merge_all fuel now 0 m)
               else Some (Inr m)))"

definition load_all :: "nat \<Rightarrow> nat \<Rightarrow> sst_manager \<Rightarrow> sst_manager res option" where
  "load_all fuel now m =
     (let m0 = m\<lparr>level_sstables := replicate (Suc (max_level m)) [], level_sstable_size := replicate (Suc (max_level m)) 0,
                 sstable_count := 0, next_sequence_number := 1\<rparr>
      in case load_entries (sst_dir m) m0 of
           Inl e \<Rightarrow> Some (Inl e)
         | Inr m1 \<Rightarrow> normalize_sstables fuel now (sort_sstables_by_sequence m1))"

definition mgr_new :: "nat \<Rightarrow> nat \<Rightarrow> merge_strategy \<Rightarrow> nat \<Rightarrow> (nat \<Rightarrow> u64 \<Rightarrow> bool) \<Rightarrow> (string \<times> bytes) list \<Rightarrow> sst_manager res option" where
  "mgr_new fuel now strat thr full d =
     load_all fuel now \<lparr>sst_dir = d, merge_strategy = strat, merge_threshold = thr, level_full = full,
       level_sstables = [], level_sstable_size = [], max_level = 0, next_sequence_number = 1, sstable_count = 0,
       mgr_cache = lru_new BlockCacheCapacity\<rparr>"

section \<open>What a table holds\<close>

definition table_entries :: "sstable \<Rightarrow> block" where
  "table_entries t = concat (map (\<lambda>i. case read_block_file t i of Inr b \<Rightarrow> b | Inl _ \<Rightarrow> []) [0..<length (sst_index t)])"

definition table_ok :: "sstable \<Rightarrow> bool" where "table_ok t \<longleftrightarrow> (\<exists>es. represents t es)"

lemma represents_entries:
  assumes "represents t es"
  shows "table_entries t = map entry_norm es"
proof -
  obtain bss where b: "concat bss = es" "sst_index t = mk_index 0 bss"
    "\<And>i. i < length bss \<Longrightarrow> read_block_file t i = Inr (map entry_norm (bss ! i))"
    by (rule represents_blocks [OF assms]) (rule that; blast)
  have "table_entries t = concat (map (\<lambda>i. map entry_norm (bss ! i)) [0..<length bss])"
    unfolding table_entries_def using b(2,3) by (intro arg_cong [of _ _ concat] map_cong) simp_all
  also have "\<dots> = map entry_norm (concat (map ((!) bss) [0..<length bss]))" by (simp add: map_concat comp_def)
  finally show ?thesis by (simp add: map_nth b(1))
qed

lemma table_entries_props:
  assumes "table_ok t"
  shows "ksorted (table_entries t)" "list_all entry_ok (table_entries t)" "map entry_norm (table_entries t) = table_entries t"
proof -
  obtain es where es: "represents t es" using assms by (auto simp: table_ok_def)
  show "ksorted (table_entries t)" "list_all entry_ok (table_entries t)" "map entry_norm (table_entries t) = table_entries t"
    using es entry_norm_stable unfolding represents_entries [OF es] represents_def
    by (auto simp: list_all_iff)
qed

text \<open>The contract the manager relies on, and what it makes of a list of tables, newest first.\<close>

locale run_reader =
  fixes rget :: "'t \<Rightarrow> string \<Rightarrow> 'c \<Rightarrow> ('v option \<times> 'c) res"
    and reach :: "(string \<Rightarrow> 'v \<Rightarrow> 's \<Rightarrow> bool \<times> 's) \<Rightarrow> 't \<Rightarrow> 's \<Rightarrow> 'c \<Rightarrow> ('s \<times> 'c) res"
    and ents :: "'t \<Rightarrow> (string \<times> 'v) list"
    and ok :: "'t \<Rightarrow> bool"
    and cok :: "'t set \<Rightarrow> 'c \<Rightarrow> bool"
  assumes get_law: "ok t \<Longrightarrow> t \<in> T \<Longrightarrow> cok T c \<Longrightarrow> \<exists>c'. cok T c' \<and> rget t k c = Inr (map_of (ents t) k, c')"
    and each_law: "ok t \<Longrightarrow> t \<in> T \<Longrightarrow> cok T c \<Longrightarrow>
      \<exists>c'. cok T c' \<and> reach (\<lambda>k v s. (True, g k v s)) t s c = Inr (fold (\<lambda>(k, v). g k v) (ents t) s, c')"
    and sorted_law: "ok t \<Longrightarrow> ksorted (ents t)"
begin

definition run_view :: "'t list \<Rightarrow> string \<Rightarrow> 'v option" where
  "run_view ts k = map_of (concat (map ents ts)) k"

lemma run_view_simps [simp]:
  "run_view [] k = None"
  "run_view (t # ts) k = (case map_of (ents t) k of Some v \<Rightarrow> Some v | None \<Rightarrow> run_view ts k)"
  "run_view (ts @ us) k = (case run_view ts k of Some v \<Rightarrow> Some v | None \<Rightarrow> run_view us k)"
  by (simp_all add: run_view_def map_add_def split: option.split)

lemma run_view_rev: "\<forall>t \<in> set ts. ok t \<Longrightarrow> map_of (rev (concat (map ents (rev ts)))) k = run_view ts k"
proof (induction ts)
  case (Cons t ts)
  then show ?case
    using map_of_rev_distinct [OF ksorted_distinct [OF sorted_law [of t]]]
    by (simp add: map_add_def split: option.split)
qed simp

text \<open>Merging runs from the oldest to the newest gives the ordered map of the newest versions.\<close>

lemma merge_runs:
  assumes "\<forall>t \<in> set ts. ok t"
  shows "ksorted (alist_merge [] (concat (map ents (rev ts))))"
    "map_of (alist_merge [] (concat (map ents (rev ts)))) k = run_view ts k"
  using run_view_rev [OF assms] by (simp_all add: ksorted_alist_merge map_of_alist_merge)

end

lemma for_each_until_all: "for_each_until (\<lambda>k v s. (True, g k v s)) es s = (True, fold (\<lambda>(k, v). g k v) es s)"
proof (induction es arbitrary: s)
  case (Cons e es)
  then show ?case by (cases e) simp
qed simp

lemma table_laws:
  assumes ok: "table_ok t" and T: "t \<in> T" and c: "cache_ok T c"
  shows "\<exists>c'. cache_ok T c' \<and> sst_get t k c = Inr (map_of (table_entries t) k, c')"
    "\<exists>c'. cache_ok T c' \<and> sst_for_each (\<lambda>k v s. (True, g k v s)) t s c = Inr (fold (\<lambda>(k, v). g k v) (table_entries t) s, c')"
proof -
  obtain es where es: "represents t es" using ok by (auto simp: table_ok_def)
  show "\<exists>c'. cache_ok T c' \<and> sst_get t k c = Inr (map_of (table_entries t) k, c')"
    using sst_get_spec [OF es T c, of k] by (simp add: represents_entries [OF es] map_of_entry_norm)
  show "\<exists>c'. cache_ok T c' \<and> sst_for_each (\<lambda>k v s. (True, g k v s)) t s c = Inr (fold (\<lambda>(k, v). g k v) (table_entries t) s, c')"
    using sst_for_each_spec [OF es T c, of "\<lambda>k v s. (True, g k v s)" s] by (simp add: represents_entries [OF es] for_each_until_all)
qed

interpretation runs: run_reader sst_get sst_for_each table_entries table_ok cache_ok
  by unfold_locales ((rule table_laws; assumption)+, rule table_entries_props(1))

abbreviation tables_view :: "sstable list \<Rightarrow> string \<Rightarrow> evalue option" where
  "tables_view \<equiv> runs.run_view"

section \<open>Reads\<close>

definition mgr_inv :: "sst_manager \<Rightarrow> bool" where
  "mgr_inv m \<longleftrightarrow> length (level_sstables m) = Suc (max_level m) \<and> length (level_sstable_size m) = Suc (max_level m) \<and>
     (\<forall>t \<in> set (concat (level_sstables m)). table_ok t) \<and> cache_ok (set (concat (level_sstables m))) (mgr_cache m)"

definition mgr_view :: "sst_manager \<Rightarrow> string \<Rightarrow> evalue option" where
  "mgr_view m = tables_view (concat (level_sstables m))"

lemma all_tables_concat: "length (level_sstables m) = Suc (max_level m) \<Longrightarrow> all_tables m = concat (level_sstables m)"
  unfolding all_tables_def by (metis map_nth)

lemma oldest_tables:
  assumes "length (level_sstables m) = Suc (max_level m)"
  shows "concat (map (\<lambda>i. rev (level_sstables m ! i)) (rev [0..<Suc (max_level m)])) = rev (concat (level_sstables m))"
proof -
  have "rev (map rev (map ((!) (level_sstables m)) [0..<Suc (max_level m)])) = rev (map rev (level_sstables m))"
    using assms by (metis map_nth)
  then show ?thesis by (simp only: rev_concat) (simp add: rev_map comp_def)
qed

lemma lookup_tables_spec:
  "set ts \<subseteq> T \<Longrightarrow> \<forall>t \<in> set ts. table_ok t \<Longrightarrow> cache_ok T c \<Longrightarrow>
     \<exists>c'. cache_ok T c' \<and> lookup_tables ts k c = Inr (tables_view ts k, c')"
proof (induction ts arbitrary: c)
  case (Cons t ts)
  obtain c1 where c1: "cache_ok T c1" "sst_get t k c = Inr (map_of (table_entries t) k, c1)"
    using runs.get_law [of t T c k] Cons.prems by auto
  show ?case
  proof (cases "map_of (table_entries t) k")
    case None
    then show ?thesis using Cons.IH [OF _ _ c1(1)] Cons.prems c1 by auto
  next
    case (Some v)
    then show ?thesis using c1 by auto
  qed
qed auto

lemma each_table_spec:
  "set ts \<subseteq> T \<Longrightarrow> \<forall>t \<in> set ts. table_ok t \<Longrightarrow> cache_ok T c \<Longrightarrow>
     \<exists>c'. cache_ok T c' \<and> each_table (\<lambda>k v s. (True, g k v s)) ts s c =
       Inr (fold (\<lambda>(k, v). g k v) (concat (map table_entries ts)) s, c')"
proof (induction ts arbitrary: s c)
  case (Cons t ts)
  obtain c1 where c1: "cache_ok T c1" "sst_for_each (\<lambda>k v s. (True, g k v s)) t s c = Inr (fold (\<lambda>(k, v). g k v) (table_entries t) s, c1)"
    using runs.each_law [of t T c g s] Cons.prems by auto
  then show ?case using Cons.IH [OF _ _ c1(1), of "fold (\<lambda>(k, v). g k v) (table_entries t) s"] Cons.prems by auto
qed auto

lemma collect_spec:
  assumes "set ts \<subseteq> T" "\<forall>t \<in> set ts. table_ok t" "cache_ok T c"
  shows "\<exists>c'. cache_ok T c' \<and> collect ts c = Inr (alist_merge [] (concat (map table_entries ts)), c')"
  using each_table_spec [OF assms, of "\<lambda>k v mp. alist_upd k v mp" "[]"] by (simp add: collect_def alist_merge_def)

text \<open>A lookup finds the newest version, and changes nothing but the cache.\<close>

lemma mgr_get_spec:
  assumes "mgr_inv m"
  shows "\<exists>c. mgr_get k m = Inr (mgr_view m k, m\<lparr>mgr_cache := c\<rparr>) \<and> mgr_inv (m\<lparr>mgr_cache := c\<rparr>)"
proof -
  obtain c where "cache_ok (set (concat (level_sstables m))) c"
    "lookup_tables (concat (level_sstables m)) k (mgr_cache m) = Inr (mgr_view m k, c)"
    using lookup_tables_spec [OF subset_refl, of "concat (level_sstables m)" "mgr_cache m" k] assms
    by (auto simp: mgr_inv_def mgr_view_def)
  then show ?thesis using assms by (intro exI [of _ c]) (simp add: mgr_get_def all_tables_concat mgr_inv_def)
qed

lemma for_each_oldest_spec:
  assumes "mgr_inv m"
  shows "\<exists>c. for_each_oldest (\<lambda>k v s. (True, g k v s)) s m =
    Inr (fold (\<lambda>(k, v). g k v) (concat (map table_entries (rev (concat (level_sstables m))))) s, m\<lparr>mgr_cache := c\<rparr>) \<and>
    mgr_inv (m\<lparr>mgr_cache := c\<rparr>)"
proof -
  let ?ts = "concat (level_sstables m)"
  obtain c where "cache_ok (set ?ts) c" "each_table (\<lambda>k v s. (True, g k v s)) (rev ?ts) s (mgr_cache m) =
      Inr (fold (\<lambda>(k, v). g k v) (concat (map table_entries (rev ?ts))) s, c)"
    using each_table_spec [of "rev ?ts" "set ?ts" "mgr_cache m" g s] assms by (auto simp: mgr_inv_def)
  then show ?thesis
    using assms by (intro exI [of _ c]) (simp add: for_each_oldest_def oldest_tables mgr_inv_def del: upt_Suc)
qed

lemma fold_range_upd:
  "fold (\<lambda>(k, v) mp. if P k then alist_upd k v mp else mp) es mp = alist_merge mp (filter (\<lambda>e. P (fst e)) es)"
proof (induction es arbitrary: mp)
  case (Cons e es)
  then show ?case by (cases e) simp
qed simp

lemma map_of_filter_keys: "map_of (filter (\<lambda>e. P (fst e)) es) k = (if P k then map_of es k else None)"
  by (induction es) auto

text \<open>A range query is the ordered list of the newest versions of the keys in the range.\<close>

lemma range_query_spec:
  assumes inv: "mgr_inv m"
  shows "\<exists>mp c. range_query a b m = Inr (mp, m\<lparr>mgr_cache := c\<rparr>) \<and> mgr_inv (m\<lparr>mgr_cache := c\<rparr>) \<and> ksorted mp \<and>
    (\<forall>k. map_of mp k = (if a \<le> k \<and> k \<le> b then mgr_view m k else None))"
proof -
  let ?ts = "concat (level_sstables m)" and ?P = "\<lambda>k. a \<le> k \<and> k \<le> b"
  let ?es = "concat (map table_entries (rev ?ts))"
  let ?mp = "alist_merge [] (filter (\<lambda>e. ?P (fst e)) ?es)"
  obtain c where c: "range_query a b m = Inr (fold (\<lambda>(k, v) mp. if ?P k then alist_upd k v mp else mp) ?es [], m\<lparr>mgr_cache := c\<rparr>)"
    "mgr_inv (m\<lparr>mgr_cache := c\<rparr>)"
    using for_each_oldest_spec [OF inv, of "\<lambda>k v mp. if ?P k then alist_upd k v mp else mp" "[]"]
    unfolding range_query_def by blast
  have r: "range_query a b m = Inr (?mp, m\<lparr>mgr_cache := c\<rparr>)" using c(1) unfolding fold_range_upd .
  have "map_of ?mp k = (if ?P k then mgr_view m k else None)" for k
  proof -
    have "map_of ?mp k = map_of (filter (\<lambda>e. ?P (fst e)) (rev ?es)) k"
      by (simp add: map_of_alist_merge rev_filter)
    also have "\<dots> = (if ?P k then map_of (rev ?es) k else None)" by (rule map_of_filter_keys)
    also have "map_of (rev ?es) k = mgr_view m k"
      using inv unfolding mgr_view_def by (intro runs.run_view_rev) (simp add: mgr_inv_def)
    finally show ?thesis .
  qed
  then show ?thesis using r c(2) ksorted_alist_merge [of "[]"] by (intro exI [of _ ?mp] exI [of _ c]) simp
qed

section \<open>Adding a table\<close>

lemma grow_levels_props:
  assumes "length (level_sstables m) = Suc (max_level m)" "length (level_sstable_size m) = Suc (max_level m)"
  shows "length (level_sstables (grow_levels lv m)) = Suc (max_level (grow_levels lv m))"
    "length (level_sstable_size (grow_levels lv m)) = Suc (max_level (grow_levels lv m))"
    "max_level (grow_levels lv m) = max (max_level m) lv"
    "concat (level_sstables (grow_levels lv m)) = concat (level_sstables m)"
    "level_sstables (grow_levels lv m) = level_sstables m @ replicate (lv - max_level m) []"
    "mgr_cache (grow_levels lv m) = mgr_cache m" "merge_strategy (grow_levels lv m) = merge_strategy m"
    "merge_threshold (grow_levels lv m) = merge_threshold m"
  using assms by (auto simp: grow_levels_def Suc_diff_le)

definition add_table :: "sstable \<Rightarrow> nat \<Rightarrow> sst_manager \<Rightarrow> sst_manager" where
  "add_table t lv m = (let m' = grow_levels lv m
     in m'\<lparr>level_sstables := (level_sstables m')[lv := t # level_sstables m' ! lv],
           level_sstable_size := (level_sstable_size m')[lv := level_sstable_size m' ! lv + sst_file_size t]\<rparr>)"

lemma create_from_entries_add:
  assumes "es \<noteq> []"
  shows "create_from_entries es lv m = (let name = sst_name (next_sequence_number m); bytes = build_sstable (word_of_nat lv) es in
    rbind (sst_open name False bytes) (\<lambda>t. Inr (Some t, add_table t lv (m\<lparr>next_sequence_number := next_sequence_number m + 1,
      sst_dir := AList.update name bytes (sst_dir m)\<rparr>))))"
  using assms by (simp add: create_from_entries_def add_table_def generate_filename_def Let_def)

lemma set_concat_update:
  assumes "lv < length xss"
  shows "set (concat (xss[lv := t # xss ! lv])) = insert t (set (concat xss))"
proof -
  have e: "xss = take lv xss @ xss ! lv # drop (Suc lv) xss" using assms by (rule id_take_nth_drop)
  have "xss[lv := t # xss ! lv] = take lv xss @ (t # xss ! lv) # drop (Suc lv) xss" using assms by (rule upd_conv_take_nth_drop)
  then have "set (concat (xss[lv := t # xss ! lv])) = insert t (set (concat (take lv xss @ xss ! lv # drop (Suc lv) xss)))" by auto
  then show ?thesis using e by simp
qed

lemma add_table_inv:
  assumes inv: "mgr_inv m" and t: "table_ok t" "\<not> has_cache t"
  shows "mgr_inv (add_table t lv m)"
proof -
  let ?g = "grow_levels lv m"
  have len: "length (level_sstables m) = Suc (max_level m)" "length (level_sstable_size m) = Suc (max_level m)"
    using inv by (simp_all add: mgr_inv_def)
  note g = grow_levels_props [OF len, of lv]
  have lv: "lv < length (level_sstables ?g)" using g by simp
  have s: "set (concat (level_sstables (add_table t lv m))) = insert t (set (concat (level_sstables m)))"
  proof -
    have "level_sstables (add_table t lv m) = (level_sstables ?g)[lv := t # level_sstables ?g ! lv]"
      by (simp add: add_table_def Let_def)
    then show ?thesis by (simp only: set_concat_update [OF lv] g(4))
  qed
  have "cache_ok (insert t (set (concat (level_sstables m)))) (mgr_cache m)"
  proof (rule cache_ok_mono)
    show "cache_ok (set (concat (level_sstables m))) (mgr_cache m)" using inv by (simp add: mgr_inv_def)
    show "{u \<in> insert t (set (concat (level_sstables m))). has_cache u} \<subseteq> set (concat (level_sstables m))" using t(2) by blast
  qed
  moreover have "\<forall>u \<in> insert t (set (concat (level_sstables m))). table_ok u" using inv t(1) by (simp add: mgr_inv_def)
  ultimately show ?thesis
    unfolding mgr_inv_def s using g by (simp add: add_table_def Let_def)
qed

lemma add_table_view:
  assumes len: "length (level_sstables m) = Suc (max_level m)" "length (level_sstable_size m) = Suc (max_level m)"
  shows "mgr_view (add_table t lv m) k =
    (case tables_view (concat (take lv (level_sstables m))) k of Some v \<Rightarrow> Some v
     | None \<Rightarrow> (case map_of (table_entries t) k of Some v \<Rightarrow> Some v
                | None \<Rightarrow> tables_view (concat (drop lv (level_sstables m))) k))"
proof -
  let ?x = "level_sstables (grow_levels lv m)"
  note g = grow_levels_props [OF len, of lv]
  have lv: "lv < length ?x" using g by simp
  have 1: "level_sstables (add_table t lv m) = take lv ?x @ (t # ?x ! lv) # drop (Suc lv) ?x"
    using lv by (simp add: add_table_def Let_def upd_conv_take_nth_drop)
  have "?x ! lv # drop (Suc lv) ?x = drop lv ?x" using lv by (simp add: Cons_nth_drop_Suc)
  then have 2: "?x ! lv @ concat (drop (Suc lv) ?x) = concat (drop lv ?x)" by (metis concat.simps(2))
  have 3: "concat (take lv ?x) = concat (take lv (level_sstables m))" "concat (drop lv ?x) = concat (drop lv (level_sstables m))"
    unfolding g(5) by simp_all
  have "concat (level_sstables (add_table t lv m)) = concat (take lv ?x) @ t # (?x ! lv @ concat (drop (Suc lv) ?x))"
    by (simp add: 1)
  then show ?thesis by (simp add: mgr_view_def 2 3 split: option.split)
qed

lemma create_from_entries_spec:
  assumes inv: "mgr_inv m" and es: "es \<noteq> []" "storable es"
  shows "\<exists>t m1. create_from_entries es lv m = Inr (Some t, add_table t lv m1) \<and> table_ok t \<and> \<not> has_cache t \<and>
    table_entries t = map entry_norm es \<and> mgr_inv m1 \<and> mgr_inv (add_table t lv m1) \<and> level_sstables m1 = level_sstables m \<and>
    m1 = m\<lparr>next_sequence_number := next_sequence_number m1, sst_dir := sst_dir m1\<rparr>"
proof -
  let ?name = "sst_name (next_sequence_number m)" and ?bytes = "build_sstable (word_of_nat lv) es"
  let ?m1 = "m\<lparr>next_sequence_number := next_sequence_number m + 1, sst_dir := AList.update ?name ?bytes (sst_dir m)\<rparr>"
  have st: "ksorted es" "list_all entry_ok es" "length ?bytes < 2 ^ 64"
    using es(2) storable_fits [OF es(2,1)] by (simp_all add: storable_def)
  obtain t where t: "sst_open ?name False ?bytes = Inr t" "represents t es" "\<not> has_cache t"
    using build_represents [OF es(1) st, of ?name False] by auto
  have ok: "table_ok t" using t(2) by (auto simp: table_ok_def)
  have m1: "mgr_inv ?m1" using inv by (simp add: mgr_inv_def)
  have "create_from_entries es lv m = Inr (Some t, add_table t lv ?m1)"
    unfolding create_from_entries_add [OF es(1)] Let_def t(1) by simp
  then show ?thesis
    using ok t(3) represents_entries [OF t(2)] m1 add_table_inv [OF m1 ok t(3)]
    by (intro exI [of _ t] exI [of _ ?m1]) simp
qed

text \<open>A table added to level 0 shadows everything below.\<close>

lemma create_level_0_view:
  assumes inv: "mgr_inv m" and es: "es \<noteq> []" "storable es"
  shows "\<exists>t m'. create_from_entries es 0 m = Inr (Some t, m') \<and> mgr_inv m' \<and>
    (\<forall>k. mgr_view m' k = (case map_of es k of Some v \<Rightarrow> Some (evalue_norm v) | None \<Rightarrow> mgr_view m k))"
proof -
  obtain t m1 where t: "create_from_entries es 0 m = Inr (Some t, add_table t 0 m1)" "table_entries t = map entry_norm es"
    "mgr_inv m1" "mgr_inv (add_table t 0 m1)" "level_sstables m1 = level_sstables m"
    using create_from_entries_spec [OF inv es, of 0] by metis
  have len: "length (level_sstables m1) = Suc (max_level m1)" "length (level_sstable_size m1) = Suc (max_level m1)"
    using t(3) by (simp_all add: mgr_inv_def)
  have "mgr_view (add_table t 0 m1) k = (case map_of es k of Some v \<Rightarrow> Some (evalue_norm v) | None \<Rightarrow> mgr_view m k)" for k
    using add_table_view [OF len, of t 0 k] by (simp add: t(2,5) map_of_entry_norm mgr_view_def split: option.split)
  then show ?thesis using t(1,4) by blast
qed

section \<open>Merging a level\<close>

lemma drop_tables_all:
  assumes "lv < length (level_sstables m)" "level_sstables m ! lv = ts"
  shows "level_sstables (drop_tables lv ts m) = (level_sstables m)[lv := []] \<and> mgr_cache (drop_tables lv ts m) = mgr_cache m \<and>
    max_level (drop_tables lv ts m) = max_level m \<and> length (level_sstable_size (drop_tables lv ts m)) = length (level_sstable_size m) \<and>
    merge_strategy (drop_tables lv ts m) = merge_strategy m \<and> merge_threshold (drop_tables lv ts m) = merge_threshold m"
  using assms
proof (induction ts arbitrary: m)
  case Nil
  then show ?case by (simp add: drop_tables_def) (metis list_update_id)
next
  case (Cons t ts)
  let ?m = "m\<lparr>level_sstables := (level_sstables m)[lv := remove1 t (level_sstables m ! lv)],
    level_sstable_size := (level_sstable_size m)[lv := level_sstable_size m ! lv - sst_file_size t]\<rparr>"
  have "drop_tables lv (t # ts) m = drop_tables lv ts ?m" using Cons.prems by (simp add: drop_tables_def)
  then show ?case using Cons.IH [of ?m] Cons.prems by simp
qed

lemma remove_files_sel [simp]:
  "level_sstables (remove_files ts m) = level_sstables m" "mgr_cache (remove_files ts m) = mgr_cache m"
  "max_level (remove_files ts m) = max_level m" "level_sstable_size (remove_files ts m) = level_sstable_size m"
  "merge_strategy (remove_files ts m) = merge_strategy m" "merge_threshold (remove_files ts m) = merge_threshold m"
  by (simp_all add: remove_files_def)

lemma set_alist_upd: "set (alist_upd k v xs) \<subseteq> insert (k, v) (set xs)"
  by (induction k v xs rule: alist_upd.induct) auto

lemma set_alist_merge: "set (alist_merge m es) \<subseteq> set m \<union> set es"
proof (induction es arbitrary: m)
  case (Cons e es)
  obtain k v where e: "e = (k, v)" by (rule prod.exhaust)
  show ?case using Cons [of "alist_upd k v m"] set_alist_upd [of k v m] by (auto simp: e)
qed simp

definition merged :: "sstable list \<Rightarrow> block" where
  "merged ts = alist_merge [] (concat (map table_entries (rev ts)))"

lemma merged_props:
  assumes "\<forall>t \<in> set ts. table_ok t"
  shows "ksorted (merged ts)" "map_of (merged ts) k = tables_view ts k" "\<forall>e \<in> set (merged ts). entry_ok e \<and> entry_norm e = e"
proof -
  show "ksorted (merged ts)" "map_of (merged ts) k = tables_view ts k"
    using runs.merge_runs [OF assms] by (simp_all add: merged_def)
  have "entry_ok e \<and> entry_norm e = e" if e: "e \<in> set (merged ts)" for e
  proof -
    obtain t where t: "t \<in> set ts" "e \<in> set (table_entries t)"
      using e set_alist_merge [of "[]" "concat (map table_entries (rev ts))"] by (auto simp: merged_def)
    note p = table_entries_props(2,3) [of t]
    have "entry_norm e = e" using p(2) t assms by (metis map_idI map_eq_conv list.map_ident)
    then show ?thesis using p(1) t assms by (auto simp: list_all_iff)
  qed
  then show "\<forall>e \<in> set (merged ts). entry_ok e \<and> entry_norm e = e" by blast
qed

lemma live_entries_props:
  assumes "\<forall>t \<in> set ts. table_ok t"
  shows "ksorted (live_entries now (merged ts))" "list_all entry_ok (live_entries now (merged ts))"
    "map entry_norm (live_entries now (merged ts)) = live_entries now (merged ts)"
    "map_of (live_entries now (merged ts)) k = (case tables_view ts k of Some v \<Rightarrow> if live now v then Some v else None | None \<Rightarrow> None)"
proof -
  note m = merged_props [OF assms]
  let ?P = "\<lambda>e :: string \<times> evalue. \<not> is_deleted (snd e) \<and> \<not> is_expired now (snd e)"
  show "ksorted (live_entries now (merged ts))"
    using m(1) by (simp add: live_entries_def ksorted_def sorted_wrt_map sorted_wrt_filter)
  show "list_all entry_ok (live_entries now (merged ts))" using m(3) by (simp add: live_entries_def list_all_iff)
  show "map entry_norm (live_entries now (merged ts)) = live_entries now (merged ts)"
    using m(3) by (intro map_idI) (simp add: live_entries_def)
  have "map_of (filter ?P es) k = (case map_of es k of Some v \<Rightarrow> if live now v then Some v else None | None \<Rightarrow> None)"
    if "distinct (map fst es)" for es :: block
    using that
  proof (induction es)
    case (Cons e es)
    obtain k' v where "e = (k', v)" by (rule prod.exhaust)
    moreover have "map_of es k' = None" using Cons.prems calculation by (simp add: map_of_eq_None_iff)
    ultimately show ?case using Cons by (auto simp: live_def)
  qed simp
  then show "map_of (live_entries now (merged ts)) k = (case tables_view ts k of Some v \<Rightarrow> if live now v then Some v else None | None \<Rightarrow> None)"
    using m(2) ksorted_distinct [OF m(1)] by (simp add: live_entries_def)
qed

text \<open>Emptying a level that has been copied into the next one.\<close>

lemma concat_update_nil:
  "lv < length xss \<Longrightarrow> concat (xss[lv := []]) = concat (take lv xss) @ concat (drop (Suc lv) xss)"
  by (simp add: upd_conv_take_nth_drop)

lemma cache_ok_subset: "cache_ok T c \<Longrightarrow> T' \<subseteq> T \<Longrightarrow> cache_ok T' c"
  by (rule cache_ok_mono) auto

lemma emptied_level:
  assumes m2: "mgr_inv m2" "level_sstables m2 ! lv = ts" "lv < length (level_sstables m2)"
  shows "mgr_inv (remove_files ts (drop_tables lv ts m2)) \<and> mgr_view (remove_files ts (drop_tables lv ts m2)) =
      tables_view (concat (take lv (level_sstables m2)) @ concat (drop (Suc lv) (level_sstables m2)))"
proof -
  let ?xs = "level_sstables m2" and ?m = "remove_files ts (drop_tables lv ts m2)"
  note d = drop_tables_all [OF m2(3,2)]
  have lev: "level_sstables ?m = ?xs[lv := []]" using d by simp
  have cc: "concat (?xs[lv := []]) = concat (take lv ?xs) @ concat (drop (Suc lv) ?xs)"
    using m2(3) by (rule concat_update_nil)
  have sub: "set (concat (?xs[lv := []])) \<subseteq> set (concat ?xs)"
    unfolding cc by (auto dest: in_set_takeD in_set_dropD)
  have ok: "\<forall>t \<in> set (concat ?xs). table_ok t" "cache_ok (set (concat ?xs)) (mgr_cache m2)"
    using m2(1) unfolding mgr_inv_def by blast+
  have "\<forall>t \<in> set (concat (level_sstables ?m)). table_ok t" unfolding lev using ok(1) sub by blast
  moreover have "cache_ok (set (concat (level_sstables ?m))) (mgr_cache ?m)"
    unfolding lev using cache_ok_subset [OF ok(2) sub] d by simp
  moreover have "length (level_sstables ?m) = Suc (max_level ?m)" "length (level_sstable_size ?m) = Suc (max_level ?m)"
    using m2(1) d by (simp_all add: mgr_inv_def)
  ultimately have "mgr_inv ?m" unfolding mgr_inv_def by blast
  then show ?thesis by (simp only: mgr_view_def lev cc simp_thms)
qed

lemma merge_level_spec:
  assumes inv: "mgr_inv m" and lv: "lv \<le> max_level m" and ne: "level_sstables m ! lv \<noteq> []"
    and fits: "length (blk (live_entries now (merged (level_sstables m ! lv)))) < 2 ^ 60"
  shows "\<exists>m'. merge_level now lv m = Inr (Continue m') \<and> mgr_inv m' \<and>
    (\<forall>k. mgr_view m' k = (case tables_view (concat (take lv (level_sstables m))) k of Some v \<Rightarrow> Some v | None \<Rightarrow>
      (case tables_view (level_sstables m ! lv) k of
         Some v \<Rightarrow> if live now v then Some v else tables_view (concat (drop (Suc lv) (level_sstables m))) k
       | None \<Rightarrow> tables_view (concat (drop (Suc lv) (level_sstables m))) k)))"
proof -
  let ?xs = "level_sstables m" and ?ts = "level_sstables m ! lv"
  have len: "lv < length ?xs" "length ?xs = Suc (max_level m)" using inv lv by (simp_all add: mgr_inv_def)
  have sub: "set ?ts \<subseteq> set (concat ?xs)" using len(1) nth_mem by fastforce
  then have ok: "\<forall>t \<in> set ?ts. table_ok t" using inv unfolding mgr_inv_def by blast
  obtain c where c: "cache_ok (set (concat ?xs)) c" "collect (rev ?ts) (mgr_cache m) = Inr (merged ?ts, c)"
    using collect_spec [of "rev ?ts" "set (concat ?xs)" "mgr_cache m"] sub ok inv by (auto simp: mgr_inv_def merged_def)
  let ?m1 = "m\<lparr>mgr_cache := c\<rparr>" and ?es = "live_entries now (merged ?ts)"
  have inv1: "mgr_inv ?m1" using inv c(1) by (simp add: mgr_inv_def)
  note live = live_entries_props [OF ok, of now]
  define below where "below = concat (drop (Suc lv) ?xs)"
  note final = emptied_level [where ts = "level_sstables m ! lv" and lv = lv]
  show ?thesis
  proof (cases "?es = []")
    case True
    have none: "\<not> live now v" if "tables_view ?ts k = Some v" for k v
      using live(4) [of k] True that by (simp split: if_splits)
    have "merge_level now lv m = Inr (Continue (remove_files ?ts (drop_tables lv ?ts ?m1)))"
      using ne c(2) True by (simp add: merge_level_def store_live_def Let_def)
    then show ?thesis
      using final [OF inv1] len none by (auto simp del: One_nat_def split: option.split)
  next
    case False
    have "storable ?es" using live fits by (simp add: storable_def)
    then obtain t m2 where t: "create_from_entries ?es (Suc lv) ?m1 = Inr (Some t, add_table t (Suc lv) m2)"
      "table_entries t = map entry_norm ?es" "mgr_inv m2" "mgr_inv (add_table t (Suc lv) m2)" "level_sstables m2 = ?xs"
      using create_from_entries_spec [OF inv1 False, of "Suc lv"] by auto
    let ?m3 = "add_table t (Suc lv) m2"
    have len2: "length (level_sstables m2) = Suc (max_level m2)" "length (level_sstable_size m2) = Suc (max_level m2)"
      using t(3) by (simp_all add: mgr_inv_def)
    note g = grow_levels_props [OF len2, of "Suc lv"]
    let ?g = "level_sstables (grow_levels (Suc lv) m2)"
    have lv3: "level_sstables ?m3 = take (Suc lv) ?g @ (t # ?g ! Suc lv) # drop (Suc (Suc lv)) ?g" "Suc lv < length ?g"
      using g by (simp_all add: add_table_def Let_def upd_conv_take_nth_drop)
    have tk: "take (Suc lv) ?g = take (Suc lv) ?xs" "take lv ?g = take lv ?xs" using g(5) t(5) len by simp_all
    have ts3: "level_sstables ?m3 ! lv = ?ts" "lv < length (level_sstables ?m3)" "take lv (level_sstables ?m3) = take lv ?xs"
    proof -
      have u: "level_sstables ?m3 = ?g[Suc lv := t # ?g ! Suc lv]" by (simp add: add_table_def Let_def)
      show "level_sstables ?m3 ! lv = ?ts" "lv < length (level_sstables ?m3)" "take lv (level_sstables ?m3) = take lv ?xs"
        unfolding u using lv3(2) tk(2) len g(5) t(5) by (simp_all add: nth_append)
    qed
    have "concat (drop (Suc lv) (level_sstables ?m3)) = t # ?g ! Suc lv @ concat (drop (Suc (Suc lv)) ?g)"
      using lv3 by simp
    also have "?g ! Suc lv @ concat (drop (Suc (Suc lv)) ?g) = concat (drop (Suc lv) ?g)"
      using lv3(2) by (metis Cons_nth_drop_Suc concat.simps(2))
    also have "concat (drop (Suc lv) ?g) = below" using g(5) t(5) by (simp add: below_def)
    finally have dr: "concat (drop (Suc lv) (level_sstables ?m3)) = t # below" .
    have ml: "merge_level now lv m = Inr (Continue (remove_files ?ts (drop_tables lv ?ts ?m3)))"
      using ne c(2) False t(1) by (simp add: merge_level_def store_live_def Let_def)
    note f = final [OF t(4) ts3(1,2)]
    have "mgr_view (remove_files ?ts (drop_tables lv ?ts ?m3)) k =
      (case tables_view (concat (take lv ?xs)) k of Some v \<Rightarrow> Some v | None \<Rightarrow>
        (case map_of ?es k of Some v \<Rightarrow> Some v | None \<Rightarrow> tables_view below k))" for k
      using f by (simp add: ts3(3) dr t(2) live(3) split: option.split)
    then show ?thesis
      using ml f live(4) unfolding below_def [symmetric]
      by (intro exI [of _ "remove_files ?ts (drop_tables lv ?ts ?m3)"]) (auto split: option.splits if_splits)
  qed
qed

section \<open>Compaction ends\<close>

definition mgr_shape :: "sst_manager \<Rightarrow> bool" where
  "mgr_shape m \<longleftrightarrow> length (level_sstables m) = Suc (max_level m) \<and> length (level_sstable_size m) = Suc (max_level m)"

lemma create_shape:
  assumes "create_from_entries es lv m = Inr (t, m')" "es \<noteq> []"
  shows "\<exists>u n d. t = Some u \<and> m' = add_table u lv (m\<lparr>next_sequence_number := n, sst_dir := d\<rparr>)"
  using assms(1) unfolding create_from_entries_add [OF assms(2)] Let_def by (auto simp: rbind_eq_Inr_iff)

lemma add_table_shape:
  assumes "mgr_shape m"
  shows "mgr_shape (add_table t lv m)" "max_level (add_table t lv m) = max (max_level m) lv"
    "merge_strategy (add_table t lv m) = merge_strategy m" "merge_threshold (add_table t lv m) = merge_threshold m"
    "max_level m < lv \<Longrightarrow> level_sstables (add_table t lv m) ! lv = [t]"
    "l < lv \<Longrightarrow> l \<le> max_level m \<Longrightarrow> level_sstables (add_table t lv m) ! l = level_sstables m ! l"
proof -
  have len: "length (level_sstables m) = Suc (max_level m)" "length (level_sstable_size m) = Suc (max_level m)"
    using assms by (simp_all add: mgr_shape_def)
  note g = grow_levels_props [OF len, of lv]
  show "mgr_shape (add_table t lv m)" "max_level (add_table t lv m) = max (max_level m) lv"
    "merge_strategy (add_table t lv m) = merge_strategy m" "merge_threshold (add_table t lv m) = merge_threshold m"
    using g by (simp_all add: add_table_def Let_def mgr_shape_def)
  show "max_level m < lv \<Longrightarrow> level_sstables (add_table t lv m) ! lv = [t]"
    using g(5) len by (simp add: add_table_def Let_def nth_append)
  show "l < lv \<Longrightarrow> l \<le> max_level m \<Longrightarrow> level_sstables (add_table t lv m) ! l = level_sstables m ! l"
    using g(5) len by (simp add: add_table_def Let_def nth_append)
qed

lemma merge_level_shape:
  assumes sh: "mgr_shape m" and lv: "lv \<le> max_level m" and c: "merge_level now lv m = Inr (Continue m')"
  shows "mgr_shape m' \<and> merge_strategy m' = merge_strategy m \<and> merge_threshold m' = merge_threshold m \<and>
    (max_level m' = max_level m \<or> lv = max_level m \<and> max_level m' = Suc lv \<and> length (level_sstables m' ! Suc lv) = 1)"
proof -
  let ?ts = "level_sstables m ! lv"
  obtain mp cc ok m2 where m2: "m' = remove_files ?ts (drop_tables lv ?ts m2)" "ok"
    "store_live (live_entries now mp) (lv + 1) (m\<lparr>mgr_cache := cc\<rparr>) = Inr (ok, m2)"
    using c by (auto simp: merge_level_def Let_def rbind_eq_Inr_iff split: if_splits)
  have a: "m2 = m\<lparr>mgr_cache := cc\<rparr> \<or> (\<exists>u n d. m2 = add_table u (Suc lv) (m\<lparr>mgr_cache := cc, next_sequence_number := n, sst_dir := d\<rparr>))"
  proof (cases "live_entries now mp = []")
    case True
    then show ?thesis using m2(3) by (simp add: store_live_def)
  next
    case False
    then show ?thesis using m2(3) [unfolded store_live_def] create_shape [OF _ False] by (fastforce simp: rbind_eq_Inr_iff)
  qed
  have m2s: "mgr_shape m2 \<and> merge_strategy m2 = merge_strategy m \<and> merge_threshold m2 = merge_threshold m \<and> level_sstables m2 ! lv = ?ts \<and>
    (max_level m2 = max_level m \<or> lv = max_level m \<and> max_level m2 = Suc lv \<and> length (level_sstables m2 ! Suc lv) = 1)"
    using a
  proof (elim disjE exE)
    assume "m2 = m\<lparr>mgr_cache := cc\<rparr>"
    then show ?thesis using sh by (simp add: mgr_shape_def)
  next
    fix u n d assume e: "m2 = add_table u (Suc lv) (m\<lparr>mgr_cache := cc, next_sequence_number := n, sst_dir := d\<rparr>)"
    have "mgr_shape (m\<lparr>mgr_cache := cc, next_sequence_number := n, sst_dir := d\<rparr>)" using sh by (simp add: mgr_shape_def)
    note s = add_table_shape [OF this, where t = u and lv = "Suc lv"]
    show ?thesis using s(1-5) s(6) [where l = lv] lv unfolding e [symmetric] by (auto simp: max_def)
  qed
  have l: "lv < length (level_sstables m2)" using m2s lv by (auto simp: mgr_shape_def)
  note d = drop_tables_all [OF l, of ?ts]
  show ?thesis using m2s d unfolding m2(1) by (auto simp: mgr_shape_def)
qed

lemma size_tiered_ends:
  "mgr_shape m \<Longrightarrow> merge_strategy m = SIZE_TIERED_COMPACTION \<Longrightarrow> 2 \<le> merge_threshold m \<Longrightarrow>
     max_level m + 2 \<le> fuel + lv \<Longrightarrow> 0 < fuel \<Longrightarrow> merge_sstables fuel now lv m \<noteq> None"
proof (induction fuel arbitrary: lv m)
  case (Suc n)
  show ?case
  proof (cases "lv \<le> max_level m \<and> merge_threshold m \<le> length (level_sstables m ! lv)")
    case False
    then show ?thesis using Suc.prems by auto
  next
    case True
    have n: "0 < n" using Suc.prems True by simp
    have "merge_by_strategy_0 (merge_sstables n now) now lv m \<noteq> None"
    proof (cases "merge_level now lv m")
      case (Inr st)
      show ?thesis
      proof (cases st)
        case (Continue m')
        note sh = merge_level_shape [OF Suc.prems(1) _ Inr [unfolded Continue]]
        have m': "mgr_shape m'" "merge_strategy m' = SIZE_TIERED_COMPACTION" "2 \<le> merge_threshold m'"
          using sh True Suc.prems(2,3) by auto
        consider "max_level m' = max_level m" | "max_level m' = Suc lv" "length (level_sstables m' ! Suc lv) = 1"
          using sh True by auto
        then have "merge_sstables n now (lv + 1) m' \<noteq> None"
        proof cases
          case 1
          then show ?thesis using Suc.IH [OF m', of "lv + 1"] Suc.prems(4) n by simp
        next
          case 2
          obtain k where "n = Suc k" using n by (cases n) auto
          then show ?thesis using 2 m'(2,3) by simp
        qed
        then show ?thesis using Inr Continue by (simp add: merge_by_strategy_0_def)
      qed (use Inr in \<open>simp add: merge_by_strategy_0_def\<close>)
    qed (simp add: merge_by_strategy_0_def)
    then show ?thesis using True Suc.prems(2) by simp
  qed
qed simp

section \<open>A new directory\<close>

definition mgr_fresh :: "merge_strategy \<Rightarrow> nat \<Rightarrow> (nat \<Rightarrow> u64 \<Rightarrow> bool) \<Rightarrow> sst_manager" where
  "mgr_fresh strat thr full = \<lparr>sst_dir = [(''.smeta'', int_to_string (strategy_number strat))], merge_strategy = strat,
     merge_threshold = thr, level_full = full, level_sstables = [[]], level_sstable_size = [0], max_level = 0,
     next_sequence_number = 1, sstable_count = 0, mgr_cache = lru_new BlockCacheCapacity\<rparr>"

lemma mgr_new_fresh: "mgr_new (Suc fuel) now strat thr full [] = Some (Inr (mgr_fresh strat thr full))"
  by (simp add: mgr_new_def load_all_def Let_def normalize_sstables_def sort_sstables_by_sequence_def newest_first_def
      write_smeta_def mgr_fresh_def)

lemma mgr_fresh_inv: "mgr_inv (mgr_fresh strat thr full)"
  using cache_ok_new [of BlockCacheCapacity "{}"] by (simp add: mgr_inv_def mgr_fresh_def BlockCacheCapacity_def)

lemma mgr_fresh_view: "mgr_view (mgr_fresh strat thr full) k = None"
  by (simp add: mgr_view_def mgr_fresh_def)

section \<open>Properties\<close>

text \<open>
  Adding a table to level 0 (the flush of a memtable) makes its entries the newest: a lookup
  returns the new value of a key the table holds and what it returned before for every other
  key, whatever mixture of cached and uncached tables answers.
\<close>

theorem new_table_shadows_older:
  assumes "mgr_inv m" "es \<noteq> []" "storable es"
  shows "\<exists>t m'. create_from_entries es 0 m = Inr (Some t, m') \<and> mgr_inv m' \<and>
    (\<forall>k. \<exists>old m1 m2. mgr_get k m = Inr (old, m1) \<and>
      mgr_get k m' = Inr (case map_of es k of Some v \<Rightarrow> Some (evalue_norm v) | None \<Rightarrow> old, m2))"
proof -
  obtain t m' where c: "create_from_entries es 0 m = Inr (Some t, m')" "mgr_inv m'"
    "\<And>k. mgr_view m' k = (case map_of es k of Some v \<Rightarrow> Some (evalue_norm v) | None \<Rightarrow> mgr_view m k)"
    using create_level_0_view [OF assms] by blast
  have "\<exists>old m1 m2. mgr_get k m = Inr (old, m1) \<and>
      mgr_get k m' = Inr (case map_of es k of Some v \<Rightarrow> Some (evalue_norm v) | None \<Rightarrow> old, m2)" for k
    using mgr_get_spec [OF assms(1), of k] mgr_get_spec [OF c(2), of k] c(3) [of k] by auto
  then show ?thesis using c(1,2) by blast
qed

theorem new_table_shadows_older_witness:
  "\<exists>t m'. create_from_entries [(''k'', mk_evalue (VString ''v''))] 0 (mgr_fresh SIZE_TIERED_COMPACTION 4 (\<lambda>_ _. False)) = Inr (Some t, m') \<and>
     (\<exists>m2. mgr_get ''k'' m' = Inr (Some (mk_evalue (VString ''v'')), m2))"
proof -
  have "storable [(''k'', mk_evalue (VString ''v''))]" by (simp add: storable_simps)
  from new_table_shadows_older [OF mgr_fresh_inv _ this, of SIZE_TIERED_COMPACTION 4 "\<lambda>_ _. False"]
  obtain t m' where c: "create_from_entries [(''k'', mk_evalue (VString ''v''))] 0 (mgr_fresh SIZE_TIERED_COMPACTION 4 (\<lambda>_ _. False)) = Inr (Some t, m')"
    and g: "\<And>k. \<exists>old m2. mgr_get k m' = Inr (case map_of [(''k'', mk_evalue (VString ''v''))] k of
      Some v \<Rightarrow> Some (evalue_norm v) | None \<Rightarrow> old, m2)" by blast
  show ?thesis using c g [of "''k''"] by (simp add: evalue_norm_def mk_evalue_def)
qed

text \<open>
  C16: Merging a level into the next one keeps every live value readable: a key that a lookup
  resolves to a value neither deleted nor expired resolves to the same value afterwards. A key
  that resolved to a deleted or expired value of the merged level disappears, provided no deeper
  level holds an older version of it. The structural invariant is kept.
\<close>

theorem compaction_keeps_live_values:
  assumes "mgr_inv m" "lv \<le> max_level m" "level_sstables m ! lv \<noteq> []"
    and "length (blk (live_entries now (merged (level_sstables m ! lv)))) < 2 ^ 60"
  shows "\<exists>m'. merge_level now lv m = Inr (Continue m') \<and> mgr_inv m' \<and>
    (\<forall>k v. mgr_view m k = Some v \<and> live now v \<longrightarrow> mgr_view m' k = Some v) \<and>
    (\<forall>k. tables_view (concat (drop (Suc lv) (level_sstables m))) k = None \<longrightarrow>
       (mgr_view m' k = mgr_view m k \<or> (\<exists>v. mgr_view m k = Some v \<and> \<not> live now v \<and> mgr_view m' k = None)))"
proof -
  obtain m' where m': "merge_level now lv m = Inr (Continue m')" "mgr_inv m'"
    "\<And>k. mgr_view m' k = (case tables_view (concat (take lv (level_sstables m))) k of Some v \<Rightarrow> Some v | None \<Rightarrow>
      (case tables_view (level_sstables m ! lv) k of
         Some v \<Rightarrow> if live now v then Some v else tables_view (concat (drop (Suc lv) (level_sstables m))) k
       | None \<Rightarrow> tables_view (concat (drop (Suc lv) (level_sstables m))) k))"
    using merge_level_spec [OF assms] by blast
  have "lv < length (level_sstables m)" using assms(1,2) by (simp add: mgr_inv_def)
  then have split: "level_sstables m = take lv (level_sstables m) @ level_sstables m ! lv # drop (Suc lv) (level_sstables m)"
    by (rule id_take_nth_drop)
  have v: "mgr_view m k = (case tables_view (concat (take lv (level_sstables m))) k of Some v \<Rightarrow> Some v | None \<Rightarrow>
      (case tables_view (level_sstables m ! lv) k of Some v \<Rightarrow> Some v
       | None \<Rightarrow> tables_view (concat (drop (Suc lv) (level_sstables m))) k))" for k
    unfolding mgr_view_def by (subst split) (simp split: option.split)
  have "mgr_view m k = Some v \<and> live now v \<longrightarrow> mgr_view m' k = Some v" for k v
    using v [of k] m'(3) [of k] by (auto split: option.splits if_splits)
  moreover have "tables_view (concat (drop (Suc lv) (level_sstables m))) k = None \<longrightarrow>
       (mgr_view m' k = mgr_view m k \<or> (\<exists>v. mgr_view m k = Some v \<and> \<not> live now v \<and> mgr_view m' k = None))" for k
    using v [of k] m'(3) [of k] by (auto split: option.splits if_splits)
  ultimately show ?thesis using m'(1,2) by blast
qed

lemma table_of_one_entry:
  assumes "mgr_inv m" "storable [e]"
  shows "\<exists>m'. create_from_entries [e] 0 m = Inr (Some (hd (level_sstables m' ! 0)), m') \<and> mgr_inv m' \<and>
    level_sstables m' = (level_sstables m)[0 := hd (level_sstables m' ! 0) # level_sstables m ! 0] \<and>
    max_level m' = max_level m \<and> table_entries (hd (level_sstables m' ! 0)) = [entry_norm e]"
proof -
  obtain t m1 where t: "create_from_entries [e] 0 m = Inr (Some t, add_table t 0 m1)" "table_entries t = map entry_norm [e]"
    "mgr_inv (add_table t 0 m1)" "level_sstables m1 = level_sstables m" "max_level m1 = max_level m"
    using create_from_entries_spec [OF assms(1) _ assms(2), of 0] by auto (metis sst_manager.select_convs sst_manager.surjective sst_manager.update_convs)
  have "level_sstables m \<noteq> []" using assms(1) by (auto simp: mgr_inv_def)
  then show ?thesis
    using t by (intro exI [of _ "add_table t 0 m1"]) (simp add: add_table_def grow_levels_def Let_def)
qed

theorem compaction_keeps_live_values_witness:
  "\<exists>m m'. mgr_view m ''k'' = Some (mk_evalue (VString ''v'')) \<and> merge_level 5 0 m = Inr (Continue m') \<and>
     mgr_view m' ''k'' = Some (mk_evalue (VString ''v''))"
proof -
  let ?e = "(''k'', mk_evalue (VString ''v''))"
  have st: "storable [?e]" "entry_norm ?e = ?e" by (simp_all add: storable_simps entry_norm_def evalue_norm_def)
  obtain m where m: "mgr_inv m" "level_sstables m = (level_sstables (mgr_fresh SIZE_TIERED_COMPACTION 4 (\<lambda>_ _. False)))[0 := [hd (level_sstables m ! 0)]]"
    "table_entries (hd (level_sstables m ! 0)) = [?e]"
    using table_of_one_entry [OF mgr_fresh_inv st(1), of SIZE_TIERED_COMPACTION 4 "\<lambda>_ _. False"] st(2) by (auto simp: mgr_fresh_def)
  obtain t where lev: "level_sstables m = [[t]]" "table_entries t = [?e]"
    using m(2,3) by (cases "level_sstables m ! 0") (auto simp: mgr_fresh_def)
  have live: "live 5 (mk_evalue (VString ''v''))" by (simp add: live_def is_deleted_def is_expired_def mk_evalue_def)
  have "live_entries 5 (merged [t]) = [?e]"
    using live by (simp add: live_entries_def merged_def lev(2) live_def)
  then have "length (blk (live_entries 5 (merged (level_sstables m ! 0)))) < 2 ^ 60" using st(1) by (simp add: lev storable_def)
  from compaction_keeps_live_values [OF m(1) _ _ this] obtain m' where m': "merge_level 5 0 m = Inr (Continue m')"
    "\<And>k v. mgr_view m k = Some v \<and> live 5 v \<longrightarrow> mgr_view m' k = Some v" by (auto simp: lev)
  have "mgr_view m ''k'' = Some (mk_evalue (VString ''v''))" by (simp add: mgr_view_def lev)
  then show ?thesis using m' live by blast
qed

text \<open>
  Deleted keys can come back. Merging a level drops its tombstones even when a deeper level
  still holds an older value of the key, so after the merge a lookup returns the old value: there
  is a consistent manager in which a key resolves to a deletion mark and, after one merge of level
  0, to the value it had before it was deleted.
\<close>

theorem compaction_resurrects_deleted_key:
  "\<exists>m m'. mgr_inv m \<and> mgr_view m ''k'' = Some tombstone \<and> merge_level now 0 m = Inr (Continue m') \<and>
     mgr_view m' ''k'' = Some (mk_evalue (VString ''old''))"
proof -
  let ?m0 = "mgr_fresh SIZE_TIERED_COMPACTION 4 (\<lambda>_ _. False)" and ?e = "(''k'', mk_evalue (VString ''old''))"
  have st: "storable [?e]" "entry_norm ?e = ?e" "storable [(''k'', tombstone)]" "entry_norm (''k'', tombstone) = (''k'', tombstone)"
    by (simp_all add: storable_simps entry_norm_def evalue_norm_def)
  obtain t1 m1 where t1: "table_entries t1 = [?e]" "mgr_inv (add_table t1 1 m1)" "level_sstables m1 = [[]]" "max_level m1 = 0"
  proof -
    have "mgr_inv ?m0" by (rule mgr_fresh_inv)
    from create_from_entries_spec [OF this _ st(1), of 1] obtain t m1 where c: "table_entries t = map entry_norm [?e]" "mgr_inv (add_table t 1 m1)"
      "level_sstables m1 = level_sstables ?m0" "m1 = ?m0\<lparr>next_sequence_number := next_sequence_number m1, sst_dir := sst_dir m1\<rparr>" by blast
    have "max_level m1 = max_level ?m0" by (subst c(4)) simp
    then show thesis using that [of t m1] c(1-3) st(2) by (simp add: mgr_fresh_def)
  qed
  define n1 where "n1 = add_table t1 1 m1"
  have l1: "level_sstables n1 = [[], [t1]]" "mgr_inv n1"
    using t1(2-4) unfolding n1_def by (simp_all add: add_table_def grow_levels_def Let_def)
  obtain m where m: "mgr_inv m" "level_sstables m = [[], [t1]][0 := [hd (level_sstables m ! 0)]]"
    "table_entries (hd (level_sstables m ! 0)) = [(''k'', tombstone)]"
    using table_of_one_entry [OF l1(2) st(3)] st(4) by (auto simp: l1(1))
  obtain t0 where lev: "level_sstables m = [[t0], [t1]]" "table_entries t0 = [(''k'', tombstone)]"
    using m(2,3) by (cases "level_sstables m ! 0") auto
  have dead: "\<not> live now tombstone" by (simp add: live_def is_deleted_def tombstone_def)
  have "live_entries now (merged [t0]) = []"
    using dead by (simp add: live_entries_def merged_def lev(2) live_def)
  then have fits: "length (blk (live_entries now (merged (level_sstables m ! 0)))) < 2 ^ 60" by (simp add: lev)
  have "0 \<le> max_level m" "level_sstables m ! 0 \<noteq> []" by (simp_all add: lev)
  from merge_level_spec [OF m(1) this fits] obtain m' where m': "merge_level now 0 m = Inr (Continue m')"
    "mgr_view m' ''k'' = Some (mk_evalue (VString ''old''))"
    using dead t1(1) by (auto simp: lev)
  moreover have "mgr_view m ''k'' = Some tombstone" by (simp add: mgr_view_def lev)
  ultimately show ?thesis using m(1) by blast
qed



text \<open>
  A range query over all tables returns, in key order, exactly the newest version of every key
  within the bounds, the version a lookup of that key finds.
\<close>

theorem range_query_newest_versions:
  assumes "mgr_inv m"
  shows "\<exists>mp m'. range_query a b m = Inr (mp, m') \<and> sorted_wrt (<) (map fst mp) \<and>
    (\<forall>k. \<exists>r m2. mgr_get k m = Inr (r, m2) \<and> map_of mp k = (if a \<le> k \<and> k \<le> b then r else None))"
proof -
  obtain mp c where r: "range_query a b m = Inr (mp, m\<lparr>mgr_cache := c\<rparr>)" "ksorted mp"
    "\<And>k. map_of mp k = (if a \<le> k \<and> k \<le> b then mgr_view m k else None)"
    using range_query_spec [OF assms, of a b] by blast
  have "\<exists>r m2. mgr_get k m = Inr (r, m2) \<and> map_of mp k = (if a \<le> k \<and> k \<le> b then r else None)" for k
    using mgr_get_spec [OF assms, of k] r(3) [of k] by auto
  then show ?thesis using r(1,2) by (auto simp: ksorted_def)
qed

theorem range_query_newest_versions_witness:
  "\<exists>mp m'. range_query ''a'' ''z'' (mgr_fresh LEVEL_COMPACTION 2 (\<lambda>_ _. False)) = Inr (mp, m') \<and> mp = []"
proof -
  let ?m = "mgr_fresh LEVEL_COMPACTION 2 (\<lambda>_ _. False)"
  obtain mp m' where r: "range_query ''a'' ''z'' ?m = Inr (mp, m')"
    "\<And>k. \<exists>r m2. mgr_get k ?m = Inr (r, m2) \<and> map_of mp k = (if ''a'' \<le> k \<and> k \<le> ''z'' then r else None)"
    using range_query_newest_versions [OF mgr_fresh_inv, of "''a''" "''z''" LEVEL_COMPACTION 2 "\<lambda>_ _. False"] by blast
  have "map_of mp k = None" for k
    using r(2) [of k] mgr_get_spec [OF mgr_fresh_inv, of k LEVEL_COMPACTION 2 "\<lambda>_ _. False"] by (auto simp: mgr_fresh_view split: if_splits)
  then have "mp = []" by (metis map_of_eq_None_iff empty_iff image_is_empty set_empty2 all_not_in_conv)
  then show ?thesis using r(1) by blast
qed

end
