(* ===== verification/Wal.thy ===== *)
theory Wal
  imports Serializer
begin

text \<open>
  \<open>Wal\<close> (\<open>storage/wal.h\<close>, \<open>wal.cpp\<close>): the write-ahead log, a directory of append-only files. A
  file carries its bytes and how many of them are known to be on disk; a crash keeps the latter
  and any part of the rest. File system calls on an open log succeed in this model, as they do
  on a healthy disk; opening a log and appending without an open file are modelled as in the source.
\<close>

section \<open>Records\<close>

type_synonym wal_record = "u8 \<times> string \<times> string"

definition enc_record :: "wal_record \<Rightarrow> bytes" where
  "enc_record r = (case r of (type, key, payload) \<Rightarrow>
     byte8 type @ le32 (word_of_nat (length key)) @ key
       @ le32 (word_of_nat (length payload)) @ (if length payload > 0 then payload else []))"

definition MAX_KEY_LEN :: nat where "MAX_KEY_LEN = 1024 * 1024"
definition MAX_PAYLOAD_LEN :: nat where "MAX_PAYLOAD_LEN = 128 * 1024 * 1024"

text \<open>The reading loop of \<open>recover\<close> on the bytes of one file: it stops at the first record that is cut off or oversized.\<close>

function parse_records :: "bytes \<Rightarrow> wal_record list" where
  "parse_records bs =
     (if length bs < 5 then []
      else
        let klen = unat (of_le32 (take 4 (drop 1 bs))); r1 = drop 5 bs
        in if MAX_KEY_LEN < klen \<or> length r1 < klen + 4 then []
           else
             let plen = unat (of_le32 (take 4 (drop klen r1))); r2 = drop (klen + 4) r1
             in if MAX_PAYLOAD_LEN < plen \<or> length r2 < plen then []
                else (of_byte8 (take 1 bs), take klen r1, take plen r2) # parse_records (drop plen r2))"
  by pat_completeness auto
termination
  by (relation "measure length") auto

declare parse_records.simps [simp del]

section \<open>The log directory\<close>

record wal_file =
  content :: bytes
  synced :: nat

record wal =
  files :: "wal_file umap"
  wal_open :: bool
  wal_file_name :: string
  sync_on_write :: bool
  modified :: bool

definition wal_new :: "wal_file umap \<Rightarrow> bool \<Rightarrow> wal" where
  "wal_new fs sync = \<lparr>files = fs, wal_open = False, wal_file_name = '''', sync_on_write = sync, modified = False\<rparr>"

definition wal_sync :: "wal \<Rightarrow> bool \<times> wal" where
  "wal_sync w =
     (if \<not> modified w \<or> \<not> wal_open w then (True, w)
      else (True, w\<lparr>modified := False,
                    files := (case map_of (files w) (wal_file_name w) of
                       Some f \<Rightarrow> AList.update (wal_file_name w) (f\<lparr>synced := length (content f)\<rparr>) (files w)
                     | None \<Rightarrow> files w)\<rparr>))"

definition write_record :: "wal_record \<Rightarrow> wal \<Rightarrow> bool \<times> wal" where
  "write_record r w =
     (if \<not> wal_open w then (False, w)
      else
        let w' = w\<lparr>modified := True,
                   files := (case map_of (files w) (wal_file_name w) of
                      Some f \<Rightarrow> AList.update (wal_file_name w) (f\<lparr>content := content f @ enc_record r\<rparr>) (files w)
                    | None \<Rightarrow> files w)\<rparr>
        in if sync_on_write w then wal_sync w' else (True, w'))"

definition append_log :: "u8 \<Rightarrow> string \<Rightarrow> string \<Rightarrow> wal \<Rightarrow> bool \<times> wal" where
  "append_log type key payload w = write_record (type, key, payload) w"

text \<open>\<open>path::extension\<close> is \<open>.wal\<close>: the name ends in it and has a stem.\<close>

definition has_wal_extension :: "string \<Rightarrow> bool" where
  "has_wal_extension name \<longleftrightarrow> 4 < length name \<and> drop (length name - 4) name = ''.wal''"

definition wal_file_names :: "wal \<Rightarrow> string list" where
  "wal_file_names w = sort (filter has_wal_extension (map fst (files w)))"

text \<open>
  \<open>recover\<close>: the records of all log files, file by file in name order, with the file they come
  from. Empty files are deleted. The callback's effect is the caller's.
\<close>

definition wal_recover :: "wal \<Rightarrow> (string \<times> wal_record) list \<times> wal" where
  "wal_recover w =
     (let names = wal_file_names w;
          data = (\<lambda>n. case map_of (files w) n of Some f \<Rightarrow> content f | None \<Rightarrow> [])
      in (concat (map (\<lambda>n. map (\<lambda>r. (n, r)) (parse_records (data n))) names),
          w\<lparr>wal_open := False,
            files := filter (\<lambda>(n, f). \<not> (has_wal_extension n \<and> content f = [])) (files w)\<rparr>))"

definition wal_clear :: "string \<Rightarrow> wal \<Rightarrow> bool \<times> wal" where
  "wal_clear filename w =
     (let w1 = (if wal_file_name w = filename \<and> wal_open w
                then w\<lparr>wal_open := False, wal_file_name := '''', modified := False\<rparr> else w)
      in (map_of (files w) filename \<noteq> None, w1\<lparr>files := AList.delete filename (files w1)\<rparr>))"

definition generate_unique_filename :: "nat \<Rightarrow> string" where
  "generate_unique_filename now = ''eya_'' @ nat_to_string now @ ''.wal''"

text \<open>\<open>open_wal_file(filename)\<close> in mode \<open>ab+\<close>: the file is created when it does not exist.\<close>

definition open_wal_file :: "nat \<Rightarrow> string \<Rightarrow> wal \<Rightarrow> string \<times> wal" where
  "open_wal_file now filename w =
     (let w1 = snd (wal_sync w);
          name = (if filename = [] then generate_unique_filename now else filename)
      in (name, w1\<lparr>wal_open := True, wal_file_name := name, modified := False,
                   files := (if map_of (files w1) name = None
                             then files w1 @ [(name, \<lparr>content = [], synced = 0\<rparr>)] else files w1)\<rparr>))"

definition open_new_wal_file :: "nat \<Rightarrow> wal \<Rightarrow> string \<times> wal" where
  "open_new_wal_file now w = open_wal_file now (generate_unique_filename now) w"

section \<open>Crashes\<close>

text \<open>What a crash can leave of the directory: of every file, the synced part and some of the rest.\<close>

definition crash_of :: "wal_file umap \<Rightarrow> wal_file umap \<Rightarrow> bool" where
  "crash_of fs fs' \<longleftrightarrow> map fst fs' = map fst fs \<and>
     (\<forall>i < length fs. \<exists>n. synced (snd (fs ! i)) \<le> n \<and> content (snd (fs' ! i)) = take n (content (snd (fs ! i))))"

section \<open>Reading the log back\<close>

definition record_ok :: "wal_record \<Rightarrow> bool" where
  "record_ok r \<longleftrightarrow> (case r of (type, key, payload) \<Rightarrow> length key \<le> MAX_KEY_LEN \<and> length payload \<le> MAX_PAYLOAD_LEN)"

lemma length_enc_record:
  "length (enc_record (t, k, p)) = 9 + length k + length p"
  by (simp add: enc_record_def)

lemma parse_one:
  assumes "record_ok r"
  shows "parse_records (enc_record r @ bs) = r # parse_records bs"
proof -
  obtain t k p where r: "r = (t, k, p)" by (cases r)
  have lk: "unat (word_of_nat (length k) :: u32) = length k" "length k \<le> MAX_KEY_LEN"
    and lp: "unat (word_of_nat (length p) :: u32) = length p" "length p \<le> MAX_PAYLOAD_LEN"
    using assms by (simp_all add: r record_ok_def MAX_KEY_LEN_def MAX_PAYLOAD_LEN_def unat_of_nat_lt)
  define r1 where "r1 = k @ le32 (word_of_nat (length p)) @ p @ bs"
  define x where "x = enc_record r @ bs"
  have e: "x = byte8 t @ le32 (word_of_nat (length k)) @ r1" by (simp add: r enc_record_def x_def r1_def)
  have d: "take 1 x = byte8 t" "take 4 (drop 1 x) = le32 (word_of_nat (length k))"
    "drop 5 x = r1" "\<not> length x < 5"
    by (simp_all add: e)
  have d2: "take 4 (drop (length k) r1) = le32 (word_of_nat (length p))" "drop (length k + 4) r1 = p @ bs"
    "take (length k) r1 = k" "length r1 = length k + 4 + length (p @ bs)"
    by (simp_all add: r1_def)
  have "parse_records x = r # parse_records bs"
    by (subst parse_records.simps) (simp only: d d2 Let_def lk lp of_le32_le32 of_byte8_byte8, use lk lp in \<open>simp add: r\<close>)
  then show ?thesis by (simp add: x_def)
qed

lemma parse_all: "list_all record_ok rs \<Longrightarrow> parse_records (concat (map enc_record rs) @ bs) = rs @ parse_records bs"
  by (induction rs) (simp_all add: parse_one)

lemma parse_cut:
  assumes ok: "record_ok r" and n: "n < length (enc_record r)"
  shows "parse_records (take n (enc_record r)) = []"
proof -
  obtain t k p where r: "r = (t, k, p)" by (cases r)
  let ?kl = "le32 (word_of_nat (length k))" and ?pl = "le32 (word_of_nat (length p))"
  have e: "enc_record r = byte8 t @ ?kl @ k @ ?pl @ p" by (simp add: r enc_record_def)
  have lk: "unat (word_of_nat (length k) :: u32) = length k" and lp: "unat (word_of_nat (length p) :: u32) = length p"
    using ok by (simp_all add: r record_ok_def MAX_KEY_LEN_def MAX_PAYLOAD_LEN_def unat_of_nat_lt)
  let ?bs = "take n (enc_record r)"
  consider "n < 5" | "5 \<le> n" "n < 9 + length k" | "9 + length k \<le> n" by linarith
  then show ?thesis
  proof cases
    case 1
    then show ?thesis by (subst parse_records.simps) simp
  next
    case 2
    have "take 4 (drop 1 ?bs) = ?kl" using 2(1) by (simp add: e take_drop)
    moreover have "length (drop 5 ?bs) < length k + 4" using 2 n by (simp add: r length_enc_record)
    ultimately show ?thesis using lk by (subst parse_records.simps) (simp add: Let_def)
  next
    case 3
    have kl: "take 4 (drop 1 ?bs) = ?kl" using 3 by (simp add: e take_drop)
    have "take 4 (drop (length k) (drop 5 ?bs)) = ?pl" using 3 by (simp add: e take_drop)
    moreover have "length (drop (length k + 4) (drop 5 ?bs)) < length p" using 3 n by (simp add: r length_enc_record)
    ultimately show ?thesis using kl lk lp by (subst parse_records.simps) (simp add: Let_def add.commute)
  qed
qed

definition log_bytes :: "wal_record list \<Rightarrow> bytes" where
  "log_bytes rs = concat (map enc_record rs)"

lemma log_bytes_simps [simp]:
  "log_bytes [] = []" "log_bytes (r # rs) = enc_record r @ log_bytes rs" "log_bytes (rs @ qs) = log_bytes rs @ log_bytes qs"
  by (simp_all add: log_bytes_def)

text \<open>A log cut anywhere: the complete records are read back, in order, and nothing else.\<close>

lemma parse_prefix:
  "list_all record_ok rs \<Longrightarrow>
     \<exists>m \<le> length rs. parse_records (take n (log_bytes rs)) = take m rs \<and>
       (\<forall>j \<le> length rs. length (log_bytes (take j rs)) \<le> n \<longrightarrow> j \<le> m)"
proof (induction rs arbitrary: n)
  case Nil
  then show ?case by (subst parse_records.simps) simp
next
  case (Cons r rs)
  show ?case
  proof (cases "n < length (enc_record r)")
    case True
    then have "parse_records (take n (log_bytes (r # rs))) = []" using Cons.prems parse_cut [of r n] by simp
    moreover have "j = 0" if "j \<le> length (r # rs)" "length (log_bytes (take j (r # rs))) \<le> n" for j
      using that True by (cases j) auto
    ultimately show ?thesis by (intro exI [of _ 0]) auto
  next
    case False
    obtain m where m: "m \<le> length rs" "parse_records (take (n - length (enc_record r)) (log_bytes rs)) = take m rs"
      "\<forall>j \<le> length rs. length (log_bytes (take j rs)) \<le> n - length (enc_record r) \<longrightarrow> j \<le> m"
      using Cons.IH [of "n - length (enc_record r)"] Cons.prems by auto
    have "take n (log_bytes (r # rs)) = enc_record r @ take (n - length (enc_record r)) (log_bytes rs)"
      using False by simp
    then have "parse_records (take n (log_bytes (r # rs))) = take (Suc m) (r # rs)"
      using Cons.prems m(2) by (simp add: parse_one)
    moreover have "j \<le> Suc m" if "j \<le> length (r # rs)" "length (log_bytes (take j (r # rs))) \<le> n" for j
      using that m(3) False by (cases j) auto
    ultimately show ?thesis using m(1) by (intro exI [of _ "Suc m"]) auto
  qed
qed

section \<open>Appending, syncing, crashing\<close>

datatype wal_op = Append wal_record | Sync

fun wal_run :: "wal_op list \<Rightarrow> wal \<Rightarrow> wal" where
  "wal_run [] w = w"
| "wal_run (Append r # ops) w = wal_run ops (snd (write_record r w))"
| "wal_run (Sync # ops) w = wal_run ops (snd (wal_sync w))"

fun appended :: "wal_op list \<Rightarrow> wal_record list" where
  "appended [] = []"
| "appended (Append r # ops) = r # appended ops"
| "appended (Sync # ops) = appended ops"

text \<open>How many records are durable: those before the last sync, or all of them when every write syncs.\<close>

definition durable :: "bool \<Rightarrow> wal_op list \<Rightarrow> nat" where
  "durable s ops = (if s then length (appended ops)
     else length (appended (rev (dropWhile (\<lambda>op. op \<noteq> Sync) (rev ops)))))"

definition wal_state :: "string \<Rightarrow> wal_record list \<Rightarrow> nat \<Rightarrow> wal \<Rightarrow> bool" where
  "wal_state name rs j w \<longleftrightarrow> wal_open w \<and> wal_file_name w = name \<and> j \<le> length rs \<and>
     files w = [(name, \<lparr>content = log_bytes rs, synced = length (log_bytes (take j rs))\<rparr>)] \<and>
     (\<not> modified w \<longrightarrow> j = length rs)"

lemma wal_state_sync: "wal_state name rs j w \<Longrightarrow> wal_state name rs (length rs) (snd (wal_sync w))"
  by (auto simp: wal_state_def wal_sync_def)

lemma wal_state_append:
  assumes "wal_state name rs j w"
  shows "wal_state name (rs @ [r]) (if sync_on_write w then length rs + 1 else j) (snd (write_record r w))"
proof -
  let ?w = "w\<lparr>modified := True, files := [(name, \<lparr>content = log_bytes (rs @ [r]), synced = length (log_bytes (take j rs))\<rparr>)]\<rparr>"
  have st: "wal_state name (rs @ [r]) j ?w" using assms by (auto simp: wal_state_def)
  have "write_record r w = (if sync_on_write w then wal_sync ?w else (True, ?w))"
    using assms by (simp add: write_record_def wal_state_def Let_def)
  then show ?thesis using wal_state_sync [OF st] st by simp
qed

lemma sync_mode [simp]:
  "sync_on_write (snd (wal_sync w)) = sync_on_write w" "sync_on_write (snd (write_record r w)) = sync_on_write w"
  by (simp_all add: wal_sync_def write_record_def Let_def)

lemma wal_run_append: "wal_run (ops @ ops') w = wal_run ops' (wal_run ops w)"
  by (induction ops w rule: wal_run.induct) auto

lemma appended_append: "appended (xs @ ys) = appended xs @ appended ys"
  by (induction xs rule: appended.induct) auto

lemma durable_snoc:
  "durable s (ops @ [Sync]) = length (appended ops)"
  "durable s (ops @ [Append r]) = (if s then length (appended ops) + 1 else durable False ops)"
  by (simp_all add: durable_def appended_append)

lemma wal_run_state:
  assumes "wal_state name [] 0 w"
  shows "\<exists>j. wal_state name (appended ops) j (wal_run ops w) \<and> durable (sync_on_write w) ops \<le> j
    \<and> sync_on_write (wal_run ops w) = sync_on_write w"
proof (induction ops rule: rev_induct)
  case Nil
  then show ?case using assms by (auto simp: durable_def)
next
  case (snoc op ops)
  then obtain j where j: "wal_state name (appended ops) j (wal_run ops w)" "durable (sync_on_write w) ops \<le> j"
    "sync_on_write (wal_run ops w) = sync_on_write w" by blast
  show ?case
  proof (cases op)
    case (Append r)
    have d: "durable (sync_on_write w) (ops @ [Append r]) \<le> (if sync_on_write w then length (appended ops) + 1 else j)"
      using j(2) durable_snoc(2) [of "sync_on_write w" ops r] by (auto split: if_splits)
    show ?thesis
      using wal_state_append [OF j(1), of r] j(3) d by (auto simp: Append wal_run_append appended_append)
  next
    case Sync
    then show ?thesis
      using wal_state_sync [OF j(1)] j(3) by (auto simp: wal_run_append appended_append durable_snoc)
  qed
qed

lemma opened_state:
  "wal_state (generate_unique_filename now) [] 0 (snd (open_new_wal_file now (wal_new [] s)))"
  "sync_on_write (snd (open_new_wal_file now (wal_new [] s))) = s"
  by (simp_all add: wal_state_def open_new_wal_file_def open_wal_file_def wal_new_def wal_sync_def Let_def generate_unique_filename_def)

lemma generated_extension: "has_wal_extension (generate_unique_filename now)"
  by (simp add: has_wal_extension_def generate_unique_filename_def)

section \<open>Properties\<close>

text \<open>
  C10: Crash recovery of the log. After any sequence of appends and syncs on a freshly opened log and
  a crash that keeps the synced bytes of the file and an arbitrary part of the rest, \<open>recover\<close>
  hands out exactly a prefix of the appended records, in order, and that prefix contains every
  record that was durable: all records before the last sync, and all records when the log syncs
  on every write.
\<close>
theorem wal_crash_recovery:
  assumes "list_all record_ok (appended ops)"
    and "crash_of (files (wal_run ops (snd (open_new_wal_file now (wal_new [] s))))) fs'"
  shows "\<exists>m. map snd (fst (wal_recover (wal_new fs' s))) = take m (appended ops) \<and> durable s ops \<le> m"
proof -
  let ?name = "generate_unique_filename now" and ?rs = "appended ops"
  obtain j where st: "wal_state ?name ?rs j (wal_run ops (snd (open_new_wal_file now (wal_new [] s))))"
    and d: "durable s ops \<le> j"
    using wal_run_state [OF opened_state(1) [of now s], of ops] by (auto simp: opened_state(2))
  then have fs: "files (wal_run ops (snd (open_new_wal_file now (wal_new [] s)))) =
      [(?name, \<lparr>content = log_bytes ?rs, synced = length (log_bytes (take j ?rs))\<rparr>)]" by (simp add: wal_state_def)
  obtain f where f: "fs' = [(?name, f)]" using assms(2) unfolding fs by (auto simp: crash_of_def)
  then obtain n where n: "length (log_bytes (take j ?rs)) \<le> n" "content f = take n (log_bytes ?rs)"
    using assms(2) unfolding fs by (auto simp: crash_of_def)
  obtain m where m: "parse_records (take n (log_bytes ?rs)) = take m ?rs"
    "\<forall>j \<le> length ?rs. length (log_bytes (take j ?rs)) \<le> n \<longrightarrow> j \<le> m"
    using parse_prefix [OF assms(1), of n] by blast
  have "j \<le> m" using m(2) n(1) st by (simp add: wal_state_def)
  moreover have "map snd (fst (wal_recover (wal_new fs' s))) = take m ?rs"
    using m(1) n f generated_extension [of now]
    by (simp add: wal_recover_def wal_file_names_def wal_new_def Let_def comp_def)
  ultimately show ?thesis using d by (intro exI [of _ m]) simp
qed

theorem wal_crash_recovery_witness:
  "\<exists>m. map snd (fst (wal_recover (wal_new [(''eya_7.wal'', \<lparr>content = enc_record (1, ''k'', ''v''), synced = 0\<rparr>)] False)))
      = take m [(1, ''k'', ''v''), (2, ''k'', '''')] \<and> 1 \<le> m"
proof -
  let ?ops = "[Append (1, ''k'', ''v''), Sync, Append (2, ''k'', '''')]"
  have name: "generate_unique_filename 7 = ''eya_7.wal''"
    by (simp add: generate_unique_filename_def nat_to_string.simps digit_char_def)
  have "files (wal_run ?ops (snd (open_new_wal_file 7 (wal_new [] False)))) =
      [(''eya_7.wal'', \<lparr>content = log_bytes [(1, ''k'', ''v''), (2, ''k'', '''')], synced = 11\<rparr>)]"
    by (simp add: open_new_wal_file_def open_wal_file_def wal_new_def wal_sync_def write_record_def Let_def name length_enc_record)
  then have "crash_of (files (wal_run ?ops (snd (open_new_wal_file 7 (wal_new [] False)))))
      [(''eya_7.wal'', \<lparr>content = enc_record (1, ''k'', ''v''), synced = 0\<rparr>)]"
    by (auto simp: crash_of_def length_enc_record intro!: exI [of _ "11 :: nat"])
  moreover have "list_all record_ok (appended ?ops)" by (simp add: record_ok_def MAX_KEY_LEN_def MAX_PAYLOAD_LEN_def)
  ultimately show ?thesis
    using wal_crash_recovery [of ?ops 7 False] by (simp add: durable_def)
qed

end
