(* ===== verification/OperationType.thy ===== *)
theory OperationType
  imports CppLib
begin

text \<open>
  \<open>common/types/operation_type.h\<close>: the operation codes that commands, log records and Raft entries
  carry, the command names, and the classification of operations that decides where a command
  runs: reads on any node, writes through the leader's log, cluster administration in the Raft
  layer.
\<close>

section \<open>Codes\<close>

abbreviation kKeys :: u8 where "kKeys \<equiv> 0"
abbreviation kExists :: u8 where "kExists \<equiv> 1"
abbreviation kRemove :: u8 where "kRemove \<equiv> 2"
abbreviation kRange :: u8 where "kRange \<equiv> 3"
abbreviation kExpire :: u8 where "kExpire \<equiv> 4"
abbreviation kGet :: u8 where "kGet \<equiv> 5"
abbreviation kSet :: u8 where "kSet \<equiv> 6"
abbreviation kSAdd :: u8 where "kSAdd \<equiv> 7"
abbreviation kSRem :: u8 where "kSRem \<equiv> 8"
abbreviation kSMembers :: u8 where "kSMembers \<equiv> 9"
abbreviation kZAdd :: u8 where "kZAdd \<equiv> 10"
abbreviation kZRem :: u8 where "kZRem \<equiv> 11"
abbreviation kZScore :: u8 where "kZScore \<equiv> 12"
abbreviation kZRank :: u8 where "kZRank \<equiv> 13"
abbreviation kZCard :: u8 where "kZCard \<equiv> 14"
abbreviation kZIncrBy :: u8 where "kZIncrBy \<equiv> 15"
abbreviation kZRangeByRank :: u8 where "kZRangeByRank \<equiv> 16"
abbreviation kZRangeByScore :: u8 where "kZRangeByScore \<equiv> 17"
abbreviation kZRemByRank :: u8 where "kZRemByRank \<equiv> 18"
abbreviation kZRemByScore :: u8 where "kZRemByScore \<equiv> 19"
abbreviation kLPush :: u8 where "kLPush \<equiv> 20"
abbreviation kLPop :: u8 where "kLPop \<equiv> 21"
abbreviation kRPush :: u8 where "kRPush \<equiv> 22"
abbreviation kRPop :: u8 where "kRPop \<equiv> 23"
abbreviation kLRange :: u8 where "kLRange \<equiv> 24"
abbreviation kLGet :: u8 where "kLGet \<equiv> 25"
abbreviation kLSize :: u8 where "kLSize \<equiv> 26"
abbreviation kLPopN :: u8 where "kLPopN \<equiv> 27"
abbreviation kRPopN :: u8 where "kRPopN \<equiv> 28"
abbreviation kHSet :: u8 where "kHSet \<equiv> 29"
abbreviation kHGet :: u8 where "kHGet \<equiv> 30"
abbreviation kHDel :: u8 where "kHDel \<equiv> 31"
abbreviation kHKeys :: u8 where "kHKeys \<equiv> 32"
abbreviation kHValues :: u8 where "kHValues \<equiv> 33"
abbreviation kHEntries :: u8 where "kHEntries \<equiv> 34"
abbreviation kGetMaster :: u8 where "kGetMaster \<equiv> 35"
abbreviation kSetMaster :: u8 where "kSetMaster \<equiv> 36"
abbreviation kRemoveNode :: u8 where "kRemoveNode \<equiv> 37"
abbreviation kListNodes :: u8 where "kListNodes \<equiv> 38"
abbreviation kGetStatus :: u8 where "kGetStatus \<equiv> 39"

definition operationTypeMap :: "(string \<times> u8) list" where
  "operationTypeMap =
     [(''keys'', kKeys), (''exists'', kExists), (''remove'', kRemove), (''range'', kRange),
      (''expire'', kExpire), (''get'', kGet), (''set'', kSet), (''sadd'', kSAdd),
      (''srem'', kSRem), (''smembers'', kSMembers), (''zadd'', kZAdd), (''zrem'', kZRem),
      (''zscore'', kZScore), (''zrank'', kZRank), (''zcard'', kZCard), (''zincr_by'', kZIncrBy),
      (''zrange_by_rank'', kZRangeByRank), (''zrange_by_score'', kZRangeByScore), (''zrem_by_rank'', kZRemByRank), (''zrem_by_score'', kZRemByScore),
      (''lpush'', kLPush), (''lpop'', kLPop), (''rpush'', kRPush), (''rpop'', kRPop),
      (''lrange'', kLRange), (''lget'', kLGet), (''lsize'', kLSize), (''lpopp_n'', kLPopN),
      (''rpopp_n'', kRPopN), (''hset'', kHSet), (''hget'', kHGet), (''hdel'', kHDel),
      (''hkeys'', kHKeys), (''hvalues'', kHValues), (''hentries'', kHEntries), (''get_master'', kGetMaster),
      (''set_master'', kSetMaster), (''remove_node'', kRemoveNode), (''list_nodes'', kListNodes), (''get_status'', kGetStatus)]"

definition read_types :: "u8 list" where
  "read_types =
     [kKeys, kExists, kGet, kSMembers, kZScore, kZRank, kZCard, kZRangeByRank,
      kZRangeByScore, kLRange, kLGet, kLSize, kHGet, kHKeys, kHValues, kHEntries]"

definition write_types :: "u8 list" where
  "write_types =
     [kRemove, kRange, kExpire, kSet, kSAdd, kSRem, kZAdd, kZRem,
      kZIncrBy, kZRemByRank, kZRemByScore, kLPush, kLPop, kRPush, kRPop, kLPopN,
      kRPopN, kHSet, kHDel]"

definition raft_types :: "u8 list" where
  "raft_types =
     [kGetMaster, kSetMaster, kRemoveNode, kListNodes, kGetStatus]"

text \<open>The overload on views reports the lower-case name, the one on strings the name as given.\<close>

definition stringToOperationType :: "string \<Rightarrow> u8 res" where
  "stringToOperationType cmd = (case map_of operationTypeMap (map tolower cmd) of
       Some t \<Rightarrow> Inr t
     | None \<Rightarrow> Inl (RuntimeError (''unknown operation type: '' @ cmd)))"

definition stringToOperationType_view :: "string \<Rightarrow> u8 res" where
  "stringToOperationType_view cmd = (let lower_cmd = map tolower cmd in
     case map_of operationTypeMap lower_cmd of
       Some t \<Rightarrow> Inr t
     | None \<Rightarrow> Inl (RuntimeError (''unknown operation type: '' @ lower_cmd)))"

definition isReadOperation :: "u8 \<Rightarrow> bool" where "isReadOperation t \<longleftrightarrow> t \<in> set read_types"
definition isWriteOperation :: "u8 \<Rightarrow> bool" where "isWriteOperation t \<longleftrightarrow> t \<in> set write_types"
definition isRaftOperation :: "u8 \<Rightarrow> bool" where "isRaftOperation t \<longleftrightarrow> t \<in> set raft_types"

section \<open>Properties\<close>

lemma names_distinct: "distinct (map fst operationTypeMap)"
  by (simp add: operationTypeMap_def)

lemma names_lower: "list_all (\<lambda>(name, t). map tolower name = name) operationTypeMap"
  by code_simp

lemma operation_of_name: "(name, t) \<in> set operationTypeMap \<Longrightarrow> stringToOperationType name = Inr t"
  using names_lower map_of_is_SomeI [OF names_distinct] by (auto simp: stringToOperationType_def list_all_iff)

lemma one_class:
  "list_all (\<lambda>(name, t). length (filter id [isReadOperation t, isWriteOperation t, isRaftOperation t]) = 1) operationTypeMap"
  by code_simp

lemma operations_distinct: "distinct (map snd operationTypeMap)"
  by code_simp

text \<open>
  Every command name denotes an operation of exactly one class: a read, a write or a cluster
  operation. Names are distinct and so are the operations they denote.
\<close>

theorem operations_classified:
  "distinct (map fst operationTypeMap) \<and> distinct (map snd operationTypeMap) \<and>
   list_all (\<lambda>(name, t). stringToOperationType name = Inr t \<and>
     length (filter id [isReadOperation t, isWriteOperation t, isRaftOperation t]) = 1) operationTypeMap"
  using names_distinct operations_distinct operation_of_name one_class unfolding list_all_iff by blast

end
