(* ===== verification/Storage.thy ===== *)
theory Storage
  imports SSTableManager Wal OperationType
begin

text \<open>
  \<open>Storage\<close> (\<open>storage/storage.h\<close>, \<open>storage.cpp\<close>): the engine that ties the layers together. Writes go
  to the write-ahead log and the active memtable; a full memtable becomes immutable, keyed by the
  name of its log file, and is flushed to a table file later. Reads look at the active memtable,
  the immutable ones from the newest, and the table files.

  What the code takes from its surroundings is the argument \<open>env\<close>: the seconds since the epoch
  (\<open>clock\<close>), the finer time stamp that names log files (\<open>stamp\<close>), and the coin flips of the skip
  lists (\<open>draws\<close>). Locks and the background thread are not modelled: each operation runs alone, and
  the background flush is an operation of its own that may happen between any two others.
\<close>

section \<open>State\<close>

record env =
  clock :: nat
  stamp :: nat
  draws :: "nat \<Rightarrow> bool list"

record storage =
  enable_wal :: bool
  read_only :: bool
  closed :: bool
  cfg_memtable_size :: u64
  skiplist_max_level :: nat
  st_memtable :: memtable
  immutable_memtables :: "(string \<times> memtable) list"
  current_wal_filename :: string
  st_wal :: wal
  sstable_manager :: sst_manager
  snapshot_cache_valid :: bool
  snapshot_cache_path :: string
  snapshot_files :: "string list"

text \<open>
  An operation that may throw leaves the state it has reached: a command returns its outcome and
  the state in both cases.
\<close>

type_synonym 'r cmd = "storage \<Rightarrow> 'r res \<times> storage"

definition creturn :: "'r \<Rightarrow> 'r cmd" where "creturn r st = (Inr r, st)"

definition cthrow :: "exn \<Rightarrow> 'r cmd" where "cthrow e st = (Inl e, st)"

definition cbind :: "'a cmd \<Rightarrow> ('a \<Rightarrow> 'b cmd) \<Rightarrow> 'b cmd" where
  "cbind m f st = (case m st of (Inl e, st') \<Rightarrow> (Inl e, st') | (Inr x, st') \<Rightarrow> f x st')"

definition clift :: "'a res \<Rightarrow> 'a cmd" where "clift r st = (r, st)"

lemma cmd_simps [simp]:
  "creturn x st = (Inr x, st)" "cthrow e st = (Inl e, st)" "clift r st = (r, st)"
  "m st = (Inr y, st') \<Longrightarrow> cbind m f st = f y st'" "m st = (Inl e, st') \<Longrightarrow> cbind m f st = (Inl e, st')"
  by (simp_all add: creturn_def cthrow_def clift_def cbind_def)

text \<open>Calls of the table manager; a read that throws has no effect.\<close>

definition with_manager :: "(sst_manager \<Rightarrow> ('a \<times> sst_manager) res) \<Rightarrow> 'a cmd" where
  "with_manager f st = (case f (sstable_manager st) of
       Inl e \<Rightarrow> (Inl e, st)
     | Inr (r, m) \<Rightarrow> (Inr r, st\<lparr>sstable_manager := m\<rparr>))"

definition create_new_memtable :: "storage \<Rightarrow> memtable" where
  "create_new_memtable st = memtable_new (cfg_memtable_size st) (skiplist_max_level st)"

text \<open>\<open>immutable_memtables_\<close> is a \<open>std::map\<close>: ordered by log file name.\<close>

definition rotate_memtable :: "env \<Rightarrow> storage \<Rightarrow> storage" where
  "rotate_memtable env st =
     (let st1 = st\<lparr>immutable_memtables := alist_upd (current_wal_filename st) (st_memtable st) (immutable_memtables st)\<rparr>;
          (name, w) = (if enable_wal st1 then open_new_wal_file (stamp env) (st_wal st1)
                       else (nat_to_string (stamp env), st_wal st1))
      in st1\<lparr>current_wal_filename := name, st_wal := w, st_memtable := create_new_memtable st1\<rparr>)"

definition put_memtable :: "env \<Rightarrow> string \<Rightarrow> evalue \<Rightarrow> unit cmd" where
  "put_memtable env key v st = (case memtable_put (draws env 0) key v (st_memtable st) of
       Inl e \<Rightarrow> (Inl e, st)
     | Inr mt \<Rightarrow> (Inr (), st\<lparr>st_memtable := mt\<rparr>))"

definition write_memtable :: "env \<Rightarrow> string \<Rightarrow> evalue \<Rightarrow> bool cmd" where
  "write_memtable env key v st =
     (case put_memtable env key v st of
        (Inr _, st1) \<Rightarrow> (Inr True, if should_flush (st_memtable st1) then rotate_memtable env st1 else st1)
      | (Inl (OverflowError _), st1) \<Rightarrow> cbind (put_memtable env key v) (\<lambda>_. creturn True) (rotate_memtable env st1)
      | (Inl UB, st1) \<Rightarrow> (Inl UB, st1)
      | (Inl _, st1) \<Rightarrow> (Inr False, st1))"

section \<open>Reads\<close>

definition get_from_latest :: "env \<Rightarrow> string \<Rightarrow> storage \<Rightarrow> evalue option" where
  "get_from_latest env key st = (case memtable_get key (st_memtable st) of
       Some v \<Rightarrow> if is_expired (clock env) v \<or> is_deleted v then None else Some v
     | None \<Rightarrow> None)"

fun first_hit :: "string \<Rightarrow> memtable list \<Rightarrow> evalue option" where
  "first_hit key [] = None"
| "first_hit key (mt # mts) = (case memtable_get key mt of Some v \<Rightarrow> Some v | None \<Rightarrow> first_hit key mts)"

definition get_from_immutable_memtables :: "string \<Rightarrow> storage \<Rightarrow> evalue option" where
  "get_from_immutable_memtables key st = first_hit key (rev (map snd (immutable_memtables st)))"

definition judge :: "env \<Rightarrow> evalue \<Rightarrow> evalue option" where
  "judge env v = (if is_expired (clock env) v \<or> is_deleted v then None else Some v)"

definition get_from_old :: "env \<Rightarrow> string \<Rightarrow> evalue option cmd" where
  "get_from_old env key st =
     (case get_from_immutable_memtables key st of
        Some v \<Rightarrow> (Inr (judge env v), st)
      | None \<Rightarrow> cbind (with_manager (mgr_get key))
          (\<lambda>r. creturn (case r of Some v \<Rightarrow> judge env v | None \<Rightarrow> None)) st)"

definition storage_get :: "env \<Rightarrow> string \<Rightarrow> eya_value option cmd" where
  "storage_get env key st =
     (case get_from_latest env key st of
        Some v \<Rightarrow> (Inr (Some (evalue v)), st)
      | None \<Rightarrow> cbind (get_from_old env key) (\<lambda>r. creturn (map_option evalue r)) st)"

definition storage_contains :: "env \<Rightarrow> string \<Rightarrow> bool cmd" where
  "storage_contains env key = cbind (storage_get env key) (\<lambda>r. creturn (r \<noteq> None))"

text \<open>Both scans overlay the table files with the immutable memtables, from the newest to the oldest, and the active one.\<close>

definition storage_range :: "env \<Rightarrow> string \<Rightarrow> string \<Rightarrow> (string \<times> eya_value) list cmd" where
  "storage_range env a b st =
     cbind (with_manager (range_query a b)) (\<lambda>m0.
       let put = (\<lambda>k v m. if a \<le> k \<and> k \<le> b then alist_upd k v m else m);
           m1 = fold (memtable_for_each put) (rev (map snd (immutable_memtables st))) m0;
           m2 = memtable_for_each put (st_memtable st) m1
       in creturn (map (\<lambda>(k, v). (k, evalue v)) (filter (\<lambda>(k, v). \<not> (is_deleted v \<or> is_expired (clock env) v)) m2))) st"

text \<open>\<open>std::regex_match\<close> is a parameter; a pattern that does not compile throws.\<close>

definition storage_keys :: "(string \<Rightarrow> (string \<Rightarrow> bool) res) \<Rightarrow> env \<Rightarrow> string \<Rightarrow> string list cmd" where
  "storage_keys regex env pattern st =
     cbind (clift (regex pattern)) (\<lambda>matches.
       let visit = (\<lambda>k v ks. if is_deleted v \<or> is_expired (clock env) v then removeAll k ks
                             else if matches k then List.insert k ks else ks)
       in cbind (with_manager (for_each_oldest (\<lambda>k v ks. (True, visit k v ks)) [])) (\<lambda>ks0.
            let ks1 = fold (memtable_for_each visit) (rev (map snd (immutable_memtables st))) ks0;
                ks2 = memtable_for_each visit (st_memtable st) ks1
            in creturn (sort ks2))) st"

section \<open>Expiry and removal\<close>

text \<open>The time stamp is 64 bits wide, the field it is stored in 32.\<close>

definition set_key_expire :: "env \<Rightarrow> string \<Rightarrow> u64 \<Rightarrow> unit cmd" where
  "set_key_expire env key expire st =
     (case memtable_handle_value key
             (\<lambda>v. (Inr (), if is_deleted v \<or> is_expired (clock env) v then v else v\<lparr>expire_time := ucast expire\<rparr>))
             (st_memtable st) of
        (Inr _, mt) \<Rightarrow> (Inr (), st\<lparr>st_memtable := mt\<rparr>)
      | (Inl (OutOfRange _), mt) \<Rightarrow>
          cbind (storage_get env key) (\<lambda>r.
            case r of
              None \<Rightarrow> cthrow (RuntimeError ''key not found'')
            | Some v \<Rightarrow> (\<lambda>st1.
                let value = (mk_evalue v)\<lparr>expire_time := ucast expire\<rparr>
                in case put_memtable env key value st1 of
                     (Inl (OverflowError _), st2) \<Rightarrow> put_memtable env key value (rotate_memtable env st2)
                   | other \<Rightarrow> other)) (st\<lparr>st_memtable := mt\<rparr>)
      | (Inl e, mt) \<Rightarrow> (Inl e, st\<lparr>st_memtable := mt\<rparr>))"

definition log_op :: "u8 \<Rightarrow> string \<Rightarrow> string \<Rightarrow> storage \<Rightarrow> bool \<times> storage" where
  "log_op type key payload st = (case append_log type key payload (st_wal st) of (ok, w) \<Rightarrow> (ok, st\<lparr>st_wal := w\<rparr>))"

definition set_expire :: "env \<Rightarrow> string \<Rightarrow> u64 \<Rightarrow> unit cmd" where
  "set_expire env key alive_time st =
     (let expire = (if alive_time = 0 then 0 else word_of_nat (clock env) + alive_time);
          st1 = (if enable_wal st then snd (log_op kExpire key (nat_to_string (unat expire)) st) else st)
      in set_key_expire env key expire st1)"

definition remove_one :: "env \<Rightarrow> nat \<Rightarrow> string \<Rightarrow> storage \<Rightarrow> bool \<times> storage" where
  "remove_one env i key st =
     (let (logged, st1) = (if enable_wal st then log_op kRemove key '''' st else (True, st))
      in if logged then (True, st1\<lparr>st_memtable := snd (memtable_remove (draws env i) key (st_memtable st1))\<rparr>)
         else (False, st1))"

fun remove_each :: "env \<Rightarrow> nat \<Rightarrow> string list \<Rightarrow> nat \<Rightarrow> storage \<Rightarrow> nat \<times> storage" where
  "remove_each env i [] cnt st = (cnt, st)"
| "remove_each env i (key # keys) cnt st =
     (case remove_one env i key st of (ok, st1) \<Rightarrow> remove_each env (i + 1) keys (if ok then cnt + 1 else cnt) st1)"

definition storage_remove :: "env \<Rightarrow> string list \<Rightarrow> nat cmd" where
  "storage_remove env keys st =
     (if keys = [] then (Inl (RuntimeError ''Remove key failed, missing key''), st)
      else case remove_each env 0 keys 0 st of (n, st') \<Rightarrow> (Inr n, st'))"

section \<open>Flushing\<close>

text \<open>
  \<open>flush_memtable_to_sstable\<close>: the oldest immutable memtable first. A table that cannot be created
  ends the loop. \<open>None\<close> is a compaction that ran out of fuel.
\<close>

fun flush_each :: "nat \<Rightarrow> env \<Rightarrow> (string \<times> memtable) list \<Rightarrow> storage \<Rightarrow> storage res option" where
  "flush_each fuel env [] st = Some (Inr st)"
| "flush_each fuel env ((filename, imm) # rest) st =
     (if mt_size imm = 0 then flush_each fuel env rest (st\<lparr>immutable_memtables := AList.delete filename (immutable_memtables st)\<rparr>)
      else
        case create_new_sstable fuel (clock env) (memtable_get_all_entries imm) (sstable_manager st) of
          None \<Rightarrow> None
        | Some (Inl e) \<Rightarrow> Some (Inl e)
        | Some (Inr (None, m)) \<Rightarrow> Some (Inr (st\<lparr>sstable_manager := m\<rparr>))
        | Some (Inr (Some _, m)) \<Rightarrow>
            flush_each fuel env rest
              (st\<lparr>sstable_manager := m,
                  st_wal := (if enable_wal st then snd (wal_clear filename (st_wal st)) else st_wal st),
                  immutable_memtables := AList.delete filename (immutable_memtables st)\<rparr>))"

definition flush_memtable_to_sstable :: "nat \<Rightarrow> env \<Rightarrow> storage \<Rightarrow> storage res option" where
  "flush_memtable_to_sstable fuel env st = flush_each fuel env (immutable_memtables st) st"

definition force_flush :: "nat \<Rightarrow> env \<Rightarrow> storage \<Rightarrow> storage res option" where
  "force_flush fuel env st =
     flush_memtable_to_sstable fuel env (if 0 < mt_size (st_memtable st) then rotate_memtable env st else st)"

text \<open>One round of \<open>background_flush_task\<close>.\<close>

definition background_round :: "nat \<Rightarrow> env \<Rightarrow> storage \<Rightarrow> storage res option" where
  "background_round fuel env st =
     (let r = (if immutable_memtables st \<noteq> [] then flush_memtable_to_sstable fuel env st else Some (Inr st))
      in map_option (\<lambda>r. rbind r (\<lambda>st'. Inr (st'\<lparr>st_wal := snd (wal_sync (st_wal st'))\<rparr>))) r)"

definition storage_close :: "nat \<Rightarrow> env \<Rightarrow> storage \<Rightarrow> storage res option" where
  "storage_close fuel env st =
     (if closed st then Some (Inr st)
      else map_option (\<lambda>r. rbind r (\<lambda>st'. Inr (st'\<lparr>st_wal := snd (wal_sync (st_wal st'))\<rparr>)))
             (force_flush fuel env (st\<lparr>closed := True\<rparr>)))"

record stats =
  stat_memtable_size :: u64
  stat_memtable_count :: nat
  stat_immutable_count :: nat
  stat_sstable_count :: nat
  stat_total_sstable_size :: u64

definition get_stats :: "storage \<Rightarrow> stats" where
  "get_stats st = \<lparr>stat_memtable_size = memtable_memory_usage (st_memtable st), stat_memtable_count = mt_size (st_memtable st),
     stat_immutable_count = length (immutable_memtables st), stat_sstable_count = sstable_count (sstable_manager st),
     stat_total_sstable_size = get_total_size (sstable_manager st)\<rparr>"

definition storage_empty :: "storage \<Rightarrow> bool" where
  "storage_empty st \<longleftrightarrow> mgr_empty (sstable_manager st) \<and> mt_size (st_memtable st) = 0 \<and> immutable_memtables st = []"

text \<open>\<open>remove_snapshot\<close> on the files of the snapshot directory, by name.\<close>

definition remove_snapshot :: "string \<Rightarrow> storage \<Rightarrow> bool \<times> storage" where
  "remove_snapshot path st =
     (if path = [] then (True, st)
      else if path \<in> set (snapshot_files st) then
        (if path = snapshot_cache_path st \<and> snapshot_cache_valid st then (False, st)
         else (True, st\<lparr>snapshot_files := removeAll path (snapshot_files st)\<rparr>))
      else (True, st))"

section \<open>Versions\<close>

text \<open>
  The layers below the active memtable, newest first, and the newest version of a key in the
  whole store. \<open>visible\<close> is what the code's two-stage lookup makes of them.
\<close>

definition old_view :: "storage \<Rightarrow> string \<Rightarrow> evalue option" where
  "old_view st k = (case get_from_immutable_memtables k st of Some v \<Rightarrow> Some v | None \<Rightarrow> mgr_view (sstable_manager st) k)"

definition newest :: "storage \<Rightarrow> string \<Rightarrow> evalue option" where
  "newest st k = (case memtable_get k (st_memtable st) of Some v \<Rightarrow> Some v | None \<Rightarrow> old_view st k)"

definition seen :: "nat \<Rightarrow> evalue option \<Rightarrow> evalue option" where
  "seen now r = (case r of Some v \<Rightarrow> if live now v then Some v else None | None \<Rightarrow> None)"

definition visible :: "nat \<Rightarrow> storage \<Rightarrow> string \<Rightarrow> evalue option" where
  "visible now st k = (case seen now (memtable_get k (st_memtable st)) of Some v \<Rightarrow> Some v | None \<Rightarrow> seen now (old_view st k))"

lemma seen_simps [simp]: "seen now None = None" "seen now (Some v) = (if live now v then Some v else None)"
  by (simp_all add: seen_def)

lemma judge_seen: "judge env v = seen (clock env) (Some v)"
  by (auto simp: judge_def live_def)

text \<open>Names of memtables grow: the immutable ones are older than the active one, the last the newest.\<close>

definition st_inv :: "storage \<Rightarrow> bool" where
  "st_inv st \<longleftrightarrow> mt_ok (st_memtable st) \<and> (\<forall>mt \<in> snd ` set (immutable_memtables st). mt_ok mt) \<and>
     mgr_inv (sstable_manager st) \<and> 1 \<le> skiplist_max_level st \<and> ksorted (immutable_memtables st) \<and>
     (\<forall>n \<in> fst ` set (immutable_memtables st). n < current_wal_filename st)"

definition rotated_name :: "env \<Rightarrow> storage \<Rightarrow> string" where
  "rotated_name env st = (if enable_wal st then generate_unique_filename (stamp env) else nat_to_string (stamp env))"

definition clock_advances :: "env \<Rightarrow> storage \<Rightarrow> bool" where
  "clock_advances env st \<longleftrightarrow> current_wal_filename st < rotated_name env st"

text \<open>Reads change nothing but the block cache.\<close>

definition recached :: "storage \<Rightarrow> storage \<Rightarrow> bool" where
  "recached st st' \<longleftrightarrow> (\<exists>c. st' = st\<lparr>sstable_manager := (sstable_manager st)\<lparr>mgr_cache := c\<rparr>\<rparr>) \<and> (st_inv st \<longrightarrow> st_inv st')"

lemma mgr_view_cache [simp]: "mgr_view (m\<lparr>mgr_cache := c\<rparr>) = mgr_view m"
  by (simp add: mgr_view_def fun_eq_iff)

lemma recached_refl [simp]: "recached st st"
  unfolding recached_def by (rule conjI) (rule exI [of _ "mgr_cache (sstable_manager st)"], simp_all)

lemma recached_sel:
  assumes "recached st st'"
  shows "st_memtable st' = st_memtable st" "immutable_memtables st' = immutable_memtables st"
    "old_view st' = old_view st" "newest st' = newest st" "visible now st' = visible now st"
    "enable_wal st' = enable_wal st" "current_wal_filename st' = current_wal_filename st" "st_wal st' = st_wal st"
    "clock_advances env st' = clock_advances env st" "skiplist_max_level st' = skiplist_max_level st"
    "cfg_memtable_size st' = cfg_memtable_size st" "st_inv st \<Longrightarrow> st_inv st'"
proof -
  obtain c where c: "st' = st\<lparr>sstable_manager := (sstable_manager st)\<lparr>mgr_cache := c\<rparr>\<rparr>" using assms by (auto simp: recached_def)
  have old: "old_view st' = old_view st" by (simp add: c old_view_def get_from_immutable_memtables_def fun_eq_iff split: option.split)
  show "st_memtable st' = st_memtable st" "immutable_memtables st' = immutable_memtables st"
    "old_view st' = old_view st" "newest st' = newest st" "visible now st' = visible now st"
    "enable_wal st' = enable_wal st" "current_wal_filename st' = current_wal_filename st" "st_wal st' = st_wal st"
    "clock_advances env st' = clock_advances env st" "skiplist_max_level st' = skiplist_max_level st"
    "cfg_memtable_size st' = cfg_memtable_size st"
    using old by (simp_all add: c newest_def visible_def clock_advances_def rotated_name_def fun_eq_iff split: option.split)
  show "st_inv st \<Longrightarrow> st_inv st'" using assms by (simp add: recached_def)
qed

lemma with_manager_get:
  assumes "st_inv st"
  shows "\<exists>st'. with_manager (mgr_get k) st = (Inr (mgr_view (sstable_manager st) k), st') \<and> recached st st'"
proof -
  have "mgr_inv (sstable_manager st)" using assms by (simp add: st_inv_def)
  from mgr_get_spec [OF this, of k] obtain c where
    "mgr_get k (sstable_manager st) = Inr (mgr_view (sstable_manager st) k, (sstable_manager st)\<lparr>mgr_cache := c\<rparr>)"
    "mgr_inv ((sstable_manager st)\<lparr>mgr_cache := c\<rparr>)" by blast
  then show ?thesis using assms by (auto simp: with_manager_def recached_def st_inv_def)
qed

lemma get_from_old_spec:
  assumes "st_inv st"
  shows "\<exists>st'. get_from_old env k st = (Inr (seen (clock env) (old_view st k)), st') \<and> recached st st'"
proof (cases "get_from_immutable_memtables k st")
  case None
  obtain st' where "with_manager (mgr_get k) st = (Inr (mgr_view (sstable_manager st) k), st')" "recached st st'"
    using with_manager_get [OF assms] by blast
  then show ?thesis using None by (auto simp: get_from_old_def old_view_def judge_seen split: option.split)
qed (auto simp: get_from_old_def old_view_def judge_seen)

lemma get_from_latest_seen: "get_from_latest env k st = seen (clock env) (memtable_get k (st_memtable st))"
  by (auto simp: get_from_latest_def live_def split: option.split)

lemma storage_get_spec:
  assumes "st_inv st"
  shows "\<exists>st'. storage_get env k st = (Inr (map_option evalue (visible (clock env) st k)), st') \<and> recached st st'"
proof -
  obtain st' where "get_from_old env k st = (Inr (seen (clock env) (old_view st k)), st')" "recached st st'"
    using get_from_old_spec [OF assms] by blast
  then show ?thesis by (auto simp: storage_get_def get_from_latest_seen visible_def split: option.split)
qed

text \<open>The lookup finds the newest version, unless that is a dead version in the active memtable.\<close>

lemma visible_newest:
  assumes "\<And>v. memtable_get k (st_memtable st) = Some v \<Longrightarrow> live now v \<or> seen now (old_view st k) = None"
  shows "visible now st k = seen now (newest st k)"
  using assms by (auto simp: visible_def newest_def split: option.splits)

section \<open>Writes\<close>

lemma open_new_name: "fst (open_new_wal_file now w) = generate_unique_filename now"
  by (simp add: open_new_wal_file_def open_wal_file_def generate_unique_filename_def Let_def)

lemma first_hit_append: "first_hit k (xs @ ys) = (case first_hit k xs of Some v \<Rightarrow> Some v | None \<Rightarrow> first_hit k ys)"
  by (induction xs) (auto split: option.split)

lemma rotate_sel:
  assumes "st_inv st"
  shows "immutable_memtables (rotate_memtable env st) = immutable_memtables st @ [(current_wal_filename st, st_memtable st)]"
    "st_memtable (rotate_memtable env st) = memtable_new (cfg_memtable_size st) (skiplist_max_level st)"
    "current_wal_filename (rotate_memtable env st) = rotated_name env st"
    "sstable_manager (rotate_memtable env st) = sstable_manager st" "skiplist_max_level (rotate_memtable env st) = skiplist_max_level st"
    "cfg_memtable_size (rotate_memtable env st) = cfg_memtable_size st" "enable_wal (rotate_memtable env st) = enable_wal st"
    "closed (rotate_memtable env st) = closed st" "read_only (rotate_memtable env st) = read_only st"
proof -
  have "alist_upd (current_wal_filename st) (st_memtable st) (immutable_memtables st) =
      immutable_memtables st @ [(current_wal_filename st, st_memtable st)]"
    using alist_upd_append [of "immutable_memtables st" "current_wal_filename st" "st_memtable st" "[]"] assms
    by (simp add: st_inv_def)
  then show "immutable_memtables (rotate_memtable env st) = immutable_memtables st @ [(current_wal_filename st, st_memtable st)]"
    by (simp add: rotate_memtable_def Let_def split: prod.split)
  show "st_memtable (rotate_memtable env st) = memtable_new (cfg_memtable_size st) (skiplist_max_level st)"
    "sstable_manager (rotate_memtable env st) = sstable_manager st" "skiplist_max_level (rotate_memtable env st) = skiplist_max_level st"
    "cfg_memtable_size (rotate_memtable env st) = cfg_memtable_size st" "enable_wal (rotate_memtable env st) = enable_wal st"
    "closed (rotate_memtable env st) = closed st" "read_only (rotate_memtable env st) = read_only st"
    by (simp_all add: rotate_memtable_def Let_def create_new_memtable_def split: prod.split)
  show "current_wal_filename (rotate_memtable env st) = rotated_name env st"
    using open_new_name [of "stamp env" "st_wal st"]
    by (simp add: rotate_memtable_def Let_def rotated_name_def split: prod.split) auto
qed

text \<open>Rotation keeps the newest version of every key, and the active memtable is empty afterwards.\<close>

lemma rotate_spec:
  assumes inv: "st_inv st" and adv: "clock_advances env st"
  shows "st_inv (rotate_memtable env st)" "newest (rotate_memtable env st) = newest st"
    "memtable_get k (st_memtable (rotate_memtable env st)) = None"
proof -
  note sel = rotate_sel [OF inv, of env]
  have l: "1 \<le> skiplist_max_level st" using inv by (simp add: st_inv_def)
  note new = new_inv [OF l, of "cfg_memtable_size st"] new_ok [OF l, of "cfg_memtable_size st"]
  show none: "memtable_get k (st_memtable (rotate_memtable env st)) = None" for k
    using observe_stable [OF new(3), of k] new(2) by (simp add: sel)
  show "newest (rotate_memtable env st) = newest st"
    using none by (auto simp: newest_def old_view_def get_from_immutable_memtables_def sel fun_eq_iff first_hit_append split: option.split)
  show "st_inv (rotate_memtable env st)"
    using inv adv new(3) by (auto simp: st_inv_def sel clock_advances_def ksorted_append)
qed

definition roomy :: "storage \<Rightarrow> bool" where
  "roomy st \<longleftrightarrow> \<not> should_flush (memtable_new (cfg_memtable_size st) (skiplist_max_level st))"

text \<open>Replacing the active memtable.\<close>

lemma st_inv_memtable: "st_inv st \<Longrightarrow> mt_ok mt \<Longrightarrow> st_inv (st\<lparr>st_memtable := mt\<rparr>)"
  by (simp add: st_inv_def)

lemma memtable_update_sel [simp]:
  "old_view (st\<lparr>st_memtable := mt\<rparr>) = old_view st" "clock_advances env (st\<lparr>st_memtable := mt\<rparr>) = clock_advances env st"
  "roomy (st\<lparr>st_memtable := mt\<rparr>) = roomy st" "rotated_name env (st\<lparr>st_memtable := mt\<rparr>) = rotated_name env st"
  by (simp_all add: old_view_def get_from_immutable_memtables_def fun_eq_iff clock_advances_def rotated_name_def roomy_def split: option.split)

lemma newest_memtable:
  assumes "\<And>k'. memtable_get k' mt = (if k' = k then Some v else memtable_get k' (st_memtable st))"
  shows "newest (st\<lparr>st_memtable := mt\<rparr>) = (newest st)(k \<mapsto> v)"
  using assms by (simp add: newest_def fun_eq_iff split: option.split)

lemma put_memtable_ok:
  assumes inv: "st_inv st" and room: "\<not> should_flush (st_memtable st)"
  shows "\<exists>mt. put_memtable env k v st = (Inr (), st\<lparr>st_memtable := mt\<rparr>) \<and> mt_ok mt \<and>
    (\<forall>k'. memtable_get k' mt = (if k' = k then Some v else memtable_get k' (st_memtable st)))"
proof -
  have ok: "mt_ok (st_memtable st)" using inv by (simp add: st_inv_def)
  show ?thesis
    using room store_ok [OF ok] store_get [OF ok]
    by (intro exI [of _ "memtable_store (draws env 0) k v (st_memtable st)"]) (simp add: put_memtable_def memtable_put_def)
qed

text \<open>
  A write makes its value the newest version of the key and changes no other key, whether it goes
  into the active memtable, fills it up, or finds it full. The active memtable holds a value only
  where it did or where it was written.
\<close>

lemma write_memtable_spec:
  assumes inv: "st_inv st" and adv: "clock_advances env st" and room: "roomy st"
  shows "\<exists>st'. write_memtable env k v st = (Inr True, st') \<and> st_inv st' \<and> newest st' = (newest st)(k \<mapsto> v) \<and>
    ((\<forall>k'. memtable_get k' (st_memtable st') = (if k' = k then Some v else memtable_get k' (st_memtable st))) \<and> old_view st' = old_view st \<or>
     (\<forall>k'. k' \<noteq> k \<longrightarrow> memtable_get k' (st_memtable st') = None))"
proof (cases "should_flush (st_memtable st)")
  case False
  obtain mt where mt: "put_memtable env k v st = (Inr (), st\<lparr>st_memtable := mt\<rparr>)" "mt_ok mt"
    "\<And>k'. memtable_get k' mt = (if k' = k then Some v else memtable_get k' (st_memtable st))"
    using put_memtable_ok [OF inv False] by blast
  let ?st = "st\<lparr>st_memtable := mt\<rparr>"
  have i: "st_inv ?st" by (rule st_inv_memtable [OF inv mt(2)])
  have n: "newest ?st = (newest st)(k \<mapsto> v)" by (rule newest_memtable [OF mt(3)])
  have a: "clock_advances env ?st" using adv by simp
  note r = rotate_spec [OF i a]
  show ?thesis
  proof (cases "should_flush mt")
    case True
    then show ?thesis using mt(1) r n by (intro exI [of _ "rotate_memtable env ?st"]) (simp add: write_memtable_def)
  next
    case False
    then show ?thesis using mt i n by (intro exI [of _ ?st]) (simp add: write_memtable_def)
  qed
next
  case True
  let ?r = "rotate_memtable env st"
  note r = rotate_spec [OF inv adv]
  have nf: "\<not> should_flush (st_memtable ?r)" using room by (simp add: roomy_def rotate_sel [OF inv])
  obtain mt where mt: "put_memtable env k v ?r = (Inr (), ?r\<lparr>st_memtable := mt\<rparr>)" "mt_ok mt"
    "\<And>k'. memtable_get k' mt = (if k' = k then Some v else memtable_get k' (st_memtable ?r))"
    using put_memtable_ok [OF r(1) nf] by blast
  have full: "put_memtable env k v st = (Inl (OverflowError ''MemTable size exceeds limit''), st)"
    using True by (simp add: put_memtable_def memtable_put_def)
  have "newest (?r\<lparr>st_memtable := mt\<rparr>) = (newest st)(k \<mapsto> v)"
    using newest_memtable [of mt k v ?r, OF mt(3)] r(2) by simp
  then show ?thesis using full mt r(3) st_inv_memtable [OF r(1) mt(2)]
    by (intro exI [of _ "?r\<lparr>st_memtable := mt\<rparr>"]) (simp add: write_memtable_def)
qed

section \<open>Flushing\<close>

text \<open>A manager that takes \<open>n\<close> more tables on level 0 without compacting.\<close>

definition quiet :: "nat \<Rightarrow> sst_manager \<Rightarrow> bool" where
  "quiet n m \<longleftrightarrow> (case merge_strategy m of
       SIZE_TIERED_COMPACTION \<Rightarrow> length (level_sstables m ! 0) + n < merge_threshold m
     | LEVEL_COMPACTION \<Rightarrow> \<forall>sz. \<not> level_full m 0 sz)"

lemma add_level_0:
  assumes "mgr_inv m"
  shows "level_sstables (add_table t 0 m) = (level_sstables m)[0 := t # level_sstables m ! 0]" "max_level (add_table t 0 m) = max_level m"
    "merge_strategy (add_table t 0 m) = merge_strategy m" "merge_threshold (add_table t 0 m) = merge_threshold m"
    "level_full (add_table t 0 m) = level_full m" "sstable_count (add_table t 0 m) = sstable_count m"
  using assms by (simp_all add: add_table_def grow_levels_def Let_def mgr_inv_def)

lemma create_new_sstable_quiet:
  assumes inv: "mgr_inv m" and es: "es \<noteq> []" "storable es" and q: "quiet (Suc n) m"
  shows "\<exists>t m'. create_new_sstable (Suc fuel) now es m = Some (Inr (Some t, m')) \<and> mgr_inv m' \<and> quiet n m' \<and>
    sstable_count m' = sstable_count m \<and>
    (\<forall>k. mgr_view m' k = (case map_of es k of Some v \<Rightarrow> Some (evalue_norm v) | None \<Rightarrow> mgr_view m k))"
proof -
  obtain t m1 where t: "create_from_entries es 0 m = Inr (Some t, add_table t 0 m1)" "mgr_inv m1" "mgr_inv (add_table t 0 m1)"
    "level_sstables m1 = level_sstables m" "table_entries t = map entry_norm es"
    and m1: "m1 = m\<lparr>next_sequence_number := next_sequence_number m1, sst_dir := sst_dir m1\<rparr>"
    using create_from_entries_spec [OF inv es, of 0] by blast
  let ?m' = "add_table t 0 m1"
  have same: "merge_strategy m1 = merge_strategy m" "merge_threshold m1 = merge_threshold m" "level_full m1 = level_full m"
    "sstable_count m1 = sstable_count m"
    by (subst m1, simp)+
  note a = add_level_0 [OF t(2), of t] same
  have "level_sstables m \<noteq> []" using inv by (auto simp: mgr_inv_def)
  then have l0: "level_sstables ?m' ! 0 = t # level_sstables m ! 0" by (simp add: a t(4))
  then have q': "quiet n ?m'" using q by (auto simp: quiet_def a split: merge_strategy.splits)
  have "\<not> merge_threshold ?m' \<le> length (level_sstables ?m' ! 0)" if "merge_strategy ?m' = SIZE_TIERED_COMPACTION"
    using q' that by (simp add: quiet_def)
  moreover have "\<not> level_full ?m' 0 sz" if "merge_strategy ?m' = LEVEL_COMPACTION" for sz
    using q' that by (simp add: quiet_def)
  ultimately have "merge_sstables (Suc fuel) now 0 ?m' = Some (Inr (True, ?m'))"
    by (cases "merge_strategy ?m'") simp_all
  then have c: "create_new_sstable (Suc fuel) now es m = Some (Inr (Some t, ?m'))"
    by (simp add: create_new_sstable_def t(1))
  have len: "length (level_sstables m1) = Suc (max_level m1)" "length (level_sstable_size m1) = Suc (max_level m1)"
    using t(2) by (simp_all add: mgr_inv_def)
  have "mgr_view ?m' k = (case map_of es k of Some v \<Rightarrow> Some (evalue_norm v) | None \<Rightarrow> mgr_view m k)" for k
    using add_table_view [OF len, of t 0 k] by (simp add: t(4,5) map_of_entry_norm mgr_view_def split: option.split)
  then show ?thesis using c t(3) q' a(6) same(4) by auto
qed

lemma entries_empty:
  assumes "mt_ok mt" "mt_size mt = 0"
  shows "memtable_get k mt = None"
proof -
  have inv: "mt_inv mt" using assms(1) by (simp add: mt_ok_def)
  have "tables mt ! get_shard_index k \<in> set (tables mt)" using inv by (simp add: mt_inv_def)
  then have "sl_size (tables mt ! get_shard_index k) = 0" using inv assms(2) by (simp add: mt_inv_def)
  then have "sl_cells (tables mt ! get_shard_index k) = []"
    using ml.size_cells [OF mt_inv_shard(1) [OF inv, of k]] by simp
  then show ?thesis by (simp add: memtable_get_cell [OF inv] mt_cell_map)
qed

lemma entries_nonempty:
  assumes "mt_ok mt" "mt_size mt \<noteq> 0"
  shows "memtable_get_all_entries mt \<noteq> []"
proof -
  have inv: "mt_inv mt" using assms(1) by (simp add: mt_ok_def)
  have "\<exists>t \<in> set (tables mt). sl_size t \<noteq> 0" using inv assms(2) by (simp add: mt_inv_def)
  then obtain i where i: "i < k_num_shards" "sl_size (tables mt ! i) \<noteq> 0"
    using inv by (metis in_set_conv_nth mt_inv_def)
  have sl: "ml.sl_inv (tables mt ! i)" using inv i(1) by (simp add: mt_inv_def)
  then have "sl_cells (tables mt ! i) \<noteq> []" using ml.size_cells [OF sl] i(2) by auto
  then have "sl_get_all_entries mops (tables mt ! i) \<noteq> []" using ml.entries_cells [OF sl] by simp
  moreover have "tables mt ! i \<in> set (tables mt)" using inv i(1) by (simp add: mt_inv_def)
  ultimately show ?thesis by (auto simp: memtable_get_all_entries_def)
qed

definition mt_storable :: "memtable \<Rightarrow> bool" where
  "mt_storable mt \<longleftrightarrow> (mt_size mt \<noteq> 0 \<longrightarrow> storable (memtable_get_all_entries mt))"

lemma delete_head: "distinct (map fst ((n, x) # xs)) \<Longrightarrow> AList.delete n ((n, x) # xs) = xs"
  by (force simp: AList.delete_eq filter_id_conv)

text \<open>
  Flushing moves the immutable memtables, the oldest first, to level 0: afterwards the tables
  answer for them, values in the normal form of the encoding, and no immutable memtable is left.
\<close>

lemma flush_each_spec:
  assumes "st_inv st" "immutable_memtables st = imm" "\<forall>mt \<in> snd ` set imm. mt_storable mt" "quiet (length imm) (sstable_manager st)"
  shows "\<exists>st'. flush_each (Suc fuel) env imm st = Some (Inr st') \<and> st_inv st' \<and> immutable_memtables st' = [] \<and>
    st_memtable st' = st_memtable st \<and> sstable_count (sstable_manager st') = sstable_count (sstable_manager st) \<and>
    (\<forall>k. mgr_view (sstable_manager st') k = (case first_hit k (rev (map snd imm)) of
       Some v \<Rightarrow> Some (evalue_norm v) | None \<Rightarrow> mgr_view (sstable_manager st) k))"
  using assms
proof (induction imm arbitrary: st)
  case (Cons x imm)
  obtain n mt where x: "x = (n, mt)" by (rule prod.exhaust)
  have ok: "mt_ok mt" and del: "AList.delete n (immutable_memtables st) = imm"
    using Cons.prems delete_head [of n mt imm] ksorted_distinct [of "x # imm"] by (simp_all add: x st_inv_def)
  have rest: "ksorted imm" "\<forall>m \<in> snd ` set imm. mt_ok m" "\<forall>n' \<in> fst ` set imm. n' < current_wal_filename st"
    using Cons.prems by (auto simp: x st_inv_def)
  show ?case
  proof (cases "mt_size mt = 0")
    case True
    let ?st = "st\<lparr>immutable_memtables := imm\<rparr>"
    have q: "quiet (length imm) (sstable_manager ?st)"
      using Cons.prems(4) by (auto simp: quiet_def split: merge_strategy.splits)
    have i: "st_inv ?st" using Cons.prems(1) rest by (simp add: st_inv_def)
    have none: "memtable_get k mt = None" for k by (rule entries_empty [OF ok True])
    have step: "flush_each (Suc fuel) env (x # imm) st = flush_each (Suc fuel) env imm ?st"
      using True del by (simp add: x)
    have h: "first_hit k (rev (map snd (x # imm))) = first_hit k (rev (map snd imm))" for k
      using none by (simp add: x first_hit_append split: option.split)
    show ?thesis unfolding step h using Cons.IH [OF i _ _ q] Cons.prems(3) by (simp cong: option.case_cong)
  next
    case False
    have st: "storable (memtable_get_all_entries mt)" using Cons.prems(3) False by (simp add: x mt_storable_def)
    have mi: "mgr_inv (sstable_manager st)" using Cons.prems(1) by (simp add: st_inv_def)
    have qs: "quiet (Suc (length imm)) (sstable_manager st)" using Cons.prems(4) by simp
    obtain t m' where m': "create_new_sstable (Suc fuel) (clock env) (memtable_get_all_entries mt) (sstable_manager st) = Some (Inr (Some t, m'))"
      "mgr_inv m'" "quiet (length imm) m'" "sstable_count m' = sstable_count (sstable_manager st)"
      "\<And>k. mgr_view m' k = (case memtable_get k mt of Some v \<Rightarrow> Some (evalue_norm v) | None \<Rightarrow> mgr_view (sstable_manager st) k)"
      using create_new_sstable_quiet [OF mi entries_nonempty [OF ok False] st qs, of fuel "clock env"] ok
      by (auto simp: entries_spec mt_ok_def)
    let ?st = "st\<lparr>sstable_manager := m', st_wal := (if enable_wal st then snd (wal_clear n (st_wal st)) else st_wal st),
        immutable_memtables := imm\<rparr>"
    have i: "st_inv ?st" using Cons.prems(1) rest m'(2) by (simp add: st_inv_def)
    have step: "flush_each (Suc fuel) env (x # imm) st = flush_each (Suc fuel) env imm ?st"
      using False del m'(1) by (simp add: x)
    have p: "immutable_memtables ?st = imm" "\<forall>m \<in> snd ` set imm. mt_storable m" "quiet (length imm) (sstable_manager ?st)"
      using Cons.prems(3) m'(3) by simp_all
    obtain st' where st': "flush_each (Suc fuel) env imm ?st = Some (Inr st')" "st_inv st'" "immutable_memtables st' = []"
      "st_memtable st' = st_memtable ?st" "sstable_count (sstable_manager st') = sstable_count (sstable_manager ?st)"
      "\<And>k. mgr_view (sstable_manager st') k = (case first_hit k (rev (map snd imm)) of
       Some v \<Rightarrow> Some (evalue_norm v) | None \<Rightarrow> mgr_view (sstable_manager ?st) k)"
      using Cons.IH [OF i p] by blast
    have "mgr_view (sstable_manager st') k = (case first_hit k (rev (map snd (x # imm))) of
       Some v \<Rightarrow> Some (evalue_norm v) | None \<Rightarrow> mgr_view (sstable_manager st) k)" for k
      using st'(6) [of k] m'(5) [of k] by (simp add: x first_hit_append split: option.split)
    then show ?thesis unfolding step using st'(1-5) m'(4) by auto
  qed
qed simp

lemma force_flush_spec:
  assumes inv: "st_inv st" and adv: "clock_advances env st"
    and sto: "mt_storable (st_memtable st)" "\<forall>mt \<in> snd ` set (immutable_memtables st). mt_storable mt"
    and q: "quiet (Suc (length (immutable_memtables st))) (sstable_manager st)"
  shows "\<exists>st'. force_flush (Suc fuel) env st = Some (Inr st') \<and> st_inv st' \<and> immutable_memtables st' = [] \<and>
    mt_size (st_memtable st') = 0 \<and> sstable_count (sstable_manager st') = sstable_count (sstable_manager st) \<and>
    (\<forall>k. newest st' k = (case memtable_get k (st_memtable st) of Some v \<Rightarrow> Some (evalue_norm v) | None \<Rightarrow>
      (case get_from_immutable_memtables k st of Some v \<Rightarrow> Some (evalue_norm v) | None \<Rightarrow> mgr_view (sstable_manager st) k)))"
proof -
  define r where "r = (if 0 < mt_size (st_memtable st) then rotate_memtable env st else st)"
  note rs = rotate_sel [OF inv, of env] rotate_spec(1,3) [OF inv adv]
  have ir: "st_inv r" using rs inv by (simp add: r_def)
  have sz: "mt_size (st_memtable r) = 0" by (simp add: r_def rs(2) memtable_new_def)
  have sr: "\<forall>mt \<in> snd ` set (immutable_memtables r). mt_storable mt" using sto by (auto simp: r_def rs(1))
  have qr: "quiet (length (immutable_memtables r)) (sstable_manager r)"
    using q by (auto simp: r_def rs(1,4) quiet_def split: merge_strategy.splits)
  obtain st' where st': "flush_each (Suc fuel) env (immutable_memtables r) r = Some (Inr st')" "st_inv st'" "immutable_memtables st' = []"
    "st_memtable st' = st_memtable r" "sstable_count (sstable_manager st') = sstable_count (sstable_manager r)"
    "\<And>k. mgr_view (sstable_manager st') k = (case first_hit k (rev (map snd (immutable_memtables r))) of
       Some v \<Rightarrow> Some (evalue_norm v) | None \<Rightarrow> mgr_view (sstable_manager r) k)"
    using flush_each_spec [OF ir refl sr qr, of fuel env] by blast
  have e: "memtable_get k (st_memtable st) = None" if "mt_size (st_memtable st) = 0" for k
    using inv that by (intro entries_empty) (simp add: st_inv_def)
  have n: "memtable_get k (st_memtable st') = None" for k
    using st'(2,4) sz by (intro entries_empty) (simp_all add: st_inv_def)
  have "newest st' k = (case memtable_get k (st_memtable st) of Some v \<Rightarrow> Some (evalue_norm v) | None \<Rightarrow>
      (case get_from_immutable_memtables k st of Some v \<Rightarrow> Some (evalue_norm v) | None \<Rightarrow> mgr_view (sstable_manager st) k))" for k
    using n [of k] e [of k] st'(6) [of k]
    by (simp add: newest_def old_view_def get_from_immutable_memtables_def st'(3) r_def rs(1,4) split: option.splits if_splits)
  then show ?thesis using st' sz rs(4) by (auto simp: force_flush_def flush_memtable_to_sstable_def r_def)
qed

section \<open>The smallest memtable\<close>

text \<open>What a new memtable uses for its sixteen Bloom filters and list heads alone.\<close>

lemma usage_new: "memtable_memory_usage (memtable_new s 16) = 1256512"
  by (simp add: memtable_memory_usage_def memtable_new_def shard_bloom_def bloom_new_def SSTABLE_BLOOM_BITS_PER_KEY_def
      k_num_shards_def upt_rec sl_new_def init_current_size_def sizeof_memtable_def mops_def Let_def
      calculateStringSize_def estimateEValueSize_def evalue_default_def str_size_def sizeof_string_def sizeof_evalue_def)

lemma new_memtable_full:
  assumes "unat s < 2 ^ 54"
  shows "should_flush (memtable_new s 16) \<longleftrightarrow> 1 \<le> unat s \<and> unat s \<le> 1227"
proof -
  have "unat (s * 1024) = unat s * 1024" using assms by (simp add: unat_mult_lem [symmetric] unat_word_ariths)
  moreover have "memtable_size (memtable_new s 16) = s * 1024" by (simp add: memtable_new_def)
  ultimately show ?thesis
    unfolding should_flush_def usage_new by (auto simp: word_le_nat_alt unat_eq_0 [symmetric])
qed

section \<open>Removal\<close>

text \<open>A log that can be appended to, or no log at all.\<close>

definition log_ready :: "storage \<Rightarrow> bool" where
  "log_ready st \<longleftrightarrow> (enable_wal st \<longrightarrow> wal_open (st_wal st))"

lemma log_op_ready:
  assumes "wal_open (st_wal st)"
  shows "\<exists>w. log_op t k p st = (True, st\<lparr>st_wal := w\<rparr>) \<and> wal_open w"
  using assms by (auto simp: log_op_def append_log_def write_record_def wal_sync_def Let_def)

lemma log_op_closed: "\<not> wal_open (st_wal st) \<Longrightarrow> log_op t k p st = (False, st)"
  by (simp add: log_op_def append_log_def write_record_def)

lemma wal_update_sel [simp]:
  "old_view (st\<lparr>st_wal := w\<rparr>) = old_view st" "newest (st\<lparr>st_wal := w\<rparr>) = newest st" "visible now (st\<lparr>st_wal := w\<rparr>) = visible now st"
  "st_inv (st\<lparr>st_wal := w\<rparr>) = st_inv st" "clock_advances env (st\<lparr>st_wal := w\<rparr>) = clock_advances env st" "roomy (st\<lparr>st_wal := w\<rparr>) = roomy st"
proof -
  show old: "old_view (st\<lparr>st_wal := w\<rparr>) = old_view st"
    by (simp add: old_view_def get_from_immutable_memtables_def fun_eq_iff cong: option.case_cong)
  show "newest (st\<lparr>st_wal := w\<rparr>) = newest st" "visible now (st\<lparr>st_wal := w\<rparr>) = visible now st"
    by (simp_all add: newest_def visible_def old fun_eq_iff cong: option.case_cong)
  show "st_inv (st\<lparr>st_wal := w\<rparr>) = st_inv st" "clock_advances env (st\<lparr>st_wal := w\<rparr>) = clock_advances env st" "roomy (st\<lparr>st_wal := w\<rparr>) = roomy st"
    by (simp_all add: st_inv_def clock_advances_def rotated_name_def roomy_def)
qed

definition buried :: "evalue option \<Rightarrow> evalue" where
  "buried r = (case r of Some v \<Rightarrow> v\<lparr>deleted := True\<rparr> | None \<Rightarrow> tombstone)"

lemma buried_dead [simp]: "\<not> live now (buried r)" "buried (Some (buried r)) = buried r"
  by (auto simp: buried_def live_def is_deleted_def tombstone_def split: option.split)

lemma remove_one_spec:
  assumes inv: "st_inv st" and rdy: "log_ready st"
  shows "\<exists>mt w. remove_one env i k st = (True, st\<lparr>st_memtable := mt, st_wal := w\<rparr>) \<and> mt_ok mt \<and> (enable_wal st \<longrightarrow> wal_open w) \<and>
    (\<forall>k'. memtable_get k' mt = (if k' = k then Some (buried (memtable_get k (st_memtable st))) else memtable_get k' (st_memtable st)))"
proof -
  have ok: "mt_ok (st_memtable st)" using inv by (simp add: st_inv_def)
  note r = remove_ok [OF ok, where coins = "draws env i" and k = k]
  obtain w where "(if enable_wal st then log_op kRemove k '''' st else (True, st)) = (True, st\<lparr>st_wal := w\<rparr>)" "enable_wal st \<longrightarrow> wal_open w"
  proof (cases "enable_wal st")
    case True
    then show thesis using that log_op_ready [of st kRemove k "''''"] rdy by (auto simp: log_ready_def)
  next
    case False
    then show thesis using that [of "st_wal st"] by simp
  qed
  then show ?thesis
    using r by (intro exI [of _ "snd (memtable_remove (draws env i) k (st_memtable st))"] exI [of _ w])
      (simp add: remove_one_def Let_def buried_def)
qed

lemma remove_each_spec:
  assumes "st_inv st" "log_ready st"
  shows "\<exists>mt w. remove_each env i ks n st = (n + length ks, st\<lparr>st_memtable := mt, st_wal := w\<rparr>) \<and> mt_ok mt \<and>
    (\<forall>k'. memtable_get k' mt = (if k' \<in> set ks then Some (buried (memtable_get k' (st_memtable st))) else memtable_get k' (st_memtable st)))"
  using assms
proof (induction ks arbitrary: i n st)
  case Nil
  have "st = st\<lparr>st_memtable := st_memtable st, st_wal := st_wal st\<rparr>" by simp
  then show ?case using Nil by (intro exI [of _ "st_memtable st"] exI [of _ "st_wal st"]) (simp add: st_inv_def)
next
  case (Cons k ks)
  obtain mt w where r: "remove_one env i k st = (True, st\<lparr>st_memtable := mt, st_wal := w\<rparr>)" "mt_ok mt" "enable_wal st \<longrightarrow> wal_open w"
    "\<And>k'. memtable_get k' mt = (if k' = k then Some (buried (memtable_get k (st_memtable st))) else memtable_get k' (st_memtable st))"
    using remove_one_spec [OF Cons.prems, of env i k] by blast
  let ?st = "st\<lparr>st_memtable := mt, st_wal := w\<rparr>"
  have "st_inv ?st" "log_ready ?st" using Cons.prems r(2,3) by (simp_all add: st_inv_memtable log_ready_def)
  from Cons.IH [OF this, of "i + 1" "n + 1"] show ?case using r(1,4) by auto
qed

section \<open>Scans\<close>

text \<open>
  The version of a key that the last write into the scan's map leaves: the active memtable, then
  the \<^emph>\<open>oldest\<close> immutable memtable that knows the key, then the tables.
\<close>

definition scan_view :: "storage \<Rightarrow> string \<Rightarrow> evalue option" where
  "scan_view st k = (case memtable_get k (st_memtable st) of Some v \<Rightarrow> Some v
     | None \<Rightarrow> (case first_hit k (map snd (immutable_memtables st)) of Some v \<Rightarrow> Some v
        | None \<Rightarrow> mgr_view (sstable_manager st) k))"

lemma scan_newest:
  assumes "length (immutable_memtables st) \<le> 1"
  shows "scan_view st = newest st"
proof -
  have "rev (map snd (immutable_memtables st)) = map snd (immutable_memtables st)"
    using assms by (cases "immutable_memtables st") simp_all
  then show ?thesis by (simp add: fun_eq_iff scan_view_def newest_def old_view_def get_from_immutable_memtables_def cong: option.case_cong)
qed

text \<open>The entries a scan visits, in order.\<close>

definition memory_entries :: "storage \<Rightarrow> (string \<times> evalue) list" where
  "memory_entries st = concat (map (memtable_get_all_entries \<circ> snd) (rev (immutable_memtables st))) @ memtable_get_all_entries (st_memtable st)"

lemma map_of_rev_entries: "mt_ok mt \<Longrightarrow> map_of (rev (memtable_get_all_entries mt)) k = memtable_get k mt"
  using map_of_rev_distinct [OF ksorted_distinct [OF entries_spec(1), of mt]] by (simp add: mt_ok_def entries_spec(2))

lemma map_of_rev_hits:
  "\<forall>mt \<in> set mts. mt_ok mt \<Longrightarrow> map_of (rev (concat (map memtable_get_all_entries mts))) k = first_hit k (rev mts)"
proof (induction mts rule: rev_induct)
  case (snoc mt mts)
  then show ?case by (simp add: map_of_rev_entries map_add_def split: option.split)
qed simp

lemma memory_entries_last:
  assumes "st_inv st"
  shows "map_of (rev (memory_entries st)) k =
    (case memtable_get k (st_memtable st) of Some v \<Rightarrow> Some v | None \<Rightarrow> first_hit k (map snd (immutable_memtables st)))"
proof -
  have "map_of (rev (concat (map memtable_get_all_entries (rev (map snd (immutable_memtables st)))))) k = first_hit k (map snd (immutable_memtables st))"
    using map_of_rev_hits [of "rev (map snd (immutable_memtables st))" k] assms by (simp add: st_inv_def)
  moreover have "concat (map (memtable_get_all_entries \<circ> snd) (rev (immutable_memtables st))) =
      concat (map memtable_get_all_entries (rev (map snd (immutable_memtables st))))" by (simp add: rev_map)
  moreover have "mt_ok (st_memtable st)" using assms by (simp add: st_inv_def)
  ultimately show ?thesis by (simp add: memory_entries_def map_of_rev_entries map_add_def split: option.split)
qed

lemma fold_memtables:
  "memtable_for_each g (st_memtable st) (fold (memtable_for_each g) (rev (map snd (immutable_memtables st))) s) =
     fold (\<lambda>(k, v). g k v) (memory_entries st) s"
proof -
  have "fold (memtable_for_each g) mts s = fold (\<lambda>(k, v). g k v) (concat (map memtable_get_all_entries mts)) s" for mts
    by (induction mts arbitrary: s) (simp_all add: memtable_for_each_def)
  then show ?thesis by (simp add: memory_entries_def memtable_for_each_def rev_map)
qed

definition scanned :: "nat \<Rightarrow> (string \<Rightarrow> bool) \<Rightarrow> storage \<Rightarrow> string \<Rightarrow> evalue option" where
  "scanned now P st k = (if P k then seen now (scan_view st k) else None)"

lemma map_of_live_filter:
  "distinct (map fst es) \<Longrightarrow> map_of (filter (\<lambda>(k, v). \<not> (is_deleted v \<or> is_expired now v)) es) k = seen now (map_of es k)"
proof (induction es)
  case (Cons e es)
  have "map_of es (fst e) = None" using Cons.prems by (simp add: map_of_eq_None_iff)
  then show ?case using Cons by (cases e) (auto simp: live_def)
qed simp

lemma storage_range_spec:
  assumes inv: "st_inv st"
  shows "\<exists>rs st'. storage_range env a b st = (Inr rs, st') \<and> recached st st' \<and> sorted_wrt (<) (map fst rs) \<and>
    (\<forall>k. map_of rs k = map_option evalue (scanned (clock env) (\<lambda>k. a \<le> k \<and> k \<le> b) st k))"
proof -
  let ?P = "\<lambda>k. a \<le> k \<and> k \<le> b" and ?m = "sstable_manager st"
  have "mgr_inv ?m" using inv by (simp add: st_inv_def)
  from range_query_spec [OF this, of a b] obtain mp c where q: "range_query a b ?m = Inr (mp, ?m\<lparr>mgr_cache := c\<rparr>)"
    "mgr_inv (?m\<lparr>mgr_cache := c\<rparr>)" "ksorted mp" "\<And>k. map_of mp k = (if ?P k then mgr_view ?m k else None)" by blast
  let ?st = "st\<lparr>sstable_manager := ?m\<lparr>mgr_cache := c\<rparr>\<rparr>"
  let ?m2 = "alist_merge mp (filter (\<lambda>e. ?P (fst e)) (memory_entries st))"
  have r: "recached st ?st" using inv q(2) by (auto simp: recached_def st_inv_def)
  have s: "ksorted ?m2" by (rule ksorted_alist_merge [OF q(3)])
  have "map_of ?m2 k = (if ?P k then scan_view st k else None)" for k
    using memory_entries_last [OF inv, of k] map_of_filter_keys [of ?P "rev (memory_entries st)" k]
    by (simp add: map_of_alist_merge [OF q(3)] map_add_def rev_filter q(4) scan_view_def split: option.split)
  then have v: "map_of (map (\<lambda>(k, v). (k, evalue v)) (filter (\<lambda>(k, v). \<not> (is_deleted v \<or> is_expired (clock env) v)) ?m2)) k =
      map_option evalue (scanned (clock env) ?P st k)" for k
    using map_of_live_filter [OF ksorted_distinct [OF s], of "clock env" k] by (simp add: map_of_map scanned_def)
  have "sorted_wrt (<) (map fst (map (\<lambda>(k, v). (k, evalue v)) (filter (\<lambda>(k, v). \<not> (is_deleted v \<or> is_expired (clock env) v)) ?m2)))"
    using s by (simp add: ksorted_def sorted_wrt_map sorted_wrt_filter case_prod_beta comp_def)
  then show ?thesis using q(1) r v
    by (intro exI conjI allI) (auto simp: storage_range_def with_manager_def Let_def fold_memtables fold_range_upd)
qed

definition visit_key :: "(string \<Rightarrow> bool) \<Rightarrow> nat \<Rightarrow> string \<Rightarrow> evalue \<Rightarrow> string list \<Rightarrow> string list" where
  "visit_key matches now k v ks = (if is_deleted v \<or> is_expired now v then removeAll k ks
     else if matches k then List.insert k ks else ks)"

lemma visit_keys:
  "distinct ks \<Longrightarrow> set ks \<subseteq> Collect matches \<Longrightarrow>
     distinct (fold (\<lambda>(k, v). visit_key matches now k v) es ks) \<and>
     set (fold (\<lambda>(k, v). visit_key matches now k v) es ks) =
       {k. matches k \<and> (case map_of (rev es) k of Some v \<Rightarrow> live now v | None \<Rightarrow> k \<in> set ks)}"
proof (induction es arbitrary: ks)
  case (Cons e es)
  obtain k v where e: "e = (k, v)" by (rule prod.exhaust)
  let ?ks = "visit_key matches now k v ks"
  have d: "distinct ?ks" "set ?ks \<subseteq> Collect matches"
    using Cons.prems by (auto simp: visit_key_def distinct_removeAll)
  have s: "x \<in> set ?ks \<longleftrightarrow> (if x = k then live now v \<and> matches k else x \<in> set ks)" for x
    using Cons.prems(2) by (auto simp: visit_key_def live_def)
  show ?case using Cons.IH [OF d] s by (auto simp: e map_add_def split: option.splits)
qed auto

lemma storage_keys_spec:
  assumes inv: "st_inv st" and re: "regex pattern = Inr matches"
  shows "\<exists>ks st'. storage_keys regex env pattern st = (Inr ks, st') \<and> recached st st' \<and> sorted_wrt (<) ks \<and>
    set ks = {k. matches k \<and> seen (clock env) (scan_view st k) \<noteq> None}"
proof -
  let ?m = "sstable_manager st" and ?v = "visit_key matches (clock env)"
  let ?es = "concat (map table_entries (rev (concat (level_sstables ?m))))"
  have mi: "mgr_inv ?m" using inv by (simp add: st_inv_def)
  let ?ks = "fold (\<lambda>(k, v). ?v k v) (?es @ memory_entries st) []"
  obtain c where f: "for_each_oldest (\<lambda>k v ks. (True, ?v k v ks)) [] ?m = Inr (fold (\<lambda>(k, v). ?v k v) ?es [], ?m\<lparr>mgr_cache := c\<rparr>)"
    "mgr_inv (?m\<lparr>mgr_cache := c\<rparr>)" using for_each_oldest_spec [OF mi, of ?v "[]"] by blast
  let ?st = "st\<lparr>sstable_manager := ?m\<lparr>mgr_cache := c\<rparr>\<rparr>"
  have rc: "recached st ?st" using inv f(2) by (auto simp: recached_def st_inv_def)
  have tv: "map_of (rev ?es) k = mgr_view ?m k" for k
    using mi unfolding mgr_view_def by (intro runs.run_view_rev) (simp add: mgr_inv_def)
  have last: "map_of (rev (?es @ memory_entries st)) k = scan_view st k" for k
    unfolding rev_append map_of_append map_add_def tv memory_entries_last [OF inv] by (simp add: scan_view_def split: option.split)
  have ks: "distinct ?ks" "set ?ks = {k. matches k \<and> seen (clock env) (scan_view st k) \<noteq> None}"
    using visit_keys [of "[]" matches "clock env" "?es @ memory_entries st"] unfolding last by (auto split: option.splits)
  have run: "storage_keys regex env pattern st = (Inr (sort ?ks), ?st)"
    using f(1) unfolding storage_keys_def
    by (simp add: re with_manager_def Let_def fold_memtables visit_key_def [symmetric] del: fold_append) (simp add: fold_memtables)
  show ?thesis using run rc ks by (intro exI [of _ "sort ?ks"] exI [of _ ?st]) (simp add: strict_sorted_iff)
qed

section \<open>A new store\<close>

definition store_fresh :: "bool \<Rightarrow> storage" where
  "store_fresh logging = \<lparr>enable_wal = logging, read_only = False, closed = False, cfg_memtable_size = 0, skiplist_max_level = 16,
     st_memtable = memtable_new 0 16, immutable_memtables = [], current_wal_filename = generate_unique_filename 0,
     st_wal = snd (open_wal_file 0 '''' (wal_new [] True)), sstable_manager = mgr_fresh SIZE_TIERED_COMPACTION 4 (\<lambda>_ _. False),
     snapshot_cache_valid = False, snapshot_cache_path = '''', snapshot_files = []\<rparr>"

definition env_at :: "nat \<Rightarrow> nat \<Rightarrow> env" where "env_at now n = \<lparr>clock = now, stamp = n, draws = (\<lambda>_. [])\<rparr>"

lemma env_at_sel [simp]: "clock (env_at now n) = now" "stamp (env_at now n) = n" "draws (env_at now n) i = []"
  by (simp_all add: env_at_def)

lemma store_fresh_sel [simp]:
  "st_memtable (store_fresh l) = memtable_new 0 16" "immutable_memtables (store_fresh l) = []" "cfg_memtable_size (store_fresh l) = 0"
  "sstable_manager (store_fresh l) = mgr_fresh SIZE_TIERED_COMPACTION 4 (\<lambda>_ _. False)" "enable_wal (store_fresh l) = l"
  "current_wal_filename (store_fresh l) = generate_unique_filename 0" "skiplist_max_level (store_fresh l) = 16"
  "wal_open (st_wal (store_fresh l))" "roomy (store_fresh l)" "log_ready (store_fresh l)"
  by (simp_all add: store_fresh_def open_wal_file_def Let_def roomy_def should_flush_def memtable_new_def log_ready_def)

lemma memtable_new_get [simp]: "memtable_get k (memtable_new s 16) = None"
  using observe_stable [OF new_ok [of 16 s], of k] new_inv [of 16 s] by simp

lemma store_fresh_inv [simp]: "st_inv (store_fresh l)"
  using new_ok [of 16 0] mgr_fresh_inv by (simp add: st_inv_def)

lemma store_fresh_newest [simp]: "newest (store_fresh l) k = None" "old_view (store_fresh l) k = None"
  by (simp_all add: newest_def old_view_def get_from_immutable_memtables_def mgr_fresh_view)

lemma store_fresh_advances [simp]: "clock_advances (env_at now 5) (store_fresh True)"
  by (simp add: clock_advances_def rotated_name_def generate_unique_filename_def nat_to_string.simps digit_char_def less_char_def)

section \<open>Properties\<close>

text \<open>
  C5: A lookup returns the newest version of a key, searched through the active memtable, the
  immutable memtables from the newest to the oldest and the tables level by level, provided that
  version is neither deleted nor expired, and nothing otherwise; unless the newest version is a
  dead one in the active memtable hiding a live older one. It changes no version.
\<close>

theorem get_returns_newest_version:
  assumes "st_inv st" and "\<And>v. memtable_get k (st_memtable st) = Some v \<Longrightarrow> live (clock env) v \<or> seen (clock env) (old_view st k) = None"
  shows "\<exists>st'. storage_get env k st = (Inr (map_option evalue (seen (clock env) (newest st k))), st') \<and> st_inv st' \<and> newest st' = newest st"
  using storage_get_spec [OF assms(1), of env k] visible_newest [OF assms(2)] recached_sel(4,12) assms(1) by metis

theorem get_returns_newest_version_witness:
  "\<exists>st'. storage_get (env_at 1 5) ''k'' (store_fresh True) = (Inr None, st')"
  using get_returns_newest_version [of "store_fresh True" "''k''" "env_at 1 5"] by auto

text \<open>
  C6: A write succeeds and makes its value the newest version of its key and of no other key, when
  it fits the active memtable, when it fills it up (the memtable is rotated afterwards) and when
  it finds it full (rotated first). The store's invariant is kept.
\<close>

theorem write_is_newest:
  assumes "st_inv st" "clock_advances env st" "roomy st"
  shows "\<exists>st'. write_memtable env k v st = (Inr True, st') \<and> st_inv st' \<and> newest st' = (newest st)(k \<mapsto> v)"
  using write_memtable_spec [OF assms, of k v] by blast

theorem write_is_newest_witness:
  "\<exists>st'. write_memtable (env_at 1 5) ''k'' (mk_evalue (VString ''v'')) (store_fresh True) = (Inr True, st') \<and>
     newest st' ''k'' = Some (mk_evalue (VString ''v''))"
  using write_is_newest [of "store_fresh True" "env_at 1 5" "''k''" "mk_evalue (VString ''v'')"] by auto

text \<open>
  Removing keys counts every key given, makes the newest version of each a deletion mark and
  leaves every other key alone; but what a lookup of a removed key then finds is whatever live
  version the layers below the active memtable still hold.
\<close>

theorem remove_hides_active_version:
  assumes "st_inv st" "log_ready st" "ks \<noteq> []"
  shows "\<exists>st'. storage_remove env ks st = (Inr (length ks), st') \<and> st_inv st' \<and>
    (\<forall>k. if k \<in> set ks
         then (\<exists>v. newest st' k = Some v \<and> is_deleted v) \<and> visible now st' k = seen now (old_view st k)
         else newest st' k = newest st k \<and> visible now st' k = visible now st k)"
proof -
  obtain mt w where r: "remove_each env 0 ks 0 st = (length ks, st\<lparr>st_memtable := mt, st_wal := w\<rparr>)" "mt_ok mt"
    "\<And>k. memtable_get k mt = (if k \<in> set ks then Some (buried (memtable_get k (st_memtable st))) else memtable_get k (st_memtable st))"
    using remove_each_spec [OF assms(1,2), of env 0 ks 0] by auto
  have "is_deleted (buried r)" for r by (auto simp: buried_def is_deleted_def tombstone_def split: option.split)
  then show ?thesis using r assms(1,3)
    by (intro exI [of _ "st\<lparr>st_memtable := mt, st_wal := w\<rparr>"])
      (auto simp: storage_remove_def st_inv_memtable newest_def visible_def cong: option.case_cong)
qed

theorem remove_hides_active_version_witness:
  "\<exists>st'. storage_remove (env_at 1 5) [''k''] (store_fresh True) = (Inr 1, st') \<and> visible 1 st' ''k'' = None"
  using remove_hides_active_version [of "store_fresh True" "[''k'']" "env_at 1 5" 1] by (auto split: if_splits)


lemma one_entry:
  assumes "mt_ok mt" "\<And>k'. memtable_get k' mt = (if k' = k then Some v else None)"
  shows "memtable_get_all_entries mt = [(k, v)]"
  using assms entries_spec [of mt] by (intro ksorted_unique) (auto simp: mt_ok_def fun_eq_iff)

text \<open>One key written to a new store and flushed: the tables hold it, the memtables nothing.\<close>

lemma written_and_flushed:
  "\<exists>st. st_inv st \<and> log_ready st \<and> memtable_get ''k'' (st_memtable st) = None \<and> storage_empty st \<and>
     old_view st ''k'' = Some (mk_evalue (VString ''v''))"
proof -
  let ?v = "mk_evalue (VString ''v'')" and ?env = "env_at 7 5" and ?st0 = "store_fresh False"
  have "\<not> should_flush (st_memtable ?st0)" by (simp add: should_flush_def memtable_new_def)
  from put_memtable_ok [OF store_fresh_inv this, of ?env "''k''" ?v] obtain mt where
    mt: "mt_ok mt" "\<And>k'. memtable_get k' mt = (if k' = ''k'' then Some ?v else None)" by auto
  let ?st1 = "?st0\<lparr>st_memtable := mt\<rparr>"
  have i: "st_inv ?st1" by (rule st_inv_memtable [OF store_fresh_inv mt(1)])
  have s: "mt_storable (st_memtable ?st1)" using one_entry [OF mt] by (simp add: mt_storable_def storable_simps)
  have a: "clock_advances \<lparr>clock = 7, stamp = 5, draws = (\<lambda>_. [])\<rparr> (?st1\<lparr>enable_wal := True\<rparr>)"
    by (simp add: clock_advances_def rotated_name_def generate_unique_filename_def nat_to_string.simps digit_char_def less_char_def)
  have i2: "st_inv (?st1\<lparr>enable_wal := True\<rparr>)" using i by (simp add: st_inv_def)
  have q: "quiet (Suc (length (immutable_memtables (?st1\<lparr>enable_wal := True\<rparr>)))) (sstable_manager (?st1\<lparr>enable_wal := True\<rparr>))"
    by (simp add: quiet_def mgr_fresh_def)
  from force_flush_spec [OF i2 a _ _ q, of 0] s obtain st' where st': "st_inv st'" "immutable_memtables st' = []" "mt_size (st_memtable st') = 0"
    "sstable_count (sstable_manager st') = 0" "newest st' ''k'' = Some (evalue_norm ?v)" using mt(2) by (auto simp: mgr_fresh_def)
  have n: "memtable_get ''k'' (st_memtable st') = None" using st'(1,3) by (intro entries_empty) (simp_all add: st_inv_def)
  let ?st = "st'\<lparr>enable_wal := False\<rparr>"
  have "st_inv ?st" "log_ready ?st" "memtable_get ''k'' (st_memtable ?st) = None" "storage_empty ?st"
    using st' n by (simp_all add: st_inv_def log_ready_def storage_empty_def mgr_empty_def)
  moreover have "old_view ?st ''k'' = Some ?v"
    using st'(5) n by (simp add: newest_def old_view_def get_from_immutable_memtables_def evalue_norm_def mk_evalue_def cong: option.case_cong)
  ultimately show ?thesis by blast
qed

text \<open>
  A deleted key can be read again at once. There is a consistent store from which a lookup
  returns a value, a removal of that key reports one key removed, and the next lookup returns the
  same value: \<open>Storage::get\<close> treats a deletion mark in the active memtable like an absent key and
  goes on to the older layers.
\<close>

theorem deleted_key_comes_back:
  "\<exists>st st1 st2 st3. st_inv st \<and> storage_get (env_at 7 5) ''k'' st = (Inr (Some (VString ''v'')), st1) \<and>
     storage_remove (env_at 7 5) [''k''] st1 = (Inr 1, st2) \<and> storage_get (env_at 7 5) ''k'' st2 = (Inr (Some (VString ''v'')), st3)"
proof -
  let ?v = "mk_evalue (VString ''v'')"
  obtain st where st: "st_inv st" "log_ready st" "memtable_get ''k'' (st_memtable st) = None" "old_view st ''k'' = Some ?v"
    using written_and_flushed by blast
  have live: "live 7 ?v" by (simp add: live_def is_deleted_def is_expired_def mk_evalue_def)
  then have vis: "visible 7 st ''k'' = Some ?v" by (simp add: visible_def st)
  obtain st1 where g1: "storage_get (env_at 7 5) ''k'' st = (Inr (Some (VString ''v'')), st1)" "recached st st1"
    using storage_get_spec [OF st(1), of "env_at 7 5" "''k''"] by (auto simp: vis mk_evalue_def)
  have i1: "st_inv st1" "log_ready st1" using recached_sel [OF g1(2)] st(1,2) by (simp_all add: log_ready_def)
  obtain mt w where r: "remove_each (env_at 7 5) 0 [''k''] 0 st1 = (1, st1\<lparr>st_memtable := mt, st_wal := w\<rparr>)" "mt_ok mt"
    "\<And>k. memtable_get k mt = (if k = ''k'' then Some (buried (memtable_get k (st_memtable st1))) else memtable_get k (st_memtable st1))"
    using remove_each_spec [OF i1, of "env_at 7 5" 0 "[''k'']" 0] by auto
  let ?st2 = "st1\<lparr>st_memtable := mt, st_wal := w\<rparr>"
  have v2: "visible 7 (st1\<lparr>st_memtable := mt\<rparr>) ''k'' = Some ?v" using live recached_sel(3) [OF g1(2)] st(4) by (simp add: visible_def r(3))
  have i2: "st_inv ?st2" using i1 r(2) by (simp add: st_inv_memtable)
  have "\<exists>st3. storage_get (env_at 7 5) ''k'' ?st2 = (Inr (Some (VString ''v'')), st3)"
    using storage_get_spec [OF i2, of "env_at 7 5" "''k''"] by (auto simp: v2 mk_evalue_def)
  moreover have "storage_remove (env_at 7 5) [''k''] st1 = (Inr 1, ?st2)" using r(1) by (simp add: storage_remove_def)
  ultimately show ?thesis using st(1) g1(1) by blast
qed


text \<open>
  C30: A range scan returns, in key order and without repetitions, exactly the live newest versions
  of the keys within its bounds, as long as at most one immutable memtable is waiting to be flushed.
\<close>

theorem range_scan_exact:
  assumes "st_inv st" "length (immutable_memtables st) \<le> 1"
  shows "\<exists>rs st'. storage_range env a b st = (Inr rs, st') \<and> sorted_wrt (<) (map fst rs) \<and> newest st' = newest st \<and>
    (\<forall>k. map_of rs k = (if a \<le> k \<and> k \<le> b then map_option evalue (seen (clock env) (newest st k)) else None))"
proof -
  obtain rs st' where r: "storage_range env a b st = (Inr rs, st')" "recached st st'" "sorted_wrt (<) (map fst rs)"
    "\<And>k. map_of rs k = map_option evalue (scanned (clock env) (\<lambda>k. a \<le> k \<and> k \<le> b) st k)"
    using storage_range_spec [OF assms(1), of env a b] by blast
  then show ?thesis using recached_sel(4) [OF r(2)] scan_newest [OF assms(2)]
    by (intro exI [of _ rs] exI [of _ st']) (simp add: scanned_def)
qed

theorem range_scan_exact_witness:
  "\<exists>rs st'. storage_range (env_at 7 5) ''a'' ''z'' (store_fresh True) = (Inr rs, st') \<and> map_of rs ''k'' = None"
  using range_scan_exact [of "store_fresh True" "env_at 7 5" "''a''" "''z''"] by (auto split: if_splits)

text \<open>
  A key listing returns, in order, exactly the keys that match the pattern and whose newest
  version is live, as long as at most one immutable memtable is waiting. The regular-expression
  engine is a parameter: a compiled pattern is a predicate on keys.
\<close>

theorem keys_listing_exact:
  assumes "st_inv st" "length (immutable_memtables st) \<le> 1" "regex pattern = Inr matches"
  shows "\<exists>ks st'. storage_keys regex env pattern st = (Inr ks, st') \<and> sorted_wrt (<) ks \<and> newest st' = newest st \<and>
    set ks = {k. matches k \<and> (\<exists>v. newest st k = Some v \<and> live (clock env) v)}"
proof -
  obtain ks st' where r: "storage_keys regex env pattern st = (Inr ks, st')" "recached st st'" "sorted_wrt (<) ks"
    "set ks = {k. matches k \<and> seen (clock env) (scan_view st k) \<noteq> None}"
    using storage_keys_spec [of st regex pattern, OF assms(1,3)] by blast
  have "seen now r \<noteq> None \<longleftrightarrow> (\<exists>v. r = Some v \<and> live now v)" for now r by (cases r) auto
  then show ?thesis using r recached_sel(4) [OF r(2)] scan_newest [OF assms(2)] by auto
qed

theorem keys_listing_exact_witness:
  "\<exists>ks st'. storage_keys (\<lambda>p. Inr (\<lambda>k. k = p)) (env_at 7 5) ''k'' (store_fresh True) = (Inr ks, st') \<and> set ks = {}"
  using keys_listing_exact [of "store_fresh True" "\<lambda>p. Inr (\<lambda>k. k = p)" "''k''" "\<lambda>k. k = ''k''" "env_at 7 5"] by auto

text \<open>
  With two immutable memtables a range scan can return a stale value: it overlays them from the
  newest to the oldest, so the oldest version of a key wins, while a lookup of the same key returns
  the newest one.
\<close>

theorem range_scan_stale:
  assumes "st_inv st" "immutable_memtables st = [(n1, mt1), (n2, mt2)]" "memtable_get k (st_memtable st) = None"
    and "memtable_get k mt1 = Some v1" "live (clock env) v1" "memtable_get k mt2 = Some v2" "live (clock env) v2"
  shows "\<exists>st1 st2. storage_range env k k st = (Inr [(k, evalue v1)], st1) \<and> storage_get env k st = (Inr (Some (evalue v2)), st2)"
proof -
  have "scan_view st k = Some v1" "old_view st k = Some v2"
    using assms by (simp_all add: scan_view_def old_view_def get_from_immutable_memtables_def)
  then have v: "scanned (clock env) (\<lambda>k'. k \<le> k' \<and> k' \<le> k) st k = Some v1" "visible (clock env) st k = Some v2"
    using assms(3,5,7) by (simp_all add: scanned_def visible_def)
  obtain rs st1 where r: "storage_range env k k st = (Inr rs, st1)" "sorted_wrt (<) (map fst rs)"
    "\<And>k'. map_of rs k' = map_option evalue (scanned (clock env) (\<lambda>k'. k \<le> k' \<and> k' \<le> k) st k')"
    using storage_range_spec [OF assms(1), of env k k] by blast
  have "rs = [(k, evalue v1)]"
    using r(2,3) v(1) by (intro ksorted_unique) (auto simp: ksorted_def fun_eq_iff scanned_def)
  then show ?thesis using r(1) storage_get_spec [OF assms(1), of env k] v(2) by auto
qed

theorem range_scan_stale_witness:
  "\<exists>st st1 st2. storage_range (env_at 7 5) ''k'' ''k'' st = (Inr [(''k'', VString ''old'')], st1) \<and>
     storage_get (env_at 7 5) ''k'' st = (Inr (Some (VString ''new'')), st2)"
proof -
  let ?v1 = "mk_evalue (VString ''old'')" and ?v2 = "mk_evalue (VString ''new'')" and ?mt = "memtable_new 0 16"
  let ?mt1 = "memtable_store [] ''k'' ?v1 ?mt" and ?mt2 = "memtable_store [] ''k'' ?v2 ?mt"
  let ?st = "(store_fresh True)\<lparr>immutable_memtables := [(''eya_0.a'', ?mt1), (''eya_0.b'', ?mt2)]\<rparr>"
  have ok: "mt_ok ?mt" by (rule new_ok) simp
  have g: "memtable_get ''k'' ?mt1 = Some ?v1" "memtable_get ''k'' ?mt2 = Some ?v2" "live 7 ?v1" "live 7 ?v2"
    by (simp_all add: store_get [OF ok] live_def is_deleted_def is_expired_def mk_evalue_def)
  have "st_inv ?st" using store_ok [OF ok] ok mgr_fresh_inv
    by (simp add: st_inv_def generate_unique_filename_def nat_to_string.simps digit_char_def less_char_def)
  from range_scan_stale [OF this, of "''eya_0.a''" ?mt1 "''eya_0.b''" ?mt2 "''k''" ?v1 "env_at 7 5" ?v2] g
  show ?thesis by (auto simp: mk_evalue_def)
qed

text \<open>
  A memtable limit from 1 to 1227 kilobytes makes the store reject every write: a new memtable's
  Bloom filters and list heads already use 1256512 bytes, so the write finds the memtable full,
  rotates it, finds the new one full and throws \<open>std::overflow_error\<close>. From 1228 kilobytes on, a new
  memtable accepts writes.
\<close>

theorem small_memtable_rejects_writes:
  assumes "skiplist_max_level st = 16" "unat (cfg_memtable_size st) < 2 ^ 54"
    and "st_memtable st = create_new_memtable st"
  shows "(if 1 \<le> unat (cfg_memtable_size st) \<and> unat (cfg_memtable_size st) \<le> 1227
          then fst (write_memtable env k v st) = Inl (OverflowError ''MemTable size exceeds limit'')
          else fst (write_memtable env k v st) = Inr True)"
proof -
  let ?s = "cfg_memtable_size st"
  have new: "st_memtable st = memtable_new ?s 16" "st_memtable (rotate_memtable env st) = memtable_new ?s 16"
    using assms(1,3) by (simp_all add: create_new_memtable_def rotate_memtable_def Let_def split: prod.split)
  note full = new_memtable_full [OF assms(2)]
  show ?thesis
  proof (cases "1 \<le> unat ?s \<and> unat ?s \<le> 1227")
    case True
    then have "put_memtable env k v st = (Inl (OverflowError ''MemTable size exceeds limit''), st)"
      "put_memtable env k v (rotate_memtable env st) = (Inl (OverflowError ''MemTable size exceeds limit''), rotate_memtable env st)"
      using full by (simp_all add: put_memtable_def memtable_put_def new)
    then show ?thesis using True by (simp add: write_memtable_def)
  next
    case False
    then have "put_memtable env k v st = (Inr (), st\<lparr>st_memtable := memtable_store (draws env 0) k v (st_memtable st)\<rparr>)"
      using full by (simp add: put_memtable_def memtable_put_def new)
    then have "fst (write_memtable env k v st) = Inr True" by (simp add: write_memtable_def)
    then show ?thesis using False by simp
  qed
qed

theorem small_memtable_rejects_writes_witness:
  "fst (write_memtable (env_at 7 5) ''k'' (mk_evalue (VString ''v''))
     ((store_fresh True)\<lparr>cfg_memtable_size := 1024, st_memtable := memtable_new 1024 16\<rparr>)) = Inl (OverflowError ''MemTable size exceeds limit'')"
  using small_memtable_rejects_writes [of "(store_fresh True)\<lparr>cfg_memtable_size := 1024, st_memtable := memtable_new 1024 16\<rparr>"
      "env_at 7 5" "''k''" "mk_evalue (VString ''v'')"]
  by (simp add: create_new_memtable_def)

text \<open>
  A store can hold data and call itself empty. There is a consistent store whose lookup of a
  key returns a value while \<open>Storage::empty\<close> is true: the tables a flush creates are not counted,
  so after a flush of a new store the count is still zero, and \<open>clear_and_backup_data\<close>, which
  returns early on an empty store, clears nothing.
\<close>

theorem flushed_store_looks_empty:
  "\<exists>st st'. st_inv st \<and> storage_empty st \<and> storage_get (env_at 7 5) ''k'' st = (Inr (Some (VString ''v'')), st')"
proof -
  obtain st where st: "st_inv st" "storage_empty st" "memtable_get ''k'' (st_memtable st) = None" "old_view st ''k'' = Some (mk_evalue (VString ''v''))"
    using written_and_flushed by blast
  have "visible 7 st ''k'' = Some (mk_evalue (VString ''v''))"
    by (simp add: visible_def st live_def is_deleted_def is_expired_def mk_evalue_def)
  then show ?thesis using st(1,2) storage_get_spec [OF st(1), of "env_at 7 5" "''k''"] by (auto simp: mk_evalue_def)
qed

end
