(* ===== verification/Protocol.thy ===== *)
theory Protocol
  imports EyaValue
begin

text \<open>
  \<open>network/protocol/protocol.h\<close>: the requests a client sends and the responses it gets, and their
  encodings. A value inside a response is read back in the normal form of \<open>EyaValue\<close>.
\<close>

section \<open>Responses\<close>

datatype response_data =
    RNone
  | RString string
  | RStrings "string list"
  | RPairs "(string \<times> eya_value) list"
  | RValue eya_value

record response =
  r_code :: u32
  r_data :: response_data
  error_msg :: string
  request_id :: string

definition ERROR :: u32 where "ERROR = 0"
definition SUCCESS :: u32 where "SUCCESS = 1"
definition REDIRECT :: u32 where "REDIRECT = 2"

definition response_new :: response where
  "response_new = \<lparr>r_code = ERROR, r_data = RNone, error_msg = '''', request_id = ''''\<rparr>"

definition success :: "response_data \<Rightarrow> response" where
  "success d = \<lparr>r_code = SUCCESS, r_data = d, error_msg = '''', request_id = ''''\<rparr>"

definition success_bool :: "bool \<Rightarrow> response" where
  "success_bool b = success (RString (if b then ''1'' else ''0''))"

definition success_size :: "nat \<Rightarrow> response" where
  "success_size n = success (RString (nat_to_string n))"

definition error :: "string \<Rightarrow> response" where
  "error msg = \<lparr>r_code = ERROR, r_data = RNone, error_msg = msg, request_id = ''''\<rparr>"

definition redirect :: "string \<Rightarrow> response" where
  "redirect addr = \<lparr>r_code = REDIRECT, r_data = RString addr, error_msg = '''', request_id = ''''\<rparr>"

definition is_success :: "response \<Rightarrow> bool" where
  "is_success r \<longleftrightarrow> r_code r = SUCCESS"

lemma response_codes [simp]:
  "is_success (success d)" "\<not> is_success (error m)" "is_success (success_bool b)" "is_success (success_size n)"
  by (simp_all add: is_success_def success_def error_def success_bool_def success_size_def SUCCESS_def ERROR_def)

fun data_index :: "response_data \<Rightarrow> u8" where
  "data_index RNone = 0"
| "data_index (RString _) = 1"
| "data_index (RStrings _) = 2"
| "data_index (RPairs _) = 3"
| "data_index (RValue _) = 4"

definition ser_pair_value :: "string \<times> eya_value \<Rightarrow> bytes" where
  "ser_pair_value p = ser_string (fst p) @ serialize_eya_value (snd p)"

fun ser_response_data :: "response_data \<Rightarrow> bytes" where
  "ser_response_data RNone = []"
| "ser_response_data (RString s) = ser_string s"
| "ser_response_data (RStrings xs) = ser_strings xs"
| "ser_response_data (RPairs ps) = be32 (word_of_nat (length ps)) @ concat (map ser_pair_value ps)"
| "ser_response_data (RValue v) = serialize_eya_value v"

definition ser_response :: "response \<Rightarrow> bytes" where
  "ser_response r = ser_string (request_id r) @ be32 (r_code r) @ byte8 (data_index (r_data r)) @
     ser_response_data (r_data r) @ ser_string (error_msg r)"

definition deserialize_response_data :: "u8 \<Rightarrow> response_data decoder" where
  "deserialize_response_data index data off =
     (if index = 0 then Inr (RNone, off)
      else if index = 1 then map_dec RString deserializeString data off
      else if index = 2 then map_dec RStrings deserializeVector data off
      else if index = 3 then
        rbind (deserialize_count data off) (\<lambda>(size, off1).
          map_dec RPairs (dec_n size (dec_pair deserializeString deserialize_eya_value)) data off1)
      else if index = 4 then map_dec RValue deserialize_eya_value data off
      else Inl (RuntimeError ''Invalid Response index''))"

definition deserialize_response :: "response decoder" where
  "deserialize_response data off =
     rbind (deserializeString data off) (\<lambda>(rid, off1).
     rbind (read_bytes data off1 4) (\<lambda>code.
     rbind (read_bytes data (off1 + 4) 1) (\<lambda>index.
     rbind (deserialize_response_data (of_byte8 index) data (off1 + 5)) (\<lambda>(rdata, off2).
     rbind (deserializeString data off2) (\<lambda>(msg, off3).
       Inr (\<lparr>r_code = of_be32 code, r_data = rdata, error_msg = msg, request_id = rid\<rparr>, off3))))))"

section \<open>Requests\<close>

datatype request_type = NONE | AUTH | COMMAND | BATCH_COMMAND

record request =
  req_id :: string
  req_type :: request_type
  commands :: "(string \<times> string) list"
  command :: string
  password :: string
  auth_key :: string

definition request_new :: request where
  "request_new = \<lparr>req_id = '''', req_type = NONE, commands = [], command = '''', password = '''', auth_key = ''''\<rparr>"

definition request_auth :: "string \<Rightarrow> string \<Rightarrow> request" where
  "request_auth rid pw = request_new\<lparr>req_type := AUTH, req_id := rid, password := pw\<rparr>"

definition createCommand :: "string \<Rightarrow> string \<Rightarrow> string \<Rightarrow> request" where
  "createCommand rid cmd key = request_new\<lparr>req_type := COMMAND, req_id := rid, command := cmd, auth_key := key\<rparr>"

definition createBatchCommand :: "string \<Rightarrow> (string \<times> string) list \<Rightarrow> string \<Rightarrow> request" where
  "createBatchCommand bid cmds key = request_new\<lparr>req_type := BATCH_COMMAND, req_id := bid, auth_key := key, commands := cmds\<rparr>"

fun request_type_code :: "request_type \<Rightarrow> u8" where
  "request_type_code NONE = 0"
| "request_type_code AUTH = 1"
| "request_type_code COMMAND = 2"
| "request_type_code BATCH_COMMAND = 3"

text \<open>A byte that is none of the four values is not a value of the enumeration.\<close>

definition request_type_of :: "u8 \<Rightarrow> request_type res" where
  "request_type_of b = (if b = 0 then Inr NONE else if b = 1 then Inr AUTH else if b = 2 then Inr COMMAND
     else if b = 3 then Inr BATCH_COMMAND else Inl UB)"

definition ser_request :: "request \<Rightarrow> bytes" where
  "ser_request r = ser_string (req_id r) @ byte8 (request_type_code (req_type r)) @
     (case req_type r of
        COMMAND \<Rightarrow> ser_string (command r) @ ser_string (auth_key r)
      | BATCH_COMMAND \<Rightarrow> be32 (word_of_nat (length (commands r))) @ concat (map ser_kv (commands r)) @ ser_string (auth_key r)
      | AUTH \<Rightarrow> ser_string (password r)
      | NONE \<Rightarrow> [])"

definition deserialize_request :: "request decoder" where
  "deserialize_request data off =
     rbind (deserializeString data off) (\<lambda>(rid, off1).
     rbind (read_bytes data off1 1) (\<lambda>b.
     rbind (request_type_of (of_byte8 b)) (\<lambda>t.
       let r = request_new\<lparr>req_id := rid, req_type := t\<rparr>; off2 = off1 + 1
       in case t of
            COMMAND \<Rightarrow> map_dec (\<lambda>(c, k). r\<lparr>command := c, auth_key := k\<rparr>) (dec_pair deserializeString deserializeString) data off2
          | BATCH_COMMAND \<Rightarrow> map_dec (\<lambda>(cs, k). r\<lparr>commands := cs, auth_key := k\<rparr>) (dec_pair deserializePairs deserializeString) data off2
          | AUTH \<Rightarrow> map_dec (\<lambda>p. r\<lparr>password := p\<rparr>) deserializeString data off2
          | NONE \<Rightarrow> Inr (r, off2))))"

section \<open>Batch responses\<close>

definition ser_item :: "string \<times> response \<Rightarrow> bytes" where
  "ser_item p = ser_string (fst p) @ ser_response (snd p)"

definition ser_batch :: "string \<times> (string \<times> response) list \<Rightarrow> bytes" where
  "ser_batch b = ser_string (fst b) @ be32 (word_of_nat (length (snd b))) @ concat (map ser_item (snd b))"

definition deserializeBatchResponse :: "(string \<times> (string \<times> response) list) decoder" where
  "deserializeBatchResponse data off =
     rbind (deserializeString data off) (\<lambda>(bid, off1).
     rbind (deserialize_count data off1) (\<lambda>(size, off2).
       map_dec (Pair bid) (dec_n size (dec_pair deserializeString deserialize_response)) data off2))"

section \<open>Reading messages back\<close>

text \<open>Pairs and counted lists of encodings with a normal form.\<close>

locale codec_upto_pair = fst: codec_upto enc1 dec1 ok1 norm1 + snd: codec_upto enc2 dec2 ok2 norm2
  for enc1 :: "'a \<Rightarrow> bytes" and dec1 ok1 norm1 and enc2 :: "'b \<Rightarrow> bytes" and dec2 ok2 norm2
begin

lemma dec_pair_norm:
  assumes "ok1 x" "ok2 y" "data = pre @ enc1 x @ enc2 y @ post" "off = length pre"
  shows "dec_pair dec1 dec2 data off = Inr ((norm1 x, norm2 y), off + length (enc1 x) + length (enc2 y))"
  using assms fst.dec_norm_at [of x data pre "enc2 y @ post"] snd.dec_norm_at [of y data "pre @ enc1 x" post]
  by (simp add: dec_pair_def)

end

context codec_upto
begin

lemma counted_norm:
  assumes "list_all ok xs" "length xs < 2 ^ 32" "data = pre @ be32 (word_of_nat (length xs)) @ concat (map enc xs) @ post"
  shows "deserialize_count data (length pre) = Inr (length xs, length pre + 4)"
    "map_dec f (dec_n (length xs) dec) data (length pre + 4) = Inr (f (map norm xs), length pre + 4 + length (concat (map enc xs)))"
  using assms deserialize_count_at [OF assms(3) refl assms(2)]
    dec_n_norm_at [of xs data "pre @ be32 (word_of_nat (length xs))" post "length pre + 4"]
  by (simp_all add: map_dec_def)

end

definition pair_value_ok :: "string \<times> eya_value \<Rightarrow> bool" where
  "pair_value_ok p \<longleftrightarrow> string_ok (fst p) \<and> eya_ok (snd p)"

interpretation pvp: codec_upto_pair ser_string deserializeString string_ok "\<lambda>s. s" serialize_eya_value deserialize_eya_value eya_ok eya_norm
  by unfold_locales

interpretation pv: codec_upto ser_pair_value "dec_pair deserializeString deserialize_eya_value" pair_value_ok "map_prod id eya_norm"
proof
  fix p pre post
  assume "pair_value_ok p"
  then show "dec_pair deserializeString deserialize_eya_value (pre @ ser_pair_value p @ post) (length pre)
      = Inr (map_prod id eya_norm p, length pre + length (ser_pair_value p))"
    using pvp.dec_pair_norm [of "fst p" "snd p" _ pre post "length pre", OF _ _ refl refl]
    by (cases p) (simp add: pair_value_ok_def ser_pair_value_def)
qed

fun response_data_ok :: "response_data \<Rightarrow> bool" where
  "response_data_ok RNone \<longleftrightarrow> True"
| "response_data_ok (RString s) \<longleftrightarrow> string_ok s"
| "response_data_ok (RStrings xs) \<longleftrightarrow> strings_ok xs"
| "response_data_ok (RPairs ps) \<longleftrightarrow> length ps < 2 ^ 32 \<and> list_all pair_value_ok ps"
| "response_data_ok (RValue v) \<longleftrightarrow> eya_ok v"

fun response_data_norm :: "response_data \<Rightarrow> response_data" where
  "response_data_norm (RPairs ps) = RPairs (map (map_prod id eya_norm) ps)"
| "response_data_norm (RValue v) = RValue (eya_norm v)"
| "response_data_norm d = d"

definition response_ok :: "response \<Rightarrow> bool" where
  "response_ok r \<longleftrightarrow> string_ok (request_id r) \<and> string_ok (error_msg r) \<and> response_data_ok (r_data r)"

definition response_norm :: "response \<Rightarrow> response" where
  "response_norm r = r\<lparr>r_data := response_data_norm (r_data r)\<rparr>"

lemma response_data_back:
  assumes "response_data_ok d" "data = pre @ ser_response_data d @ post"
  shows "deserialize_response_data (data_index d) data (length pre) =
    Inr (response_data_norm d, length pre + length (ser_response_data d))"
proof (cases d)
  case (RString s)
  then show ?thesis using assms str.upto.map_dec_at [of s data pre post "length pre" RString] by (simp add: deserialize_response_data_def)
next
  case (RStrings xs)
  then show ?thesis using assms strs.upto.map_dec_at [of xs data pre post "length pre" RStrings] by (simp add: deserialize_response_data_def)
next
  case (RPairs ps)
  then show ?thesis
    using assms pv.counted_norm(1) [of ps data pre post] pv.counted_norm(2) [of ps data pre post RPairs] by (simp add: deserialize_response_data_def)
next
  case (RValue v)
  then show ?thesis using assms eya.map_dec_at [of v data pre post "length pre" RValue] by (simp add: deserialize_response_data_def)
qed (simp add: deserialize_response_data_def)

interpretation rsp: codec_upto ser_response deserialize_response response_ok response_norm
proof
  fix r pre post
  assume ok: "response_ok r"
  let ?i = "ser_string (request_id r)" and ?c = "be32 (r_code r)" and ?t = "byte8 (data_index (r_data r))"
  let ?d = "ser_response_data (r_data r)" and ?e = "ser_string (error_msg r)"
  let ?data = "pre @ ser_response r @ post"
  have d: "?data = pre @ ?i @ ?c @ ?t @ ?d @ ?e @ post" by (simp add: ser_response_def)
  have 1: "deserializeString ?data (length pre) = Inr (request_id r, length (pre @ ?i))"
    using ok str.dec_enc_at [of "request_id r" ?data pre "?c @ ?t @ ?d @ ?e @ post"] by (simp add: response_ok_def d)
  have 2: "read_bytes ?data (length (pre @ ?i)) 4 = Inr ?c"
    using read_bytes_append [of "pre @ ?i" _ ?c 4 "?t @ ?d @ ?e @ post"] by (simp add: d)
  have 3: "read_bytes ?data (length (pre @ ?i) + 4) 1 = Inr ?t"
    using read_bytes_append [of "pre @ ?i @ ?c" _ ?t 1 "?d @ ?e @ post"] by (simp add: d ac_simps)
  have 4: "deserialize_response_data (data_index (r_data r)) ?data (length (pre @ ?i) + 5) =
      Inr (response_data_norm (r_data r), length (pre @ ?i @ ?c @ ?t @ ?d))"
    using ok response_data_back [of "r_data r" ?data "pre @ ?i @ ?c @ ?t" "?e @ post"] by (simp add: response_ok_def d ac_simps)
  have 5: "deserializeString ?data (length (pre @ ?i @ ?c @ ?t @ ?d)) = Inr (error_msg r, length (pre @ ?i @ ?c @ ?t @ ?d @ ?e))"
    using ok str.dec_enc_at [of "error_msg r" ?data "pre @ ?i @ ?c @ ?t @ ?d" post] by (simp add: response_ok_def d)
  show "deserialize_response ?data (length pre) = Inr (response_norm r, length pre + length (ser_response r))"
    unfolding deserialize_response_def using 1 2 3 4 5
    by (simp del: length_append add: response_norm_def) (simp add: ser_response_def)
qed

text \<open>A request keeps only the fields of its type: the others are not sent.\<close>

definition request_ok :: "request \<Rightarrow> bool" where
  "request_ok r \<longleftrightarrow> string_ok (req_id r) \<and> (case req_type r of
       COMMAND \<Rightarrow> string_ok (command r) \<and> string_ok (auth_key r)
     | BATCH_COMMAND \<Rightarrow> pairs_ok (commands r) \<and> string_ok (auth_key r)
     | AUTH \<Rightarrow> string_ok (password r)
     | NONE \<Rightarrow> True)"

definition request_norm :: "request \<Rightarrow> request" where
  "request_norm r = (let q = request_new\<lparr>req_id := req_id r, req_type := req_type r\<rparr>
     in case req_type r of
          COMMAND \<Rightarrow> q\<lparr>command := command r, auth_key := auth_key r\<rparr>
        | BATCH_COMMAND \<Rightarrow> q\<lparr>commands := commands r, auth_key := auth_key r\<rparr>
        | AUTH \<Rightarrow> q\<lparr>password := password r\<rparr>
        | NONE \<Rightarrow> q)"

interpretation sp: codec_upto_pair ser_string deserializeString string_ok "\<lambda>s. s" ser_string deserializeString string_ok "\<lambda>s. s"
  by unfold_locales

interpretation psp: codec_upto_pair ser_pairs deserializePairs pairs_ok "\<lambda>s. s" ser_string deserializeString string_ok "\<lambda>s. s"
  by unfold_locales

lemma request_type_back [simp]: "request_type_of (request_type_code t) = Inr t"
  by (cases t) (simp_all add: request_type_of_def)

interpretation rq: codec_upto ser_request deserialize_request request_ok request_norm
proof
  fix r pre post
  assume ok: "request_ok r"
  let ?i = "ser_string (req_id r)" and ?t = "byte8 (request_type_code (req_type r))"
  define body where "body = drop (length (?i @ ?t)) (ser_request r)"
  let ?data = "pre @ ser_request r @ post"
  have d: "?data = pre @ ?i @ ?t @ body @ post" by (simp add: ser_request_def body_def byte8_def)
  have 1: "deserializeString ?data (length pre) = Inr (req_id r, length (pre @ ?i))"
    using ok str.dec_enc_at [of "req_id r" ?data pre "?t @ body @ post"] by (simp add: request_ok_def d)
  have 2: "read_bytes ?data (length (pre @ ?i)) 1 = Inr ?t"
    using read_bytes_append [of "pre @ ?i" _ ?t 1 "body @ post"] by (simp add: d)
  have d': "?data = (pre @ ?i @ ?t) @ body @ post" "length (pre @ ?i) + 1 = length (pre @ ?i @ ?t)" using d by simp_all
  have len: "length (ser_request r) = length ?i + 1 + length body" by (simp add: body_def ser_request_def)
  show "deserialize_request ?data (length pre) = Inr (request_norm r, length pre + length (ser_request r))"
  proof (cases "req_type r")
    case NONE
    then show ?thesis unfolding deserialize_request_def using 1 2 len
      by (simp del: length_append add: request_norm_def request_type_of_def) (simp add: body_def ser_request_def)
  next
    case AUTH
    have b: "body = ser_string (password r)" by (simp add: body_def ser_request_def AUTH)
    show ?thesis unfolding deserialize_request_def using 1 2 len AUTH ok
        str.upto.map_dec_at [OF _ d' [unfolded b], where f = "\<lambda>p. request_new\<lparr>req_id := req_id r, req_type := AUTH, password := p\<rparr>"]
      by (simp del: length_append add: request_norm_def request_type_of_def request_ok_def) (simp add: b)
  next
    case COMMAND
    have b: "body = ser_string (command r) @ ser_string (auth_key r)" by (simp add: body_def ser_request_def COMMAND)
    have "?data = (pre @ ?i @ ?t) @ ser_string (command r) @ ser_string (auth_key r) @ post" using d'(1) unfolding b by simp
    from sp.dec_pair_norm [OF _ _ this d'(2)] show ?thesis unfolding deserialize_request_def using 1 2 len COMMAND ok
      by (simp del: length_append add: request_norm_def request_type_of_def request_ok_def map_dec_def) (simp add: b)
  next
    case BATCH_COMMAND
    have b: "body = ser_pairs (commands r) @ ser_string (auth_key r)" by (simp add: body_def ser_request_def BATCH_COMMAND ser_pairs_def)
    have "?data = (pre @ ?i @ ?t) @ ser_pairs (commands r) @ ser_string (auth_key r) @ post" using d'(1) unfolding b by simp
    from psp.dec_pair_norm [OF _ _ this d'(2)] show ?thesis unfolding deserialize_request_def using 1 2 len BATCH_COMMAND ok
      by (simp del: length_append add: request_norm_def request_type_of_def request_ok_def map_dec_def) (simp add: b)
  qed
qed

definition item_ok :: "string \<times> response \<Rightarrow> bool" where
  "item_ok p \<longleftrightarrow> string_ok (fst p) \<and> response_ok (snd p)"

definition batch_ok :: "string \<times> (string \<times> response) list \<Rightarrow> bool" where
  "batch_ok b \<longleftrightarrow> string_ok (fst b) \<and> length (snd b) < 2 ^ 32 \<and> list_all item_ok (snd b)"

interpretation irp: codec_upto_pair ser_string deserializeString string_ok "\<lambda>s. s" ser_response deserialize_response response_ok response_norm
  by unfold_locales

interpretation item: codec_upto ser_item "dec_pair deserializeString deserialize_response" item_ok "map_prod id response_norm"
proof
  fix p pre post
  assume "item_ok p"
  then show "dec_pair deserializeString deserialize_response (pre @ ser_item p @ post) (length pre)
      = Inr (map_prod id response_norm p, length pre + length (ser_item p))"
    using irp.dec_pair_norm [of "fst p" "snd p" _ pre post "length pre", OF _ _ refl refl]
    by (cases p) (simp add: item_ok_def ser_item_def)
qed

interpretation batch: codec_upto ser_batch deserializeBatchResponse batch_ok "map_prod id (map (map_prod id response_norm))"
proof
  fix b pre post
  assume ok: "batch_ok b"
  let ?data = "pre @ ser_batch b @ post" and ?i = "ser_string (fst b)"
  have d: "?data = (pre @ ?i) @ be32 (word_of_nat (length (snd b))) @ concat (map ser_item (snd b)) @ post"
    by (simp add: ser_batch_def)
  have "deserializeString ?data (length pre) = Inr (fst b, length (pre @ ?i))"
    using ok str.dec_enc_at [of "fst b" ?data pre] by (simp add: batch_ok_def ser_batch_def)
  then show "deserializeBatchResponse ?data (length pre) =
      Inr (map_prod id (map (map_prod id response_norm)) b, length pre + length (ser_batch b))"
    unfolding deserializeBatchResponse_def
    using ok item.counted_norm(1) [OF _ _ d] item.counted_norm(2) [OF _ _ d, of "Pair (fst b)"]
    by (cases b) (simp del: length_append add: batch_ok_def, simp add: ser_batch_def)
qed

section \<open>Properties\<close>

text \<open>
  A request built by one of the constructors of \<open>Request\<close> and sent over the wire is read back
  exactly, from any position of a receive buffer, and the reader stops right behind it.
\<close>

theorem request_roundtrip:
  assumes "r = request_auth rid pw \<or> r = createCommand rid cmd key \<or> r = createBatchCommand rid cmds key"
    and "request_ok r"
  shows "deserialize_request (pre @ ser_request r @ post) (length pre) = Inr (r, length pre + length (ser_request r))"
proof -
  have "request_norm r = r"
    using assms(1) by (auto simp: request_norm_def request_auth_def createCommand_def createBatchCommand_def request_new_def)
  then show ?thesis using rq.dec_norm [OF assms(2), of pre post] by simp
qed

theorem request_roundtrip_witness:
  "deserialize_request (''x'' @ ser_request (createBatchCommand ''7'' [(''1'', ''get k''), (''2'', ''set k v'')] ''key'') @ ''y'') (length ''x'')
     = Inr (createBatchCommand ''7'' [(''1'', ''get k''), (''2'', ''set k v'')] ''key'',
            length ''x'' + length (ser_request (createBatchCommand ''7'' [(''1'', ''get k''), (''2'', ''set k v'')] ''key'')))"
  by (rule request_roundtrip [of _ "''7''" "''''" "''''" "''key''" "[(''1'', ''get k''), (''2'', ''set k v'')]"])
    (simp_all add: request_ok_def createBatchCommand_def request_new_def pairs_ok_def kv_ok_def string_ok_def)

text \<open>
  A batch of responses is read back item by item: codes, error messages, request identifiers,
  strings and string lists unchanged, values in their normal form, which encodes to the same bytes.
\<close>

theorem batch_response_roundtrip:
  assumes "batch_ok b"
  shows "\<exists>items. deserializeBatchResponse (pre @ ser_batch b @ post) (length pre) = Inr ((fst b, items), length pre + length (ser_batch b)) \<and>
    map fst items = map fst (snd b) \<and>
    list_all2 (\<lambda>(_, r) (_, r'). r_code r' = r_code r \<and> error_msg r' = error_msg r \<and> request_id r' = request_id r \<and>
      ser_response r' = ser_response r) (snd b) items"
proof -
  have pv: "concat (map (\<lambda>p. ser_string (fst p) @ serialize_eya_value (eya_norm (snd p))) ps) = concat (map ser_pair_value ps)"
    if "list_all pair_value_ok ps" for ps
    using that by (induction ps) (auto simp: ser_pair_value_def pair_value_ok_def eya_norm_stable)
  have d: "ser_response_data (response_data_norm d) = ser_response_data d \<and> data_index (response_data_norm d) = data_index d"
    if "response_data_ok d" for d
    using that pv by (cases d) (auto simp: eya_norm_stable ser_pair_value_def comp_def)
  have "list_all2 (\<lambda>(_, r) (_, r'). r_code r' = r_code r \<and> error_msg r' = error_msg r \<and> request_id r' = request_id r \<and>
      ser_response r' = ser_response r) (snd b) (map (map_prod id response_norm) (snd b))"
    using assms d by (auto simp: list_all2_conv_all_nth batch_ok_def list_all_length item_ok_def response_ok_def response_norm_def ser_response_def split: prod.splits)
  then show ?thesis using batch.dec_norm [OF assms, of pre post] by (cases b) auto
qed

theorem batch_response_roundtrip_witness:
  "\<exists>items. deserializeBatchResponse (ser_batch (''b'', [(''1'', success (RValue (VString ''v''))), (''2'', error ''missing key'')])) 0
     = Inr ((''b'', items), length (ser_batch (''b'', [(''1'', success (RValue (VString ''v''))), (''2'', error ''missing key'')]))) \<and>
     map fst items = [''1'', ''2'']"
proof -
  let ?b = "(''b'', [(''1'', success (RValue (VString ''v''))), (''2'', error ''missing key'')])"
  have "batch_ok ?b" by (simp add: batch_ok_def item_ok_def response_ok_def success_def error_def string_ok_def)
  from batch_response_roundtrip [OF this, of "[]" "[]"] show ?thesis by auto
qed

end
