(* ===== verification/Processor.thy ===== *)
theory Processor
  imports Storage Protocol
begin

text \<open>
  What the five value processors (\<open>storage/processors.cpp\<close>) share. A write command is logged first,
  then runs as a callback on the key's value inside the active memtable. When the key is not there,
  which the memtable reports by throwing \<open>std::out_of_range\<close>, the command works on a copy of the
  value in the older layers and writes the result to the active memtable. Any other exception is
  rethrown as a sliced \<open>std::exception\<close>.

  The counters that the callbacks capture by reference are part of their results. A callback can
  throw \<open>std::out_of_range\<close> itself (a score outside the range of \<open>double\<close>); then the second branch
  runs, meets the same score and throws again, so no count is returned.
\<close>

section \<open>The skeleton of a write command\<close>

definition log_unless :: "bool \<Rightarrow> u8 \<Rightarrow> string \<Rightarrow> string \<Rightarrow> storage \<Rightarrow> storage" where
  "log_unless is_recover type key payload st =
     (if enable_wal st \<and> \<not> is_recover then snd (log_op type key payload st) else st)"

definition run_handler :: "string \<Rightarrow> (evalue \<Rightarrow> 'r res \<times> evalue) \<Rightarrow> 'r cmd \<Rightarrow> 'r cmd" where
  "run_handler key callback old st =
     (case memtable_handle_value key callback (st_memtable st) of
        (Inr (r, _), mt) \<Rightarrow> (Inr r, st\<lparr>st_memtable := mt\<rparr>)
      | (Inl (OutOfRange _), mt) \<Rightarrow> old (st\<lparr>st_memtable := mt\<rparr>)
      | (Inl e, mt) \<Rightarrow> (Inl (slice_exn e), st\<lparr>st_memtable := mt\<rparr>))"

definition write_result :: "env \<Rightarrow> string \<Rightarrow> evalue \<Rightarrow> 'r \<Rightarrow> 'r cmd" where
  "write_result env key v r = cbind (write_memtable env key v) (\<lambda>_. creturn r)"

text \<open>
  The two forms of callback. \<open>revive\<close> is that of the commands that create or extend a container: the
  type is checked first, and a deleted or expired container is emptied and made live again.
  \<open>modify\<close> is that of the commands that shrink or change one: on a deleted or expired value of any
  type they do nothing and give a default answer.
\<close>

definition revive :: "nat \<Rightarrow> (eya_value \<Rightarrow> 'c res) \<Rightarrow> ('c \<Rightarrow> eya_value) \<Rightarrow> ('c \<Rightarrow> 'c) \<Rightarrow> ('c \<Rightarrow> 'r res \<times> 'c) \<Rightarrow> evalue \<Rightarrow> 'r res \<times> evalue" where
  "revive now get put clear step v =
     (case get (evalue v) of
        Inl e \<Rightarrow> (Inl e, v)
      | Inr c \<Rightarrow>
          if is_deleted v \<or> is_expired now v
          then (case step (clear c) of (r, c') \<Rightarrow> (r, v\<lparr>deleted := False, expire_time := 0, evalue := put c'\<rparr>))
          else (case step c of (r, c') \<Rightarrow> (r, v\<lparr>evalue := put c'\<rparr>)))"

definition modify :: "nat \<Rightarrow> (eya_value \<Rightarrow> 'c res) \<Rightarrow> ('c \<Rightarrow> eya_value) \<Rightarrow> 'r res \<Rightarrow> ('c \<Rightarrow> 'r res \<times> 'c) \<Rightarrow> evalue \<Rightarrow> 'r res \<times> evalue" where
  "modify now get put dead step v =
     (if is_deleted v \<or> is_expired now v then (dead, v)
      else case get (evalue v) of
             Inl e \<Rightarrow> (Inl e, v)
           | Inr c \<Rightarrow> (case step c of (r, c') \<Rightarrow> (r, v\<lparr>evalue := put c'\<rparr>)))"

text \<open>
  The branch for a key that is not in the active memtable. \<open>absent\<close> is the answer when the older
  layers have no live value either; the result of \<open>step\<close> is written back when \<open>keep\<close> says so.
\<close>

definition on_old :: "env \<Rightarrow> string \<Rightarrow> (eya_value \<Rightarrow> 'c res) \<Rightarrow> ('c \<Rightarrow> eya_value) \<Rightarrow> ('r \<Rightarrow> bool) \<Rightarrow> ('c \<Rightarrow> 'r res \<times> 'c) \<Rightarrow> 'r cmd \<Rightarrow> 'r cmd" where
  "on_old env key get put keep step absent =
     cbind (get_from_old env key) (\<lambda>val_opt.
       case val_opt of
         None \<Rightarrow> absent
       | Some v \<Rightarrow>
           (case get (evalue v) of
              Inl e \<Rightarrow> cthrow e
            | Inr c \<Rightarrow>
                (case step c of
                   (Inl e, _) \<Rightarrow> cthrow e
                 | (Inr r, c') \<Rightarrow> if keep r then write_result env key (v\<lparr>evalue := put c'\<rparr>) r else creturn r)))"

text \<open>A fresh container, filled and written.\<close>

definition create :: "env \<Rightarrow> string \<Rightarrow> ('c \<Rightarrow> eya_value) \<Rightarrow> 'c \<Rightarrow> ('c \<Rightarrow> 'r res \<times> 'c) \<Rightarrow> 'r cmd" where
  "create env key put c0 step =
     (case step c0 of
        (Inl e, _) \<Rightarrow> cthrow e
      | (Inr r, c') \<Rightarrow> write_result env key (mk_evalue (put c')) r)"

section \<open>Alternatives of the variant\<close>

definition as_set :: "eya_value \<Rightarrow> uset res" where
  "as_set v = (case v of VSet s \<Rightarrow> Inr s | _ \<Rightarrow> Inl (RuntimeError ''value is not a set''))"

definition as_zset :: "eya_value \<Rightarrow> zset res" where
  "as_zset v = (case v of VZSet z \<Rightarrow> Inr z | _ \<Rightarrow> Inl (RuntimeError ''value is not a zset''))"

definition as_list :: "eya_value \<Rightarrow> string list res" where
  "as_list v = (case v of VDeque q \<Rightarrow> Inr q | _ \<Rightarrow> Inl (RuntimeError ''value is not a list''))"

definition as_hash :: "eya_value \<Rightarrow> string umap res" where
  "as_hash v = (case v of VHash m \<Rightarrow> Inr m | _ \<Rightarrow> Inl (RuntimeError ''value is not a hash''))"

section \<open>Read commands\<close>

definition read_value :: "env \<Rightarrow> string \<Rightarrow> (eya_value \<Rightarrow> 'c res) \<Rightarrow> 'r res \<Rightarrow> ('c \<Rightarrow> 'r res) \<Rightarrow> 'r cmd" where
  "read_value env key get absent f =
     cbind (storage_get env key) (\<lambda>val_opt.
       clift (case val_opt of None \<Rightarrow> absent | Some v \<Rightarrow> rbind (get v) f))"

text \<open>
  Positions count from the end when negative. Adding the size cannot overflow: it is added to
  negative numbers only.
\<close>

definition from_end :: "nat \<Rightarrow> int \<Rightarrow> int" where
  "from_end sz i = (if i < 0 then i + int sz else i)"

definition clamp_range :: "nat \<Rightarrow> int \<Rightarrow> int \<Rightarrow> (nat \<times> nat) option" where
  "clamp_range sz start end =
     (let s = max 0 (from_end sz start);
          e0 = from_end sz end;
          e = (if int sz \<le> e0 then int sz - 1 else e0)
      in if e < s then None else Some (nat s, nat e))"

section \<open>What the commands do\<close>

text \<open>The value a write command works on: the newest version, if it is live.\<close>

definition current :: "nat \<Rightarrow> storage \<Rightarrow> string \<Rightarrow> evalue option" where
  "current now st k = seen now (newest st k)"

lemma current_visible: "current now st k = Some v \<Longrightarrow> visible now st k = Some v"
  by (auto simp: current_def newest_def visible_def split: option.splits if_splits)

definition ready :: "env \<Rightarrow> storage \<Rightarrow> bool" where
  "ready env st \<longleftrightarrow> st_inv st \<and> clock_advances env st \<and> roomy st"

lemma store_fresh_ready [simp]: "ready (env_at now 5) (store_fresh True)"
  by (simp add: ready_def)

lemma ready_log_unless [simp]:
  "ready env (log_unless b t k p st) = ready env st" "newest (log_unless b t k p st) = newest st"
  "current now (log_unless b t k p st) = current now st" "old_view (log_unless b t k p st) = old_view st"
  "st_memtable (log_unless b t k p st) = st_memtable st"
proof -
  obtain w where "log_unless b t k p st = st\<lparr>st_wal := w\<rparr>"
  proof (cases "enable_wal st \<and> \<not> b")
    case True
    then show thesis using that [of "snd (append_log t k p (st_wal st))"] by (simp add: log_unless_def log_op_def split: prod.split)
  next
    case False
    then show thesis using that [of "st_wal st"] by (auto simp: log_unless_def)
  qed
  then show "ready env (log_unless b t k p st) = ready env st" "newest (log_unless b t k p st) = newest st"
    "current now (log_unless b t k p st) = current now st" "old_view (log_unless b t k p st) = old_view st"
    "st_memtable (log_unless b t k p st) = st_memtable st"
    by (simp_all add: ready_def current_def fun_eq_iff)
qed

lemma handler_present:
  assumes rdy: "ready env st" and v: "memtable_get k (st_memtable st) = Some v" and f: "f v = (Inr r, v')"
  shows "\<exists>mt. run_handler k f old st = (Inr r, st\<lparr>st_memtable := mt\<rparr>) \<and> st_inv (st\<lparr>st_memtable := mt\<rparr>) \<and>
    newest (st\<lparr>st_memtable := mt\<rparr>) = (newest st)(k \<mapsto> v')"
proof -
  have inv: "st_inv st" "mt_ok (st_memtable st)" using rdy by (simp_all add: ready_def st_inv_def)
  obtain mt where mt: "memtable_handle_value k f (st_memtable st) = (Inr (r, v), mt)" "mt_ok mt"
    "\<And>k'. memtable_get k' mt = (if k' = k then Some v' else memtable_get k' (st_memtable st))"
    using handle_ok [OF inv(2) v, of f, OF f] by blast
  then show ?thesis
    using st_inv_memtable [OF inv(1) mt(2)] newest_memtable [OF mt(3)] by (intro exI [of _ mt]) (simp add: run_handler_def)
qed

lemma handler_absent:
  assumes "ready env st" "memtable_get k (st_memtable st) = None"
  shows "run_handler k f old st = old st"
proof -
  have ok: "mt_ok (st_memtable st)" "mt_inv (st_memtable st)" using assms(1) by (simp_all add: ready_def st_inv_def mt_ok_def)
  then have "mt_cell (st_memtable st) k = None" using observe_stable [OF ok(1), of k] assms(2) by simp
  from handle_absent [OF ok(2) this, of f] show ?thesis by (simp add: run_handler_def)
qed

lemma write_result_spec:
  assumes "ready env st"
  shows "\<exists>st'. write_result env k v r st = (Inr r, st') \<and> st_inv st' \<and> newest st' = (newest st)(k \<mapsto> v)"
  using write_memtable_spec [of st env k v] assms by (auto simp: ready_def write_result_def)

lemma ready_recached: "recached st st' \<Longrightarrow> ready env st \<Longrightarrow> ready env st'"
  using recached_sel [of st st'] by (simp add: ready_def roomy_def)

text \<open>
  The contract between the processors and the values they work on: an alternative of the variant,
  read by \<open>as_c\<close> and written by \<open>put\<close>.
\<close>

locale container =
  fixes as_c :: "eya_value \<Rightarrow> 'c res" and put :: "'c \<Rightarrow> eya_value"
  assumes as_put: "as_c (put c) = Inr c"
    and put_as: "as_c v = Inr c \<Longrightarrow> v = put c"
begin

text \<open>Commands that change an existing container, on a live value and on none.\<close>

lemma modify_live:
  assumes rdy: "ready env st" and cur: "current (clock env) st k = Some v" and c: "as_c (evalue v) = Inr c"
    and step: "step c = (Inr r, c')" and keep: "keep r \<or> c' = c"
  shows "\<exists>st'. run_handler k (modify (clock env) as_c put dead step) (on_old env k as_c put keep step absent) st = (Inr r, st') \<and>
    st_inv st' \<and> newest st' = (newest st)(k \<mapsto> v\<lparr>evalue := put c'\<rparr>)"
proof -
  have l: "live (clock env) v" and n: "newest st k = Some v" using cur by (auto simp: current_def seen_def split: option.splits if_splits)
  show ?thesis
  proof (cases "memtable_get k (st_memtable st)")
    case (Some w)
    then have g: "memtable_get k (st_memtable st) = Some v" using n by (simp add: newest_def)
    have "modify (clock env) as_c put dead step v = (Inr r, v\<lparr>evalue := put c'\<rparr>)"
      using l c step by (simp add: modify_def live_def)
    from handler_present [where f = "modify (clock env) as_c put dead step", OF rdy g this, of "on_old env k as_c put keep step absent"]
    show ?thesis by blast
  next
    case None
    then have old: "old_view st k = Some v" using n by (simp add: newest_def)
    have inv: "st_inv st" using rdy by (simp add: ready_def)
    obtain st1 where g: "get_from_old env k st = (Inr (Some v), st1)" "recached st st1"
      using get_from_old_spec [OF inv, of env k] l by (auto simp: old)
    note s1 = recached_sel(4,12) [OF g(2)]
    have run: "run_handler k (modify (clock env) as_c put dead step) (on_old env k as_c put keep step absent) st =
        (if keep r then write_result env k (v\<lparr>evalue := put c'\<rparr>) r st1 else (Inr r, st1))"
      using g(1) by (simp add: handler_absent [OF rdy None] on_old_def c step)
    show ?thesis
    proof (cases "keep r")
      case True
      then show ?thesis using run write_result_spec [OF ready_recached [OF g(2) rdy], of k "v\<lparr>evalue := put c'\<rparr>" r] s1(1) by auto
    next
      case False
      then have "v\<lparr>evalue := put c'\<rparr> = v" using keep put_as [OF c] by simp
      then show ?thesis using run False s1 inv n by (auto simp: fun_upd_idem_iff)
    qed
  qed
qed

lemma modify_none:
  assumes rdy: "ready env st" and cur: "current (clock env) st k = None"
  shows "\<exists>st'. run_handler k (modify (clock env) as_c put (Inr x) step) (on_old env k as_c put keep step (creturn x)) st = (Inr x, st') \<and>
    st_inv st' \<and> newest st' = newest st"
proof (cases "memtable_get k (st_memtable st)")
  case (Some v)
  then have n: "newest st k = Some v" "\<not> live (clock env) v" using cur by (auto simp: current_def newest_def)
  then have "modify (clock env) as_c put (Inr x) step v = (Inr x, v)" by (auto simp: modify_def live_def)
  from handler_present [where f = "modify (clock env) as_c put (Inr x) step", OF rdy Some this, of "on_old env k as_c put keep step (creturn x)"]
  show ?thesis using n(1) by (auto simp: fun_upd_idem_iff)
next
  case None
  have inv: "st_inv st" using rdy by (simp add: ready_def)
  have o: "seen (clock env) (old_view st k) = None" using None cur by (simp add: current_def newest_def)
  obtain st1 where g: "get_from_old env k st = (Inr None, st1)" "recached st st1"
    using get_from_old_spec [OF inv, of env k] by (auto simp: o)
  show ?thesis using recached_sel(4,12) [OF g(2)] inv g(1) by (simp add: handler_absent [OF rdy None] on_old_def)
qed

end

context container
begin

text \<open>Commands that extend a container, or create it.\<close>

lemma revive_live:
  assumes rdy: "ready env st" and cur: "current (clock env) st k = Some v" and c: "as_c (evalue v) = Inr c"
    and step: "step c = (Inr r, c')"
  shows "\<exists>st'. run_handler k (revive (clock env) as_c put clear step) (on_old env k as_c put (\<lambda>_. True) step absent) st = (Inr r, st') \<and>
    st_inv st' \<and> newest st' = (newest st)(k \<mapsto> v\<lparr>evalue := put c'\<rparr>)"
proof -
  have l: "live (clock env) v" using cur by (auto simp: current_def seen_def split: option.splits if_splits)
  obtain st' where m: "run_handler k (modify (clock env) as_c put (Inl UB) step) (on_old env k as_c put (\<lambda>_. True) step absent) st = (Inr r, st')"
    "st_inv st'" "newest st' = (newest st)(k \<mapsto> v\<lparr>evalue := put c'\<rparr>)"
    using modify_live [where keep = "\<lambda>_. True" and absent = absent and step = step and dead = "Inl UB", OF rdy cur c step] by blast
  show ?thesis
  proof (cases "memtable_get k (st_memtable st)")
    case (Some w)
    then have g: "memtable_get k (st_memtable st) = Some v" using cur by (auto simp: newest_def current_def seen_def split: if_splits)
    have "revive (clock env) as_c put clear step v = (Inr r, v\<lparr>evalue := put c'\<rparr>)"
      using l c step by (simp add: revive_def live_def)
    from handler_present [where f = "revive (clock env) as_c put clear step", OF rdy g this, of "on_old env k as_c put (\<lambda>_. True) step absent"]
    show ?thesis by blast
  next
    case None
    then show ?thesis using m by (simp add: handler_absent [OF rdy None])
  qed
qed

lemma revive_none:
  assumes rdy: "ready env st" and cur: "current (clock env) st k = None"
    and typed: "\<And>w. memtable_get k (st_memtable st) = Some w \<Longrightarrow> \<exists>c. as_c (evalue w) = Inr c \<and> G c"
    and step: "\<And>c. G c \<Longrightarrow> \<exists>r c'. step (clear c) = (Inr r, c') \<and> Q r c'" "\<exists>r c'. step0 c0 = (Inr r, c') \<and> Q r c'"
  shows "\<exists>st' r c'. run_handler k (revive (clock env) as_c put clear step)
      (on_old env k as_c put (\<lambda>_. True) step (create env k put c0 step0)) st = (Inr r, st') \<and> Q r c' \<and>
    st_inv st' \<and> newest st' = (newest st)(k \<mapsto> mk_evalue (put c'))"
proof (cases "memtable_get k (st_memtable st)")
  case (Some w)
  then have d: "is_deleted w \<or> is_expired (clock env) w" using cur by (auto simp: current_def newest_def live_def split: if_splits)
  obtain c r c' where c: "as_c (evalue w) = Inr c" "step (clear c) = (Inr r, c')" "Q r c'" using typed [OF Some] step(1) by blast
  have "w\<lparr>deleted := False, expire_time := 0, evalue := put c'\<rparr> = mk_evalue (put c')" by (simp add: mk_evalue_def)
  then have "revive (clock env) as_c put clear step w = (Inr r, mk_evalue (put c'))"
    using d c(1,2) by (auto simp: revive_def)
  from handler_present [where f = "revive (clock env) as_c put clear step", OF rdy Some this] show ?thesis using c(3) by blast
next
  case None
  have inv: "st_inv st" using rdy by (simp add: ready_def)
  have o: "seen (clock env) (old_view st k) = None" using None cur by (simp add: current_def newest_def)
  obtain st1 where g: "get_from_old env k st = (Inr None, st1)" "recached st st1"
    using get_from_old_spec [OF inv, of env k] by (auto simp: o)
  obtain r c' where s: "step0 c0 = (Inr r, c')" "Q r c'" using step(2) by blast
  show ?thesis
    using write_result_spec [OF ready_recached [OF g(2) rdy], of k "mk_evalue (put c')" r] recached_sel(4) [OF g(2)] g(1) s
    by (auto simp: handler_absent [OF rdy None] on_old_def create_def)
qed

text \<open>Reads.\<close>

lemma read_spec:
  assumes inv: "st_inv st" and c: "\<And>v. visible (clock env) st k = Some v \<Longrightarrow> evalue v = put (g v)"
  shows "\<exists>st'. read_value env k as_c absent f st =
      (case visible (clock env) st k of None \<Rightarrow> absent | Some v \<Rightarrow> f (g v), st') \<and> recached st st'"
  using storage_get_spec [OF inv, of env k] c as_put by (auto simp: read_value_def split: option.split)

text \<open>
  A command of the wrong type. On a value of the older layers it reports what is wrong and changes
  nothing. On a value in the active memtable the message is lost in the rethrow, and the cell of the
  key is left as one that is being written: every reader sees the default value, an empty string.
\<close>

lemma wrong_type_old:
  assumes rdy: "ready env st" and v: "memtable_get k (st_memtable st) = None" "current (clock env) st k = Some v"
    and c: "as_c (evalue v) = Inl e"
  shows "\<exists>st'. run_handler k f (on_old env k as_c put keep step absent) st = (Inl e, st') \<and> st_inv st' \<and> newest st' = newest st"
proof -
  have inv: "st_inv st" using rdy by (simp add: ready_def)
  have o: "seen (clock env) (old_view st k) = Some v" using v by (simp add: current_def newest_def)
  obtain st1 where g: "get_from_old env k st = (Inr (Some v), st1)" "recached st st1"
    using get_from_old_spec [OF inv, of env k] by (auto simp: o)
  show ?thesis using recached_sel(4,12) [OF g(2)] inv g(1) c by (simp add: handler_absent [OF rdy v(1)] on_old_def)
qed

lemma wrong_type_memory:
  assumes rdy: "ready env st" and v: "memtable_get k (st_memtable st) = Some v" and f: "f v = (Inl (RuntimeError m), v')"
  shows "\<exists>mt. run_handler k f old st = (Inl StdException, st\<lparr>st_memtable := mt\<rparr>) \<and> mt_inv mt \<and>
    (\<forall>k'. memtable_get k' mt = (if k' = k then Some evalue_default else memtable_get k' (st_memtable st)))"
proof -
  have ok: "mt_ok (st_memtable st)" "mt_inv (st_memtable st)" using rdy by (simp_all add: ready_def st_inv_def mt_ok_def)
  obtain stuck where "mt_cell (st_memtable st) k = Some (v, stuck)" using observe_stable [OF ok(1), of k] v by (cases "mt_cell (st_memtable st) k") auto
  then have cell: "mt_cell (st_memtable st) k = Some (v, False)" using ok(1) by (auto simp: mt_ok_def mt_stable_def)
  from handle_throws [OF ok(2) cell, of f, OF f] show ?thesis by (auto simp: run_handler_def slice_exn_def)
qed

end

text \<open>
  \<open>holds\<close>: the store's newest version of a key stands for the container \<open>c\<close>, a missing, deleted or
  expired one of the right type for the empty container.
\<close>

definition holds :: "(eya_value \<Rightarrow> 'c res) \<Rightarrow> 'c \<Rightarrow> nat \<Rightarrow> storage \<Rightarrow> string \<Rightarrow> 'c \<Rightarrow> bool" where
  "holds as_c c0 now st k c \<longleftrightarrow> (case newest st k of
       None \<Rightarrow> c = c0
     | Some w \<Rightarrow> (case as_c (evalue w) of Inl _ \<Rightarrow> False | Inr cw \<Rightarrow> c = (if live now w then cw else c0)))"

lemma live_evalue [simp]: "live now (v\<lparr>evalue := x\<rparr>) = live now v" "live now (mk_evalue x)"
  by (simp_all add: live_def is_deleted_def is_expired_def mk_evalue_def)

lemma evalue_mk [simp]: "evalue (mk_evalue x) = x"
  by (simp add: mk_evalue_def)

lemma holds_current:
  assumes "holds as_c c0 now st k c"
  shows "(\<exists>v. current now st k = Some v \<and> as_c (evalue v) = Inr c) \<or>
    (current now st k = None \<and> c = c0 \<and> (\<forall>w. newest st k = Some w \<longrightarrow> (\<exists>cw. as_c (evalue w) = Inr cw)))"
  using assms by (auto simp: holds_def current_def split: option.splits sum.splits if_splits)

context container
begin

text \<open>A command that extends a container, through any of the code's paths.\<close>

lemma extend_command:
  assumes rdy: "ready env st" and h: "holds as_c c0 (clock env) st k c"
    and s: "\<exists>r c'. step c = (Inr r, c') \<and> Q r c'"
    and good: "\<And>w cw. newest st k = Some w \<Longrightarrow> as_c (evalue w) = Inr cw \<Longrightarrow> G cw"
    and s0: "c = c0 \<Longrightarrow> (\<forall>c1. G c1 \<longrightarrow> (\<exists>r c'. step (clear c1) = (Inr r, c') \<and> Q r c')) \<and> (\<exists>r c'. step0 c0 = (Inr r, c') \<and> Q r c')"
  shows "\<exists>st' r c'. run_handler k (revive (clock env) as_c put clear step)
      (on_old env k as_c put (\<lambda>_. True) step (create env k put c0 step0)) st = (Inr r, st') \<and> Q r c' \<and> st_inv st' \<and>
    holds as_c c0 (clock env) st' k c' \<and> current (clock env) st' k \<noteq> None \<and> (\<forall>k'. k' \<noteq> k \<longrightarrow> newest st' k' = newest st k')"
  using holds_current [OF h]
proof (elim disjE exE conjE)
  fix v
  assume v: "current (clock env) st k = Some v" "as_c (evalue v) = Inr c"
  obtain r c' where r: "step c = (Inr r, c')" "Q r c'" using s by blast
  obtain st' where st': "run_handler k (revive (clock env) as_c put clear step)
      (on_old env k as_c put (\<lambda>_. True) step (create env k put c0 step0)) st = (Inr r, st')"
    "st_inv st'" "newest st' = (newest st)(k \<mapsto> v\<lparr>evalue := put c'\<rparr>)"
    using revive_live [where step = step and clear = clear, OF rdy v r(1)] by blast
  have "live (clock env) v" using v(1) by (auto simp: current_def seen_def split: option.splits if_splits)
  then have "holds as_c c0 (clock env) st' k c'" "current (clock env) st' k \<noteq> None" by (simp_all add: holds_def st'(3) as_put current_def)
  then show ?thesis using st' r(2) by (intro exI [of _ st'] exI [of _ r] exI [of _ c']) simp
next
  assume n: "current (clock env) st k = None" "c = c0" "\<forall>w. newest st k = Some w \<longrightarrow> (\<exists>cw. as_c (evalue w) = Inr cw)"
  have t: "\<exists>cw. as_c (evalue w) = Inr cw \<and> G cw" if "memtable_get k (st_memtable st) = Some w" for w
    using n(3) good [of w] that by (auto simp: newest_def)
  have s1: "G c1 \<Longrightarrow> \<exists>r c'. step (clear c1) = (Inr r, c') \<and> Q r c'" "\<exists>r c'. step0 c0 = (Inr r, c') \<and> Q r c'" for c1 using s0 [OF n(2)] by blast+
  obtain st' r c' where st': "run_handler k (revive (clock env) as_c put clear step)
      (on_old env k as_c put (\<lambda>_. True) step (create env k put c0 step0)) st = (Inr r, st')" "Q r c'"
    "st_inv st'" "newest st' = (newest st)(k \<mapsto> mk_evalue (put c'))"
    using revive_none [where step = step and clear = clear and ?step0.0 = step0 and ?c0.0 = c0 and Q = Q and G = G, OF rdy n(1) t s1] by blast
  then show ?thesis by (intro exI [of _ st'] exI [of _ r] exI [of _ c']) (simp add: holds_def as_put current_def)
qed

text \<open>A command that changes a container; on the empty one it does nothing.\<close>

lemma shrink_command:
  assumes rdy: "ready env st" and h: "holds as_c c0 (clock env) st k c" and s: "step c = (Inr r, c')" "keep r \<or> c' = c"
    and s0: "step c0 = (Inr x, c0)"
  shows "\<exists>st'. run_handler k (modify (clock env) as_c put (Inr x) step) (on_old env k as_c put keep step (creturn x)) st = (Inr r, st') \<and>
    st_inv st' \<and> holds as_c c0 (clock env) st' k c' \<and> (\<forall>k'. k' \<noteq> k \<longrightarrow> newest st' k' = newest st k')"
  using holds_current [OF h]
proof (elim disjE exE conjE)
  fix v
  assume v: "current (clock env) st k = Some v" "as_c (evalue v) = Inr c"
  have "live (clock env) v" using v(1) by (auto simp: current_def seen_def split: option.splits if_splits)
  then show ?thesis
    using modify_live [where step = step and keep = keep and dead = "Inr x" and absent = "creturn x", OF rdy v s]
    by (auto simp: holds_def as_put)
next
  assume n: "current (clock env) st k = None" "c = c0"
  then have "r = x" "c' = c0" using s(1) s0 by simp_all
  moreover have "holds as_c c0 (clock env) st' k c0" if "newest st' = newest st" for st'
    using h n(2) that by (simp add: holds_def)
  ultimately show ?thesis
    using modify_none [where step = step and keep = keep and x = x, OF rdy n(1)] by metis
qed

text \<open>A read of a container that the newest version holds, unless a dead version in the active memtable hides an older one.\<close>

lemma read_holds:
  assumes inv: "st_inv st" and h: "holds as_c c0 (clock env) st k c"
    and vis: "visible (clock env) st k = current (clock env) st k" and dflt: "absent = f c0"
  shows "\<exists>st'. read_value env k as_c absent f st = (f c, st') \<and> recached st st'"
proof -
  have c: "evalue v = put c" if "visible (clock env) st k = Some v" for v
    using holds_current [OF h] that put_as by (auto simp: vis)
  obtain st' where "read_value env k as_c absent f st = (case visible (clock env) st k of None \<Rightarrow> absent | Some v \<Rightarrow> f c, st')" "recached st st'"
    using read_spec [where g = "\<lambda>_. c" and absent = absent and f = f and k = k and env = env, OF inv c] by blast
  then show ?thesis using holds_current [OF h] dflt by (auto simp: vis)
qed

end

interpretation set_c: container as_set VSet
  by unfold_locales (auto simp: as_set_def split: eya_value.splits)

interpretation zset_c: container as_zset VZSet
  by unfold_locales (auto simp: as_zset_def split: eya_value.splits)

interpretation list_c: container as_list VDeque
  by unfold_locales (auto simp: as_list_def split: eya_value.splits)

interpretation hash_c: container as_hash VHash
  by unfold_locales (auto simp: as_hash_def split: eya_value.splits)

section \<open>Ranges of positions\<close>

lemma filter_upt: "filter (\<lambda>i. lo \<le> i \<and> i \<le> hi) [0..<n] = [lo..<min (Suc hi) n]"
  by (induction n) (auto simp: min_def not_less_eq_eq)

text \<open>A clamped range is the list of the positions between its ends.\<close>

lemma clamp_positions:
  "(case clamp_range n start end of None \<Rightarrow> [] | Some (s, e) \<Rightarrow> [s..<Suc e]) =
     filter (\<lambda>i. from_end n start \<le> int i \<and> int i \<le> from_end n end) [0..<n]"
proof -
  let ?a = "from_end n start" and ?b = "from_end n end"
  show ?thesis
  proof (cases "0 \<le> ?b")
    case True
    have "filter (\<lambda>i. ?a \<le> int i \<and> int i \<le> ?b) [0..<n] = filter (\<lambda>i. nat ?a \<le> i \<and> i \<le> nat ?b) [0..<n]"
      using True by (intro filter_cong) auto
    then show ?thesis unfolding filter_upt using True
      by (auto simp: clamp_range_def Let_def max_def min_def nat_diff_distrib not_less simp del: upt_Suc split: if_splits)
  next
    case False
    then have "filter (\<lambda>i. ?a \<le> int i \<and> int i \<le> ?b) [0..<n] = []" by (auto simp: filter_empty_conv)
    then show ?thesis using False by (auto simp: clamp_range_def Let_def)
  qed
qed

lemma clamp_bounds: "clamp_range n start end = Some (s, e) \<Longrightarrow> s \<le> e \<and> e < n"
  by (auto simp: clamp_range_def Let_def from_end_def split: if_splits)

section \<open>Numbers in log records\<close>

lemma length_nat_to_string: "1 \<le> k \<Longrightarrow> n < 10 ^ k \<Longrightarrow> length (nat_to_string n) \<le> k"
proof (induction n arbitrary: k rule: nat_to_string.induct)
  case (1 n)
  show ?case
  proof (cases "n < 10")
    case True
    then show ?thesis using 1 by (simp add: nat_to_string.simps [of n])
  next
    case False
    then have "2 \<le> k" using 1(3) by (cases "k = 1") (use 1(2) in auto)
    moreover have "n div 10 < 10 ^ (k - 1)" using 1(3) \<open>2 \<le> k\<close> by (simp add: div_less_iff_less_mult power_eq_if mult.commute split: if_splits)
    ultimately have "length (nat_to_string (n div 10)) \<le> k - 1" using 1(1) False by simp
    then show ?thesis using False \<open>2 \<le> k\<close> by (simp add: nat_to_string.simps [of n])
  qed
qed

lemma number_ok: "string_ok (nat_to_string (unat (n :: u64)))"
proof -
  have "unat n < 10 ^ 20" using unat_bound [of n] by simp
  from length_nat_to_string [OF _ this] show ?thesis by (simp add: string_ok_def)
qed

lemma stoll_nat: "m < 2 ^ 63 \<Longrightarrow> stoll (nat_to_string m) = Inr (int m)"
  using stoll_to_string [of "int m"] by (simp add: int_to_string_def)

lemma integer_ok: "- (2 ^ 63) \<le> i \<Longrightarrow> i < 2 ^ 63 \<Longrightarrow> string_ok (int_to_string i)"
proof -
  assume i: "- (2 ^ 63) \<le> i" "i < 2 ^ 63"
  have "nat (- i) < 10 ^ 20" "nat i < 10 ^ 20" using i by (simp_all add: nat_less_iff)
  from length_nat_to_string [OF _ this(1)] length_nat_to_string [OF _ this(2)] show ?thesis
    by (simp add: string_ok_def int_to_string_def)
qed

end
