(* ===== verification/SetProcessor.thy ===== *)
theory SetProcessor
  imports Processor
begin

text \<open>
  \<open>StringProcessor\<close> and \<open>SetProcessor\<close> (\<open>storage/processors.cpp\<close>): the commands on string values and on
  sets of strings, their execution from command arguments and their replay from log payloads. The
  overloads on \<open>std::string_view\<close> behave alike.
\<close>

section \<open>Strings\<close>

text \<open>The absolute expiry time is computed in 64 bits and stored in 32.\<close>

definition string_set :: "env \<Rightarrow> string \<Rightarrow> string \<Rightarrow> u64 \<Rightarrow> bool cmd" where
  "string_set env key value ttl st =
     (let val = \<lparr>evalue = VString value, deleted = False,
                 expire_time = (if ttl = 0 then 0 else ucast (word_of_nat (clock env) + ttl))\<rparr>;
          st1 = (if enable_wal st then snd (log_op kSet key (ser_evalue val) st) else st)
      in cbind (write_memtable env key val) (\<lambda>_. creturn True) st1)"

definition string_execute :: "env \<Rightarrow> u8 \<Rightarrow> string list \<Rightarrow> response cmd" where
  "string_execute env type args =
     (if type = kSet then
        (if length args < 2 then creturn (error ''missing arguments'')
         else cbind (clift (if 2 < length args then stoll (args ! 2) else Inr 0)) (\<lambda>ttl.
           cbind (string_set env (args ! 0) (args ! 1) (word_of_int ttl)) (\<lambda>ok. creturn (success_bool ok))))
      else creturn (error ''unsupported type''))"

definition string_recover :: "env \<Rightarrow> u8 \<Rightarrow> string \<Rightarrow> string \<Rightarrow> bool cmd" where
  "string_recover env type key payload =
     (if type = kSet then
        cbind (clift (deserialize_evalue payload 0)) (\<lambda>(val, _).
          cbind (write_memtable env key val) (\<lambda>_. creturn True))
      else creturn False)"

section \<open>Sets\<close>

definition s_add_step :: "string list \<Rightarrow> uset \<Rightarrow> nat res \<times> uset" where
  "s_add_step members s =
     (case fold (\<lambda>m (added, s). case uset_insert m s of (is_new, s') \<Rightarrow> (if is_new then added + 1 else added, s')) members (0, s) of
        (added, s') \<Rightarrow> (Inr added, s'))"

definition s_rem_step :: "string list \<Rightarrow> uset \<Rightarrow> nat res \<times> uset" where
  "s_rem_step members s =
     (case fold (\<lambda>m (removed, s). case uset_erase m s of (found, s') \<Rightarrow> (if found then removed + 1 else removed, s')) members (0, s) of
        (removed, s') \<Rightarrow> (Inr removed, s'))"

definition s_add :: "env \<Rightarrow> bool \<Rightarrow> string \<Rightarrow> string list \<Rightarrow> nat cmd" where
  "s_add env is_recover key members st =
     run_handler key (revive (clock env) as_set VSet (\<lambda>_. []) (s_add_step members))
       (on_old env key as_set VSet (\<lambda>_. True) (s_add_step members) (create env key VSet [] (s_add_step members)))
       (log_unless is_recover kSAdd key (concat (map ser_string members)) st)"

definition s_rem :: "env \<Rightarrow> bool \<Rightarrow> string \<Rightarrow> string list \<Rightarrow> nat cmd" where
  "s_rem env is_recover key members st =
     run_handler key (modify (clock env) as_set VSet (Inr 0) (s_rem_step members))
       (on_old env key as_set VSet (\<lambda>_. True) (s_rem_step members) (creturn 0))
       (log_unless is_recover kSRem key (concat (map ser_string members)) st)"

definition s_members :: "env \<Rightarrow> string \<Rightarrow> string list cmd" where
  "s_members env key = read_value env key as_set (Inr []) Inr"

definition set_execute :: "env \<Rightarrow> u8 \<Rightarrow> string list \<Rightarrow> response cmd" where
  "set_execute env type args =
     (case args of
        [] \<Rightarrow> creturn (error ''missing key'')
      | key # members \<Rightarrow>
          if type = kSAdd then
            (if members = [] then creturn (error ''missing member'')
             else cbind (s_add env False key members) (\<lambda>n. creturn (success_size n)))
          else if type = kSRem then
            (if members = [] then creturn (error ''missing member'')
             else cbind (s_rem env False key members) (\<lambda>n. creturn (success_size n)))
          else if type = kSMembers then cbind (s_members env key) (\<lambda>xs. creturn (success (RStrings xs)))
          else creturn (error ''unsupported type''))"

definition set_recover :: "env \<Rightarrow> u8 \<Rightarrow> string \<Rightarrow> string \<Rightarrow> bool cmd" where
  "set_recover env type key payload =
     (if type = kSAdd then
        cbind (clift (dec_strings payload 0)) (\<lambda>members. cbind (s_add env True key members) (\<lambda>_. creturn True))
      else if type = kSRem then
        cbind (clift (dec_strings payload 0)) (\<lambda>members. cbind (s_rem env True key members) (\<lambda>_. creturn True))
      else creturn False)"

section \<open>Sets as sets\<close>

lemma s_add_loop:
  "distinct s \<Longrightarrow> \<exists>s'. fold (\<lambda>m (added, s). case uset_insert m s of (is_new, s') \<Rightarrow> (if is_new then added + 1 else added, s')) ms (n, s)
     = (n + card (set ms - set s), s') \<and> distinct s' \<and> set s' = set s \<union> set ms"
proof (induction ms arbitrary: n s)
  case (Cons m ms)
  have "card (set (m # ms) - set s) = (if m \<in> set s then 0 else 1) + card (set ms - set (snd (uset_insert m s)))"
  proof (cases "m \<in> set s")
    case False
    have "set (m # ms) - set s = insert m (set ms - set (s @ [m]))" using False by auto
    then show ?thesis using False by (simp add: uset_insert_def card_insert_if)
  qed (simp add: uset_insert_def insert_Diff_if)
  moreover have "fst (uset_insert m s) = (m \<notin> set s)" by (simp add: uset_insert_def)
  ultimately show ?case
    using Cons.IH [OF uset_insert_props(1) [OF Cons.prems], of "if m \<in> set s then n else n + 1" m] uset_insert_props(2) [OF Cons.prems, of m]
    by (auto split: prod.split)
qed simp

lemma s_add_step_spec:
  "distinct s \<Longrightarrow> \<exists>s'. s_add_step ms s = (Inr (card (set ms - set s)), s') \<and> distinct s' \<and> set s' = set s \<union> set ms"
  using s_add_loop [of s ms 0] by (auto simp: s_add_step_def)

lemma s_rem_loop:
  "distinct s \<Longrightarrow> \<exists>s'. fold (\<lambda>m (removed, s). case uset_erase m s of (found, s') \<Rightarrow> (if found then removed + 1 else removed, s')) ms (n, s)
     = (n + card (set ms \<inter> set s), s') \<and> distinct s' \<and> set s' = set s - set ms"
proof (induction ms arbitrary: n s)
  case (Cons m ms)
  have "card (set (m # ms) \<inter> set s) = (if m \<in> set s then 1 else 0) + card (set ms \<inter> set (snd (uset_erase m s)))"
  proof (cases "m \<in> set s")
    case True
    have "set (m # ms) \<inter> set s = insert m (set ms \<inter> (set s - {m}))" using True by auto
    then show ?thesis using True uset_erase_props(2) [OF Cons.prems, of m] by (simp add: card_insert_if)
  next
    case False
    then have "set (m # ms) \<inter> set s = set ms \<inter> (set s - {m})" by auto
    then show ?thesis using False uset_erase_props(2) [OF Cons.prems, of m] by simp
  qed
  moreover have "fst (uset_erase m s) = (m \<in> set s)" by (simp add: uset_erase_def)
  ultimately show ?case
    using Cons.IH [OF uset_erase_props(1) [OF Cons.prems], of "if m \<in> set s then n + 1 else n" m] uset_erase_props(2) [OF Cons.prems, of m]
    by (auto split: prod.split)
qed simp

lemma s_rem_step_spec:
  "distinct s \<Longrightarrow> \<exists>s'. s_rem_step ms s = (Inr (card (set ms \<inter> set s)), s') \<and> distinct s' \<and> set s' = set s - set ms"
  using s_rem_loop [of s ms 0] by (auto simp: s_rem_step_def)

abbreviation holds_set :: "nat \<Rightarrow> storage \<Rightarrow> string \<Rightarrow> uset \<Rightarrow> bool" where
  "holds_set \<equiv> holds as_set []"

lemma s_members_holds:
  assumes "st_inv st" "holds_set (clock env) st k s" "visible (clock env) st k = current (clock env) st k"
  shows "\<exists>st'. s_members env k st = (Inr s, st')"
  unfolding s_members_def using set_c.read_holds [where f = Inr and absent = "Inr []", OF assms] by auto

lemma s_add_spec:
  assumes "ready env st" "holds_set (clock env) st k s" "distinct s"
  shows "\<exists>st' s'. s_add env b k ms st = (Inr (card (set ms - set s)), st') \<and> st_inv st' \<and> holds_set (clock env) st' k s' \<and>
    distinct s' \<and> set s' = set s \<union> set ms \<and> current (clock env) st' k \<noteq> None \<and> (\<forall>k'. k' \<noteq> k \<longrightarrow> newest st' k' = newest st k')"
proof -
  let ?st = "log_unless b kSAdd k (concat (map ser_string ms)) st"
  let ?Q = "\<lambda>r s'. r = card (set ms - set s) \<and> distinct s' \<and> set s' = set s \<union> set ms"
  have 1: "ready env ?st" "holds_set (clock env) ?st k s" using assms(1,2) by (simp_all add: holds_def)
  note new = ready_log_unless(2) [of b kSAdd k "concat (map ser_string ms)" st]
  have 2: "\<exists>r c'. s_add_step ms s = (Inr r, c') \<and> ?Q r c'" using s_add_step_spec [OF assms(3), of ms] by blast
  have 3: "(\<forall>c1 :: uset. True \<longrightarrow> (\<exists>r c'. s_add_step ms [] = (Inr r, c') \<and> ?Q r c')) \<and> (\<exists>r c'. s_add_step ms [] = (Inr r, c') \<and> ?Q r c')" if "s = []"
    using 2 that by simp
  show ?thesis unfolding s_add_def
    using set_c.extend_command [where step = "s_add_step ms" and ?step0.0 = "s_add_step ms" and Q = ?Q and clear = "\<lambda>_. []" and G = "\<lambda>_. True", OF 1 2 TrueI 3]
    unfolding new by blast
qed

text \<open>
  \<open>SADD\<close> turns the set stored under a key into its union with the given members and answers with
  the number of members that were not in it before, wherever the newest version of the set is (the
  active memtable, an immutable one, a table file, or nowhere), and \<open>SMEMBERS\<close> then lists exactly the
  union. No other key changes. A deleted or expired set counts as empty.
\<close>

theorem sadd_is_union:
  assumes "ready env st" "holds as_set [] (clock env) st k s" "distinct s"
  shows "\<exists>st1 xs st2. s_add env False k ms st = (Inr (card (set ms - set s)), st1) \<and> st_inv st1 \<and>
    s_members env k st1 = (Inr xs, st2) \<and> distinct xs \<and> set xs = set s \<union> set ms \<and> (\<forall>k'. k' \<noteq> k \<longrightarrow> newest st1 k' = newest st k')"
proof -
  obtain st1 xs where a: "s_add env False k ms st = (Inr (card (set ms - set s)), st1)" "st_inv st1" "holds_set (clock env) st1 k xs"
    "distinct xs" "set xs = set s \<union> set ms" "current (clock env) st1 k \<noteq> None" "\<forall>k'. k' \<noteq> k \<longrightarrow> newest st1 k' = newest st k'"
    using s_add_spec [OF assms, of False ms] by blast
  obtain v where "current (clock env) st1 k = Some v" using a(6) by blast
  then have "visible (clock env) st1 k = current (clock env) st1 k" using current_visible by simp
  from s_members_holds [OF a(2,3) this] show ?thesis using a by blast
qed


theorem sadd_is_union_witness:
  "\<exists>st1 xs st2. s_add (env_at 7 5) False ''k'' [''a'', ''b'', ''a''] (store_fresh True) = (Inr 2, st1) \<and>
     s_members (env_at 7 5) ''k'' st1 = (Inr xs, st2) \<and> set xs = {''a'', ''b''}"
proof -
  have h: "holds_set (clock (env_at 7 5)) (store_fresh True) ''k'' []" by (simp add: holds_def)
  have c: "card (set [''a'', ''b'', ''a''] - set []) = 2" "set [] \<union> set [''a'', ''b'', ''a''] = {''a'', ''b''}"
    by (simp add: card_insert_if, auto)
  show ?thesis using sadd_is_union [OF store_fresh_ready h, of "[''a'', ''b'', ''a'']"] unfolding c by (metis distinct.simps(1))
qed

text \<open>
  \<open>SREM\<close> removes the given members from the set stored under a key, answers with the number of
  members that were in it, and changes no other key; on a missing, deleted or expired set it answers
  zero and changes nothing.
\<close>

theorem srem_is_difference:
  assumes "ready env st" "holds as_set [] (clock env) st k s" "distinct s"
  shows "\<exists>st' s'. s_rem env False k ms st = (Inr (card (set ms \<inter> set s)), st') \<and> st_inv st' \<and> holds as_set [] (clock env) st' k s' \<and>
    distinct s' \<and> set s' = set s - set ms \<and> (\<forall>k'. k' \<noteq> k \<longrightarrow> newest st' k' = newest st k')"
proof -
  let ?st = "log_unless False kSRem k (concat (map ser_string ms)) st"
  have 1: "ready env ?st" "holds_set (clock env) ?st k s" using assms(1,2) by (simp_all add: holds_def)
  obtain s' where s': "s_rem_step ms s = (Inr (card (set ms \<inter> set s)), s')" "distinct s'" "set s' = set s - set ms"
    using s_rem_step_spec [OF assms(3), of ms] by blast
  have e: "s_rem_step ms [] = (Inr 0, [])" using s_rem_step_spec [of "[]" ms] by auto
  show ?thesis unfolding s_rem_def
    using set_c.shrink_command [where step = "s_rem_step ms" and keep = "\<lambda>_. True" and x = 0, OF 1 s'(1) _ e] s'(2,3) by fastforce
qed

theorem srem_is_difference_witness:
  "\<exists>st'. s_rem (env_at 7 5) False ''k'' [''a''] (store_fresh True) = (Inr 0, st')"
proof -
  have h: "holds_set (clock (env_at 7 5)) (store_fresh True) ''k'' []" by (simp add: holds_def)
  have c: "card (set [''a''] \<inter> set ([] :: uset)) = 0" by simp
  show ?thesis using srem_is_difference [OF store_fresh_ready h, of "[''a'']"] unfolding c by (metis distinct.simps(1))
qed

text \<open>
  \<open>SET\<close> succeeds and makes the string the newest version of the key, with the expiry time
  \<open>now + ttl\<close> truncated to 32 bits, or none for \<open>ttl\<close> zero. As long as that time is not past, \<open>GET\<close>
  returns the string; no other key changes.
\<close>

theorem set_then_get:
  assumes "ready env st" "t = (if ttl = 0 then 0 else ucast (word_of_nat (clock env) + ttl :: u64) :: u32)"
    and "t = 0 \<or> clock env \<le> unat t"
  shows "\<exists>st1 st2. string_set env k s ttl st = (Inr True, st1) \<and> st_inv st1 \<and>
    newest st1 = (newest st)(k \<mapsto> \<lparr>evalue = VString s, deleted = False, expire_time = t\<rparr>) \<and>
    storage_get env k st1 = (Inr (Some (VString s)), st2)"
proof -
  let ?v = "\<lparr>evalue = VString s, deleted = False, expire_time = t\<rparr>"
  obtain w where w: "(if enable_wal st then snd (log_op kSet k (ser_evalue ?v) st) else st) = st\<lparr>st_wal := w\<rparr>"
  proof (cases "enable_wal st")
    case True
    then show thesis using that [of "snd (append_log kSet k (ser_evalue ?v) (st_wal st))"] by (simp add: log_op_def split: prod.split)
  next
    case False
    then show thesis using that [of "st_wal st"] by simp
  qed
  let ?st = "st\<lparr>st_wal := w\<rparr>"
  have "st_inv ?st" "clock_advances env ?st" "roomy ?st" using assms(1) by (simp_all add: ready_def)
  from write_memtable_spec [OF this, of k ?v] obtain st1 where st1: "write_memtable env k ?v ?st = (Inr True, st1)" "st_inv st1"
    "newest st1 = (newest st)(k \<mapsto> ?v)" by auto
  have "live (clock env) ?v" using assms(3) by (auto simp: live_def is_deleted_def is_expired_def)
  then have "visible (clock env) st1 k = Some ?v" by (intro current_visible) (simp add: current_def st1(3))
  moreover have "string_set env k s ttl st = (Inr True, st1)"
    unfolding string_set_def Let_def assms(2) [symmetric] w using st1(1) by simp
  ultimately show ?thesis using st1(2,3) storage_get_spec [OF st1(2), of env k] by auto
qed

theorem set_then_get_witness:
  "\<exists>st1 st2. string_set (env_at 7 5) ''k'' ''v'' 0 (store_fresh True) = (Inr True, st1) \<and>
     storage_get (env_at 7 5) ''k'' st1 = (Inr (Some (VString ''v'')), st2)"
  using set_then_get [OF store_fresh_ready [of 7], of 0 0 "''k''" "''v''"] by auto

text \<open>
  A set command on a key whose value in the active memtable is of another type destroys that
  value for its readers. The command fails with the message of a bare \<open>std::exception\<close>, and \<open>GET\<close>
  then returns an empty string: the callback throws while the cell is marked as being written, and
  the mark is never taken back.
\<close>

theorem wrong_type_destroys_value:
  assumes "ready env st" "memtable_get k (st_memtable st) = Some v" "\<And>s. evalue v \<noteq> VSet s"
  shows "\<exists>st1. s_add env False k ms st = (Inl StdException, st1) \<and> storage_get env k st1 = (Inr (Some (VString '''')), st1)"
proof -
  let ?st = "log_unless False kSAdd k (concat (map ser_string ms)) st"
  have "as_set (evalue v) = Inl (RuntimeError ''value is not a set'')"
    using assms(3) by (cases "evalue v") (auto simp: as_set_def)
  then have f: "revive (clock env) as_set VSet (\<lambda>_. []) (s_add_step ms) v = (Inl (RuntimeError ''value is not a set''), v)"
    by (simp add: revive_def)
  have r: "ready env ?st" "memtable_get k (st_memtable ?st) = Some v" using assms(1,2) by simp_all
  obtain mt where mt: "s_add env False k ms st = (Inl StdException, ?st\<lparr>st_memtable := mt\<rparr>)" "memtable_get k mt = Some evalue_default"
    unfolding s_add_def using set_c.wrong_type_memory [where f = "revive (clock env) as_set VSet (\<lambda>_. []) (s_add_step ms)", OF r f] by force
  have "live (clock env) evalue_default" by (simp add: live_def is_deleted_def is_expired_def evalue_default_def)
  then have "storage_get env k (?st\<lparr>st_memtable := mt\<rparr>) = (Inr (Some (VString '''')), ?st\<lparr>st_memtable := mt\<rparr>)"
    by (simp add: storage_get_def get_from_latest_seen mt(2) evalue_default_def)
  then show ?thesis using mt(1) by blast
qed

theorem wrong_type_destroys_value_witness:
  "\<exists>st st1 st2. storage_get (env_at 7 5) ''k'' st = (Inr (Some (VDeque [''x''])), st) \<and>
     s_add (env_at 7 5) False ''k'' [''a''] st = (Inl StdException, st1) \<and> storage_get (env_at 7 5) ''k'' st1 = (Inr (Some (VString '''')), st2)"
proof -
  let ?v = "mk_evalue (VDeque [''x''])" and ?mt = "memtable_new 0 16"
  let ?st = "(store_fresh True)\<lparr>st_memtable := memtable_store [] ''k'' ?v ?mt\<rparr>"
  have ok: "mt_ok ?mt" by (rule new_ok) simp
  have g: "memtable_get ''k'' (st_memtable ?st) = Some ?v" by (simp add: store_get [OF ok])
  have "ready (env_at 7 5) ?st"
    using st_inv_memtable [OF store_fresh_inv store_ok [OF ok, of "[]" "''k''" ?v], of True] by (simp add: ready_def)
  from wrong_type_destroys_value [OF this g, of "[''a'']"] obtain st1 where
    "s_add (env_at 7 5) False ''k'' [''a''] ?st = (Inl StdException, st1)" "storage_get (env_at 7 5) ''k'' st1 = (Inr (Some (VString '''')), st1)" by auto
  moreover have "storage_get (env_at 7 5) ''k'' ?st = (Inr (Some (VDeque [''x''])), ?st)"
    using g by (simp add: storage_get_def get_from_latest_seen)
  ultimately show ?thesis by blast
qed

end
