(* ===== verification/ZSetProcessor.thy ===== *)
theory ZSetProcessor
  imports Processor
begin

text \<open>
  \<open>ZSetProcessor\<close> (\<open>storage/processors.cpp\<close>): the commands on sorted sets. The coin flips of the skip
  lists come from the environment: stream 0 is that of the memtable, stream \<open>i + 1\<close> that of the
  \<open>i\<close>-th member added. The overloads on \<open>std::string_view\<close> behave alike.
\<close>

section \<open>Operations\<close>

text \<open>A score that cannot be read ends the loop; the members before it stay added.\<close>

fun z_add_loop :: "env \<Rightarrow> nat \<Rightarrow> (string \<times> string) list \<Rightarrow> nat \<Rightarrow> zset \<Rightarrow> nat res \<times> zset" where
  "z_add_loop env i [] added z = (Inr added, z)"
| "z_add_loop env i ((sc, member) # ps) added z =
     (case zadd (draws env (Suc i)) member sc z of
        Inl e \<Rightarrow> (Inl e, z)
      | Inr z' \<Rightarrow> z_add_loop env (Suc i) ps (added + 1) z')"

definition z_add :: "env \<Rightarrow> bool \<Rightarrow> string \<Rightarrow> (string \<times> string) list \<Rightarrow> nat cmd" where
  "z_add env is_recover key score_members st =
     (let step = z_add_loop env 0 score_members 0
      in run_handler key (revive (clock env) as_zset VZSet zclear step)
           (on_old env key as_zset VZSet (\<lambda>_. True) step (create env key VZSet zset_new step))
           (log_unless is_recover kZAdd key (concat (map ser_kv score_members)) st))"

definition z_rem_step :: "string list \<Rightarrow> zset \<Rightarrow> nat res \<times> zset" where
  "z_rem_step members z = (Inr (length members), fold (\<lambda>m z. snd (zrem m z)) members z)"

definition z_rem :: "env \<Rightarrow> bool \<Rightarrow> string \<Rightarrow> string list \<Rightarrow> nat cmd" where
  "z_rem env is_recover key members st =
     run_handler key (modify (clock env) as_zset VZSet (Inr 0) (z_rem_step members))
       (on_old env key as_zset VZSet (\<lambda>_. True) (z_rem_step members) (creturn 0))
       (log_unless is_recover kZRem key (concat (map ser_string members)) st)"

definition z_score :: "env \<Rightarrow> string \<Rightarrow> string \<Rightarrow> string option cmd" where
  "z_score env key member = read_value env key as_zset (Inr None) (\<lambda>z. Inr (zscore member z))"

definition z_rank :: "env \<Rightarrow> string \<Rightarrow> string \<Rightarrow> nat option cmd" where
  "z_rank env key member = read_value env key as_zset (Inr None) (\<lambda>z. Inr (zrank member z))"

definition z_card :: "env \<Rightarrow> string \<Rightarrow> nat cmd" where
  "z_card env key = read_value env key as_zset (Inr 0) (\<lambda>z. Inr (zcard z))"

definition z_incr_step :: "env \<Rightarrow> string \<Rightarrow> string \<Rightarrow> zset \<Rightarrow> string res \<times> zset" where
  "z_incr_step env incr member z =
     (case zincrby (draws env 1) member incr z of
        Inl e \<Rightarrow> (Inl e, z)
      | Inr (None, z') \<Rightarrow> (Inr ''Member not be found'', z')
      | Inr (Some score, z') \<Rightarrow> (Inr score, z'))"

definition z_incr_by :: "env \<Rightarrow> bool \<Rightarrow> string \<Rightarrow> string \<Rightarrow> string \<Rightarrow> string cmd" where
  "z_incr_by env is_recover key incr member st =
     run_handler key (modify (clock env) as_zset VZSet (Inl (RuntimeError ''key not be found'')) (z_incr_step env incr member))
       (on_old env key as_zset VZSet (\<lambda>_. True) (z_incr_step env incr member) (cthrow (RuntimeError ''key not be found'')))
       (log_unless is_recover kZIncrBy key (ser_string incr @ ser_string member) st)"

definition scored :: "(string \<times> string) list \<Rightarrow> (string \<times> eya_value) list" where
  "scored res = map (\<lambda>(member, sc). (member, VString sc)) res"

definition z_range_by_rank :: "env \<Rightarrow> string \<Rightarrow> int \<Rightarrow> int \<Rightarrow> (string \<times> eya_value) list cmd" where
  "z_range_by_rank env key start end =
     read_value env key as_zset (Inr []) (\<lambda>z.
       Inr (case clamp_range (zcard z) start end of
              None \<Rightarrow> []
            | Some (s, e) \<Rightarrow> scored (zrange_by_rank s e z)))"

definition z_range_by_score :: "env \<Rightarrow> string \<Rightarrow> string \<Rightarrow> string \<Rightarrow> (string \<times> eya_value) list cmd" where
  "z_range_by_score env key min_sc max_sc =
     read_value env key as_zset (Inr []) (\<lambda>z. rbind (zrange_by_score min_sc max_sc z) (\<lambda>res. Inr (scored res)))"

text \<open>\<open>None\<close> is an empty range, which the second branch does not write back.\<close>

definition z_rem_rank_step :: "int \<Rightarrow> int \<Rightarrow> zset \<Rightarrow> nat option res \<times> zset" where
  "z_rem_rank_step start end z =
     (case clamp_range (zcard z) start end of
        None \<Rightarrow> (Inr None, z)
      | Some (s, e) \<Rightarrow> (case zrem_range_by_rank s e z of (n, z') \<Rightarrow> (Inr (Some n), z')))"

definition z_rem_by_rank :: "env \<Rightarrow> bool \<Rightarrow> string \<Rightarrow> int \<Rightarrow> int \<Rightarrow> nat cmd" where
  "z_rem_by_rank env is_recover key start end st =
     cbind (run_handler key (modify (clock env) as_zset VZSet (Inr None) (z_rem_rank_step start end))
              (on_old env key as_zset VZSet (\<lambda>r. r \<noteq> None) (z_rem_rank_step start end) (creturn None)))
       (\<lambda>r. creturn (case r of Some n \<Rightarrow> n | None \<Rightarrow> 0))
       (log_unless is_recover kZRemByRank key (ser_string (int_to_string start) @ ser_string (int_to_string end)) st)"

definition z_rem_score_step :: "string \<Rightarrow> string \<Rightarrow> zset \<Rightarrow> nat res \<times> zset" where
  "z_rem_score_step min_sc max_sc z =
     (case zrem_range_by_score min_sc max_sc z of Inl e \<Rightarrow> (Inl e, z) | Inr (n, z') \<Rightarrow> (Inr n, z'))"

text \<open>The second branch takes the alternative without a check: \<open>std::bad_variant_access\<close>.\<close>

definition get_zset :: "eya_value \<Rightarrow> zset res" where
  "get_zset v = (case v of VZSet z \<Rightarrow> Inr z | _ \<Rightarrow> Inl BadVariantAccess)"

definition z_rem_by_score :: "env \<Rightarrow> bool \<Rightarrow> string \<Rightarrow> string \<Rightarrow> string \<Rightarrow> nat cmd" where
  "z_rem_by_score env is_recover key min_sc max_sc st =
     run_handler key (modify (clock env) as_zset VZSet (Inr 0) (z_rem_score_step min_sc max_sc))
       (on_old env key get_zset VZSet (\<lambda>_. True) (z_rem_score_step min_sc max_sc) (creturn 0))
       (log_unless is_recover kZRemByScore key (ser_string min_sc @ ser_string max_sc) st)"

section \<open>Execution and replay\<close>

text \<open>\<open>for (i = 1; i < args.size(); i += 2) emplace_back(args[i], args[i + 1])\<close>, the number of arguments being odd.\<close>

fun pairs_of :: "string list \<Rightarrow> (string \<times> string) list" where
  "pairs_of (a # b # xs) = (a, b) # pairs_of xs"
| "pairs_of _ = []"

definition zset_execute :: "env \<Rightarrow> u8 \<Rightarrow> string list \<Rightarrow> response cmd" where
  "zset_execute env type args =
     (case args of
        [] \<Rightarrow> creturn (error ''missing key'')
      | key # rest \<Rightarrow>
          if type = kZAdd then
            (if length rest < 2 \<or> odd (length rest) then creturn (error ''wrong number of arguments for 'zadd' command'')
             else cbind (z_add env False key (pairs_of rest)) (\<lambda>n. creturn (success_size n)))
          else if type = kZRem then
            (if rest = [] then creturn (error ''missing member'')
             else cbind (z_rem env False key rest) (\<lambda>n. creturn (success_size n)))
          else if type = kZScore then
            (if rest = [] then creturn (error ''missing member'')
             else cbind (z_score env key (rest ! 0)) (\<lambda>r. creturn (case r of Some s \<Rightarrow> success (RString s) | None \<Rightarrow> error ''not found'')))
          else if type = kZRank then
            (if rest = [] then creturn (error ''missing member'')
             else cbind (z_rank env key (rest ! 0)) (\<lambda>r. creturn (case r of Some n \<Rightarrow> success (RString (nat_to_string n)) | None \<Rightarrow> error ''not found'')))
          else if type = kZCard then cbind (z_card env key) (\<lambda>n. creturn (success (RString (nat_to_string n))))
          else if type = kZIncrBy then
            (if length rest < 2 then creturn (error ''missing increment or member'')
             else cbind (z_incr_by env False key (rest ! 0) (rest ! 1)) (\<lambda>s. creturn (success (RString s))))
          else if type = kZRangeByRank then
            (if length rest < 2 then creturn (error ''missing start or end'')
             else cbind (clift (stoll (rest ! 0))) (\<lambda>s. cbind (clift (stoll (rest ! 1))) (\<lambda>e.
               cbind (z_range_by_rank env key s e) (\<lambda>ps. creturn (success (RPairs ps))))))
          else if type = kZRangeByScore then
            (if length rest < 2 then creturn (error ''missing min or max'')
             else cbind (z_range_by_score env key (rest ! 0) (rest ! 1)) (\<lambda>ps. creturn (success (RPairs ps))))
          else if type = kZRemByRank then
            (if length rest < 2 then creturn (error ''missing start or end'')
             else cbind (clift (stoll (rest ! 0))) (\<lambda>s. cbind (clift (stoll (rest ! 1))) (\<lambda>e.
               cbind (z_rem_by_rank env False key s e) (\<lambda>n. creturn (success_size n)))))
          else if type = kZRemByScore then
            (if length rest < 2 then creturn (error ''missing min or max'')
             else cbind (z_rem_by_score env False key (rest ! 0) (rest ! 1)) (\<lambda>n. creturn (success_size n)))
          else creturn (error ''unsupported type''))"

definition zset_recover :: "env \<Rightarrow> u8 \<Rightarrow> string \<Rightarrow> string \<Rightarrow> bool cmd" where
  "zset_recover env type key payload =
     (let two = clift (deserializeKV payload 0)
      in if type = kZAdd then
           cbind (clift (dec_string_pairs payload 0)) (\<lambda>ps. cbind (z_add env True key ps) (\<lambda>_. creturn True))
         else if type = kZRem then
           cbind (clift (dec_strings payload 0)) (\<lambda>members. cbind (z_rem env True key members) (\<lambda>_. creturn True))
         else if type = kZIncrBy then
           cbind two (\<lambda>((incr, member), _). cbind (z_incr_by env True key incr member) (\<lambda>_. creturn True))
         else if type = kZRemByRank then
           cbind two (\<lambda>((s, e), _). cbind (clift (stoll s)) (\<lambda>start. cbind (clift (stoll e)) (\<lambda>end.
             cbind (z_rem_by_rank env True key start end) (\<lambda>_. creturn True))))
         else if type = kZRemByScore then
           cbind two (\<lambda>((min_sc, max_sc), _). cbind (z_rem_by_score env True key min_sc max_sc) (\<lambda>_. creturn True))
         else creturn True)"

section \<open>Sorted sets as maps to scores\<close>

text \<open>Scores up to equality of doubles (the two zeros are one score).\<close>

definition zvals :: "zset \<Rightarrow> string \<rightharpoonup> int" where
  "zvals z m = map_option dkey (zscores z m)"

definition holds_zset :: "nat \<Rightarrow> storage \<Rightarrow> string \<Rightarrow> zset \<Rightarrow> bool" where
  "holds_zset now st k z \<longleftrightarrow> holds as_zset zset_new now st k z \<and> zset_inv z \<and>
     (\<forall>w c. newest st k = Some w \<and> evalue w = VZSet c \<longrightarrow> zset_inv c)"

lemma zadd_vals:
  assumes "zset_inv z" "stod sc = Inr d" "\<not> is_nan d"
  shows "\<exists>z'. zadd coins m sc z = Inr z' \<and> zset_inv z' \<and> zvals z' = (zvals z)(m \<mapsto> dkey d)"
  using zadd_spec [OF assms, of coins m]
  by (auto simp: zvals_def fun_eq_iff double_eq_def split: option.splits if_splits)

definition readable :: "string \<times> string \<Rightarrow> bool" where
  "readable p \<longleftrightarrow> (\<exists>d. stod (fst p) = Inr d \<and> \<not> is_nan d)"

definition score_of :: "string \<Rightarrow> int" where
  "score_of sc = (case stod sc of Inr d \<Rightarrow> dkey d | Inl _ \<Rightarrow> 0)"

lemma z_add_loop_spec:
  "zset_inv z \<Longrightarrow> list_all readable ps \<Longrightarrow> \<exists>z'. z_add_loop env i ps n z = (Inr (n + length ps), z') \<and> zset_inv z' \<and>
     zvals z' = zvals z ++ map_of (rev (map (\<lambda>(sc, m). (m, score_of sc)) ps))"
proof (induction ps arbitrary: i n z)
  case (Cons p ps)
  obtain sc m where p: "p = (sc, m)" by (rule prod.exhaust)
  obtain d where d: "stod sc = Inr d" "\<not> is_nan d" using Cons.prems(2) by (auto simp: readable_def p)
  obtain z1 where z1: "zadd (draws env (Suc i)) m sc z = Inr z1" "zset_inv z1" "zvals z1 = (zvals z)(m \<mapsto> dkey d)"
    using zadd_vals [OF Cons.prems(1) d] by blast
  have "list_all readable ps" using Cons.prems(2) by simp
  from Cons.IH [OF z1(2) this, of "Suc i" "n + 1"] obtain z' where z': "z_add_loop env (Suc i) ps (n + 1) z1 = (Inr (n + 1 + length ps), z')"
    "zset_inv z'" "zvals z' = zvals z1 ++ map_of (rev (map (\<lambda>(sc, m). (m, score_of sc)) ps))" by blast
  have "zvals z' = zvals z ++ map_of (rev (map (\<lambda>(sc, m). (m, score_of sc)) (p # ps)))"
    unfolding z'(3) z1(3) by (simp add: p score_of_def d map_add_def fun_eq_iff split: option.split)
  then show ?case using z1(1) z'(1,2) by (simp add: p)
qed simp

lemma z_rem_fold:
  "zset_inv z \<Longrightarrow> zset_inv (fold (\<lambda>m z. snd (zrem m z)) ms z) \<and> zscores (fold (\<lambda>m z. snd (zrem m z)) ms z) = zscores z |` (- set ms)"
proof (induction ms arbitrary: z)
  case (Cons m ms)
  have "zscores (snd (zrem m z)) |` (- set ms) = zscores z |` (- set (m # ms))"
    by (auto simp: zrem_spec [OF Cons.prems] restrict_map_def fun_eq_iff)
  then show ?case using Cons.IH [OF zrem_spec(1) [OF Cons.prems, of m]] by simp
qed (simp add: restrict_map_def)

lemma holds_zset_after:
  assumes "st_inv st'" "holds as_zset zset_new now st' k z'" "zset_inv z'" "current now st' k \<noteq> None"
  shows "holds_zset now st' k z'"
  using assms by (auto simp: holds_zset_def holds_def current_def as_zset_def split: option.splits sum.splits eya_value.splits if_splits)

section \<open>Properties\<close>

text \<open>
  \<open>ZADD\<close> with readable scores sets the scores of the given members, the last one given for a member
  winning, keeps those of the others, answers with the number of pairs given, and keeps the sorted
  set's list and map consistent, wherever the newest version of the set is stored. No other key
  changes; a missing, deleted or expired set counts as empty.
\<close>

theorem zadd_sets_scores:
  assumes "ready env st" "holds_zset (clock env) st k z" "list_all readable ps"
  shows "\<exists>st' z'. z_add env False k ps st = (Inr (length ps), st') \<and> st_inv st' \<and> holds_zset (clock env) st' k z' \<and>
    zvals z' = zvals z ++ map_of (rev (map (\<lambda>(sc, m). (m, score_of sc)) ps)) \<and> (\<forall>k'. k' \<noteq> k \<longrightarrow> newest st' k' = newest st k')"
proof -
  let ?st = "log_unless False kZAdd k (concat (map ser_kv ps)) st"
  let ?f = "z_add_loop env 0 ps 0" and ?s = "map_of (rev (map (\<lambda>(sc, m). (m, score_of sc)) ps))"
  let ?Q = "\<lambda>n z'. n = length ps \<and> zset_inv z' \<and> zvals z' = zvals z ++ ?s"
  have 1: "ready env ?st" "holds as_zset zset_new (clock env) ?st k z" using assms(1,2) by (simp_all add: holds_def holds_zset_def)
  have z: "zset_inv z" using assms(2) by (simp add: holds_zset_def)
  have 2: "\<exists>r c'. ?f z = (Inr r, c') \<and> ?Q r c'" using z_add_loop_spec [OF z assms(3), of env 0 0] by auto
  have good: "zset_inv cw" if "newest ?st k = Some w" "as_zset (evalue w) = Inr cw" for w cw
    using assms(2) that zset_c.put_as [OF that(2)] by (auto simp: holds_zset_def)
  have e: "zvals zset_new = Map.empty" "zvals (zclear c1) = Map.empty" if "zset_inv c1" for c1
    using zset_inv_new(2) zclear_spec(2) [OF that] by (simp_all add: zvals_def fun_eq_iff)
  have 3: "(\<forall>c1. zset_inv c1 \<longrightarrow> (\<exists>r c'. ?f (zclear c1) = (Inr r, c') \<and> ?Q r c')) \<and> (\<exists>r c'. ?f zset_new = (Inr r, c') \<and> ?Q r c')" if "z = zset_new"
  proof (intro conjI allI impI)
    fix c1 assume c1: "zset_inv c1"
    show "\<exists>r c'. ?f (zclear c1) = (Inr r, c') \<and> ?Q r c'"
      using z_add_loop_spec [OF zclear_spec(1) [OF c1] assms(3), of env 0 0] e [OF c1] that by auto
  qed (use 2 that in simp)
  obtain st' r z' where a: "run_handler k (revive (clock env) as_zset VZSet zclear ?f)
      (on_old env k as_zset VZSet (\<lambda>_. True) ?f (create env k VZSet zset_new ?f)) ?st = (Inr r, st')" "?Q r z'" "st_inv st'"
    "holds as_zset zset_new (clock env) st' k z'" "current (clock env) st' k \<noteq> None" "\<forall>k'. k' \<noteq> k \<longrightarrow> newest st' k' = newest st k'"
  proof -
    have "\<exists>st' r z'. run_handler k (revive (clock env) as_zset VZSet zclear ?f)
        (on_old env k as_zset VZSet (\<lambda>_. True) ?f (create env k VZSet zset_new ?f)) ?st = (Inr r, st') \<and> ?Q r z' \<and> st_inv st' \<and>
      holds as_zset zset_new (clock env) st' k z' \<and> current (clock env) st' k \<noteq> None \<and> (\<forall>k'. k' \<noteq> k \<longrightarrow> newest st' k' = newest ?st k')"
      by (rule zset_c.extend_command [where step = ?f and ?step0.0 = ?f and Q = ?Q and clear = zclear and G = zset_inv, OF 1 2]) (rule good, assumption+, rule 3)
    then show thesis using that unfolding ready_log_unless(2) by blast
  qed
  then show ?thesis using holds_zset_after [OF a(3,4) _ a(5)]
    by (intro exI [of _ st'] exI [of _ z']) (simp add: z_add_def Let_def)
qed

theorem zadd_sets_scores_witness:
  "\<exists>st' z'. z_add (env_at 7 5) False ''k'' [(''2'', ''a''), (''1'', ''b'')] (store_fresh True) = (Inr 2, st') \<and> holds_zset 7 st' ''k'' z' \<and>
     zvals z' ''b'' = Some (score_of ''1'')"
proof -
  have h: "holds_zset (clock (env_at 7 5)) (store_fresh True) ''k'' zset_new" by (simp add: holds_zset_def holds_def zset_inv_new)
  have "list_all readable [(''2'', ''a''), (''1'', ''b'')]"
    by (simp add: readable_def stod_samples) (simp add: is_nan_def inf_mag_def dmag_def)
  from zadd_sets_scores [OF store_fresh_ready h this] obtain st' z' where
    "z_add (env_at 7 5) False ''k'' [(''2'', ''a''), (''1'', ''b'')] (store_fresh True) = (Inr 2, st')" "holds_zset 7 st' ''k'' z'"
    "zvals z' = zvals zset_new ++ map_of (rev (map (\<lambda>(sc, m). (m, score_of sc)) [(''2'', ''a''), (''1'', ''b'')]))" by auto
  then show ?thesis by (intro exI [of _ st'] exI [of _ z']) simp
qed

text \<open>
  \<open>ZREM\<close> removes the given members, and only those, from the sorted set and keeps it consistent; its
  answer is the number of members given, whether or not they were in the set.
\<close>

theorem zrem_removes_members:
  assumes "ready env st" "holds_zset (clock env) st k z" "current (clock env) st k \<noteq> None"
  shows "\<exists>st' z'. z_rem env False k ms st = (Inr (length ms), st') \<and> st_inv st' \<and> holds_zset (clock env) st' k z' \<and>
    zscores z' = zscores z |` (- set ms) \<and> (\<forall>k'. k' \<noteq> k \<longrightarrow> newest st' k' = newest st k')"
proof -
  let ?st = "log_unless False kZRem k (concat (map ser_string ms)) st" and ?z' = "fold (\<lambda>m z. snd (zrem m z)) ms z"
  have rdy: "ready env ?st" using assms(1) by simp
  obtain v where v: "current (clock env) ?st k = Some v" "as_zset (evalue v) = Inr z"
    using holds_current [of as_zset zset_new "clock env" st k z] assms(2,3) by (auto simp: holds_zset_def)
  have l: "live (clock env) v" using v(1) by (auto simp: current_def seen_def split: option.splits if_splits)
  have s: "z_rem_step ms z = (Inr (length ms), ?z')" by (simp add: z_rem_step_def)
  obtain st' where st': "z_rem env False k ms st = (Inr (length ms), st')" "st_inv st'" "newest st' = (newest st)(k \<mapsto> v\<lparr>evalue := VZSet ?z'\<rparr>)"
    using zset_c.modify_live [where step = "z_rem_step ms" and keep = "\<lambda>_. True" and dead = "Inr 0" and absent = "creturn 0", OF rdy v s]
    unfolding z_rem_def ready_log_unless(2) by blast
  have zf: "zset_inv ?z'" "zscores ?z' = zscores z |` (- set ms)" using z_rem_fold [of z ms] assms(2) by (simp_all add: holds_zset_def)
  have "holds_zset (clock env) st' k ?z'"
    by (rule holds_zset_after [OF st'(2) _ zf(1)]) (simp_all add: holds_def st'(3) zset_c.as_put current_def l)
  then show ?thesis using st' zf(2) by auto
qed

lemma store_with_zset:
  "\<exists>st. ready (env_at 7 5) st \<and> holds_zset 7 st ''k'' zset_new \<and> current 7 st ''k'' \<noteq> None"
proof -
  let ?v = "mk_evalue (VZSet zset_new)" and ?mt = "memtable_new 0 16"
  let ?st = "(store_fresh True)\<lparr>st_memtable := memtable_store [] ''k'' ?v ?mt\<rparr>"
  have ok: "mt_ok ?mt" by (rule new_ok) simp
  have "newest ?st ''k'' = Some ?v" by (simp add: newest_def store_get [OF ok])
  then have "holds_zset 7 ?st ''k'' zset_new" "current 7 ?st ''k'' \<noteq> None"
    by (simp_all add: holds_zset_def holds_def zset_c.as_put zset_inv_new current_def)
  moreover have "ready (env_at 7 5) ?st"
    using st_inv_memtable [OF store_fresh_inv store_ok [OF ok, of "[]" "''k''" ?v], of True] by (simp add: ready_def)
  ultimately show ?thesis by blast
qed

theorem zrem_removes_members_witness:
  "\<exists>st st'. z_rem (env_at 7 5) False ''k'' [''a''] st = (Inr 1, st')"
proof -
  obtain st where st: "ready (env_at 7 5) st" "holds_zset (clock (env_at 7 5)) st ''k'' zset_new" "current (clock (env_at 7 5)) st ''k'' \<noteq> None"
    using store_with_zset by auto
  show ?thesis using zrem_removes_members [OF st, of "[''a'']"] by auto
qed

text \<open>
  \<open>ZRANGEBYRANK\<close> returns the members at exactly the ranks between the two bounds, negative bounds
  counting from the end, each with its score as text, in strictly increasing order of score and,
  between equal scores, of member; the ranks run over all members of the set.
\<close>

theorem zrange_by_rank_in_order:
  assumes "st_inv st" "holds_zset (clock env) st k z" "visible (clock env) st k = current (clock env) st k"
  shows "\<exists>st' xs. z_range_by_rank env k a b st = (Inr (map (\<lambda>i. (snd (xs ! i), VString (double_to_string (fst (xs ! i)))))
      (filter (\<lambda>i. from_end (length xs) a \<le> int i \<and> int i \<le> from_end (length xs) b) [0..<length xs])), st') \<and>
    sorted_wrt (\<lambda>(s, m) (s', m'). double_lt s s' \<or> double_eq s s' \<and> m < m') xs \<and> (\<forall>s m. (s, m) \<in> set xs \<longleftrightarrow> zscores z m = Some s)"
proof -
  have z: "zset_inv z" and h: "holds as_zset zset_new (clock env) st k z" using assms(2) by (simp_all add: holds_zset_def)
  let ?xs = "zkeys z" and ?n = "length (zkeys z)"
  let ?f = "\<lambda>z. Inr (case clamp_range (zcard z) a b of None \<Rightarrow> [] | Some (s, e) \<Rightarrow> scored (zrange_by_rank s e z)) :: (string \<times> eya_value) list res"
  have e: "Inr [] = ?f zset_new" by (simp add: zcard_def zset_new_def clamp_range_def from_end_def Let_def)
  have n: "zcard z = ?n" by (rule zcard_keys [OF z])
  have "scored (zrange_by_rank s e z) = map (\<lambda>i. (snd (?xs ! i), VString (double_to_string (fst (?xs ! i))))) [s..<Suc e]"
    if "clamp_range ?n a b = Some (s, e)" for s e
  proof -
    have se: "s \<le> e" "e < ?n" using clamp_bounds [OF that] by simp_all
    then have "drop s (take (Suc e) ?xs) = map ((!) ?xs) [s..<Suc e]"
      by (intro nth_equalityI) (simp_all add: nth_append add.commute del: upt_Suc)
    then show ?thesis unfolding scored_def zrange_by_rank_spec [OF z se(1)] by (simp add: case_prod_beta comp_def del: upt_Suc)
  qed
  then have fz: "?f z = Inr (map (\<lambda>i. (snd (?xs ! i), VString (double_to_string (fst (?xs ! i)))))
      (filter (\<lambda>i. from_end ?n a \<le> int i \<and> int i \<le> from_end ?n b) [0..<?n]))"
    unfolding clamp_positions [symmetric] n by (auto split: option.split simp del: upt_Suc)
  moreover have "sorted_wrt (\<lambda>(s, m) (s', m'). double_lt s s' \<or> double_eq s s' \<and> m < m') ?xs"
    using zkeys_ordered [OF z]
    by (intro sorted_wrt_mono_rel [OF _ zkeys_ordered(1) [OF z]]) (auto simp: zrk_def zvalid_def double_lt_def double_eq_def less_prod_def' split: prod.splits)
  moreover have "\<forall>s m. (s, m) \<in> set ?xs \<longleftrightarrow> zscores z m = Some s" using z by (simp add: zset_inv_def zscores_def)
  moreover obtain st' where "z_range_by_rank env k a b st = (?f z, st')"
    using zset_c.read_holds [where f = ?f, OF assms(1) h assms(3) e] unfolding z_range_by_rank_def by blast
  ultimately show ?thesis by (intro exI [of _ st'] exI [of _ ?xs] conjI) (simp only:, assumption+)
qed

theorem zrange_by_rank_in_order_witness:
  "\<exists>st st' xs. z_range_by_rank (env_at 7 5) ''k'' 0 (- 1) st = (Inr (map (\<lambda>i. (snd (xs ! i), VString (double_to_string (fst (xs ! i)))))
     (filter (\<lambda>i. from_end (length xs) 0 \<le> int i \<and> int i \<le> from_end (length xs) (- 1)) [0..<length xs])), st')"
proof -
  obtain st where st: "ready (env_at 7 5) st" "holds_zset (clock (env_at 7 5)) st ''k'' zset_new" "current (clock (env_at 7 5)) st ''k'' \<noteq> None"
    using store_with_zset by auto
  have "st_inv st" "visible (clock (env_at 7 5)) st ''k'' = current (clock (env_at 7 5)) st ''k''"
    using st(1,3) current_visible by (auto simp: ready_def)
  from zrange_by_rank_in_order [OF this(1) st(2) this(2), of 0 "- 1"] show ?thesis by blast
qed

end
