(* ===== verification/DequeProcessor.thy ===== *)
theory DequeProcessor
  imports Processor
begin

text \<open>
  \<open>DequeProcessor\<close> (\<open>storage/processors.cpp\<close>): the commands on lists. The overloads on strings and on
  string views log a push differently: the former writes the number of values before them, the
  latter only the values. Commands that reach the store through Raft use the latter; \<open>view\<close> selects
  the overload.
\<close>

section \<open>Operations\<close>

definition push_payload :: "bool \<Rightarrow> string list \<Rightarrow> bytes" where
  "push_payload view values = (if view then concat (map ser_string values) else ser_strings values)"

definition l_push_step :: "string list \<Rightarrow> string list \<Rightarrow> nat res \<times> string list" where
  "l_push_step values dq = (let dq' = fold (\<lambda>v q. v # q) values dq in (Inr (length dq'), dq'))"

definition r_push_step :: "string list \<Rightarrow> string list \<Rightarrow> nat res \<times> string list" where
  "r_push_step values dq = (let dq' = fold (\<lambda>v q. q @ [v]) values dq in (Inr (length dq'), dq'))"

definition l_push :: "env \<Rightarrow> bool \<Rightarrow> bool \<Rightarrow> string \<Rightarrow> string list \<Rightarrow> nat cmd" where
  "l_push env view is_recover key values st =
     run_handler key (revive (clock env) as_list VDeque (\<lambda>_. []) (l_push_step values))
       (on_old env key as_list VDeque (\<lambda>_. True) (l_push_step values) (create env key VDeque [] (l_push_step values)))
       (log_unless is_recover kLPush key (push_payload view values) st)"

definition r_push :: "env \<Rightarrow> bool \<Rightarrow> bool \<Rightarrow> string \<Rightarrow> string list \<Rightarrow> nat cmd" where
  "r_push env view is_recover key values st =
     run_handler key (revive (clock env) as_list VDeque (\<lambda>_. []) (r_push_step values))
       (on_old env key as_list VDeque (\<lambda>_. True) (r_push_step values) (create env key VDeque [] (r_push_step values)))
       (log_unless is_recover kRPush key (push_payload view values) st)"

definition l_pop_step :: "string list \<Rightarrow> string option res \<times> string list" where
  "l_pop_step dq = (case dq of [] \<Rightarrow> (Inr None, []) | v # q \<Rightarrow> (Inr (Some v), q))"

definition r_pop_step :: "string list \<Rightarrow> string option res \<times> string list" where
  "r_pop_step dq = (if dq = [] then (Inr None, []) else (Inr (Some (last dq)), butlast dq))"

definition l_pop :: "env \<Rightarrow> bool \<Rightarrow> string \<Rightarrow> string option cmd" where
  "l_pop env is_recover key st =
     run_handler key (modify (clock env) as_list VDeque (Inr None) l_pop_step)
       (on_old env key as_list VDeque (\<lambda>popped. popped \<noteq> None) l_pop_step (creturn None))
       (log_unless is_recover kLPop key '''' st)"

definition r_pop :: "env \<Rightarrow> bool \<Rightarrow> string \<Rightarrow> string option cmd" where
  "r_pop env is_recover key st =
     run_handler key (modify (clock env) as_list VDeque (Inr None) r_pop_step)
       (on_old env key as_list VDeque (\<lambda>popped. popped \<noteq> None) r_pop_step (creturn None))
       (log_unless is_recover kRPop key '''' st)"

definition l_range :: "env \<Rightarrow> string \<Rightarrow> int \<Rightarrow> int \<Rightarrow> string list cmd" where
  "l_range env key start end =
     read_value env key as_list (Inr []) (\<lambda>dq.
       Inr (case clamp_range (length dq) start end of
              None \<Rightarrow> []
            | Some (s, e) \<Rightarrow> map (\<lambda>i. dq ! i) [s..<Suc e]))"

definition l_get :: "env \<Rightarrow> string \<Rightarrow> int \<Rightarrow> string option cmd" where
  "l_get env key pos =
     read_value env key as_list (Inr None) (\<lambda>dq.
       let i = from_end (length dq) pos
       in Inr (if i < 0 \<or> int (length dq) \<le> i then None else Some (dq ! nat i)))"

definition l_size :: "env \<Rightarrow> string \<Rightarrow> nat cmd" where
  "l_size env key = read_value env key as_list (Inr 0) (\<lambda>dq. Inr (length dq))"

text \<open>The loops \<open>for (i = 0; i < n && !dq.empty(); ++i)\<close>.\<close>

fun pop_front_n :: "nat \<Rightarrow> string list \<Rightarrow> string list \<times> string list" where
  "pop_front_n n [] = ([], [])"
| "pop_front_n 0 dq = ([], dq)"
| "pop_front_n (Suc n) (v # q) = (case pop_front_n n q of (popped, rest) \<Rightarrow> (v # popped, rest))"

definition l_pop_n_step :: "u64 \<Rightarrow> string list \<Rightarrow> string list res \<times> string list" where
  "l_pop_n_step n dq = (case pop_front_n (unat n) dq of (popped, rest) \<Rightarrow> (Inr popped, rest))"

definition r_pop_n_step :: "u64 \<Rightarrow> string list \<Rightarrow> string list res \<times> string list" where
  "r_pop_n_step n dq = (case pop_front_n (unat n) (rev dq) of (popped, rest) \<Rightarrow> (Inr popped, rev rest))"

definition l_pop_n :: "env \<Rightarrow> bool \<Rightarrow> string \<Rightarrow> u64 \<Rightarrow> string list cmd" where
  "l_pop_n env is_recover key n st =
     run_handler key (modify (clock env) as_list VDeque (Inr []) (l_pop_n_step n))
       (on_old env key as_list VDeque (\<lambda>_. True) (l_pop_n_step n) (creturn []))
       (log_unless is_recover kLPopN key (ser_string (nat_to_string (unat n))) st)"

definition r_pop_n :: "env \<Rightarrow> bool \<Rightarrow> string \<Rightarrow> u64 \<Rightarrow> string list cmd" where
  "r_pop_n env is_recover key n st =
     run_handler key (modify (clock env) as_list VDeque (Inr []) (r_pop_n_step n))
       (on_old env key as_list VDeque (\<lambda>_. True) (r_pop_n_step n) (creturn []))
       (log_unless is_recover kRPopN key (ser_string (nat_to_string (unat n))) st)"

section \<open>Execution and replay\<close>

definition popped_response :: "string option \<Rightarrow> response" where
  "popped_response r = (case r of Some v \<Rightarrow> success (RString v) | None \<Rightarrow> error ''empty'')"

text \<open>The count of \<open>LPOPN\<close> is read as \<open>long long\<close> from a string, as \<open>unsigned long long\<close> from a view.\<close>

definition pop_count :: "bool \<Rightarrow> string \<Rightarrow> u64 res" where
  "pop_count view s = (if view then stoull s else rbind (stoll s) (\<lambda>i. Inr (word_of_int i)))"

definition deque_execute :: "bool \<Rightarrow> env \<Rightarrow> u8 \<Rightarrow> string list \<Rightarrow> response cmd" where
  "deque_execute view env type args =
     (case args of
        [] \<Rightarrow> creturn (error ''missing key'')
      | key # rest \<Rightarrow>
          if type = kLPush then
            (if rest = [] then creturn (error ''missing value'')
             else cbind (l_push env view False key rest) (\<lambda>n. creturn (success (RString (nat_to_string n)))))
          else if type = kRPush then
            (if rest = [] then creturn (error ''missing value'')
             else cbind (r_push env view False key rest) (\<lambda>n. creturn (success (RString (nat_to_string n)))))
          else if type = kLPop then
            (if rest = [] then cbind (l_pop env False key) (\<lambda>r. creturn (popped_response r))
             else cbind (clift (stoull (rest ! 0))) (\<lambda>n. cbind (l_pop_n env False key n) (\<lambda>xs. creturn (success (RStrings xs)))))
          else if type = kRPop then
            (if rest = [] then cbind (r_pop env False key) (\<lambda>r. creturn (popped_response r))
             else cbind (clift (stoull (rest ! 0))) (\<lambda>n. cbind (r_pop_n env False key n) (\<lambda>xs. creturn (success (RStrings xs)))))
          else if type = kLSize then cbind (l_size env key) (\<lambda>n. creturn (success (RString (nat_to_string n))))
          else if type = kLRange then
            (if length rest < 2 then creturn (error ''missing start/end'')
             else cbind (clift (stoll (rest ! 0))) (\<lambda>s. cbind (clift (stoll (rest ! 1))) (\<lambda>e.
               cbind (l_range env key s e) (\<lambda>xs. creturn (success (RStrings xs))))))
          else if type = kLGet then
            (if rest = [] then creturn (error ''missing index'')
             else cbind (clift (stoll (rest ! 0))) (\<lambda>i. cbind (l_get env key i)
               (\<lambda>r. creturn (case r of Some v \<Rightarrow> success (RString v) | None \<Rightarrow> error ''not found''))))
          else if type = kLPopN then
            (if rest = [] then creturn (error ''missing count'')
             else cbind (clift (pop_count view (rest ! 0))) (\<lambda>n. cbind (l_pop_n env False key n) (\<lambda>xs. creturn (success (RStrings xs)))))
          else if type = kRPopN then
            (if rest = [] then creturn (error ''missing count'')
             else cbind (clift (pop_count view (rest ! 0))) (\<lambda>n. cbind (r_pop_n env False key n) (\<lambda>xs. creturn (success (RStrings xs)))))
          else creturn (error ''unsupported type''))"

definition deque_recover :: "env \<Rightarrow> u8 \<Rightarrow> string \<Rightarrow> string \<Rightarrow> bool cmd" where
  "deque_recover env type key payload =
     (let done = (\<lambda>_. creturn True);
          counted = (\<lambda>run :: u64 \<Rightarrow> string list cmd. cbind (clift (deserializeString payload 0)) (\<lambda>(s, _).
            cbind (clift (stoll s)) (\<lambda>i. cbind (run (word_of_int i)) done)))
      in if type = kLPush then
           cbind (clift (deserializeVector payload 0)) (\<lambda>(values, _). cbind (l_push env False True key values) (\<lambda>_. creturn True))
         else if type = kRPush then
           cbind (clift (deserializeVector payload 0)) (\<lambda>(values, _). cbind (r_push env False True key values) (\<lambda>_. creturn True))
         else if type = kLPop then cbind (l_pop env True key) (\<lambda>_. creturn True)
         else if type = kRPop then cbind (r_pop env True key) (\<lambda>_. creturn True)
         else if type = kLPopN then counted (l_pop_n env True key)
         else if type = kRPopN then counted (r_pop_n env True key)
         else creturn False)"

section \<open>Lists as lists\<close>

lemma push_steps:
  "l_push_step vs q = (Inr (length vs + length q), rev vs @ q)" "r_push_step vs q = (Inr (length q + length vs), q @ vs)"
proof -
  have "fold (\<lambda>v q. v # q) vs q = rev vs @ q" by (induction vs arbitrary: q) simp_all
  then show "l_push_step vs q = (Inr (length vs + length q), rev vs @ q)" by (simp add: l_push_step_def)
  have "fold (\<lambda>v q. q @ [v]) vs q = q @ vs" by (induction vs arbitrary: q) simp_all
  then show "r_push_step vs q = (Inr (length q + length vs), q @ vs)" by (simp add: r_push_step_def)
qed

lemma pop_front_n: "pop_front_n n q = (take n q, drop n q)"
  by (induction n q rule: pop_front_n.induct) simp_all

lemma pop_steps:
  "l_pop_n_step n q = (Inr (take (unat n) q), drop (unat n) q)"
  "r_pop_n_step n q = (Inr (take (unat n) (rev q)), take (length q - unat n) q)"
  by (simp_all add: l_pop_n_step_def r_pop_n_step_def pop_front_n rev_drop rev_take)

abbreviation holds_list :: "nat \<Rightarrow> storage \<Rightarrow> string \<Rightarrow> string list \<Rightarrow> bool" where
  "holds_list \<equiv> holds as_list []"

text \<open>The invariant part all list commands share: the outcome of a push and of a pop.\<close>

lemma push_command:
  assumes "ready env st" "holds_list (clock env) st k q" "step q = (Inr r, q')"
  shows "\<exists>st'. run_handler k (revive (clock env) as_list VDeque (\<lambda>_. []) step)
      (on_old env k as_list VDeque (\<lambda>_. True) step (create env k VDeque [] step)) (log_unless b t k p st) = (Inr r, st') \<and>
    st_inv st' \<and> holds_list (clock env) st' k q' \<and> current (clock env) st' k \<noteq> None \<and> (\<forall>k'. k' \<noteq> k \<longrightarrow> newest st' k' = newest st k')"
proof -
  have 1: "ready env (log_unless b t k p st)" "holds_list (clock env) (log_unless b t k p st) k q"
    using assms(1,2) by (simp_all add: holds_def)
  have 2: "\<exists>r' c'. step q = (Inr r', c') \<and> r' = r \<and> c' = q'" using assms(3) by simp
  have 3: "(\<forall>c1 :: string list. True \<longrightarrow> (\<exists>r' c'. step [] = (Inr r', c') \<and> r' = r \<and> c' = q')) \<and> (\<exists>r' c'. step [] = (Inr r', c') \<and> r' = r \<and> c' = q')"
    if "q = []" using assms(3) that by simp
  show ?thesis
    using list_c.extend_command [where step = step and ?step0.0 = step and clear = "\<lambda>_. []" and Q = "\<lambda>r' c'. r' = r \<and> c' = q'" and G = "\<lambda>_. True", OF 1 2 TrueI 3]
    unfolding ready_log_unless(2) by blast
qed

lemma pop_command:
  assumes "ready env st" "holds_list (clock env) st k q" "step q = (Inr r, q')" "keep r \<or> q' = q" "step [] = (Inr x, [])"
  shows "\<exists>st'. run_handler k (modify (clock env) as_list VDeque (Inr x) step)
      (on_old env k as_list VDeque keep step (creturn x)) (log_unless b t k p st) = (Inr r, st') \<and>
    st_inv st' \<and> holds_list (clock env) st' k q' \<and> (\<forall>k'. k' \<noteq> k \<longrightarrow> newest st' k' = newest st k')"
proof -
  have 1: "ready env (log_unless b t k p st)" "holds_list (clock env) (log_unless b t k p st) k q"
    using assms(1,2) by (simp_all add: holds_def)
  show ?thesis
    using list_c.shrink_command [where step = step and keep = keep and x = x, OF 1 assms(3-5)] unfolding ready_log_unless(2) by blast
qed

section \<open>Properties\<close>

text \<open>
  \<open>LPUSH\<close> and \<open>RPUSH\<close> extend the list stored under a key at the front, in reverse order of the
  arguments, and at the back, in their order, and answer with the new length; they change no other
  key. A missing, deleted or expired list counts as empty.
\<close>

theorem pushes_extend_list:
  assumes "ready env st" "holds as_list [] (clock env) st k q"
  shows "(\<exists>st'. l_push env view False k vs st = (Inr (length vs + length q), st') \<and> st_inv st' \<and> holds as_list [] (clock env) st' k (rev vs @ q) \<and>
      (\<forall>k'. k' \<noteq> k \<longrightarrow> newest st' k' = newest st k')) \<and>
    (\<exists>st'. r_push env view False k vs st = (Inr (length q + length vs), st') \<and> st_inv st' \<and> holds as_list [] (clock env) st' k (q @ vs) \<and>
      (\<forall>k'. k' \<noteq> k \<longrightarrow> newest st' k' = newest st k'))"
  unfolding l_push_def r_push_def
  using push_command [where step = "l_push_step vs", OF assms push_steps(1)] push_command [where step = "r_push_step vs", OF assms push_steps(2)]
  by blast

theorem pushes_extend_list_witness:
  "\<exists>st'. l_push (env_at 7 5) True False ''k'' [''a'', ''b''] (store_fresh True) = (Inr 2, st') \<and> holds as_list [] 7 st' ''k'' [''b'', ''a'']"
  using pushes_extend_list [of "env_at 7 5" "store_fresh True" "''k''" "[]" True "[''a'', ''b'']"] by (force simp: holds_def [of as_list "[]" 7 "store_fresh True"])

text \<open>
  \<open>LPOPN\<close> and \<open>RPOPN\<close> take up to the given number of elements from the front and from the back of
  the list, in the order in which single pops would, answer with them and leave the rest; \<open>LPOP\<close> and
  \<open>RPOP\<close> do so for one element, answering nothing on an empty list. Other keys keep their values.
\<close>

theorem pops_take_ends:
  assumes "ready env st" "holds as_list [] (clock env) st k q"
  shows "(\<exists>st'. l_pop_n env False k n st = (Inr (take (unat n) q), st') \<and> st_inv st' \<and> holds as_list [] (clock env) st' k (drop (unat n) q) \<and>
      (\<forall>k'. k' \<noteq> k \<longrightarrow> newest st' k' = newest st k')) \<and>
    (\<exists>st'. r_pop_n env False k n st = (Inr (take (unat n) (rev q)), st') \<and> st_inv st' \<and> holds as_list [] (clock env) st' k (take (length q - unat n) q) \<and>
      (\<forall>k'. k' \<noteq> k \<longrightarrow> newest st' k' = newest st k')) \<and>
    (\<exists>st'. l_pop env False k st = (Inr (if q = [] then None else Some (hd q)), st') \<and> st_inv st' \<and> holds as_list [] (clock env) st' k (tl q) \<and>
      (\<forall>k'. k' \<noteq> k \<longrightarrow> newest st' k' = newest st k')) \<and>
    (\<exists>st'. r_pop env False k st = (Inr (if q = [] then None else Some (last q)), st') \<and> st_inv st' \<and> holds as_list [] (clock env) st' k (butlast q) \<and>
      (\<forall>k'. k' \<noteq> k \<longrightarrow> newest st' k' = newest st k'))"
proof (intro conjI)
  have e: "l_pop_n_step n [] = (Inr [], [])" "r_pop_n_step n [] = (Inr [], [])" "l_pop_step [] = (Inr None, [])" "r_pop_step [] = (Inr None, [])"
    by (simp_all add: pop_steps l_pop_step_def r_pop_step_def)
  have p: "l_pop_step q = (Inr (if q = [] then None else Some (hd q)), tl q)" "r_pop_step q = (Inr (if q = [] then None else Some (last q)), butlast q)"
    by (cases q; simp add: l_pop_step_def r_pop_step_def)+
  show "\<exists>st'. l_pop_n env False k n st = (Inr (take (unat n) q), st') \<and> st_inv st' \<and> holds as_list [] (clock env) st' k (drop (unat n) q) \<and>
      (\<forall>k'. k' \<noteq> k \<longrightarrow> newest st' k' = newest st k')"
    unfolding l_pop_n_def by (rule pop_command [where step = "l_pop_n_step n", OF assms pop_steps(1) _ e(1)]) simp
  show "\<exists>st'. r_pop_n env False k n st = (Inr (take (unat n) (rev q)), st') \<and> st_inv st' \<and> holds as_list [] (clock env) st' k (take (length q - unat n) q) \<and>
      (\<forall>k'. k' \<noteq> k \<longrightarrow> newest st' k' = newest st k')"
    unfolding r_pop_n_def by (rule pop_command [where step = "r_pop_n_step n", OF assms pop_steps(2) _ e(2)]) simp
  show "\<exists>st'. l_pop env False k st = (Inr (if q = [] then None else Some (hd q)), st') \<and> st_inv st' \<and> holds as_list [] (clock env) st' k (tl q) \<and>
      (\<forall>k'. k' \<noteq> k \<longrightarrow> newest st' k' = newest st k')"
    unfolding l_pop_def by (rule pop_command [where step = "l_pop_step", OF assms p(1) _ e(3)]) simp
  show "\<exists>st'. r_pop env False k st = (Inr (if q = [] then None else Some (last q)), st') \<and> st_inv st' \<and> holds as_list [] (clock env) st' k (butlast q) \<and>
      (\<forall>k'. k' \<noteq> k \<longrightarrow> newest st' k' = newest st k')"
    unfolding r_pop_def by (rule pop_command [where step = "r_pop_step", OF assms p(2) _ e(4)]) simp
qed

theorem pops_take_ends_witness:
  "\<exists>st'. l_pop_n (env_at 7 5) False ''k'' 3 (store_fresh True) = (Inr [], st') \<and> holds as_list [] 7 st' ''k'' []"
proof -
  have h: "holds as_list [] (clock (env_at 7 5)) (store_fresh True) ''k'' []" by (simp add: holds_def)
  from conjunct1 [OF pops_take_ends [OF store_fresh_ready h, of 3]] show ?thesis by auto
qed

text \<open>
  \<open>LRANGE\<close> returns, in order, the elements at exactly the positions between the two bounds, where a
  negative bound counts from the end of the list and bounds beyond the list are allowed on both
  sides; \<open>LGET\<close> returns the element at one such position, or nothing outside the list. Both leave the
  store's versions as they are.
\<close>

theorem list_reads_by_position:
  assumes "st_inv st" "holds as_list [] (clock env) st k q" "visible (clock env) st k = current (clock env) st k"
  shows "(\<exists>st'. l_range env k a b st =
      (Inr [q ! i. i \<leftarrow> [0..<length q], from_end (length q) a \<le> int i \<and> int i \<le> from_end (length q) b], st') \<and> newest st' = newest st) \<and>
    (\<exists>st'. l_get env k i st = (Inr (if 0 \<le> from_end (length q) i \<and> from_end (length q) i < int (length q)
      then Some (q ! nat (from_end (length q) i)) else None), st') \<and> newest st' = newest st)"
proof -
  let ?f = "\<lambda>dq. Inr (case clamp_range (length dq) a b of None \<Rightarrow> [] | Some (s, e) \<Rightarrow> map (\<lambda>i. dq ! i) [s..<Suc e]) :: string list res"
  let ?g = "\<lambda>dq. let p = from_end (length dq) i in Inr (if p < 0 \<or> int (length dq) \<le> p then None else Some (dq ! nat p)) :: string option res"
  have f: "?f q = Inr [q ! i. i \<leftarrow> [0..<length q], from_end (length q) a \<le> int i \<and> int i \<le> from_end (length q) b]"
  proof -
    have c: "concat (map (\<lambda>i. if P i then [q ! i] else []) xs) = map ((!) q) (filter P xs)" for P xs by (induction xs) simp_all
    show ?thesis unfolding c clamp_positions [symmetric] by (simp split: option.split prod.split)
  qed
  have e: "Inr [] = ?f []" "Inr None = ?g []" by (auto simp: clamp_range_def from_end_def Let_def)
  show ?thesis
    using list_c.read_holds [where f = ?f, OF assms e(1)] list_c.read_holds [where f = ?g, OF assms e(2)] recached_sel(4)
    unfolding f l_range_def l_get_def by (auto simp: Let_def not_less not_le)
qed

theorem list_reads_by_position_witness:
  "\<exists>st'. l_get (env_at 7 5) ''k'' (- 1) (store_fresh True) = (Inr None, st')"
proof -
  have h: "holds as_list [] (clock (env_at 7 5)) (store_fresh True) ''k'' []" by (simp add: holds_def)
  have v: "visible (clock (env_at 7 5)) (store_fresh True) ''k'' = current (clock (env_at 7 5)) (store_fresh True) ''k''"
    by (simp add: visible_def current_def)
  from conjunct2 [OF list_reads_by_position [OF store_fresh_inv h v, of 0 0 "- 1"]] show ?thesis by (auto simp: from_end_def)
qed

text \<open>
  Replaying the log after a push through the overload on string views does not redo the push.
  The record lacks the number of values that the replay expects in front: a push of one short value
  makes the replay read past the end of the record, and a push whose first value is empty is
  replayed as a push of nothing.
\<close>

theorem view_push_not_replayed:
  "deque_recover env kLPush k (push_payload True [''a'']) st = (Inl UB, st) \<and>
   deque_recover env kLPush k (push_payload True ['''', ''x'']) st = cbind (l_push env False True k []) (\<lambda>_. creturn True) st"
proof
  have "deserializeVector (push_payload True [''a'']) 0 = Inl UB" by code_simp
  then show "deque_recover env kLPush k (push_payload True [''a'']) st = (Inl UB, st)"
    by (simp add: deque_recover_def cbind_def Let_def)
  have "deserializeVector (push_payload True ['''', ''x'']) 0 = Inr ([], 4)" by code_simp
  then show "deque_recover env kLPush k (push_payload True ['''', ''x'']) st = cbind (l_push env False True k []) (\<lambda>_. creturn True) st"
    by (simp add: deque_recover_def cbind_def [of "clift _"] Let_def)
qed

section \<open>Replay\<close>

lemma deque_replay:
  assumes "list_all string_ok vs" "length vs < 2 ^ 32"
  shows "deque_recover env kLPush k (push_payload False vs) = cbind (l_push env False True k vs) (\<lambda>_. creturn True)"
    "deque_recover env kRPush k (push_payload False vs) = cbind (r_push env False True k vs) (\<lambda>_. creturn True)"
proof -
  have "deserializeVector (push_payload False vs) 0 = Inr (vs, length (ser_strings vs))"
    using assms strs.dec_enc [of vs "[]" "[]"] by (simp add: push_payload_def strings_ok_def)
  then show "deque_recover env kLPush k (push_payload False vs) = cbind (l_push env False True k vs) (\<lambda>_. creturn True)"
    "deque_recover env kRPush k (push_payload False vs) = cbind (r_push env False True k vs) (\<lambda>_. creturn True)"
    by (simp_all add: fun_eq_iff deque_recover_def cbind_def [of "clift _"] Let_def)
qed

lemma deque_replay_pop:
  "deque_recover env kLPop k [] = cbind (l_pop env True k) (\<lambda>_. creturn True)"
  "deque_recover env kRPop k [] = cbind (r_pop env True k) (\<lambda>_. creturn True)"
  by (simp_all add: deque_recover_def Let_def)

lemma deque_replay_pop_n:
  assumes "unat n < 2 ^ 63"
  shows "deque_recover env kLPopN k (ser_string (nat_to_string (unat n))) = cbind (l_pop_n env True k n) (\<lambda>_. creturn True)"
    "deque_recover env kRPopN k (ser_string (nat_to_string (unat n))) = cbind (r_pop_n env True k n) (\<lambda>_. creturn True)"
proof -
  have s: "stoll (nat_to_string (unat n)) = Inr (int (unat n))"
    using stoll_nat [OF assms] .
  have "deserializeString (ser_string (nat_to_string (unat n))) 0 = Inr (nat_to_string (unat n), length (ser_string (nat_to_string (unat n))))"
    using str.dec_enc [of "nat_to_string (unat n)" "[]" "[]"] number_ok [of n] by simp
  then show "deque_recover env kLPopN k (ser_string (nat_to_string (unat n))) = cbind (l_pop_n env True k n) (\<lambda>_. creturn True)"
    "deque_recover env kRPopN k (ser_string (nat_to_string (unat n))) = cbind (r_pop_n env True k n) (\<lambda>_. creturn True)"
    using s by (simp_all add: fun_eq_iff deque_recover_def cbind_def [of "clift _"] Let_def)
qed

end
