(* ===== verification/HashProcessor.thy ===== *)
theory HashProcessor
  imports Processor
begin

text \<open>
  \<open>HashProcessor\<close> (\<open>storage/processors.cpp\<close>): the commands on maps from fields to strings. The
  overloads on \<open>std::string_view\<close> behave alike.
\<close>

section \<open>Operations\<close>

definition h_set_step :: "(string \<times> string) list \<Rightarrow> string umap \<Rightarrow> nat res \<times> string umap" where
  "h_set_step field_values m =
     (case fold (\<lambda>(f, v) (n, m). (if map_of m f = None then n + 1 else n, AList.update f v m)) field_values (0, m) of
        (new_fields, m') \<Rightarrow> (Inr new_fields, m'))"

text \<open>For a key that does not exist every pair counts as a new field.\<close>

definition h_set_new_step :: "(string \<times> string) list \<Rightarrow> string umap \<Rightarrow> nat res \<times> string umap" where
  "h_set_new_step field_values m = (Inr (length field_values), fold (\<lambda>(f, v) m. AList.update f v m) field_values m)"

definition h_set :: "env \<Rightarrow> bool \<Rightarrow> string \<Rightarrow> (string \<times> string) list \<Rightarrow> nat cmd" where
  "h_set env is_recover key field_values st =
     run_handler key (revive (clock env) as_hash VHash (\<lambda>_. []) (h_set_step field_values))
       (on_old env key as_hash VHash (\<lambda>_. True) (h_set_step field_values) (create env key VHash [] (h_set_new_step field_values)))
       (log_unless is_recover kHSet key (concat (map ser_kv field_values)) st)"

definition h_get :: "env \<Rightarrow> string \<Rightarrow> string \<Rightarrow> string option cmd" where
  "h_get env key field = read_value env key as_hash (Inr None) (\<lambda>m. Inr (map_of m field))"

definition h_del_step :: "string list \<Rightarrow> string umap \<Rightarrow> nat res \<times> string umap" where
  "h_del_step fs m =
     (case fold (\<lambda>f (n, m). case umap_erase f m of (found, m') \<Rightarrow> (if found then n + 1 else n, m')) fs (0, m) of
        (deleted_count, m') \<Rightarrow> (Inr deleted_count, m'))"

definition h_del :: "env \<Rightarrow> bool \<Rightarrow> string \<Rightarrow> string list \<Rightarrow> nat cmd" where
  "h_del env is_recover key fs st =
     run_handler key (modify (clock env) as_hash VHash (Inr 0) (h_del_step fs))
       (on_old env key as_hash VHash (\<lambda>_. True) (h_del_step fs) (creturn 0))
       (log_unless is_recover kHDel key (concat (map ser_string fs)) st)"

definition h_keys :: "env \<Rightarrow> string \<Rightarrow> string list cmd" where
  "h_keys env key = read_value env key as_hash (Inr []) (\<lambda>m. Inr (map fst m))"

definition h_values :: "env \<Rightarrow> string \<Rightarrow> string list cmd" where
  "h_values env key = read_value env key as_hash (Inr []) (\<lambda>m. Inr (map snd m))"

definition h_entries :: "env \<Rightarrow> string \<Rightarrow> string umap cmd" where
  "h_entries env key = read_value env key as_hash (Inr []) Inr"

section \<open>Execution and replay\<close>

fun field_pairs :: "string list \<Rightarrow> (string \<times> string) list" where
  "field_pairs (a # b # xs) = (a, b) # field_pairs xs"
| "field_pairs _ = []"

definition hash_execute :: "env \<Rightarrow> u8 \<Rightarrow> string list \<Rightarrow> response cmd" where
  "hash_execute env type args =
     (case args of
        [] \<Rightarrow> creturn (error ''missing key'')
      | key # rest \<Rightarrow>
          if type = kHSet then
            (if length rest < 2 \<or> odd (length rest) then creturn (error ''wrong number of arguments for 'hset' command'')
             else cbind (h_set env False key (field_pairs rest)) (\<lambda>n. creturn (success (RString (nat_to_string n)))))
          else if type = kHGet then
            (if rest = [] then creturn (error ''missing field'')
             else cbind (h_get env key (rest ! 0)) (\<lambda>r. creturn (case r of Some v \<Rightarrow> success (RString v) | None \<Rightarrow> error ''not found'')))
          else if type = kHDel then
            (if rest = [] then creturn (error ''missing field'')
             else cbind (h_del env False key rest) (\<lambda>n. creturn (success (RString (nat_to_string n)))))
          else if type = kHKeys then cbind (h_keys env key) (\<lambda>xs. creturn (success (RStrings xs)))
          else if type = kHValues then cbind (h_values env key) (\<lambda>xs. creturn (success (RStrings xs)))
          else if type = kHEntries then
            cbind (h_entries env key) (\<lambda>m. creturn (success (RPairs (map (\<lambda>(f, v). (f, VString v)) m))))
          else creturn (error ''unsupported type''))"

definition hash_recover :: "env \<Rightarrow> u8 \<Rightarrow> string \<Rightarrow> string \<Rightarrow> bool cmd" where
  "hash_recover env type key payload =
     (if type = kHSet then
        cbind (clift (dec_string_pairs payload 0)) (\<lambda>fvs. cbind (h_set env True key fvs) (\<lambda>_. creturn True))
      else if type = kHDel then
        cbind (clift (dec_strings payload 0)) (\<lambda>fs. cbind (h_del env True key fs) (\<lambda>_. creturn True))
      else creturn False)"

section \<open>Hashes as maps\<close>

abbreviation holds_hash :: "nat \<Rightarrow> storage \<Rightarrow> string \<Rightarrow> string umap \<Rightarrow> bool" where
  "holds_hash \<equiv> holds as_hash []"

lemma h_set_loop:
  "distinct (map fst m) \<Longrightarrow> \<exists>m'. fold (\<lambda>(f, v) (n, m). (if map_of m f = None then n + 1 else n, AList.update f v m)) fvs (n, m)
     = (n + card (fst ` set fvs - dom (map_of m)), m') \<and> distinct (map fst m') \<and> map_of m' = map_of m ++ map_of (rev fvs)"
proof (induction fvs arbitrary: n m)
  case (Cons x fvs)
  obtain f v where x: "x = (f, v)" by (rule prod.exhaust)
  let ?m = "AList.update f v m"
  have d: "distinct (map fst ?m)" using Cons.prems by (rule distinct_update)
  have "card (fst ` set (x # fvs) - dom (map_of m)) = (if map_of m f = None then 1 else 0) + card (fst ` set fvs - dom (map_of ?m))"
  proof (cases "map_of m f")
    case None
    then have "fst ` set (x # fvs) - dom (map_of m) = insert f (fst ` set fvs - dom (map_of ?m))" by (auto simp: x)
    then show ?thesis using None by (simp add: card_insert_if)
  next
    case (Some w)
    then have "fst ` set (x # fvs) - dom (map_of m) = fst ` set fvs - dom (map_of ?m)" by (auto simp: x)
    then show ?thesis using Some by simp
  qed
  moreover obtain m' where m': "fold (\<lambda>(f, v) (n, m). (if map_of m f = None then n + 1 else n, AList.update f v m)) fvs
      (if map_of m f = None then n + 1 else n, ?m) = ((if map_of m f = None then n + 1 else n) + card (fst ` set fvs - dom (map_of ?m)), m')"
    "distinct (map fst m')" "map_of m' = map_of ?m ++ map_of (rev fvs)" using Cons.IH [OF d] by blast
  moreover have "map_of m' = map_of m ++ map_of (rev (x # fvs))"
    unfolding m'(3) by (simp add: x map_add_def fun_eq_iff split: option.split)
  ultimately show ?case by (intro exI [of _ m']) (simp add: x del: map_of_update)
qed simp

lemma h_set_step_spec:
  "distinct (map fst m) \<Longrightarrow> \<exists>m'. h_set_step fvs m = (Inr (card (fst ` set fvs - dom (map_of m))), m') \<and>
     distinct (map fst m') \<and> map_of m' = map_of m ++ map_of (rev fvs)"
  using h_set_loop [of m fvs 0] by (auto simp: h_set_step_def)

lemma h_set_new_step_spec:
  "\<exists>m'. h_set_new_step fvs [] = (Inr (length fvs), m') \<and> distinct (map fst m') \<and> map_of m' = map_of (rev fvs)"
proof -
  have snd_fold: "snd (fold (\<lambda>(f, v) (n, m). (if map_of m f = None then n + 1 else n, AList.update f v m)) fvs (n, m)) =
      fold (\<lambda>(f, v) m. AList.update f v m) fvs m" for n :: nat and m :: "string umap"
    by (induction fvs arbitrary: n m) (auto split: prod.split)
  show ?thesis using h_set_loop [of "[]" fvs 0] snd_fold [of 0 "[]"] by (auto simp: h_set_new_step_def)
qed

lemma h_del_loop:
  "distinct (map fst m) \<Longrightarrow> \<exists>m'. fold (\<lambda>f (n, m). case umap_erase f m of (found, m') \<Rightarrow> (if found then n + 1 else n, m')) fs (n, m)
     = (n + card (set fs \<inter> dom (map_of m)), m') \<and> distinct (map fst m') \<and> map_of m' = map_of m |` (- set fs)"
proof (induction fs arbitrary: n m)
  case (Cons f fs)
  let ?m = "AList.delete f m"
  have d: "distinct (map fst ?m)" using Cons.prems by (rule distinct_delete)
  have "card (set (f # fs) \<inter> dom (map_of m)) = (if map_of m f \<noteq> None then 1 else 0) + card (set fs \<inter> dom (map_of ?m))"
  proof (cases "map_of m f")
    case None
    then have "set (f # fs) \<inter> dom (map_of m) = set fs \<inter> dom (map_of ?m)" by auto
    then show ?thesis using None by simp
  next
    case (Some w)
    then have "set (f # fs) \<inter> dom (map_of m) = insert f (set fs \<inter> dom (map_of ?m))" by auto
    then show ?thesis using Some by (simp add: card_insert_if)
  qed
  moreover obtain m' where m': "fold (\<lambda>f (n, m). case umap_erase f m of (found, m') \<Rightarrow> (if found then n + 1 else n, m')) fs
      (if map_of m f \<noteq> None then n + 1 else n, ?m) = ((if map_of m f \<noteq> None then n + 1 else n) + card (set fs \<inter> dom (map_of ?m)), m')"
    "distinct (map fst m')" "map_of m' = map_of ?m |` (- set fs)" using Cons.IH [OF d] by blast
  moreover have "map_of m' = map_of m |` (- set (f # fs))" unfolding m'(3) by (auto simp: fun_eq_iff restrict_map_def)
  moreover have "umap_erase f m = (map_of m f \<noteq> None, ?m)" by (simp add: umap_erase_def)
  ultimately show ?case by (intro exI [of _ m']) (simp del: map_of_delete)
qed (simp add: restrict_map_def)

lemma h_del_step_spec:
  "distinct (map fst m) \<Longrightarrow> \<exists>m'. h_del_step fs m = (Inr (card (set fs \<inter> dom (map_of m))), m') \<and>
     distinct (map fst m') \<and> map_of m' = map_of m |` (- set fs)"
  using h_del_loop [of m fs 0] by (auto simp: h_del_step_def)

section \<open>Properties\<close>

text \<open>
  \<open>HSET\<close> adds the given fields to the hash stored under a key, a later value of a field replacing
  an earlier one, and \<open>HGET\<close> then returns for every field what was set last. The answer is the number
  of fields that are new, provided no field is given twice. No other key changes; a missing, deleted
  or expired hash counts as empty.
\<close>

theorem hset_then_hget:
  assumes "ready env st" "holds as_hash [] (clock env) st k m" "distinct (map fst m)"
  shows "\<exists>st1 n. h_set env False k fvs st = (Inr n, st1) \<and> st_inv st1 \<and>
    (distinct (map fst fvs) \<longrightarrow> n = card (fst ` set fvs - dom (map_of m))) \<and>
    (\<forall>f. \<exists>st2. h_get env k f st1 = (Inr ((map_of m ++ map_of (rev fvs)) f), st2)) \<and> (\<forall>k'. k' \<noteq> k \<longrightarrow> newest st1 k' = newest st k')"
proof -
  let ?st = "log_unless False kHSet k (concat (map ser_kv fvs)) st"
  let ?Q = "\<lambda>n m'. (distinct (map fst fvs) \<longrightarrow> n = card (fst ` set fvs - dom (map_of m))) \<and> distinct (map fst m') \<and> map_of m' = map_of m ++ map_of (rev fvs)"
  have 1: "ready env ?st" "holds_hash (clock env) ?st k m" using assms(1,2) by (simp_all add: holds_def)
  have 2: "\<exists>r c'. h_set_step fvs m = (Inr r, c') \<and> ?Q r c'" using h_set_step_spec [OF assms(3), of fvs] by blast
  have 3: "(\<forall>c1 :: string umap. True \<longrightarrow> (\<exists>r c'. h_set_step fvs [] = (Inr r, c') \<and> ?Q r c')) \<and> (\<exists>r c'. h_set_new_step fvs [] = (Inr r, c') \<and> ?Q r c')" if "m = []"
  proof -
    have "length fvs = card (fst ` set fvs)" if "distinct (map fst fvs)"
      using distinct_card [OF that] by simp
    then show ?thesis using 2 h_set_new_step_spec [of fvs] that by auto
  qed
  obtain st1 n m' where a: "h_set env False k fvs st = (Inr n, st1)" "?Q n m'" "st_inv st1" "holds_hash (clock env) st1 k m'"
    "current (clock env) st1 k \<noteq> None" "\<forall>k'. k' \<noteq> k \<longrightarrow> newest st1 k' = newest st k'"
    using hash_c.extend_command [where step = "h_set_step fvs" and ?step0.0 = "h_set_new_step fvs" and Q = ?Q and clear = "\<lambda>_. []" and G = "\<lambda>_. True", OF 1 2 TrueI 3]
    unfolding ready_log_unless(2) h_set_def by blast
  obtain v where "current (clock env) st1 k = Some v" using a(5) by blast
  then have v: "visible (clock env) st1 k = current (clock env) st1 k" using current_visible by simp
  have "\<exists>st2. h_get env k f st1 = (Inr (map_of m' f), st2)" for f
    using hash_c.read_holds [where f = "\<lambda>m. Inr (map_of m f)" and absent = "Inr None", OF a(3,4) v] by (auto simp: h_get_def)
  then show ?thesis using a(1-3,6) by (intro exI [of _ st1] exI [of _ n]) simp
qed

theorem hset_then_hget_witness:
  "\<exists>st1 n st2. h_set (env_at 7 5) False ''k'' [(''f'', ''1''), (''g'', ''2'')] (store_fresh True) = (Inr n, st1) \<and>
     h_get (env_at 7 5) ''k'' ''g'' st1 = (Inr (Some ''2''), st2)"
proof -
  have h: "holds_hash (clock (env_at 7 5)) (store_fresh True) ''k'' []" by (simp add: holds_def)
  obtain st1 n where a: "h_set (env_at 7 5) False ''k'' [(''f'', ''1''), (''g'', ''2'')] (store_fresh True) = (Inr n, st1)"
    "\<And>f. \<exists>st2. h_get (env_at 7 5) ''k'' f st1 = (Inr ((map_of [] ++ map_of (rev [(''f'', ''1''), (''g'', ''2'')])) f), st2)"
    using hset_then_hget [OF store_fresh_ready h, of "[(''f'', ''1''), (''g'', ''2'')]"] by fastforce
  show ?thesis using a(1) a(2) [of "''g''"] by auto
qed

text \<open>
  \<open>HDEL\<close> removes the given fields, and only those, from the hash stored under a key and answers with
  the number of them that existed. No other key changes.
\<close>

theorem hdel_removes_fields:
  assumes "ready env st" "holds as_hash [] (clock env) st k m" "distinct (map fst m)"
  shows "\<exists>st' m'. h_del env False k fs st = (Inr (card (set fs \<inter> dom (map_of m))), st') \<and> st_inv st' \<and> holds as_hash [] (clock env) st' k m' \<and>
    distinct (map fst m') \<and> map_of m' = map_of m |` (- set fs) \<and> (\<forall>k'. k' \<noteq> k \<longrightarrow> newest st' k' = newest st k')"
proof -
  let ?st = "log_unless False kHDel k (concat (map ser_string fs)) st"
  have 1: "ready env ?st" "holds_hash (clock env) ?st k m" using assms(1,2) by (simp_all add: holds_def)
  obtain m' where m': "h_del_step fs m = (Inr (card (set fs \<inter> dom (map_of m))), m')" "distinct (map fst m')" "map_of m' = map_of m |` (- set fs)"
    using h_del_step_spec [OF assms(3), of fs] by blast
  have e: "h_del_step fs [] = (Inr 0, [])"
    using h_del_step_spec [of "[]" fs] by (auto simp: restrict_map_def map_of_eq_empty_iff)
  show ?thesis unfolding h_del_def
    using hash_c.shrink_command [where step = "h_del_step fs" and keep = "\<lambda>_. True" and x = 0, OF 1 m'(1) _ e] m'(2,3)
    unfolding ready_log_unless(2) by blast
qed

theorem hdel_removes_fields_witness:
  "\<exists>st'. h_del (env_at 7 5) False ''k'' [''f''] (store_fresh True) = (Inr 0, st')"
proof -
  have h: "holds_hash (clock (env_at 7 5)) (store_fresh True) ''k'' []" by (simp add: holds_def)
  have c: "card (set [''f''] \<inter> dom (map_of ([] :: string umap))) = 0" by simp
  show ?thesis using hdel_removes_fields [OF store_fresh_ready h, of "[''f'']"] unfolding c by (metis list.map(1) distinct.simps(1))
qed

end
