(* ===== verification/Engine.thy ===== *)
theory Engine
  imports SetProcessor ZSetProcessor DequeProcessor HashProcessor
begin

text \<open>
  \<open>Storage\<close>'s command interface and its start-up (\<open>storage/storage.cpp\<close>): \<open>execute\<close>, which checks the
  arguments, dispatches on the operation code and turns exceptions into error responses; \<open>recover\<close>,
  which replays the log files into memtables; and the constructor.
\<close>

section \<open>Dispatch\<close>

definition string_types :: "u8 list" where "string_types = [kSet]"
definition set_types :: "u8 list" where "set_types = [kSAdd, kSRem, kSMembers]"
definition zset_types :: "u8 list" where
  "zset_types = [kZAdd, kZRem, kZScore, kZRank, kZCard, kZIncrBy, kZRangeByRank, kZRangeByScore, kZRemByRank, kZRemByScore]"
definition deque_types :: "u8 list" where "deque_types = [kLPush, kLPop, kRPush, kRPop, kLRange, kLGet, kLSize, kLPopN, kRPopN]"
definition hash_types :: "u8 list" where "hash_types = [kHSet, kHGet, kHDel, kHKeys, kHValues, kHEntries]"

text \<open>\<open>processors_\<close>, filled by \<open>init_command_handlers\<close>; a later registration would win.\<close>

definition processor_execute :: "bool \<Rightarrow> env \<Rightarrow> u8 \<Rightarrow> string list \<Rightarrow> response cmd option" where
  "processor_execute view env type args =
     (if type \<in> set hash_types then Some (hash_execute env type args)
      else if type \<in> set deque_types then Some (deque_execute view env type args)
      else if type \<in> set zset_types then Some (zset_execute env type args)
      else if type \<in> set set_types then Some (set_execute env type args)
      else if type \<in> set string_types then Some (string_execute env type args)
      else None)"

definition processor_recover :: "env \<Rightarrow> u8 \<Rightarrow> string \<Rightarrow> string \<Rightarrow> bool cmd option" where
  "processor_recover env type key payload =
     (if type \<in> set hash_types then Some (hash_recover env type key payload)
      else if type \<in> set deque_types then Some (deque_recover env type key payload)
      else if type \<in> set zset_types then Some (zset_recover env type key payload)
      else if type \<in> set set_types then Some (set_recover env type key payload)
      else if type \<in> set string_types then Some (string_recover env type key payload)
      else None)"

section \<open>Commands\<close>

definition catch_all :: "response cmd \<Rightarrow> response cmd" where
  "catch_all c st = (case c st of
       (Inl UB, st') \<Rightarrow> (Inl UB, st')
     | (Inl e, st') \<Rightarrow> (Inr (error (what e)), st')
     | other \<Rightarrow> other)"

text \<open>\<open>std::overflow_error\<close> is a \<open>std::runtime_error\<close>; the errors of number parsing are not.\<close>

fun is_runtime_error :: "exn \<Rightarrow> bool" where
  "is_runtime_error (RuntimeError _) = True"
| "is_runtime_error (OverflowError _) = True"
| "is_runtime_error _ = False"

definition catch_outer :: "response cmd \<Rightarrow> response cmd" where
  "catch_outer c st = (case c st of
       (Inl UB, st') \<Rightarrow> (Inl UB, st')
     | (Inl e, st') \<Rightarrow> (Inr (error (if is_runtime_error e then what e else ''unknown error'')), st')
     | other \<Rightarrow> other)"

definition invalidate_snapshot :: "storage \<Rightarrow> storage" where
  "invalidate_snapshot st =
     (let st1 = st\<lparr>snapshot_cache_valid := False\<rparr>
      in (snd (remove_snapshot (snapshot_cache_path st1) st1))\<lparr>snapshot_cache_path := ''''\<rparr>)"

definition run_command :: "(string \<Rightarrow> (string \<Rightarrow> bool) res) \<Rightarrow> bool \<Rightarrow> env \<Rightarrow> u8 \<Rightarrow> string list \<Rightarrow> response cmd" where
  "run_command regex view env type args =
     (if type = kKeys then
        (if 1 < length args then creturn (error ''too many arguments'')
         else cbind (storage_keys regex env (if args = [] then ''^.*$'' else args ! 0)) (\<lambda>ks. creturn (success (RStrings ks))))
      else if type = kRemove then
        (if args = [] then creturn (error ''missing key'')
         else cbind (storage_remove env args) (\<lambda>n. creturn (success (RString (nat_to_string n)))))
      else if type = kExists then
        (if args = [] then creturn (error ''missing key'')
         else if 1 < length args then creturn (error ''too many arguments'')
         else cbind (storage_contains env (args ! 0)) (\<lambda>b. creturn (success (RString (if b then ''1'' else ''0'')))))
      else if type = kRange then
        (if length args < 2 then creturn (error ''missing key'')
         else if 2 < length args then creturn (error ''too many arguments'')
         else cbind (storage_range env (args ! 0) (args ! 1)) (\<lambda>ps. creturn (success (RPairs ps))))
      else if type = kExpire then
        (if length args \<le> 1 then creturn (error ''missing key'')
         else if 2 < length args then creturn (error ''too many arguments'')
         else cbind (clift (stoull (args ! 1))) (\<lambda>t. cbind (set_expire env (args ! 0) t) (\<lambda>_. creturn (success (RString ''1'')))))
      else if type = kGet then
        (if args = [] then creturn (error ''missing key'')
         else if 1 < length args then creturn (error ''too many arguments'')
         else cbind (storage_get env (args ! 0)) (\<lambda>r. creturn (success (case r of Some v \<Rightarrow> RValue v | None \<Rightarrow> RNone))))
      else case processor_execute view env type args of
             Some c \<Rightarrow> catch_all c
           | None \<Rightarrow> creturn (error ''unknown command''))"

definition storage_execute :: "(string \<Rightarrow> (string \<Rightarrow> bool) res) \<Rightarrow> bool \<Rightarrow> env \<Rightarrow> u8 \<Rightarrow> string list \<Rightarrow> response cmd" where
  "storage_execute regex view env type args st =
     (if isWriteOperation type \<and> read_only st then (Inr (error ''read only''), st)
      else if closed st then (Inr (error ''error:storage closed''), st)
      else catch_outer (cbind (run_command regex view env type args) (\<lambda>response st1.
             (Inr response, if isWriteOperation type \<and> is_success response then invalidate_snapshot st1 else st1))) st)"

section \<open>Start-up\<close>

definition apply_record :: "env \<Rightarrow> wal_record \<Rightarrow> unit cmd" where
  "apply_record env r = (case r of (type, key, payload) \<Rightarrow>
     if type = kRemove then cbind (storage_remove env [key]) (\<lambda>_. creturn ())
     else if type = kExpire then cbind (clift (stoull payload)) (\<lambda>t. set_key_expire env key t)
     else case processor_recover env type key payload of
            Some c \<Rightarrow> cbind c (\<lambda>_. creturn ())
          | None \<Rightarrow> creturn ())"

text \<open>One record of the log: a new file starts a new memtable; an exception is logged and dropped.\<close>

definition recover_record :: "env \<Rightarrow> string \<Rightarrow> wal_record \<Rightarrow> storage \<Rightarrow> storage res" where
  "recover_record env filename r st =
     (let st1 = (if filename \<noteq> current_wal_filename st then
                   (if current_wal_filename st \<noteq> [] then
                      st\<lparr>immutable_memtables := alist_upd (current_wal_filename st) (st_memtable st) (immutable_memtables st),
                         st_memtable := cancel_size_limit (create_new_memtable st), current_wal_filename := filename\<rparr>
                    else st\<lparr>current_wal_filename := filename\<rparr>)
                 else st)
      in case apply_record env r st1 of
           (Inl UB, _) \<Rightarrow> Inl UB
         | (_, st2) \<Rightarrow> Inr st2)"

fun recover_records :: "(nat \<Rightarrow> env) \<Rightarrow> nat \<Rightarrow> (string \<times> wal_record) list \<Rightarrow> storage \<Rightarrow> storage res" where
  "recover_records envs i [] st = Inr st"
| "recover_records envs i ((filename, r) # rs) st =
     rbind (recover_record (envs i) filename r st) (recover_records envs (Suc i) rs)"

text \<open>
  The limit set at the end is the configured number of kilobytes taken as bytes. \<open>open_wal_file\<close>
  takes \<open>current_wal_filename_\<close> by reference and fills in a new name when it is empty.
\<close>

definition storage_recover :: "(nat \<Rightarrow> env) \<Rightarrow> storage \<Rightarrow> storage res" where
  "storage_recover envs st =
     (let (rs, w) = wal_recover (st_wal st);
          st0 = st\<lparr>st_memtable := cancel_size_limit (create_new_memtable st), current_wal_filename := '''', st_wal := w\<rparr>;
          now = stamp (envs (length rs))
      in rbind (recover_records envs 0 rs st0) (\<lambda>st1.
           let mt = set_size_limit (cfg_memtable_size st1) (st_memtable st1)
           in Inr (if should_flush mt \<or> \<not> enable_wal st1 then
                     (let st2 = st1\<lparr>immutable_memtables := alist_upd (current_wal_filename st1) mt (immutable_memtables st1),
                                    st_memtable := create_new_memtable st1\<rparr>
                      in if enable_wal st1 then
                           (case open_new_wal_file now (st_wal st2) of (name, w) \<Rightarrow> st2\<lparr>current_wal_filename := name, st_wal := w\<rparr>)
                         else st2\<lparr>current_wal_filename := nat_to_string now\<rparr>)
                   else (case open_wal_file now (current_wal_filename st1) (st_wal st1) of
                           (name, w) \<Rightarrow> st1\<lparr>st_memtable := mt, current_wal_filename := name, st_wal := w\<rparr>))))"

record config =
  c_read_only :: bool
  c_enable_wal :: bool
  c_sync_on_write :: bool
  c_memtable_size :: u64
  c_skiplist_max_level :: nat
  c_merge_strategy :: merge_strategy
  c_merge_threshold :: nat
  c_level_full :: "nat \<Rightarrow> u64 \<Rightarrow> bool"

definition storage_new :: "nat \<Rightarrow> (nat \<Rightarrow> env) \<Rightarrow> nat \<Rightarrow> config \<Rightarrow> bytes umap \<Rightarrow> wal_file umap \<Rightarrow> storage res option" where
  "storage_new fuel envs now cfg sst_files wal_files =
     (case mgr_new fuel (clock (envs 0)) (c_merge_strategy cfg) (c_merge_threshold cfg) (c_level_full cfg) sst_files of
        None \<Rightarrow> None
      | Some (Inl e) \<Rightarrow> Some (Inl e)
      | Some (Inr m) \<Rightarrow>
          let st = \<lparr>enable_wal = c_enable_wal cfg, read_only = c_read_only cfg, closed = False, cfg_memtable_size = c_memtable_size cfg,
                skiplist_max_level = c_skiplist_max_level cfg,
                st_memtable = memtable_new (c_memtable_size cfg) (c_skiplist_max_level cfg), immutable_memtables = [],
                current_wal_filename = '''', st_wal = wal_new wal_files (c_sync_on_write cfg), sstable_manager = m,
                snapshot_cache_valid = False, snapshot_cache_path = '''', snapshot_files = []\<rparr>
          in Some (rbind (storage_recover envs st) (\<lambda>st1.
               Inr (if current_wal_filename st1 = [] then
                      (if enable_wal st1 then
                         (case open_new_wal_file now (st_wal st1) of (name, w) \<Rightarrow> st1\<lparr>current_wal_filename := name, st_wal := w\<rparr>)
                       else st1\<lparr>current_wal_filename := nat_to_string now\<rparr>)
                    else st1))))"

lemmas dispatch_simps = string_types_def set_types_def zset_types_def deque_types_def hash_types_def

section \<open>Commands that only read\<close>

lemma recached_trans:
  assumes "recached a b" "recached b c"
  shows "recached a c"
proof -
  obtain x y where "b = a\<lparr>sstable_manager := (sstable_manager a)\<lparr>mgr_cache := x\<rparr>\<rparr>" "c = b\<lparr>sstable_manager := (sstable_manager b)\<lparr>mgr_cache := y\<rparr>\<rparr>"
    using assms by (auto simp: recached_def)
  then have "c = a\<lparr>sstable_manager := (sstable_manager a)\<lparr>mgr_cache := y\<rparr>\<rparr>" by simp
  then show ?thesis using assms by (auto simp: recached_def)
qed

text \<open>A command that changes at most the block cache, whatever it returns or throws.\<close>

definition reads :: "'r cmd \<Rightarrow> bool" where
  "reads c \<longleftrightarrow> (\<forall>st. st_inv st \<longrightarrow> recached st (snd (c st)))"

named_theorems reads_intros

lemma reads_basic [reads_intros]: "reads (creturn x)" "reads (clift r)" "reads (cthrow e)"
  by (simp_all add: reads_def)

lemma reads_cbind [reads_intros]:
  assumes "reads c" "\<And>x. reads (f x)"
  shows "reads (cbind c f)"
proof -
  have "recached st (snd (cbind c f st))" if "st_inv st" for st
  proof -
    obtain r st1 where c: "c st = (r, st1)" by (rule prod.exhaust)
    have r1: "recached st st1" using assms(1) that by (simp add: reads_def c) (metis c snd_conv)
    then have "recached st1 (snd (f x st1))" for x using assms(2) [of x] that by (simp add: reads_def recached_def)
    with r1 show ?thesis by (cases r) (auto simp: c intro: recached_trans)
  qed
  then show ?thesis by (simp add: reads_def)
qed

lemma reads_if [reads_intros]: "reads c \<Longrightarrow> reads d \<Longrightarrow> reads (if b then c else d)"
  by simp

lemma reads_get [reads_intros]: "reads (storage_get env k)"
  unfolding reads_def using storage_get_spec [of _ env k] by (metis snd_conv)

lemma reads_value [reads_intros]: "reads (read_value env k as_c absent f)"
  unfolding read_value_def by (intro reads_intros)

lemma reads_contains [reads_intros]: "reads (storage_contains env k)"
  unfolding storage_contains_def by (intro reads_intros)

lemma reads_keys [reads_intros]: "reads (storage_keys regex env pattern)"
proof -
  have "recached st (snd (storage_keys regex env pattern st))" if "st_inv st" for st
  proof (cases "regex pattern")
    case (Inr matches)
    from storage_keys_spec [where regex = regex and pattern = pattern and matches = matches, OF that Inr, of env] show ?thesis by auto
  qed (simp add: storage_keys_def)
  then show ?thesis by (simp add: reads_def)
qed

lemma reads_catch [reads_intros]: "reads c \<Longrightarrow> reads (catch_all c)" "reads c \<Longrightarrow> reads (catch_outer c)"
  unfolding reads_def catch_all_def catch_outer_def by (auto split: prod.split sum.split exn.split)

lemma set_reads [reads_intros]: "reads (set_execute env kSMembers args)"
  unfolding set_execute_def s_members_def by (cases args) (auto intro!: reads_intros)

lemma zset_reads [reads_intros]:
  "t \<in> {kZScore, kZRank, kZCard, kZRangeByRank, kZRangeByScore} \<Longrightarrow> reads (zset_execute env t args)"
  unfolding zset_execute_def z_score_def z_rank_def z_card_def z_range_by_rank_def z_range_by_score_def
  by (cases args) (auto intro!: reads_intros)

lemma deque_reads [reads_intros]: "t \<in> {kLRange, kLGet, kLSize} \<Longrightarrow> reads (deque_execute view env t args)"
  unfolding deque_execute_def l_range_def l_get_def l_size_def by (cases args) (auto intro!: reads_intros)

lemma hash_reads [reads_intros]: "t \<in> {kHGet, kHKeys, kHValues, kHEntries} \<Longrightarrow> reads (hash_execute env t args)"
  unfolding hash_execute_def h_get_def h_keys_def h_values_def h_entries_def by (cases args) (auto intro!: reads_intros)

lemma run_command_reads:
  assumes "isReadOperation type"
  shows "reads (run_command regex view env type args)"
proof -
  have "\<forall>t \<in> set read_types. reads (run_command regex view env t args)"
    unfolding read_types_def by (simp add: run_command_def processor_execute_def dispatch_simps) (intro conjI impI reads_intros; simp)
  then show ?thesis using assms by (simp add: isReadOperation_def)
qed

section \<open>Properties\<close>

text \<open>
  Read commands write nothing. Whatever its arguments, a command of the read class (lookups,
  listings, ranges and sizes of every value type) leaves the store as it was but for the block
  cache, also when it answers with an error: memtables, tables, log and snapshots stay.
\<close>

theorem read_commands_write_nothing:
  assumes "isReadOperation type" "st_inv st"
  shows "\<exists>c. snd (storage_execute regex view env type args st) = st\<lparr>sstable_manager := (sstable_manager st)\<lparr>mgr_cache := c\<rparr>\<rparr> \<and>
    st_inv (st\<lparr>sstable_manager := (sstable_manager st)\<lparr>mgr_cache := c\<rparr>\<rparr>)"
proof -
  have no: "\<not> isWriteOperation type"
  proof -
    have "\<forall>t \<in> set read_types. t \<notin> set write_types" by code_simp
    then show ?thesis using assms(1) by (simp add: isReadOperation_def isWriteOperation_def)
  qed
  have "reads (catch_outer (cbind (run_command regex view env type args) creturn))"
    by (intro reads_intros run_command_reads assms(1))
  moreover have "snd (storage_execute regex view env type args st) =
      (if closed st then st else snd (catch_outer (cbind (run_command regex view env type args) creturn) st))"
    using no by (simp add: storage_execute_def creturn_def [abs_def])
  ultimately have "recached st (snd (storage_execute regex view env type args st))"
    using assms(2) by (simp add: reads_def)
  then show ?thesis using assms(2) by (auto simp: recached_def)
qed

theorem read_commands_write_nothing_witness:
  "\<exists>c. snd (storage_execute (\<lambda>_. Inr (\<lambda>_. True)) True (env_at 7 5) kZRangeByRank [''k'', ''0'', ''x''] (store_fresh True)) =
     (store_fresh True)\<lparr>sstable_manager := (sstable_manager (store_fresh True))\<lparr>mgr_cache := c\<rparr>\<rparr>"
  using read_commands_write_nothing [of kZRangeByRank "store_fresh True" "\<lambda>_. Inr (\<lambda>_. True)" True "env_at 7 5" "[''k'', ''0'', ''x'']"]
  by (auto simp: isReadOperation_def read_types_def)


end
