(* ===== verification/Recovery.thy ===== *)
theory Recovery
  imports Engine
begin

text \<open>
  The write-ahead log and the commands together. A logged command does what appending its record
  and replaying that record does; replaying a record does not depend on the state of the log or on
  the limit of the memtable; so a store that is rebuilt from the log of a run of commands has the
  versions the run left.
\<close>

section \<open>Replaying the log\<close>

lemma snd_cbind: "snd (cbind c (\<lambda>x. creturn (g x)) st) = snd (c st)"
  by (simp add: cbind_def split: prod.split sum.split)

lemma fst_cbind_UB: "fst (cbind c (\<lambda>x. creturn (g x)) st) = Inl UB \<longleftrightarrow> fst (c st) = Inl UB"
  by (simp add: cbind_def split: prod.split sum.split)

lemma snd_catch: "snd (catch_all c st) = snd (c st)"
  by (auto simp: catch_all_def split: prod.split sum.split exn.split)

text \<open>
  \<open>redone env c st\<close>: the command leaves the store as it is, or does what appending one record to the
  log and replaying that record does. The record is one that \<open>Wal::recover\<close> does not refuse, and not a
  removal; the replay meets undefined behaviour only where the command does.
\<close>

definition redone :: "env \<Rightarrow> 'r cmd \<Rightarrow> storage \<Rightarrow> bool" where
  "redone env c st \<longleftrightarrow> snd (c st) = st \<or>
     (\<exists>t k p. record_ok (t, k, p) \<and> t \<noteq> kRemove \<and> snd (c st) = snd (apply_record env (t, k, p) (snd (log_op t k p st))) \<and>
       (fst (apply_record env (t, k, p) (snd (log_op t k p st))) = Inl UB \<longrightarrow> fst (c st) = Inl UB))"

lemma redone_record:
  assumes "snd (c st) = snd (d (snd (log_op t k p st)))" "fst (d (snd (log_op t k p st))) = Inl UB \<longrightarrow> fst (c st) = Inl UB" "apply_record env (t, k, p) = cbind d (\<lambda>_. creturn ())"
    "record_ok (t, k, p)" "t \<noteq> kRemove"
  shows "redone env c st"
proof -
  have "snd (c st) = snd (apply_record env (t, k, p) (snd (log_op t k p st)))" by (simp add: assms snd_cbind)
  moreover have "fst (apply_record env (t, k, p) (snd (log_op t k p st))) = Inl UB \<longrightarrow> fst (c st) = Inl UB"
    unfolding assms(3) using assms(2) by (simp add: fst_cbind_UB)
  ultimately show ?thesis unfolding redone_def using assms(4,5) by blast
qed

lemma redone_basic [simp]: "redone env (creturn x) st" "redone env (clift r) st" "redone env (cthrow e) st"
  by (simp_all add: redone_def)

lemma fst_catch: "fst (catch_all c st) = Inl UB \<longleftrightarrow> fst (c st) = Inl UB"
  by (auto simp: catch_all_def split: prod.split sum.split exn.split)

lemma redone_catch: "redone env c st \<Longrightarrow> redone env (catch_all c) st"
  by (simp add: redone_def snd_catch fst_catch)

lemma redone_cbind: "redone env c st \<Longrightarrow> redone env (cbind c (\<lambda>x. creturn (g x))) st"
  by (simp add: redone_def snd_cbind fst_cbind_UB)

lemma redone_clift: "(\<And>x. r = Inr x \<Longrightarrow> redone env (f x) st) \<Longrightarrow> redone env (cbind (clift r) f) st"
  by (cases r) (simp_all add: redone_def)

lemma log_unless_simps [simp]:
  "enable_wal st \<Longrightarrow> log_unless False t k p st = snd (log_op t k p st)" "log_unless True t k p st = st"
  by (simp_all add: log_unless_def)

lemma cbind_assoc: "cbind (cbind c f) g = cbind c (\<lambda>x. cbind (f x) g)"
  by (simp add: cbind_def fun_eq_iff split: prod.split sum.split)

lemma cbind_creturn [simp]: "cbind (creturn x) f = f x" "cbind (clift (Inr x)) f = f x"
  by (simp_all add: cbind_def fun_eq_iff)


lemma apply_processor:
  "t \<noteq> kRemove \<Longrightarrow> t \<noteq> kExpire \<Longrightarrow> processor_recover env t k p = Some c \<Longrightarrow>
     apply_record env (t, k, p) = cbind c (\<lambda>_. creturn ())"
  by (simp add: apply_record_def)

text \<open>The shape of all logged commands: the record, then the work, which is all the replay does.\<close>

lemma redone_logged:
  assumes c: "\<And>b st. c b st = f (log_unless b t k p st)" and w: "enable_wal st" and t: "t \<noteq> kRemove" "t \<noteq> kExpire"
    and s: "record_ok (t, k, p)" and r: "processor_recover env t k p = Some (cbind (c True) (\<lambda>_. creturn True))"
  shows "redone env (c False) st"
proof (rule redone_record [OF _ _ _ s t(1)])
  show "snd (c False st) = snd (c True (snd (log_op t k p st)))" using w by (simp add: c)
  show "fst (c True (snd (log_op t k p st))) = Inl UB \<longrightarrow> fst (c False st) = Inl UB" using w by (simp add: c)
  show "apply_record env (t, k, p) = cbind (c True) (\<lambda>_. creturn ())"
    unfolding apply_processor [OF t r] cbind_assoc cbind_creturn ..
qed

lemma dec_members: "list_all string_ok ms \<Longrightarrow> dec_strings (concat (map ser_string ms)) 0 = Inr ms"
  using dec_strings_enc [of ms "[]"] by simp

lemma dec_pairs: "list_all kv_ok ps \<Longrightarrow> dec_string_pairs (concat (map ser_kv ps)) 0 = Inr ps"
  using dec_string_pairs_enc [of ps "[]"] by simp

lemma dec_two: "string_ok a \<Longrightarrow> string_ok b \<Longrightarrow> deserializeKV (ser_string a @ ser_string b) 0 = Inr ((a, b), length (ser_kv (a, b)))"
  using kv.dec_enc [of "(a, b)" "[]" "[]"] by (simp add: kv_ok_def ser_kv_def)

lemmas replay_simps = processor_recover_def dispatch_simps string_recover_def set_recover_def zset_recover_def hash_recover_def
  Let_def dec_members dec_pairs dec_two

text \<open>
  The bytes a list of arguments takes in a payload, and lists that leave room for them; what else
  a payload holds (numbers, the flags of a value) takes less than 64 bytes.
\<close>

definition arg_bytes :: "string list \<Rightarrow> nat" where "arg_bytes xs = sum_list (map (\<lambda>a. 4 + length a) xs)"

definition fits :: "string list \<Rightarrow> bool" where "fits xs \<longleftrightarrow> arg_bytes xs + 64 \<le> MAX_PAYLOAD_LEN"

lemma arg_bytes_simps [simp]: "arg_bytes [] = 0" "arg_bytes (x # xs) = 4 + length x + arg_bytes xs"
  by (simp_all add: arg_bytes_def)

lemma arg_bytes_ge: "length xs \<le> arg_bytes xs" "x \<in> set xs \<Longrightarrow> 4 + length x \<le> arg_bytes xs"
  by (induction xs) (auto simp: le_add2 trans_le_add2)

lemma fits_ok:
  assumes "fits xs"
  shows "list_all string_ok xs" "strings_ok xs" "list_all kv_ok (pairs_of xs)" "list_all kv_ok (field_pairs xs)"
proof -
  have b: "arg_bytes xs < 2 ^ 32" using assms by (simp add: fits_def MAX_PAYLOAD_LEN_def)
  show s: "list_all string_ok xs"
    unfolding list_all_iff string_ok_def using arg_bytes_ge(2) [of _ xs] b by fastforce
  show "strings_ok xs" using s arg_bytes_ge(1) [of xs] b by (simp add: strings_ok_def)
  show "list_all kv_ok (pairs_of xs)" "list_all kv_ok (field_pairs xs)"
    using s by (induction xs rule: pairs_of.induct; simp add: kv_ok_def)+
qed

lemma length_members: "length (concat (map ser_string xs)) = arg_bytes xs"
  by (induction xs) simp_all

lemma length_pairs: "length (concat (map ser_kv (pairs_of xs))) \<le> arg_bytes xs" "length (concat (map ser_kv (field_pairs xs))) \<le> arg_bytes xs"
  by (induction xs rule: pairs_of.induct; simp add: ser_kv_def)+

lemmas size_simps = record_ok_def length_members fits_def

text \<open>Command by command. The key comes with the record, the other arguments in its payload.\<close>

lemma set_redone:
  assumes w: "enable_wal st" "length k \<le> MAX_KEY_LEN" and f: "fits ms"
  shows "redone env (s_add env False k ms) st" "redone env (s_rem env False k ms) st"
proof -
  note ok = fits_ok(1) [OF f]
  have s: "record_ok (t, k, concat (map ser_string ms))" for t using w(2) f by (simp add: size_simps)
  show "redone env (s_add env False k ms) st"
    by (rule redone_logged [where c = "\<lambda>b. s_add env b k ms", OF s_add_def w(1) _ _ s]) (simp_all add: replay_simps ok)
  show "redone env (s_rem env False k ms) st"
    by (rule redone_logged [where c = "\<lambda>b. s_rem env b k ms", OF s_rem_def w(1) _ _ s]) (simp_all add: replay_simps ok)
qed

lemma hash_redone:
  assumes w: "enable_wal st" "length k \<le> MAX_KEY_LEN" and f: "fits xs"
  shows "redone env (h_set env False k (field_pairs xs)) st" "redone env (h_del env False k xs) st"
proof -
  note ok = fits_ok [OF f]
  have s: "record_ok (t, k, concat (map ser_string xs))" "record_ok (t, k, concat (map ser_kv (field_pairs xs)))" for t
    using w(2) f length_pairs(2) [of xs] by (simp_all add: size_simps)
  show "redone env (h_set env False k (field_pairs xs)) st"
    by (rule redone_logged [where c = "\<lambda>b. h_set env b k (field_pairs xs)", OF h_set_def w(1) _ _ s(2)]) (simp_all add: replay_simps ok)
  show "redone env (h_del env False k xs) st"
    by (rule redone_logged [where c = "\<lambda>b. h_del env b k xs", OF h_del_def w(1) _ _ s(1)]) (simp_all add: replay_simps ok)
qed

lemma zset_redone:
  assumes w: "enable_wal st" "length k \<le> MAX_KEY_LEN" and f: "fits xs"
  shows "redone env (z_add env False k (pairs_of xs)) st" "redone env (z_rem env False k xs) st"
proof -
  note ok = fits_ok [OF f]
  have s: "record_ok (t, k, concat (map ser_string xs))" "record_ok (t, k, concat (map ser_kv (pairs_of xs)))" for t
    using w(2) f length_pairs(1) [of xs] by (simp_all add: size_simps)
  show "redone env (z_add env False k (pairs_of xs)) st"
    by (rule redone_logged [where c = "\<lambda>b. z_add env b k (pairs_of xs)", OF z_add_def [unfolded Let_def] w(1) _ _ s(2)]) (simp_all add: replay_simps ok)
  show "redone env (z_rem env False k xs) st"
    by (rule redone_logged [where c = "\<lambda>b. z_rem env b k xs", OF z_rem_def w(1) _ _ s(1)]) (simp_all add: replay_simps ok)
qed

lemma zset_redone_two:
  assumes w: "enable_wal st" "length k \<le> MAX_KEY_LEN" and f: "fits xs" "\<not> length xs < 2"
  shows "redone env (z_incr_by env False k (xs ! 0) (xs ! 1)) st" "redone env (z_rem_by_score env False k (xs ! 0) (xs ! 1)) st"
proof -
  obtain a b ys where xs: "xs = a # b # ys" using f(2) by (cases xs; cases "tl xs") auto
  have ok: "string_ok a" "string_ok b" using fits_ok(1) [OF f(1)] by (simp_all add: xs)
  have s: "record_ok (t, k, ser_string a @ ser_string b)" for t using w(2) f(1) by (simp add: size_simps xs)
  show "redone env (z_incr_by env False k (xs ! 0) (xs ! 1)) st"
    by (rule redone_logged [where c = "\<lambda>x. z_incr_by env x k (xs ! 0) (xs ! 1)", OF z_incr_by_def w(1)]) (simp_all add: replay_simps ok s xs)
  show "redone env (z_rem_by_score env False k (xs ! 0) (xs ! 1)) st"
    by (rule redone_logged [where c = "\<lambda>x. z_rem_by_score env x k (xs ! 0) (xs ! 1)", OF z_rem_by_score_def w(1)]) (simp_all add: replay_simps ok s xs)
qed

lemma stoll_range: "stoll s = Inr i \<Longrightarrow> - (2 ^ 63) \<le> i \<and> i < 2 ^ 63"
  by (auto simp: stoll_def Let_def split: option.splits if_splits)

lemma number_length: "length (nat_to_string (unat (n :: u64))) \<le> 20"
proof -
  have "unat n < 10 ^ 20" using unat_bound [of n] by simp
  then show ?thesis by (rule length_nat_to_string [rotated]) simp
qed

lemma integer_length: "- (2 ^ 63) \<le> i \<Longrightarrow> i < 2 ^ 63 \<Longrightarrow> length (int_to_string i) \<le> 21"
proof -
  assume i: "- (2 ^ 63) \<le> i" "i < 2 ^ 63"
  have "nat (- i) < 10 ^ 20" "nat i < 10 ^ 20" using i by (simp_all add: nat_less_iff)
  from length_nat_to_string [OF _ this(1)] length_nat_to_string [OF _ this(2)] show ?thesis
    by (simp add: int_to_string_def)
qed

lemma zset_redone_rank:
  assumes w: "enable_wal st" "length k \<le> MAX_KEY_LEN" and n: "stoll a = Inr i" "stoll b = Inr j"
  shows "redone env (z_rem_by_rank env False k i j) st"
proof -
  note r = stoll_range [OF n(1)] stoll_range [OF n(2)]
  have "length (int_to_string i) \<le> 21" "length (int_to_string j) \<le> 21" using r by (auto intro: integer_length)
  then have s: "record_ok (kZRemByRank, k, ser_string (int_to_string i) @ ser_string (int_to_string j))"
    using w(2) by (simp add: record_ok_def MAX_PAYLOAD_LEN_def)
  have "processor_recover env kZRemByRank k (ser_string (int_to_string i) @ ser_string (int_to_string j)) =
      Some (cbind (z_rem_by_rank env True k i j) (\<lambda>_. creturn True))"
    using r by (simp add: replay_simps integer_ok stoll_to_string)
  then show ?thesis
    by (intro redone_logged [where c = "\<lambda>x. z_rem_by_rank env x k i j", OF z_rem_by_rank_def w(1) _ _ s]) simp_all
qed

lemma push_redone:
  assumes w: "enable_wal st" "length k \<le> MAX_KEY_LEN" and f: "fits vs"
  shows "redone env (l_push env False False k vs) st" "redone env (r_push env False False k vs) st"
proof -
  note ok = fits_ok(2) [OF f, unfolded strings_ok_def]
  have s: "record_ok (t, k, push_payload False vs)" for t
    using w(2) f by (simp add: size_simps push_payload_def ser_strings_def)
  show "redone env (l_push env False False k vs) st"
    by (rule redone_logged [where c = "\<lambda>b. l_push env False b k vs", OF l_push_def w(1) _ _ s]) (use ok in \<open>simp_all add: replay_simps deque_replay\<close>)
  show "redone env (r_push env False False k vs) st"
    by (rule redone_logged [where c = "\<lambda>b. r_push env False b k vs", OF r_push_def w(1) _ _ s]) (use ok in \<open>simp_all add: replay_simps deque_replay\<close>)
qed

lemma pop_redone:
  assumes w: "enable_wal st" "length k \<le> MAX_KEY_LEN"
  shows "redone env (l_pop env False k) st" "redone env (r_pop env False k) st"
    "unat n < 2 ^ 63 \<Longrightarrow> redone env (l_pop_n env False k n) st" "unat n < 2 ^ 63 \<Longrightarrow> redone env (r_pop_n env False k n) st"
proof -
  have s: "record_ok (t, k, [])" "record_ok (t, k, ser_string (nat_to_string (unat n)))" for t
    using w(2) number_length [of n] by (simp_all add: record_ok_def MAX_PAYLOAD_LEN_def)
  show "redone env (l_pop env False k) st"
    by (rule redone_logged [where c = "\<lambda>b. l_pop env b k", OF l_pop_def w(1) _ _ s(1)]) (simp_all add: replay_simps deque_replay_pop)
  show "redone env (r_pop env False k) st"
    by (rule redone_logged [where c = "\<lambda>b. r_pop env b k", OF r_pop_def w(1) _ _ s(1)]) (simp_all add: replay_simps deque_replay_pop)
  show "unat n < 2 ^ 63 \<Longrightarrow> redone env (l_pop_n env False k n) st"
    by (rule redone_logged [where c = "\<lambda>b. l_pop_n env b k n", OF l_pop_n_def w(1) _ _ s(2)]) (simp_all add: replay_simps deque_replay_pop_n)
  show "unat n < 2 ^ 63 \<Longrightarrow> redone env (r_pop_n env False k n) st"
    by (rule redone_logged [where c = "\<lambda>b. r_pop_n env b k n", OF r_pop_n_def w(1) _ _ s(2)]) (simp_all add: replay_simps deque_replay_pop_n)
qed

lemma string_redone:
  assumes w: "enable_wal st" "length k \<le> MAX_KEY_LEN" and f: "fits [v]"
  shows "redone env (string_set env k v ttl) st"
proof -
  let ?v = "\<lparr>evalue = VString v, deleted = False, expire_time = (if ttl = 0 then 0 else ucast (word_of_nat (clock env) + ttl))\<rparr> :: evalue"
  have "deserialize_evalue (ser_evalue ?v) 0 = Inr (?v, length (ser_evalue ?v))"
    using ev.dec_norm [of ?v "[]" "[]"] fits_ok(1) [OF f] by (simp add: evalue_ok_def evalue_norm_def)
  then have "processor_recover env kSet k (ser_evalue ?v) = Some (cbind (write_memtable env k ?v) (\<lambda>_. creturn True))"
    by (simp add: replay_simps)
  from apply_processor [OF _ _ this, unfolded cbind_assoc cbind_creturn]
  have a: "apply_record env (kSet, k, ser_evalue ?v) = cbind (write_memtable env k ?v) (\<lambda>_. creturn ())" by simp
  have s: "record_ok (kSet, k, ser_evalue ?v)"
    using w(2) f by (simp add: size_simps ser_evalue_def serialize_eya_value_def)
  show ?thesis
    by (rule redone_record [OF _ _ a s]) (use w(1) in \<open>simp_all add: string_set_def Let_def snd_cbind fst_cbind_UB\<close>)
qed

lemma expire_redone:
  assumes w: "enable_wal st" "length k \<le> MAX_KEY_LEN"
  shows "redone env (set_expire env k t) st"
proof -
  define e where "e = (if t = 0 then 0 else word_of_nat (clock env) + t :: u64)"
  have a: "apply_record env (kExpire, k, nat_to_string (unat e)) = cbind (set_key_expire env k e) (\<lambda>_. creturn ())"
    by (simp add: apply_record_def stoull_to_string fun_eq_iff cbind_def [of "set_key_expire _ _ _"] split: prod.split sum.split)
  have s: "record_ok (kExpire, k, nat_to_string (unat e))"
    using w(2) number_length [of e] by (simp add: record_ok_def MAX_PAYLOAD_LEN_def)
  show ?thesis
    by (rule redone_record [OF _ _ a s]) (use w(1) in \<open>simp_all add: set_expire_def Let_def e_def\<close>)
qed

text \<open>
  The write commands that the log can carry: keys and arguments within the limits of the log, pushes
  through the string overloads, and numbers of elements to pop below \<open>2\<^sup>6\<^sup>3\<close>, since the replay reads
  them as signed numbers. Removals are left out: replaying one does nothing.
\<close>

definition count_ok :: "u64 res \<Rightarrow> bool" where
  "count_ok r \<longleftrightarrow> (case r of Inr n \<Rightarrow> unat n < 2 ^ 63 | Inl _ \<Rightarrow> True)"

definition loggable :: "bool \<Rightarrow> u8 \<Rightarrow> string list \<Rightarrow> bool" where
  "loggable view type args \<longleftrightarrow> isWriteOperation type \<and> type \<noteq> kRemove \<and> type \<noteq> kRange \<and>
     (args \<noteq> [] \<longrightarrow> length (hd args) \<le> MAX_KEY_LEN) \<and> fits args \<and>
     (type = kLPush \<or> type = kRPush \<longrightarrow> \<not> view) \<and>
     (type = kLPop \<or> type = kRPop \<longrightarrow> length args = 1 \<or> count_ok (stoull (args ! 1))) \<and>
     (type = kLPopN \<or> type = kRPopN \<longrightarrow> count_ok (pop_count view (args ! 1)))"

lemma processors_redone:
  assumes w: "enable_wal st" and ok: "args \<noteq> [] \<longrightarrow> length (hd args) \<le> MAX_KEY_LEN" "fits args"
  shows "redone env (string_execute env kSet args) st"
    "t = kSAdd \<or> t = kSRem \<Longrightarrow> redone env (set_execute env t args) st"
    "t = kHSet \<or> t = kHDel \<Longrightarrow> redone env (hash_execute env t args) st"
    "t = kZAdd \<or> t = kZRem \<or> t = kZIncrBy \<or> t = kZRemByScore \<or> t = kZRemByRank \<Longrightarrow> redone env (zset_execute env t args) st"
proof -
  have a: "length (args ! 0) \<le> MAX_KEY_LEN" "fits [args ! 1]" if "\<not> length args < 2"
    using ok that by (cases args; cases "tl args"; auto simp: fits_def)+
  have r: "length key \<le> MAX_KEY_LEN" "fits rest" if "args = key # rest" for key rest
    using ok that by (auto simp: fits_def)
  show "redone env (string_execute env kSet args) st"
    using a by (auto simp: string_execute_def intro!: redone_clift redone_cbind string_redone w)
  show "t = kSAdd \<or> t = kSRem \<Longrightarrow> redone env (set_execute env t args) st"
    using r by (cases args) (auto simp: set_execute_def intro!: redone_cbind set_redone w)
  show "t = kHSet \<or> t = kHDel \<Longrightarrow> redone env (hash_execute env t args) st"
    using r by (cases args) (auto simp: hash_execute_def intro!: redone_cbind hash_redone w)
  have two: "redone env (z_incr_by env False key (rest ! 0) (rest ! Suc 0)) st" "redone env (z_rem_by_score env False key (rest ! 0) (rest ! Suc 0)) st"
    if "args = key # rest" "\<not> length rest < 2" for key rest
    using zset_redone_two [OF w r [OF that(1)] that(2), of env] by simp_all
  show "t = kZAdd \<or> t = kZRem \<or> t = kZIncrBy \<or> t = kZRemByScore \<or> t = kZRemByRank \<Longrightarrow> redone env (zset_execute env t args) st"
    using r two by (cases args) (auto simp: zset_execute_def intro!: redone_clift redone_cbind zset_redone zset_redone_rank w)
qed

lemma deque_execute_redone:
  assumes w: "enable_wal st" and ok: "loggable view t args" and t: "t \<in> {kLPush, kRPush, kLPop, kRPop, kLPopN, kRPopN}"
  shows "redone env (deque_execute view env t args) st"
proof (cases args)
  case (Cons key rest)
  have r: "length key \<le> MAX_KEY_LEN" "fits rest" using ok by (auto simp: loggable_def fits_def Cons)
  consider (push) "t = kLPush \<or> t = kRPush" "\<not> view" | (pop) "t = kLPop \<or> t = kRPop" "rest = [] \<or> count_ok (stoull (rest ! 0))"
    | (popn) "t = kLPopN \<or> t = kRPopN" "count_ok (pop_count view (rest ! 0))"
    using t ok by (auto simp: loggable_def Cons)
  then show ?thesis
  proof cases
    case push
    then show ?thesis using r by (auto simp: deque_execute_def Cons intro!: redone_cbind push_redone w)
  next
    case pop
    then show ?thesis using r by (auto simp: deque_execute_def Cons count_ok_def intro!: redone_clift redone_cbind pop_redone w)
  next
    case popn
    then show ?thesis using r by (auto simp: deque_execute_def Cons count_ok_def intro!: redone_clift redone_cbind pop_redone w)
  qed
qed (simp add: deque_execute_def)

lemma run_command_redone:
  assumes w: "enable_wal st" and ok: "loggable view t args"
  shows "redone env (run_command regex view env t args) st"
proof -
  have a: "args \<noteq> [] \<longrightarrow> length (hd args) \<le> MAX_KEY_LEN" "fits args" using ok by (simp_all add: loggable_def)
  note p = processors_redone [OF w a, where env = env]
  have k: "length (args ! 0) \<le> MAX_KEY_LEN" if "\<not> length args \<le> 1" using a that by (cases args) auto
  consider "t = kExpire" | "t = kSet" | "t = kSAdd \<or> t = kSRem" | "t = kHSet \<or> t = kHDel" |
    "t = kZAdd \<or> t = kZRem \<or> t = kZIncrBy \<or> t = kZRemByScore \<or> t = kZRemByRank" | "t \<in> {kLPush, kRPush, kLPop, kRPop, kLPopN, kRPopN}"
  proof -
    have "t \<in> set write_types" "t \<noteq> kRemove" "t \<noteq> kRange" using ok by (simp_all add: loggable_def isWriteOperation_def)
    then show thesis using that unfolding write_types_def list.set insert_iff empty_iff by blast
  qed
  then show ?thesis
  proof cases
    case 1
    then show ?thesis using k by (auto simp: run_command_def intro!: redone_clift redone_cbind expire_redone w)
  next
    case 2
    then show ?thesis using p(1) by (simp add: run_command_def processor_execute_def dispatch_simps redone_catch)
  next
    case 3
    then have "run_command regex view env t args = catch_all (set_execute env t args)"
      by (elim disjE) (simp_all add: run_command_def processor_execute_def dispatch_simps)
    then show ?thesis using p(2) [OF 3] by (simp add: redone_catch)
  next
    case 4
    then have "run_command regex view env t args = catch_all (hash_execute env t args)"
      by (elim disjE) (simp_all add: run_command_def processor_execute_def dispatch_simps)
    then show ?thesis using p(3) [OF 4] by (simp add: redone_catch)
  next
    case 5
    then have "run_command regex view env t args = catch_all (zset_execute env t args)"
      by (elim disjE) (simp_all add: run_command_def processor_execute_def dispatch_simps)
    then show ?thesis using p(4) [OF 5] by (simp add: redone_catch)
  next
    case 6
    then have "run_command regex view env t args = catch_all (deque_execute view env t args)"
      by (elim insertE emptyE) (simp_all add: run_command_def processor_execute_def dispatch_simps)
    then show ?thesis using deque_execute_redone [OF w ok 6] by (simp add: redone_catch)
  qed
qed

section \<open>Commands during recovery\<close>

text \<open>
  During recovery the memtable has no limit, the log is closed and there are no snapshots. A command
  that does not rotate the memtable does the same there, with the same outcome.
\<close>

definition recovering :: "wal \<Rightarrow> storage \<Rightarrow> storage" where
  "recovering w st = st\<lparr>st_memtable := cancel_size_limit (st_memtable st), st_wal := w, snapshot_cache_valid := False,
     snapshot_cache_path := '''', snapshot_files := []\<rparr>"

lemma recovering_sel [simp]:
  "st_memtable (recovering w st) = cancel_size_limit (st_memtable st)" "st_wal (recovering w st) = w"
  "enable_wal (recovering w st) = enable_wal st" "immutable_memtables (recovering w st) = immutable_memtables st"
  "sstable_manager (recovering w st) = sstable_manager st" "current_wal_filename (recovering w st) = current_wal_filename st"
  "cfg_memtable_size (recovering w st) = cfg_memtable_size st" "skiplist_max_level (recovering w st) = skiplist_max_level st"
  by (simp_all add: recovering_def)

lemma recovering_upd [simp]:
  "recovering w (st\<lparr>sstable_manager := m\<rparr>) = (recovering w st)\<lparr>sstable_manager := m\<rparr>"
  "recovering w (st\<lparr>st_memtable := mt\<rparr>) = (recovering w st)\<lparr>st_memtable := cancel_size_limit mt\<rparr>"
  "recovering w (st\<lparr>st_wal := w'\<rparr>) = recovering w st" "recovering w (recovering w' st) = recovering w st"
  by (simp_all add: recovering_def cancel_size_limit_def)

lemma unlimited [simp]:
  "\<not> should_flush (cancel_size_limit mt)" "memtable_get k (cancel_size_limit mt) = memtable_get k mt"
  "memtable_store coins k v (cancel_size_limit mt) = cancel_size_limit (memtable_store coins k v mt)"
  "memtable_handle_value k f (cancel_size_limit mt) = (fst (memtable_handle_value k f mt), cancel_size_limit (snd (memtable_handle_value k f mt)))"
  by (simp_all add: should_flush_def cancel_size_limit_def memtable_get_def memtable_store_def memtable_handle_value_def Let_def split: prod.split)

text \<open>A rotation shows in the name of the log file.\<close>

definition tracks_at :: "env \<Rightarrow> 'r cmd \<Rightarrow> storage \<Rightarrow> bool" where
  "tracks_at env c st \<longleftrightarrow> enable_wal (snd (c st)) = enable_wal st \<and>
     (current_wal_filename (snd (c st)) = current_wal_filename st \<or> current_wal_filename (snd (c st)) = rotated_name env st) \<and>
     (current_wal_filename (snd (c st)) = current_wal_filename st \<and> current_wal_filename st \<noteq> rotated_name env st \<longrightarrow>
        st_wal (snd (c st)) = st_wal st \<and> immutable_memtables (snd (c st)) = immutable_memtables st \<and>
        skiplist_max_level (snd (c st)) = skiplist_max_level st \<and>
        (\<forall>w. c (recovering w st) = (fst (c st), recovering w (snd (c st)))))"

definition tracks :: "env \<Rightarrow> 'r cmd \<Rightarrow> bool" where
  "tracks env c \<longleftrightarrow> (\<forall>st. tracks_at env c st)"

named_theorems tracks_intros

lemma tracks_basic [tracks_intros]: "tracks env (creturn x)" "tracks env (clift r)" "tracks env (cthrow e)"
  by (simp_all add: tracks_def tracks_at_def)

lemma rotated_name_wal: "enable_wal st' = enable_wal st \<Longrightarrow> rotated_name env st' = rotated_name env st"
  by (simp add: rotated_name_def)

lemma tracks_cbind [tracks_intros]:
  assumes c: "tracks env c" and f: "\<And>x. tracks env (f x)"
  shows "tracks env (cbind c f)"
  unfolding tracks_def
proof (intro allI)
  fix st
  obtain r st1 where c1: "c st = (r, st1)" by (rule prod.exhaust)
  note t = c [unfolded tracks_def tracks_at_def, rule_format, of st, unfolded c1 fst_conv snd_conv]
  have n: "rotated_name env st1 = rotated_name env st" by (rule rotated_name_wal [OF conjunct1 [OF t]])
  show "tracks_at env (cbind c f) st"
  proof (cases r)
    case (Inl e)
    then show ?thesis using t by (simp add: c1 tracks_at_def)
  next
    case (Inr x)
    note u = f [unfolded tracks_def tracks_at_def, rule_format, of x st1, unfolded n]
    have r: "cbind c f st = f x st1" by (simp add: c1 Inr)
    show ?thesis unfolding tracks_at_def r
    proof (intro conjI impI)
      show "enable_wal (snd (f x st1)) = enable_wal st" using t u by simp
      show "current_wal_filename (snd (f x st1)) = current_wal_filename st \<or> current_wal_filename (snd (f x st1)) = rotated_name env st"
        using t u by auto
      assume same: "current_wal_filename (snd (f x st1)) = current_wal_filename st \<and> current_wal_filename st \<noteq> rotated_name env st"
      then have s1: "current_wal_filename st1 = current_wal_filename st" using t u by metis
      have u1: "st_wal (snd (f x st1)) = st_wal st1" "immutable_memtables (snd (f x st1)) = immutable_memtables st1"
        "skiplist_max_level (snd (f x st1)) = skiplist_max_level st1" "f x (recovering w st1) = (fst (f x st1), recovering w (snd (f x st1)))" for w using u same s1 by metis+
      have t1: "st_wal st1 = st_wal st" "immutable_memtables st1 = immutable_memtables st" "skiplist_max_level st1 = skiplist_max_level st" "c (recovering w st) = (Inr x, recovering w st1)" for w
        using t s1 same Inr by blast+
      show "st_wal (snd (f x st1)) = st_wal st" "immutable_memtables (snd (f x st1)) = immutable_memtables st"
        "skiplist_max_level (snd (f x st1)) = skiplist_max_level st" "\<forall>w. cbind c f (recovering w st) = (fst (f x st1), recovering w (snd (f x st1)))" by (simp_all add: t1 u1)
    qed
  qed
qed

lemma tracks_if [tracks_intros]: "tracks env c \<Longrightarrow> tracks env d \<Longrightarrow> tracks env (if b then c else d)"
  by simp

lemma tracks_manager [tracks_intros]: "tracks env (with_manager f)"
  unfolding tracks_def tracks_at_def with_manager_def by (auto split: sum.split prod.split)

lemma rotate_current [simp]:
  "current_wal_filename (rotate_memtable env st) = rotated_name env st" "enable_wal (rotate_memtable env st) = enable_wal st"
proof -
  have "fst (open_new_wal_file (stamp env) w) = generate_unique_filename (stamp env)" for w by (rule open_new_name)
  then show "current_wal_filename (rotate_memtable env st) = rotated_name env st"
    by (auto simp: rotate_memtable_def Let_def rotated_name_def split: prod.split) (metis fst_conv)
  show "enable_wal (rotate_memtable env st) = enable_wal st" by (simp add: rotate_memtable_def Let_def split: prod.split)
qed

lemma put_sel [simp]:
  "current_wal_filename (snd (put_memtable env k v st)) = current_wal_filename st" "enable_wal (snd (put_memtable env k v st)) = enable_wal st"
  by (simp_all add: put_memtable_def split: sum.split)

lemma put_recovering: "put_memtable env k v (recovering w st) = (Inr (), recovering w (st\<lparr>st_memtable := memtable_store (draws env 0) k v (st_memtable st)\<rparr>))"
  by (simp add: put_memtable_def memtable_put_def)

lemma tracks_write [tracks_intros]: "tracks env (write_memtable env k v)"
  unfolding tracks_def
proof (intro allI)
  fix st :: storage
  let ?mt = "memtable_store (draws env 0) k v (st_memtable st)"
  have rec: "write_memtable env k v (recovering w st) = (Inr True, recovering w (st\<lparr>st_memtable := ?mt\<rparr>))" for w
    unfolding write_memtable_def put_recovering by simp
  show "tracks_at env (write_memtable env k v) st"
  proof (cases "should_flush (st_memtable st)")
    case True
    have "put_memtable env k v st = (Inl (OverflowError ''MemTable size exceeds limit''), st)" using True by (simp add: put_memtable_def memtable_put_def)
    then have "snd (write_memtable env k v st) = snd (put_memtable env k v (rotate_memtable env st))"
      unfolding write_memtable_def by (simp add: snd_cbind)
    then show ?thesis by (auto simp: tracks_at_def)
  next
    case False
    then have "put_memtable env k v st = (Inr (), st\<lparr>st_memtable := ?mt\<rparr>)" by (simp add: put_memtable_def memtable_put_def)
    then have "write_memtable env k v st = (Inr True, if should_flush ?mt then rotate_memtable env (st\<lparr>st_memtable := ?mt\<rparr>) else st\<lparr>st_memtable := ?mt\<rparr>)"
      by (simp add: write_memtable_def)
    then show ?thesis unfolding tracks_at_def rec by auto
  qed
qed

lemma immutable_recovering [simp]: "get_from_immutable_memtables k (recovering w st) = get_from_immutable_memtables k st"
  by (simp add: get_from_immutable_memtables_def)

lemma tracks_cong: "(\<And>st. c st = d st) \<Longrightarrow> tracks env d \<Longrightarrow> tracks env c"
  by (simp add: tracks_def tracks_at_def)

lemma tracks_by_view:
  assumes "\<And>x. tracks env (c x)" "\<And>st w. f (recovering w st) = f st"
  shows "tracks env (\<lambda>st. c (f st) st)"
  using assms by (simp add: tracks_def tracks_at_def)

lemma tracks_old [tracks_intros]: "tracks env (get_from_old env k)"
proof -
  let ?c = "\<lambda>x. case x of Some v \<Rightarrow> creturn (judge env v) | None \<Rightarrow> cbind (with_manager (mgr_get k)) (\<lambda>r. creturn (case r of Some v \<Rightarrow> judge env v | None \<Rightarrow> None))"
  have "tracks env (?c x)" for x by (cases x) (auto intro!: tracks_intros)
  from tracks_by_view [of env ?c, OF this immutable_recovering [of k]] show ?thesis
    by (rule tracks_cong [rotated]) (simp add: get_from_old_def split: option.split)
qed

lemma tracks_get [tracks_intros]: "tracks env (storage_get env k)"
proof -
  let ?c = "\<lambda>x. case x of Some v \<Rightarrow> creturn (Some (evalue v)) | None \<Rightarrow> cbind (get_from_old env k) (\<lambda>r. creturn (map_option evalue r))"
  have "tracks env (?c x)" for x by (cases x) (auto intro!: tracks_intros)
  then have "tracks env (\<lambda>st. ?c (get_from_latest env k st) st)"
    by (rule tracks_by_view) (simp add: get_from_latest_def)
  then show ?thesis by (rule tracks_cong [rotated]) (simp add: storage_get_def split: option.split)
qed

lemma tracks_result [tracks_intros]: "tracks env (write_result env k v r)"
  unfolding write_result_def by (intro tracks_intros)

lemma tracks_create [tracks_intros]: "tracks env (create env k put c step)"
  unfolding create_def by (auto split: prod.split sum.split intro!: tracks_intros)

lemma tracks_on_old [tracks_intros]: "tracks env absent \<Longrightarrow> tracks env (on_old env k as_c put keep step absent)"
  unfolding on_old_def by (auto split: option.split prod.split sum.split intro!: tracks_intros)

lemma memtable_update_name [simp]: "rotated_name env (st\<lparr>st_memtable := mt\<rparr>) = rotated_name env st"
  by (simp add: rotated_name_def)

text \<open>The callback on the active memtable with its fallback, as all write commands have it.\<close>

lemma tracks_handle:
  assumes old: "tracks env old"
    and c: "\<And>st. c st = (case memtable_handle_value k f (st_memtable st) of
       (Inr x, mt) \<Rightarrow> (h x, st\<lparr>st_memtable := mt\<rparr>)
     | (Inl (OutOfRange _), mt) \<Rightarrow> old (st\<lparr>st_memtable := mt\<rparr>)
     | (Inl e, mt) \<Rightarrow> (g e, st\<lparr>st_memtable := mt\<rparr>))"
  shows "tracks env c"
  unfolding tracks_def
proof (intro allI)
  fix st :: storage
  obtain r mt where hv: "memtable_handle_value k f (st_memtable st) = (r, mt)" by (rule prod.exhaust)
  note o = old [unfolded tracks_def tracks_at_def, rule_format, of "st\<lparr>st_memtable := mt\<rparr>"]
  have s: "c st = (case r of Inr x \<Rightarrow> (h x, st\<lparr>st_memtable := mt\<rparr>) | Inl (OutOfRange _) \<Rightarrow> old (st\<lparr>st_memtable := mt\<rparr>)
      | Inl e \<Rightarrow> (g e, st\<lparr>st_memtable := mt\<rparr>))"
    by (simp add: c hv split: sum.split exn.split)
  have t: "c (recovering w st) = (case r of Inr x \<Rightarrow> (h x, recovering w (st\<lparr>st_memtable := mt\<rparr>))
      | Inl (OutOfRange _) \<Rightarrow> old (recovering w (st\<lparr>st_memtable := mt\<rparr>)) | Inl e \<Rightarrow> (g e, recovering w (st\<lparr>st_memtable := mt\<rparr>)))" for w
    by (simp add: c hv split: sum.split exn.split)
  show "tracks_at env c st"
    unfolding tracks_at_def s t using o by (auto split: sum.split exn.split simp del: recovering_upd)
qed

lemma tracks_handler [tracks_intros]:
  assumes "tracks env old"
  shows "tracks env (run_handler k f old)"
  by (rule tracks_handle [OF assms, where h = "\<lambda>x. Inr (fst x)" and g = "\<lambda>e. Inl (slice_exn e)" and k = k and f = f])
    (simp add: run_handler_def split: prod.split sum.split exn.split)

lemma tracks_expire [tracks_intros]: "tracks env (set_key_expire env k e)"
proof -
  define again where "again x = (\<lambda>st1. case put_memtable env k x st1 of
      (Inl (OverflowError _), st2) \<Rightarrow> put_memtable env k x (rotate_memtable env st2) | other \<Rightarrow> other)" for x
  have again: "tracks env (again x)" for x
    unfolding tracks_def
  proof (intro allI)
    fix st :: storage
    let ?mt = "memtable_store (draws env 0) k x (st_memtable st)"
    have rec: "again x (recovering w st) = (Inr (), recovering w (st\<lparr>st_memtable := ?mt\<rparr>))" for w
      unfolding again_def put_recovering by simp
    have "again x st = (if should_flush (st_memtable st) then put_memtable env k x (rotate_memtable env st) else (Inr (), st\<lparr>st_memtable := ?mt\<rparr>))"
      by (simp add: again_def put_memtable_def memtable_put_def)
    then show "tracks_at env (again x) st"
      unfolding tracks_at_def rec by auto
  qed
  let ?old = "cbind (storage_get env k) (\<lambda>r. case r of None \<Rightarrow> cthrow (RuntimeError ''key not found'')
      | Some v \<Rightarrow> again ((mk_evalue v)\<lparr>expire_time := ucast e\<rparr>))"
  have "tracks env ?old" by (auto split: option.split intro!: tracks_intros again)
  then show ?thesis
    by (rule tracks_handle [where h = "\<lambda>x. Inr ()" and g = Inl and k = k and f = "\<lambda>v. (Inr (), if is_deleted v \<or> is_expired (clock env) v then v else v\<lparr>expire_time := ucast e\<rparr>)"]) (unfold set_key_expire_def again_def Let_def, simp split: prod.split sum.split exn.split)
qed

lemma commands_track [tracks_intros]:
  "tracks env (s_add env True k ms)" "tracks env (s_rem env True k ms)" "tracks env (h_set env True k fvs)" "tracks env (h_del env True k ms)"
  "tracks env (z_add env True k ps)" "tracks env (z_rem env True k ms)" "tracks env (z_incr_by env True k a b)"
  "tracks env (z_rem_by_score env True k a b)" "tracks env (z_rem_by_rank env True k i j)"
  "tracks env (l_push env v True k ms)" "tracks env (r_push env v True k ms)" "tracks env (l_pop env True k)" "tracks env (r_pop env True k)"
  "tracks env (l_pop_n env True k n)" "tracks env (r_pop_n env True k n)"
  by (rule tracks_cong, simp only: s_add_def s_rem_def h_set_def h_del_def z_add_def z_rem_def z_incr_by_def z_rem_by_score_def z_rem_by_rank_def
      l_push_def r_push_def l_pop_def r_pop_def l_pop_n_def r_pop_n_def log_unless_simps Let_def, (intro tracks_intros))+

lemma tracks_split: "(\<And>a b. tracks env (f a b)) \<Longrightarrow> tracks env (case x of (a, b) \<Rightarrow> f a b)"
  by (simp split: prod.split)

text \<open>Replaying any record but a removal.\<close>

lemma apply_record_tracks:
  assumes "t \<noteq> kRemove"
  shows "tracks env (apply_record env (t, k, p))"
proof -
  have "tracks env c" if "processor_recover env t k p = Some c" for c
    using that unfolding processor_recover_def string_recover_def set_recover_def zset_recover_def hash_recover_def deque_recover_def Let_def
    by (auto split: if_splits intro!: tracks_intros tracks_split)
  then show ?thesis unfolding apply_record_def using assms by (auto split: option.split intro!: tracks_intros)
qed

section \<open>A run of commands and its log\<close>

text \<open>Commands one after the other, each in its own environment; \<open>None\<close> when one meets undefined behaviour.\<close>

fun run_commands :: "(string \<Rightarrow> (string \<Rightarrow> bool) res) \<Rightarrow> (env \<times> bool \<times> u8 \<times> string list) list \<Rightarrow> storage \<Rightarrow> storage option" where
  "run_commands regex [] st = Some st"
| "run_commands regex ((env, view, type, args) # cs) st = (case storage_execute regex view env type args st of
       (Inr _, st') \<Rightarrow> run_commands regex cs st'
     | (Inl _, _) \<Rightarrow> None)"

lemma invalidate_sel [simp]:
  "recovering w (invalidate_snapshot st) = recovering w st" "st_wal (invalidate_snapshot st) = st_wal st"
  "immutable_memtables (invalidate_snapshot st) = immutable_memtables st" "skiplist_max_level (invalidate_snapshot st) = skiplist_max_level st" "enable_wal (invalidate_snapshot st) = enable_wal st"
  "current_wal_filename (invalidate_snapshot st) = current_wal_filename st"
  by (simp_all add: invalidate_snapshot_def remove_snapshot_def Let_def recovering_def)

text \<open>What one command leaves of the state that recovery rebuilds, and in the log.\<close>

definition same_core :: "storage \<Rightarrow> storage \<Rightarrow> bool" where
  "same_core st st' \<longleftrightarrow> (\<forall>w. recovering w st' = recovering w st) \<and> st_wal st' = st_wal st \<and> immutable_memtables st' = immutable_memtables st \<and>
     skiplist_max_level st' = skiplist_max_level st \<and> enable_wal st' = enable_wal st \<and> current_wal_filename st' = current_wal_filename st"

lemma same_core_refl [simp]: "same_core st st" "same_core st (invalidate_snapshot st)"
  by (simp_all add: same_core_def)

lemma execute_core:
  assumes "storage_execute regex view env t args st = (Inr r, st')"
  shows "same_core st st' \<or> same_core (snd (run_command regex view env t args st)) st' \<and> fst (run_command regex view env t args st) \<noteq> Inl UB"
proof (cases "run_command regex view env t args st")
  case (Pair x st1)
  show ?thesis
    using assms unfolding storage_execute_def catch_outer_def cbind_def Pair
    by (auto split: if_splits sum.splits exn.splits)
qed

lemma log_op_sel [simp]:
  "recovering w (snd (log_op t k p st)) = recovering w st" "immutable_memtables (snd (log_op t k p st)) = immutable_memtables st"
  "enable_wal (snd (log_op t k p st)) = enable_wal st" "skiplist_max_level (snd (log_op t k p st)) = skiplist_max_level st" "current_wal_filename (snd (log_op t k p st)) = current_wal_filename st"
  "st_wal (snd (log_op t k p st)) = snd (write_record (t, k, p) (st_wal st))"
  by (simp_all add: log_op_def append_log_def recovering_def split: prod.split)

text \<open>
  A command within one log file: nothing happens, or one record is appended whose replay on the
  store as recovery sees it gives the new store as recovery sees it.
\<close>

lemma execute_logged:
  assumes w: "enable_wal st" and ok: "loggable view t args" and exec: "storage_execute regex view env t args st = (Inr r, st')"
    and name: "current_wal_filename st' = current_wal_filename st" "current_wal_filename st \<noteq> generate_unique_filename (stamp env)"
  shows "enable_wal st' \<and> immutable_memtables st' = immutable_memtables st \<and> skiplist_max_level st' = skiplist_max_level st \<and>
    ((\<forall>w. recovering w st' = recovering w st) \<and> st_wal st' = st_wal st \<or>
     (\<exists>x. record_ok x \<and> st_wal st' = snd (write_record x (st_wal st)) \<and>
       (\<forall>w. fst (apply_record env x (recovering w st)) \<noteq> Inl UB \<and> snd (apply_record env x (recovering w st)) = recovering w st')))"
proof -
  define st1 where "st1 = snd (run_command regex view env t args st)"
  consider (none) "same_core st st'" | (run) "same_core st1 st'" "fst (run_command regex view env t args st) \<noteq> Inl UB"
    using execute_core [OF exec] by (auto simp: st1_def)
  then show ?thesis
  proof cases
    case none
    then show ?thesis using w by (simp add: same_core_def)
  next
    case run
    from run_command_redone [OF w ok, of env regex] consider (idle) "st1 = st" |
      (logged) t' k p where "record_ok (t', k, p)" "t' \<noteq> kRemove" "st1 = snd (apply_record env (t', k, p) (snd (log_op t' k p st)))"
        "fst (apply_record env (t', k, p) (snd (log_op t' k p st))) \<noteq> Inl UB"
      using run(2) by (auto simp: redone_def st1_def)
    then show ?thesis
    proof cases
      case idle
      then show ?thesis using w run(1) by (simp add: same_core_def)
    next
      case logged
      let ?x = "(t', k, p)" and ?st0 = "snd (log_op t' k p st)"
      have n: "current_wal_filename (snd (apply_record env ?x ?st0)) = current_wal_filename ?st0" "current_wal_filename ?st0 \<noteq> rotated_name env ?st0"
        using run(1) name w logged(3) by (simp_all add: same_core_def rotated_name_def)
      have a: "enable_wal st1 = enable_wal ?st0" "st_wal st1 = st_wal ?st0" "immutable_memtables st1 = immutable_memtables ?st0" "skiplist_max_level st1 = skiplist_max_level ?st0"
        "apply_record env ?x (recovering w ?st0) = (fst (apply_record env ?x ?st0), recovering w st1)" for w
        using apply_record_tracks [OF logged(2), of env k p] n unfolding logged(3) tracks_def tracks_at_def by blast+
      have "\<forall>w. fst (apply_record env ?x (recovering w st)) \<noteq> Inl UB \<and> snd (apply_record env ?x (recovering w st)) = recovering w st'"
        using a(5) logged(4) run(1) by (simp add: same_core_def)
      moreover have "enable_wal st'" "immutable_memtables st' = immutable_memtables st" "skiplist_max_level st' = skiplist_max_level st" "st_wal st' = snd (write_record ?x (st_wal st))"
        using run(1) w a(1-4) by (simp_all add: same_core_def)
      ultimately show ?thesis using logged(1) by blast
    qed
  qed
qed

lemma execute_name:
  assumes w: "enable_wal st" and ok: "loggable view t args" and exec: "storage_execute regex view env t args st = (Inr r, st')"
  shows "current_wal_filename st' = current_wal_filename st \<or> current_wal_filename st' = generate_unique_filename (stamp env)" "enable_wal st'"
proof -
  let ?st1 = "snd (run_command regex view env t args st)"
  have n: "(current_wal_filename ?st1 = current_wal_filename st \<or> current_wal_filename ?st1 = generate_unique_filename (stamp env)) \<and> enable_wal ?st1"
    using run_command_redone [OF w ok, of env regex] unfolding redone_def
  proof (elim disjE exE conjE)
    fix t' k p
    assume l: "t' \<noteq> kRemove" "?st1 = snd (apply_record env (t', k, p) (snd (log_op t' k p st)))"
    show ?thesis
      using apply_record_tracks [OF l(1), of env k p, unfolded tracks_def tracks_at_def, rule_format, of "snd (log_op t' k p st)"] w
      unfolding l(2) by (simp add: rotated_name_def)
  qed (use w in simp)
  show "current_wal_filename st' = current_wal_filename st \<or> current_wal_filename st' = generate_unique_filename (stamp env)" "enable_wal st'"
    using execute_core [OF exec] n w by (auto simp: same_core_def)
qed

text \<open>Records replayed one after the other, each in the environment of its command.\<close>

fun replay :: "string \<Rightarrow> (env \<times> wal_record) list \<Rightarrow> storage \<Rightarrow> storage res" where
  "replay name [] st = Inr st"
| "replay name ((env, r) # ers) st = rbind (recover_record env name r st) (replay name ers)"

lemma replay_records:
  "(\<And>n. n < length ers \<Longrightarrow> envs (i + n) = fst (ers ! n)) \<Longrightarrow>
     recover_records envs i (map (\<lambda>(env, r). (name, r)) ers) st = replay name ers st"
proof (induction ers arbitrary: i st)
  case (Cons x ers)
  obtain env r where x: "x = (env, r)" by (rule prod.exhaust)
  have e: "envs i = env" using Cons.prems [of 0] by (simp add: x)
  have "recover_records envs (Suc i) (map (\<lambda>(env, r). (name, r)) ers) = replay name ers"
    using Cons.IH [of "Suc i"] Cons.prems [of "Suc _"] by (simp add: fun_eq_iff)
  then show ?case by (simp add: x e)
qed simp

lemma replay_append: "replay name (xs @ ys) st = rbind (replay name xs st) (replay name ys)"
  by (induction name xs st rule: replay.induct) (simp_all split: sum.split add: rbind_def)

lemma run_name:
  assumes "run_commands regex cs st = Some st'" "enable_wal st" "current_wal_filename st \<noteq> name"
    "\<forall>(env, view, t, args) \<in> set cs. loggable view t args \<and> generate_unique_filename (stamp env) \<noteq> name"
  shows "current_wal_filename st' \<noteq> name"
  using assms
proof (induction regex cs st rule: run_commands.induct)
  case (2 regex env view type args cs st)
  then obtain r st1 where e: "storage_execute regex view env type args st = (Inr r, st1)" by (auto split: prod.splits sum.splits)
  have ok: "loggable view type args" "generate_unique_filename (stamp env) \<noteq> name" using 2(5) by simp_all
  have "current_wal_filename st1 \<noteq> name" "enable_wal st1" using execute_name [OF 2(3) ok(1) e] ok(2) 2(4) by auto
  then show ?case using 2(1) [OF e [symmetric] refl] 2(2,5) e by simp
qed simp

lemma run_wal:
  assumes "run_commands regex cs st = Some st'" "enable_wal st" "\<forall>(env, view, t, args) \<in> set cs. loggable view t args \<and> P env"
  shows "enable_wal st'"
  using assms
proof (induction regex cs st rule: run_commands.induct)
  case (2 regex env view type args cs st)
  then obtain r st1 where e: "storage_execute regex view env type args st = (Inr r, st1)" by (auto split: prod.splits sum.splits)
  have "loggable view type args" using 2(4) by simp
  then show ?case using 2(1) [OF e [symmetric] refl] 2(2,4) e execute_name(2) [OF 2(3) _ e] by simp
qed simp

lemma run_logged:
  assumes "run_commands regex cs st = Some st'" "enable_wal st" "current_wal_filename st = name" "current_wal_filename st' = name"
    "\<forall>(env, view, t, args) \<in> set cs. loggable view t args \<and> generate_unique_filename (stamp env) \<noteq> name" "wal_state name rs j (st_wal st)"
  shows "\<exists>ers j'. list_all record_ok (map snd ers) \<and> set (map fst ers) \<subseteq> fst ` set cs \<and> immutable_memtables st' = immutable_memtables st \<and>
    skiplist_max_level st' = skiplist_max_level st \<and> sync_on_write (st_wal st') = sync_on_write (st_wal st) \<and> (sync_on_write (st_wal st) \<and> j = length rs \<longrightarrow> j' = length (rs @ map snd ers)) \<and> wal_state name (rs @ map snd ers) j' (st_wal st') \<and> (\<forall>w. replay name ers (recovering w st) = Inr (recovering w st'))"
  using assms
proof (induction regex cs st arbitrary: rs j rule: run_commands.induct)
  case (1 regex st)
  then show ?case by (intro exI [of _ "[]"] exI [of _ j]) simp
next
  case (2 regex env view type args cs st)
  then obtain r st1 where e: "storage_execute regex view env type args st = (Inr r, st1)" by (auto split: prod.splits sum.splits)
  have ok: "loggable view type args" "generate_unique_filename (stamp env) \<noteq> name"
    and oks: "\<forall>(env, view, t, args) \<in> set cs. loggable view t args \<and> generate_unique_filename (stamp env) \<noteq> name" using 2(6) by auto
  have run: "run_commands regex cs st1 = Some st'" using 2(2) e by simp
  have w1: "enable_wal st1" by (rule execute_name(2) [OF 2(3) ok(1) e])
  have n1: "current_wal_filename st1 = name" using run_name [OF run w1 _ oks] 2(5) by blast
  note l = execute_logged [OF 2(3) ok(1) e, unfolded 2(4) n1, OF refl not_sym [OF ok(2)]]
  note IH = 2(1) [OF e [symmetric] refl run w1 n1 2(5) oks]
  from l consider (idle) "\<And>w. recovering w st1 = recovering w st" "st_wal st1 = st_wal st"
    | (logged) x where "record_ok x" "st_wal st1 = snd (write_record x (st_wal st))"
      "\<And>w. fst (apply_record env x (recovering w st)) \<noteq> Inl UB" "\<And>w. snd (apply_record env x (recovering w st)) = recovering w st1" by blast
  then show ?case
  proof cases
    case idle
    have "wal_state name rs j (st_wal st1)" using 2(7) idle(2) by simp
    from IH [OF this] obtain ers j' where ers: "list_all record_ok (map snd ers)" "set (map fst ers) \<subseteq> fst ` set cs"
      "immutable_memtables st' = immutable_memtables st1" "wal_state name (rs @ map snd ers) j' (st_wal st')"
      "\<And>w. replay name ers (recovering w st1) = Inr (recovering w st')"
      "sync_on_write (st_wal st1) \<and> j = length rs \<longrightarrow> j' = length (rs @ map snd ers)" "skiplist_max_level st' = skiplist_max_level st1"
      "sync_on_write (st_wal st') = sync_on_write (st_wal st1)" by auto
    then show ?thesis using l idle by (intro exI [of _ ers] exI [of _ j']) auto
  next
    case logged
    let ?j1 = "if sync_on_write (st_wal st) then length rs + 1 else j"
    have "wal_state name (rs @ [x]) ?j1 (st_wal st1)" using wal_state_append [OF 2(7), of x] logged(2) by simp
    from IH [OF this] obtain ers j' where ers: "list_all record_ok (map snd ers)" "set (map fst ers) \<subseteq> fst ` set cs"
      "immutable_memtables st' = immutable_memtables st1" "wal_state name (rs @ x # map snd ers) j' (st_wal st')"
      "\<And>w. replay name ers (recovering w st1) = Inr (recovering w st')" "skiplist_max_level st' = skiplist_max_level st1"
      "sync_on_write (st_wal st') = sync_on_write (st_wal st1)" "sync_on_write (st_wal st1) \<and> ?j1 = length (rs @ [x]) \<longrightarrow> j' = length (rs @ x # map snd ers)" by auto
    have sync: "sync_on_write (st_wal st) \<and> j = length rs \<longrightarrow> j' = length (rs @ map snd ((env, x) # ers))"
      using ers(8) logged(2) by simp
    have "replay name ((env, x) # ers) (recovering w st) = Inr (recovering w st')" for w
    proof -
      obtain y where "apply_record env x (recovering w st) = (y, recovering w st1)" "y \<noteq> Inl UB"
        using logged(3,4) [of w] by (cases "apply_record env x (recovering w st)") simp
      then have "recover_record env name x (recovering w st) = Inr (recovering w st1)"
        using 2(4) by (simp add: recover_record_def Let_def split: sum.split exn.split)
      then show ?thesis using ers(5) [of w] by simp
    qed
    moreover have "list_all record_ok (map snd ((env, x) # ers))" "set (map fst ((env, x) # ers)) \<subseteq> fst ` set ((env, view, type, args) # cs)"
      using ers(1,2) logged(1) by auto
    ultimately show ?thesis using ers(3,4,6,7) logged(2) l sync by (intro exI [of _ "(env, x) # ers"] exI [of _ j']) simp
  qed
qed

section \<open>Restart\<close>

text \<open>A store that has just been started on an empty log.\<close>

definition started :: "string \<Rightarrow> storage \<Rightarrow> bool" where
  "started name st \<longleftrightarrow> enable_wal st \<and> 1 \<le> skiplist_max_level st \<and> immutable_memtables st = [] \<and> current_wal_filename st = name \<and>
     has_wal_extension name \<and> wal_state name [] 0 (st_wal st) \<and>
     cancel_size_limit (st_memtable st) = cancel_size_limit (create_new_memtable st) \<and>
     \<not> snapshot_cache_valid st \<and> snapshot_cache_path st = [] \<and> snapshot_files st = []"

lemma newest_core:
  assumes "\<And>k. memtable_get k (st_memtable a) = memtable_get k (st_memtable b)" "immutable_memtables a = immutable_memtables b"
    "sstable_manager a = sstable_manager b"
  shows "newest a = newest b"
  using assms by (simp add: newest_def old_view_def get_from_immutable_memtables_def fun_eq_iff split: option.split)

lemma newest_recovering [simp]: "newest (recovering w st) = newest st"
  by (rule newest_core) simp_all

text \<open>The end of recovery: whether the rebuilt memtable is kept or set aside, the versions stay.\<close>

lemma set_size_limit_get [simp]: "memtable_get k (set_size_limit s mt) = memtable_get k mt"
  by (simp add: set_size_limit_def memtable_get_def Let_def)

lemma memtable_new_get_any: "1 \<le> l \<Longrightarrow> memtable_get k (memtable_new s l) = None"
  using observe_stable [OF new_ok [of l s], of k] new_inv [of l s] by simp

lemma recovered_newest:
  assumes "enable_wal st" "1 \<le> skiplist_max_level st" "immutable_memtables st = []"
    and fin: "fin = (let mt = set_size_limit (cfg_memtable_size st) (st_memtable st)
           in if should_flush mt \<or> \<not> enable_wal st then
                     (let st2 = st\<lparr>immutable_memtables := alist_upd (current_wal_filename st) mt (immutable_memtables st),
                                    st_memtable := create_new_memtable st\<rparr>
                      in if enable_wal st then
                           (case open_new_wal_file now (st_wal st2) of (name, w) \<Rightarrow> st2\<lparr>current_wal_filename := name, st_wal := w\<rparr>)
                         else st2\<lparr>current_wal_filename := nat_to_string now\<rparr>)
                   else (case open_wal_file now (current_wal_filename st) (st_wal st) of
                           (name, w) \<Rightarrow> st\<lparr>st_memtable := mt, current_wal_filename := name, st_wal := w\<rparr>))"
  shows "newest fin = newest st"
proof (cases "should_flush (set_size_limit (cfg_memtable_size st) (st_memtable st))")
  case True
  let ?mt = "set_size_limit (cfg_memtable_size st) (st_memtable st)"
  have f: "st_memtable fin = create_new_memtable st" "immutable_memtables fin = [(current_wal_filename st, ?mt)]" "sstable_manager fin = sstable_manager st"
    using True assms by (simp_all add: fin Let_def split: prod.split)
  have "memtable_get k (st_memtable fin) = None" for k
    using assms(2) by (simp add: f create_new_memtable_def memtable_new_get_any)
  then show ?thesis
    using assms(3) by (simp add: fun_eq_iff newest_def old_view_def get_from_immutable_memtables_def f split: option.split)
next
  case False
  then show ?thesis using assms by (intro newest_core) (simp_all add: fin Let_def split: prod.split)
qed

text \<open>After a crash, a log whose records were all synced gives them all.\<close>

lemma wal_recover_synced:
  assumes w: "wal_state name rs (length rs) w" and n: "has_wal_extension name" and ok: "list_all record_ok rs" and crash: "crash_of (files w) fs"
  shows "fst (wal_recover (wal_new fs sync)) = map (\<lambda>r. (name, r)) rs"
proof -
  have f: "files w = [(name, \<lparr>content = log_bytes rs, synced = length (log_bytes rs)\<rparr>)]" using w by (simp add: wal_state_def)
  then obtain f where fs: "fs = [(name, f)]" using crash by (auto simp: crash_of_def)
  then have c: "content f = log_bytes rs" using crash f by (auto simp: crash_of_def)
  have "parse_records (log_bytes rs) = rs"
    using parse_all [OF ok, of "[]"] parse_records.simps [of "[]"] by (simp add: log_bytes_def)
  then show ?thesis
    using c n by (simp add: wal_recover_def wal_file_names_def wal_new_def fs Let_def)
qed

lemma restart:
  assumes st: "started name st" and ers: "list_all record_ok (map snd ers)" "wal_state name (map snd ers) (length ers) w0" "crash_of (files w0) fs"
    and st': "\<And>w. \<not> wal_open w \<Longrightarrow> replay name ers (recovering w st) = Inr (recovering w st')" "immutable_memtables st' = []" "enable_wal st'"
      "skiplist_max_level st' = skiplist_max_level st"
    and envs: "\<And>i. i < length ers \<Longrightarrow> envs i = fst (ers ! i)"
  shows "\<exists>s. storage_recover envs (st\<lparr>st_wal := wal_new fs sync\<rparr>) = Inr s \<and> newest s = newest st'"
proof -
  have name: "has_wal_extension name" and l: "1 \<le> skiplist_max_level st" using st by (simp_all add: started_def)
  let ?st = "st\<lparr>st_wal := wal_new fs sync\<rparr>"
  define w where "w = snd (wal_recover (wal_new fs sync))"
  have w: "\<not> wal_open w" by (simp add: w_def wal_recover_def Let_def)
  have "length (map snd ers) = length ers" by simp
  with wal_recover_synced [OF _ name ers(1,3), of sync] ers(2)
  have rs: "fst (wal_recover (wal_new fs sync)) = map (\<lambda>(env, r). (name, r)) ers" by (simp add: comp_def case_prod_beta)
  let ?init = "?st\<lparr>st_memtable := cancel_size_limit (create_new_memtable ?st), current_wal_filename := '''', st_wal := w\<rparr>"
  have start: "?init\<lparr>current_wal_filename := name\<rparr> = recovering w st"
    using st by (simp add: started_def recovering_def create_new_memtable_def)
  have "\<exists>st1. replay name ers ?init = Inr st1 \<and> newest st1 = newest st' \<and> enable_wal st1 \<and> 1 \<le> skiplist_max_level st1 \<and> immutable_memtables st1 = []"
  proof (cases ers)
    case Nil
    have "newest ?init = newest (recovering w st)" by (rule newest_core) (simp_all add: start [symmetric])
    moreover have "recovering w st' = recovering w st" using st'(1) [OF w] by (simp add: Nil)
    then have "newest (recovering w st) = newest st'" by (metis newest_recovering)
    ultimately show ?thesis using st by (simp add: Nil started_def)
  next
    case (Cons x xs)
    have "name \<noteq> []" using name by (auto simp: has_wal_extension_def)
    then have "replay name ers ?init = replay name ers (recovering w st)"
      unfolding start [symmetric] by (cases x) (simp add: Cons recover_record_def Let_def)
    then show ?thesis using st'(1) [OF w] st'(2-4) l by (intro exI [of _ "recovering w st'"]) simp
  qed
  then obtain st1 where r: "replay name ers ?init = Inr st1" "newest st1 = newest st'" "enable_wal st1" "1 \<le> skiplist_max_level st1" "immutable_memtables st1 = []"
    by blast
  have "recover_records envs 0 (fst (wal_recover (wal_new fs sync))) ?init = Inr st1"
    using replay_records [of ers envs 0 name ?init] r(1) envs by (simp only: rs) simp
  then show ?thesis
    using recovered_newest [OF r(3-5) refl, of "stamp (envs (length (fst (wal_recover (wal_new fs sync)))))"] r(2)
    by (simp add: storage_recover_def w_def case_prod_beta Let_def)
qed

text \<open>Environments taken from a list, with one for the time after it.\<close>

definition env_seq :: "env \<Rightarrow> env list \<Rightarrow> nat \<Rightarrow> env" where "env_seq env es i = (if i < length es then es ! i else env)"

lemma env_seq_mem: "set es \<subseteq> A \<Longrightarrow> env_seq env es i \<in> insert env A"
  by (auto simp: env_seq_def subset_iff)

lemma env_seq_nth: "i < length ers \<Longrightarrow> env_seq env (map fst ers) i = fst (ers ! i)"
  by (simp add: env_seq_def)

section \<open>Properties\<close>




lemma write_unlimited:
  assumes "memtable_size (st_memtable st) = 0"
  shows "write_memtable env k v st = (Inr True, st\<lparr>st_memtable := memtable_store (draws env 0) k v (st_memtable st)\<rparr>)"
  using assms by (simp add: write_memtable_def put_memtable_def memtable_put_def should_flush_def memtable_store_def Let_def)

lemma store_fresh_started: "started (generate_unique_filename 0) (store_fresh True)" "sync_on_write (st_wal (store_fresh True))"
  using generated_extension [of 0]
  by (simp_all add: started_def create_new_memtable_def wal_state_def, simp_all add: store_fresh_def open_wal_file_def wal_new_def wal_sync_def Let_def)

lemma crash_nothing: "(\<And>n f. (n, f) \<in> set fs \<Longrightarrow> synced f \<le> length (content f)) \<Longrightarrow> crash_of fs fs"
  unfolding crash_of_def by (metis nth_mem order_refl prod.collapse take_all)

lemma set_loggable:
  "\<forall>(env, view, t, args) \<in> set [(env_at 7 5, False, kSet, [''k'', ''v''])]. loggable view t args \<and> generate_unique_filename (stamp env) \<noteq> generate_unique_filename 0"
  by (simp add: loggable_def fits_def MAX_KEY_LEN_def MAX_PAYLOAD_LEN_def isWriteOperation_def write_types_def generate_unique_filename_def nat_to_string.simps digit_char_def)

lemma crash_state: "wal_state name rs (length rs) w \<Longrightarrow> crash_of (files w) (files w)"
  by (intro crash_nothing) (simp add: wal_state_def)

lemma run_set_witness:
  obtains st' where "run_commands regex [(env_at 7 5, False, kSet, [''k'', ''v''])] (store_fresh True) = Some st'"
    "current_wal_filename st' = generate_unique_filename 0" "enable_wal st'" "sync_on_write (st_wal st')"
    "wal_state (generate_unique_filename 0) [(kSet, ''k'', ser_evalue (mk_evalue (VString ''v'')))] 1 (st_wal st')"
proof -
  let ?v = "mk_evalue (VString ''v'')" and ?st1 = "snd (log_op kSet ''k'' (ser_evalue (mk_evalue (VString ''v''))) (store_fresh True))"
  have m: "memtable_size (st_memtable ?st1) = 0" by (simp add: log_op_def memtable_new_def split: prod.split)
  let ?st2 = "?st1\<lparr>st_memtable := memtable_store [] ''k'' ?v (st_memtable ?st1)\<rparr>"
  have c: "string_set (env_at 7 5) ''k'' ''v'' 0 (store_fresh True) = (Inr True, ?st2)"
    using write_unlimited [OF m, of "env_at 7 5" "''k''" ?v] by (simp add: string_set_def mk_evalue_def Let_def)
  have "closed (store_fresh True) = False" "read_only (store_fresh True) = False" by (simp_all add: store_fresh_def)
  then have run: "run_commands regex [(env_at 7 5, False, kSet, [''k'', ''v''])] (store_fresh True) = Some (invalidate_snapshot ?st2)"
    using c by (simp add: storage_execute_def catch_outer_def catch_all_def run_command_def processor_execute_def dispatch_simps string_execute_def
        success_bool_def success_def is_success_def isWriteOperation_def write_types_def response_new_def)
  have w: "wal_state (generate_unique_filename 0) [] 0 (st_wal (store_fresh True))" using store_fresh_started(1) by (simp add: started_def)
  have "wal_state (generate_unique_filename 0) [(kSet, ''k'', ser_evalue ?v)] 1 (st_wal ?st2)"
    using wal_state_append [OF w, of "(kSet, ''k'', ser_evalue ?v)"] store_fresh_started(2) by simp
  with run show thesis using store_fresh_started(2) by (intro that [of "invalidate_snapshot ?st2"]) simp_all
qed


lemma remove_logged:
  assumes "enable_wal st" "wal_open (st_wal st)"
  shows "\<exists>st'. storage_remove env [k] st = (Inr 1, st') \<and> st_wal st' = snd (write_record (kRemove, k, []) (st_wal st))"
proof -
  obtain w where "log_op kRemove k [] st = (True, st\<lparr>st_wal := w\<rparr>)" using log_op_ready [OF assms(2)] by blast
  then show ?thesis using assms(1) log_op_sel(6) [of kRemove k "[]" st] by (auto simp: storage_remove_def remove_one_def)
qed

text \<open>
  Recovery undoes removals. In the setting of the crash recovery theorem, when the run ends
  with a removal of a key, the removal is reported as done, its record is in the log, and the rebuilt
  store nevertheless has for every key the version from before the removal: during recovery no log
  file is open, \<open>append_log\<close> therefore fails, and \<open>Storage::remove\<close> skips a key it cannot log.
\<close>

theorem recovery_undoes_removal:
  assumes "started name st" "sync_on_write (st_wal st)" "run_commands regex cs st = Some st1" "current_wal_filename st1 = name"
    and "\<forall>(env, view, t, args) \<in> set cs. loggable view t args \<and> generate_unique_filename (stamp env) \<noteq> name"
    and "storage_remove env [k] st1 = (Inr n, st2)" "length k \<le> MAX_KEY_LEN" "crash_of (files (st_wal st2)) fs"
  shows "n = 1 \<and> (\<exists>envs s. storage_recover envs (st\<lparr>st_wal := wal_new fs sync\<rparr>) = Inr s \<and> newest s = newest st1)"
proof -
  have st: "enable_wal st" "current_wal_filename st = name" "wal_state name [] 0 (st_wal st)" "immutable_memtables st = []"
    using assms(1) by (simp_all add: started_def)
  obtain ers where ers: "list_all record_ok (map snd ers)" "immutable_memtables st1 = []"
    "wal_state name (map snd ers) (length ers) (st_wal st1)" "\<And>w. replay name ers (recovering w st) = Inr (recovering w st1)"
    "skiplist_max_level st1 = skiplist_max_level st" and sync1: "sync_on_write (st_wal st1)"
    using run_logged [OF assms(3) st(1,2) assms(4,5) st(3)] assms(2) st(4) by auto
  have w1: "enable_wal st1" by (rule run_wal [OF assms(3) st(1) assms(5)])
  let ?x = "(kRemove, k, []) :: wal_record" and ?ers = "ers @ [(env, (kRemove, k, []))]"
  have o: "wal_open (st_wal st1)" using ers(3) by (simp add: wal_state_def)
  have r: "n = 1" "st_wal st2 = snd (write_record ?x (st_wal st1))" using remove_logged [OF w1 o, of env k] assms(6) by auto
  have ws: "wal_state name (map snd ?ers) (length ?ers) (st_wal st2)"
    using wal_state_append [OF ers(3), of ?x] r(2) sync1 by simp
  have skip: "replay name ?ers (recovering w st) = Inr (recovering w st1)" if "\<not> wal_open w" for w
    using ers(4) [of w] assms(4) w1 that
    by (simp add: replay_append recover_record_def apply_record_def storage_remove_def remove_one_def log_op_closed Let_def)
  have "list_all record_ok (map snd ?ers)" using ers(1) assms(7) by (simp add: record_ok_def MAX_PAYLOAD_LEN_def)
  from restart [OF assms(1) this ws assms(8) skip ers(2) w1 ers(5), of "env_seq env (map fst ?ers)" sync]
    env_seq_nth [of _ ?ers env] r(1) show ?thesis by blast
qed

theorem recovery_undoes_removal_witness:
  "\<exists>st1 st2 envs s. run_commands (\<lambda>_. Inr (\<lambda>_. True)) [(env_at 7 5, False, kSet, [''k'', ''v''])] (store_fresh True) = Some st1 \<and>
     storage_remove (env_at 7 5) [''k''] st1 = (Inr 1, st2) \<and>
     storage_recover envs ((store_fresh True)\<lparr>st_wal := wal_new (files (st_wal st2)) True\<rparr>) = Inr s \<and> newest s = newest st1"
proof -
  obtain st1 where r: "run_commands (\<lambda>_. Inr (\<lambda>_. True)) [(env_at 7 5, False, kSet, [''k'', ''v''])] (store_fresh True) = Some st1"
    "current_wal_filename st1 = generate_unique_filename 0" "enable_wal st1" "sync_on_write (st_wal st1)"
    "wal_state (generate_unique_filename 0) [(kSet, ''k'', ser_evalue (mk_evalue (VString ''v'')))] 1 (st_wal st1)" by (rule run_set_witness)
  have o: "wal_open (st_wal st1)" using r(5) by (simp add: wal_state_def)
  obtain st2 where s: "storage_remove (env_at 7 5) [''k''] st1 = (Inr 1, st2)" "st_wal st2 = snd (write_record (kRemove, ''k'', []) (st_wal st1))"
    using remove_logged [OF r(3) o] by blast
  have c: "crash_of (files (st_wal st2)) (files (st_wal st2))"
    using wal_state_append [OF r(5), of "(kRemove, ''k'', [])"] r(4) s(2)
      crash_state [of "generate_unique_filename 0" "[(kSet, ''k'', ser_evalue (mk_evalue (VString ''v''))), (kRemove, ''k'', [])]" "st_wal st2"] by simp
  have k: "length ''k'' \<le> MAX_KEY_LEN" by (simp add: MAX_KEY_LEN_def)
  from recovery_undoes_removal [OF store_fresh_started r(1,2) set_loggable s(1) k c, of True] r(1) s(1) show ?thesis by blast
qed

section \<open>Rotation between the log record and the write\<close>

lemma rotated_files:
  assumes "wal_state name rs j w" "generate_unique_filename now \<noteq> name"
  shows "\<exists>f. files (snd (open_new_wal_file now w)) = [(name, f), (generate_unique_filename now, \<lparr>content = [], synced = 0\<rparr>)]"
proof -
  let ?w = "snd (wal_sync w)"
  have "wal_state name rs (length rs) ?w" by (rule wal_state_sync [OF assms(1)])
  then obtain f where f: "files ?w = [(name, f)]" by (auto simp: wal_state_def)
  have n: "generate_unique_filename now \<noteq> []" by (simp add: generate_unique_filename_def)
  show ?thesis using assms(2) n by (intro exI [of _ f]) (simp add: open_new_wal_file_def open_wal_file_def Let_def f)
qed

text \<open>Flushing one memtable deletes its log file.\<close>

lemma flush_one:
  assumes inv: "st_inv st" and imm: "immutable_memtables st = [(n, mt)]" and mt: "mt_size mt \<noteq> 0" "mt_storable mt"
    and q: "quiet 1 (sstable_manager st)" and w: "enable_wal st"
  shows "\<exists>st'. flush_memtable_to_sstable (Suc fuel) env st = Some (Inr st') \<and> immutable_memtables st' = [] \<and> st_memtable st' = st_memtable st \<and>
    st_wal st' = snd (wal_clear n (st_wal st)) \<and>
    (\<forall>k. mgr_view (sstable_manager st') k = (case memtable_get k mt of Some v \<Rightarrow> Some (evalue_norm v) | None \<Rightarrow> mgr_view (sstable_manager st) k))"
proof -
  have ok: "mt_ok mt" "mt_inv mt" and mi: "mgr_inv (sstable_manager st)" using inv by (simp_all add: st_inv_def imm mt_ok_def)
  have s: "storable (memtable_get_all_entries mt)" using mt by (simp add: mt_storable_def)
  have q': "quiet (Suc 0) (sstable_manager st)" using q by simp
  obtain t m' where m': "create_new_sstable (Suc fuel) (clock env) (memtable_get_all_entries mt) (sstable_manager st) = Some (Inr (Some t, m'))"
    "\<And>k. mgr_view m' k = (case memtable_get k mt of Some v \<Rightarrow> Some (evalue_norm v) | None \<Rightarrow> mgr_view (sstable_manager st) k)"
    using create_new_sstable_quiet [OF mi entries_nonempty [OF ok(1) mt(1)] s q', of fuel "clock env"] ok(2) by (auto simp: entries_spec)
  then show ?thesis using mt(1) w by (auto simp: flush_memtable_to_sstable_def imm)
qed

text \<open>
  A flush can discard the only trace of a logged write. When a \<open>SET\<close> meets a full active
  memtable, its record goes to the memtable's log file first, then the memtable is rotated and the
  value is stored in the new one. Flushing the rotated memtable deletes its log file, and with it the
  record: the write is acknowledged and visible, but neither in a table nor in the log, so a crash
  loses it.
\<close>

theorem flush_discards_logged_write:
  assumes "st_inv st" "clock_advances env st" "roomy st" "enable_wal st" "wal_state (current_wal_filename st) rs j (st_wal st)"
    and "should_flush (st_memtable st)" "mt_size (st_memtable st) \<noteq> 0" "mt_storable (st_memtable st)" "immutable_memtables st = []"
    and "quiet 1 (sstable_manager st)" "newest st k = None"
  shows "\<exists>st1 st2. string_set env k v ttl st = (Inr True, st1) \<and> flush_memtable_to_sstable (Suc fuel) env' st1 = Some (Inr st2) \<and>
    newest st2 k \<noteq> None \<and> mgr_view (sstable_manager st2) k = None \<and> immutable_memtables st2 = [] \<and>
    fst (wal_recover (wal_new (files (st_wal st2)) sync)) = []"
proof -
  let ?v = "\<lparr>evalue = VString v, deleted = False, expire_time = (if ttl = 0 then 0 else ucast (word_of_nat (clock env) + ttl))\<rparr> :: evalue"
  let ?n = "current_wal_filename st" and ?new = "generate_unique_filename (stamp env)"
  define sl where "sl = snd (log_op kSet k (ser_evalue ?v) st)"
  have sl: "sl = st\<lparr>st_wal := st_wal sl\<rparr>" by (simp add: sl_def log_op_def split: prod.split)
  have i: "st_inv sl" "clock_advances env sl" "should_flush (st_memtable sl)" "st_memtable sl = st_memtable st" "roomy sl"
    "immutable_memtables sl = []" "sstable_manager sl = sstable_manager st" "enable_wal sl" "current_wal_filename sl = ?n"
    using assms by (subst sl, simp)+
  have n: "?new \<noteq> ?n" using assms(2,4) by (auto simp: clock_advances_def rotated_name_def)
  obtain j' where "wal_state ?n (rs @ [(kSet, k, ser_evalue ?v)]) j' (st_wal sl)"
    using wal_state_append [OF assms(5), of "(kSet, k, ser_evalue ?v)"] by (auto simp: sl_def)
  from rotated_files [OF this n] obtain f where f: "files (snd (open_new_wal_file (stamp env) (st_wal sl))) = [(?n, f), (?new, \<lparr>content = [], synced = 0\<rparr>)]" by blast
  let ?r = "rotate_memtable env sl"
  note sel = rotate_sel [OF i(1), of env] and rs = rotate_spec [OF i(1,2)]
  have wr: "st_wal ?r = snd (open_new_wal_file (stamp env) (st_wal sl))" using i(8) by (simp add: rotate_memtable_def Let_def split: prod.split)
  have nf: "\<not> should_flush (st_memtable ?r)" using i(5) by (simp add: roomy_def sel)
  obtain mt where mt: "put_memtable env k ?v ?r = (Inr (), ?r\<lparr>st_memtable := mt\<rparr>)" "mt_ok mt"
    "\<And>k'. memtable_get k' mt = (if k' = k then Some ?v else memtable_get k' (st_memtable ?r))"
    using put_memtable_ok [OF rs(1) nf] by blast
  let ?st1 = "?r\<lparr>st_memtable := mt\<rparr>"
  have full: "put_memtable env k ?v sl = (Inl (OverflowError ''MemTable size exceeds limit''), sl)"
    using i(3) by (simp add: put_memtable_def memtable_put_def)
  have "write_memtable env k ?v sl = (Inr True, ?st1)" using full mt(1) by (simp add: write_memtable_def)
  then have set: "string_set env k v ttl st = (Inr True, ?st1)" using assms(4) by (simp add: string_set_def Let_def sl_def)
  have imm: "immutable_memtables ?st1 = [(?n, st_memtable st)]" "quiet 1 (sstable_manager ?st1)" "enable_wal ?st1"
    "mgr_view (sstable_manager ?st1) k = mgr_view (sstable_manager st) k"
    using assms(10) i sel by simp_all
  obtain st2 where st2: "flush_memtable_to_sstable (Suc fuel) env' ?st1 = Some (Inr st2)" "immutable_memtables st2 = []" "st_memtable st2 = mt"
    "st_wal st2 = snd (wal_clear ?n (st_wal ?r))"
    "\<And>k. mgr_view (sstable_manager st2) k = (case memtable_get k (st_memtable st) of Some v \<Rightarrow> Some (evalue_norm v) | None \<Rightarrow> mgr_view (sstable_manager ?st1) k)"
    using flush_one [OF st_inv_memtable [OF rs(1) mt(2)] imm(1) assms(7,8) imm(2,3), of fuel env'] by auto
  have none: "memtable_get k (st_memtable st) = None" "mgr_view (sstable_manager st) k = None"
    using assms(11) by (auto simp: newest_def old_view_def split: option.splits)
  have "files (st_wal st2) = [(?new, \<lparr>content = [], synced = 0\<rparr>)]" using n by (simp add: st2(4) wr wal_clear_def Let_def f)
  then have "fst (wal_recover (wal_new (files (st_wal st2)) sync)) = []"
    by (simp add: wal_recover_def wal_file_names_def wal_new_def Let_def parse_records.simps [of "[]"])
  moreover have "newest st2 k \<noteq> None" using mt(3) [of k] by (simp add: newest_def st2(3))
  moreover have "mgr_view (sstable_manager st2) k = None" using st2(5) [of k] none imm(4) by simp
  ultimately show ?thesis using set st2(1,2) by blast
qed

definition one_entry_table :: memtable where
  "one_entry_table = memtable_store [] ''a'' (mk_evalue (VString ''v'')) (memtable_new 0 16)"

lemma one_entry_usage: "memtable_memory_usage one_entry_table = 1257058" "mt_size one_entry_table = 1"
proof -
  have c: "current_size (sl_insert mops [] ''a'' (mk_evalue (VString ''v'')) (sl_new mops 16)) = 946"
    "sl_size (sl_insert mops [] ''a'' (mk_evalue (VString ''v'')) (sl_new mops 16)) = 1"
    "current_size (sl_new mops 16) = 400" by code_simp+
  have "sl_size (sl_new mops 16) = 0" by (simp add: sl_new_def)
  have "get_shard_index ''a'' = 6" by code_simp
  then show "memtable_memory_usage one_entry_table = 1257058" "mt_size one_entry_table = 1"
    using c \<open>sl_size (sl_new mops 16) = 0\<close> by (simp_all add: one_entry_table_def memtable_store_def memtable_memory_usage_def memtable_new_def shard_bloom_def bloom_new_def SSTABLE_BLOOM_BITS_PER_KEY_def
      k_num_shards_def upt_rec sizeof_memtable_def Let_def nth_list_update)
qed

lemma limit_ok: "mt_ok (set_size_limit s mt) = mt_ok mt" "memtable_get_all_entries (set_size_limit s mt) = memtable_get_all_entries mt"
  "mt_size (set_size_limit s mt) = mt_size mt" "memtable_memory_usage (set_size_limit s mt) = memtable_memory_usage mt"
  by (simp_all add: mt_ok_def mt_inv_def mt_stable_def mt_cell_def set_size_limit_def memtable_get_all_entries_def memtable_memory_usage_def cong: option.case_cong)

lemma one_entry_table_ok:
  "mt_ok one_entry_table" "memtable_get k one_entry_table = (if k = ''a'' then Some (mk_evalue (VString ''v'')) else None)"
  using store_ok [OF new_ok [of 16 0], of "[]" "''a''"] store_get [OF new_ok [of 16 0]]
  by (simp_all add: one_entry_table_def)

theorem flush_discards_logged_write_witness:
  "let st = (store_fresh True)\<lparr>st_memtable := set_size_limit 1000000 one_entry_table\<rparr> in
   \<exists>st1 st2. string_set (env_at 7 5) ''k'' ''v'' 0 st = (Inr True, st1) \<and> flush_memtable_to_sstable 1 (env_at 7 5) st1 = Some (Inr st2) \<and>
     newest st2 ''k'' \<noteq> None \<and> mgr_view (sstable_manager st2) ''k'' = None \<and> fst (wal_recover (wal_new (files (st_wal st2)) True)) = []"
proof -
  let ?mt = "set_size_limit 1000000 one_entry_table"
  let ?st = "(store_fresh True)\<lparr>st_memtable := ?mt\<rparr>"
  have ok: "mt_ok ?mt" by (simp add: limit_ok one_entry_table_ok)
  have 1: "st_inv ?st" by (rule st_inv_memtable [OF store_fresh_inv ok])
  have 2: "clock_advances (env_at 7 5) ?st" "roomy ?st" "enable_wal ?st" "immutable_memtables ?st = []" by simp_all
  have 3: "wal_state (current_wal_filename ?st) [] 0 (st_wal ?st)" using store_fresh_started(1) by (simp add: started_def)
  have 4: "should_flush (st_memtable ?st)" using one_entry_usage by (simp add: should_flush_def limit_ok) (simp add: set_size_limit_def)
  have 5: "mt_size (st_memtable ?st) \<noteq> 0" by (simp add: limit_ok one_entry_usage)
  have "memtable_get_all_entries one_entry_table = [(''a'', mk_evalue (VString ''v''))]"
    by (rule one_entry [OF one_entry_table_ok(1)]) (simp add: one_entry_table_ok)
  then have 6: "mt_storable (st_memtable ?st)" by (simp add: mt_storable_def storable_simps limit_ok)
  have 7: "quiet 1 (sstable_manager ?st)" by (simp add: quiet_def mgr_fresh_def)
  have 8: "newest ?st ''k'' = None" using store_fresh_newest(2) [of True "''k''"] by (simp add: newest_def one_entry_table_ok)
  show ?thesis
    using flush_discards_logged_write [OF 1 2(1-3) 3 4 5 6 2(4) 7 8, of "''v''" 0 0 "env_at 7 5" True] unfolding Let_def by auto
qed

end
