(* ===== verification/Checkpoint.thy ===== *)
theory Checkpoint
  imports Engine
begin

text \<open>
  Checkpoints of the store (\<open>storage.cpp\<close>, \<open>create_checkpoint\<close>, \<open>restore_from_checkpoint\<close>,
  \<open>clear_and_backup_data\<close>): everything in memory is flushed, the table files are packed into an
  archive, and a store is rebuilt from the files of one. \<open>Archiver\<close> is a library outside the
  repository and a parameter; an archive is the bytes it makes of a list of named files. Each
  operation flushes first, so it takes the fuel of \<open>force_flush\<close>. The code catches an exception of the
  flush and reports failure on a store that is flushed in part; the model returns the exception.
\<close>

record archiver =
  compressDir :: "(string \<times> bytes) list \<Rightarrow> bytes res"
  extractTo :: "bytes \<Rightarrow> (string \<times> bytes) list res"

type_synonym archive_dir = "(string \<times> bytes) list"

definition flush_all :: "nat \<Rightarrow> env \<Rightarrow> storage \<Rightarrow> storage res option" where
  "flush_all fuel env st =
     (if mt_size (st_memtable st) = 0 \<and> immutable_memtables st = [] then Some (Inr st) else force_flush fuel env st)"

definition checkpoint_name :: "nat \<Rightarrow> string" where
  "checkpoint_name ms = ''checkpoint_'' @ nat_to_string ms @ ''.tar.gz''"

definition extra_meta :: string where "extra_meta = ''extra_meta.bin''"

text \<open>The result: whether it succeeded, the path of the archive, the archives on disk and the store.\<close>

definition create_checkpoint ::
  "archiver \<Rightarrow> nat \<Rightarrow> env \<Rightarrow> nat \<Rightarrow> bytes \<Rightarrow> archive_dir \<Rightarrow> storage \<Rightarrow> (bool \<times> string \<times> archive_dir \<times> storage) res option" where
  "create_checkpoint ar fuel env ms extra_meta_data arcs st =
     (if extra_meta_data \<noteq> [] \<and> snapshot_cache_valid st \<and> snapshot_cache_path st \<noteq> []
      then Some (Inr (True, snapshot_cache_path st, arcs, st))
      else case flush_all fuel env st of
             None \<Rightarrow> None
           | Some (Inl e) \<Rightarrow> Some (Inl e)
           | Some (Inr st1) \<Rightarrow>
               let sst = sst_dir (sstable_manager st1);
                   dest = (if extra_meta_data \<noteq> [] then AList.update extra_meta extra_meta_data sst else sst);
                   path = checkpoint_name ms
               in case compressDir ar dest of
                    Inl UB \<Rightarrow> Some (Inl UB)
                  | Inl _ \<Rightarrow> Some (Inr (False, path, arcs, st1))
                  | Inr data \<Rightarrow>
                      let st2 = st1\<lparr>snapshot_files := path # removeAll path (snapshot_files st1)\<rparr>;
                          st3 = (if extra_meta_data \<noteq> [] then st2\<lparr>snapshot_cache_path := path, snapshot_cache_valid := True\<rparr> else st2)
                      in Some (Inr (True, path, AList.update path data arcs, st3)))"

text \<open>A manager over a directory, with the configuration of the one it replaces.\<close>

definition reopen_manager :: "nat \<Rightarrow> env \<Rightarrow> (string \<times> bytes) list \<Rightarrow> sst_manager \<Rightarrow> sst_manager res option" where
  "reopen_manager fuel env d m = mgr_new fuel (clock env) (merge_strategy m) (merge_threshold m) (level_full m) d"

text \<open>
  When the archive cannot be unpacked, the directory is already empty: the exception handler opens a
  manager on it and reports failure.
\<close>

definition restore_from_checkpoint ::
  "archiver \<Rightarrow> nat \<Rightarrow> env \<Rightarrow> bytes option \<Rightarrow> storage \<Rightarrow> (bool \<times> bytes \<times> storage) res option" where
  "restore_from_checkpoint ar fuel env tar st =
     (case tar of
        None \<Rightarrow> Some (Inr (False, [], st))
      | Some data \<Rightarrow>
          (case flush_all fuel env st of
             None \<Rightarrow> None
           | Some (Inl e) \<Rightarrow> Some (Inl e)
           | Some (Inr st1) \<Rightarrow>
               (case extractTo ar data of
                  Inl UB \<Rightarrow> Some (Inl UB)
                | Inl _ \<Rightarrow>
                    map_option (\<lambda>r. rbind r (\<lambda>m. Inr (False, [], st1\<lparr>sstable_manager := m\<rparr>)))
                      (reopen_manager fuel env [] (sstable_manager st1))
                | Inr fs \<Rightarrow>
                    map_option (\<lambda>r. rbind r (\<lambda>m.
                        case map_of (sst_dir m) extra_meta of
                          Some extra \<Rightarrow> Inr (True, extra, st1\<lparr>sstable_manager := m\<lparr>sst_dir := AList.delete extra_meta (sst_dir m)\<rparr>\<rparr>)
                        | None \<Rightarrow> Inr (True, [], st1\<lparr>sstable_manager := m\<rparr>)))
                      (reopen_manager fuel env fs (sstable_manager st1)))))"

text \<open>
  \<open>wal_inside\<close> says whether the log directory lies in the data directory, which is renamed. The log
  object is replaced only when logging is enabled.
\<close>

definition clear_and_backup_data :: "bool \<Rightarrow> nat \<Rightarrow> env \<Rightarrow> storage \<Rightarrow> (bool \<times> storage) res option" where
  "clear_and_backup_data wal_inside fuel env st =
     (if storage_empty st then Some (Inr (True, st))
      else case flush_all fuel env st of
             None \<Rightarrow> None
           | Some (Inl e) \<Rightarrow> Some (Inl e)
           | Some (Inr st1) \<Rightarrow>
               let w1 = (if current_wal_filename st1 \<noteq> [] then snd (wal_clear (current_wal_filename st1) (st_wal st1)) else st_wal st1);
                   w2 = wal_new (if wal_inside then [] else files w1) (sync_on_write w1)
               in map_option (\<lambda>r. rbind r (\<lambda>m.
                    let st2 = st1\<lparr>sstable_manager := m\<rparr>
                    in if enable_wal st2
                       then (case open_new_wal_file (stamp env) w2 of (name, w3) \<Rightarrow>
                               Inr (True, st2\<lparr>st_wal := w3, current_wal_filename := name\<rparr>))
                       else Inr (True, st2\<lparr>st_wal := w1\<rparr>)))
                    (reopen_manager fuel env [] (sstable_manager st1)))"


text \<open>
  \<open>clear_and_backup_data\<close> can leave everything in place and report success: a flush does not count
  the table it writes, so a store whose data are all in such tables calls itself empty.
\<close>

theorem clear_keeps_flushed_data:
  "\<exists>st st'. st_inv st \<and> clear_and_backup_data wal_inside fuel env st = Some (Inr (True, st)) \<and>
     storage_get (env_at 7 5) ''k'' st = (Inr (Some (VString ''v'')), st')"
  using flushed_store_looks_empty unfolding clear_and_backup_data_def by metis

end
