(* ===== verification/RaftProtocol.thy ===== *)
theory RaftProtocol
  imports Serializer
begin

text \<open>
  The messages the Raft nodes exchange, \<open>include/raft/protocol/protocol.h\<close>, with the node
  addresses of \<open>include/common/socket/socket.h\<close>: one record per message body, the message
  with its optional bodies, the factory functions, and the byte encodings with their decoders.

  The encodings are put together from those of integers, strings and addresses. The locale
  \<open>codec_upto\<close> carries the proofs: sequences, counted lists and images of codecs are codecs
  again, so each body is one application of these rules.
\<close>

unbundle bit_operations_syntax

type_synonym u16 = "16 word"

section \<open>Integers on the wire\<close>

definition be16 :: "u16 \<Rightarrow> bytes" where "be16 w = rev (le_bytes 2 (unat w))"
definition of_be16 :: "bytes \<Rightarrow> u16" where "of_be16 bs = word_of_nat (le_value (rev bs))"

lemma length_be16 [simp]: "length (be16 w) = 2"
  by (simp add: be16_def)

lemma of_be16_be16 [simp, codec_simps]: "of_be16 (be16 w) = w"
proof -
  have "unat w < 256 ^ 2" using unat_bound [of w] by simp
  then show ?thesis by (simp add: of_be16_def be16_def le_value_le_bytes del: le_bytes.simps)
qed

definition dec_u32 :: "u32 decoder" where
  "dec_u32 data off = rbind (read_bytes data off 4) (\<lambda>b. Inr (of_be32 b, off + 4))"

definition dec_u16 :: "u16 decoder" where
  "dec_u16 data off = rbind (read_bytes data off 2) (\<lambda>b. Inr (of_be16 b, off + 2))"

definition enc_bool :: "bool \<Rightarrow> bytes" where
  "enc_bool b = byte8 (if b then 1 else 0)"

definition dec_bool :: "bool decoder" where
  "dec_bool data off = rbind (read_bytes data off 1) (\<lambda>b. Inr (of_byte8 b \<noteq> 0, off + 1))"

interpretation cu32: codec be32 dec_u32 "\<lambda>_. True"
  by unfold_locales (simp add: dec_u32_def read_bytes_append)

interpretation cu16: codec be16 dec_u16 "\<lambda>_. True"
  by unfold_locales (simp add: dec_u16_def read_bytes_append)

interpretation cbool: codec enc_bool dec_bool "\<lambda>_. True"
  by unfold_locales (simp add: dec_bool_def enc_bool_def read_bytes_append)

section \<open>Codecs put together\<close>

definition dec_counted :: "'a decoder \<Rightarrow> 'a list decoder" where
  "dec_counted d data off =
     rbind (deserialize_count data off) (\<lambda>(n, off1). dec_n n d data off1)"

definition enc_seq :: "('a \<Rightarrow> bytes) \<Rightarrow> ('b \<Rightarrow> bytes) \<Rightarrow> 'a \<times> 'b \<Rightarrow> bytes" where
  "enc_seq e f p = e (fst p) @ f (snd p)"

definition ok_both :: "('a \<Rightarrow> bool) \<Rightarrow> ('b \<Rightarrow> bool) \<Rightarrow> 'a \<times> 'b \<Rightarrow> bool" where
  "ok_both P Q p \<longleftrightarrow> P (fst p) \<and> Q (snd p)"

definition enc_counted :: "('a \<Rightarrow> bytes) \<Rightarrow> 'a list \<Rightarrow> bytes" where
  "enc_counted e xs = be32 (word_of_nat (length xs)) @ concat (map e xs)"

definition ok_counted :: "('a \<Rightarrow> bool) \<Rightarrow> 'a list \<Rightarrow> bool" where
  "ok_counted P xs \<longleftrightarrow> length xs < 2 ^ 32 \<and> list_all P xs"

lemma codec_seq:
  assumes "codec_upto e d ok n" "codec_upto e' d' ok' n'"
  shows "codec_upto (enc_seq e e') (dec_pair d d') (ok_both ok ok') (map_prod n n')"
proof
  fix x pre post
  assume ok: "ok_both ok ok' x"
  let ?data = "pre @ enc_seq e e' x @ post"
  have "d ?data (length pre) = Inr (n (fst x), length (pre @ e (fst x)))"
    using codec_upto.dec_norm_at [OF assms(1), of "fst x" ?data pre "e' (snd x) @ post"] ok
    by (simp add: ok_both_def enc_seq_def)
  moreover have "d' ?data (length (pre @ e (fst x))) = Inr (n' (snd x), length pre + length (enc_seq e e' x))"
    using codec_upto.dec_norm_at [OF assms(2), of "snd x" ?data "pre @ e (fst x)" post] ok
    by (simp add: ok_both_def enc_seq_def)
  ultimately show "dec_pair d d' ?data (length pre) = Inr (map_prod n n' x, length pre + length (enc_seq e e' x))"
    by (cases x) (simp add: dec_pair_def)
qed

lemma codec_counted:
  assumes "codec_upto e d ok n"
  shows "codec_upto (enc_counted e) (dec_counted d) (ok_counted ok) (map n)"
proof
  fix xs pre post
  assume ok: "ok_counted ok xs"
  let ?c = "be32 (word_of_nat (length xs))" and ?data = "pre @ enc_counted e xs @ post"
  have "deserialize_count ?data (length pre) = Inr (length xs, length (pre @ ?c))"
    using deserialize_count_at [of ?data pre "length xs"] ok by (simp add: ok_counted_def enc_counted_def)
  moreover have "dec_n (length xs) d ?data (length (pre @ ?c)) = Inr (map n xs, length pre + length (enc_counted e xs))"
    using codec_upto.dec_n_norm_at [OF assms, of xs ?data "pre @ ?c" post] ok
    by (simp add: ok_counted_def enc_counted_def)
  ultimately show "dec_counted d ?data (length pre) = Inr (map n xs, length pre + length (enc_counted e xs))"
    by (simp add: dec_counted_def)
qed

text \<open>A record is written as the tuple of its fields and built from the tuple that is read.\<close>

lemma codec_image:
  assumes "codec_upto e d ok n"
    and "\<And>x. ok' x \<Longrightarrow> ok (dest x) \<and> mk (n (dest x)) = n' x" and "\<And>x. e' x = e (dest x)"
  shows "codec_upto e' (map_dec mk d) ok' n'"
proof
  fix x pre post
  assume "ok' x"
  then show "map_dec mk d (pre @ e' x @ post) (length pre) = Inr (n' x, length pre + length (e' x))"
    using codec_upto.map_dec_at [OF assms(1), of "dest x" "pre @ e' x @ post" pre post "length pre" mk] assms(2,3)
    by simp
qed

text \<open>A decoder that chooses the rest by what it has read.\<close>

lemma dec_then_at:
  assumes "codec_upto e d ok n" and "ok x" and "data = pre @ e x @ post"
  shows "rbind (d data (length pre)) k = k (n x, length (pre @ e x))"
  using codec_upto.dec_norm_at [OF assms(1,2,3) refl] by simp

lemmas wire_codecs = cu32.upto.codec_upto_axioms cu16.upto.codec_upto_axioms cbool.upto.codec_upto_axioms
  str.upto.codec_upto_axioms

section \<open>Addresses\<close>

text \<open>The port is a C++ \<open>int\<close>: a 32-bit word, read as a signed number where it is printed.\<close>

record address =
  host :: string
  port :: u32

definition null_address :: address where
  "null_address = \<lparr>host = '''', port = 0\<rparr>"

definition is_null :: "address \<Rightarrow> bool" where
  "is_null a \<longleftrightarrow> host a = '''' \<and> port a = 0"

definition address_to_string :: "address \<Rightarrow> string" where
  "address_to_string a = host a @ '':'' @ int_to_string (sint (port a))"

definition ser_address :: "address \<Rightarrow> bytes" where
  "ser_address a = be32 (word_of_nat (length (host a))) @ host a @ be32 (port a)"

definition deserialize_address :: "address decoder" where
  "deserialize_address data off =
     rbind (read_bytes data off 4) (\<lambda>host_len.
       let n = unat (of_be32 host_len) in
       rbind (read_bytes data (off + 4) n) (\<lambda>h.
       rbind (read_bytes data (off + 4 + n) 4) (\<lambda>port_net.
         Inr (\<lparr>host = h, port = of_be32 port_net\<rparr>, off + 4 + n + 4))))"

definition address_ok :: "address \<Rightarrow> bool" where
  "address_ok a \<longleftrightarrow> string_ok (host a)"

lemma is_null_iff: "is_null a \<longleftrightarrow> a = null_address"
  by (cases a) (auto simp: is_null_def null_address_def)

lemma deserialize_address_seq:
  "deserialize_address = map_dec (\<lambda>(h, p). \<lparr>host = h, port = p\<rparr>) (dec_pair deserializeString dec_u32)"
  by (auto simp: fun_eq_iff deserialize_address_def map_dec_def dec_pair_def deserializeString_def dec_u32_def Let_def rbind_def
      split: sum.split)

interpretation addr: codec_upto ser_address deserialize_address address_ok "\<lambda>a. a"
  unfolding deserialize_address_seq
  by (rule codec_image [OF codec_seq [OF wire_codecs(4,1)], where dest = "\<lambda>a. (host a, port a)"])
    (auto simp: address_ok_def ok_both_def enc_seq_def ser_address_def ser_string_def)

text \<open>\<open>std::unordered_set\<close> of addresses or sockets: a list without repetitions, new elements last.\<close>

definition aset_insert :: "'a \<Rightarrow> 'a list \<Rightarrow> 'a list" where
  "aset_insert x s = (if x \<in> set s then s else s @ [x])"

definition aset_erase :: "'a \<Rightarrow> 'a list \<Rightarrow> 'a list" where
  "aset_erase x s = filter (\<lambda>y. y \<noteq> x) s"

lemma aset_props [simp]:
  "set (aset_insert x s) = insert x (set s)" "set (aset_erase x s) = set s - {x}"
  "distinct s \<Longrightarrow> distinct (aset_insert x s)" "distinct s \<Longrightarrow> distinct (aset_erase x s)"
  by (auto simp: aset_insert_def aset_erase_def)

lemma fold_aset_insert: "distinct (s @ xs) \<Longrightarrow> fold aset_insert xs s = s @ xs"
  by (induction xs arbitrary: s) (auto simp: aset_insert_def)

section \<open>Log entries\<close>

record log_entry =
  le_term :: u32
  le_index :: u32
  le_command_type :: u32
  le_cmd :: string
  le_timestamp :: u64
  le_request_id :: string

definition log_entry_new :: log_entry where
  "log_entry_new = \<lparr>le_term = 0, le_index = 0, le_command_type = 0, le_cmd = '''', le_timestamp = 0, le_request_id = ''''\<rparr>"

definition make_log_entry :: "u32 \<Rightarrow> u32 \<Rightarrow> string \<Rightarrow> string \<Rightarrow> u64 \<Rightarrow> u32 \<Rightarrow> log_entry" where
  "make_log_entry t i c rid ts cmd_type =
     \<lparr>le_term = t, le_index = i, le_command_type = cmd_type, le_cmd = c, le_timestamp = ts, le_request_id = rid\<rparr>"

definition timestamp_high :: "u64 \<Rightarrow> u32" where
  "timestamp_high ts = ucast (drop_bit 32 ts)"

definition timestamp_low :: "u64 \<Rightarrow> u32" where
  "timestamp_low ts = ucast (ts AND 0xFFFFFFFF)"

definition timestamp_join :: "u32 \<Rightarrow> u32 \<Rightarrow> u64" where
  "timestamp_join hi lo = push_bit 32 (ucast hi) OR ucast lo"

definition ser_log_entry :: "log_entry \<Rightarrow> bytes" where
  "ser_log_entry e = be32 (le_term e) @ be32 (le_index e) @ be32 (le_command_type e) @
     be32 (timestamp_high (le_timestamp e)) @ be32 (timestamp_low (le_timestamp e)) @
     ser_string (le_cmd e) @ ser_string (le_request_id e)"

definition deserialize_log_entry :: "log_entry decoder" where
  "deserialize_log_entry = map_dec
     (\<lambda>(t, i, ct, hi, lo, c, rid).
        \<lparr>le_term = t, le_index = i, le_command_type = ct, le_cmd = c, le_timestamp = timestamp_join hi lo, le_request_id = rid\<rparr>)
     (dec_pair dec_u32 (dec_pair dec_u32 (dec_pair dec_u32 (dec_pair dec_u32 (dec_pair dec_u32
       (dec_pair deserializeString deserializeString))))))"

text \<open>\<open>operator==\<close> compares neither the time stamp nor the command type; \<open>operator<\<close> orders by index only.\<close>

definition log_entry_eq :: "log_entry \<Rightarrow> log_entry \<Rightarrow> bool" where
  "log_entry_eq a b \<longleftrightarrow> le_term a = le_term b \<and> le_index a = le_index b \<and> le_cmd a = le_cmd b \<and> le_request_id a = le_request_id b"

definition log_entry_less :: "log_entry \<Rightarrow> log_entry \<Rightarrow> bool" where
  "log_entry_less a b \<longleftrightarrow> le_index a < le_index b"

definition log_entry_ok :: "log_entry \<Rightarrow> bool" where
  "log_entry_ok e \<longleftrightarrow> string_ok (le_cmd e) \<and> string_ok (le_request_id e)"

lemma timestamp_parts [simp]: "timestamp_join (timestamp_high ts) (timestamp_low ts) = ts"
proof (rule bit_word_eqI)
  fix n
  assume n: "n < LENGTH(64)"
  have mask: "bit (0xFFFFFFFF :: u64) n \<longleftrightarrow> n < 32"
    using bit_mask_iff [of 32 n, where 'a = u64] n by (simp add: mask_eq_exp_minus_1)
  show "bit (timestamp_join (timestamp_high ts) (timestamp_low ts)) n = bit ts n"
    using n mask
    by (auto simp: timestamp_join_def timestamp_high_def timestamp_low_def bit_or_iff bit_push_bit_iff bit_ucast_iff bit_drop_bit_eq bit_and_iff)
qed

interpretation lge: codec_upto ser_log_entry deserialize_log_entry log_entry_ok "\<lambda>e. e"
  unfolding deserialize_log_entry_def
  by (rule codec_image [OF codec_seq [OF wire_codecs(1) codec_seq [OF wire_codecs(1) codec_seq [OF wire_codecs(1)
        codec_seq [OF wire_codecs(1) codec_seq [OF wire_codecs(1) codec_seq [OF wire_codecs(4,4)]]]]]],
      where dest = "\<lambda>e. (le_term e, le_index e, le_command_type e, timestamp_high (le_timestamp e),
        timestamp_low (le_timestamp e), le_cmd e, le_request_id e)"])
    (auto simp: log_entry_ok_def ok_both_def enc_seq_def ser_log_entry_def)

text \<open>
  \<open>std::set<LogEntry>\<close>: the entries in increasing index order, at most one per index; \<open>insert\<close>
  leaves a set that already has the index as it is.
\<close>

fun entry_set_insert :: "log_entry \<Rightarrow> log_entry list \<Rightarrow> log_entry list" where
  "entry_set_insert e [] = [e]"
| "entry_set_insert e (x # xs) =
     (if log_entry_less x e then x # entry_set_insert e xs
      else if log_entry_less e x then e # x # xs else x # xs)"

definition entry_set :: "log_entry list \<Rightarrow> log_entry list" where
  "entry_set es = fold entry_set_insert es []"

definition entries_sorted :: "log_entry list \<Rightarrow> bool" where
  "entries_sorted es \<longleftrightarrow> sorted_wrt log_entry_less es"

lemma entry_set_insert_last: "\<forall>x \<in> set xs. log_entry_less x e \<Longrightarrow> entry_set_insert e xs = xs @ [e]"
  by (induction xs) auto

lemma fold_entry_set_insert: "entries_sorted (xs @ es) \<Longrightarrow> fold entry_set_insert es xs = xs @ es"
proof (induction es arbitrary: xs)
  case (Cons e es)
  then have "entry_set_insert e xs = xs @ [e]"
    by (intro entry_set_insert_last) (auto simp: entries_sorted_def sorted_wrt_append)
  with Cons.IH [of "xs @ [e]"] Cons.prems show ?case by simp
qed simp

lemma entry_set_sorted: "entries_sorted es \<Longrightarrow> entry_set es = es"
  using fold_entry_set_insert [of "[]" es] by (simp add: entry_set_def)

lemma entry_set_insert_sorted:
  "entries_sorted xs \<Longrightarrow> entries_sorted (entry_set_insert e xs) \<and> set (entry_set_insert e xs) \<subseteq> insert e (set xs)"
  by (induction xs) (auto simp: entries_sorted_def log_entry_less_def)

section \<open>Message bodies\<close>

record request_vote_data =
  last_log_index :: u32
  last_log_term :: u32

definition ser_request_vote_data :: "request_vote_data \<Rightarrow> bytes" where
  "ser_request_vote_data d = be32 (last_log_index d) @ be32 (last_log_term d)"

definition deserialize_request_vote_data :: "request_vote_data decoder" where
  "deserialize_request_vote_data = map_dec (\<lambda>(i, t). \<lparr>last_log_index = i, last_log_term = t\<rparr>) (dec_pair dec_u32 dec_u32)"

record request_vote_response_data =
  vote_granted :: bool

definition ser_request_vote_response_data :: "request_vote_response_data \<Rightarrow> bytes" where
  "ser_request_vote_response_data d = enc_bool (vote_granted d)"

definition deserialize_request_vote_response_data :: "request_vote_response_data decoder" where
  "deserialize_request_vote_response_data = map_dec (\<lambda>b. \<lparr>vote_granted = b\<rparr>) dec_bool"

record append_entries_data =
  prev_log_index :: u32
  prev_log_term :: u32
  ae_entries :: "log_entry list option"
  leader_commit :: u32

definition make_append_entries_data :: "u32 \<Rightarrow> u32 \<Rightarrow> u32 \<Rightarrow> append_entries_data" where
  "make_append_entries_data prev_idx prev_term commit =
     \<lparr>prev_log_index = prev_idx, prev_log_term = prev_term, ae_entries = None, leader_commit = commit\<rparr>"

definition ser_append_entries_data :: "append_entries_data \<Rightarrow> bytes" where
  "ser_append_entries_data d = be32 (prev_log_index d) @ be32 (prev_log_term d) @
     (case ae_entries d of
        Some es \<Rightarrow> be32 (word_of_nat (length es)) @ concat (map ser_log_entry es)
      | None \<Rightarrow> be32 0) @
     be32 (leader_commit d)"

definition deserialize_append_entries_data :: "append_entries_data decoder" where
  "deserialize_append_entries_data = map_dec
     (\<lambda>(i, t, es, c). (make_append_entries_data i t c)\<lparr>ae_entries := if es = [] then None else Some (entry_set es)\<rparr>)
     (dec_pair dec_u32 (dec_pair dec_u32 (dec_pair (dec_counted deserialize_log_entry) dec_u32)))"

record append_entries_response_data =
  aer_success :: bool
  log_index :: u32

definition ser_append_entries_response_data :: "append_entries_response_data \<Rightarrow> bytes" where
  "ser_append_entries_response_data d = enc_bool (aer_success d) @ be32 (log_index d)"

definition deserialize_append_entries_response_data :: "append_entries_response_data decoder" where
  "deserialize_append_entries_response_data =
     map_dec (\<lambda>(s, i). \<lparr>aer_success = s, log_index = i\<rparr>) (dec_pair dec_bool dec_u32)"

record cluster_metadata =
  cluster_nodes :: "address list"
  current_leader :: address
  cluster_version :: u32

definition cluster_metadata_new :: cluster_metadata where
  "cluster_metadata_new = \<lparr>cluster_nodes = [], current_leader = null_address, cluster_version = 0\<rparr>"

definition ser_cluster_metadata :: "cluster_metadata \<Rightarrow> bytes" where
  "ser_cluster_metadata m = be32 (cluster_version m) @ ser_address (current_leader m) @
     be32 (word_of_nat (length (cluster_nodes m))) @ concat (map ser_address (cluster_nodes m))"

definition deserialize_cluster_metadata :: "cluster_metadata decoder" where
  "deserialize_cluster_metadata = map_dec
     (\<lambda>(v, l, ns). \<lparr>cluster_nodes = fold aset_insert ns [], current_leader = l, cluster_version = v\<rparr>)
     (dec_pair dec_u32 (dec_pair deserialize_address (dec_counted deserialize_address)))"

text \<open>
  \<open>NewNodeJoinData\<close>, \<open>QueryLeaderResponseData\<close>, \<open>LeaveNodeData\<close> and \<open>NewMasterData\<close> hold one
  address and are written as that address.
\<close>

record new_node_join_data = nn_node_address :: address
record query_leader_response_data = ql_leader_address :: address
record leave_node_data = ln_node_address :: address
record new_master_data = nm_leader_address :: address

definition ser_new_node_join_data :: "new_node_join_data \<Rightarrow> bytes" where
  "ser_new_node_join_data d = ser_address (nn_node_address d)"

definition deserialize_new_node_join_data :: "new_node_join_data decoder" where
  "deserialize_new_node_join_data = map_dec (\<lambda>a. \<lparr>nn_node_address = a\<rparr>) deserialize_address"

definition ser_query_leader_response_data :: "query_leader_response_data \<Rightarrow> bytes" where
  "ser_query_leader_response_data d = ser_address (ql_leader_address d)"

definition deserialize_query_leader_response_data :: "query_leader_response_data decoder" where
  "deserialize_query_leader_response_data = map_dec (\<lambda>a. \<lparr>ql_leader_address = a\<rparr>) deserialize_address"

definition ser_leave_node_data :: "leave_node_data \<Rightarrow> bytes" where
  "ser_leave_node_data d = ser_address (ln_node_address d)"

definition deserialize_leave_node_data :: "leave_node_data decoder" where
  "deserialize_leave_node_data = map_dec (\<lambda>a. \<lparr>ln_node_address = a\<rparr>) deserialize_address"

definition ser_new_master_data :: "new_master_data \<Rightarrow> bytes" where
  "ser_new_master_data d = ser_address (nm_leader_address d)"

definition deserialize_new_master_data :: "new_master_data decoder" where
  "deserialize_new_master_data = map_dec (\<lambda>a. \<lparr>nm_leader_address = a\<rparr>) deserialize_address"

record join_cluster_data =
  is_reconnect :: bool
  jc_last_index :: u32
  jc_port :: u16

definition ser_join_cluster_data :: "join_cluster_data \<Rightarrow> bytes" where
  "ser_join_cluster_data d = enc_bool (is_reconnect d) @ be32 (jc_last_index d) @ be16 (jc_port d)"

definition deserialize_join_cluster_data :: "join_cluster_data decoder" where
  "deserialize_join_cluster_data = map_dec (\<lambda>(r, i, p). \<lparr>is_reconnect = r, jc_last_index = i, jc_port = p\<rparr>)
     (dec_pair dec_bool (dec_pair dec_u32 dec_u16))"

record join_cluster_response_data =
  jcr_success :: bool
  error_message :: string
  jcr_cluster_metadata :: cluster_metadata
  sync_from_index :: u32

definition join_cluster_response_new :: join_cluster_response_data where
  "join_cluster_response_new =
     \<lparr>jcr_success = False, error_message = '''', jcr_cluster_metadata = cluster_metadata_new, sync_from_index = 0\<rparr>"

definition ser_join_cluster_response_data :: "join_cluster_response_data \<Rightarrow> bytes" where
  "ser_join_cluster_response_data d = enc_bool (jcr_success d) @
     (if jcr_success d then ser_cluster_metadata (jcr_cluster_metadata d) @ be32 (sync_from_index d)
      else be32 (word_of_nat (length (error_message d))) @ error_message d)"

definition deserialize_join_cluster_response_data :: "join_cluster_response_data decoder" where
  "deserialize_join_cluster_response_data data off =
     rbind (dec_bool data off) (\<lambda>(ok, off1).
       if ok then
         map_dec (\<lambda>(m, i). join_cluster_response_new\<lparr>jcr_success := True, jcr_cluster_metadata := m, sync_from_index := i\<rparr>)
           (dec_pair deserialize_cluster_metadata dec_u32) data off1
       else map_dec (\<lambda>s. join_cluster_response_new\<lparr>error_message := s\<rparr>) deserializeString data off1)"

record snapshot_install_data =
  snapshot_data :: string
  si_offset :: u32
  si_done :: bool
  si_last_included_index :: u32
  si_last_included_term :: u32

definition ser_snapshot_install_data :: "snapshot_install_data \<Rightarrow> bytes" where
  "ser_snapshot_install_data d = ser_string (snapshot_data d) @ be32 (si_offset d) @ enc_bool (si_done d) @
     be32 (si_last_included_index d) @ be32 (si_last_included_term d)"

definition deserialize_snapshot_install_data :: "snapshot_install_data decoder" where
  "deserialize_snapshot_install_data = map_dec
     (\<lambda>(s, off, dn, i, t). \<lparr>snapshot_data = s, si_offset = off, si_done = dn, si_last_included_index = i, si_last_included_term = t\<rparr>)
     (dec_pair deserializeString (dec_pair dec_u32 (dec_pair dec_bool (dec_pair dec_u32 dec_u32))))"

record snapshot_install_response_data =
  sir_success :: bool
  sir_offset :: u32

definition ser_snapshot_install_response_data :: "snapshot_install_response_data \<Rightarrow> bytes" where
  "ser_snapshot_install_response_data d = enc_bool (sir_success d) @ be32 (sir_offset d)"

definition deserialize_snapshot_install_response_data :: "snapshot_install_response_data decoder" where
  "deserialize_snapshot_install_response_data =
     map_dec (\<lambda>(s, off). \<lparr>sir_success = s, sir_offset = off\<rparr>) (dec_pair dec_bool dec_u32)"

section \<open>Messages\<close>

text \<open>
  \<open>UnnamedType\<close> stands for the values \<open>0\<close> to \<open>31\<close> that the enumeration can hold without naming
  them; a larger number is outside the range of the enumeration and the cast is undefined.
\<close>

datatype raft_message_type =
    REQUEST_VOTE | REQUEST_VOTE_RESPONSE | APPEND_ENTRIES | APPEND_ENTRIES_RESPONSE | NEW_NODE | NEW_MASTER
  | QUERY_LEADER | QUERY_LEADER_RESPONSE | JOIN_CLUSTER | JOIN_CLUSTER_RESPONSE | CLUSTER_CONFIG
  | CLUSTER_CONFIG_RESPONSE | SNAPSHOT_INSTALL | SNAPSHOT_INSTALL_RESPONSE | LEAVE_NODE | UnnamedType u32

fun type_code :: "raft_message_type \<Rightarrow> u32" where
  "type_code REQUEST_VOTE = 1"
| "type_code REQUEST_VOTE_RESPONSE = 2"
| "type_code APPEND_ENTRIES = 3"
| "type_code APPEND_ENTRIES_RESPONSE = 4"
| "type_code NEW_NODE = 5"
| "type_code NEW_MASTER = 7"
| "type_code QUERY_LEADER = 9"
| "type_code QUERY_LEADER_RESPONSE = 10"
| "type_code JOIN_CLUSTER = 11"
| "type_code JOIN_CLUSTER_RESPONSE = 12"
| "type_code CLUSTER_CONFIG = 13"
| "type_code CLUSTER_CONFIG_RESPONSE = 14"
| "type_code SNAPSHOT_INSTALL = 15"
| "type_code SNAPSHOT_INSTALL_RESPONSE = 16"
| "type_code LEAVE_NODE = 17"
| "type_code (UnnamedType c) = c"

definition named_types :: "raft_message_type list" where
  "named_types = [REQUEST_VOTE, REQUEST_VOTE_RESPONSE, APPEND_ENTRIES, APPEND_ENTRIES_RESPONSE, NEW_NODE, NEW_MASTER,
     QUERY_LEADER, QUERY_LEADER_RESPONSE, JOIN_CLUSTER, JOIN_CLUSTER_RESPONSE, CLUSTER_CONFIG,
     CLUSTER_CONFIG_RESPONSE, SNAPSHOT_INSTALL, SNAPSHOT_INSTALL_RESPONSE, LEAVE_NODE]"

definition type_of_code :: "u32 \<Rightarrow> raft_message_type res" where
  "type_of_code c = (case find (\<lambda>t. type_code t = c) named_types of
       Some t \<Rightarrow> Inr t
     | None \<Rightarrow> if c < 32 then Inr (UnnamedType c) else Inl UB)"

record raft_message =
  m_type :: raft_message_type
  m_term :: u32
  request_vote_data :: "request_vote_data option"
  request_vote_response_data :: "request_vote_response_data option"
  append_entries_data :: "append_entries_data option"
  append_entries_response_data :: "append_entries_response_data option"
  query_leader_response_data :: "query_leader_response_data option"
  join_cluster_data :: "join_cluster_data option"
  join_cluster_response_data :: "join_cluster_response_data option"
  snapshot_install_data :: "snapshot_install_data option"
  snapshot_install_response_data :: "snapshot_install_response_data option"
  new_node_join_data :: "new_node_join_data option"
  leave_node_data :: "leave_node_data option"
  new_master_data :: "new_master_data option"

definition raft_message_new :: raft_message where
  "raft_message_new = \<lparr>m_type = APPEND_ENTRIES, m_term = 0, request_vote_data = None, request_vote_response_data = None,
     append_entries_data = None, append_entries_response_data = None, query_leader_response_data = None,
     join_cluster_data = None, join_cluster_response_data = None, snapshot_install_data = None,
     snapshot_install_response_data = None, new_node_join_data = None, leave_node_data = None, new_master_data = None\<rparr>"

definition leave_node :: "address \<Rightarrow> raft_message" where
  "leave_node addr = raft_message_new\<lparr>m_type := LEAVE_NODE, leave_node_data := Some \<lparr>ln_node_address = addr\<rparr>\<rparr>"

definition request_vote :: "u32 \<Rightarrow> u32 \<Rightarrow> u32 \<Rightarrow> raft_message" where
  "request_vote trm last_idx last_trm = raft_message_new\<lparr>m_type := REQUEST_VOTE, m_term := trm,
     request_vote_data := Some \<lparr>last_log_index = last_idx, last_log_term = last_trm\<rparr>\<rparr>"

definition request_vote_response :: "u32 \<Rightarrow> bool \<Rightarrow> raft_message" where
  "request_vote_response trm granted = raft_message_new\<lparr>m_type := REQUEST_VOTE_RESPONSE, m_term := trm,
     request_vote_response_data := Some \<lparr>vote_granted = granted\<rparr>\<rparr>"

definition append_entries :: "u32 \<Rightarrow> u32 \<Rightarrow> u32 \<Rightarrow> u32 \<Rightarrow> raft_message" where
  "append_entries trm prev_idx prev_trm commit = raft_message_new\<lparr>m_type := APPEND_ENTRIES, m_term := trm,
     append_entries_data := Some (make_append_entries_data prev_idx prev_trm commit)\<rparr>"

definition append_entries_with_data :: "u32 \<Rightarrow> u32 \<Rightarrow> u32 \<Rightarrow> log_entry list \<Rightarrow> u32 \<Rightarrow> raft_message" where
  "append_entries_with_data trm prev_idx prev_trm ents commit = raft_message_new\<lparr>m_type := APPEND_ENTRIES, m_term := trm,
     append_entries_data := Some \<lparr>prev_log_index = prev_idx, prev_log_term = prev_trm, ae_entries = Some ents, leader_commit = commit\<rparr>\<rparr>"

definition append_entries_response :: "u32 \<Rightarrow> bool \<Rightarrow> u32 \<Rightarrow> raft_message" where
  "append_entries_response trm ok last_idx = raft_message_new\<lparr>m_type := APPEND_ENTRIES_RESPONSE, m_term := trm,
     append_entries_response_data := Some \<lparr>aer_success = ok, log_index = last_idx\<rparr>\<rparr>"

definition new_node_join_broadcast :: "address \<Rightarrow> raft_message" where
  "new_node_join_broadcast addr = raft_message_new\<lparr>m_type := NEW_NODE, new_node_join_data := Some \<lparr>nn_node_address = addr\<rparr>\<rparr>"

definition new_master :: "u32 \<Rightarrow> address \<Rightarrow> raft_message" where
  "new_master trm leader_addr = raft_message_new\<lparr>m_type := NEW_MASTER, m_term := trm,
     new_master_data := Some \<lparr>nm_leader_address = leader_addr\<rparr>\<rparr>"

definition query_leader :: raft_message where
  "query_leader = raft_message_new\<lparr>m_type := QUERY_LEADER\<rparr>"

definition query_leader_response :: "address \<Rightarrow> raft_message" where
  "query_leader_response addr = raft_message_new\<lparr>m_type := QUERY_LEADER_RESPONSE,
     query_leader_response_data := Some \<lparr>ql_leader_address = addr\<rparr>\<rparr>"

definition join_cluster :: "bool \<Rightarrow> u32 \<Rightarrow> u16 \<Rightarrow> raft_message" where
  "join_cluster reconnect last_idx prt = raft_message_new\<lparr>m_type := JOIN_CLUSTER,
     join_cluster_data := Some \<lparr>is_reconnect = reconnect, jc_last_index = last_idx, jc_port = prt\<rparr>\<rparr>"

definition join_cluster_response :: "bool \<Rightarrow> string \<Rightarrow> cluster_metadata \<Rightarrow> u32 \<Rightarrow> raft_message" where
  "join_cluster_response ok err meta sync_index = raft_message_new\<lparr>m_type := JOIN_CLUSTER_RESPONSE,
     join_cluster_response_data :=
       Some \<lparr>jcr_success = ok, error_message = err, jcr_cluster_metadata = meta, sync_from_index = sync_index\<rparr>\<rparr>"

definition snapshot_install :: "string \<Rightarrow> u32 \<Rightarrow> bool \<Rightarrow> u32 \<Rightarrow> u32 \<Rightarrow> raft_message" where
  "snapshot_install chunk off dn last_idx last_trm = raft_message_new\<lparr>m_type := SNAPSHOT_INSTALL,
     snapshot_install_data := Some \<lparr>snapshot_data = chunk, si_offset = off, si_done = dn,
       si_last_included_index = last_idx, si_last_included_term = last_trm\<rparr>\<rparr>"

definition snapshot_install_response :: "bool \<Rightarrow> u32 \<Rightarrow> raft_message" where
  "snapshot_install_response ok off = raft_message_new\<lparr>m_type := SNAPSHOT_INSTALL_RESPONSE,
     snapshot_install_response_data := Some \<lparr>sir_success = ok, sir_offset = off\<rparr>\<rparr>"

lemmas factory_defs = leave_node_def request_vote_def request_vote_response_def append_entries_def
  append_entries_with_data_def append_entries_response_def new_node_join_broadcast_def new_master_def query_leader_def
  query_leader_response_def join_cluster_def join_cluster_response_def snapshot_install_def snapshot_install_response_def

definition ser_opt :: "('a \<Rightarrow> bytes) \<Rightarrow> 'a option \<Rightarrow> bytes" where
  "ser_opt e x = (case x of None \<Rightarrow> [] | Some y \<Rightarrow> e y)"

definition ser_body :: "raft_message \<Rightarrow> bytes" where
  "ser_body m = (case m_type m of
       REQUEST_VOTE \<Rightarrow> ser_opt ser_request_vote_data (request_vote_data m)
     | REQUEST_VOTE_RESPONSE \<Rightarrow> ser_opt ser_request_vote_response_data (request_vote_response_data m)
     | APPEND_ENTRIES \<Rightarrow> ser_opt ser_append_entries_data (append_entries_data m)
     | APPEND_ENTRIES_RESPONSE \<Rightarrow> ser_opt ser_append_entries_response_data (append_entries_response_data m)
     | NEW_NODE \<Rightarrow> ser_opt ser_new_node_join_data (new_node_join_data m)
     | QUERY_LEADER_RESPONSE \<Rightarrow> ser_opt ser_query_leader_response_data (query_leader_response_data m)
     | JOIN_CLUSTER \<Rightarrow> ser_opt ser_join_cluster_data (join_cluster_data m)
     | JOIN_CLUSTER_RESPONSE \<Rightarrow> ser_opt ser_join_cluster_response_data (join_cluster_response_data m)
     | SNAPSHOT_INSTALL \<Rightarrow> ser_opt ser_snapshot_install_data (snapshot_install_data m)
     | SNAPSHOT_INSTALL_RESPONSE \<Rightarrow> ser_opt ser_snapshot_install_response_data (snapshot_install_response_data m)
     | NEW_MASTER \<Rightarrow> ser_opt ser_new_master_data (new_master_data m)
     | LEAVE_NODE \<Rightarrow> ser_opt ser_leave_node_data (leave_node_data m)
     | _ \<Rightarrow> [])"

definition ser_raft_message :: "raft_message \<Rightarrow> bytes" where
  "ser_raft_message m = be32 (type_code (m_type m)) @ be32 (m_term m) @ ser_body m"

definition deserialize_body :: "raft_message \<Rightarrow> raft_message decoder" where
  "deserialize_body m data off = (case m_type m of
       REQUEST_VOTE \<Rightarrow> map_dec (\<lambda>d. m\<lparr>request_vote_data := Some d\<rparr>) deserialize_request_vote_data data off
     | REQUEST_VOTE_RESPONSE \<Rightarrow> map_dec (\<lambda>d. m\<lparr>request_vote_response_data := Some d\<rparr>) deserialize_request_vote_response_data data off
     | APPEND_ENTRIES \<Rightarrow> map_dec (\<lambda>d. m\<lparr>append_entries_data := Some d\<rparr>) deserialize_append_entries_data data off
     | APPEND_ENTRIES_RESPONSE \<Rightarrow> map_dec (\<lambda>d. m\<lparr>append_entries_response_data := Some d\<rparr>) deserialize_append_entries_response_data data off
     | NEW_NODE \<Rightarrow> map_dec (\<lambda>d. m\<lparr>new_node_join_data := Some d\<rparr>) deserialize_new_node_join_data data off
     | QUERY_LEADER_RESPONSE \<Rightarrow> map_dec (\<lambda>d. m\<lparr>query_leader_response_data := Some d\<rparr>) deserialize_query_leader_response_data data off
     | JOIN_CLUSTER \<Rightarrow> map_dec (\<lambda>d. m\<lparr>join_cluster_data := Some d\<rparr>) deserialize_join_cluster_data data off
     | JOIN_CLUSTER_RESPONSE \<Rightarrow> map_dec (\<lambda>d. m\<lparr>join_cluster_response_data := Some d\<rparr>) deserialize_join_cluster_response_data data off
     | SNAPSHOT_INSTALL \<Rightarrow> map_dec (\<lambda>d. m\<lparr>snapshot_install_data := Some d\<rparr>) deserialize_snapshot_install_data data off
     | SNAPSHOT_INSTALL_RESPONSE \<Rightarrow> map_dec (\<lambda>d. m\<lparr>snapshot_install_response_data := Some d\<rparr>) deserialize_snapshot_install_response_data data off
     | NEW_MASTER \<Rightarrow> map_dec (\<lambda>d. m\<lparr>new_master_data := Some d\<rparr>) deserialize_new_master_data data off
     | LEAVE_NODE \<Rightarrow> map_dec (\<lambda>d. m\<lparr>leave_node_data := Some d\<rparr>) deserialize_leave_node_data data off
     | _ \<Rightarrow> Inr (m, off))"

definition deserialize_raft_message :: "raft_message decoder" where
  "deserialize_raft_message data off =
     rbind (dec_u32 data off) (\<lambda>(net_type, off1).
     rbind (type_of_code net_type) (\<lambda>t.
     rbind (dec_u32 data off1) (\<lambda>(trm, off2).
       deserialize_body (raft_message_new\<lparr>m_type := t, m_term := trm\<rparr>) data off2)))"

section \<open>Reading bodies back\<close>

definition append_entries_data_ok :: "append_entries_data \<Rightarrow> bool" where
  "append_entries_data_ok d \<longleftrightarrow> (case ae_entries d of None \<Rightarrow> True
     | Some es \<Rightarrow> entries_sorted es \<and> ok_counted log_entry_ok es)"

text \<open>An empty set of entries is sent like no set, and read as no set.\<close>

definition append_entries_data_norm :: "append_entries_data \<Rightarrow> append_entries_data" where
  "append_entries_data_norm d = (if ae_entries d = Some [] then d\<lparr>ae_entries := None\<rparr> else d)"

definition cluster_metadata_ok :: "cluster_metadata \<Rightarrow> bool" where
  "cluster_metadata_ok m \<longleftrightarrow> address_ok (current_leader m) \<and> distinct (cluster_nodes m) \<and> ok_counted address_ok (cluster_nodes m)"

text \<open>A failed join carries its reason only, a successful one everything but the reason.\<close>

definition join_cluster_response_data_ok :: "join_cluster_response_data \<Rightarrow> bool" where
  "join_cluster_response_data_ok d \<longleftrightarrow>
     (if jcr_success d then cluster_metadata_ok (jcr_cluster_metadata d) else string_ok (error_message d))"

definition join_cluster_response_data_norm :: "join_cluster_response_data \<Rightarrow> join_cluster_response_data" where
  "join_cluster_response_data_norm d =
     (if jcr_success d then d\<lparr>error_message := ''''\<rparr>
      else join_cluster_response_new\<lparr>error_message := error_message d\<rparr>)"

definition snapshot_install_data_ok :: "snapshot_install_data \<Rightarrow> bool" where
  "snapshot_install_data_ok d \<longleftrightarrow> string_ok (snapshot_data d)"

interpretation rvd: codec_upto ser_request_vote_data deserialize_request_vote_data "\<lambda>_. True" "\<lambda>d. d"
  unfolding deserialize_request_vote_data_def
  by (rule codec_image [OF codec_seq [OF wire_codecs(1,1)], where dest = "\<lambda>d. (last_log_index d, last_log_term d)"])
    (auto simp: ok_both_def enc_seq_def ser_request_vote_data_def)

interpretation rvr: codec_upto ser_request_vote_response_data deserialize_request_vote_response_data "\<lambda>_. True" "\<lambda>d. d"
  unfolding deserialize_request_vote_response_data_def
  by (rule codec_image [OF wire_codecs(3), where dest = vote_granted])
    (auto simp: ser_request_vote_response_data_def)

interpretation aer: codec_upto ser_append_entries_response_data deserialize_append_entries_response_data "\<lambda>_. True" "\<lambda>d. d"
  unfolding deserialize_append_entries_response_data_def
  by (rule codec_image [OF codec_seq [OF wire_codecs(3,1)], where dest = "\<lambda>d. (aer_success d, log_index d)"])
    (auto simp: ok_both_def enc_seq_def ser_append_entries_response_data_def)

interpretation aed: codec_upto ser_append_entries_data deserialize_append_entries_data append_entries_data_ok append_entries_data_norm
  unfolding deserialize_append_entries_data_def
  by (rule codec_image [OF codec_seq [OF wire_codecs(1) codec_seq [OF wire_codecs(1)
        codec_seq [OF codec_counted [OF lge.codec_upto_axioms] wire_codecs(1)]]],
      where dest = "\<lambda>d. (prev_log_index d, prev_log_term d, (case ae_entries d of None \<Rightarrow> [] | Some es \<Rightarrow> es), leader_commit d)"])
    (auto simp: ok_both_def enc_seq_def enc_counted_def ok_counted_def ser_append_entries_data_def append_entries_data_ok_def
      append_entries_data_norm_def make_append_entries_data_def entry_set_sorted split: option.splits)

interpretation cmd: codec_upto ser_cluster_metadata deserialize_cluster_metadata cluster_metadata_ok "\<lambda>d. d"
  unfolding deserialize_cluster_metadata_def
  by (rule codec_image [OF codec_seq [OF wire_codecs(1) codec_seq [OF addr.codec_upto_axioms codec_counted [OF addr.codec_upto_axioms]]],
      where dest = "\<lambda>m. (cluster_version m, current_leader m, cluster_nodes m)"])
    (auto simp: ok_both_def enc_seq_def enc_counted_def ser_cluster_metadata_def cluster_metadata_ok_def
      fold_aset_insert [of "[]", simplified])

interpretation nnj: codec_upto ser_new_node_join_data deserialize_new_node_join_data "\<lambda>d. address_ok (nn_node_address d)" "\<lambda>d. d"
  unfolding deserialize_new_node_join_data_def
  by (rule codec_image [OF addr.codec_upto_axioms, where dest = nn_node_address]) (auto simp: ser_new_node_join_data_def)

interpretation qlr: codec_upto ser_query_leader_response_data deserialize_query_leader_response_data "\<lambda>d. address_ok (ql_leader_address d)" "\<lambda>d. d"
  unfolding deserialize_query_leader_response_data_def
  by (rule codec_image [OF addr.codec_upto_axioms, where dest = ql_leader_address]) (auto simp: ser_query_leader_response_data_def)

interpretation lnd: codec_upto ser_leave_node_data deserialize_leave_node_data "\<lambda>d. address_ok (ln_node_address d)" "\<lambda>d. d"
  unfolding deserialize_leave_node_data_def
  by (rule codec_image [OF addr.codec_upto_axioms, where dest = ln_node_address]) (auto simp: ser_leave_node_data_def)

interpretation nmd: codec_upto ser_new_master_data deserialize_new_master_data "\<lambda>d. address_ok (nm_leader_address d)" "\<lambda>d. d"
  unfolding deserialize_new_master_data_def
  by (rule codec_image [OF addr.codec_upto_axioms, where dest = nm_leader_address]) (auto simp: ser_new_master_data_def)

interpretation jcd: codec_upto ser_join_cluster_data deserialize_join_cluster_data "\<lambda>_. True" "\<lambda>d. d"
  unfolding deserialize_join_cluster_data_def
  by (rule codec_image [OF codec_seq [OF wire_codecs(3) codec_seq [OF wire_codecs(1,2)]],
      where dest = "\<lambda>d. (is_reconnect d, jc_last_index d, jc_port d)"])
    (auto simp: ok_both_def enc_seq_def ser_join_cluster_data_def)

interpretation sid: codec_upto ser_snapshot_install_data deserialize_snapshot_install_data snapshot_install_data_ok "\<lambda>d. d"
  unfolding deserialize_snapshot_install_data_def
  by (rule codec_image [OF codec_seq [OF wire_codecs(4) codec_seq [OF wire_codecs(1) codec_seq [OF wire_codecs(3) codec_seq [OF wire_codecs(1,1)]]]],
      where dest = "\<lambda>d. (snapshot_data d, si_offset d, si_done d, si_last_included_index d, si_last_included_term d)"])
    (auto simp: ok_both_def enc_seq_def ser_snapshot_install_data_def snapshot_install_data_ok_def)

interpretation sir: codec_upto ser_snapshot_install_response_data deserialize_snapshot_install_response_data "\<lambda>_. True" "\<lambda>d. d"
  unfolding deserialize_snapshot_install_response_data_def
  by (rule codec_image [OF codec_seq [OF wire_codecs(3,1)], where dest = "\<lambda>d. (sir_success d, sir_offset d)"])
    (auto simp: ok_both_def enc_seq_def ser_snapshot_install_response_data_def)

text \<open>A codec whose tail depends on a flag read first, as in the answer to a join.\<close>

lemma codec_flag:
  assumes "codec_upto (\<lambda>x. body x) d1 (\<lambda>x. ok x \<and> flag x) n" "codec_upto (\<lambda>x. body x) d0 (\<lambda>x. ok x \<and> \<not> flag x) n"
  shows "codec_upto (\<lambda>x. enc_bool (flag x) @ body x)
    (\<lambda>data off. rbind (dec_bool data off) (\<lambda>(b, off1). if b then d1 data off1 else d0 data off1)) ok n"
proof
  fix x pre post
  assume ok: "ok x"
  let ?data = "pre @ (enc_bool (flag x) @ body x) @ post"
  have "rbind (dec_bool ?data (length pre)) (\<lambda>(b, off1). if b then d1 ?data off1 else d0 ?data off1)
      = (if flag x then d1 ?data (length (pre @ enc_bool (flag x))) else d0 ?data (length (pre @ enc_bool (flag x))))"
    using dec_then_at [OF wire_codecs(3), where x = "flag x" and data = ?data and pre = pre and post = "body x @ post"
      and k = "\<lambda>(b, off1). if b then d1 ?data off1 else d0 ?data off1"]
    by simp
  also have "\<dots> = Inr (n x, length pre + length (enc_bool (flag x) @ body x))"
    using codec_upto.dec_norm_at [OF assms(1), of x ?data "pre @ enc_bool (flag x)" post]
      codec_upto.dec_norm_at [OF assms(2), of x ?data "pre @ enc_bool (flag x)" post] ok by simp
  finally show "rbind (dec_bool ?data (length pre)) (\<lambda>(b, off1). if b then d1 ?data off1 else d0 ?data off1)
      = Inr (n x, length pre + length (enc_bool (flag x) @ body x))" .
qed

interpretation jcr: codec_upto ser_join_cluster_response_data deserialize_join_cluster_response_data
  join_cluster_response_data_ok join_cluster_response_data_norm
proof -
  let ?body = "\<lambda>d. if jcr_success d then ser_cluster_metadata (jcr_cluster_metadata d) @ be32 (sync_from_index d)
      else be32 (word_of_nat (length (error_message d))) @ error_message d"
  let ?d1 = "map_dec (\<lambda>(m, i). join_cluster_response_new\<lparr>jcr_success := True, jcr_cluster_metadata := m, sync_from_index := i\<rparr>)
           (dec_pair deserialize_cluster_metadata dec_u32)"
  let ?d0 = "map_dec (\<lambda>s. join_cluster_response_new\<lparr>error_message := s\<rparr>) deserializeString"
  have 1: "codec_upto (\<lambda>d. ser_cluster_metadata (jcr_cluster_metadata d) @ be32 (sync_from_index d)) ?d1
      (\<lambda>d. join_cluster_response_data_ok d \<and> jcr_success d) join_cluster_response_data_norm"
    by (rule codec_image [OF codec_seq [OF cmd.codec_upto_axioms wire_codecs(1)], where dest = "\<lambda>d. (jcr_cluster_metadata d, sync_from_index d)"])
      (auto simp: ok_both_def enc_seq_def join_cluster_response_data_ok_def join_cluster_response_data_norm_def join_cluster_response_new_def)
  have 1: "codec_upto ?body ?d1 (\<lambda>d. join_cluster_response_data_ok d \<and> jcr_success d) join_cluster_response_data_norm"
    using 1 by (simp add: codec_upto_def)
  have 0: "codec_upto (\<lambda>d. ser_string (error_message d)) ?d0 (\<lambda>d. join_cluster_response_data_ok d \<and> \<not> jcr_success d) join_cluster_response_data_norm"
    by (rule codec_image [OF wire_codecs(4), where dest = error_message])
      (auto simp: join_cluster_response_data_ok_def join_cluster_response_data_norm_def join_cluster_response_new_def)
  have 0: "codec_upto ?body ?d0 (\<lambda>d. join_cluster_response_data_ok d \<and> \<not> jcr_success d) join_cluster_response_data_norm"
    using 0 by (simp add: codec_upto_def ser_string_def)
  show "codec_upto ser_join_cluster_response_data deserialize_join_cluster_response_data
      join_cluster_response_data_ok join_cluster_response_data_norm"
    using codec_flag [OF 1 0]
    by (simp add: ser_join_cluster_response_data_def [abs_def] deserialize_join_cluster_response_data_def [abs_def])
qed

section \<open>Reading messages back\<close>

text \<open>The bodies of a message that are of its type: present, and of a size the encoding can express.\<close>

definition opt_ok :: "('a \<Rightarrow> bool) \<Rightarrow> 'a option \<Rightarrow> bool" where
  "opt_ok P x \<longleftrightarrow> (case x of None \<Rightarrow> False | Some y \<Rightarrow> P y)"

definition raft_message_ok :: "raft_message \<Rightarrow> bool" where
  "raft_message_ok m \<longleftrightarrow> (case m_type m of
       REQUEST_VOTE \<Rightarrow> opt_ok (\<lambda>_. True) (request_vote_data m)
     | REQUEST_VOTE_RESPONSE \<Rightarrow> opt_ok (\<lambda>_. True) (request_vote_response_data m)
     | APPEND_ENTRIES \<Rightarrow> opt_ok append_entries_data_ok (append_entries_data m)
     | APPEND_ENTRIES_RESPONSE \<Rightarrow> opt_ok (\<lambda>_. True) (append_entries_response_data m)
     | NEW_NODE \<Rightarrow> opt_ok (\<lambda>d. address_ok (nn_node_address d)) (new_node_join_data m)
     | QUERY_LEADER_RESPONSE \<Rightarrow> opt_ok (\<lambda>d. address_ok (ql_leader_address d)) (query_leader_response_data m)
     | JOIN_CLUSTER \<Rightarrow> opt_ok (\<lambda>_. True) (join_cluster_data m)
     | JOIN_CLUSTER_RESPONSE \<Rightarrow> opt_ok join_cluster_response_data_ok (join_cluster_response_data m)
     | SNAPSHOT_INSTALL \<Rightarrow> opt_ok snapshot_install_data_ok (snapshot_install_data m)
     | SNAPSHOT_INSTALL_RESPONSE \<Rightarrow> opt_ok (\<lambda>_. True) (snapshot_install_response_data m)
     | NEW_MASTER \<Rightarrow> opt_ok (\<lambda>d. address_ok (nm_leader_address d)) (new_master_data m)
     | LEAVE_NODE \<Rightarrow> opt_ok (\<lambda>d. address_ok (ln_node_address d)) (leave_node_data m)
     | UnnamedType c \<Rightarrow> c < 32 \<and> c \<notin> type_code ` set named_types
     | _ \<Rightarrow> True)"

text \<open>What a message is after a trip over the wire: only the body of its type is left.\<close>

definition raft_message_norm :: "raft_message \<Rightarrow> raft_message" where
  "raft_message_norm m = (let r = raft_message_new\<lparr>m_type := m_type m, m_term := m_term m\<rparr> in
     case m_type m of
       REQUEST_VOTE \<Rightarrow> r\<lparr>request_vote_data := request_vote_data m\<rparr>
     | REQUEST_VOTE_RESPONSE \<Rightarrow> r\<lparr>request_vote_response_data := request_vote_response_data m\<rparr>
     | APPEND_ENTRIES \<Rightarrow> r\<lparr>append_entries_data := map_option append_entries_data_norm (append_entries_data m)\<rparr>
     | APPEND_ENTRIES_RESPONSE \<Rightarrow> r\<lparr>append_entries_response_data := append_entries_response_data m\<rparr>
     | NEW_NODE \<Rightarrow> r\<lparr>new_node_join_data := new_node_join_data m\<rparr>
     | QUERY_LEADER_RESPONSE \<Rightarrow> r\<lparr>query_leader_response_data := query_leader_response_data m\<rparr>
     | JOIN_CLUSTER \<Rightarrow> r\<lparr>join_cluster_data := join_cluster_data m\<rparr>
     | JOIN_CLUSTER_RESPONSE \<Rightarrow> r\<lparr>join_cluster_response_data := map_option join_cluster_response_data_norm (join_cluster_response_data m)\<rparr>
     | SNAPSHOT_INSTALL \<Rightarrow> r\<lparr>snapshot_install_data := snapshot_install_data m\<rparr>
     | SNAPSHOT_INSTALL_RESPONSE \<Rightarrow> r\<lparr>snapshot_install_response_data := snapshot_install_response_data m\<rparr>
     | NEW_MASTER \<Rightarrow> r\<lparr>new_master_data := new_master_data m\<rparr>
     | LEAVE_NODE \<Rightarrow> r\<lparr>leave_node_data := leave_node_data m\<rparr>
     | _ \<Rightarrow> r)"

lemma find_named: "t \<in> set named_types \<Longrightarrow> find (\<lambda>t'. type_code t' = type_code t) named_types = Some t"
  unfolding named_types_def list.set insert_iff empty_iff by (elim disjE) simp_all

lemma type_code_back:
  assumes "raft_message_ok m"
  shows "type_of_code (type_code (m_type m)) = Inr (m_type m)"
proof (cases "m_type m")
  case (UnnamedType c)
  then have "find (\<lambda>t. type_code t = c) named_types = None" "c < 32"
    using assms by (auto simp: raft_message_ok_def find_None_iff)
  then show ?thesis by (simp add: type_of_code_def UnnamedType)
qed (simp_all add: type_of_code_def find_named [unfolded named_types_def] named_types_def)

context codec_upto
begin

lemma map_dec_enc: "ok x \<Longrightarrow> map_dec f dec (pre @ enc x @ post) (length pre) = Inr (f (norm x), length pre + length (enc x))"
  by (rule map_dec_at) simp_all

end

lemmas body_backs = rvd.map_dec_enc rvr.map_dec_enc aed.map_dec_enc aer.map_dec_enc nnj.map_dec_enc qlr.map_dec_enc
  jcd.map_dec_enc jcr.map_dec_enc sid.map_dec_enc sir.map_dec_enc nmd.map_dec_enc lnd.map_dec_enc

lemma deserialize_body_back:
  assumes "raft_message_ok m"
  shows "deserialize_body (raft_message_new\<lparr>m_type := m_type m, m_term := m_term m\<rparr>) (pre @ ser_body m @ post) (length pre) =
    Inr (raft_message_norm m, length pre + length (ser_body m))"
  using assms
  by (cases "m_type m")
    (auto simp: ser_body_def deserialize_body_def raft_message_norm_def raft_message_ok_def opt_ok_def ser_opt_def body_backs
      split: option.splits)

interpretation msg: codec_upto ser_raft_message deserialize_raft_message raft_message_ok raft_message_norm
proof
  fix m pre post
  assume ok: "raft_message_ok m"
  let ?t = "be32 (type_code (m_type m))" and ?r = "be32 (m_term m)" and ?data = "pre @ ser_raft_message m @ post"
  have d: "?data = pre @ ?t @ ?r @ ser_body m @ post" by (simp add: ser_raft_message_def)
  have 1: "dec_u32 ?data (length pre) = Inr (type_code (m_type m), length (pre @ ?t))"
    using cu32.dec_enc_at [where data = ?data and pre = pre and post = "?r @ ser_body m @ post"] d by simp
  have 2: "dec_u32 ?data (length (pre @ ?t)) = Inr (m_term m, length (pre @ ?t @ ?r))"
    using cu32.dec_enc_at [where data = ?data and pre = "pre @ ?t" and post = "ser_body m @ post"] d by simp
  show "deserialize_raft_message ?data (length pre) = Inr (raft_message_norm m, length pre + length (ser_raft_message m))"
    unfolding deserialize_raft_message_def
    using 1 2 type_code_back [OF ok] deserialize_body_back [OF ok, of "pre @ ?t @ ?r" post] d
    by (simp del: length_append) (simp add: ser_raft_message_def)
qed

section \<open>Properties\<close>

text \<open>The messages the factory functions build, apart from an append with an empty entry set.\<close>

inductive built :: "raft_message \<Rightarrow> bool" where
  "built (leave_node a)"
| "built (request_vote t i u)"
| "built (request_vote_response t g)"
| "built (append_entries t i u c)"
| "es \<noteq> [] \<Longrightarrow> built (append_entries_with_data t i u es c)"
| "built (append_entries_response t ok i)"
| "built (new_node_join_broadcast a)"
| "built (new_master t a)"
| "built query_leader"
| "built (query_leader_response a)"
| "built (join_cluster r i p)"
| "built (join_cluster_response True '''' meta i)"
| "built (join_cluster_response False err cluster_metadata_new 0)"
| "built (snapshot_install s off dn i t)"
| "built (snapshot_install_response ok off)"

inductive_cases built_elim: "built m"

lemma built_norm: "built m \<Longrightarrow> raft_message_norm m = m"
  by (erule built_elim)
    (simp_all add: factory_defs raft_message_norm_def raft_message_new_def append_entries_data_norm_def make_append_entries_data_def
      join_cluster_response_data_norm_def join_cluster_response_new_def)

text \<open>
  A Raft message built by one of the factory functions and of expressible size is read back
  exactly by its receiver, wherever it stands in the receive buffer, and the reader stops right
  behind it: votes, entries with their terms, indexes, time stamps and request identifiers,
  cluster members, snapshot chunks.
\<close>

theorem raft_message_roundtrip:
  assumes "built m" "raft_message_ok m"
  shows "deserialize_raft_message (pre @ ser_raft_message m @ post) (length pre) = Inr (m, length pre + length (ser_raft_message m))"
  using msg.dec_norm [OF assms(2), of pre post] built_norm [OF assms(1)] by simp

theorem raft_message_roundtrip_witness:
  "deserialize_raft_message (''x'' @ ser_raft_message (append_entries_with_data 3 7 2 [make_log_entry 3 8 ''set k v'' ''r1'' 0x100000002 0] 7) @ ''y'') (length ''x'')
     = Inr (append_entries_with_data 3 7 2 [make_log_entry 3 8 ''set k v'' ''r1'' 0x100000002 0] 7,
            length ''x'' + length (ser_raft_message (append_entries_with_data 3 7 2 [make_log_entry 3 8 ''set k v'' ''r1'' 0x100000002 0] 7)))"
  by (rule raft_message_roundtrip, intro built.intros, simp)
    (simp add: raft_message_ok_def append_entries_with_data_def opt_ok_def append_entries_data_ok_def
      entries_sorted_def ok_counted_def log_entry_ok_def make_log_entry_def string_ok_def)

end
