(* ===== verification/Checksum.thy ===== *)
theory Checksum
  imports CppLib
begin

text \<open>
  \<open>include/common/util/checksum_utils.h\<close>: the CRC-32 (IEEE 802.3, reflected polynomial
  \<open>0xEDB88320\<close>) that guards the entries of the Raft log. The source computes it through a table
  of 256 words; the reference is the bit-by-bit polynomial division, and both agree.
\<close>

unbundle bit_operations_syntax

section \<open>The table and its use\<close>

text \<open>One turn of the inner loop of \<open>generateTable\<close>.\<close>

definition crc_shift :: "u32 \<Rightarrow> u32" where
  "crc_shift c = (if c AND 1 \<noteq> 0 then 0xEDB88320 XOR drop_bit 1 c else drop_bit 1 c)"

definition table_entry :: "u32 \<Rightarrow> u32" where
  "table_entry i = (crc_shift ^^ 8) i"

definition generateTable :: "u32 list" where
  "generateTable = map (\<lambda>i. table_entry (word_of_nat i)) [0..<256]"

definition crc_byte :: "char \<Rightarrow> u32" where
  "crc_byte c = word_of_nat (of_char c)"

definition crc_update1 :: "u32 \<Rightarrow> char \<Rightarrow> u32" where
  "crc_update1 crc c = drop_bit 8 crc XOR generateTable ! unat ((crc XOR crc_byte c) AND 0xFF)"

definition crc_update :: "u32 \<Rightarrow> bytes \<Rightarrow> u32" where
  "crc_update crc data = foldl crc_update1 crc data"

definition computeString :: "bytes \<Rightarrow> u32" where
  "computeString data = NOT (crc_update 0xFFFFFFFF data)"

text \<open>
  \<open>computeFile\<close> on a file that may be missing: the contents go through the update in pieces of
  the buffer size; the loop stops at the piece that is cut short by the end of the file.
\<close>

function file_chunks :: "nat \<Rightarrow> u32 \<Rightarrow> bytes \<Rightarrow> u32" where
  "file_chunks n crc data =
     (if n \<le> length data \<and> 0 < n then file_chunks n (crc_update crc (take n data)) (drop n data)
      else crc_update crc data)"
  by pat_completeness auto
termination by (relation "measure (\<lambda>(n, crc, data). length data)") auto

declare file_chunks.simps [simp del]

definition computeFile :: "bytes option \<Rightarrow> u32" where
  "computeFile f = (case f of None \<Rightarrow> 0 | Some data \<Rightarrow> NOT (file_chunks 8192 0xFFFFFFFF data))"

section \<open>Bit-by-bit reference\<close>

definition crc_ref1 :: "u32 \<Rightarrow> char \<Rightarrow> u32" where
  "crc_ref1 crc c = (crc_shift ^^ 8) (crc XOR crc_byte c)"

definition crc32_ref :: "bytes \<Rightarrow> u32" where
  "crc32_ref data = NOT (foldl crc_ref1 0xFFFFFFFF data)"

lemma and_one_xor: "((a XOR b) AND 1 \<noteq> 0) = ((a AND 1 \<noteq> 0) \<noteq> (b AND 1 \<noteq> (0 :: u32)))"
proof -
  have "(a AND 1 \<noteq> 0) = odd a" for a :: u32 by (simp add: and_one_eq odd_iff_mod_2_eq_one)
  then show ?thesis by (simp add: even_xor_iff)
qed

lemma crc_shift_xor: "crc_shift (a XOR b) = crc_shift a XOR crc_shift b"
proof -
  have "drop_bit 1 (a XOR b) = drop_bit 1 a XOR drop_bit 1 b" by (rule drop_bit_xor)
  then show ?thesis
    by (auto simp: crc_shift_def and_one_xor xor.assoc xor.left_commute xor.commute)
qed

lemma crc_shift_pow_xor: "(crc_shift ^^ n) (a XOR b) = (crc_shift ^^ n) a XOR (crc_shift ^^ n) b"
  by (induction n) (simp_all add: crc_shift_xor)

lemma crc_shift_clear: "(\<And>i. i < n \<Longrightarrow> \<not> bit a i) \<Longrightarrow> (crc_shift ^^ n) a = drop_bit n a"
proof (induction n arbitrary: a)
  case (Suc n)
  have "even a" using Suc.prems [of 0] by (simp add: bit_0)
  then have "a AND 1 = 0" by (simp add: and_one_eq even_iff_mod_2_eq_zero)
  then have "crc_shift a = drop_bit 1 a" by (simp add: crc_shift_def)
  moreover have "(crc_shift ^^ n) (drop_bit 1 a) = drop_bit n (drop_bit 1 a)"
    using Suc.prems by (intro Suc.IH) (simp add: bit_drop_bit_eq)
  ultimately show ?case by (simp add: funpow_swap1 [symmetric] funpow_Suc_right del: funpow.simps)
qed simp

lemma ff_mask: "(0xFF :: u32) = mask 8"
  by (simp add: mask_eq_exp_minus_1)

lemma split_low_byte: "(w :: u32) = (w AND NOT (mask 8)) XOR (w AND mask 8)"
  by (rule bit_word_eqI) (auto simp: bit_xor_iff bit_and_iff bit_not_iff)

lemma generateTable_nth: "generateTable ! unat ((w :: u32) AND mask 8) = table_entry (w AND mask 8)"
proof -
  have "unat (w AND mask 8) < 256"
    using take_bit_nat_less_exp [of 8 "unat w"] by (simp add: take_bit_eq_mask [symmetric] unsigned_take_bit_eq)
  then show ?thesis by (simp add: generateTable_def)
qed

lemma crc_byte_bits: "bit (crc_byte c) n \<Longrightarrow> n < 8"
proof (rule ccontr)
  assume b: "bit (crc_byte c) n" and "\<not> n < 8"
  have "(of_char c :: nat) = take_bit 8 (of_char c)"
    using nat_of_char_less_256 [of c] by (simp add: take_bit_nat_eq_self)
  moreover have "bit (of_char c :: nat) n" using b by (auto simp: crc_byte_def bit_of_nat_iff)
  ultimately show False using \<open>\<not> n < 8\<close> by (metis bit_take_bit_iff)
qed

lemma crc_update1_ref: "crc_update1 crc c = crc_ref1 crc c"
proof -
  let ?w = "crc XOR crc_byte c"
  have "crc_ref1 crc c = (crc_shift ^^ 8) (?w AND NOT (mask 8)) XOR (crc_shift ^^ 8) (?w AND mask 8)"
    unfolding crc_ref1_def by (subst split_low_byte [of ?w]) (rule crc_shift_pow_xor)
  moreover have "(crc_shift ^^ 8) (?w AND NOT (mask 8)) = drop_bit 8 (?w AND NOT (mask 8))"
    by (rule crc_shift_clear) (simp add: bit_and_iff bit_not_iff bit_mask_iff)
  moreover have "drop_bit 8 (?w AND NOT (mask 8)) = drop_bit 8 crc"
  proof (rule bit_word_eqI)
    fix n
    assume "n < LENGTH(32)"
    have "\<not> bit (crc_byte c) (8 + n)" using crc_byte_bits [of c "8 + n"] by auto
    then show "bit (drop_bit 8 (?w AND NOT (mask 8))) n = bit (drop_bit 8 crc) n"
      using bit_imp_le_length [of crc "8 + n"]
      by (auto simp: bit_drop_bit_eq bit_and_iff bit_not_iff bit_xor_iff bit_mask_iff)
  qed
  ultimately show ?thesis by (simp add: crc_update1_def ff_mask generateTable_nth table_entry_def)
qed

lemma crc_update_append: "crc_update crc (xs @ ys) = crc_update (crc_update crc xs) ys"
  by (simp add: crc_update_def)

lemma file_chunks_whole: "file_chunks n crc data = crc_update crc data"
proof (induction n crc data rule: file_chunks.induct)
  case (1 n crc data)
  then show ?case
    by (subst file_chunks.simps) (simp add: crc_update_append [symmetric])
qed

lemma crc_ref1_unfold:
  "crc_ref1 crc c = crc_shift (crc_shift (crc_shift (crc_shift (crc_shift (crc_shift (crc_shift (crc_shift (crc XOR crc_byte c))))))))"
  by (simp add: crc_ref1_def eval_nat_numeral)

lemma crc32_check: "crc32_ref ''123456789'' = 0xCBF43926"
  by (simp add: crc32_ref_def crc_byte_def crc_ref1_unfold crc_shift_def)

section \<open>Properties\<close>

text \<open>
  C36: The table-driven checksum of the source is the CRC-32 of bit-by-bit polynomial division, for
  strings of any length, and the checksum of a file read in 8192-byte pieces is the checksum of its
  contents; a missing file counts as 0. The check value of the standard comes out right.
\<close>

theorem crc32_table_driven:
  "computeString data = crc32_ref data \<and> computeFile (Some data) = computeString data \<and> computeFile None = 0 \<and>
    computeString ''123456789'' = 0xCBF43926"
proof (intro conjI)
  show ref: "computeString data = crc32_ref data" for data
    by (simp add: computeString_def crc32_ref_def crc_update_def crc_update1_ref [abs_def])
  show "computeFile (Some data) = computeString data" "computeFile None = 0"
    by (simp_all add: computeFile_def computeString_def file_chunks_whole)
  show "computeString ''123456789'' = 0xCBF43926"
    by (subst ref) (rule crc32_check)
qed

end
