(* ===== verification/RaftLog.thy ===== *)
theory RaftLog
  imports RaftProtocol Checksum Doubles
begin

text \<open>
  \<open>RaftLogArray\<close> (\<open>src/raft/raft_log_array.cpp\<close>, declared in \<open>include/raft/raft.h\<close>): the Raft log
  as an array of entries in memory, a write-ahead file of checksummed frames and an index file with
  the offset of each frame.

  The files are \<open>FILE\<close> streams with their contents and their position, because the offsets that go
  into the index are taken from \<open>ftell\<close>. Three things the C and C++ standards leave to the platform
  are parameters in the record \<open>platform\<close>: whether a stream opened in mode \<open>"ab+"\<close> starts at the
  end of the file or at its beginning (glibc: the beginning), whether the disk takes writes, and
  whether a thread may lock a \<open>std::shared_mutex\<close> it already holds (undefined by the standard;
  where locking is switched off, as in a process without threads, nothing happens). A further
  field says whether messages of level info are logged, because the arguments of some of them
  lock.
\<close>

section \<open>Streams\<close>

record platform =
  ab_at_end :: bool
  disk_ok :: bool
  relock_ok :: bool
  log_info :: bool

record stream =
  f_data :: bytes
  f_pos :: nat
  f_append :: bool

definition fopen_ab :: "platform \<Rightarrow> bytes \<Rightarrow> stream option" where
  "fopen_ab pf old = (if disk_ok pf
     then Some \<lparr>f_data = old, f_pos = (if ab_at_end pf then length old else 0), f_append = True\<rparr> else None)"

definition fopen_wb :: "platform \<Rightarrow> stream option" where
  "fopen_wb pf = (if disk_ok pf then Some \<lparr>f_data = [], f_pos = 0, f_append = False\<rparr> else None)"

text \<open>A write goes to the end in append mode and over what stands at the position otherwise.\<close>

definition fwrite :: "platform \<Rightarrow> bytes \<Rightarrow> stream \<Rightarrow> bool \<times> stream" where
  "fwrite pf bs f =
     (if \<not> disk_ok pf then (bs = [], f)
      else if f_append f then (True, f\<lparr>f_data := f_data f @ bs, f_pos := length (f_data f) + length bs\<rparr>)
      else (True, f\<lparr>f_data := take (f_pos f) (f_data f) @ bs @ drop (f_pos f + length bs) (f_data f),
                    f_pos := f_pos f + length bs\<rparr>))"

text \<open>\<open>fread\<close> of \<open>n\<close> bytes at an offset: a short read is a failure to every caller.\<close>

definition fread_at :: "nat \<Rightarrow> nat \<Rightarrow> stream \<Rightarrow> bytes option" where
  "fread_at off n f = (if off + n \<le> length (f_data f) then Some (take n (drop off (f_data f))) else None)"

section \<open>State\<close>

record raft_log_config =
  log_size_threshold :: u32
  truncate_ratio :: double

definition default_log_config :: raft_log_config where
  "default_log_config = \<lparr>log_size_threshold = 1000000, truncate_ratio = 0x3FD0000000000000\<rparr>"

record raft_log =
  l_entries :: "log_entry list"
  base_index :: u32
  index_offsets :: "u64 list"
  raft_wal :: "stream option"
  raft_idx :: "stream option"
  log_config :: raft_log_config

definition compute_checksum :: "bytes \<Rightarrow> u32" where
  "compute_checksum data = computeString data"

section \<open>Frames\<close>

definition frame :: "log_entry \<Rightarrow> bytes" where
  "frame e = (let data = ser_log_entry e
     in le32 (compute_checksum data) @ le32 (word_of_nat (length data)) @ data)"

definition write_entry_to_wal :: "platform \<Rightarrow> log_entry \<Rightarrow> raft_log \<Rightarrow> u64 option \<times> raft_log" where
  "write_entry_to_wal pf e l =
     (case raft_wal l of
        None \<Rightarrow> (None, l)
      | Some f \<Rightarrow>
          (let data = ser_log_entry e;
               (ok1, f1) = fwrite pf (le32 (compute_checksum data)) f
           in if \<not> ok1 then (None, l\<lparr>raft_wal := Some f1\<rparr>)
              else let (ok2, f2) = fwrite pf (le32 (word_of_nat (length data))) f1
                in if \<not> ok2 then (None, l\<lparr>raft_wal := Some f2\<rparr>)
                   else let (ok3, f3) = fwrite pf (take (length data mod 2 ^ 32) data) f2
                     in if \<not> ok3 then (None, l\<lparr>raft_wal := Some f3\<rparr>)
                        else (Some (word_of_nat (f_pos f)), l\<lparr>raft_wal := Some f3\<rparr>)))"

fun batch_offsets :: "u64 \<Rightarrow> log_entry list \<Rightarrow> u64 list" where
  "batch_offsets off [] = []"
| "batch_offsets off (e # es) =
     off # batch_offsets (off + 8 + word_of_nat (length (ser_log_entry e) mod 2 ^ 32)) es"

definition write_batch_to_wal :: "platform \<Rightarrow> log_entry list \<Rightarrow> raft_log \<Rightarrow> u64 list option \<times> raft_log" where
  "write_batch_to_wal pf es l =
     (case raft_wal l of
        None \<Rightarrow> (None, l)
      | Some f \<Rightarrow>
          if es = [] then (None, l)
          else let (ok, f') = fwrite pf (concat (map frame es)) f
            in if ok then (Some (batch_offsets (word_of_nat (f_pos f)) es), l\<lparr>raft_wal := Some f'\<rparr>)
               else (None, l\<lparr>raft_wal := Some f'\<rparr>))"

text \<open>
  Reading an entry back: header, data and checksum are checked, then the data are decoded. Every
  path but a failing \<open>fseek\<close> puts the stream position back, so it does not change here.
\<close>

definition read_entry_from_wal :: "u64 \<Rightarrow> raft_log \<Rightarrow> log_entry option res" where
  "read_entry_from_wal off l =
     (case raft_wal l of
        None \<Rightarrow> Inr None
      | Some f \<Rightarrow>
          (case (fread_at (unat off) 4 f, fread_at (unat off + 4) 4 f) of
             (Some c, Some n) \<Rightarrow>
               (case fread_at (unat off + 8) (unat (of_le32 n)) f of
                  None \<Rightarrow> Inr None
                | Some data \<Rightarrow>
                    if of_le32 c \<noteq> compute_checksum data then Inr None
                    else rbind (deserialize_log_entry data 0) (\<lambda>(e, _). Inr (Some e)))
           | _ \<Rightarrow> Inr None))"

definition write_index_entry :: "platform \<Rightarrow> u64 \<Rightarrow> raft_log \<Rightarrow> bool \<times> raft_log" where
  "write_index_entry pf off l =
     (case raft_idx l of
        None \<Rightarrow> (False, l)
      | Some f \<Rightarrow> (let (ok, f') = fwrite pf (le64 off) f in (ok, l\<lparr>raft_idx := Some f'\<rparr>)))"

definition append_to_index :: "platform \<Rightarrow> u64 \<Rightarrow> raft_log \<Rightarrow> bool \<times> raft_log" where
  "append_to_index pf off l = write_index_entry pf off (l\<lparr>index_offsets := index_offsets l @ [off]\<rparr>)"

section \<open>Reading\<close>

definition in_log :: "u32 \<Rightarrow> raft_log \<Rightarrow> bool" where
  "in_log i l \<longleftrightarrow> base_index l \<le> i \<and> unat i < unat (base_index l) + length (l_entries l)"

definition log_get :: "u32 \<Rightarrow> raft_log \<Rightarrow> log_entry option" where
  "log_get i l = (if in_log i l then Some (l_entries l ! unat (i - base_index l)) else None)"

definition get_last :: "raft_log \<Rightarrow> log_entry option" where
  "get_last l = (if l_entries l = [] then None else Some (last (l_entries l)))"

definition get_last_info :: "raft_log \<Rightarrow> bool \<times> u32 \<times> u32" where
  "get_last_info l = (if l_entries l = [] then (False, 0, 0)
     else (True, base_index l + word_of_nat (length (l_entries l)) - 1, le_term (last (l_entries l))))"

definition log_size :: "raft_log \<Rightarrow> u32" where
  "log_size l = word_of_nat (length (l_entries l))"

definition get_last_index :: "raft_log \<Rightarrow> u32" where
  "get_last_index l = (if l_entries l = [] then 0 else base_index l + word_of_nat (length (l_entries l)) - 1)"

definition get_base_index :: "raft_log \<Rightarrow> u32" where
  "get_base_index l = base_index l"

definition get_entries_from :: "u32 \<Rightarrow> raft_log \<Rightarrow> log_entry list" where
  "get_entries_from start l = (if start < base_index l then [] else drop (unat (start - base_index l)) (l_entries l))"

text \<open>The bound is an \<open>int\<close> that is added to a \<open>size_t\<close>: a negative one wraps around.\<close>

definition get_entries_from_max :: "u32 \<Rightarrow> u32 \<Rightarrow> raft_log \<Rightarrow> log_entry list" where
  "get_entries_from_max start max_count l =
     (if start < base_index l then []
      else let array_index = ucast (start - base_index l) :: u64;
               end_index = array_index + scast max_count
        in take (unat end_index - unat array_index) (drop (unat array_index) (l_entries l)))"

definition get_term :: "u32 \<Rightarrow> raft_log \<Rightarrow> u32" where
  "get_term i l = (if in_log i l then le_term (l_entries l ! unat (i - base_index l)) else 0)"

section \<open>Changing the log\<close>

text \<open>A call that locks \<open>mutex_\<close> made by a method that already holds it.\<close>

definition relock :: "platform \<Rightarrow> unit res" where
  "relock pf = (if relock_ok pf then Inr () else Inl UB)"

definition resize :: "nat \<Rightarrow> 'a::zero list \<Rightarrow> 'a list" where
  "resize n xs = take n (xs @ replicate n 0)"

definition rewrite_entry :: "platform \<Rightarrow> nat \<Rightarrow> raft_log \<Rightarrow> raft_log" where
  "rewrite_entry pf i l =
     (case write_entry_to_wal pf (l_entries l ! i) l of
        (None, l1) \<Rightarrow> l1
      | (Some off, l1) \<Rightarrow> snd (write_index_entry pf off (l1\<lparr>index_offsets := (index_offsets l1)[i := off]\<rparr>)))"

definition truncate_wal_and_index :: "platform \<Rightarrow> raft_log \<Rightarrow> raft_log" where
  "truncate_wal_and_index pf l =
     (let l1 = l\<lparr>raft_wal := fopen_wb pf, raft_idx := fopen_wb pf\<rparr>
      in if raft_wal l1 = None \<or> raft_idx l1 = None then l1
         else fold (rewrite_entry pf) [0..<length (l_entries l1)] l1)"

definition truncate_from :: "platform \<Rightarrow> u32 \<Rightarrow> raft_log \<Rightarrow> (bool \<times> raft_log) res" where
  "truncate_from pf i l =
     (if i < base_index l \<or> unat (base_index l) + length (l_entries l) < unat i then Inr (False, l)
      else rbind (relock pf) (\<lambda>_.
        if unat i = unat (base_index l) + length (l_entries l) then Inr (True, l)
        else
          let n = unat (i - base_index l);
              l1 = (if n < length (l_entries l)
                    then l\<lparr>l_entries := take n (l_entries l), index_offsets := resize n (index_offsets l)\<rparr> else l);
              l2 = truncate_wal_and_index pf l1
          in rbind (if log_info pf then relock pf else Inr ()) (\<lambda>_. Inr (True, l2))))"

definition truncate_before :: "platform \<Rightarrow> u32 \<Rightarrow> raft_log \<Rightarrow> (bool \<times> raft_log) res" where
  "truncate_before pf i l =
     (if i < base_index l \<or> unat (base_index l) + length (l_entries l) < unat i then Inr (False, l)
      else if i = base_index l then Inr (True, l)
      else
        let n = unat (i - base_index l);
            l1 = (if 0 < n
                  then l\<lparr>l_entries := drop n (l_entries l), index_offsets := drop n (index_offsets l), base_index := i\<rparr> else l);
            l2 = truncate_wal_and_index pf l1
        in rbind (if log_info pf then relock pf else Inr ()) (\<lambda>_. Inr (True, l2)))"

text \<open>The end of every append: the oldest part goes when the log is longer than the threshold.\<close>

definition truncate_count :: "raft_log \<Rightarrow> nat" where
  "truncate_count l =
     double_trunc (double_mul_fin (double_of_u64 (word_of_nat (length (l_entries l)))) (truncate_ratio (log_config l)))"

definition shrink :: "platform \<Rightarrow> raft_log \<Rightarrow> raft_log res" where
  "shrink pf l =
     (if unat (log_size_threshold (log_config l)) < length (l_entries l) \<and> 0 < truncate_count l
      then rbind (relock pf) (\<lambda>_.
           rbind (truncate_before pf (base_index l + word_of_nat (truncate_count l)) l) (\<lambda>(_, l'). Inr l'))
      else Inr l)"

text \<open>A failing write ends in \<open>return -1\<close>, which is \<open>true\<close> as a \<open>bool\<close>.\<close>

definition append_entry :: "platform \<Rightarrow> log_entry \<Rightarrow> raft_log \<Rightarrow> (bool \<times> raft_log) res" where
  "append_entry pf e l =
     (case write_entry_to_wal pf e l of
        (None, l1) \<Rightarrow> Inr (True, l1)
      | (Some off, l1) \<Rightarrow>
          rbind (shrink pf (snd (write_index_entry pf off
             (l1\<lparr>l_entries := l_entries l1 @ [e], index_offsets := index_offsets l1 @ [off]\<rparr>))))
            (\<lambda>l2. Inr (True, l2)))"

definition log_append :: "platform \<Rightarrow> log_entry \<Rightarrow> raft_log \<Rightarrow> (bool \<times> log_entry \<times> raft_log) res" where
  "log_append pf e l =
     (let e' = e\<lparr>le_index := base_index l + word_of_nat (length (l_entries l))\<rparr>
      in rbind (append_entry pf e' l) (\<lambda>(ok, l'). Inr (ok, e', l')))"

definition log_append_const :: "platform \<Rightarrow> log_entry \<Rightarrow> raft_log \<Rightarrow> (bool \<times> raft_log) res" where
  "log_append_const pf e l = append_entry pf e l"

fun assign_indexes :: "u32 \<Rightarrow> log_entry list \<Rightarrow> log_entry list" where
  "assign_indexes i [] = []"
| "assign_indexes i (e # es) = e\<lparr>le_index := i\<rparr> # assign_indexes (i + 1) es"

definition append_batch :: "platform \<Rightarrow> log_entry list \<Rightarrow> raft_log \<Rightarrow> (bool \<times> raft_log) res" where
  "append_batch pf es l =
     (case write_batch_to_wal pf es l of
        (None, l1) \<Rightarrow> Inr (False, l1)
      | (Some offs, l1) \<Rightarrow>
          (let (ok, l2) = (case raft_idx l1 of
                 None \<Rightarrow> (True, l1)
               | Some f \<Rightarrow> (let (ok, f') = fwrite pf (concat (map le64 offs)) f in (ok, l1\<lparr>raft_idx := Some f'\<rparr>)))
           in if \<not> ok then Inr (False, l2)
              else rbind (shrink pf (l2\<lparr>l_entries := l_entries l2 @ es, index_offsets := index_offsets l2 @ offs\<rparr>))
                (\<lambda>l3. Inr (True, l3))))"

definition batch_append :: "platform \<Rightarrow> log_entry list \<Rightarrow> raft_log \<Rightarrow> (bool \<times> log_entry list \<times> raft_log) res" where
  "batch_append pf es l =
     (if es = [] then Inr (True, es, l)
      else let es' = assign_indexes (base_index l + word_of_nat (length (l_entries l))) es
        in rbind (append_batch pf es' l) (\<lambda>(ok, l'). Inr (ok, es', l')))"

definition batch_append_const :: "platform \<Rightarrow> log_entry list \<Rightarrow> raft_log \<Rightarrow> (bool \<times> raft_log) res" where
  "batch_append_const pf es l = (if es = [] then Inr (True, l) else append_batch pf es l)"

definition create_snapshot :: "platform \<Rightarrow> u32 \<Rightarrow> raft_log \<Rightarrow> (bool \<times> raft_log) res" where
  "create_snapshot pf i l =
     (if \<not> in_log i l then Inr (False, l) else rbind (relock pf) (\<lambda>_. truncate_before pf (i + 1) l))"

definition log_reset :: "platform \<Rightarrow> u32 \<Rightarrow> raft_log \<Rightarrow> bool \<times> raft_log" where
  "log_reset pf start l =
     (let l1 = l\<lparr>l_entries := [], index_offsets := [], base_index := start, raft_wal := fopen_wb pf, raft_idx := fopen_wb pf\<rparr>
      in (raft_wal l1 \<noteq> None \<and> raft_idx l1 \<noteq> None, l1))"

section \<open>Recovery\<close>

function read_offsets :: "bytes \<Rightarrow> u64 list" where
  "read_offsets bs = (if 8 \<le> length bs then of_le64 (take 8 bs) # read_offsets (drop 8 bs) else [])"
  by pat_completeness auto
termination by (relation "measure length") auto

declare read_offsets.simps [simp del]

definition load_index :: "raft_log \<Rightarrow> bool \<times> raft_log" where
  "load_index l =
     (case raft_idx l of
        None \<Rightarrow> (False, l)
      | Some f \<Rightarrow> (True, l\<lparr>index_offsets := read_offsets (f_data f), raft_idx := Some (f\<lparr>f_pos := length (f_data f)\<rparr>)\<rparr>))"

fun load_entries :: "u64 list \<Rightarrow> raft_log \<Rightarrow> (bool \<times> raft_log) res" where
  "load_entries [] l = Inr (True, l)"
| "load_entries (off # offs) l =
     rbind (read_entry_from_wal off l) (\<lambda>r. case r of
         None \<Rightarrow> Inr (False, l)
       | Some e \<Rightarrow> load_entries offs (l\<lparr>l_entries := l_entries l @ [e]\<rparr>))"

definition log_recover :: "raft_log \<Rightarrow> raft_log res" where
  "log_recover l =
     (let (ok, l1) = load_index l
      in if \<not> ok then Inr l1
         else rbind (load_entries (index_offsets l1) (l1\<lparr>l_entries := []\<rparr>)) (\<lambda>(ok, l2).
           if \<not> ok then Inr (l2\<lparr>l_entries := [], index_offsets := [], base_index := 1\<rparr>)
           else Inr (l2\<lparr>base_index := (case l_entries l2 of [] \<Rightarrow> 1 | e # _ \<Rightarrow> le_index e)\<rparr>)))"

definition raft_log_new :: "platform \<Rightarrow> raft_log_config \<Rightarrow> bytes \<Rightarrow> bytes \<Rightarrow> raft_log res" where
  "raft_log_new pf cfg wal_bytes idx_bytes =
     (if \<not> disk_ok pf then Inl (RuntimeError ''Failed to open WAL file: '')
      else log_recover \<lparr>l_entries = [], base_index = 1, index_offsets = [],
        raft_wal = fopen_ab pf wal_bytes, raft_idx = fopen_ab pf idx_bytes, log_config = cfg\<rparr>)"

text \<open>What the two files hold when the process goes away, and the log opened on them.\<close>

definition wal_bytes :: "raft_log \<Rightarrow> bytes" where
  "wal_bytes l = (case raft_wal l of None \<Rightarrow> [] | Some f \<Rightarrow> f_data f)"

definition idx_bytes :: "raft_log \<Rightarrow> bytes" where
  "idx_bytes l = (case raft_idx l of None \<Rightarrow> [] | Some f \<Rightarrow> f_data f)"

definition log_restart :: "platform \<Rightarrow> raft_log \<Rightarrow> raft_log res" where
  "log_restart pf l = raft_log_new pf (log_config l) (wal_bytes l) (idx_bytes l)"

section \<open>Files in step with memory\<close>

text \<open>
  The invariant: the index file lists the offsets, each offset leads to the frame of its entry, and
  both streams stand at their end.
\<close>

definition frame_ok :: "log_entry \<Rightarrow> bool" where
  "frame_ok e \<longleftrightarrow> log_entry_ok e \<and> length (ser_log_entry e) < 2 ^ 32"

definition framed :: "bytes \<Rightarrow> u64 \<Rightarrow> log_entry \<Rightarrow> bool" where
  "framed bs off e \<longleftrightarrow> (\<exists>pre post. bs = pre @ frame e @ post \<and> unat off = length pre)"

definition at_end :: "stream \<Rightarrow> bool" where
  "at_end f \<longleftrightarrow> f_pos f = length (f_data f)"

definition files_agree :: "raft_log \<Rightarrow> bool" where
  "files_agree l \<longleftrightarrow> (case (raft_wal l, raft_idx l) of
       (Some fw, Some fi) \<Rightarrow> at_end fw \<and> at_end fi \<and> f_data fi = concat (map le64 (index_offsets l)) \<and>
         list_all2 (framed (f_data fw)) (index_offsets l) (l_entries l) \<and>
         length (concat (map frame (l_entries l))) \<le> length (f_data fw)
     | _ \<Rightarrow> False) \<and> list_all frame_ok (l_entries l)"

definition numbered :: "raft_log \<Rightarrow> bool" where
  "numbered l \<longleftrightarrow> map le_index (l_entries l) = map (\<lambda>i. base_index l + word_of_nat i) [0..<length (l_entries l)]"

lemma length_frame: "length (frame e) = 8 + length (ser_log_entry e)"
  by (simp add: frame_def Let_def)

lemma frame_ok_index [simp]: "frame_ok (e\<lparr>le_index := i\<rparr>) = frame_ok e"
  by (simp add: frame_ok_def log_entry_ok_def ser_log_entry_def)

lemma framed_append: "framed bs off e \<Longrightarrow> framed (bs @ rest) off e"
  unfolding framed_def by (metis append.assoc)

lemma framed_new: "length bs < 2 ^ 64 \<Longrightarrow> framed (bs @ frame e @ rest) (word_of_nat (length bs)) e"
  unfolding framed_def by (intro exI [of _ bs] exI [of _ rest]) (simp add: unat_of_nat_lt)

text \<open>At the end of a stream, writing appends in either mode.\<close>

lemma fwrite_at_end:
  assumes "disk_ok pf" "at_end f"
  shows "\<exists>f'. fwrite pf bs f = (True, f') \<and> f_data f' = f_data f @ bs \<and> at_end f' \<and> f_append f' = f_append f"
  using assms by (auto simp: fwrite_def at_end_def)

lemma write_entry_at_end:
  assumes "disk_ok pf" "raft_wal l = Some f" "at_end f" "frame_ok e"
  shows "\<exists>f'. write_entry_to_wal pf e l = (Some (word_of_nat (length (f_data f))), l\<lparr>raft_wal := Some f'\<rparr>) \<and>
    f_data f' = f_data f @ frame e \<and> at_end f'"
proof -
  let ?d = "ser_log_entry e"
  have len: "length ?d mod 2 ^ 32 = length ?d" using assms(4) by (simp add: frame_ok_def)
  obtain f1 where 1: "fwrite pf (le32 (compute_checksum ?d)) f = (True, f1)" "f_data f1 = f_data f @ le32 (compute_checksum ?d)" "at_end f1"
    using fwrite_at_end [OF assms(1,3)] by blast
  obtain f2 where 2: "fwrite pf (le32 (word_of_nat (length ?d))) f1 = (True, f2)" "f_data f2 = f_data f1 @ le32 (word_of_nat (length ?d))" "at_end f2"
    using fwrite_at_end [OF assms(1) 1(3)] by blast
  obtain f3 where 3: "fwrite pf ?d f2 = (True, f3)" "f_data f3 = f_data f2 @ ?d" "at_end f3"
    using fwrite_at_end [OF assms(1) 2(3)] by blast
  have "write_entry_to_wal pf e l = (Some (word_of_nat (length (f_data f))), l\<lparr>raft_wal := Some f3\<rparr>)"
    unfolding write_entry_to_wal_def Let_def len using assms(2,3) 1 2 3 by (simp add: at_end_def)
  moreover have "f_data f3 = f_data f @ frame e"
    using 1(2) 2(2) 3(2) by (simp add: frame_def Let_def)
  ultimately show ?thesis using 3(3) by blast
qed

lemma read_entry_framed:
  assumes "raft_wal l = Some f" "framed (f_data f) off e" "frame_ok e"
  shows "read_entry_from_wal off l = Inr (Some e)"
proof -
  let ?d = "ser_log_entry e" and ?o = "unat off"
  obtain pre post where bs: "f_data f = pre @ frame e @ post" and off: "?o = length pre"
    using assms(2) by (auto simp: framed_def)
  have len: "unat (word_of_nat (length ?d) :: u32) = length ?d"
    using assms(3) by (simp add: frame_ok_def unat_of_nat_lt)
  have "fread_at ?o 4 f = Some (le32 (compute_checksum ?d))"
    "fread_at (?o + 4) 4 f = Some (le32 (word_of_nat (length ?d)))"
    "fread_at (?o + 8) (length ?d) f = Some ?d"
    by (simp_all add: fread_at_def bs off frame_def Let_def)
  moreover have "deserialize_log_entry ?d 0 = Inr (e, length ?d)"
    using lge.dec_norm [of e "[]" "[]"] assms(3) by (simp add: frame_ok_def)
  ultimately show ?thesis by (simp add: read_entry_from_wal_def assms(1) len)
qed

lemma read_offsets_back: "read_offsets (concat (map le64 offs)) = offs"
  by (induction offs) (subst read_offsets.simps, simp)+

lemma load_entries_framed:
  assumes "raft_wal l = Some f" "list_all2 (framed (f_data f)) offs es" "list_all frame_ok es"
  shows "load_entries offs l = Inr (True, l\<lparr>l_entries := l_entries l @ es\<rparr>)"
  using assms(2,1,3)
proof (induction offs es arbitrary: l rule: list_all2_induct)
  case (Cons off offs e es)
  have "read_entry_from_wal off l = Inr (Some e)" using read_entry_framed Cons by simp
  then show ?case using Cons.IH [of "l\<lparr>l_entries := l_entries l @ [e]\<rparr>"] Cons.prems by simp
qed simp

lemma at_endD: "at_end f \<Longrightarrow> f_pos f = length (f_data f)"
  by (simp add: at_end_def)

text \<open>Opening the log on the files of a log in step gives the same entries back.\<close>

lemma restart_agree:
  assumes "files_agree l" "disk_ok pf"
  obtains l' where "log_restart pf l = Inr l'" "l_entries l' = l_entries l" "index_offsets l' = index_offsets l"
    "base_index l' = (case l_entries l of [] \<Rightarrow> 1 | e # _ \<Rightarrow> le_index e)" "log_config l' = log_config l"
    "wal_bytes l' = wal_bytes l" "idx_bytes l' = idx_bytes l"
    "raft_wal l' = fopen_ab pf (wal_bytes l)" "ab_at_end pf \<or> l_entries l = [] \<and> wal_bytes l = [] \<Longrightarrow> files_agree l'"
proof -
  obtain fw fi where f: "raft_wal l = Some fw" "raft_idx l = Some fi" "f_data fi = concat (map le64 (index_offsets l))"
    "list_all2 (framed (f_data fw)) (index_offsets l) (l_entries l)" "list_all frame_ok (l_entries l)"
    "length (concat (map frame (l_entries l))) \<le> length (f_data fw)"
    using assms(1) by (auto simp: files_agree_def split: option.splits)
  let ?l = "\<lparr>l_entries = [], base_index = 1, index_offsets = index_offsets l, raft_wal = fopen_ab pf (f_data fw),
      raft_idx = map_option (\<lambda>f. f\<lparr>f_pos := length (f_data f)\<rparr>) (fopen_ab pf (f_data fi)), log_config = log_config l\<rparr>"
  let ?l' = "?l\<lparr>l_entries := l_entries l, base_index := (case l_entries l of [] \<Rightarrow> 1 | e # _ \<Rightarrow> le_index e)\<rparr>"
  have "load_entries (index_offsets l) ?l = Inr (True, ?l\<lparr>l_entries := l_entries l\<rparr>)"
    using load_entries_framed [of ?l "the (fopen_ab pf (f_data fw))" "index_offsets l" "l_entries l"] f assms(2) by (simp add: fopen_ab_def)
  then have "log_restart pf l = Inr ?l'"
    using f assms(2)
    by (simp add: log_restart_def raft_log_new_def log_recover_def load_index_def wal_bytes_def idx_bytes_def fopen_ab_def read_offsets_back)
  then show ?thesis
    by (rule that) (use f assms(2) in \<open>auto simp: wal_bytes_def idx_bytes_def fopen_ab_def files_agree_def at_end_def\<close>)
qed

text \<open>Writing the files anew from memory.\<close>

lemma rewrite_entries:
  assumes "disk_ok pf" "list_all frame_ok es" "l_entries l = es" "length (index_offsets l) = length es"
    "length (concat (map frame es)) < 2 ^ 64"
    "raft_wal l = fopen_wb pf" "raft_idx l = fopen_wb pf" "k \<le> length es"
  shows "\<exists>offs fw fi. fold (rewrite_entry pf) [0..<k] l =
      l\<lparr>index_offsets := offs @ drop k (index_offsets l), raft_wal := Some fw, raft_idx := Some fi\<rparr> \<and>
    f_data fw = concat (map frame (take k es)) \<and> at_end fw \<and> f_data fi = concat (map le64 offs) \<and> at_end fi \<and>
    list_all2 (framed (f_data fw)) offs (take k es)"
  using assms(8)
proof (induction k)
  case 0
  have "raft_wal l = Some \<lparr>f_data = [], f_pos = 0, f_append = False\<rparr>" "raft_idx l = Some \<lparr>f_data = [], f_pos = 0, f_append = False\<rparr>"
    using assms(1,6,7) by (simp_all add: fopen_wb_def)
  then show ?case
    by (intro exI [of _ "[]"] exI [of _ "\<lparr>f_data = [], f_pos = 0, f_append = False\<rparr>"]) (simp add: at_end_def)
next
  case (Suc k)
  then obtain offs fw fi where ih: "fold (rewrite_entry pf) [0..<k] l =
      l\<lparr>index_offsets := offs @ drop k (index_offsets l), raft_wal := Some fw, raft_idx := Some fi\<rparr>"
    "f_data fw = concat (map frame (take k es))" "at_end fw" "f_data fi = concat (map le64 offs)" "at_end fi"
    "list_all2 (framed (f_data fw)) offs (take k es)" by auto
  let ?l = "l\<lparr>index_offsets := offs @ drop k (index_offsets l), raft_wal := Some fw, raft_idx := Some fi\<rparr>"
  let ?o = "word_of_nat (length (f_data fw)) :: u64"
  have k: "length offs = k" using list_all2_lengthD [OF ih(6)] Suc.prems by simp
  have ok: "frame_ok (es ! k)" using assms(2) Suc.prems by (simp add: list_all_length)
  have take: "take (Suc k) es = take k es @ [es ! k]" using Suc.prems by (simp add: take_Suc_conv_app_nth)
  have "length (concat (map frame (take k es))) \<le> length (concat (map frame (take k es @ drop k es)))"
    unfolding map_append concat_append by simp
  then have fits: "length (f_data fw) < 2 ^ 64" using assms(5) ih(2) by simp
  obtain fw' where w: "write_entry_to_wal pf (es ! k) ?l = (Some ?o, ?l\<lparr>raft_wal := Some fw'\<rparr>)"
    "f_data fw' = f_data fw @ frame (es ! k)" "at_end fw'"
    using write_entry_at_end [OF assms(1) _ ih(3) ok, of ?l] by auto
  obtain fi' where i: "fwrite pf (le64 ?o) fi = (True, fi')" "f_data fi' = f_data fi @ le64 ?o" "at_end fi'"
    using fwrite_at_end [OF assms(1) ih(5)] by blast
  have "(offs @ drop k (index_offsets l))[k := ?o] = (offs @ [?o]) @ drop (Suc k) (index_offsets l)"
    using k Suc.prems assms(4) Cons_nth_drop_Suc [of k "index_offsets l", symmetric] by (simp add: list_update_append)
  then have "rewrite_entry pf k ?l = l\<lparr>index_offsets := (offs @ [?o]) @ drop (Suc k) (index_offsets l), raft_wal := Some fw', raft_idx := Some fi'\<rparr>"
    using w i assms(3) by (simp add: rewrite_entry_def write_index_entry_def)
  then have "fold (rewrite_entry pf) [0..<Suc k] l = l\<lparr>index_offsets := (offs @ [?o]) @ drop (Suc k) (index_offsets l), raft_wal := Some fw', raft_idx := Some fi'\<rparr>"
    using ih(1) by simp
  moreover have "list_all2 (framed (f_data fw')) (offs @ [?o]) (take (Suc k) es)"
    unfolding take using ih(6) framed_new [OF fits, of "es ! k" "[]"]
    by (auto intro!: list_all2_appendI simp: w(2) elim!: list_all2_mono intro: framed_append)
  ultimately show ?case
    by (intro exI [of _ "offs @ [?o]"] exI [of _ fw'] exI [of _ fi']) (use w i ih take in simp)
qed

lemma truncate_wal_agree:
  assumes "disk_ok pf" "list_all frame_ok (l_entries l)" "length (index_offsets l) = length (l_entries l)"
    "length (concat (map frame (l_entries l))) < 2 ^ 64"
  obtains l' where "truncate_wal_and_index pf l = l'" "files_agree l'" "l_entries l' = l_entries l" "base_index l' = base_index l"
    "log_config l' = log_config l"
proof -
  let ?l = "l\<lparr>raft_wal := fopen_wb pf, raft_idx := fopen_wb pf\<rparr>"
  from rewrite_entries [OF assms(1,2), of ?l "length (l_entries l)"] assms(3,4)
  obtain offs fw fi where r: "fold (rewrite_entry pf) [0..<length (l_entries l)] ?l =
      ?l\<lparr>index_offsets := offs, raft_wal := Some fw, raft_idx := Some fi\<rparr>"
    "at_end fw" "f_data fi = concat (map le64 offs)" "at_end fi" "list_all2 (framed (f_data fw)) offs (l_entries l)"
    "f_data fw = concat (map frame (l_entries l))"
    by auto
  have "truncate_wal_and_index pf l = ?l\<lparr>index_offsets := offs, raft_wal := Some fw, raft_idx := Some fi\<rparr>"
    using r(1) assms(1) by (simp add: truncate_wal_and_index_def Let_def fopen_wb_def)
  then show ?thesis
    by (rule that) (use r assms(2) in \<open>simp_all add: files_agree_def\<close>)
qed

lemma files_agreeE:
  assumes "files_agree l"
  obtains fw fi where "raft_wal l = Some fw" "raft_idx l = Some fi" "at_end fw" "at_end fi" "wal_bytes l = f_data fw"
    "f_data fi = concat (map le64 (index_offsets l))" "list_all2 (framed (f_data fw)) (index_offsets l) (l_entries l)"
    "length (concat (map frame (l_entries l))) \<le> length (f_data fw)" "list_all frame_ok (l_entries l)"
    "length (index_offsets l) = length (l_entries l)"
  using assms by (auto simp: files_agree_def wal_bytes_def list_all2_lengthD split: option.splits)

lemma batch_offsets_framed:
  assumes "list_all frame_ok es" "length bs + length (concat (map frame es)) < 2 ^ 64"
  shows "list_all2 (framed (bs @ concat (map frame es))) (batch_offsets (word_of_nat (length bs)) es) es"
  using assms
proof (induction es arbitrary: bs)
  case (Cons e es)
  have len: "length (ser_log_entry e) mod 2 ^ 32 = length (ser_log_entry e)" using Cons.prems(1) by (simp add: frame_ok_def)
  have eq: "word_of_nat (length bs) + 8 + word_of_nat (length (ser_log_entry e)) = (word_of_nat (length (bs @ frame e)) :: u64)"
    by (simp add: length_frame)
  have "list_all2 (framed ((bs @ frame e) @ concat (map frame es))) (batch_offsets (word_of_nat (length (bs @ frame e))) es) es"
    using Cons.prems by (intro Cons.IH) auto
  moreover have "framed (bs @ frame e @ concat (map frame es)) (word_of_nat (length bs)) e"
    using Cons.prems(2) by (intro framed_new) simp
  ultimately show ?case unfolding batch_offsets.simps len eq by simp
qed simp

text \<open>Entries appended to both files at their end.\<close>

lemma files_agree_extend:
  assumes "files_agree l" "list_all frame_ok es" "length (wal_bytes l) + length (concat (map frame es)) < 2 ^ 64"
    "offs = batch_offsets (word_of_nat (length (wal_bytes l))) es"
    "raft_wal l' = Some fw'" "f_data fw' = wal_bytes l @ concat (map frame es)" "at_end fw'"
    "raft_idx l' = Some fi'" "f_data fi' = idx_bytes l @ concat (map le64 offs)" "at_end fi'"
    "l_entries l' = l_entries l @ es" "index_offsets l' = index_offsets l @ offs"
  shows "files_agree l'"
proof -
  from assms(1) obtain fw fi where f: "raft_wal l = Some fw" "raft_idx l = Some fi" "wal_bytes l = f_data fw"
    "f_data fi = concat (map le64 (index_offsets l))" "list_all2 (framed (f_data fw)) (index_offsets l) (l_entries l)"
    "length (concat (map frame (l_entries l))) \<le> length (f_data fw)" "list_all frame_ok (l_entries l)"
    by (rule files_agreeE)
  have "list_all2 (framed (f_data fw')) (index_offsets l) (l_entries l)"
    using f(5) by (rule list_all2_mono) (simp add: assms(6) f(3) framed_append)
  moreover have "list_all2 (framed (f_data fw')) offs es"
    unfolding assms(4,6) by (rule batch_offsets_framed) (use assms in auto)
  ultimately have "list_all2 (framed (f_data fw')) (index_offsets l') (l_entries l')"
    by (simp add: assms(11,12) list_all2_appendI)
  then show ?thesis
    using f assms by (simp add: files_agree_def idx_bytes_def)
qed

definition appended :: "log_entry list \<Rightarrow> raft_log \<Rightarrow> raft_log \<Rightarrow> bool" where
  "appended es l l1 \<longleftrightarrow> files_agree l1 \<and> l_entries l1 = l_entries l @ es \<and> base_index l1 = base_index l \<and> log_config l1 = log_config l \<and>
     length (wal_bytes l1) = length (wal_bytes l) + length (concat (map frame es))"

lemma append_entry_agree:
  assumes "files_agree l" "disk_ok pf" "frame_ok e" "length (wal_bytes l) + length (frame e) < 2 ^ 64"
  obtains l1 where "appended [e] l l1" "append_entry pf e l = rbind (shrink pf l1) (\<lambda>l2. Inr (True, l2))"
proof -
  from assms(1) obtain fw fi where f: "raft_wal l = Some fw" "raft_idx l = Some fi" "at_end fw" "at_end fi" "wal_bytes l = f_data fw"
    by (rule files_agreeE)
  let ?o = "word_of_nat (length (f_data fw)) :: u64"
  obtain fw' where w: "write_entry_to_wal pf e l = (Some ?o, l\<lparr>raft_wal := Some fw'\<rparr>)" "f_data fw' = f_data fw @ frame e" "at_end fw'"
    using write_entry_at_end [OF assms(2) f(1,3) assms(3)] by blast
  obtain fi' where i: "fwrite pf (le64 ?o) fi = (True, fi')" "f_data fi' = f_data fi @ le64 ?o" "at_end fi'"
    using fwrite_at_end [OF assms(2) f(4)] by blast
  let ?l1 = "l\<lparr>raft_wal := Some fw', l_entries := l_entries l @ [e], index_offsets := index_offsets l @ [?o], raft_idx := Some fi'\<rparr>"
  have "files_agree ?l1"
    by (rule files_agree_extend [OF assms(1), of "[e]" "[?o]" _ fw' fi'])
      (use assms w i f in \<open>simp_all add: idx_bytes_def\<close>)
  then have "appended [e] l ?l1" using w f by (simp add: appended_def wal_bytes_def)
  moreover have "append_entry pf e l = rbind (shrink pf ?l1) (\<lambda>l2. Inr (True, l2))"
    using w i f by (simp add: append_entry_def write_index_entry_def)
  ultimately show ?thesis by (rule that)
qed

lemma append_batch_agree:
  assumes "files_agree l" "disk_ok pf" "es \<noteq> []" "list_all frame_ok es" "length (wal_bytes l) + length (concat (map frame es)) < 2 ^ 64"
  obtains l1 where "appended es l l1" "append_batch pf es l = rbind (shrink pf l1) (\<lambda>l2. Inr (True, l2))"
proof -
  from assms(1) obtain fw fi where f: "raft_wal l = Some fw" "raft_idx l = Some fi" "at_end fw" "at_end fi" "wal_bytes l = f_data fw"
    by (rule files_agreeE)
  let ?offs = "batch_offsets (word_of_nat (length (f_data fw))) es"
  obtain fw' where w: "fwrite pf (concat (map frame es)) fw = (True, fw')" "f_data fw' = f_data fw @ concat (map frame es)" "at_end fw'"
    using fwrite_at_end [OF assms(2) f(3)] by blast
  obtain fi' where i: "fwrite pf (concat (map le64 ?offs)) fi = (True, fi')" "f_data fi' = f_data fi @ concat (map le64 ?offs)" "at_end fi'"
    using fwrite_at_end [OF assms(2) f(4)] by blast
  let ?l1 = "l\<lparr>raft_wal := Some fw', raft_idx := Some fi', l_entries := l_entries l @ es, index_offsets := index_offsets l @ ?offs\<rparr>"
  have "files_agree ?l1"
    by (rule files_agree_extend [OF assms(1,4,5) _, of ?offs _ fw' fi'])
      (use w i f in \<open>simp_all add: idx_bytes_def\<close>)
  then have "appended es l ?l1" using w f by (simp add: appended_def wal_bytes_def)
  moreover have "append_batch pf es l = rbind (shrink pf ?l1) (\<lambda>l2. Inr (True, l2))"
    using w i f assms(3) by (simp add: append_batch_def write_batch_to_wal_def at_endD)
  ultimately show ?thesis by (rule that)
qed

lemma frames_part:
  "length (concat (map frame (drop n es))) \<le> length (concat (map frame es))"
  "length (concat (map frame (take n es))) \<le> length (concat (map frame es))"
proof -
  have "concat (map frame es) = concat (map frame (take n es)) @ concat (map frame (drop n es))"
    by (metis append_take_drop_id concat_append map_append)
  then show "length (concat (map frame (drop n es))) \<le> length (concat (map frame es))"
    "length (concat (map frame (take n es))) \<le> length (concat (map frame es))" by simp_all
qed

lemma list_all_part: "list_all P xs \<Longrightarrow> list_all P (drop n xs)" "list_all P xs \<Longrightarrow> list_all P (take n xs)"
  by (auto simp: list_all_iff dest: in_set_dropD in_set_takeD)

lemma numbered_drop:
  assumes "numbered l" "l_entries l' = drop n (l_entries l)" "base_index l' = base_index l + word_of_nat n"
  shows "numbered l'"
proof -
  have "map le_index (l_entries l') = drop n (map (\<lambda>i. base_index l + word_of_nat i) [0..<length (l_entries l)])"
    using assms(1) by (simp add: assms(2) numbered_def drop_map [symmetric])
  then show ?thesis
    unfolding numbered_def assms(2,3) drop_map [symmetric] by (intro nth_equalityI) (simp_all add: algebra_simps)
qed

lemma numbered_take:
  assumes "numbered l" "l_entries l' = take n (l_entries l)" "base_index l' = base_index l"
  shows "numbered l'"
proof -
  have "map le_index (l_entries l') = take n (map (\<lambda>i. base_index l + word_of_nat i) [0..<length (l_entries l)])"
    using assms(1) by (simp add: assms(2) numbered_def take_map [symmetric])
  then show ?thesis
    unfolding numbered_def assms(2,3) take_map [symmetric] by (intro nth_equalityI) simp_all
qed

text \<open>Cutting off a prefix: what every branch of \<open>truncate_before\<close> and \<open>shrink\<close> does to the log.\<close>

definition cut_before :: "nat \<Rightarrow> raft_log \<Rightarrow> raft_log \<Rightarrow> bool" where
  "cut_before n l l' \<longleftrightarrow> files_agree l' \<and> n \<le> length (l_entries l) \<and> l_entries l' = drop n (l_entries l) \<and>
     base_index l' = base_index l + word_of_nat n \<and> log_config l' = log_config l"

lemma cut_before_refl: "files_agree l \<Longrightarrow> cut_before 0 l l"
  by (simp add: cut_before_def)

lemma truncate_before_agree:
  assumes "files_agree l" "disk_ok pf" "length (wal_bytes l) < 2 ^ 64" "truncate_before pf i l = Inr (ok, l')"
  shows "cut_before (if ok then unat (i - base_index l) else 0) l l'"
proof (cases "i < base_index l \<or> unat (base_index l) + length (l_entries l) < unat i \<or> i = base_index l")
  case True
  then show ?thesis using assms by (auto simp: truncate_before_def cut_before_refl split: if_splits)
next
  case False
  let ?n = "unat (i - base_index l)"
  let ?l = "l\<lparr>l_entries := drop ?n (l_entries l), index_offsets := drop ?n (index_offsets l), base_index := i\<rparr>"
  have "unat i \<noteq> unat (base_index l)" using False by (simp add: word_unat_eq_iff)
  then have n: "0 < ?n" "?n \<le> length (l_entries l)" "base_index l + word_of_nat ?n = i"
    using False by (auto simp: unat_sub_if' word_le_nat_alt word_less_nat_alt)
  have f: "length (concat (map frame (l_entries l))) \<le> length (wal_bytes l)" "list_all frame_ok (l_entries l)"
    "length (index_offsets l) = length (l_entries l)"
    using assms(1) by (auto elim: files_agreeE)
  have "length (concat (map frame (l_entries ?l))) < 2 ^ 64"
    using frames_part(1) [of ?n "l_entries l"] f(1) assms(3) by simp
  then obtain l2 where r: "truncate_wal_and_index pf ?l = l2" "files_agree l2" "l_entries l2 = drop ?n (l_entries l)" "base_index l2 = i"
      "log_config l2 = log_config l"
    using truncate_wal_agree [of pf ?l] assms(2) f list_all_part(1) by auto
  have "ok" "l' = l2"
    using assms(4) False n r(1) by (auto simp: truncate_before_def Let_def rbind_eq_Inr_iff)
  then show ?thesis using r n by (simp add: cut_before_def)
qed

lemma shrink_agree:
  assumes "files_agree l" "disk_ok pf" "length (wal_bytes l) < 2 ^ 64" "shrink pf l = Inr l'"
  shows "\<exists>n. cut_before n l l'"
proof (cases "unat (log_size_threshold (log_config l)) < length (l_entries l) \<and> 0 < truncate_count l")
  case True
  then obtain ok where "truncate_before pf (base_index l + word_of_nat (truncate_count l)) l = Inr (ok, l')"
    using assms(4) by (auto simp: shrink_def rbind_eq_Inr_iff)
  from truncate_before_agree [OF assms(1-3) this] show ?thesis by blast
next
  case False
  then show ?thesis using assms by (intro exI [of _ 0]) (auto simp: shrink_def cut_before_refl)
qed

lemma truncate_from_agree:
  assumes "files_agree l" "disk_ok pf" "length (wal_bytes l) < 2 ^ 64" "truncate_from pf i l = Inr (ok, l')"
  shows "files_agree l' \<and> l_entries l' = (if ok then take (unat (i - base_index l)) (l_entries l) else l_entries l) \<and>
    base_index l' = base_index l \<and> log_config l' = log_config l"
proof (cases "i < base_index l \<or> unat (base_index l) + length (l_entries l) < unat i \<or> unat i = unat (base_index l) + length (l_entries l)")
  case True
  then show ?thesis
    using assms by (auto simp: truncate_from_def unat_sub_if' word_less_nat_alt rbind_eq_Inr_iff split: if_splits)
next
  case False
  let ?n = "unat (i - base_index l)"
  let ?l = "l\<lparr>l_entries := take ?n (l_entries l), index_offsets := resize ?n (index_offsets l)\<rparr>"
  have n: "?n < length (l_entries l)"
    using False by (auto simp: unat_sub_if' word_le_nat_alt word_less_nat_alt)
  have f: "length (concat (map frame (l_entries l))) \<le> length (wal_bytes l)" "list_all frame_ok (l_entries l)"
    "length (index_offsets l) = length (l_entries l)"
    using assms(1) by (auto elim: files_agreeE)
  have "length (concat (map frame (l_entries ?l))) < 2 ^ 64"
    using frames_part(2) [of ?n "l_entries l"] f(1) assms(3) by simp
  then obtain l2 where r: "truncate_wal_and_index pf ?l = l2" "files_agree l2" "l_entries l2 = take ?n (l_entries l)"
      "base_index l2 = base_index l" "log_config l2 = log_config l"
    using truncate_wal_agree [of pf ?l] assms(2) f n list_all_part(2) by (auto simp: resize_def)
  have "ok" "l' = l2"
    using assms(4) False n r(1) by (auto simp: truncate_from_def Let_def rbind_eq_Inr_iff)
  then show ?thesis using r by simp
qed

section \<open>The log as a numbered sequence\<close>

text \<open>
  The contract of the log: a sequence of entries and the index of the first one. The operations of
  \<open>RaftLogArray\<close> that its users call, and the reopening of its files, act on it as follows.
\<close>

datatype log_op =
    LAppend log_entry
  | LBatch "log_entry list"
  | LTruncateFrom u32
  | LTruncateBefore u32
  | LSnapshot u32
  | LReset u32
  | LRestart

type_synonym log_seq = "u32 \<times> log_entry list"

definition log_abs :: "raft_log \<Rightarrow> log_seq" where
  "log_abs l = (base_index l, l_entries l)"

definition seq_before :: "u32 \<Rightarrow> log_seq \<Rightarrow> log_seq" where
  "seq_before i s = (if fst s \<le> i \<and> unat i \<le> unat (fst s) + length (snd s)
     then (i, drop (unat (i - fst s)) (snd s)) else s)"

definition seq_from :: "u32 \<Rightarrow> log_seq \<Rightarrow> log_seq" where
  "seq_from i s = (if fst s \<le> i then (fst s, take (unat (i - fst s)) (snd s)) else s)"

definition seq_shrink :: "raft_log_config \<Rightarrow> log_seq \<Rightarrow> log_seq" where
  "seq_shrink cfg s =
     (let n = double_trunc (double_mul_fin (double_of_u64 (word_of_nat (length (snd s)))) (truncate_ratio cfg))
      in if unat (log_size_threshold cfg) < length (snd s) \<and> 0 < n then seq_before (fst s + word_of_nat n) s else s)"

definition seq_extend :: "raft_log_config \<Rightarrow> log_entry list \<Rightarrow> log_seq \<Rightarrow> log_seq" where
  "seq_extend cfg es s = seq_shrink cfg (fst s, snd s @ assign_indexes (fst s + word_of_nat (length (snd s))) es)"

fun seq_step :: "raft_log_config \<Rightarrow> log_op \<Rightarrow> log_seq \<Rightarrow> log_seq" where
  "seq_step cfg (LAppend e) s = seq_extend cfg [e] s"
| "seq_step cfg (LBatch es) s = (if es = [] then s else seq_extend cfg es s)"
| "seq_step cfg (LTruncateFrom i) s = seq_from i s"
| "seq_step cfg (LTruncateBefore i) s = seq_before i s"
| "seq_step cfg (LSnapshot i) s = (if fst s \<le> i \<and> unat i < unat (fst s) + length (snd s) then seq_before (i + 1) s else s)"
| "seq_step cfg (LReset i) s = (i, [])"
| "seq_step cfg LRestart s = (if snd s = [] then (1, []) else s)"

fun log_step :: "platform \<Rightarrow> log_op \<Rightarrow> raft_log \<Rightarrow> raft_log res" where
  "log_step pf (LAppend e) l = rbind (log_append pf e l) (\<lambda>(_, _, l'). Inr l')"
| "log_step pf (LBatch es) l = rbind (batch_append pf es l) (\<lambda>(_, _, l'). Inr l')"
| "log_step pf (LTruncateFrom i) l = rbind (truncate_from pf i l) (\<lambda>(_, l'). Inr l')"
| "log_step pf (LTruncateBefore i) l = rbind (truncate_before pf i l) (\<lambda>(_, l'). Inr l')"
| "log_step pf (LSnapshot i) l = rbind (create_snapshot pf i l) (\<lambda>(_, l'). Inr l')"
| "log_step pf (LReset i) l = Inr (snd (log_reset pf i l))"
| "log_step pf LRestart l = log_restart pf l"

fun op_entries :: "log_op \<Rightarrow> log_entry list" where
  "op_entries (LAppend e) = [e]"
| "op_entries (LBatch es) = es"
| "op_entries _ = []"

text \<open>
  A step on a log in step with its files: a working disk, entries and files of expressible size,
  and, for a restart, either a platform that opens \<open>"ab+"\<close> at the end or a log without any frame.
\<close>

definition op_ok :: "platform \<Rightarrow> log_op \<Rightarrow> raft_log \<Rightarrow> bool" where
  "op_ok pf p l \<longleftrightarrow> disk_ok pf \<and> list_all frame_ok (op_entries p) \<and>
     length (wal_bytes l) + length (concat (map frame (op_entries p))) < 2 ^ 64 \<and>
     (p = LRestart \<longrightarrow> ab_at_end pf \<or> l_entries l = [] \<and> wal_bytes l = [])"

lemma assign_indexes_props:
  "list_all frame_ok (assign_indexes i es) = list_all frame_ok es"
  "length (concat (map frame (assign_indexes i es))) = length (concat (map frame es))"
  "length (assign_indexes i es) = length es" "assign_indexes i es = [] \<longleftrightarrow> es = []"
  by (induction es arbitrary: i) (auto simp: length_frame ser_log_entry_def)

lemma map_index_assign: "map le_index (assign_indexes i es) = map (\<lambda>k. i + word_of_nat k) [0..<length es]"
proof (induction es arbitrary: i)
  case (Cons e es)
  have "[0..<length (e # es)] = 0 # map Suc [0..<length es]" by (simp only: list.size add_Suc_right add_0_right upt_conv_Cons [OF zero_less_Suc] map_Suc_upt)
  moreover have "i + 1 + word_of_nat k = i + word_of_nat (Suc k)" for k by simp
  ultimately show ?case by (simp only: assign_indexes.simps list.map Cons.IH map_map comp_def) simp
qed simp

lemma numbered_extend:
  assumes "numbered l" "l_entries l' = l_entries l @ assign_indexes (base_index l + word_of_nat (length (l_entries l))) es"
    "base_index l' = base_index l"
  shows "numbered l'"
proof -
  have "map (\<lambda>i. base_index l + word_of_nat i) [length (l_entries l)..<length (l_entries l) + length es]
      = map (\<lambda>k. base_index l + word_of_nat (length (l_entries l)) + word_of_nat k) [0..<length es]"
    by (intro nth_equalityI) (simp_all add: algebra_simps)
  then show ?thesis
    using assms by (simp add: numbered_def assign_indexes_props map_index_assign upt_add_eq_append [OF le0, of "length (l_entries l)" "length es"])
qed

lemma truncate_before_ok:
  "truncate_before pf i l = Inr (ok, l') \<Longrightarrow> ok \<longleftrightarrow> base_index l \<le> i \<and> unat i \<le> unat (base_index l) + length (l_entries l)"
  by (auto simp: truncate_before_def Let_def rbind_eq_Inr_iff split: if_splits)

lemma truncate_from_ok:
  "truncate_from pf i l = Inr (ok, l') \<Longrightarrow> ok \<longleftrightarrow> base_index l \<le> i \<and> unat i \<le> unat (base_index l) + length (l_entries l)"
  by (auto simp: truncate_from_def Let_def rbind_eq_Inr_iff split: if_splits)

lemma numbered_before: "numbered l \<Longrightarrow> cut_before n l l' \<Longrightarrow> numbered l'"
  by (rule numbered_drop) (auto simp: cut_before_def)

lemma cut_before_abs:
  assumes "files_agree l" "disk_ok pf" "length (wal_bytes l) < 2 ^ 64" "truncate_before pf i l = Inr (ok, l')"
  shows "log_abs l' = seq_before i (log_abs l)"
  using truncate_before_agree [OF assms] truncate_before_ok [OF assms(4)]
  by (auto simp: cut_before_def log_abs_def seq_before_def split: if_splits)

lemma shrink_abs:
  assumes "files_agree l" "disk_ok pf" "length (wal_bytes l) < 2 ^ 64" "shrink pf l = Inr l'"
  shows "log_abs l' = seq_shrink (log_config l) (log_abs l)"
  using assms cut_before_abs [OF assms(1-3)]
  by (auto simp: shrink_def rbind_eq_Inr_iff seq_shrink_def log_abs_def truncate_count_def split: if_splits)

lemma extend_step:
  assumes "appended (assign_indexes (base_index l + word_of_nat (length (l_entries l))) es) l l1" "numbered l" "disk_ok pf"
    "length (wal_bytes l) + length (concat (map frame es)) < 2 ^ 64" "shrink pf l1 = Inr l'"
  shows "files_agree l' \<and> numbered l' \<and> log_config l' = log_config l \<and> log_abs l' = seq_extend (log_config l) es (log_abs l)"
proof -
  have a: "files_agree l1" "l_entries l1 = l_entries l @ assign_indexes (base_index l + word_of_nat (length (l_entries l))) es"
    "base_index l1 = base_index l" "log_config l1 = log_config l" "length (wal_bytes l1) < 2 ^ 64"
    using assms(1,4) by (auto simp: appended_def assign_indexes_props)
  obtain n where n: "cut_before n l1 l'" using shrink_agree [OF a(1) assms(3) a(5) assms(5)] by blast
  moreover have "numbered l1" by (rule numbered_extend [OF assms(2) a(2,3)])
  moreover have "log_abs l' = seq_extend (log_config l) es (log_abs l)"
    using shrink_abs [OF a(1) assms(3) a(5) assms(5)] a by (simp add: seq_extend_def log_abs_def)
  ultimately show ?thesis using numbered_before a(4) by (auto simp: cut_before_def)
qed

lemma log_step_agree:
  assumes "files_agree l" "numbered l" "op_ok pf p l" "log_step pf p l = Inr l'"
  shows "files_agree l' \<and> numbered l' \<and> log_config l' = log_config l \<and> log_abs l' = seq_step (log_config l) p (log_abs l)"
proof -
  have d: "disk_ok pf" and s: "length (wal_bytes l) < 2 ^ 64" using assms(3) by (auto simp: op_ok_def)
  have before: "files_agree l' \<and> numbered l' \<and> log_config l' = log_config l \<and> log_abs l' = seq_before i (log_abs l)"
    if "truncate_before pf i l = Inr (ok, l')" for i ok
    using truncate_before_agree [OF assms(1) d s that] cut_before_abs [OF assms(1) d s that] numbered_before [OF assms(2)]
    by (auto simp: cut_before_def)
  show ?thesis
  proof (cases p)
    case (LAppend e)
    let ?es = "assign_indexes (base_index l + word_of_nat (length (l_entries l))) [e]"
    obtain l1 where "appended ?es l l1" "append_entry pf (hd ?es) l = rbind (shrink pf l1) (\<lambda>l2. Inr (True, l2))"
      using append_entry_agree [OF assms(1) d, of "hd ?es"] assms(3) LAppend by (auto simp: op_ok_def length_frame ser_log_entry_def)
    then show ?thesis
      using extend_step [of l "[e]" l1 pf l'] assms LAppend d by (auto simp: log_append_def rbind_eq_Inr_iff op_ok_def)
  next
    case (LBatch es)
    let ?es = "assign_indexes (base_index l + word_of_nat (length (l_entries l))) es"
    show ?thesis
    proof (cases "es = []")
      case False
      obtain l1 where "appended ?es l l1" "append_batch pf ?es l = rbind (shrink pf l1) (\<lambda>l2. Inr (True, l2))"
        using append_batch_agree [OF assms(1) d, of ?es] assms(3) LBatch False by (auto simp: op_ok_def assign_indexes_props)
      then show ?thesis
        using extend_step [of l es l1 pf l'] assms LBatch d False by (auto simp: batch_append_def Let_def rbind_eq_Inr_iff op_ok_def)
    qed (use assms LBatch in \<open>simp add: batch_append_def\<close>)
  next
    case (LTruncateFrom i)
    then obtain ok where t: "truncate_from pf i l = Inr (ok, l')" using assms(4) by (auto simp: rbind_eq_Inr_iff)
    have "log_abs l' = seq_from i (log_abs l)"
      using truncate_from_agree [OF assms(1) d s t] truncate_from_ok [OF t]
      by (auto simp: log_abs_def seq_from_def unat_sub_if' word_le_nat_alt)
    then show ?thesis
      using truncate_from_agree [OF assms(1) d s t] numbered_take [OF assms(2), of l' "if ok then unat (i - base_index l) else length (l_entries l)"]
        LTruncateFrom by (auto split: if_splits)
  next
    case (LTruncateBefore i)
    then show ?thesis using assms(4) before by (auto simp: rbind_eq_Inr_iff)
  next
    case (LSnapshot i)
    then show ?thesis using assms before by (auto simp: rbind_eq_Inr_iff create_snapshot_def in_log_def log_abs_def split: if_splits)
  next
    case (LReset i)
    then show ?thesis using assms(4) d
      by (auto simp: log_reset_def Let_def files_agree_def numbered_def fopen_wb_def at_end_def log_abs_def)
  next
    case LRestart
    obtain l2 where r: "log_restart pf l = Inr l2" "l_entries l2 = l_entries l" 
      "base_index l2 = (case l_entries l of [] \<Rightarrow> 1 | e # _ \<Rightarrow> le_index e)" "log_config l2 = log_config l" "files_agree l2"
      using restart_agree [OF assms(1) d] assms(3) LRestart by (metis op_ok_def)
    have "base_index l2 = base_index l" if "l_entries l \<noteq> []"
      using that assms(2) r(3) by (cases "l_entries l") (auto simp: numbered_def upt_conv_Cons simp del: upt_Suc)
    then show ?thesis
      using r assms(2,4) LRestart by (cases "l_entries l = []") (auto simp: numbered_def log_abs_def)
  qed
qed

section \<open>Properties\<close>

text \<open>Logs that operations have led to, from empty files.\<close>

inductive log_reach :: "raft_log_config \<Rightarrow> raft_log \<Rightarrow> bool" for cfg where
  log_fresh: "disk_ok pf \<Longrightarrow> raft_log_new pf cfg [] [] = Inr l \<Longrightarrow> log_reach cfg l"
| log_next: "log_reach cfg l \<Longrightarrow> op_ok pf p l \<Longrightarrow> log_step pf p l = Inr l' \<Longrightarrow> log_reach cfg l'"

lemma fresh_log:
  "disk_ok pf \<Longrightarrow> raft_log_new pf cfg [] [] = Inr \<lparr>l_entries = [], base_index = 1, index_offsets = [],
     raft_wal = Some \<lparr>f_data = [], f_pos = 0, f_append = True\<rparr>, raft_idx = Some \<lparr>f_data = [], f_pos = 0, f_append = True\<rparr>, log_config = cfg\<rparr>"
  by (simp add: raft_log_new_def log_recover_def load_index_def fopen_ab_def read_offsets.simps)

lemma log_reach_agree: "log_reach cfg l \<Longrightarrow> files_agree l \<and> numbered l \<and> log_config l = cfg"
proof (induction rule: log_reach.induct)
  case (log_fresh pf l)
  then show ?case using fresh_log [OF log_fresh(1), of cfg] by (auto simp: files_agree_def at_end_def numbered_def)
next
  case (log_next l pf p l')
  then show ?case using log_step_agree by blast
qed

lemma numbered_nth: "numbered l \<Longrightarrow> k < length (l_entries l) \<Longrightarrow> le_index (l_entries l ! k) = base_index l + word_of_nat k"
  unfolding numbered_def by (metis (no_types, lifting) add_0 diff_zero length_map length_upt nth_map nth_upt)

lemma unat_index:
  "unat b + n \<le> 2 ^ 32 \<Longrightarrow> k < n \<Longrightarrow> unat (b + word_of_nat k :: u32) = unat b + k"
  by (simp add: unat_word_ariths unat_of_nat_lt)

lemma entry_index:
  assumes "numbered l" "unat (base_index l) + length (l_entries l) \<le> 2 ^ 32" "k < length (l_entries l)"
  shows "unat (le_index (l_entries l ! k)) = unat (base_index l) + k"
  using numbered_nth [OF assms(1,3)] unat_index [OF assms(2,3)] by simp

lemma in_log_entry:
  assumes "numbered l" "unat (base_index l) + length (l_entries l) \<le> 2 ^ 32"
  shows "in_log i l \<longleftrightarrow> (\<exists>k < length (l_entries l). le_index (l_entries l ! k) = i \<and> unat (i - base_index l) = k)"
proof
  assume "in_log i l"
  then have "unat (i - base_index l) < length (l_entries l)" "unat (base_index l) + unat (i - base_index l) = unat i"
    by (auto simp: in_log_def unat_sub_if' word_le_nat_alt)
  then show "\<exists>k < length (l_entries l). le_index (l_entries l ! k) = i \<and> unat (i - base_index l) = k"
    using entry_index [OF assms] by (metis word_unat_eq_iff)
next
  assume "\<exists>k < length (l_entries l). le_index (l_entries l ! k) = i \<and> unat (i - base_index l) = k"
  then obtain k where "k < length (l_entries l)" "unat i = unat (base_index l) + k" using entry_index [OF assms] by metis
  then show "in_log i l" by (simp add: in_log_def word_le_nat_alt)
qed

lemma distinct_indexes:
  assumes "numbered l" "unat (base_index l) + length (l_entries l) \<le> 2 ^ 32"
  shows "distinct (map le_index (l_entries l))"
  unfolding distinct_conv_nth using entry_index [OF assms] by (metis add_left_cancel length_map nth_map)

lemma filter_from_index:
  assumes "numbered l" "unat (base_index l) + length (l_entries l) \<le> 2 ^ 32" "base_index l \<le> i"
  shows "filter (\<lambda>e. i \<le> le_index e) (l_entries l) = drop (unat (i - base_index l)) (l_entries l)"
proof -
  let ?n = "unat (i - base_index l)" and ?es = "l_entries l"
  have n: "unat i = unat (base_index l) + ?n" using assms(3) by (simp add: unat_sub_if' word_le_nat_alt)
  have le: "i \<le> le_index (?es ! k) \<longleftrightarrow> ?n \<le> k" if "k < length ?es" for k
    using entry_index [OF assms(1,2) that] n by (simp add: word_le_nat_alt)
  have "filter (\<lambda>e. i \<le> le_index e) (take ?n ?es) = []"
    using le by (auto simp: filter_empty_conv in_set_conv_nth)
  moreover have "filter (\<lambda>e. i \<le> le_index e) (drop ?n ?es) = drop ?n ?es"
    using le by (auto simp: filter_id_conv in_set_conv_nth)
  ultimately show ?thesis by (metis append_Nil append_take_drop_id filter_append)
qed


text \<open>
  C12: The array, the write-ahead file and the index file together implement a numbered sequence: each
  operation that ends without an error changes the entries and the first index as the sequence
  operation says, also when the append triggers the removal of the oldest entries.
\<close>

theorem raft_log_refines_sequence:
  assumes "log_reach cfg l" "op_ok pf p l" "log_step pf p l = Inr l'"
  shows "log_abs l' = seq_step cfg p (log_abs l)"
  using log_step_agree [OF _ _ assms(2,3)] log_reach_agree [OF assms(1)] by auto

lemma log_lookup_facts:
  assumes "log_reach cfg l" "unat (base_index l) + length (l_entries l) \<le> 2 ^ 32"
  shows "log_get i l = map_of (map (\<lambda>e. (le_index e, e)) (l_entries l)) i"
    and "get_term i l = (case log_get i l of None \<Rightarrow> 0 | Some e \<Rightarrow> le_term e)"
    and "get_last_info l = (case get_last l of None \<Rightarrow> (False, 0, 0) | Some e \<Rightarrow> (True, le_index e, le_term e))"
    and "get_last_index l = (case get_last l of None \<Rightarrow> 0 | Some e \<Rightarrow> le_index e)"
    and "base_index l \<le> i \<Longrightarrow> get_entries_from i l = filter (\<lambda>e. i \<le> le_index e) (l_entries l)"
proof -
  have num: "numbered l" using log_reach_agree [OF assms(1)] by simp
  have d: "distinct (map fst (map (\<lambda>e. (le_index e, e)) (l_entries l)))"
    using distinct_indexes [OF num assms(2)] by (simp add: comp_def)
  show "log_get i l = map_of (map (\<lambda>e. (le_index e, e)) (l_entries l)) i"
  proof (cases "in_log i l")
    case True
    then obtain k where k: "k < length (l_entries l)" "le_index (l_entries l ! k) = i" "unat (i - base_index l) = k"
      using in_log_entry [OF num assms(2)] by blast
    then have "map_of (map (\<lambda>e. (le_index e, e)) (l_entries l)) i = Some (l_entries l ! k)"
      by (intro map_of_is_SomeI [OF d]) auto
    then show ?thesis using True k by (simp add: log_get_def)
  next
    case False
    have "i \<notin> le_index ` set (l_entries l)"
    proof
      assume "i \<in> le_index ` set (l_entries l)"
      then obtain k where k: "k < length (l_entries l)" "le_index (l_entries l ! k) = i" by (auto simp: in_set_conv_nth)
      then have "unat (i - base_index l) = k" using entry_index [OF num assms(2) k(1)] by (simp add: unat_sub_if')
      then show False using False k in_log_entry [OF num assms(2), of i] by blast
    qed
    then show ?thesis using False by (simp add: log_get_def map_of_fresh image_image)
  qed
  show "get_term i l = (case log_get i l of None \<Rightarrow> 0 | Some e \<Rightarrow> le_term e)"
    by (simp add: get_term_def log_get_def)
  have last: "le_index (last (l_entries l)) = base_index l + word_of_nat (length (l_entries l)) - 1" if "l_entries l \<noteq> []"
    using numbered_nth [OF num, of "length (l_entries l) - 1"] that by (cases "length (l_entries l)") (auto simp: last_conv_nth)
  show "get_last_info l = (case get_last l of None \<Rightarrow> (False, 0, 0) | Some e \<Rightarrow> (True, le_index e, le_term e))"
    "get_last_index l = (case get_last l of None \<Rightarrow> 0 | Some e \<Rightarrow> le_index e)"
    using last by (auto simp: get_last_info_def get_last_def get_last_index_def)
  show "base_index l \<le> i \<Longrightarrow> get_entries_from i l = filter (\<lambda>e. i \<le> le_index e) (l_entries l)"
    using filter_from_index [OF num assms(2)] by (auto simp: get_entries_from_def)
qed

text \<open>
  The reading operations of the log agree on every index: \<open>get\<close> finds the entry that carries the
  index, \<open>get_term\<close> its term (0 when there is none), \<open>get_last_info\<close> and \<open>get_last_index\<close> the index and
  term of the last entry, and \<open>get_entries_from\<close> exactly the entries from the index on, as long as
  the indexes do not wrap around.
\<close>

theorem raft_log_lookup:
  assumes "log_reach cfg l" "unat (base_index l) + length (l_entries l) \<le> 2 ^ 32"
  shows "log_get i l = map_of (map (\<lambda>e. (le_index e, e)) (l_entries l)) i \<and>
    get_term i l = (case log_get i l of None \<Rightarrow> 0 | Some e \<Rightarrow> le_term e) \<and>
    get_last_info l = (case get_last l of None \<Rightarrow> (False, 0, 0) | Some e \<Rightarrow> (True, le_index e, le_term e)) \<and>
    get_last_index l = (case get_last l of None \<Rightarrow> 0 | Some e \<Rightarrow> le_index e) \<and>
    (base_index l \<le> i \<longrightarrow> get_entries_from i l = filter (\<lambda>e. i \<le> le_index e) (l_entries l))"
  using log_lookup_facts [OF assms] by blast

text \<open>A log with one entry, as the examples below use it.\<close>

definition sample_platform :: platform where
  "sample_platform = \<lparr>ab_at_end = False, disk_ok = True, relock_ok = False, log_info = True\<rparr>"

definition sample_entry :: "u32 \<Rightarrow> string \<Rightarrow> log_entry" where
  "sample_entry t c = make_log_entry t 0 c ''r'' 0 0"

lemma sample_entry_ok: "length c < 100 \<Longrightarrow> frame_ok (sample_entry t c)"
  by (simp add: frame_ok_def log_entry_ok_def string_ok_def sample_entry_def make_log_entry_def ser_log_entry_def)

lemma length_frame_sample: "length (frame (sample_entry t c)) = 37 + length c"
  by (simp add: length_frame sample_entry_def make_log_entry_def ser_log_entry_def)

lemma one_append:
  fixes pf :: platform
  assumes "disk_ok pf" "frame_ok e" "cfg = default_log_config"
  obtains l where "log_reach cfg l" "l_entries l = [e\<lparr>le_index := 1\<rparr>]" "base_index l = 1" "index_offsets l = [0]"
    "wal_bytes l = frame (e\<lparr>le_index := 1\<rparr>)" "idx_bytes l = le64 0"
proof -
  let ?e = "e\<lparr>le_index := 1\<rparr>"
  let ?f = "\<lparr>f_data = [], f_pos = 0, f_append = True\<rparr>"
  let ?start = "\<lparr>l_entries = [], base_index = 1, index_offsets = [], raft_wal = Some ?f, raft_idx = Some ?f, log_config = cfg\<rparr>"
  let ?l = "\<lparr>l_entries = [?e], base_index = 1, index_offsets = [0], raft_wal = Some \<lparr>f_data = frame ?e, f_pos = length (frame ?e), f_append = True\<rparr>,
    raft_idx = Some \<lparr>f_data = le64 0, f_pos = 8, f_append = True\<rparr>, log_config = cfg\<rparr>"
  have "length (frame e) < 2 ^ 64" using assms(2) by (simp add: length_frame frame_ok_def)
  then have ok: "op_ok pf (LAppend e) ?start" using assms by (simp add: op_ok_def wal_bytes_def)
  have "length (ser_log_entry ?e) < 4294967296" using assms(2) by (simp add: frame_ok_def ser_log_entry_def)
  then have "log_step pf (LAppend e) ?start = Inr ?l"
    using assms by (simp add: log_append_def append_entry_def write_entry_to_wal_def write_index_entry_def fwrite_def shrink_def
        default_log_config_def frame_def Let_def)
  from log_next [OF log_fresh [OF assms(1) fresh_log [OF assms(1)]] ok this] show ?thesis
    by (rule that) (simp_all add: wal_bytes_def idx_bytes_def)
qed



theorem raft_log_refines_sequence_witness:
  "\<exists>l l'. log_reach default_log_config l \<and> log_step sample_platform (LReset 8) l = Inr l' \<and> log_abs l' = (8, [])"
proof -
  have "disk_ok sample_platform" "frame_ok (sample_entry 1 ''set k v'')"
    by (simp_all add: sample_platform_def sample_entry_ok)
  then obtain l where l: "log_reach default_log_config l" "wal_bytes l = frame ((sample_entry 1 ''set k v'')\<lparr>le_index := 1\<rparr>)"
    using one_append [OF _ _ refl] by blast
  have ok: "op_ok sample_platform (LReset 8) l"
    using l(2) by (simp add: op_ok_def sample_platform_def length_frame ser_log_entry_def sample_entry_def make_log_entry_def)
  show ?thesis
    using raft_log_refines_sequence [OF l(1) ok, of "snd (log_reset sample_platform 8 l)"] l(1) by auto
qed

theorem raft_log_lookup_witness:
  "\<exists>l. log_reach default_log_config l \<and> log_get 1 l = Some ((sample_entry 4 ''del k'')\<lparr>le_index := 1\<rparr>) \<and> get_term 1 l = 4 \<and>
     get_entries_from 1 l = l_entries l \<and> log_get 2 l = None"
proof -
  have "disk_ok sample_platform" "frame_ok (sample_entry 4 ''del k'')"
    by (simp_all add: sample_platform_def sample_entry_ok)
  then obtain l where l: "log_reach default_log_config l" "l_entries l = [(sample_entry 4 ''del k'')\<lparr>le_index := 1\<rparr>]" "base_index l = 1"
    using one_append [OF _ _ refl] by blast
  then show ?thesis
    using raft_log_lookup [OF l(1), of 1] raft_log_lookup [OF l(1), of 2] by (intro exI [of _ l]) (simp add: sample_entry_def make_log_entry_def)
qed

text \<open>
  Where \<open>fopen(..., "ab+")\<close> starts at the beginning of the file, as in glibc, the first entry
  appended after a restart is filed under offset 0: \<open>ftell\<close> is read before anything was written. The
  next restart reads the frame at that offset, so the new entry is gone and the oldest one stands
  in its place, under its own index.
\<close>

theorem append_after_restart_is_lost:
  assumes "disk_ok pf" "\<not> ab_at_end pf" "frame_ok e" "frame_ok e'"
  shows "\<exists>l l1 l2 l3. log_reach default_log_config l \<and> l_entries l = [e\<lparr>le_index := 1\<rparr>] \<and> log_restart pf l = Inr l1 \<and>
    log_append pf e' l1 = Inr (True, e'\<lparr>le_index := 2\<rparr>, l2) \<and> l_entries l2 = [e\<lparr>le_index := 1\<rparr>, e'\<lparr>le_index := 2\<rparr>] \<and>
    log_restart pf l2 = Inr l3 \<and> l_entries l3 = [e\<lparr>le_index := 1\<rparr>, e\<lparr>le_index := 1\<rparr>]"
proof -
  let ?e = "e\<lparr>le_index := 1\<rparr>" and ?e' = "e'\<lparr>le_index := 2\<rparr>" and ?cfg = default_log_config
  obtain l where l: "log_reach ?cfg l" "l_entries l = [?e]" "wal_bytes l = frame ?e" "idx_bytes l = le64 0"
    using one_append [OF assms(1,3) refl] by metis
  let ?st = "\<lambda>bs p. Some \<lparr>f_data = bs, f_pos = p, f_append = True\<rparr>"
  let ?l1 = "\<lparr>l_entries = [?e], base_index = 1, index_offsets = [0], raft_wal = ?st (frame ?e) 0, raft_idx = ?st (le64 0) 8, log_config = ?cfg\<rparr>"
  let ?l2 = "\<lparr>l_entries = [?e, ?e'], base_index = 1, index_offsets = [0, 0], raft_wal = ?st (frame ?e @ frame ?e') (length (frame ?e) + length (frame ?e')),
    raft_idx = ?st (le64 0 @ le64 0) 16, log_config = ?cfg\<rparr>"
  have cfg: "log_config l = ?cfg" using log_reach_agree [OF l(1)] by simp
  have read: "read_entry_from_wal 0 lg = Inr (Some ?e)" if "raft_wal lg = ?st (frame ?e @ rest) p" for lg rest p
    using that assms(3) by (intro read_entry_framed) (auto simp: framed_def)
  have offs: "read_offsets (le64 0) = [0]" "read_offsets (le64 0 @ le64 0) = [0, 0]"
    using read_offsets_back [of "[0]"] read_offsets_back [of "[0, 0]"] by simp_all
  have 1: "log_restart pf l = Inr ?l1"
    using assms(1,2) l cfg offs read [of _ "[]"]
    by (simp add: log_restart_def raft_log_new_def log_recover_def load_index_def fopen_ab_def)
  have "length (ser_log_entry ?e') < 4294967296" using assms(4) by (simp add: frame_ok_def ser_log_entry_def)
  then have 2: "log_append pf e' ?l1 = Inr (True, ?e', ?l2)"
    using assms(1) by (simp add: log_append_def append_entry_def write_entry_to_wal_def write_index_entry_def fwrite_def shrink_def
        default_log_config_def frame_def Let_def)
  have 3: "\<exists>l3. log_restart pf ?l2 = Inr l3 \<and> l_entries l3 = [?e, ?e]"
    using assms(1,2) offs read
    by (simp add: log_restart_def raft_log_new_def log_recover_def load_index_def fopen_ab_def wal_bytes_def idx_bytes_def)
  show ?thesis using l(1,2) 1 2 3 by (metis raft_log.select_convs(1))
qed

theorem append_after_restart_is_lost_witness:
  "\<exists>l l1 l2 l3. log_reach default_log_config l \<and> log_restart sample_platform l = Inr l1 \<and>
    log_append sample_platform (sample_entry 2 ''set b 2'') l1 = Inr (True, (sample_entry 2 ''set b 2'')\<lparr>le_index := 2\<rparr>, l2) \<and>
    log_restart sample_platform l2 = Inr l3 \<and>
    l_entries l3 = [(sample_entry 1 ''set a 1'')\<lparr>le_index := 1\<rparr>, (sample_entry 1 ''set a 1'')\<lparr>le_index := 1\<rparr>]"
proof -
  have "disk_ok sample_platform" "\<not> ab_at_end sample_platform" "frame_ok (sample_entry 1 ''set a 1'')" "frame_ok (sample_entry 2 ''set b 2'')"
    by (simp_all add: sample_platform_def sample_entry_ok)
  from append_after_restart_is_lost [OF this] show ?thesis by blast
qed

text \<open>
  A truncation never gets through where locking a mutex twice from one thread is not tolerated:
  \<open>truncate_from\<close> with any index of the log, \<open>create_snapshot\<close> and every append that
  exceeds the size threshold call a locking method while they hold the lock.
\<close>

theorem truncation_relocks:
  assumes "\<not> relock_ok pf"
  shows "base_index l \<le> i \<Longrightarrow> unat i \<le> unat (base_index l) + length (l_entries l) \<Longrightarrow> truncate_from pf i l = Inl UB"
    and "in_log i l \<Longrightarrow> create_snapshot pf i l = Inl UB"
    and "unat (log_size_threshold (log_config l)) < length (l_entries l) \<Longrightarrow> 0 < truncate_count l \<Longrightarrow> shrink pf l = Inl UB"
  using assms by (auto simp: truncate_from_def create_snapshot_def shrink_def relock_def)

theorem truncation_relocks_witness:
  "\<exists>l. log_reach default_log_config l \<and> truncate_from sample_platform 1 l = Inl UB"
proof -
  have "disk_ok sample_platform" "frame_ok (sample_entry 1 ''set k v'')"
    by (simp_all add: sample_platform_def sample_entry_ok)
  then obtain l where l: "log_reach default_log_config l" "l_entries l = [(sample_entry 1 ''set k v'')\<lparr>le_index := 1\<rparr>]" "base_index l = 1"
    using one_append [OF _ _ refl] by blast
  then show ?thesis using truncation_relocks(1) [of sample_platform l 1] by (auto simp: sample_platform_def)
qed


text \<open>An append that the disk refuses reports success and stores nothing: \<open>return -1\<close> is \<open>true\<close>.\<close>

lemma refused_append_reports_success:
  assumes "\<not> disk_ok pf" "files_agree l"
  shows "\<exists>e'. log_append pf e l = Inr (True, e', l)"
proof -
  obtain f where f: "raft_wal l = Some f" using assms(2) by (auto elim: files_agreeE)
  have "(le32 w = []) = False" for w by (metis length_int_bytes(1) list.size(3) zero_neq_numeral)
  then show ?thesis
    using assms(1) f by (auto simp: log_append_def append_entry_def write_entry_to_wal_def fwrite_def Let_def)
qed

end
