(* ===== verification/StringUtils.thy ===== *)
theory StringUtils
  imports CppLib
begin

text \<open>
  \<open>include/common/util/string_utils.h\<close> and \<open>include/common/util/ip_utils.h\<close>: splitting strings at a
  character or at blanks, in the overloads on strings and on string views, trimming, random strings,
  and the match of an address against the list of trusted nodes.
\<close>

section \<open>Splitting\<close>

text \<open>The loops on strings collect the current piece; those on views remember where it starts.\<close>

fun split_loop :: "char \<Rightarrow> string \<Rightarrow> string \<Rightarrow> string list" where
  "split_loop d cur [] = [cur]"
| "split_loop d cur (c # cs) = (if c = d then cur # split_loop d [] cs else split_loop d (cur @ [c]) cs)"

definition split :: "string \<Rightarrow> char \<Rightarrow> string list" where
  "split str d = split_loop d [] str"

definition substr :: "string \<Rightarrow> nat \<Rightarrow> nat \<Rightarrow> string" where
  "substr s pos n = take n (drop pos s)"

function split_view_loop :: "char \<Rightarrow> string \<Rightarrow> nat \<Rightarrow> nat \<Rightarrow> string list" where
  "split_view_loop d str start i =
     (if i < length str then
        (if str ! i = d then substr str start (i - start) # split_view_loop d str (i + 1) (i + 1)
         else split_view_loop d str start (i + 1))
      else [substr str start (length str - start)])"
  by pat_completeness auto
termination by (relation "measure (\<lambda>(d, str, start, i). length str - i)") auto

declare split_view_loop.simps [simp del]

definition split_view :: "string \<Rightarrow> char \<Rightarrow> string list" where
  "split_view str d = split_view_loop d str 0 0"

fun split_blanks_loop :: "string \<Rightarrow> string \<Rightarrow> string list" where
  "split_blanks_loop cur [] = [cur]"
| "split_blanks_loop cur (c # cs) =
     (if c = CHR '' '' then (if cur \<noteq> [] then cur # split_blanks_loop [] cs else split_blanks_loop cur cs)
      else split_blanks_loop (cur @ [c]) cs)"

definition split_by_spacer :: "string \<Rightarrow> string list" where
  "split_by_spacer str = split_blanks_loop [] str"

function split_by_spacer_view_loop :: "string \<Rightarrow> nat \<Rightarrow> nat \<Rightarrow> string list" where
  "split_by_spacer_view_loop str start i =
     (if i < length str then
        (if str ! i = CHR '' '' then
           (if start < i then [substr str start (i - start)] else []) @ split_by_spacer_view_loop str (i + 1) (i + 1)
         else split_by_spacer_view_loop str start (i + 1))
      else if start < length str then [substr str start (length str - start)] else [])"
  by pat_completeness auto
termination by (relation "measure (\<lambda>(str, start, i). length str - i)") auto

declare split_by_spacer_view_loop.simps [simp del]

definition split_by_spacer_view :: "string \<Rightarrow> string list" where
  "split_by_spacer_view str = split_by_spacer_view_loop str 0 0"

section \<open>Trimming\<close>

function trim_start :: "string \<Rightarrow> nat \<Rightarrow> nat" where
  "trim_start str start = (if start < length str \<and> isspace (str ! start) then trim_start str (start + 1) else start)"
  by pat_completeness auto
termination by (relation "measure (\<lambda>(str, start). length str - start)") auto

declare trim_start.simps [simp del]

fun trim_end :: "string \<Rightarrow> nat \<Rightarrow> nat" where
  "trim_end str 0 = 0"
| "trim_end str (Suc e) = (if isspace (str ! Suc e) then trim_end str e else Suc e)"

text \<open>For the empty string the index of its last character wraps around and is read. The length wraps when there are only blanks.\<close>

definition trim :: "string \<Rightarrow> string res" where
  "trim str =
     (if str = [] then Inl UB
      else let start = trim_start str 0; e = trim_end str (length str - 1)
           in Inr (substr str start ((e + 2 ^ 64 - start + 1) mod 2 ^ 64)))"

section \<open>Random strings\<close>

definition charset :: string where
  "charset = ''0123456789ABCDEFGHIJKLMNOPQRSTUVWXYZabcdefghijklmnopqrstuvwxyz!@#$%^&*()_+-=[]{}|;:,.<>?''"

text \<open>\<open>distr\<close>: what the distribution draws, one number for each character.\<close>

definition generate_random_string :: "(nat \<Rightarrow> nat) \<Rightarrow> nat \<Rightarrow> string res" where
  "generate_random_string distr n =
     (if n = 0 then Inl (InvalidArgument ''length must be greater than 0'') else Inr (map (\<lambda>i. charset ! distr i) [0..<n]))"

section \<open>Trusted addresses\<close>

definition parse_ip_and_port :: "string \<Rightarrow> string \<times> string" where
  "parse_ip_and_port s =
     (if CHR '':'' \<in> set s
      then (takeWhile (\<lambda>c. c \<noteq> CHR '':'') s, tl (dropWhile (\<lambda>c. c \<noteq> CHR '':'') s))
      else (s, ''''))"

definition is_ip_match :: "string \<Rightarrow> string \<Rightarrow> bool" where
  "is_ip_match input_ip rule_ip =
     (let input_segments = split input_ip (CHR ''.''); rule_segments = split rule_ip (CHR ''.'')
      in if length input_segments \<noteq> 4 \<or> length rule_segments \<noteq> 4 then False
         else list_all (\<lambda>i. rule_segments ! i = ''*'' \<or> rule_segments ! i = input_segments ! i) [0..<4])"

fun is_trusted_ip :: "string \<Rightarrow> string list \<Rightarrow> bool" where
  "is_trusted_ip input [] = False"
| "is_trusted_ip input (rule # rules) =
     (let (input_ip, input_port) = parse_ip_and_port input; (rule_ip, rule_port) = parse_ip_and_port rule
      in if \<not> is_ip_match input_ip rule_ip then is_trusted_ip input rules
         else if rule_port = '''' then True
         else if rule_port = input_port then True
         else is_trusted_ip input rules)"

section \<open>The overloads agree\<close>

lemma substr_snoc: "start \<le> i \<Longrightarrow> i < length s \<Longrightarrow> substr s start (i - start) @ [s ! i] = substr s start (Suc i - start)"
  by (simp add: substr_def Suc_diff_le take_Suc_conv_app_nth)

lemma split_view_loop_eq:
  "start \<le> i \<Longrightarrow> i \<le> length str \<Longrightarrow> split_view_loop d str start i = split_loop d (substr str start (i - start)) (drop i str)"
proof (induction d str start i rule: split_view_loop.induct)
  case (1 d str start i)
  show ?case
  proof (cases "i < length str")
    case True
    then have "drop i str = str ! i # drop (Suc i) str" by (simp add: Cons_nth_drop_Suc)
    with 1 True show ?thesis
      by (subst split_view_loop.simps) (auto simp: substr_snoc substr_def [of _ _ 0])
  qed (use 1 in \<open>subst split_view_loop.simps, simp\<close>)
qed

lemma split_by_spacer_view_loop_eq:
  "start \<le> i \<Longrightarrow> i \<le> length str \<Longrightarrow> split_by_spacer_view_loop str start i =
     filter (\<lambda>p. p \<noteq> []) (split_blanks_loop (substr str start (i - start)) (drop i str))"
proof (induction str start i rule: split_by_spacer_view_loop.induct)
  case (1 str start i)
  have empty: "substr str start (i - start) = [] \<longleftrightarrow> \<not> start < i" if "i \<le> length str"
    using that by (auto simp: substr_def)
  show ?case
  proof (cases "i < length str")
    case True
    then have "drop i str = str ! i # drop (Suc i) str" by (simp add: Cons_nth_drop_Suc)
    with 1 True empty show ?thesis
      by (subst split_by_spacer_view_loop.simps) (auto simp: substr_snoc substr_def [of _ _ 0])
  qed (use 1 empty in \<open>subst split_by_spacer_view_loop.simps, auto simp: substr_def\<close>)
qed

lemma split_blanks_loop_last:
  "\<exists>xs y. split_blanks_loop cur s = xs @ [y] \<and> [] \<notin> set xs \<and>
     (y = [] \<longleftrightarrow> s = [] \<and> cur = [] \<or> s \<noteq> [] \<and> last s = CHR '' '')"
proof (induction cur s rule: split_blanks_loop.induct)
  case (2 cur c cs)
  show ?case
  proof (cases "c = CHR '' '' \<and> cur \<noteq> []")
    case True
    then obtain xs y where "split_blanks_loop [] cs = xs @ [y]" "[] \<notin> set xs" "y = [] \<longleftrightarrow> cs = [] \<or> last cs = CHR '' ''"
      using 2(1) by auto
    then show ?thesis using True by (intro exI [of _ "cur # xs"] exI [of _ y]) auto
  next
    case False
    then show ?thesis using 2(2,3) by (cases "c = CHR '' ''"; cases "cs = []") auto
  qed
qed auto

section \<open>Trimming removes the blanks at both ends\<close>

lemma trim_start_spec: "start \<le> length str \<Longrightarrow> trim_start str start = start + length (takeWhile isspace (drop start str))"
proof (induction str start rule: trim_start.induct)
  case (1 str start)
  show ?case
  proof (cases "start < length str")
    case True
    then have "drop start str = str ! start # drop (Suc start) str" by (simp add: Cons_nth_drop_Suc)
    then show ?thesis using 1 True by (subst trim_start.simps) simp
  qed (use 1 in \<open>simp add: trim_start.simps\<close>)
qed

text \<open>The last character that is not a blank, or the first character.\<close>

lemma trim_end_spec: "e < length str \<Longrightarrow> trim_end str e = length (dropWhile isspace (rev (take (Suc e) str))) - 1"
proof (induction e)
  case 0
  then show ?case by (cases str) auto
next
  case (Suc e)
  then show ?case by (simp add: take_Suc_conv_app_nth [of "Suc e"])
qed

lemma trim_spec:
  assumes "str \<noteq> []" "length str < 2 ^ 64"
  shows "trim str = Inr (rev (dropWhile isspace (rev (dropWhile isspace str))))"
proof (cases "\<forall>c \<in> set str. isspace c")
  case True
  then have "trim_start str 0 = length str" "dropWhile isspace str = []" by (auto simp: trim_start_spec takeWhile_eq_all_conv [THEN iffD2])
  then show ?thesis using assms(1) by (simp add: trim_def substr_def Let_def del: dropWhile_eq_Nil_conv)
next
  case False
  define pre where "pre = takeWhile isspace str"
  define mid where "mid = rev (dropWhile isspace (rev (dropWhile isspace str)))"
  define post where "post = rev (takeWhile isspace (rev (dropWhile isspace str)))"
  have "mid @ post = dropWhile isspace str" unfolding mid_def post_def by (metis rev_append rev_rev_ident takeWhile_dropWhile_id)
  then have str: "str = pre @ mid @ post" by (simp add: pre_def)
  have blanks: "\<forall>c \<in> set pre. isspace c" "\<forall>c \<in> set post. isspace c" by (auto simp: pre_def post_def dest: set_takeWhileD)
  then have mid: "mid \<noteq> []" using False str by auto
  then have last: "\<not> isspace (last mid)" unfolding mid_def by (metis hd_dropWhile last_rev rev.simps(1))
  have start: "trim_start str 0 = length pre" by (simp add: trim_start_spec pre_def)
  have "dropWhile isspace (rev str) = dropWhile isspace (rev mid @ rev pre)" using blanks(2) dropWhile_append2 [of "rev post" isspace "rev mid @ rev pre"] by (simp add: str)
  also have "\<dots> = rev mid @ rev pre" using mid last by (cases mid rule: rev_cases) auto
  finally have "trim_end str (length str - 1) = length pre + length mid - 1" using assms(1) by (simp add: trim_end_spec)
  then have "(trim_end str (length str - 1) + 2 ^ 64 - length pre + 1) mod 2 ^ 64 = length mid"
  proof -
    assume e: "trim_end str (length str - 1) = length pre + length mid - 1"
    have "0 < length mid" "length mid < 2 ^ 64" using mid assms(2) str by auto
    then have "trim_end str (length str - 1) + 2 ^ 64 - length pre + 1 = length mid + 2 ^ 64" using e by linarith
    then show ?thesis using \<open>length mid < 2 ^ 64\<close> by (metis mod_add_self2 mod_less)
  qed
  then show ?thesis using assms(1) start unfolding mid_def [symmetric] by (simp add: trim_def substr_def Let_def str)
qed

section \<open>Properties\<close>

text \<open>
  The overloads of \<open>split\<close> on strings and on views give the same pieces. Those of
  \<open>split_by_spacer\<close> give the same words, except that the one on strings ends with an empty piece for
  an empty text and for one that ends in a blank.
\<close>

theorem split_overloads_agree:
  "split_view s d = split s d"
  "split_by_spacer s = split_by_spacer_view s @ (if s = [] \<or> last s = CHR '' '' then [[]] else [])"
proof -
  show "split_view s d = split s d"
    using split_view_loop_eq [of 0 0 s d] by (simp add: split_view_def split_def substr_def)
  obtain xs y where x: "split_by_spacer s = xs @ [y]" "[] \<notin> set xs" "y = [] \<longleftrightarrow> s = [] \<or> last s = CHR '' ''"
    using split_blanks_loop_last [of "[]" s] by (auto simp: split_by_spacer_def)
  have "split_by_spacer_view s = filter (\<lambda>p. p \<noteq> []) (split_by_spacer s)"
    using split_by_spacer_view_loop_eq [of 0 0 s] by (simp add: split_by_spacer_view_def split_by_spacer_def substr_def)
  moreover have "filter (\<lambda>p. p \<noteq> []) xs = xs" using x(2) by (auto simp: filter_id_conv)
  ultimately show "split_by_spacer s = split_by_spacer_view s @ (if s = [] \<or> last s = CHR '' '' then [[]] else [])"
    using x by auto
qed

end
