(* ===== verification/RaftNode.thy ===== *)
theory RaftNode
  imports Checkpoint RaftLog StringUtils
begin

text \<open>
  The Raft node, first part (\<open>include/raft/raft.h\<close>, \<open>src/raft/raft.cpp\<close>): its state, the persistent
  part of it and the meta file, elections, the replication of log entries, commitment and the
  application of committed entries to the store.

  \<open>meta_file\<close> is the content of the meta file the node holds open; \<open>meta_renamed\<close> says that it is no
  longer the file at its path. A handler is a function on the node; the messages it sends are stored to \<open>outbox\<close> with their
  destination. It returns an error value where the source would run into undefined behaviour or
  let an exception escape. What a handler learns from outside is in the record \<open>raft_env\<close>: clocks,
  the drawn election timeout, socket addresses, the environments of the commands it executes.
  Tasks given to the thread pool run right after the handler that submits them.
\<close>

section \<open>State\<close>

type_synonym socket = int

datatype raft_role = Follower | Candidate | Leader

fun role_to_string :: "raft_role \<Rightarrow> string" where
  "role_to_string Follower = ''Follower''"
| "role_to_string Candidate = ''Candidate''"
| "role_to_string Leader = ''Leader''"

record persistent_state =
  current_term :: u32
  voted_for :: address
  cluster_meta :: cluster_metadata
  log_snapshot_index :: u32
  commit_index :: u32
  last_applied :: u32

definition persistent_state_new :: persistent_state where
  "persistent_state_new = \<lparr>current_term = 0, voted_for = null_address, cluster_meta = cluster_metadata_new,
     log_snapshot_index = 0, commit_index = 0, last_applied = 0\<rparr>"

record snapshot_transfer =
  tr_offset :: u64
  is_sending :: bool
  tr_file :: "bytes option"
  snapshot_path :: string
  tr_last_included_index :: u32
  tr_last_included_term :: u32

definition snapshot_transfer_new :: snapshot_transfer where
  "snapshot_transfer_new = \<lparr>tr_offset = 0, is_sending = False, tr_file = None, snapshot_path = '''',
     tr_last_included_index = 0, tr_last_included_term = 0\<rparr>"

record raft_node_config =
  join_cluster_max_retries :: nat
  append_entries_max_batch :: u32
  snapshot_chunk_size_bytes :: nat
  result_cache_capacity :: nat
  need_majority_confirm :: bool
  raft_rpc_timeout_ms :: nat
  node_log_config :: raft_log_config

datatype destination = ToSocket socket | ToLeader | ToNode address

record raft_node =
  log_array :: raft_log
  persistent :: persistent_state
  meta_file :: "bytes option"
  meta_renamed :: bool
  role :: raft_role
  next_index :: "(socket \<times> u32) list"
  match_index :: "(socket \<times> u32) list"
  trusted_nodes :: "string list"
  election_timeout :: nat
  last_heartbeat_time :: nat
  follower_client :: "address option"
  writable :: bool
  follower_sockets :: "socket list"
  follower_address_map :: "(address \<times> socket) list"
  uninitialized_sockets :: "(socket \<times> nat) list"
  pending_requests :: "u32 list"
  answers :: "(u32 \<times> response) list"
  snapshot_state :: "(socket \<times> snapshot_transfer) list"
  result_cache :: "(string, response) lru_cache"
  granted_votes :: nat
  node_store :: storage
  snapshot_file :: "bytes option"
  archives :: archive_dir
  node_ip :: string
  node_port :: u16
  node_config :: raft_node_config
  outbox :: "(destination \<times> raft_message) list"
  closed_sockets :: "socket list"

record raft_env =
  envs :: "nat \<Rightarrow> env"
  regex :: "string \<Rightarrow> (string \<Rightarrow> bool) res"
  node_platform :: platform
  steady_now :: nat
  drawn_timeout :: nat
  wall_ms :: nat
  peer_address :: "socket \<Rightarrow> address option"
  self_address :: "socket \<Rightarrow> address option"
  client_self_address :: "address option"

text \<open>
  The members of a new node before its constructor's body runs. \<open>election_timeout_\<close> has no
  initialiser: its value is the argument \<open>junk\<close>.
\<close>

definition raft_node_init ::
  "string \<Rightarrow> u16 \<Rightarrow> string list \<Rightarrow> raft_node_config \<Rightarrow> nat \<Rightarrow> raft_log \<Rightarrow> storage \<Rightarrow> bytes option \<Rightarrow> bytes option \<Rightarrow> raft_node" where
  "raft_node_init ip prt trusted cfg junk l st meta snap =
     \<lparr>log_array = l, persistent = persistent_state_new, meta_file = meta, meta_renamed = False, role = Leader, next_index = [], match_index = [],
      trusted_nodes = trusted, election_timeout = junk, last_heartbeat_time = 0, follower_client = None, writable = True,
      follower_sockets = [], follower_address_map = [], uninitialized_sockets = [], pending_requests = [], answers = [],
      snapshot_state = [], result_cache = lru_new (result_cache_capacity cfg), granted_votes = 0, node_store = st,
      snapshot_file = snap, archives = [], node_ip = ip, node_port = prt, node_config = cfg, outbox = [], closed_sockets = []\<rparr>"

abbreviation pterm :: "raft_node \<Rightarrow> u32" where "pterm n \<equiv> current_term (persistent n)"
abbreviation pvote :: "raft_node \<Rightarrow> address" where "pvote n \<equiv> voted_for (persistent n)"
abbreviation pcommit :: "raft_node \<Rightarrow> u32" where "pcommit n \<equiv> commit_index (persistent n)"
abbreviation papplied :: "raft_node \<Rightarrow> u32" where "papplied n \<equiv> last_applied (persistent n)"
abbreviation pnodes :: "raft_node \<Rightarrow> address list" where "pnodes n \<equiv> cluster_nodes (cluster_meta (persistent n))"
abbreviation pleader :: "raft_node \<Rightarrow> address" where "pleader n \<equiv> current_leader (cluster_meta (persistent n))"

definition upd_ps :: "(persistent_state \<Rightarrow> persistent_state) \<Rightarrow> raft_node \<Rightarrow> raft_node" where
  "upd_ps f n = n\<lparr>persistent := f (persistent n)\<rparr>"

definition set_term :: "u32 \<Rightarrow> raft_node \<Rightarrow> raft_node" where
  "set_term t = upd_ps (\<lambda>p. p\<lparr>current_term := t\<rparr>)"

definition set_vote :: "address \<Rightarrow> raft_node \<Rightarrow> raft_node" where
  "set_vote a = upd_ps (\<lambda>p. p\<lparr>voted_for := a\<rparr>)"

definition set_commit :: "u32 \<Rightarrow> raft_node \<Rightarrow> raft_node" where
  "set_commit i = upd_ps (\<lambda>p. p\<lparr>commit_index := i\<rparr>)"

definition set_applied :: "u32 \<Rightarrow> raft_node \<Rightarrow> raft_node" where
  "set_applied i = upd_ps (\<lambda>p. p\<lparr>last_applied := i\<rparr>)"

definition set_nodes :: "address list \<Rightarrow> raft_node \<Rightarrow> raft_node" where
  "set_nodes ns = upd_ps (\<lambda>p. p\<lparr>cluster_meta := (cluster_meta p)\<lparr>cluster_nodes := ns\<rparr>\<rparr>)"

definition set_leader :: "address \<Rightarrow> raft_node \<Rightarrow> raft_node" where
  "set_leader a = upd_ps (\<lambda>p. p\<lparr>cluster_meta := (cluster_meta p)\<lparr>current_leader := a\<rparr>\<rparr>)"

lemmas upd_defs = upd_ps_def set_term_def set_vote_def set_commit_def set_applied_def set_nodes_def set_leader_def

definition send :: "destination \<Rightarrow> raft_message \<Rightarrow> raft_node \<Rightarrow> raft_node" where
  "send d m n = n\<lparr>outbox := outbox n @ [(d, m)]\<rparr>"

text \<open>\<open>operator[]\<close> of an \<open>unordered_map\<close> of numbers: a missing key is entered with 0.\<close>

definition at0 :: "'k \<Rightarrow> ('k \<times> 'v::zero) list \<Rightarrow> 'v" where
  "at0 k m = (case map_of m k of None \<Rightarrow> 0 | Some v \<Rightarrow> v)"

definition touch0 :: "'k \<Rightarrow> ('k \<times> 'v::zero) list \<Rightarrow> ('k \<times> 'v) list" where
  "touch0 k m = (case map_of m k of None \<Rightarrow> m @ [(k, 0)] | Some v \<Rightarrow> m)"

section \<open>The meta file\<close>

definition dec_le32 :: "u32 decoder" where
  "dec_le32 data off = rbind (read_bytes data off 4) (\<lambda>b. Inr (of_le32 b, off + 4))"

definition ser_persistent_state :: "persistent_state \<Rightarrow> bytes" where
  "ser_persistent_state p = le32 (current_term p) @ ser_address (voted_for p) @ ser_cluster_metadata (cluster_meta p) @
     le32 (log_snapshot_index p) @ le32 (commit_index p) @ le32 (last_applied p)"

definition deserialize_persistent_state :: "persistent_state decoder" where
  "deserialize_persistent_state = map_dec
     (\<lambda>(t, v, m, s, c, a). \<lparr>current_term = t, voted_for = v, cluster_meta = m, log_snapshot_index = s, commit_index = c, last_applied = a\<rparr>)
     (dec_pair dec_le32 (dec_pair deserialize_address (dec_pair deserialize_cluster_metadata
       (dec_pair dec_le32 (dec_pair dec_le32 dec_le32)))))"

definition load_persistent_state :: "raft_node \<Rightarrow> raft_node res" where
  "load_persistent_state n = (case meta_file n of
       None \<Rightarrow> Inr n
     | Some data \<Rightarrow>
         if 0 < length data
         then rbind (deserialize_persistent_state data 0) (\<lambda>(p, _). Inr (n\<lparr>persistent := p\<rparr>))
         else Inr n)"

text \<open>The new state overwrites the file from its start, and what is left of the old one is cut off.\<close>

definition save_persistent_state :: "raft_node \<Rightarrow> raft_node" where
  "save_persistent_state n = (case meta_file n of
       None \<Rightarrow> n
     | Some old \<Rightarrow>
         (let data = ser_persistent_state (persistent n)
          in n\<lparr>meta_file := Some (take (length data) (data @ drop (length data) old))\<rparr>))"

section \<open>Roles\<close>

definition to_follower :: "raft_node \<Rightarrow> raft_node" where
  "to_follower n = n\<lparr>role := Follower\<rparr>"

definition to_candidate :: "raft_node \<Rightarrow> raft_node" where
  "to_candidate n = (if role n = Leader then n else n\<lparr>role := Candidate\<rparr>)"

definition to_leader :: "raft_node \<Rightarrow> raft_node" where
  "to_leader n = n\<lparr>role := Leader, follower_client := None\<rparr>"

definition reset_election_timeout :: "raft_env \<Rightarrow> raft_node \<Rightarrow> raft_node" where
  "reset_election_timeout env n = n\<lparr>last_heartbeat_time := steady_now env, election_timeout := drawn_timeout env\<rparr>"

definition is_election_timeout :: "raft_env \<Rightarrow> raft_node \<Rightarrow> bool" where
  "is_election_timeout env n \<longleftrightarrow> election_timeout n < steady_now env - last_heartbeat_time n"

section \<open>Elections\<close>

definition send_request_vote :: "raft_node \<Rightarrow> raft_node" where
  "send_request_vote n =
     (let (_, last_log_index, last_log_term) = get_last_info (log_array n);
          msg = request_vote (pterm n) last_log_index last_log_term
      in fold (\<lambda>node. send (ToNode node) msg) (pnodes n) n)"

definition localhost :: string where "localhost = ''127.0.0.1''"

definition become_candidate :: "raft_env \<Rightarrow> raft_node \<Rightarrow> raft_node" where
  "become_candidate env n =
     (let n1 = set_term (pterm n + 1) n;
          n2 = save_persistent_state (set_vote \<lparr>host = localhost, port = ucast (node_port n)\<rparr> n1);
          n3 = to_candidate (n2\<lparr>granted_votes := 1\<rparr>)
      in send_request_vote (reset_election_timeout env n3))"

definition become_leader :: "raft_node \<Rightarrow> raft_node" where
  "become_leader n = save_persistent_state (set_nodes [] (to_leader n))"

text \<open>One round of the election thread: the timer is checked once the thread wakes up.\<close>

definition election_round :: "raft_env \<Rightarrow> raft_node \<Rightarrow> raft_node" where
  "election_round env n =
     (if role n = Leader then n
      else if last_heartbeat_time n + election_timeout n \<le> steady_now env then become_candidate env n
      else n)"

definition log_is_fresh :: "request_vote_data \<Rightarrow> raft_log \<Rightarrow> bool" where
  "log_is_fresh data l =
     (let (_, my_last_index, my_last_term) = get_last_info l
      in if my_last_term < last_log_term data then True
         else if last_log_term data = my_last_term \<and> my_last_index \<le> last_log_index data then True
         else False)"

definition handle_request_vote :: "raft_env \<Rightarrow> raft_message \<Rightarrow> socket \<Rightarrow> raft_node \<Rightarrow> bool \<times> raft_node" where
  "handle_request_vote env msg sock n =
     (case request_vote_data msg of
        None \<Rightarrow> (False, n)
      | Some data \<Rightarrow>
        (case peer_address env sock of
           None \<Rightarrow> (False, n)
         | Some opposite_addr \<Rightarrow>
             if m_term msg < pterm n then (False, send (ToSocket sock) (request_vote_response (pterm n) False) n)
             else
               let n1 = (if pterm n < m_term msg
                         then to_follower (save_persistent_state (set_vote null_address (set_term (m_term msg) n)))
                         else n);
                   my_term = m_term msg;
                   log_is_ok = log_is_fresh data (log_array n1);
                   can_vote = is_null (pvote n1) \<or> pvote n1 = opposite_addr
               in if can_vote \<and> log_is_ok
                  then (True, send (ToSocket sock) (request_vote_response my_term True)
                          (save_persistent_state (reset_election_timeout env (set_vote opposite_addr n1))))
                  else (False, send (ToSocket sock) (request_vote_response my_term False) n1)))"

text \<open>
  \<open>broadcast_new_master_impl\<close> asks each connection for its own address; the model sends the
  address the environment gives to the client connections.
\<close>

definition broadcast_new_master_impl :: "raft_env \<Rightarrow> raft_node \<Rightarrow> raft_node" where
  "broadcast_new_master_impl env n =
     (case client_self_address env of
        None \<Rightarrow> n
      | Some a \<Rightarrow> fold (\<lambda>node. send (ToNode node) (new_master (pterm n) (a\<lparr>port := ucast (node_port n)\<rparr>))) (pnodes n) n)"

definition broadcast_new_master_with_check :: "raft_env \<Rightarrow> u32 \<Rightarrow> raft_node \<Rightarrow> raft_node" where
  "broadcast_new_master_with_check env expected_term n =
     (if pterm n \<noteq> expected_term then n
      else if role n \<noteq> Leader then n
      else broadcast_new_master_impl env n)"

definition broadcast_new_master :: "raft_env \<Rightarrow> raft_node \<Rightarrow> raft_node" where
  "broadcast_new_master env n = (if role n \<noteq> Leader then n else broadcast_new_master_impl env n)"

definition majority :: "raft_node \<Rightarrow> nat" where
  "majority n = (length (pnodes n) + 1) div 2 + 1"

definition handle_request_vote_response :: "raft_env \<Rightarrow> raft_message \<Rightarrow> raft_node \<Rightarrow> raft_node" where
  "handle_request_vote_response env msg n =
     (if m_term msg < pterm n then n
      else if pterm n < m_term msg
        then to_follower (save_persistent_state (set_vote null_address (set_term (m_term msg) n)))
      else if role n \<noteq> Candidate then n
      else case request_vote_response_data msg of
             None \<Rightarrow> n
           | Some data \<Rightarrow>
               if vote_granted data then
                 (let n1 = n\<lparr>granted_votes := granted_votes n + 1\<rparr>
                  in if majority n1 \<le> granted_votes n1
                     then broadcast_new_master_with_check env (pterm n)
                            (save_persistent_state (set_nodes (pnodes n) (become_leader n1)))
                     else n1)
               else n)"
section \<open>Applying committed entries\<close>

text \<open>
  \<open>execute_command\<close>: the command is split at blanks, its name looked up and the rest passed to
  the store. A name that is not a command throws, and nothing on the way catches that.
\<close>

definition execute_command :: "raft_env \<Rightarrow> env \<Rightarrow> string \<Rightarrow> storage \<Rightarrow> (response \<times> storage) res" where
  "execute_command env e cmd st =
     (case split_by_spacer_view cmd of
        [] \<Rightarrow> Inr (error ''Empty command'', st)
      | name # args \<Rightarrow>
          rbind (stringToOperationType_view name) (\<lambda>operation.
            (case storage_execute (regex env) True e operation args st of
               (Inl x, _) \<Rightarrow> Inl x
             | (Inr r, st') \<Rightarrow> Inr (r, st'))))"

definition notify_request_applied :: "u32 \<Rightarrow> response \<Rightarrow> raft_node \<Rightarrow> raft_node" where
  "notify_request_applied i r n =
     (if i \<in> set (pending_requests n)
      then n\<lparr>answers := answers n @ [(i, r)], pending_requests := filter (\<lambda>j. j \<noteq> i) (pending_requests n)\<rparr>
      else n)"

text \<open>The entry with an index is executed, and its answer filed under its request identifier.\<close>

definition apply_entry :: "raft_env \<Rightarrow> u32 \<Rightarrow> raft_node \<Rightarrow> (response \<times> raft_node) res" where
  "apply_entry env i n =
     (case log_get i (log_array n) of
        None \<Rightarrow> Inr (error ''log read error'', n)
      | Some entry \<Rightarrow>
          rbind (execute_command env (envs env (unat i)) (le_cmd entry) (node_store n)) (\<lambda>(r, st').
            let result = r\<lparr>request_id := le_request_id entry\<rparr>; n1 = n\<lparr>node_store := st'\<rparr>
            in if le_request_id entry \<noteq> ''''
               then rbind (lru_put (le_request_id entry) result (result_cache n1)) (\<lambda>c. Inr (result, n1\<lparr>result_cache := c\<rparr>))
               else Inr (result, n1)))"

fun apply_loop :: "raft_env \<Rightarrow> nat \<Rightarrow> raft_node \<Rightarrow> raft_node res" where
  "apply_loop env 0 n = Inr n"
| "apply_loop env (Suc k) n =
     (let i = papplied n + 1; n1 = set_applied i n
      in rbind (apply_entry env i n1) (\<lambda>(result, n2).
           apply_loop env k (if role n2 = Leader then notify_request_applied i result n2 else n2)))"

definition apply_committed_entries :: "raft_env \<Rightarrow> raft_node \<Rightarrow> raft_node res" where
  "apply_committed_entries env n =
     (if pcommit n \<le> papplied n then Inr n
      else rbind (apply_loop env (unat (pcommit n) - unat (papplied n)) n) (\<lambda>n'. Inr (save_persistent_state n')))"

section \<open>Commitment\<close>

definition majority_index :: "raft_node \<Rightarrow> u32" where
  "majority_index n =
     (let match_indexes = rev (sort (get_last_index (log_array n) # map snd (match_index n)))
      in match_indexes ! (length match_indexes div 2))"

definition try_commit_entries :: "raft_env \<Rightarrow> raft_node \<Rightarrow> raft_node res" where
  "try_commit_entries env n =
     (if get_last_index (log_array n) \<le> pcommit n then Inr n
      else
        let advanced = pcommit n < majority_index n \<and> get_term (majority_index n) (log_array n) = pterm n;
            n1 = (if advanced then save_persistent_state (set_commit (majority_index n) n) else n)
        in if advanced \<or> papplied n1 < pcommit n1 then apply_committed_entries env n1 else Inr n1)"

text \<open>\<open>commit_entries\<close> commits and applies everything in the log; \<open>last_applied\<close> is set once at the end.\<close>

fun commit_loop :: "raft_env \<Rightarrow> nat \<Rightarrow> u32 \<Rightarrow> raft_node \<Rightarrow> raft_node res" where
  "commit_loop env 0 i n = Inr n"
| "commit_loop env (Suc k) i n = rbind (apply_entry env (i + 1) n) (\<lambda>(_, n'). commit_loop env k (i + 1) n')"

definition commit_entries :: "raft_env \<Rightarrow> raft_node \<Rightarrow> raft_node res" where
  "commit_entries env n =
     (let last_log_index = get_last_index (log_array n)
      in if last_log_index \<le> pcommit n then Inr n
         else let n1 = set_commit last_log_index n
           in rbind (commit_loop env (unat last_log_index - unat (papplied n1)) (papplied n1) n1) (\<lambda>n2.
                Inr (save_persistent_state (set_applied last_log_index n2))))"

section \<open>Replication\<close>

definition append_entries_message :: "socket \<Rightarrow> raft_node \<Rightarrow> raft_message" where
  "append_entries_message sock n =
     (let next_idx = at0 sock (next_index n);
          last_log_idx = get_last_index (log_array n);
          prev_log_index = (if 0 < next_idx then next_idx - 1 else 0);
          prev_log_term = get_term prev_log_index (log_array n)
      in if next_idx \<le> last_log_idx
         then append_entries_with_data (pterm n) prev_log_index prev_log_term
                (entry_set (get_entries_from_max next_idx (append_entries_max_batch (node_config n)) (log_array n))) (pcommit n)
         else append_entries (pterm n) prev_log_index prev_log_term (pcommit n))"

definition send_append_entries :: "socket \<Rightarrow> raft_node \<Rightarrow> raft_node" where
  "send_append_entries sock n =
     (if role n \<noteq> Leader then n
      else send (ToSocket sock) (append_entries_message sock n) (n\<lparr>next_index := touch0 sock (next_index n)\<rparr>))"

definition send_heartbeat_to_all :: "raft_node \<Rightarrow> raft_node" where
  "send_heartbeat_to_all n = (if pnodes n = [] then n else fold send_append_entries (follower_sockets n) n)"

text \<open>One round of the heartbeat thread.\<close>

definition heartbeat_round :: "raft_node \<Rightarrow> raft_node" where
  "heartbeat_round n = (if role n \<noteq> Leader then n else send_heartbeat_to_all n)"

text \<open>The loop over the entries of a message: skip what is there, cut off what conflicts, append the rest.\<close>

fun append_each :: "platform \<Rightarrow> log_entry list \<Rightarrow> nat \<Rightarrow> raft_log \<Rightarrow> (nat \<times> raft_log) res" where
  "append_each pf [] stored l = Inr (stored, l)"
| "append_each pf (entry # es) stored l =
     (case log_get (le_index entry) l of
        Some existing \<Rightarrow>
          if le_term existing \<noteq> le_term entry then
            rbind (truncate_from pf (le_index entry) l) (\<lambda>(_, l1).
            rbind (log_append pf entry l1) (\<lambda>(ok, _, l2). append_each pf es (if ok then stored + 1 else stored) l2))
          else append_each pf es stored l
      | None \<Rightarrow> rbind (log_append pf entry l) (\<lambda>(ok, _, l2). append_each pf es (if ok then stored + 1 else stored) l2))"

definition prev_matches :: "append_entries_data \<Rightarrow> raft_log \<Rightarrow> bool" where
  "prev_matches data l \<longleftrightarrow>
     (if 0 < prev_log_index data
      then (case log_get (prev_log_index data) l of None \<Rightarrow> False | Some e \<Rightarrow> le_term e = prev_log_term data)
      else True)"

text \<open>
  The critical section of \<open>handle_append_entries\<close>: the node, whether the entries were accepted,
  whether the state is to be saved and whether entries are to be applied.
\<close>

definition accept_entries :: "raft_env \<Rightarrow> raft_message \<Rightarrow> bool \<Rightarrow> raft_node \<Rightarrow> (bool \<times> bool \<times> bool \<times> raft_node) res" where
  "accept_entries env msg saved n =
     (case append_entries_data msg of
        None \<Rightarrow> Inr (False, saved, False, n)
      | Some data \<Rightarrow>
          if \<not> prev_matches data (log_array n) then Inr (False, saved, False, n)
          else rbind (append_each (node_platform env) (case ae_entries data of None \<Rightarrow> [] | Some es \<Rightarrow> es) 0 (log_array n))
            (\<lambda>(stored, l).
              let n1 = n\<lparr>log_array := l\<rparr>;
                  saved1 = (saved \<or> 0 < stored);
                  new_commit = min (leader_commit data) (get_last_index l)
              in if pcommit n1 < leader_commit data \<and> pcommit n1 < new_commit
                 then Inr (True, True, True, set_commit new_commit n1)
                 else Inr (True, saved1, False, n1)))"

definition handle_append_entries :: "raft_env \<Rightarrow> raft_message \<Rightarrow> raft_node \<Rightarrow> (bool \<times> raft_node) res" where
  "handle_append_entries env msg n =
     (let resp_term = pterm n; resp_last_idx = get_last_index (log_array n)
      in rbind
          (if m_term msg < resp_term then Inr (False, resp_term, False, False, n)
           else
             let n1 = to_follower n;
                 newer = resp_term < m_term msg;
                 n2 = reset_election_timeout env (if newer then set_term (m_term msg) n1 else n1)
             in rbind (accept_entries env msg newer n2) (\<lambda>(ok, saved, applying, n3).
                  Inr (ok, (if newer then m_term msg else resp_term), saved, applying, n3)))
          (\<lambda>(ok, resp_term, saved, applying, n4).
             let last_idx = (if ok then get_last_index (log_array n4) else resp_last_idx);
                 n5 = (if saved then save_persistent_state n4 else n4);
                 n6 = (if follower_client n5 \<noteq> None
                       then send ToLeader (append_entries_response resp_term ok last_idx) n5 else n5)
             in rbind (if applying then apply_committed_entries env n6 else Inr n6) (\<lambda>n7. Inr (ok, n7))))"

definition handle_append_entries_response :: "raft_env \<Rightarrow> raft_message \<Rightarrow> socket \<Rightarrow> raft_node \<Rightarrow> raft_node res" where
  "handle_append_entries_response env msg sock n =
     (case append_entries_response_data msg of
        None \<Rightarrow> Inr n
      | Some response \<Rightarrow>
          if aer_success response then
            let new_match = max (at0 sock (match_index n)) (log_index response);
                n1 = n\<lparr>match_index := AList.update sock new_match (match_index n),
                       next_index := AList.update sock (new_match + 1) (next_index n)\<rparr>;
                has_more = new_match + 1 \<le> get_last_index (log_array n1)
            in rbind (if need_majority_confirm (node_config n1) then try_commit_entries env n1 else Inr n1) (\<lambda>n2.
                 Inr (if has_more then send_append_entries sock n2 else n2))
          else
            let old_next = at0 sock (next_index n);
                n1 = n\<lparr>next_index := AList.update sock (if 0 < old_next then old_next - 1 else 0) (next_index n)\<rparr>
            in Inr (send_append_entries sock n1))"

end
