(* ===== verification/RaftVotes.thy ===== *)
theory RaftVotes
  imports RaftNode
begin

text \<open>
  What a node promises to the rest of the cluster: its term and commit index never go back, and
  within a term it votes for one candidate only, also across a crash. The steps are the handlers of
  \<open>RaftNode\<close> that elections and replication use, the rounds of the background threads, and the
  loss of everything but the meta file. The proofs need one fact on every handler, that it leaves
  the state in memory and the meta file equal; it is the invariant \<open>settled\<close>.
\<close>

section \<open>The meta file gives back the state\<close>

interpretation cle32: codec le32 dec_le32 "\<lambda>_. True"
  by unfold_locales (simp add: dec_le32_def read_bytes_append)

definition persistent_state_ok :: "persistent_state \<Rightarrow> bool" where
  "persistent_state_ok p \<longleftrightarrow> address_ok (voted_for p) \<and> cluster_metadata_ok (cluster_meta p)"

interpretation ps: codec_upto ser_persistent_state deserialize_persistent_state persistent_state_ok "\<lambda>p. p"
  unfolding deserialize_persistent_state_def
  by (rule codec_image [OF codec_seq [OF cle32.upto.codec_upto_axioms codec_seq [OF addr.codec_upto_axioms
        codec_seq [OF cmd.codec_upto_axioms codec_seq [OF cle32.upto.codec_upto_axioms
          codec_seq [OF cle32.upto.codec_upto_axioms cle32.upto.codec_upto_axioms]]]]],
      where dest = "\<lambda>p. (current_term p, voted_for p, cluster_meta p, log_snapshot_index p, commit_index p, last_applied p)"])
    (auto simp: ok_both_def enc_seq_def ser_persistent_state_def persistent_state_ok_def)

lemma save_persistent [simp]:
  "persistent (save_persistent_state n) = persistent n" "role (save_persistent_state n) = role n"
  "log_array (save_persistent_state n) = log_array n" "granted_votes (save_persistent_state n) = granted_votes n"
  "node_config (save_persistent_state n) = node_config n" "follower_client (save_persistent_state n) = follower_client n"
  "node_store (save_persistent_state n) = node_store n" "match_index (save_persistent_state n) = match_index n"
  "next_index (save_persistent_state n) = next_index n" "outbox (save_persistent_state n) = outbox n"
  "node_port (save_persistent_state n) = node_port n" "follower_sockets (save_persistent_state n) = follower_sockets n"
  by (simp_all add: save_persistent_state_def Let_def split: option.splits)

lemma save_meta: "meta_file n \<noteq> None \<Longrightarrow> meta_file (save_persistent_state n) = Some (ser_persistent_state (persistent n))"
  by (auto simp: save_persistent_state_def Let_def)

lemma save_meta_None [simp]: "(meta_file (save_persistent_state n) = None) = (meta_file n = None)"
  by (auto simp: save_persistent_state_def Let_def split: option.splits)

lemma load_saved:
  assumes "persistent_state_ok p" "meta_file n = Some (ser_persistent_state p)"
  shows "load_persistent_state n = Inr (n\<lparr>persistent := p\<rparr>)"
  using ps.dec_norm [of p "[]" "[]"] assms by (simp add: load_persistent_state_def ser_persistent_state_def)

text \<open>
  What \<open>save_persistent_state\<close> writes over an older and possibly longer meta file, a node that
  opens the file reads back: term, vote, cluster, snapshot index, commit index and applied index.
\<close>

theorem persistent_state_roundtrip:
  assumes "persistent_state_ok (persistent n)" "meta_file n = Some old"
  shows "load_persistent_state (m\<lparr>meta_file := meta_file (save_persistent_state n)\<rparr>)
    = Inr (m\<lparr>meta_file := meta_file (save_persistent_state n), persistent := persistent n\<rparr>)"
  by (rule load_saved) (simp_all add: assms save_meta)

section \<open>Steps\<close>

datatype raft_event =
    Elect raft_env
  | AskVote raft_env raft_message socket
  | VoteAnswer raft_env raft_message
  | Append raft_env raft_message
  | AppendAnswer raft_env raft_message socket
  | CommitAll raft_env
  | Heartbeat
  | Crash raft_node

text \<open>
  A step of a node, with the votes it casts. A crash keeps the meta file of the node and nothing else.
\<close>

definition timer_fires :: "raft_env \<Rightarrow> raft_node \<Rightarrow> bool" where
  "timer_fires env n \<longleftrightarrow> role n \<noteq> Leader \<and> last_heartbeat_time n + election_timeout n \<le> steady_now env"

fun node_step :: "raft_event \<Rightarrow> raft_node \<Rightarrow> ((u32 \<times> address) list \<times> raft_node) res" where
  "node_step (Elect env) n =
     (let n' = election_round env n in Inr (if timer_fires env n then [(pterm n', pvote n')] else [], n'))"
| "node_step (AskVote env msg sock) n =
     (let (ok, n') = handle_request_vote env msg sock n
      in Inr (case peer_address env sock of Some a \<Rightarrow> if ok then [(m_term msg, a)] else [] | None \<Rightarrow> [], n'))"
| "node_step (VoteAnswer env msg) n = Inr ([], handle_request_vote_response env msg n)"
| "node_step (Append env msg) n = rbind (handle_append_entries env msg n) (\<lambda>(_, n'). Inr ([], n'))"
| "node_step (AppendAnswer env msg sock) n = rbind (handle_append_entries_response env msg sock n) (\<lambda>n'. Inr ([], n'))"
| "node_step (CommitAll env) n = rbind (commit_entries env n) (\<lambda>n'. Inr ([], n'))"
| "node_step Heartbeat n = Inr ([], heartbeat_round n)"
| "node_step (Crash m) n = rbind (load_persistent_state (m\<lparr>meta_file := meta_file n\<rparr>)) (\<lambda>n'. Inr ([], n'))"

text \<open>
  The assumptions on a step: a term is left to count up to, and a peer has an address that is not
  the one \<open>Address\<close> uses for nobody.
\<close>

fun event_ok :: "raft_event \<Rightarrow> raft_node \<Rightarrow> bool" where
  "event_ok (Elect env) n = (pterm n \<noteq> - 1)"
| "event_ok (AskVote env msg sock) n = (case peer_address env sock of Some a \<Rightarrow> address_ok a \<and> \<not> is_null a | None \<Rightarrow> True)"
| "event_ok _ n = True"

inductive node_run :: "raft_node \<Rightarrow> (u32 \<times> address) list \<Rightarrow> raft_node \<Rightarrow> bool" where
  run_start: "node_run n [] n"
| run_step: "node_run n vs n1 \<Longrightarrow> event_ok e n1 \<Longrightarrow> node_step e n1 = Inr (ws, n2) \<Longrightarrow> node_run n (vs @ ws) n2"

definition settled :: "raft_node \<Rightarrow> bool" where
  "settled n \<longleftrightarrow> persistent_state_ok (persistent n) \<and> meta_file n = Some (ser_persistent_state (persistent n))"

text \<open>What no step undoes.\<close>

definition keeps :: "raft_node \<Rightarrow> raft_node \<Rightarrow> bool" where
  "keeps n n' \<longleftrightarrow> pterm n \<le> pterm n' \<and> (pterm n' = pterm n \<longrightarrow> \<not> is_null (pvote n) \<longrightarrow> pvote n' = pvote n) \<and> pcommit n \<le> pcommit n'"

lemma keeps_refl [simp]: "keeps n n"
  by (simp add: keeps_def)

lemma keeps_trans: "keeps n n1 \<Longrightarrow> keeps n1 n2 \<Longrightarrow> keeps n n2"
  unfolding keeps_def by force

lemma keeps_same: "persistent n' = persistent n \<Longrightarrow> keeps n n'"
  by (simp add: keeps_def)

lemma settled_same: "settled n \<Longrightarrow> persistent n' = persistent n \<Longrightarrow> meta_file n' = meta_file n \<Longrightarrow> settled n'"
  by (simp add: settled_def)

lemma settled_save: "meta_file n \<noteq> None \<Longrightarrow> persistent_state_ok (persistent n) \<Longrightarrow> settled (save_persistent_state n)"
  by (simp add: settled_def save_meta)

lemma send_same [simp]:
  "persistent (send d m n) = persistent n" "meta_file (send d m n) = meta_file n" "role (send d m n) = role n"
  "log_array (send d m n) = log_array n" "node_store (send d m n) = node_store n" "match_index (send d m n) = match_index n"
  "next_index (send d m n) = next_index n" "node_config (send d m n) = node_config n" "follower_client (send d m n) = follower_client n"
  "granted_votes (send d m n) = granted_votes n" "follower_sockets (send d m n) = follower_sockets n"
  by (simp_all add: send_def)

lemma fold_send_same [simp]:
  "persistent (fold (\<lambda>x. send (d x) (m x)) xs n) = persistent n" "meta_file (fold (\<lambda>x. send (d x) (m x)) xs n) = meta_file n"
  "role (fold (\<lambda>x. send (d x) (m x)) xs n) = role n" "granted_votes (fold (\<lambda>x. send (d x) (m x)) xs n) = granted_votes n"
  "outbox (fold (\<lambda>x. send (d x) (m x)) xs n) = outbox n @ map (\<lambda>x. (d x, m x)) xs"
  by (induction xs arbitrary: n) (auto simp: send_def)

lemma send_append_entries_same [simp]:
  "persistent (send_append_entries s n) = persistent n" "meta_file (send_append_entries s n) = meta_file n"
  by (simp_all add: send_append_entries_def)

lemma fold_append_entries_same [simp]:
  "persistent (fold send_append_entries ss n) = persistent n" "meta_file (fold send_append_entries ss n) = meta_file n"
  by (induction ss arbitrary: n) auto

lemma broadcast_same [simp]:
  "persistent (broadcast_new_master_with_check env t n) = persistent n" "meta_file (broadcast_new_master_with_check env t n) = meta_file n"
  "role (broadcast_new_master_with_check env t n) = role n"
  by (simp_all add: broadcast_new_master_with_check_def broadcast_new_master_impl_def split: option.splits)

lemma apply_entry_same:
  assumes "apply_entry env i n = Inr (r, n')"
  shows "\<exists>st c. n' = n\<lparr>node_store := st, result_cache := c\<rparr>"
proof -
  have "\<exists>st c. n = n\<lparr>node_store := st, result_cache := c\<rparr>"
    by (rule exI [of _ "node_store n"], rule exI [of _ "result_cache n"]) simp
  moreover have "\<exists>st' c. n\<lparr>node_store := st\<rparr> = n\<lparr>node_store := st', result_cache := c\<rparr>" for st
    by (rule exI [of _ st], rule exI [of _ "result_cache n"]) simp
  ultimately show ?thesis using assms
    by (auto simp: apply_entry_def Let_def rbind_eq_Inr_iff split: option.splits if_splits prod.splits)
qed

lemma apply_loop_same:
  "apply_loop env k n = Inr n' \<Longrightarrow>
     persistent n' = (persistent n)\<lparr>last_applied := papplied n + word_of_nat k\<rparr> \<and> meta_file n' = meta_file n \<and> log_array n' = log_array n \<and>
     role n' = role n"
proof (induction k arbitrary: n)
  case (Suc k)
  then obtain r n2 where a: "apply_entry env (papplied n + 1) (set_applied (papplied n + 1) n) = Inr (r, n2)"
    and l: "apply_loop env k (if role n2 = Leader then notify_request_applied (papplied n + 1) r n2 else n2) = Inr n'"
    by (auto simp: Let_def rbind_eq_Inr_iff)
  from apply_entry_same [OF a] show ?case
    using Suc.IH [OF l] by (auto simp: notify_request_applied_def upd_defs add_ac split: if_splits)
qed simp

lemma commit_loop_same:
  "commit_loop env k i n = Inr n' \<Longrightarrow> persistent n' = persistent n \<and> meta_file n' = meta_file n \<and> log_array n' = log_array n"
proof (induction k arbitrary: i n)
  case (Suc k)
  then obtain r n2 where a: "apply_entry env (i + 1) n = Inr (r, n2)" and l: "commit_loop env k (i + 1) n2 = Inr n'"
    by (auto simp: rbind_eq_Inr_iff)
  from apply_entry_same [OF a] show ?case using Suc.IH [OF l] by auto
qed simp


lemma meta_open: "settled n \<Longrightarrow> meta_file n \<noteq> None"
  by (simp add: settled_def)

lemma apply_committed_keeps:
  assumes "apply_committed_entries env n = Inr n'" "settled n"
  shows "settled n' \<and> keeps n n' \<and> pterm n' = pterm n \<and> pcommit n' = pcommit n \<and> log_array n' = log_array n"
proof (cases "pcommit n \<le> papplied n")
  case False
  then obtain n1 where l: "apply_loop env (unat (pcommit n) - unat (papplied n)) n = Inr n1" and n': "n' = save_persistent_state n1"
    using assms(1) by (auto simp: apply_committed_entries_def rbind_eq_Inr_iff)
  from apply_loop_same [OF l] have "meta_file n1 \<noteq> None" "persistent_state_ok (persistent n1)" "keeps n n1" "pterm n1 = pterm n"
    "pcommit n1 = pcommit n" "log_array n1 = log_array n"
    using assms(2) by (auto simp: settled_def persistent_state_ok_def keeps_def)
  then show ?thesis using n' settled_save by (simp add: keeps_def)
qed (use assms in \<open>simp add: apply_committed_entries_def\<close>)

lemma try_commit_keeps:
  assumes "try_commit_entries env n = Inr n'" "settled n"
  shows "settled n' \<and> keeps n n'"
proof -
  let ?up = "pcommit n < majority_index n \<and> get_term (majority_index n) (log_array n) = pterm n"
  let ?n1 = "if ?up then save_persistent_state (set_commit (majority_index n) n) else n"
  have 1: "settled ?n1 \<and> keeps n ?n1"
    using assms(2) by (auto simp: upd_defs keeps_def settled_def persistent_state_ok_def save_meta)
  show ?thesis
  proof (cases "get_last_index (log_array n) \<le> pcommit n")
    case False
    then have "n' = ?n1 \<or> apply_committed_entries env ?n1 = Inr n'"
      using assms(1) unfolding try_commit_entries_def Let_def by (auto split: if_split_asm)
    then show ?thesis using 1 apply_committed_keeps keeps_trans by blast
  qed (use assms in \<open>simp add: try_commit_entries_def\<close>)
qed

lemma commit_entries_keeps:
  assumes "commit_entries env n = Inr n'" "settled n"
  shows "settled n' \<and> keeps n n'"
proof (cases "get_last_index (log_array n) \<le> pcommit n")
  case False
  then obtain n2 where l: "commit_loop env (unat (get_last_index (log_array n)) - unat (papplied n)) (papplied n)
      (set_commit (get_last_index (log_array n)) n) = Inr n2"
    and n': "n' = save_persistent_state (set_applied (get_last_index (log_array n)) n2)"
    using assms(1) by (auto simp: commit_entries_def Let_def upd_defs rbind_eq_Inr_iff)
  from commit_loop_same [OF l] show ?thesis
    using assms(2) False n' by (auto simp: upd_defs keeps_def settled_def persistent_state_ok_def save_meta)
qed (use assms in \<open>simp add: commit_entries_def\<close>)

lemma handle_append_entries_response_keeps:
  assumes "handle_append_entries_response env msg sock n = Inr n'" "settled n"
  shows "settled n' \<and> keeps n n'"
proof -
  have s: "settled (m\<lparr>match_index := x, next_index := y\<rparr>) = settled m" "settled (m\<lparr>next_index := y\<rparr>) = settled m"
    "keeps (m\<lparr>match_index := x, next_index := y\<rparr>) m' = keeps m m'" "settled (send_append_entries sock m) = settled m"
    "keeps m (send_append_entries sock m') = keeps m m'" "keeps m (m'\<lparr>next_index := y\<rparr>) = keeps m m'"
    "settled (m\<lparr>match_index := x\<rparr>) = settled m" "keeps m (m'\<lparr>match_index := x\<rparr>) = keeps m m'" for m m' x y
    by (simp_all add: settled_def keeps_def)
  show ?thesis
    using assms try_commit_keeps [of env "n\<lparr>match_index := x, next_index := y\<rparr>" for x y]
    by (auto simp: handle_append_entries_response_def Let_def rbind_eq_Inr_iff s split: option.splits if_split_asm)
qed

lemma accept_entries_props:
  assumes "accept_entries env msg saved n = Inr (ok, saved', applying, n')"
  shows "meta_file n' = meta_file n" "saved \<longrightarrow> saved'" "\<not> saved' \<longrightarrow> persistent n' = persistent n" "applying \<longrightarrow> saved'" "pcommit n \<le> pcommit n'"
    "pterm n' = pterm n" "pvote n' = pvote n" "cluster_meta (persistent n') = cluster_meta (persistent n)"
  using assms by (auto simp: accept_entries_def Let_def rbind_eq_Inr_iff upd_defs split: option.splits if_split_asm prod.splits)

text \<open>\<open>handle_append_entries\<close> in two parts: becoming a follower, and the answer once the entries are stored.\<close>

definition follow :: "raft_env \<Rightarrow> raft_message \<Rightarrow> raft_node \<Rightarrow> raft_node" where
  "follow env msg n = reset_election_timeout env (if pterm n < m_term msg then set_term (m_term msg) (to_follower n) else to_follower n)"

definition answer_append :: "raft_env \<Rightarrow> bool \<Rightarrow> u32 \<Rightarrow> u32 \<Rightarrow> bool \<Rightarrow> bool \<Rightarrow> raft_node \<Rightarrow> (bool \<times> raft_node) res" where
  "answer_append env ok last_idx t saved applying n3 =
     (let n5 = (if saved then save_persistent_state n3 else n3);
          n6 = (if follower_client n5 \<noteq> None then send ToLeader (append_entries_response t ok last_idx) n5 else n5)
      in rbind (if applying then apply_committed_entries env n6 else Inr n6) (\<lambda>n7. Inr (ok, n7)))"

lemma handle_append_entries_accept:
  assumes "\<not> m_term msg < pterm n"
  shows "handle_append_entries env msg n =
    rbind (accept_entries env msg (pterm n < m_term msg) (follow env msg n)) (\<lambda>(ok, saved, applying, n3).
      answer_append env ok (if ok then get_last_index (log_array n3) else get_last_index (log_array n)) (m_term msg) saved applying n3)"
proof -
  have "(if pterm n < m_term msg then m_term msg else pterm n) = m_term msg" using assms by auto
  then show ?thesis using assms
    by (cases "accept_entries env msg (pterm n < m_term msg) (follow env msg n)")
      (auto simp: handle_append_entries_def follow_def answer_append_def Let_def split: prod.splits)
qed

lemma handle_append_entries_keeps:
  assumes "handle_append_entries env msg n = Inr (ok, n')" "settled n"
  shows "settled n' \<and> keeps n n'"
proof (cases "m_term msg < pterm n")
  case True
  then have "persistent n' = persistent n" "meta_file n' = meta_file n"
    using assms(1) by (auto simp: handle_append_entries_def Let_def split: if_split_asm)
  then show ?thesis using assms(2) by (simp add: settled_same keeps_same)
next
  case False
  let ?newer = "pterm n < m_term msg"
  let ?n2 = "follow env msg n"
  obtain saved applying n3 where a: "accept_entries env msg ?newer ?n2 = Inr (ok, saved, applying, n3)"
    and r: "answer_append env ok (if ok then get_last_index (log_array n3) else get_last_index (log_array n)) (m_term msg) saved applying n3 = Inr (ok, n')"
    using assms(1) False by (auto simp: handle_append_entries_accept [OF False] rbind_eq_Inr_iff answer_append_def Let_def)
  note p = accept_entries_props [OF a]
  let ?n5 = "if saved then save_persistent_state n3 else n3"
  have ps: "persistent ?n2 = (if ?newer then (persistent n)\<lparr>current_term := m_term msg\<rparr> else persistent n)" "meta_file ?n2 = meta_file n"
    by (simp_all add: follow_def reset_election_timeout_def to_follower_def upd_defs)
  have 5: "settled ?n5 \<and> keeps n ?n5"
    using p ps assms(2) by (auto simp: settled_def keeps_def persistent_state_ok_def save_meta split: if_splits)
  let ?last = "if ok then get_last_index (log_array n3) else get_last_index (log_array n)"
  let ?n6 = "if follower_client ?n5 \<noteq> None then send ToLeader (append_entries_response (m_term msg) ok ?last) ?n5 else ?n5"
  have 6: "persistent ?n6 = persistent ?n5" "meta_file ?n6 = meta_file ?n5" by simp_all
  then have k: "settled ?n6" "keeps n ?n6" using 5 keeps_same keeps_trans settled_same by blast+
  have "n' = ?n6 \<or> apply_committed_entries env ?n6 = Inr n'"
    using r unfolding answer_append_def Let_def rbind_eq_Inr_iff by (cases applying) auto
  then show ?thesis using k apply_committed_keeps keeps_trans by blast
qed


lemma handle_request_vote_keeps:
  assumes "handle_request_vote env msg sock n = (ok, n')" "settled n" "event_ok (AskVote env msg sock) n"
  shows "settled n' \<and> keeps n n' \<and> (ok \<longrightarrow> (\<exists>a. peer_address env sock = Some a \<and> \<not> is_null a \<and> pterm n' = m_term msg \<and> pvote n' = a))"
proof (cases "request_vote_data msg = None \<or> peer_address env sock = None \<or> m_term msg < pterm n")
  case True
  then have "\<not> ok \<and> persistent n' = persistent n \<and> meta_file n' = meta_file n"
    using assms(1) by (auto simp: handle_request_vote_def split: option.splits)
  then show ?thesis using assms(2) by (simp add: settled_same keeps_same)
next
  case False
  then obtain data a where d: "request_vote_data msg = Some data" "peer_address env sock = Some a" "pterm n \<le> m_term msg" by auto
  then have a: "address_ok a" "\<not> is_null a" using assms(3) by auto
  define n1 where "n1 = (if pterm n < m_term msg then to_follower (save_persistent_state (set_vote null_address (set_term (m_term msg) n))) else n)"
  have ps: "persistent n1 = (if pterm n < m_term msg then (persistent n)\<lparr>current_term := m_term msg, voted_for := null_address\<rparr> else persistent n)"
    by (simp add: n1_def to_follower_def upd_defs)
  have "address_ok null_address" by (simp add: address_ok_def null_address_def string_ok_def)
  then have 1: "settled n1" "pterm n1 = m_term msg" "keeps n n1"
    using assms(2) d(3) ps by (auto simp: n1_def settled_def persistent_state_ok_def to_follower_def upd_defs save_meta keeps_def)
  let ?yes = "(is_null (pvote n1) \<or> pvote n1 = a) \<and> log_is_fresh data (log_array n1)"
  let ?n2 = "save_persistent_state (reset_election_timeout env (set_vote a n1))"
  have r: "ok = ?yes" "n' = (if ?yes then send (ToSocket sock) (request_vote_response (m_term msg) True) ?n2
      else send (ToSocket sock) (request_vote_response (m_term msg) False) n1)"
    using assms(1) d(1,2) leD [OF d(3)] unfolding handle_request_vote_def Let_def n1_def [symmetric] by (auto split: if_split_asm)
  have 2: "settled ?n2" "keeps n1 ?n2 \<and> pterm ?n2 = m_term msg \<and> pvote ?n2 = a" if ?yes
    using 1 a that by (auto simp: settled_def persistent_state_ok_def reset_election_timeout_def upd_defs save_meta keeps_def)
  show ?thesis
  proof (cases ?yes)
    case True
    then have "persistent n' = persistent ?n2" "meta_file n' = meta_file ?n2" using r by simp_all
    then show ?thesis using 2 [OF True] 1(3) d(2) a(2) keeps_trans keeps_same settled_same by (metis save_persistent(1))
  next
    case False
    then have "persistent n' = persistent n1" "meta_file n' = meta_file n1" using r by auto
    then show ?thesis using 1 False r(1) keeps_trans keeps_same settled_same by metis
  qed
qed


lemma handle_request_vote_response_keeps:
  assumes "settled n"
  shows "settled (handle_request_vote_response env msg n) \<and> keeps n (handle_request_vote_response env msg n)"
proof -
  have null: "address_ok null_address" by (simp add: address_ok_def null_address_def string_ok_def)
  let ?b = "\<lambda>x. save_persistent_state (set_nodes (pnodes n) (become_leader (n\<lparr>granted_votes := x\<rparr>)))"
  have ps: "persistent (?b x) = persistent n" for x
    by (simp add: become_leader_def to_leader_def upd_defs)
  have b: "settled (?b x) \<and> keeps n (?b x)" for x
    using assms ps by (auto simp: settled_def keeps_def save_meta become_leader_def to_leader_def upd_defs)
  show ?thesis
    using assms null b
    by (auto simp: handle_request_vote_response_def Let_def settled_def persistent_state_ok_def keeps_def to_follower_def upd_defs save_meta
        split: option.splits)
qed

lemma election_round_keeps:
  assumes "settled n" "pterm n \<noteq> - 1"
  shows "settled (election_round env n) \<and> keeps n (election_round env n) \<and>
    (timer_fires env n \<longrightarrow> pterm n < pterm (election_round env n) \<and> \<not> is_null (pvote (election_round env n)))"
proof -
  have "pterm n + 1 \<noteq> 0" using assms(2) by (metis add_eq_0_iff2)
  then have lt: "pterm n < pterm n + 1" using unatSuc [of "pterm n"] by (simp add: word_less_nat_alt add.commute)
  have "address_ok \<lparr>host = localhost, port = p\<rparr> \<and> \<not> is_null \<lparr>host = localhost, port = p\<rparr>" for p
    by (simp add: address_ok_def localhost_def string_ok_def is_null_def)
  then have "settled (become_candidate env n) \<and> keeps n (become_candidate env n) \<and> pterm (become_candidate env n) = pterm n + 1 \<and>
      \<not> is_null (pvote (become_candidate env n))"
    using assms lt
    by (auto simp: become_candidate_def Let_def settled_def persistent_state_ok_def keeps_def to_candidate_def send_request_vote_def
        reset_election_timeout_def upd_defs save_meta split: prod.splits)
  then show ?thesis using assms lt by (simp add: election_round_def timer_fires_def)
qed

lemma heartbeat_round_keeps: "settled n \<Longrightarrow> settled (heartbeat_round n) \<and> keeps n (heartbeat_round n)"
  by (simp add: heartbeat_round_def send_heartbeat_to_all_def settled_def keeps_def)

lemma crash_keeps:
  assumes "load_persistent_state (m\<lparr>meta_file := meta_file n\<rparr>) = Inr n'" "settled n"
  shows "settled n' \<and> keeps n n'"
  using assms load_saved [of "persistent n" "m\<lparr>meta_file := meta_file n\<rparr>"] by (auto simp: settled_def keeps_def)


lemma node_step_keeps:
  assumes "node_step e n = Inr (ws, n')" "event_ok e n" "settled n"
  shows "settled n' \<and> keeps n n' \<and>
    (\<forall>(t, a) \<in> set ws. t = pterm n' \<and> a = pvote n' \<and> \<not> is_null a \<and> (pterm n = t \<longrightarrow> is_null (pvote n) \<or> pvote n = a))"
proof (cases e)
  case (Elect env)
  then show ?thesis using assms election_round_keeps [of n env] by (auto simp: Let_def split: if_split_asm)
next
  case (AskVote env msg sock)
  then obtain ok where h: "handle_request_vote env msg sock n = (ok, n')"
    and ws: "ws = (case peer_address env sock of Some a \<Rightarrow> if ok then [(m_term msg, a)] else [] | None \<Rightarrow> [])"
    using assms(1) by (cases "handle_request_vote env msg sock n") auto
  note k = handle_request_vote_keeps [OF h assms(3)]
  show ?thesis using k assms(2) ws AskVote by (auto simp: keeps_def split: option.splits if_split_asm)
next
  case (VoteAnswer env msg)
  then show ?thesis using assms handle_request_vote_response_keeps by auto
next
  case (Append env msg)
  then show ?thesis using assms handle_append_entries_keeps by (auto simp: rbind_eq_Inr_iff)
next
  case (AppendAnswer env msg sock)
  then show ?thesis using assms handle_append_entries_response_keeps by (auto simp: rbind_eq_Inr_iff)
next
  case (CommitAll env)
  then show ?thesis using assms commit_entries_keeps by (auto simp: rbind_eq_Inr_iff)
next
  case Heartbeat
  then show ?thesis using assms heartbeat_round_keeps by auto
next
  case (Crash m)
  then show ?thesis using assms crash_keeps by (auto simp: rbind_eq_Inr_iff)
qed

text \<open>The votes of a run: none of a later term, and none of the present term but the one on record.\<close>

definition votes_recorded :: "raft_node \<Rightarrow> (u32 \<times> address) list \<Rightarrow> bool" where
  "votes_recorded n vs \<longleftrightarrow> (\<forall>(t, a) \<in> set vs. t < pterm n \<or> (t = pterm n \<and> a = pvote n \<and> \<not> is_null a)) \<and>
     (\<forall>(t, a) \<in> set vs. \<forall>(u, b) \<in> set vs. t = u \<longrightarrow> a = b)"

lemma votes_recorded_step:
  assumes "votes_recorded n vs" "keeps n n'"
    and "\<forall>(t, a) \<in> set ws. t = pterm n' \<and> a = pvote n' \<and> \<not> is_null a"
  shows "votes_recorded n' (vs @ ws)"
proof -
  have 1: "\<forall>(t, a) \<in> set (vs @ ws). t < pterm n' \<or> (t = pterm n' \<and> a = pvote n' \<and> \<not> is_null a)"
    using assms unfolding votes_recorded_def keeps_def by (fastforce simp: order_le_less)
  have 2: "a = b" if "(t, a) \<in> set (vs @ ws)" "(t, b) \<in> set (vs @ ws)" for t a b
  proof (cases "t = pterm n'")
    case True
    then show ?thesis using bspec [OF 1 that(1)] bspec [OF 1 that(2)] by auto
  next
    case False
    then have "(t, a) \<in> set vs" "(t, b) \<in> set vs" using that assms(3) by auto
    then show ?thesis using assms(1) unfolding votes_recorded_def by fastforce
  qed
  show ?thesis using 1 2 unfolding votes_recorded_def by blast
qed

lemma node_run_keeps:
  "node_run n vs n' \<Longrightarrow> settled n \<Longrightarrow> settled n' \<and> keeps n n' \<and> votes_recorded n' vs"
proof (induction rule: node_run.induct)
  case (run_start n)
  then show ?case by (simp add: votes_recorded_def)
next
  case (run_step n vs n1 e ws n2)
  then have s: "settled n1" "keeps n n1" "votes_recorded n1 vs" by simp_all
  from node_step_keeps [OF run_step(3,2) s(1)] have k: "settled n2" "keeps n1 n2"
    "\<forall>(t, a) \<in> set ws. t = pterm n2 \<and> a = pvote n2 \<and> \<not> is_null a" by auto
  show ?case using k keeps_trans [OF s(2) k(2)] votes_recorded_step [OF s(3) k(2,3)] by simp
qed


text \<open>
  The term and the commit index of a node never go back, and within a term its vote does not
  change: over elections, votes, appended entries, answers, commits and crashes in any order. At
  every point the meta file holds exactly the state in memory.
\<close>

theorem node_state_monotone:
  assumes "node_run n vs n'" "settled n"
  shows "settled n' \<and> pterm n \<le> pterm n' \<and> pcommit n \<le> pcommit n' \<and>
    (pterm n' = pterm n \<and> \<not> is_null (pvote n) \<longrightarrow> pvote n' = pvote n)"
  using node_run_keeps [OF assms] by (simp add: keeps_def)


section \<open>Examples\<close>

definition sample_config :: raft_node_config where
  "sample_config = \<lparr>join_cluster_max_retries = 3, append_entries_max_batch = 1000, snapshot_chunk_size_bytes = 65536,
     result_cache_capacity = 10000, need_majority_confirm = True, raft_rpc_timeout_ms = 2000, node_log_config = default_log_config\<rparr>"

definition sample_log :: "log_entry list \<Rightarrow> raft_log" where
  "sample_log es = \<lparr>l_entries = es, base_index = 1, index_offsets = [], raft_wal = None, raft_idx = None, log_config = default_log_config\<rparr>"

definition sample_node :: raft_node where
  "sample_node = raft_node_init ''10.0.0.1'' 5211 [] sample_config 150 (sample_log []) (store_fresh True)
     (Some (ser_persistent_state persistent_state_new)) None"

definition sample_addr :: "int \<Rightarrow> address" where
  "sample_addr s = \<lparr>host = ''10.0.0.2'', port = word_of_int s\<rparr>"

definition sample_env :: "nat \<Rightarrow> raft_env" where
  "sample_env now = \<lparr>envs = (\<lambda>_. env_at 7 5), regex = (\<lambda>_. Inl UB), node_platform = sample_platform, steady_now = now, drawn_timeout = 150,
     wall_ms = 0, peer_address = (\<lambda>s. Some (sample_addr s)), self_address = (\<lambda>s. Some (sample_addr 5211)),
     client_self_address = Some (sample_addr 5211)\<rparr>"

lemma sample_settled: "settled sample_node"
  by (simp add: settled_def sample_node_def raft_node_init_def persistent_state_ok_def persistent_state_new_def cluster_metadata_new_def
      cluster_metadata_ok_def address_ok_def null_address_def string_ok_def ok_counted_def)

lemma sample_vote:
  assumes "pterm n < t \<or> (pterm n = t \<and> pvote n = sample_addr s)" "l_entries (log_array n) = []" "0 \<le> s" "s < 65536"
  obtains n' where "node_step (AskVote (sample_env 0) (request_vote t 1 1) s) n = Inr ([(t, sample_addr s)], n')"
    "event_ok (AskVote (sample_env 0) (request_vote t 1 1) s) n" "pterm n' = t" "pvote n' = sample_addr s" "l_entries (log_array n') = []"
proof -
  have "fst (handle_request_vote (sample_env 0) (request_vote t 1 1) s n)"
    "pterm (snd (handle_request_vote (sample_env 0) (request_vote t 1 1) s n)) = t"
    "pvote (snd (handle_request_vote (sample_env 0) (request_vote t 1 1) s n)) = sample_addr s"
    "l_entries (log_array (snd (handle_request_vote (sample_env 0) (request_vote t 1 1) s n))) = []"
    using assms(1,2)
    by (auto simp: handle_request_vote_def request_vote_def raft_message_new_def sample_env_def log_is_fresh_def get_last_info_def
        to_follower_def reset_election_timeout_def upd_defs is_null_iff Let_def)
  moreover have "event_ok (AskVote (sample_env 0) (request_vote t 1 1) s) n"
    by (simp add: sample_env_def sample_addr_def address_ok_def string_ok_def is_null_def)
  moreover have "m_term (request_vote t 1 1) = t" by (simp add: request_vote_def raft_message_new_def)
  ultimately show ?thesis
    by (intro that [of "snd (handle_request_vote (sample_env 0) (request_vote t 1 1) s n)"])
      (auto simp: sample_env_def case_prod_beta split: option.splits)
qed


lemma sample_run:
  obtains n' where "node_run sample_node [(1, sample_addr 7), (1, sample_addr 7)] n'" "pterm n' = 1"
proof -
  let ?e = "AskVote (sample_env 0) (request_vote 1 1 1) 7"
  have "pterm sample_node < 1" and l: "l_entries (log_array sample_node) = []"
    by (simp_all add: sample_node_def raft_node_init_def persistent_state_new_def sample_log_def)
  then obtain n1 where 1: "node_step ?e sample_node = Inr ([(1, sample_addr 7)], n1)" "event_ok ?e sample_node" "pterm n1 = 1"
      "pvote n1 = sample_addr 7" using sample_vote [of sample_node 1 7] by auto
  from node_step_keeps [OF 1(1,2) sample_settled] have s1: "settled n1" by simp
  then have "load_persistent_state (sample_node\<lparr>meta_file := meta_file n1\<rparr>) = Inr (sample_node\<lparr>meta_file := meta_file n1, persistent := persistent n1\<rparr>)"
    by (intro load_saved) (simp_all add: settled_def)
  then have 2: "node_step (Crash sample_node) n1 = Inr ([], sample_node\<lparr>meta_file := meta_file n1, persistent := persistent n1\<rparr>)" by simp
  let ?n2 = "sample_node\<lparr>meta_file := meta_file n1, persistent := persistent n1\<rparr>"
  from sample_vote [of ?n2 1 7] 1 l obtain n3 where 3: "node_step ?e ?n2 = Inr ([(1, sample_addr 7)], n3)" "event_ok ?e ?n2" "pterm n3 = 1" by auto
  have "node_run sample_node ((([] @ [(1, sample_addr 7)]) @ []) @ [(1, sample_addr 7)]) n3"
    by (rule run_step [OF run_step [OF run_step [OF run_start 1(2,1)] _ 2] 3(2,1)]) simp
  then show ?thesis using that 3(3) by simp
qed

theorem persistent_state_roundtrip_witness:
  "load_persistent_state (sample_node\<lparr>meta_file := meta_file (save_persistent_state (set_term 5 sample_node))\<rparr>)
    = Inr (sample_node\<lparr>meta_file := meta_file (save_persistent_state (set_term 5 sample_node)), persistent := persistent (set_term 5 sample_node)\<rparr>)"
proof -
  have "persistent_state_ok (persistent (set_term 5 sample_node))" "meta_file (set_term 5 sample_node) = Some (ser_persistent_state persistent_state_new)"
    using sample_settled by (simp_all add: settled_def upd_defs persistent_state_ok_def sample_node_def raft_node_init_def)
  from persistent_state_roundtrip [OF this, of sample_node] show ?thesis by simp
qed


theorem node_state_monotone_witness:
  "\<exists>n' vs. node_run sample_node vs n' \<and> settled n' \<and> pterm sample_node < pterm n' \<and> pcommit sample_node \<le> pcommit n'"
proof -
  obtain n' where r: "node_run sample_node [(1, sample_addr 7), (1, sample_addr 7)] n'" "pterm n' = 1" using sample_run by blast
  then show ?thesis using node_state_monotone [OF r(1) sample_settled]
    by (intro exI [of _ n']) (auto simp: sample_node_def raft_node_init_def persistent_state_new_def)
qed

end
