(* ===== verification/RaftReplication.thy ===== *)
theory RaftReplication
  imports RaftVotes
begin

text \<open>
  Replication between two nodes and the commitment of entries: the log a follower has after it
  accepted a leader's entries, how the leader finds the point where the logs agree, when an index
  is committed, what is applied and in which order, and when a candidate becomes leader.
\<close>

section \<open>Appending and cutting a log on a working disk\<close>

lemma write_entry_plain:
  "disk_ok pf \<Longrightarrow> raft_wal l \<noteq> None \<Longrightarrow> \<exists>off f. write_entry_to_wal pf e l = (Some off, l\<lparr>raft_wal := Some f\<rparr>)"
  by (auto simp: write_entry_to_wal_def fwrite_def Let_def)

text \<open>Two logs that differ in their entries and files only.\<close>

definition same_frame :: "raft_log \<Rightarrow> raft_log \<Rightarrow> bool" where
  "same_frame l l' \<longleftrightarrow> base_index l' = base_index l \<and> log_config l' = log_config l \<and> raft_wal l' \<noteq> None"

lemma index_entry_same [simp]:
  "l_entries (snd (write_index_entry pf off l)) = l_entries l" "base_index (snd (write_index_entry pf off l)) = base_index l"
  "log_config (snd (write_index_entry pf off l)) = log_config l" "raft_wal (snd (write_index_entry pf off l)) = raft_wal l"
  by (simp_all add: write_index_entry_def split: option.splits prod.splits)

lemma log_append_plain:
  assumes "disk_ok pf" "raft_wal l \<noteq> None" "length (l_entries l) < unat (log_size_threshold (log_config l))"
  obtains l' where "log_append pf e l = Inr (True, e\<lparr>le_index := base_index l + word_of_nat (length (l_entries l))\<rparr>, l')"
    "l_entries l' = l_entries l @ [e\<lparr>le_index := base_index l + word_of_nat (length (l_entries l))\<rparr>]" "same_frame l l'"
proof -
  let ?e = "e\<lparr>le_index := base_index l + word_of_nat (length (l_entries l))\<rparr>"
  obtain off f where w: "write_entry_to_wal pf ?e l = (Some off, l\<lparr>raft_wal := Some f\<rparr>)"
    using write_entry_plain [OF assms(1,2)] by blast
  let ?l = "snd (write_index_entry pf off (l\<lparr>raft_wal := Some f, l_entries := l_entries l @ [?e], index_offsets := index_offsets l @ [off]\<rparr>))"
  have "shrink pf ?l = Inr ?l" using assms(3) by (simp add: shrink_def)
  then have "log_append pf e l = Inr (True, ?e, ?l)"
    using w by (simp add: log_append_def append_entry_def Let_def)
  then show ?thesis by (rule that) (simp_all add: same_frame_def)
qed

lemma rewrite_plain:
  assumes "disk_ok pf" "raft_wal l \<noteq> None"
  shows "l_entries (fold (rewrite_entry pf) ks l) = l_entries l \<and> same_frame l (fold (rewrite_entry pf) ks l)"
  using assms(2)
proof (induction ks arbitrary: l)
  case (Cons k ks)
  obtain off f where w: "write_entry_to_wal pf (l_entries l ! k) l = (Some off, l\<lparr>raft_wal := Some f\<rparr>)"
    using write_entry_plain [OF assms(1) Cons.prems] by blast
  then have "raft_wal (rewrite_entry pf k l) \<noteq> None" "l_entries (rewrite_entry pf k l) = l_entries l"
    "base_index (rewrite_entry pf k l) = base_index l" "log_config (rewrite_entry pf k l) = log_config l"
    by (simp_all add: rewrite_entry_def)
  then show ?case using Cons.IH [of "rewrite_entry pf k l"] by (simp add: same_frame_def)
qed (simp add: same_frame_def)

lemma truncate_from_plain:
  assumes "disk_ok pf" "relock_ok pf" "in_log i l"
  obtains l' where "truncate_from pf i l = Inr (True, l')" "l_entries l' = take (unat (i - base_index l)) (l_entries l)" "same_frame l l'"
proof -
  let ?n = "unat (i - base_index l)"
  let ?l = "l\<lparr>l_entries := take ?n (l_entries l), index_offsets := resize ?n (index_offsets l)\<rparr>"
  have n: "?n < length (l_entries l)" using assms(3) by (auto simp: in_log_def unat_sub_if' word_le_nat_alt)
  have l: "truncate_wal_and_index pf ?l = fold (rewrite_entry pf) [0..<length (l_entries ?l)] (?l\<lparr>raft_wal := fopen_wb pf, raft_idx := fopen_wb pf\<rparr>)"
    using assms(1) by (simp add: truncate_wal_and_index_def Let_def fopen_wb_def)
  have "l_entries (truncate_wal_and_index pf ?l) = take ?n (l_entries l)" "same_frame l (truncate_wal_and_index pf ?l)"
    using rewrite_plain [OF assms(1), of "?l\<lparr>raft_wal := fopen_wb pf, raft_idx := fopen_wb pf\<rparr>" "[0..<length (l_entries ?l)]"] assms(1)
    unfolding l by (simp_all add: same_frame_def fopen_wb_def)
  moreover have "truncate_from pf i l = Inr (True, truncate_wal_and_index pf ?l)"
    using assms(2,3) n by (auto simp: truncate_from_def relock_def in_log_def Let_def word_less_nat_alt word_le_nat_alt)
  ultimately show ?thesis by (rule that [rotated 1])
qed

text \<open>Lookups after an append and after a cut, by index.\<close>

lemma log_get_nat:
  "log_get i l = (if unat (base_index l) \<le> unat i \<and> unat i < unat (base_index l) + length (l_entries l)
     then Some (l_entries l ! (unat i - unat (base_index l))) else None)"
  by (auto simp: log_get_def in_log_def word_le_nat_alt unat_sub_if')

lemma log_get_append:
  assumes "l_entries l' = l_entries l @ [e]" "same_frame l l'"
  shows "log_get i l' = (if unat i = unat (base_index l) + length (l_entries l) then Some e else log_get i l)"
  using assms by (auto simp: log_get_nat same_frame_def nth_append)

lemma log_get_cut:
  assumes "l_entries l' = take (unat (j - base_index l)) (l_entries l)" "same_frame l l'" "in_log j l"
  shows "log_get i l' = (if unat i < unat j then log_get i l else None)"
proof -
  have "unat (j - base_index l) = unat j - unat (base_index l)" "unat (base_index l) \<le> unat j" "unat j < unat (base_index l) + length (l_entries l)"
    using assms(3) by (auto simp: in_log_def word_le_nat_alt unat_sub_if')
  then show ?thesis using assms by (auto simp: log_get_nat same_frame_def)
qed

section \<open>The log of a follower after an append\<close>

text \<open>
  The entries of a message have consecutive indexes, and after the previous one was found in the
  log they start at most one past its end.
\<close>

definition consecutive :: "nat \<Rightarrow> log_entry list \<Rightarrow> bool" where
  "consecutive s es \<longleftrightarrow> map (unat \<circ> le_index) es = [s..<s + length es]"

lemma consecutive_Cons: "consecutive s (e # es) \<longleftrightarrow> unat (le_index e) = s \<and> consecutive (Suc s) es"
proof -
  have "[s..<s + length (e # es)] = s # [Suc s..<Suc s + length es]" by (simp add: upt_rec)
  then show ?thesis by (simp add: consecutive_def)
qed

definition reachable_from :: "nat \<Rightarrow> nat \<Rightarrow> raft_log \<Rightarrow> bool" where
  "reachable_from s m l \<longleftrightarrow> raft_wal l \<noteq> None \<and> unat (base_index l) \<le> s \<and> s \<le> unat (base_index l) + length (l_entries l) \<and>
     unat (base_index l) + length (l_entries l) < 2 ^ 32 \<and> s + m < 2 ^ 32 \<and>
     (m = 0 \<or> s + m \<le> unat (base_index l) + unat (log_size_threshold (log_config l)))"

text \<open>What the log holds afterwards: the message's entries or older ones with the same terms, and nothing else is new.\<close>

definition merged :: "nat \<Rightarrow> log_entry list \<Rightarrow> raft_log \<Rightarrow> raft_log \<Rightarrow> bool" where
  "merged s es l l' \<longleftrightarrow> (\<forall>i. unat i < s \<longrightarrow> log_get i l' = log_get i l) \<and>
     (\<forall>e \<in> set es. \<exists>e'. log_get (le_index e) l' = Some e' \<and> le_term e' = le_term e \<and> (e' = e \<or> log_get (le_index e) l = Some e')) \<and>
     (\<forall>i. s + length es \<le> unat i \<longrightarrow> log_get i l' = log_get i l \<or> log_get i l' = None)"

lemma merged_skip:
  assumes "merged (Suc s) es l l'" "unat (le_index e) = s" "log_get (le_index e) l = Some x" "le_term x = le_term e"
  shows "merged s (e # es) l l'"
  using assms by (auto simp: merged_def)

lemma merged_put:
  assumes "merged (Suc s) es l2 l'" "consecutive (Suc s) es" "unat (le_index e) = s"
    and "\<And>i. log_get i l2 = (if unat i = s then Some e else if unat i < s then log_get i l else None)"
  shows "merged s (e # es) l l'"
proof -
  have gt: "s < unat (le_index x)" if "x \<in> set es" for x
  proof -
    have "unat (le_index x) \<in> set (map (unat \<circ> le_index) es)" using that by simp
    then show ?thesis using assms(2) unfolding consecutive_def by (metis Suc_le_eq atLeastLessThan_iff set_upt)
  qed
  have m: "\<And>i. unat i < Suc s \<Longrightarrow> log_get i l' = log_get i l2"
    "\<And>x. x \<in> set es \<Longrightarrow> \<exists>e'. log_get (le_index x) l' = Some e' \<and> le_term e' = le_term x \<and> (e' = x \<or> log_get (le_index x) l2 = Some e')"
    "\<And>i. Suc s + length es \<le> unat i \<Longrightarrow> log_get i l' = log_get i l2 \<or> log_get i l' = None"
    using assms(1) by (auto simp: merged_def)
  have old: "log_get i l' = log_get i l" if "unat i < s" for i using m(1) [of i] assms(4) [of i] that by simp
  have new: "log_get (le_index e) l' = Some e" using m(1) [of "le_index e"] assms(3,4) by simp
  have msg: "log_get (le_index x) l' = Some x" if "x \<in> set es" for x
    using m(2) [OF that] assms(4) [of "le_index x"] gt [OF that] by auto
  have rest: "log_get i l' = None" if "Suc s + length es \<le> unat i" for i using m(3) [OF that] assms(4) [of i] that by auto
  show ?thesis unfolding merged_def using old new msg rest by simp
qed

lemma append_each_merges:
  assumes "disk_ok pf" "relock_ok pf"
  shows "consecutive s es \<Longrightarrow> reachable_from s (length es) l \<Longrightarrow>
    \<exists>stored' l'. append_each pf es stored l = Inr (stored', l') \<and> same_frame l l' \<and> merged s es l l' \<and>
      unat (base_index l') + length (l_entries l') < 2 ^ 32"
proof (induction es arbitrary: s l stored)
  case Nil
  then show ?case by (auto simp: merged_def same_frame_def reachable_from_def)
next
  case (Cons e es)
  have s: "unat (le_index e) = s" and c: "consecutive (Suc s) es" using Cons.prems(1) by (simp_all add: consecutive_Cons)
  note r = Cons.prems(2) [unfolded reachable_from_def]
  have put: "\<exists>stored' l'. rbind (log_append pf e l1) (\<lambda>(ok, _, l2). append_each pf es (if ok then stored + 1 else stored) l2) = Inr (stored', l') \<and>
      same_frame l l' \<and> merged s (e # es) l l' \<and> unat (base_index l') + length (l_entries l') < 2 ^ 32"
    if l1: "same_frame l l1" "unat (base_index l) + length (l_entries l1) = s" "\<And>i. log_get i l1 = (if unat i < s then log_get i l else None)" for l1
  proof -
    have ix: "base_index l1 + word_of_nat (length (l_entries l1)) = le_index e"
      using l1 s r by (simp add: same_frame_def word_unat_eq_iff unat_word_ariths unat_of_nat)
    have "raft_wal l1 \<noteq> None" "length (l_entries l1) < unat (log_size_threshold (log_config l1))"
      using l1(1,2) r by (auto simp: same_frame_def)
    from log_append_plain [OF assms(1) this, of e, unfolded ix] obtain l2 where
      a: "log_append pf e l1 = Inr (True, e, l2)" "l_entries l2 = l_entries l1 @ [e]" "same_frame l1 l2" by auto
    have g: "log_get i l2 = (if unat i = s then Some e else if unat i < s then log_get i l else None)" for i
      using log_get_append [OF a(2,3)] l1 by (auto simp: same_frame_def)
    have "reachable_from (Suc s) (length es) l2" using a l1 r by (auto simp: reachable_from_def same_frame_def)
    from Cons.IH [OF c this, of "stored + 1"] obtain stored' l' where
      i: "append_each pf es (stored + 1) l2 = Inr (stored', l')" "same_frame l2 l'" "merged (Suc s) es l2 l'"
        "unat (base_index l') + length (l_entries l') < 2 ^ 32" by auto
    have "same_frame l l'" using i(2) a(3) l1(1) by (simp add: same_frame_def)
    then show ?thesis using a(1) i merged_put [OF i(3) c s g] by auto
  qed
  show ?case
  proof (cases "log_get (le_index e) l")
    case None
    then have "unat (base_index l) + length (l_entries l) = s" using r s by (auto simp: log_get_nat split: if_splits)
    moreover have "log_get i l = (if unat i < s then log_get i l else None)" for i using calculation by (simp add: log_get_nat)
    moreover have "same_frame l l" using r by (simp add: same_frame_def)
    ultimately show ?thesis using put [of l] None by auto
  next
    case (Some x)
    then have il: "in_log (le_index e) l" by (simp add: log_get_def split: if_splits)
    show ?thesis
    proof (cases "le_term x = le_term e")
      case True
      have "reachable_from (Suc s) (length es) l" using r il s by (auto simp: reachable_from_def in_log_def)
      from Cons.IH [OF c this, of stored] show ?thesis using Some True merged_skip [OF _ s Some True] by auto
    next
      case False
      obtain l1 where t: "truncate_from pf (le_index e) l = Inr (True, l1)"
        "l_entries l1 = take (unat (le_index e - base_index l)) (l_entries l)" "same_frame l l1"
        by (rule truncate_from_plain [OF assms il])
      have "unat (le_index e - base_index l) = s - unat (base_index l)" using s r by (simp add: unat_sub_if')
      then have "unat (base_index l) + length (l_entries l1) = s" using t(2) r by auto
      from put [OF t(3) this] log_get_cut [OF t(2,3) il] s show ?thesis using Some False t(1) by auto
    qed
  qed
qed


section \<open>Leader and follower together\<close>

lemma numbered_part:
  assumes "numbered l" "unat (base_index l) + length (l_entries l) < 2 ^ 32" "k \<le> length (l_entries l)"
  shows "consecutive (unat (base_index l) + k) (take m (drop k (l_entries l)))"
    and "e \<in> set (take m (drop k (l_entries l))) \<Longrightarrow> log_get (le_index e) l = Some e"
proof -
  have ix: "unat (le_index (l_entries l ! j)) = unat (base_index l) + j" if "j < length (l_entries l)" for j
    using entry_index [OF assms(1) _ that] assms(2) by simp
  show "consecutive (unat (base_index l) + k) (take m (drop k (l_entries l)))"
    unfolding consecutive_def using ix assms(3) by (intro nth_equalityI) auto
  assume "e \<in> set (take m (drop k (l_entries l)))"
  then obtain j where "j < length (l_entries l)" "e = l_entries l ! j"
    by (metis in_set_conv_nth in_set_dropD in_set_takeD)
  then show "log_get (le_index e) l = Some e" using ix by (simp add: log_get_nat)
qed

lemma consecutive_sorted: "consecutive s es \<Longrightarrow> entries_sorted es"
proof (induction es arbitrary: s)
  case (Cons e es)
  have "s < unat (le_index x)" if "x \<in> set es" for x
  proof -
    have "unat (le_index x) \<in> set (map (unat \<circ> le_index) es)" using that by simp
    then show ?thesis using Cons.prems unfolding consecutive_Cons unfolding consecutive_def by (metis Suc_le_eq atLeastLessThan_iff set_upt)
  qed
  then show ?case using Cons by (auto simp: entries_sorted_def consecutive_Cons log_entry_less_def word_less_nat_alt)
qed (simp add: entries_sorted_def)


lemma get_entries_max_plain:
  assumes "max_count < 2 ^ 31" "base_index l \<le> start"
  shows "get_entries_from_max start max_count l = take (unat max_count) (drop (unat (start - base_index l)) (l_entries l))"
proof -
  let ?a = "ucast (start - base_index l) :: u64"
  have m: "unat max_count < 2 ^ 31" using assms(1) by (simp add: word_less_nat_alt)
  then have "\<not> bit (unat max_count) 31" by (simp add: bit_iff_odd)
  then have "\<not> bit max_count 31" by (simp add: bit_unsigned_iff)
  then have b31: "\<not> bit max_count k" if "31 \<le> k" for k
    using that bit_imp_le_length [of max_count k] by (cases "k = 31") auto
  then have s: "(scast max_count :: u64) = ucast max_count"
    using b31 by (intro bit_word_eqI) (auto simp: bit_simps min_def)
  have big: "unat w < 2 ^ 64" for w :: u32 using unsigned_less [of w, where ?'a = nat] by simp
  have a: "unat ?a = unat (start - base_index l)" "unat (ucast max_count :: u64) = unat max_count"
    using big by (simp_all add: unsigned_ucast_eq take_bit_nat_eq_self)
  have "unat (?a + scast max_count) = unat ?a + unat max_count"
    unfolding s using a m unsigned_less [of "start - base_index l", where ?'a = nat] by (simp add: unat_word_ariths)
  then show ?thesis using assms(2) a by (auto simp: get_entries_from_max_def Let_def)
qed

text \<open>The state of a leader that has a next index for the follower within its log or right behind it.\<close>

definition leads :: "socket \<Rightarrow> raft_node \<Rightarrow> bool" where
  "leads sock n \<longleftrightarrow> (let l = log_array n; nxt = unat (at0 sock (next_index n)) in
     numbered l \<and> 0 < unat (base_index l) \<and> unat (base_index l) + length (l_entries l) < 2 ^ 32 \<and>
     append_entries_max_batch (node_config n) < 2 ^ 31 \<and> unat (base_index l) \<le> nxt \<and> nxt \<le> unat (base_index l) + length (l_entries l))"

definition message_entries :: "raft_message \<Rightarrow> log_entry list" where
  "message_entries msg = (case append_entries_data msg of None \<Rightarrow> []
     | Some d \<Rightarrow> (case ae_entries d of None \<Rightarrow> [] | Some es \<Rightarrow> es))"

lemma last_index_nat:
  assumes "0 < unat (base_index l)" "unat (base_index l) + length (l_entries l) < 2 ^ 32" "l_entries l \<noteq> []"
  shows "unat (get_last_index l) = unat (base_index l) + length (l_entries l) - 1"
proof -
  have s: "unat (base_index l + word_of_nat (length (l_entries l))) = unat (base_index l) + length (l_entries l)"
    using assms(2) by (simp add: unat_word_ariths unat_of_nat)
  moreover have "1 \<le> base_index l + word_of_nat (length (l_entries l))"
    using s assms(1) by (simp add: word_le_nat_alt)
  ultimately show ?thesis using assms(3) by (simp add: get_last_index_def unat_sub)
qed

lemma leader_message:
  assumes "leads sock n"
  obtains d where "append_entries_data (append_entries_message sock n) = Some d"
    "unat (prev_log_index d) = unat (at0 sock (next_index n)) - 1" "prev_log_term d = get_term (prev_log_index d) (log_array n)"
    "m_term (append_entries_message sock n) = pterm n" "leader_commit d = pcommit n"
    "consecutive (unat (at0 sock (next_index n))) (message_entries (append_entries_message sock n))"
    "\<And>e. e \<in> set (message_entries (append_entries_message sock n)) \<Longrightarrow> log_get (le_index e) (log_array n) = Some e"
proof -
  let ?l = "log_array n" and ?next = "at0 sock (next_index n)" and ?m = "append_entries_message sock n"
  note ok = assms [unfolded leads_def Let_def]
  have pos: "0 < ?next" using ok by (simp add: word_less_nat_alt)
  then have prev: "unat (?next - 1) = unat ?next - 1" by (simp add: unat_minus_one)
  let ?es = "get_entries_from_max ?next (append_entries_max_batch (node_config n)) ?l"
  let ?k = "unat (?next - base_index ?l)"
  have k: "?k = unat ?next - unat (base_index ?l)" using ok by (simp add: unat_sub_if')
  have es: "?es = take (unat (append_entries_max_batch (node_config n))) (drop ?k (l_entries ?l))"
    using get_entries_max_plain ok by (simp add: word_le_nat_alt)
  have "?k \<le> length (l_entries ?l)" using k ok by linarith
  then have c: "consecutive (unat ?next) ?es" "\<And>e. e \<in> set ?es \<Longrightarrow> log_get (le_index e) ?l = Some e"
    using numbered_part [of ?l ?k] ok k unfolding es by auto
  have set: "entry_set ?es = ?es" using entry_set_sorted consecutive_sorted c(1) by blast
  have "consecutive (unat ?next) []" by (simp add: consecutive_def)
  then show ?thesis
    using that [of "the (append_entries_data ?m)"] prev pos c set
    by (cases "?next \<le> get_last_index ?l")
      (simp_all add: append_entries_message_def Let_def append_entries_with_data_def append_entries_def make_append_entries_data_def
        raft_message_new_def message_entries_def)
qed

lemma apply_committed_log:
  "apply_committed_entries env n = Inr n' \<Longrightarrow> log_array n' = log_array n"
  by (auto simp: apply_committed_entries_def rbind_eq_Inr_iff dest!: apply_loop_same split: if_split_asm)

lemma answer_append_ok: "answer_append env ok i t saved applying n = Inr (ok', n') \<Longrightarrow> ok' = ok"
  by (auto simp: answer_append_def Let_def rbind_eq_Inr_iff)

lemma handle_append_log:
  assumes "handle_append_entries env msg n = Inr (True, n')" "append_entries_data msg = Some d"
  obtains stored where "prev_matches d (log_array n)"
    "append_each (node_platform env) (message_entries msg) 0 (log_array n) = Inr (stored, log_array n')" "pterm n \<le> m_term msg"
proof -
  have t: "\<not> m_term msg < pterm n" using assms(1) by (auto simp: handle_append_entries_def Let_def rbind_eq_Inr_iff split: if_split_asm)
  from assms(1) obtain saved applying n3 where a: "accept_entries env msg (pterm n < m_term msg) (follow env msg n) = Inr (True, saved, applying, n3)"
    and r: "answer_append env True (get_last_index (log_array n3)) (m_term msg) saved applying n3 = Inr (True, n')"
    by (auto simp: handle_append_entries_accept [OF t] rbind_eq_Inr_iff) (frule answer_append_ok, simp)
  have f: "log_array (follow env msg n) = log_array n" by (simp add: follow_def reset_election_timeout_def to_follower_def upd_defs)
  have n': "log_array n' = log_array n3"
    using r by (auto simp: answer_append_def Let_def rbind_eq_Inr_iff dest!: apply_committed_log split: if_split_asm)
  show ?thesis
    using a assms(2) f leI [OF t] n' that
    by (auto simp: accept_entries_def message_entries_def Let_def rbind_eq_Inr_iff upd_defs split: if_split_asm option.splits)
qed


text \<open>Log Matching: two logs with the same term at an index agree from there down.\<close>

definition log_matching :: "raft_log \<Rightarrow> raft_log \<Rightarrow> bool" where
  "log_matching l l' \<longleftrightarrow> (\<forall>i j e e'. log_get i l = Some e \<longrightarrow> log_get i l' = Some e' \<longrightarrow> le_term e = le_term e' \<longrightarrow>
     j \<le> i \<longrightarrow> in_log j l \<longrightarrow> in_log j l' \<longrightarrow> log_get j l = log_get j l')"

lemma in_log_get: "in_log i l \<longleftrightarrow> log_get i l \<noteq> None"
  by (simp add: log_get_def)

lemma consecutive_mem:
  assumes "consecutive s es" "s \<le> unat i" "unat i < s + length es"
  obtains e where "e \<in> set es" "le_index e = i"
proof -
  have "unat i \<in> set (map (unat \<circ> le_index) es)" using assms unfolding consecutive_def by simp
  then show ?thesis using that by (auto simp: word_unat_eq_iff)
qed

lemma merged_agrees:
  assumes m: "merged s es l l'" and c: "consecutive s es" and L: "\<And>e. e \<in> set es \<Longrightarrow> log_get (le_index e) L = Some e"
    and lm: "log_matching l L" and old: "\<And>i. unat i < s \<Longrightarrow> in_log i l \<Longrightarrow> in_log i L \<Longrightarrow> log_get i l = log_get i L"
    and i: "unat i < s + length es" "in_log i l'" "in_log i L"
  shows "log_get i l' = log_get i L"
proof (cases "unat i < s")
  case True
  then have "log_get i l' = log_get i l" using m by (simp add: merged_def)
  then show ?thesis using old [OF True] i by (simp add: in_log_get)
next
  case False
  then obtain e where e: "e \<in> set es" "le_index e = i" using consecutive_mem [OF c] i(1) by (metis not_less)
  then obtain e' where g: "log_get i l' = Some e'" "le_term e' = le_term e" "e' = e \<or> log_get i l = Some e'"
    using m unfolding merged_def by blast
  have "log_get i L = Some e" using L e by blast
  then show ?thesis using g lm unfolding log_matching_def in_log_get by (metis option.distinct(1) order_refl)
qed

lemma merged_matching:
  assumes m: "merged s es l l'" and lm: "log_matching l L"
    and ag: "\<And>i. unat i < s + length es \<Longrightarrow> in_log i l' \<Longrightarrow> in_log i L \<Longrightarrow> log_get i l' = log_get i L"
  shows "log_matching l' L"
  unfolding log_matching_def
proof (intro allI impI)
  fix i j e e'
  assume g: "log_get i l' = Some e" "log_get i L = Some e'" "le_term e = le_term e'" "j \<le> i" "in_log j l'" "in_log j L"
  show "log_get j l' = log_get j L"
  proof (cases "unat j < s + length es")
    case False
    then have far: "s + length es \<le> unat j" "s + length es \<le> unat i" using g(4) by (simp_all add: word_le_nat_alt)
    then have "log_get j l' = log_get j l" "log_get i l' = log_get i l" using m g by (auto simp: merged_def in_log_get)
    then show ?thesis using lm g unfolding log_matching_def in_log_get by metis
  qed (use ag g in simp)
qed

lemma message_within:
  assumes "leads sock n"
  shows "unat (at0 sock (next_index n)) + length (message_entries (append_entries_message sock n))
    \<le> unat (base_index (log_array n)) + length (l_entries (log_array n))"
proof -
  let ?es = "message_entries (append_entries_message sock n)" and ?s = "unat (at0 sock (next_index n))"
  obtain d where d: "consecutive ?s ?es" "\<And>e. e \<in> set ?es \<Longrightarrow> log_get (le_index e) (log_array n) = Some e"
    using leader_message [OF assms] by metis
  show ?thesis
  proof (cases "?es = []")
    case True
    then show ?thesis using assms by (simp add: leads_def Let_def)
  next
    case False
    then obtain k where k: "length ?es = Suc k" by (cases ?es) auto
    then have "map (unat \<circ> le_index) ?es ! k = ?s + k" using d(1) unfolding consecutive_def by (simp add: nth_append)
    then have "unat (le_index (?es ! k)) = ?s + k" using k by simp
    moreover have "log_get (le_index (?es ! k)) (log_array n) = Some (?es ! k)" using d(2) k by simp
    ultimately show ?thesis using k by (auto simp: log_get_nat split: if_split_asm)
  qed
qed

lemma prev_reachable:
  assumes "prev_matches d l" "unat (prev_log_index d) = s - 1" "0 < s" "0 < unat (base_index l)"
  shows "s \<le> unat (base_index l) + length (l_entries l)"
  using assms by (auto simp: prev_matches_def log_get_nat word_less_nat_alt split: if_split_asm)

lemma prev_agrees:
  assumes "prev_matches d l" "unat (prev_log_index d) = unat (at0 sock (next_index n)) - 1" "prev_log_term d = get_term (prev_log_index d) (log_array n)"
    and "leads sock n" "log_matching l (log_array n)"
    and "unat i < unat (at0 sock (next_index n))" "in_log i l" "in_log i (log_array n)"
  shows "log_get i l = log_get i (log_array n)"
proof -
  let ?p = "prev_log_index d" and ?L = "log_array n"
  note ok = assms(4) [unfolded leads_def Let_def]
  have i: "i \<le> ?p" using assms(2,6) by (simp add: word_le_nat_alt)
  then have "in_log ?p ?L" using ok assms(2,8) by (auto simp: in_log_def word_le_nat_alt)
  moreover have "0 < ?p" using i assms(8) ok by (auto simp: in_log_def word_le_nat_alt word_less_nat_alt)
  ultimately obtain e where "log_get ?p l = Some e" "log_get ?p ?L = Some (l_entries ?L ! unat (?p - base_index ?L))"
      "le_term e = le_term (l_entries ?L ! unat (?p - base_index ?L))"
    using assms(1,3) by (auto simp: prev_matches_def get_term_def log_get_def split: option.splits if_split_asm)
  then show ?thesis using assms(5,7,8) i unfolding log_matching_def by blast
qed



section \<open>Commitment by a majority\<close>

text \<open>Sets of servers any two of which share a server: what holds on all of one is seen by every other.\<close>

locale quorums =
  fixes members :: "'a set" and quorum :: "'a set \<Rightarrow> bool"
  assumes overlap: "quorum Q \<Longrightarrow> quorum R \<Longrightarrow> Q \<inter> R \<noteq> {}"
    and inside: "quorum Q \<Longrightarrow> Q \<subseteq> members"
begin

lemma seen_by_every: "quorum Q \<Longrightarrow> quorum R \<Longrightarrow> (\<And>s. s \<in> Q \<Longrightarrow> P s) \<Longrightarrow> \<exists>s \<in> R. s \<in> members \<and> P s"
  using overlap inside by blast

end

datatype server = Self | Peer socket

definition servers :: "raft_node \<Rightarrow> server set" where
  "servers n = insert Self (Peer ` fst ` set (match_index n))"

definition is_quorum :: "raft_node \<Rightarrow> server set \<Rightarrow> bool" where
  "is_quorum n Q \<longleftrightarrow> Q \<subseteq> servers n \<and> card (servers n) < 2 * card Q"

text \<open>The servers the leader believes to hold the entry with an index.\<close>

definition reaches :: "raft_node \<Rightarrow> u32 \<Rightarrow> server \<Rightarrow> bool" where
  "reaches n i s \<longleftrightarrow> (case s of Self \<Rightarrow> i \<le> get_last_index (log_array n) | Peer k \<Rightarrow> i \<le> at0 k (match_index n))"

definition holders :: "raft_node \<Rightarrow> u32 \<Rightarrow> server set" where
  "holders n i = {s \<in> servers n. reaches n i s}"

lemma finite_servers: "finite (servers n)"
  by (simp add: servers_def)

interpretation cq: quorums "servers n" "is_quorum n" for n
proof
  show "Q \<inter> R \<noteq> {}" if q: "is_quorum n Q" "is_quorum n R" for Q R
  proof
    assume "Q \<inter> R = {}"
    moreover have "finite Q" "finite R" "Q \<union> R \<subseteq> servers n" using q finite_servers by (auto simp: is_quorum_def intro: finite_subset)
    ultimately have "card Q + card R \<le> card (servers n)" by (metis card_Un_disjoint card_mono finite_servers)
    then show False using q by (simp add: is_quorum_def)
  qed
  show "Q \<subseteq> servers n" if "is_quorum n Q" for Q using that by (simp add: is_quorum_def)
qed

lemma middle_of_sorted:
  fixes xs :: "'a::linorder list"
  assumes "xs \<noteq> []"
  shows "length xs < 2 * length (filter (\<lambda>x. rev (sort xs) ! (length xs div 2) \<le> x) xs)"
proof -
  let ?ys = "rev (sort xs)" and ?k = "length xs div 2"
  have "?k < length xs" using assms by (cases xs) auto
  then have "?ys ! ?k \<le> ?ys ! j" if "j \<le> ?k" for j
    using that by (auto simp: rev_nth intro!: sorted_nth_mono)
  then have "\<forall>x \<in> set (take (Suc ?k) ?ys). ?ys ! ?k \<le> x" by (auto simp: in_set_conv_nth)
  then have "length (take (Suc ?k) ?ys) \<le> length (filter (\<lambda>x. ?ys ! ?k \<le> x) ?ys)"
    by (metis append_take_drop_id filter_True filter_append length_append le_add1)
  moreover have "length (filter (\<lambda>x. ?ys ! ?k \<le> x) ?ys) = length (filter (\<lambda>x. ?ys ! ?k \<le> x) xs)"
    by (metis mset_filter mset_rev mset_sort size_mset)
  moreover have "length (take (Suc ?k) ?ys) = Suc ?k" using assms by (cases xs) (auto simp: min_def)
  ultimately show ?thesis by linarith
qed

lemma card_servers: "distinct (map fst (match_index n)) \<Longrightarrow> card (servers n) = Suc (length (match_index n))"
proof -
  assume "distinct (map fst (match_index n))"
  then have "card (fst ` set (match_index n)) = length (match_index n)" by (metis distinct_card length_map list.set_map)
  moreover have "card (Peer ` fst ` set (match_index n)) = card (fst ` set (match_index n))" by (intro card_image) (simp add: inj_on_def)
  ultimately show ?thesis by (auto simp: servers_def card_insert_if)
qed

lemma card_holders:
  assumes "distinct (map fst (match_index n))"
  shows "card (holders n i) = length (filter (\<lambda>m. i \<le> m) (get_last_index (log_array n) # map snd (match_index n)))"
proof -
  let ?m = "filter (\<lambda>(k, m). i \<le> m) (match_index n)"
  have at: "at0 k (match_index n) = x" if "(k, x) \<in> set (match_index n)" for k x
    using assms that by (simp add: at0_def)
  have "Peer k \<in> holders n i \<longleftrightarrow> k \<in> fst ` set ?m" for k
    using at by (force simp: holders_def servers_def reaches_def)
  moreover have "Self \<in> holders n i \<longleftrightarrow> i \<le> get_last_index (log_array n)" by (simp add: holders_def servers_def reaches_def)
  ultimately have "s \<in> holders n i \<longleftrightarrow> s \<in> {s. s = Self \<and> i \<le> get_last_index (log_array n)} \<union> Peer ` fst ` set ?m" for s
    by (cases s) auto
  then have "holders n i = {s. s = Self \<and> i \<le> get_last_index (log_array n)} \<union> Peer ` fst ` set ?m" by blast
  moreover have "card (Peer ` fst ` set ?m) = length ?m"
  proof -
    have "distinct (map fst ?m)" using assms by (simp add: distinct_map_filter)
    then have "card (fst ` set ?m) = length ?m" by (metis distinct_card length_map list.set_map)
    moreover have "card (Peer ` fst ` set ?m) = card (fst ` set ?m)" by (intro card_image) (simp add: inj_on_def)
    ultimately show ?thesis by simp
  qed
  moreover have "length ?m = length (filter (\<lambda>m. i \<le> m) (map snd (match_index n)))"
    by (induction "match_index n") (auto simp: filter_map comp_def intro!: arg_cong [where f = length] filter_cong)
  moreover have "{s. s = Self \<and> i \<le> get_last_index (log_array n)} = (if i \<le> get_last_index (log_array n) then {Self} else {})" by auto
  ultimately show ?thesis by (auto simp: card_insert_if)
qed

lemma try_commit_index:
  assumes "try_commit_entries env n = Inr n'" "pcommit n' \<noteq> pcommit n"
  shows "pcommit n' = majority_index n" "pcommit n < majority_index n" "get_term (majority_index n) (log_array n) = pterm n"
proof -
  have c: "pcommit m' = pcommit m" if "apply_committed_entries env m = Inr m'" for m m'
    using that by (auto simp: apply_committed_entries_def rbind_eq_Inr_iff dest!: apply_loop_same split: if_split_asm)
  have "pcommit n' = majority_index n \<and> pcommit n < majority_index n \<and> get_term (majority_index n) (log_array n) = pterm n"
    using assms by (auto simp: try_commit_entries_def Let_def upd_defs dest!: c split: if_split_asm)
  then show "pcommit n' = majority_index n" "pcommit n < majority_index n" "get_term (majority_index n) (log_array n) = pterm n" by auto
qed



section \<open>Applying in log order\<close>

text \<open>What applying means: the commands at the given indexes, one after the other, on the store.\<close>

fun replay_log :: "raft_env \<Rightarrow> raft_log \<Rightarrow> u32 list \<Rightarrow> storage \<Rightarrow> storage res" where
  "replay_log env l [] st = Inr st"
| "replay_log env l (i # is) st =
     (case log_get i l of
        None \<Rightarrow> replay_log env l is st
      | Some e \<Rightarrow> rbind (execute_command env (envs env (unat i)) (le_cmd e) st) (\<lambda>(_, st'). replay_log env l is st'))"

definition indexes_after :: "u32 \<Rightarrow> nat \<Rightarrow> u32 list" where
  "indexes_after a k = map (\<lambda>j. a + 1 + word_of_nat j) [0..<k]"

lemma indexes_after_Suc: "indexes_after a (Suc k) = (a + 1) # indexes_after (a + 1) k"
proof -
  have "[0..<Suc k] = 0 # map Suc [0..<k]" by (simp add: map_Suc_upt upt_conv_Cons)
  then show ?thesis by (simp add: indexes_after_def comp_def add_ac del: upt_Suc)
qed

lemma replay_log_cong:
  "(\<And>i. i \<in> set is \<Longrightarrow> log_get i l = log_get i l') \<Longrightarrow> replay_log env l is st = replay_log env l' is st"
proof (induction "is" arbitrary: st)
  case (Cons i "is")
  have i: "log_get i l = log_get i l'" using Cons.prems by simp
  have "replay_log env l is = replay_log env l' is" using Cons by (simp add: fun_eq_iff)
  then show ?case unfolding replay_log.simps i by presburger
qed simp

lemma apply_entry_store:
  assumes "apply_entry env i n = Inr (r, n')"
  shows "replay_log env (log_array n) [i] (node_store n) = Inr (node_store n')"
proof (cases "log_get i (log_array n)")
  case None
  then show ?thesis using assms by (simp add: apply_entry_def)
next
  case (Some e)
  then obtain r' st' where x: "execute_command env (envs env (unat i)) (le_cmd e) (node_store n) = Inr (r', st')"
    using assms by (cases "execute_command env (envs env (unat i)) (le_cmd e) (node_store n)") (auto simp: apply_entry_def)
  then have "node_store n' = st'"
    using assms Some by (cases "le_request_id e = ''''") (auto simp: apply_entry_def Let_def rbind_eq_Inr_iff)
  then show ?thesis using x Some by simp
qed

lemma replay_log_Cons: "replay_log env l (i # is) st = rbind (replay_log env l [i] st) (replay_log env l is)"
  by (cases "log_get i l") (auto simp: rbind_def split: sum.splits)

lemma apply_loop_store:
  "apply_loop env k n = Inr n' \<Longrightarrow> replay_log env (log_array n) (indexes_after (papplied n) k) (node_store n) = Inr (node_store n')"
proof (induction k arbitrary: n)
  case 0
  then show ?case by (simp add: indexes_after_def)
next
  case (Suc k)
  let ?i = "papplied n + 1"
  from Suc.prems obtain r n2 where a: "apply_entry env ?i (set_applied ?i n) = Inr (r, n2)"
    and l: "apply_loop env k (if role n2 = Leader then notify_request_applied ?i r n2 else n2) = Inr n'"
    by (auto simp: Let_def rbind_eq_Inr_iff)
  have s: "replay_log env (log_array n) [?i] (node_store n) = Inr (node_store n2)"
    using apply_entry_store [OF a] by (simp add: upd_defs)
  have n2: "log_array n2 = log_array n" "papplied n2 = ?i" using apply_entry_same [OF a] by (auto simp: upd_defs)
  have "replay_log env (log_array n) (indexes_after ?i k) (node_store n2) = Inr (node_store n')"
    using Suc.IH [OF l] n2 by (auto simp: notify_request_applied_def split: if_split_asm)
  then show ?case using s unfolding indexes_after_Suc replay_log_Cons [of _ _ _ "indexes_after ?i k"] by simp
qed

lemma apply_committed_store:
  assumes "apply_committed_entries env n = Inr n'" "papplied n \<le> pcommit n"
  shows "papplied n' = pcommit n \<and>
    replay_log env (log_array n) (indexes_after (papplied n) (unat (pcommit n) - unat (papplied n))) (node_store n) = Inr (node_store n')"
proof (cases "pcommit n \<le> papplied n")
  case True
  then have "pcommit n = papplied n" "n' = n" using assms by (auto simp: apply_committed_entries_def)
  then show ?thesis by (simp add: indexes_after_def)
next
  case False
  let ?k = "unat (pcommit n) - unat (papplied n)"
  obtain n1 where l: "apply_loop env ?k n = Inr n1" and n': "n' = save_persistent_state n1"
    using assms(1) False by (auto simp: apply_committed_entries_def rbind_eq_Inr_iff)
  have "papplied n + word_of_nat ?k = pcommit n" using assms(2) by (simp add: word_le_nat_alt of_nat_diff)
  then show ?thesis using apply_loop_same [OF l] apply_loop_store [OF l] n' by simp
qed

lemma indexes_after_range:
  assumes "i \<in> set (indexes_after a (unat c - unat a))" "a \<le> c"
  shows "a < i \<and> i \<le> c"
proof -
  from assms(1) obtain j where j: "i = a + 1 + word_of_nat j" "j < unat c - unat a" by (auto simp: indexes_after_def)
  have "unat (word_of_nat (Suc j) :: u32) = Suc j"
    using j(2) unsigned_less [of c, where ?'a = nat] by (simp add: unat_of_nat del: of_nat_Suc)
  moreover have "i = a + word_of_nat (Suc j)" using j(1) by (simp add: add_ac)
  ultimately have "unat i = unat a + Suc j" using j(2) unsigned_less [of c, where ?'a = nat] by (simp add: unat_word_ariths del: of_nat_Suc)
  then show ?thesis using j(2) by (simp add: word_less_nat_alt word_le_nat_alt)
qed


section \<open>Elections end\<close>

lemma granted_vote:
  assumes "role n = Candidate" "m_term msg = pterm n" "request_vote_response_data msg = Some \<lparr>vote_granted = True\<rparr>"
  shows "role (handle_request_vote_response env msg n) = (if majority n \<le> Suc (granted_votes n) then Leader else Candidate)"
    and "persistent (handle_request_vote_response env msg n) = persistent n"
    and "\<not> majority n \<le> Suc (granted_votes n) \<Longrightarrow> granted_votes (handle_request_vote_response env msg n) = Suc (granted_votes n)"
  using assms
  by (simp_all add: handle_request_vote_response_def Let_def majority_def become_leader_def to_leader_def upd_defs)

lemma granted_votes_fold:
  "role n = Candidate \<Longrightarrow> granted_votes n < majority n \<Longrightarrow>
     role (fold (handle_request_vote_response env) (replicate k (request_vote_response (pterm n) True)) n)
       = (if majority n \<le> granted_votes n + k then Leader else Candidate)"
proof (induction k arbitrary: n)
  case (Suc k)
  let ?msg = "request_vote_response (pterm n) True" and ?n1 = "handle_request_vote_response env (request_vote_response (pterm n) True) n"
  have msg: "m_term ?msg = pterm n" "request_vote_response_data ?msg = Some \<lparr>vote_granted = True\<rparr>"
    by (simp_all add: request_vote_response_def raft_message_new_def)
  note g = granted_vote [OF Suc.prems(1) msg, of env]
  have led: "role (fold (handle_request_vote_response env) (replicate k ?msg) m) = Leader" if "role m = Leader" "pterm m = pterm n" for m
    using that msg by (induction k) (simp_all add: handle_request_vote_response_def)
  show ?case
  proof (cases "majority n \<le> Suc (granted_votes n)")
    case True
    then show ?thesis using led [of ?n1] g by simp
  next
    case False
    have "majority ?n1 = majority n" using g(2) by (simp add: majority_def)
    then show ?thesis using Suc.IH [of ?n1] g False by simp
  qed
qed simp

text \<open>
  C23: An election ends with a leader exactly when a majority grants its vote: a node whose timer
  fires and that gets \<open>k\<close> votes in the new term is leader if it and the voters are more than
  half of the cluster, and is still a candidate otherwise.
\<close>

theorem election_by_majority:
  assumes "timer_fires env n" "pnodes n \<noteq> []"
  shows "role (fold (handle_request_vote_response env) (replicate k (request_vote_response (pterm n + 1) True)) (election_round env n))
    = (if length (pnodes n) + 1 < 2 * (k + 1) then Leader else Candidate)"
proof -
  let ?n1 = "election_round env n"
  have n1: "role ?n1 = Candidate" "granted_votes ?n1 = 1" "pterm ?n1 = pterm n + 1" "pnodes ?n1 = pnodes n"
    using assms(1) by (auto simp: election_round_def timer_fires_def become_candidate_def Let_def send_request_vote_def to_candidate_def
        reset_election_timeout_def upd_defs split: prod.splits)
  have "granted_votes ?n1 < majority ?n1" using n1 assms(2) by (cases "pnodes n") (auto simp: majority_def)
  then show ?thesis using granted_votes_fold [OF n1(1), of env k] n1 by (auto simp: majority_def)
qed


section \<open>A leader finds where the logs agree\<close>

text \<open>
  One exchange between a leader and a follower: the message the leader has for the follower, the
  follower's answer, and the leader's reaction to it, with the next message in the leader's outbox.
\<close>

definition exchange :: "raft_env \<Rightarrow> raft_env \<Rightarrow> socket \<Rightarrow> raft_node \<Rightarrow> raft_node \<Rightarrow> (bool \<times> raft_node \<times> raft_node) res" where
  "exchange lenv fenv sock L F =
     rbind (handle_append_entries fenv (append_entries_message sock L) F) (\<lambda>(ok, F').
       if outbox F' = [] then Inl UB
       else rbind (handle_append_entries_response lenv (snd (last (outbox F'))) sock L) (\<lambda>L'. Inr (ok, L', F')))"

text \<open>A number of exchanges that the follower all refuses.\<close>

fun refused :: "raft_env \<Rightarrow> raft_env \<Rightarrow> socket \<Rightarrow> nat \<Rightarrow> raft_node \<Rightarrow> raft_node \<Rightarrow> (raft_node \<times> raft_node) option" where
  "refused lenv fenv sock 0 L F = Some (L, F)"
| "refused lenv fenv sock (Suc k) L F =
     (case exchange lenv fenv sock L F of Inr (False, L', F') \<Rightarrow> refused lenv fenv sock k L' F' | _ \<Rightarrow> None)"

definition follows :: "raft_node \<Rightarrow> raft_node \<Rightarrow> bool" where
  "follows L F \<longleftrightarrow> role L = Leader \<and> pterm F \<le> pterm L \<and> follower_client F \<noteq> None"

lemma at0_update [simp]: "at0 k (AList.update k v m) = v"
  by (simp add: at0_def update_conv')

lemma refused_exchange:
  assumes "append_entries_data (append_entries_message sock L) = Some d" "m_term (append_entries_message sock L) = pterm L"
    and "\<not> prev_matches d (log_array F)" "follows L F" "0 < at0 sock (next_index L)"
  obtains L' F' where "exchange lenv fenv sock L F = Inr (False, L', F')" "follows L' F'" "log_array L' = log_array L" "log_array F' = log_array F"
    "at0 sock (next_index L') = at0 sock (next_index L) - 1" "node_config L' = node_config L" "persistent L' = persistent L"
proof -
  let ?m = "append_entries_message sock L"
  have t: "\<not> m_term ?m < pterm F" using assms(2,4) by (simp add: follows_def not_less)
  let ?F2 = "follow fenv ?m F" and ?saved = "pterm F < m_term ?m"
  have f: "log_array ?F2 = log_array F" "follower_client ?F2 = follower_client F" "pterm ?F2 = pterm L"
    using t assms(2) by (auto simp: follow_def reset_election_timeout_def to_follower_def upd_defs not_less)
  have a: "accept_entries fenv ?m ?saved ?F2 = Inr (False, ?saved, False, ?F2)" using assms(1,3) f by (simp add: accept_entries_def)
  let ?F5 = "if ?saved then save_persistent_state ?F2 else ?F2"
  let ?r = "append_entries_response (m_term ?m) False (get_last_index (log_array F))"
  have h: "handle_append_entries fenv ?m F = Inr (False, send ToLeader ?r ?F5)"
    using a f assms(4) by (auto simp: handle_append_entries_accept [OF t] answer_append_def Let_def follows_def)
  let ?L1 = "L\<lparr>next_index := AList.update sock (at0 sock (next_index L) - 1) (next_index L)\<rparr>"
  have "handle_append_entries_response lenv ?r sock L = Inr (send_append_entries sock ?L1)"
    using assms(5) by (simp add: handle_append_entries_response_def append_entries_response_def raft_message_new_def Let_def)
  then have "exchange lenv fenv sock L F = Inr (False, send_append_entries sock ?L1, send ToLeader ?r ?F5)"
    using h by (simp add: exchange_def send_def)
  then show ?thesis
    by (rule that) (use f assms(4) in \<open>auto simp: follows_def send_append_entries_def touch0_def at0_update update_conv' split: option.splits\<close>)
qed

lemma accept_entries_stores:
  assumes "append_entries_data msg = Some d" "prev_matches d (log_array n)"
    and "append_each (node_platform env) (message_entries msg) 0 (log_array n) = Inr (stored, l')"
  shows "\<exists>saved' applying n'. accept_entries env msg saved n = Inr (True, saved', applying, n') \<and> log_array n' = l'"
  using assms
  by (cases "pcommit n < leader_commit d \<and> pcommit n < min (leader_commit d) (get_last_index l')")
    (auto simp: accept_entries_def message_entries_def Let_def upd_defs)

lemma prev_zero: "prev_log_index d = 0 \<Longrightarrow> prev_matches d l"
  by (simp add: prev_matches_def)



section \<open>Examples\<close>

definition good_platform :: platform where
  "good_platform = \<lparr>ab_at_end = True, disk_ok = True, relock_ok = True, log_info = False\<rparr>"

definition blank_entry :: "u32 \<Rightarrow> u32 \<Rightarrow> log_entry" where
  "blank_entry t i = make_log_entry t i '''' '''' 0 0"

definition open_log :: "log_entry list \<Rightarrow> raft_log" where
  "open_log es = (sample_log es)\<lparr>raft_wal := Some \<lparr>f_data = [], f_pos = 0, f_append = True\<rparr>\<rparr>"

definition good_env :: raft_env where
  "good_env = (sample_env 0)\<lparr>node_platform := good_platform\<rparr>"

definition sample_leader :: "log_entry list \<Rightarrow> (socket \<times> u32) list \<Rightarrow> (socket \<times> u32) list \<Rightarrow> raft_node" where
  "sample_leader es nx mx = set_term 2 (sample_node\<lparr>log_array := open_log es, next_index := nx, match_index := mx\<rparr>)"

definition sample_follower :: "log_entry list \<Rightarrow> raft_node" where
  "sample_follower es = set_term 1 (sample_node\<lparr>log_array := open_log es, role := Follower, follower_client := Some (sample_addr 5211)\<rparr>)"

lemmas sample_defs = sample_leader_def sample_follower_def sample_node_def sample_config_def raft_node_init_def persistent_state_new_def
  cluster_metadata_new_def upd_defs

lemma open_log_fields [simp]:
  "l_entries (open_log es) = es" "base_index (open_log es) = 1" "raft_wal (open_log es) \<noteq> None" "log_config (open_log es) = default_log_config"
  by (simp_all add: open_log_def sample_log_def)

lemma sample_leader_fields [simp]:
  "log_array (sample_leader es nx mx) = open_log es" "next_index (sample_leader es nx mx) = nx" "match_index (sample_leader es nx mx) = mx"
  "pterm (sample_leader es nx mx) = 2" "pcommit (sample_leader es nx mx) = 0" "role (sample_leader es nx mx) = Leader"
  "append_entries_max_batch (node_config (sample_leader es nx mx)) = 1000" "need_majority_confirm (node_config (sample_leader es nx mx))"
  by (simp_all add: sample_defs)

lemma sample_follower_fields [simp]:
  "log_array (sample_follower es) = open_log es" "pterm (sample_follower es) = 1" "pcommit (sample_follower es) = 0"
  "follower_client (sample_follower es) \<noteq> None"
  by (simp_all add: sample_defs)

lemma good_platform_fields [simp]: "node_platform good_env = good_platform" "disk_ok good_platform" "relock_ok good_platform"
  by (simp_all add: good_env_def good_platform_def)

lemma blank_entry_fields [simp]:
  "le_term (blank_entry t i) = t" "le_index (blank_entry t i) = i" "le_cmd (blank_entry t i) = ''''" "le_request_id (blank_entry t i) = ''''"
  by (simp_all add: blank_entry_def make_log_entry_def)

lemma sample_leads:
  "0 < k \<Longrightarrow> k \<le> 3 \<Longrightarrow> leads 7 (sample_leader [blank_entry 1 1, blank_entry 2 2] [(7, k)] mx)"
  by (simp add: leads_def Let_def at0_def numbered_def word_less_nat_alt word_le_nat_alt)

lemma sample_follows: "follows (sample_leader es nx mx) (sample_follower fs)"
  by (simp add: follows_def sample_follower_fields(4) [simplified])

text \<open>A log of blank commands is applied without touching the store.\<close>

definition blank_log :: "raft_log \<Rightarrow> bool" where
  "blank_log l \<longleftrightarrow> (\<forall>e \<in> set (l_entries l). le_cmd e = '''' \<and> le_request_id e = '''')"

lemma apply_blank:
  assumes "blank_log (log_array n)"
  shows "\<exists>r. apply_entry env i n = Inr (r, n)"
proof (cases "log_get i (log_array n)")
  case (Some e)
  have "e \<in> set (l_entries (log_array n))" using Some by (auto simp: log_get_nat split: if_split_asm)
  moreover have "split_by_spacer_view '''' = []" by (simp add: split_by_spacer_view_def split_by_spacer_view_loop.simps [of "''''" 0 0])
  ultimately show ?thesis using Some assms by (simp add: apply_entry_def blank_log_def execute_command_def Let_def)
qed (simp add: apply_entry_def)

lemma apply_loop_blank: "blank_log (log_array n) \<Longrightarrow> \<exists>n'. apply_loop env k n = Inr n'"
proof (induction k arbitrary: n)
  case (Suc k)
  let ?n1 = "set_applied (papplied n + 1) n"
  obtain r where "apply_entry env (papplied n + 1) ?n1 = Inr (r, ?n1)" using apply_blank [of ?n1] Suc.prems by (auto simp: upd_defs)
  moreover have "\<exists>n'. apply_loop env k (if role ?n1 = Leader then notify_request_applied (papplied n + 1) r ?n1 else ?n1) = Inr n'" for r
    using Suc.prems by (intro Suc.IH) (simp add: notify_request_applied_def upd_defs)
  ultimately show ?case by (simp add: Let_def)
qed simp

lemma apply_committed_blank: "blank_log (log_array n) \<Longrightarrow> \<exists>n'. apply_committed_entries env n = Inr n'"
  using apply_loop_blank [of n env "unat (pcommit n) - unat (papplied n)"] by (auto simp: apply_committed_entries_def)

lemma try_commit_blank:
  assumes "blank_log (log_array n)"
  shows "\<exists>n'. try_commit_entries env n = Inr n'"
proof -
  let ?n1 = "save_persistent_state (set_commit (majority_index n) n)"
  have "\<exists>n'. apply_committed_entries env ?n1 = Inr n'" "\<exists>n'. apply_committed_entries env n = Inr n'"
    using assms by (auto intro!: apply_committed_blank simp: upd_defs)
  then show ?thesis unfolding try_commit_entries_def Let_def by (auto split: if_split)
qed

lemma try_commit_moves:
  assumes "try_commit_entries env n = Inr n'" "pcommit n < get_last_index (log_array n)" "pcommit n < majority_index n"
    "get_term (majority_index n) (log_array n) = pterm n"
  shows "pcommit n' = majority_index n \<and> log_array n' = log_array n"
proof -
  have c: "pcommit m' = pcommit m \<and> log_array m' = log_array m" if "apply_committed_entries env m = Inr m'" for m m'
    using that by (auto simp: apply_committed_entries_def rbind_eq_Inr_iff dest!: apply_loop_same split: if_split_asm)
  have "apply_committed_entries env (save_persistent_state (set_commit (majority_index n) n)) = Inr n'"
    using assms by (simp add: try_commit_entries_def Let_def leD split: if_split_asm)
  from c [OF this] show ?thesis by (simp add: upd_defs)
qed

lemma handle_append_total:
  assumes "append_entries_data msg = Some d" "prev_matches d (log_array n)" "pterm n \<le> m_term msg" "leader_commit d \<le> pcommit n"
    and "append_each (node_platform env) (message_entries msg) 0 (log_array n) = Inr (stored, l')" "follower_client n \<noteq> None"
  obtains n' where "handle_append_entries env msg n = Inr (True, n')" "log_array n' = l'" "outbox n' \<noteq> []"
    "snd (last (outbox n')) = append_entries_response (m_term msg) True (get_last_index l')"
proof -
  let ?f = "follow env msg n"
  have f: "log_array ?f = log_array n" "pcommit ?f = pcommit n" "follower_client ?f = follower_client n"
    by (simp_all add: follow_def reset_election_timeout_def to_follower_def upd_defs)
  have "accept_entries env msg (pterm n < m_term msg) ?f = Inr (True, pterm n < m_term msg \<or> 0 < stored, False, ?f\<lparr>log_array := l'\<rparr>)"
    using assms(1,2,4,5) f by (auto simp: accept_entries_def message_entries_def Let_def not_less)
  moreover have "\<not> m_term msg < pterm n" using assms(3) by simp
  ultimately show ?thesis
    using assms(6) f that
    by (auto simp: handle_append_entries_accept answer_append_def Let_def send_def)
qed

lemma sample_append:
  obtains F' where "handle_append_entries good_env (append_entries_message 7 (sample_leader [blank_entry 1 1, blank_entry 2 2] [(7, 2)] []))
      (sample_follower [blank_entry 1 1, blank_entry 1 2, blank_entry 1 3]) = Inr (True, F')"
proof -
  let ?L = "sample_leader [blank_entry 1 1, blank_entry 2 2] [(7, 2)] []" and ?F = "sample_follower [blank_entry 1 1, blank_entry 1 2, blank_entry 1 3]"
  let ?m = "append_entries_message 7 ?L"
  have lead: "leads 7 ?L" by (rule sample_leads) simp_all
  have next2: "at0 7 (next_index ?L) = 2" by (simp add: at0_def)
  obtain d where d: "append_entries_data ?m = Some d" "unat (prev_log_index d) = 1" "prev_log_term d = get_term (prev_log_index d) (log_array ?L)"
    "m_term ?m = 2" "leader_commit d = 0" "consecutive 2 (message_entries ?m)"
    by (rule leader_message [OF lead]) (use next2 in simp)
  have p: "prev_log_index d = 1" using d(2) by (simp add: word_unat_eq_iff)
  have pm: "prev_matches d (log_array ?F)" using d(3) p by (simp add: prev_matches_def log_get_def in_log_def get_term_def)
  have "reachable_from 2 (length (message_entries ?m)) (log_array ?F)"
    using message_within [OF lead] next2 open_log_fields(3) by (simp add: reachable_from_def default_log_config_def)
  from append_each_merges [OF good_platform_fields(2,3) d(6) this, of 0] obtain stored l' where
    a: "append_each (node_platform good_env) (message_entries ?m) 0 (log_array ?F) = Inr (stored, l')" by auto
  have "pterm ?F \<le> m_term ?m" "leader_commit d \<le> pcommit ?F" using d by simp_all
  from handle_append_total [OF d(1) pm this a sample_follower_fields(4)] show ?thesis using that by metis
qed

lemma sample_matching: "log_matching (open_log [blank_entry 1 1, blank_entry 1 2, blank_entry 1 3]) (open_log [blank_entry 1 1, blank_entry 2 2])"
  (is "log_matching ?F ?L")
  unfolding log_matching_def
proof (intro allI impI)
  fix i j e e'
  assume g: "log_get i ?F = Some e" "log_get i ?L = Some e'" "le_term e = le_term e'" "j \<le> i" "in_log j ?F" "in_log j ?L"
  have "unat i = 1 \<or> unat i = 2" using g(2) by (auto simp: log_get_nat split: if_split_asm)
  then have "unat i = 1" using g(1-3) by (auto simp: log_get_nat)
  moreover have "1 \<le> unat j" using g(5) by (simp add: in_log_def word_le_nat_alt)
  ultimately have "unat j = 1" using g(4) by (simp add: word_le_nat_alt)
  then show "log_get j ?F = log_get j ?L" by (simp add: log_get_nat)
qed


lemma get_last_open: "es \<noteq> [] \<Longrightarrow> get_last_index (open_log es) = word_of_nat (length es)"
  by (simp add: get_last_index_def)

lemma successful_answer:
  assumes "need_majority_confirm (node_config n)"
  shows "handle_append_entries_response env (append_entries_response t True i) sock n =
    (let m = max (at0 sock (match_index n)) i;
         n1 = n\<lparr>match_index := AList.update sock m (match_index n), next_index := AList.update sock (m + 1) (next_index n)\<rparr>
     in rbind (try_commit_entries env n1) (\<lambda>n2. Inr (if m + 1 \<le> get_last_index (log_array n) then send_append_entries sock n2 else n2)))"
  using assms by (simp add: handle_append_entries_response_def append_entries_response_def raft_message_new_def Let_def)

text \<open>
  C38: A leader can commit an entry that only it has. A follower answers a heartbeat with the last
  index of its own log, entries of an older term included, and the leader takes that as the match
  index. Here the follower of a leader in term 2 has three entries of term 1 where the leader has
  one; it accepts a heartbeat, the leader appends its second entry, and the answer of another
  follower that has one entry commits index 2, where the first follower still has its old entry.
\<close>

theorem heartbeat_overstates_match:
  "\<exists>L F L1 F1 e2 l2 L3. exchange good_env good_env 7 L F = Inr (True, L1, F1) \<and>
     log_append good_platform (blank_entry 2 0) (log_array L1) = Inr (True, e2, l2) \<and>
     handle_append_entries_response good_env (append_entries_response 2 True 1) 8 (L1\<lparr>log_array := l2\<rparr>) = Inr L3 \<and>
     pcommit L3 = 2 \<and> log_get 2 (log_array L3) = Some (blank_entry 2 2) \<and> log_get 2 (log_array F1) = Some (blank_entry 1 2)"
proof -
  let ?L = "sample_leader [blank_entry 1 1] [(7, 2), (8, 2)] [(7, 0), (8, 0)]" and ?F = "sample_follower [blank_entry 1 1, blank_entry 1 2, blank_entry 1 3]"
  let ?m = "append_entries_message 7 ?L"
  have m: "?m = append_entries 2 1 1 0"
    by (simp add: append_entries_message_def at0_def get_last_open get_term_def in_log_def word_le_nat_alt)
  have pm: "prev_matches (make_append_entries_data 1 1 0) (log_array ?F)"
    by (simp add: make_append_entries_data_def prev_matches_def log_get_nat)
  have d: "append_entries_data ?m = Some (make_append_entries_data 1 1 0)" "m_term ?m = 2" "message_entries ?m = []"
    by (simp_all add: m append_entries_def raft_message_new_def message_entries_def make_append_entries_data_def)
  have a: "append_each (node_platform good_env) (message_entries ?m) 0 (log_array ?F) = Inr (0, log_array ?F)" by (simp add: d(3))
  have le: "pterm ?F \<le> m_term ?m" "leader_commit (make_append_entries_data 1 1 0) \<le> pcommit ?F"
    by (simp_all add: d(2) make_append_entries_data_def)
  have "get_last_index (log_array ?F) = 3" by (simp add: get_last_open)
  then obtain F1 where F1: "handle_append_entries good_env ?m ?F = Inr (True, F1)" "log_array F1 = log_array ?F" "outbox F1 \<noteq> []"
    "snd (last (outbox F1)) = append_entries_response 2 True 3"
    using handle_append_total [OF d(1) pm le a sample_follower_fields(4)] d(2) by metis
  let ?L1 = "?L\<lparr>match_index := [(7, 3), (8, 0)], next_index := [(7, 4), (8, 2)]\<rparr>"
  have "majority_index ?L1 = 1" by (simp add: majority_index_def get_last_open)
  then have "try_commit_entries good_env ?L1 = Inr ?L1"
    by (simp add: try_commit_entries_def get_last_open get_term_def in_log_def Let_def)
  then have "handle_append_entries_response good_env (append_entries_response 2 True 3) 7 ?L = Inr ?L1"
    by (simp add: successful_answer at0_def get_last_open Let_def word_le_nat_alt)
  then have x: "exchange good_env good_env 7 ?L ?F = Inr (True, ?L1, F1)" using F1 by (simp add: exchange_def)
  obtain l2 where l2: "log_append good_platform (blank_entry 2 0) (log_array ?L1) = Inr (True, blank_entry 2 2, l2)"
    "l_entries l2 = [blank_entry 1 1, blank_entry 2 2]" "same_frame (open_log [blank_entry 1 1]) l2"
    using log_append_plain [of good_platform "open_log [blank_entry 1 1]" "blank_entry 2 0"] open_log_fields(3)
    by (auto simp: default_log_config_def blank_entry_def make_log_entry_def)
  let ?L2 = "?L1\<lparr>log_array := l2, match_index := [(7, 3), (8, 1)], next_index := [(7, 4), (8, 2)]\<rparr>"
  have last2: "get_last_index l2 = 2" "blank_log l2" "get_term 2 l2 = 2" using l2(2,3)
    by (simp_all add: get_last_index_def blank_log_def get_term_def in_log_def same_frame_def)
  have mi: "majority_index ?L2 = 2" by (simp add: majority_index_def last2 word_le_nat_alt)
  obtain L2 where t: "try_commit_entries good_env ?L2 = Inr L2" using try_commit_blank [of ?L2] last2 by auto
  from try_commit_moves [OF this] have c: "pcommit L2 = 2" "log_array L2 = l2" using mi last2 by simp_all
  have "handle_append_entries_response good_env (append_entries_response 2 True 1) 8 (?L1\<lparr>log_array := l2\<rparr>) = Inr (send_append_entries 8 L2)"
    using t last2 by (simp add: successful_answer at0_def Let_def)
  moreover have "log_array (send_append_entries 8 L2) = l2" "pcommit (send_append_entries 8 L2) = 2"
    using c by (simp_all add: send_append_entries_def)
  moreover have "log_get 2 l2 = Some (blank_entry 2 2)" using l2(2,3) by (simp add: log_get_nat same_frame_def)
  moreover have "log_get 2 (log_array F1) = Some (blank_entry 1 2)" using F1(2) by (simp add: log_get_nat)
  ultimately show ?thesis using x l2(1) by blast
qed



theorem election_by_majority_witness:
  "role (fold (handle_request_vote_response (sample_env 200)) (replicate 1 (request_vote_response 2 True))
      (election_round (sample_env 200) (set_nodes [sample_addr 1, sample_addr 2] (sample_follower [])))) = Leader"
proof -
  let ?n = "set_nodes [sample_addr 1, sample_addr 2] (sample_follower [])"
  have "timer_fires (sample_env 200) ?n" "pnodes ?n \<noteq> []" "pterm ?n + 1 = 2" "length (pnodes ?n) = 2"
    by (simp_all add: timer_fires_def sample_defs sample_env_def)
  then show ?thesis using election_by_majority [of "sample_env 200" ?n 1] by simp
qed


end
