(* ===== verification/RaftCluster.thy ===== *)
theory RaftCluster
  imports RaftNode
begin

text \<open>
  The Raft node, second part (\<open>src/raft/raft.cpp\<close>): membership (joining and leaving a cluster,
  following a new leader), the discovery of a cluster, the transfer of snapshots, and the dispatch of
  messages. \<open>RaftCommands\<close> has the commands clients submit and the constructor.

  A connection to another node is a script: whether it is made, and what is received on it, one
  element per call of \<open>receive\<close>, \<open>None\<close> for an error or a timeout. \<open>become_follower\<close> uses one
  connection per attempt, and an answer that names another leader starts the next attempt on the
  rest of the scripts. \<open>meanwhile\<close> is what the other threads do to the node while a command waits for
  its entry to be applied, and \<open>late\<close> says whether the deadline of a batch has passed when the
  command with a number is reached. Fuel that runs out in a checkpoint shows as \<open>UB\<close>.
\<close>

section \<open>Surroundings\<close>

datatype connection = Refused | Connected "raft_message option list"

record cluster_env =
  renv :: raft_env
  connections :: "connection list"
  arch :: archiver
  fuel :: nat
  store_env :: env
  wal_in_data :: bool
  meanwhile :: "raft_node \<Rightarrow> raft_node res"
  late :: "nat \<Rightarrow> bool"
  unflushed :: nat

fun run_fuel :: "'a res option \<Rightarrow> 'a res" where
  "run_fuel None = Inl UB"
| "run_fuel (Some r) = r"

section \<open>Connections\<close>

definition close_socket :: "socket \<Rightarrow> raft_node \<Rightarrow> raft_node" where
  "close_socket sock n = n\<lparr>follower_sockets := aset_erase sock (follower_sockets n),
     uninitialized_sockets := AList.delete sock (uninitialized_sockets n),
     next_index := AList.delete sock (next_index n), match_index := AList.delete sock (match_index n),
     snapshot_state := AList.delete sock (snapshot_state n),
     follower_address_map := filter (\<lambda>(a, s). s \<noteq> sock) (follower_address_map n),
     closed_sockets := closed_sockets n @ [sock]\<rparr>"

definition send_and_close :: "raft_message \<Rightarrow> socket \<Rightarrow> raft_node \<Rightarrow> raft_node" where
  "send_and_close msg sock n = close_socket sock (send (ToSocket sock) msg n)"

definition is_trust :: "address \<Rightarrow> raft_node \<Rightarrow> bool" where
  "is_trust a n = is_trusted_ip (address_to_string a) (trusted_nodes n)"

text \<open>\<open>valid\<close>: the base class accepted the connection or queued it.\<close>

definition add_new_connection :: "raft_env \<Rightarrow> socket \<Rightarrow> address \<Rightarrow> bool \<Rightarrow> raft_node \<Rightarrow> raft_node" where
  "add_new_connection env sock client_address valid n =
     (if \<not> is_trust client_address n then n\<lparr>closed_sockets := closed_sockets n @ [sock]\<rparr>
      else if valid then n\<lparr>uninitialized_sockets := AList.update sock (steady_now env) (uninitialized_sockets n)\<rparr>
      else n)"

text \<open>One round of \<open>monitor_uninitialized_sockets\<close>.\<close>

definition monitor_round :: "raft_env \<Rightarrow> raft_node \<Rightarrow> raft_node" where
  "monitor_round env n =
     (let old = (\<lambda>(s, t). t + raft_rpc_timeout_ms (node_config n) < steady_now env);
          to_close = map fst (filter old (uninitialized_sockets n))
      in fold close_socket to_close (n\<lparr>uninitialized_sockets := filter (\<lambda>x. \<not> old x) (uninitialized_sockets n)\<rparr>))"

definition broadcast_to_followers :: "raft_message \<Rightarrow> raft_node \<Rightarrow> raft_node" where
  "broadcast_to_followers msg n =
     (if role n \<noteq> Leader then n else fold (\<lambda>sock. send (ToSocket sock) msg) (follower_sockets n) n)"

section \<open>Following a leader\<close>

text \<open>\<open>get_self_address\<close> leaves the address as it is, null, when it fails; its result is ignored here.\<close>

definition self_addr :: "raft_env \<Rightarrow> raft_node \<Rightarrow> address" where
  "self_addr env n = (case client_self_address env of Some a \<Rightarrow> a | None \<Rightarrow> null_address)\<lparr>port := ucast (node_port n)\<rparr>"

definition handle_join_cluster_response :: "raft_env \<Rightarrow> raft_message \<Rightarrow> raft_node \<Rightarrow> raft_node res" where
  "handle_join_cluster_response env msg n =
     (case join_cluster_response_data msg of
        None \<Rightarrow> Inr n
      | Some data \<Rightarrow>
          if role n \<noteq> Follower then Inr n
          else if jcr_success data then
            if follower_client n = None then Inl UB
            else
              let leader_addr = pleader n;
                  meta = jcr_cluster_metadata data;
                  meta' = meta\<lparr>cluster_nodes := aset_erase (self_addr env n) (aset_insert leader_addr (cluster_nodes meta)),
                               current_leader := leader_addr\<rparr>
              in Inr (save_persistent_state (upd_ps (\<lambda>p. p\<lparr>current_term := m_term msg, cluster_meta := meta'\<rparr>) n))
          else Inr (become_leader n))"

datatype query_outcome = Stay | Lead | Follow address

text \<open>What \<open>handle_query_leader_response\<close> decides: nothing, to lead, or to follow another node.\<close>

definition query_decision :: "raft_env \<Rightarrow> raft_message \<Rightarrow> raft_node \<Rightarrow> query_outcome res" where
  "query_decision env msg n =
     (case query_leader_response_data msg of
        None \<Rightarrow> Inl UB
      | Some data \<Rightarrow>
          let leader_addr = ql_leader_address data
          in if is_null leader_addr then Inr Stay
             else if follower_client n = None then Inl UB
             else case client_self_address env of
                    None \<Rightarrow> Inr Stay
                  | Some local_addr \<Rightarrow>
                      if \<not> (host leader_addr = host local_addr \<and> port leader_addr = ucast (node_port n)) then Inr (Follow leader_addr)
                      else Inr Lead)"

text \<open>The retry loop: the first of the given number of answers that is one to a join.\<close>

fun await_reply :: "nat \<Rightarrow> raft_message option list \<Rightarrow> raft_message option" where
  "await_reply 0 rs = None"
| "await_reply (Suc k) [] = None"
| "await_reply (Suc k) (None # rs) = await_reply k rs"
| "await_reply (Suc k) (Some m # rs) =
     (if m_type m = JOIN_CLUSTER_RESPONSE \<or> m_type m = QUERY_LEADER_RESPONSE then Some m else await_reply k rs)"

text \<open>
  The node adopts the leader before it looks at the answer. Its own followers would be told and
  closed in a loop that locks \<open>follower_sockets_mutex_\<close> a second time and erases the elements it
  iterates over, so any follower makes the behaviour undefined.
\<close>

definition adopt_leader :: "raft_env \<Rightarrow> address \<Rightarrow> u32 \<Rightarrow> u32 \<Rightarrow> raft_node \<Rightarrow> raft_node res" where
  "adopt_leader env leader_addr t ci n =
     (let n1 = to_follower (reset_election_timeout env n);
          n2 = set_commit ci (set_nodes [] (set_leader leader_addr n1));
          n3 = (if pterm n2 < t then set_vote null_address (set_term t n2) else n2);
          n4 = (save_persistent_state n3)\<lparr>next_index := [], match_index := []\<rparr>
      in if follower_sockets n4 \<noteq> [] then Inl UB
         else Inr (n4\<lparr>follower_address_map := []\<rparr>))"

fun become_follower :: "raft_env \<Rightarrow> connection list \<Rightarrow> address \<Rightarrow> u32 \<Rightarrow> bool \<Rightarrow> u32 \<Rightarrow> raft_node \<Rightarrow> (bool \<times> raft_node) res" where
  "become_follower env [] leader_addr t rejoin ci n = Inr (False, n\<lparr>follower_client := None\<rparr>)"
| "become_follower env (Refused # cs) leader_addr t rejoin ci n = Inr (False, n\<lparr>follower_client := None\<rparr>)"
| "become_follower env (Connected rs # cs) leader_addr t rejoin ci n =
     (let n1 = send ToLeader (join_cluster rejoin ci (node_port n)) (n\<lparr>follower_client := Some leader_addr\<rparr>)
      in case await_reply (join_cluster_max_retries (node_config n1)) rs of
           None \<Rightarrow> Inr (False, n1)
         | Some msg \<Rightarrow>
             rbind (adopt_leader env leader_addr t ci n1) (\<lambda>n2.
             rbind (if m_type msg = JOIN_CLUSTER_RESPONSE then handle_join_cluster_response env msg n2
                    else rbind (query_decision env msg n2) (\<lambda>d. case d of
                           Stay \<Rightarrow> Inr n2
                         | Lead \<Rightarrow> Inr (become_leader n2)
                         | Follow a \<Rightarrow> rbind (become_follower env cs a 0 False 0 n2) (\<lambda>(_, n3). Inr n3)))
               (\<lambda>n4. Inr (role n4 = Follower, n4))))"

definition handle_query_leader_response :: "cluster_env \<Rightarrow> raft_message \<Rightarrow> raft_node \<Rightarrow> raft_node res" where
  "handle_query_leader_response cenv msg n =
     rbind (query_decision (renv cenv) msg n) (\<lambda>d. case d of
         Stay \<Rightarrow> Inr n
       | Lead \<Rightarrow> Inr (become_leader n)
       | Follow a \<Rightarrow> rbind (become_follower (renv cenv) (connections cenv) a 0 False 0 n) (\<lambda>(_, n'). Inr n'))"

text \<open>Both look at the body without checking that there is one, and at \<open>follower_client_\<close>.\<close>

definition handle_leave_node :: "raft_env \<Rightarrow> raft_message \<Rightarrow> raft_node \<Rightarrow> raft_node res" where
  "handle_leave_node env msg n =
     (case (leave_node_data msg, follower_client n) of
        (Some data, Some _) \<Rightarrow>
          if self_addr env n = ln_node_address data then Inr (become_leader n)
          else Inr (save_persistent_state (set_nodes (aset_erase (ln_node_address data) (pnodes n)) n))
      | _ \<Rightarrow> Inl UB)"

definition handle_new_node_join :: "raft_env \<Rightarrow> raft_message \<Rightarrow> raft_node \<Rightarrow> raft_node res" where
  "handle_new_node_join env msg n =
     (case (new_node_join_data msg, follower_client n) of
        (Some data, Some _) \<Rightarrow>
          if nn_node_address data = self_addr env n then Inr n
          else Inr (save_persistent_state (set_nodes (aset_insert (nn_node_address data) (pnodes n)) n))
      | _ \<Rightarrow> Inl UB)"

definition init_as_follower :: "raft_env \<Rightarrow> connection list \<Rightarrow> raft_node \<Rightarrow> raft_node res" where
  "init_as_follower env cs n = rbind (become_follower env cs (pleader n) (pterm n) True (pcommit n) n) (\<lambda>(_, n'). Inr n')"

definition handle_new_master :: "cluster_env \<Rightarrow> raft_message \<Rightarrow> socket \<Rightarrow> raft_node \<Rightarrow> raft_node res" where
  "handle_new_master cenv msg sock n =
     (case new_master_data msg of
        None \<Rightarrow> Inr n
      | Some data \<Rightarrow>
          if m_term msg < pterm n then Inr n
          else if role n = Leader \<and> m_term msg = pterm n then Inr n
          else case self_address (renv cenv) sock of
                 None \<Rightarrow> Inr n
               | Some self \<Rightarrow>
                   if self = nm_leader_address data then Inr n
                   else
                     let n1 = (if pterm n < m_term msg then set_vote null_address (set_term (m_term msg) n) else n);
                         n2 = save_persistent_state (set_leader (nm_leader_address data) n1)
                     in rbind (become_follower (renv cenv) (connections cenv) (nm_leader_address data) (m_term msg) True (pcommit n2) n2)
                          (\<lambda>(_, n'). Inr n'))"


text \<open>Asking the known nodes for a leader, one connection each, until one answers.\<close>

fun discover :: "raft_env \<Rightarrow> address list \<Rightarrow> connection list \<Rightarrow> raft_node \<Rightarrow> raft_node res" where
  "discover env [] cs n = Inr n"
| "discover env (node # ns) [] n = discover env ns [] n"
| "discover env (node # ns) (Refused # cs) n = discover env ns cs n"
| "discover env (node # ns) (Connected rs # cs) n =
     (let n1 = send (ToNode node) query_leader n
      in case rs of
           Some m # _ \<Rightarrow>
             if m_type m \<noteq> QUERY_LEADER_RESPONSE then discover env ns cs n1
             else (case query_leader_response_data m of
                 None \<Rightarrow> Inl UB
               | Some data \<Rightarrow>
                   let leader_addr = ql_leader_address data
                   in if is_null leader_addr then Inr n1
                      else (case client_self_address env of
                          None \<Rightarrow> Inr n1
                        | Some local_addr \<Rightarrow>
                            if \<not> (host leader_addr = host local_addr \<and> port leader_addr = ucast (node_port n1))
                            then init_as_follower env cs (set_leader leader_addr n1)
                            else Inr n1))
         | _ \<Rightarrow> discover env ns cs n1)"

definition init_with_cluster_discovery :: "raft_env \<Rightarrow> connection list \<Rightarrow> raft_node \<Rightarrow> raft_node res" where
  "init_with_cluster_discovery env cs n = discover env (pnodes n) cs n"

section \<open>Snapshots\<close>

definition cache_bytes :: "raft_node \<Rightarrow> bytes" where
  "cache_bytes n = lru_serialize ser_string ser_response (result_cache n)"

text \<open>The first chunk: the checkpoint is made and opened. \<open>None\<close> when that fails.\<close>

definition open_snapshot :: "cluster_env \<Rightarrow> snapshot_transfer \<Rightarrow> raft_node \<Rightarrow> (snapshot_transfer option \<times> raft_node) res" where
  "open_snapshot cenv s n =
     (if is_sending s then Inr (Some s, n)
      else
        rbind (run_fuel (create_checkpoint (arch cenv) (fuel cenv) (store_env cenv) (wall_ms (renv cenv)) (cache_bytes n) (archives n) (node_store n)))
          (\<lambda>(ok, path, arcs, st).
             let n1 = n\<lparr>node_store := st, archives := arcs\<rparr>
             in if \<not> ok \<or> path = [] then Inr (None, n1)
                else case map_of arcs path of
                       None \<Rightarrow> Inr (None, n1)
                     | Some data \<Rightarrow>
                         let i = papplied n1; t = get_term i (log_array n1)
                         in Inr (Some \<lparr>tr_offset = 0, is_sending = True, tr_file = Some data, snapshot_path = path, tr_last_included_index = i,
                              tr_last_included_term = (if t = 0 \<and> 0 < i then pterm n1 else t)\<rparr>, n1)))"

definition discard_snapshot :: "string \<Rightarrow> raft_node \<Rightarrow> raft_node" where
  "discard_snapshot path n =
     (let st = snd (remove_snapshot path (node_store n))
      in n\<lparr>node_store := st, archives := (if path \<in> set (snapshot_files st) then archives n else AList.delete path (archives n))\<rparr>)"

definition send_snapshot_chunk :: "cluster_env \<Rightarrow> socket \<Rightarrow> raft_node \<Rightarrow> raft_node res" where
  "send_snapshot_chunk cenv sock n =
     (let s = (case map_of (snapshot_state n) sock of None \<Rightarrow> snapshot_transfer_new | Some s \<Rightarrow> s)
      in rbind (open_snapshot cenv s (n\<lparr>snapshot_state := AList.update sock s (snapshot_state n)\<rparr>)) (\<lambda>(opened, n1).
           case opened of
             None \<Rightarrow> Inr n1
           | Some s1 \<Rightarrow>
               (case tr_file s1 of
                  None \<Rightarrow> Inl UB
                | Some f \<Rightarrow>
                    let size = snapshot_chunk_size_bytes (node_config n1);
                        chunk = take size (drop (unat (tr_offset s1)) f);
                        finished = length chunk < size;
                        n2 = (if finished then discard_snapshot (snapshot_path s1) n1 else n1);
                        s2 = (if finished then s1\<lparr>tr_file := None, is_sending := False\<rparr> else s1);
                        msg = snapshot_install chunk (ucast (tr_offset s1)) finished (tr_last_included_index s1) (tr_last_included_term s1);
                        s3 = s2\<lparr>tr_offset := tr_offset s2 + word_of_nat (length chunk)\<rparr>
                    in Inr (send (ToSocket sock) msg (n2\<lparr>snapshot_state := AList.update sock s3 (snapshot_state n2)\<rparr>)))))"

definition trigger_log_sync :: "cluster_env \<Rightarrow> socket \<Rightarrow> raft_node \<Rightarrow> raft_node res" where
  "trigger_log_sync cenv sock n =
     (let n1 = n\<lparr>next_index := touch0 sock (next_index n)\<rparr>
      in if at0 sock (next_index n) < get_base_index (log_array n1)
         then send_snapshot_chunk cenv sock (n1\<lparr>snapshot_state := AList.update sock snapshot_transfer_new (snapshot_state n1)\<rparr>)
         else Inr (send_append_entries sock n1))"

text \<open>
  The stream of the last chunk is still open when the store is restored from the file: what it holds
  back in its buffer, \<open>unflushed\<close> bytes, is not in the file yet.
\<close>

definition handle_install_snapshot :: "cluster_env \<Rightarrow> raft_message \<Rightarrow> raft_node \<Rightarrow> raft_node res" where
  "handle_install_snapshot cenv msg n =
     (case snapshot_install_data msg of
        None \<Rightarrow> Inl UB
      | Some data \<Rightarrow>
          let old = (case snapshot_file n of None \<Rightarrow> [] | Some f \<Rightarrow> f);
              response = snapshot_install_response True (si_offset data)
          in if unat (si_offset data) < length old then
               (if follower_client n = None then Inl UB else Inr (send ToLeader response n))
             else if \<not> disk_ok (node_platform (renv cenv)) then Inr n
             else
               let file = (if si_offset data = 0 then snapshot_data data else old @ snapshot_data data);
                   n1 = n\<lparr>snapshot_file := Some file\<rparr>
               in if follower_client n1 = None then Inl UB
                  else
                    let n2 = send ToLeader response n1
                    in if \<not> si_done data then Inr n2
                       else
                         rbind (run_fuel (restore_from_checkpoint (arch cenv) (fuel cenv) (store_env cenv)
                             (Some (take (length file - min (unflushed cenv) (length (snapshot_data data))) file)) (node_store n2)))
                           (\<lambda>(ok, cache, st).
                             let n3 = n2\<lparr>node_store := st\<rparr>
                             in if \<not> ok then Inr n3
                                else
                                  let i = si_last_included_index data;
                                      n4 = save_persistent_state (upd_ps (\<lambda>p. p\<lparr>log_snapshot_index := i, commit_index := i, last_applied := i\<rparr>) n3);
                                      n5 = n4\<lparr>log_array := snd (log_reset (node_platform (renv cenv)) (i + 1) (log_array n4))\<rparr>
                                  in if cache = [] then Inr n5
                                     else rbind (lru_deserialize deserializeString deserialize_response cache 0 (result_cache n5))
                                       (\<lambda>(c, _). Inr (n5\<lparr>result_cache := c\<rparr>))))"

text \<open>The answer's offset is compared with the offset of the next chunk.\<close>

definition handle_snapshot_response :: "cluster_env \<Rightarrow> raft_message \<Rightarrow> socket \<Rightarrow> raft_node \<Rightarrow> raft_node res" where
  "handle_snapshot_response cenv msg sock n =
     (case snapshot_install_response_data msg of
        None \<Rightarrow> Inl UB
      | Some resp \<Rightarrow>
          (case map_of (snapshot_state n) sock of
             None \<Rightarrow> Inr n
           | Some s \<Rightarrow>
               if sir_success resp \<and> ucast (sir_offset resp) = tr_offset s then
                 (if is_sending s then send_snapshot_chunk cenv sock n
                  else Inr (n\<lparr>match_index := AList.update sock (tr_last_included_index s) (match_index n),
                              next_index := AList.update sock (tr_last_included_index s + 1) (next_index n),
                              snapshot_state := AList.delete sock (snapshot_state n)\<rparr>))
               else Inr n))"

section \<open>The leader's side of a join\<close>

definition handle_query_leader :: "raft_env \<Rightarrow> socket \<Rightarrow> raft_node \<Rightarrow> raft_node" where
  "handle_query_leader env sock n =
     (let leader_addr = (case peer_address env sock of
            Some a \<Rightarrow> if is_trust a n
                      then (if role n = Leader then (case self_address env sock of Some s \<Rightarrow> s | None \<Rightarrow> null_address) else pleader n)
                      else null_address
          | None \<Rightarrow> null_address)
      in send_and_close (query_leader_response leader_addr) sock n)"

text \<open>
  A node is admitted: the others hear of it, its replication state starts at the index it reported,
  and it gets the cluster's members. A connection it had before loses its replication state.
\<close>

definition reset_peer :: "address \<Rightarrow> raft_node \<Rightarrow> raft_node" where
  "reset_peer addr n = (case map_of (follower_address_map n) addr of
       Some s \<Rightarrow> n\<lparr>match_index := AList.delete s (match_index n), next_index := AList.delete s (next_index n)\<rparr>
     | None \<Rightarrow> n)"

definition admit_node :: "address \<Rightarrow> u32 \<Rightarrow> socket \<Rightarrow> raft_node \<Rightarrow> raft_node" where
  "admit_node new_node_addr last_idx sock n =
     (let n1 = broadcast_to_followers (new_node_join_broadcast new_node_addr) n;
          n2 = reset_peer new_node_addr n1;
          n3 = n2\<lparr>next_index := AList.update sock (last_idx + 1) (next_index n2), match_index := AList.update sock 0 (match_index n2)\<rparr>;
          response = (join_cluster_response True [] ((cluster_meta (persistent n3))\<lparr>current_leader := null_address\<rparr>)
                        (at0 sock (next_index n3)))\<lparr>m_term := pterm n\<rparr>;
          n4 = send (ToSocket sock) response n3;
          n5 = save_persistent_state (set_nodes (aset_insert new_node_addr (pnodes n4)) n4)
      in n5\<lparr>follower_sockets := aset_insert sock (follower_sockets n5),
            follower_address_map := AList.update new_node_addr sock (follower_address_map n5)\<rparr>)"

text \<open>The detached thread's \<open>trigger_log_sync\<close> runs after the handler.\<close>

definition handle_join_cluster :: "cluster_env \<Rightarrow> raft_message \<Rightarrow> socket \<Rightarrow> raft_node \<Rightarrow> raft_node res" where
  "handle_join_cluster cenv msg sock n =
     (if role n \<noteq> Leader then Inr (send_and_close (query_leader_response (pleader n)) sock n)
      else case join_cluster_data msg of
        None \<Rightarrow> Inr (close_socket sock n)
      | Some data \<Rightarrow>
          (case peer_address (renv cenv) sock of
             None \<Rightarrow> Inr (send_and_close (raft_message_new\<lparr>m_type := JOIN_CLUSTER_RESPONSE, m_term := pterm n\<rparr>) sock n)
           | Some peer \<Rightarrow>
               if \<not> is_trust peer n
               then Inr (send_and_close ((join_cluster_response False ''Node is not trusted'' cluster_metadata_new 0)\<lparr>m_term := pterm n\<rparr>) sock n)
               else
                 trigger_log_sync cenv sock (admit_node (peer\<lparr>port := ucast (jc_port data)\<rparr>) (jc_last_index data) sock n)))"

text \<open>\<open>follower_address_map_[node]\<close> is socket 0 for a node that is not connected.\<close>

definition remove_node :: "address \<Rightarrow> raft_node \<Rightarrow> bool \<times> raft_node" where
  "remove_node node n =
     (if node \<in> set (pnodes n) then
        let sock = at0 node (follower_address_map n);
            n1 = n\<lparr>next_index := AList.delete sock (next_index n), match_index := AList.delete sock (match_index n)\<rparr>;
            n2 = broadcast_to_followers (leave_node node) n1;
            n3 = n2\<lparr>follower_sockets := aset_erase sock (follower_sockets n2),
                    follower_address_map := AList.delete node (follower_address_map n2)\<rparr>
        in (True, save_persistent_state (set_nodes (aset_erase node (pnodes n3)) n3))
      else (False, n))"

section \<open>Dispatch\<close>

definition handle_leader_message :: "cluster_env \<Rightarrow> raft_message \<Rightarrow> raft_node \<Rightarrow> raft_node res" where
  "handle_leader_message cenv msg n =
     (case m_type msg of
        APPEND_ENTRIES \<Rightarrow> rbind (handle_append_entries (renv cenv) msg n) (\<lambda>(_, n'). Inr n')
      | NEW_NODE \<Rightarrow> handle_new_node_join (renv cenv) msg n
      | LEAVE_NODE \<Rightarrow> handle_leave_node (renv cenv) msg n
      | QUERY_LEADER_RESPONSE \<Rightarrow> handle_query_leader_response cenv msg n
      | JOIN_CLUSTER_RESPONSE \<Rightarrow> handle_join_cluster_response (renv cenv) msg n
      | SNAPSHOT_INSTALL \<Rightarrow> handle_install_snapshot cenv msg n
      | _ \<Rightarrow> Inr n)"

definition handle_request :: "cluster_env \<Rightarrow> raft_message \<Rightarrow> socket \<Rightarrow> raft_node \<Rightarrow> raft_node res" where
  "handle_request cenv msg sock n =
     (let n1 = n\<lparr>uninitialized_sockets := AList.delete sock (uninitialized_sockets n)\<rparr>
      in case m_type msg of
           JOIN_CLUSTER \<Rightarrow> handle_join_cluster cenv msg sock n1
         | QUERY_LEADER \<Rightarrow> Inr (handle_query_leader (renv cenv) sock n1)
         | APPEND_ENTRIES_RESPONSE \<Rightarrow> handle_append_entries_response (renv cenv) msg sock n1
         | REQUEST_VOTE \<Rightarrow> Inr (snd (handle_request_vote (renv cenv) msg sock n1))
         | SNAPSHOT_INSTALL_RESPONSE \<Rightarrow> handle_snapshot_response cenv msg sock n1
         | NEW_MASTER \<Rightarrow> rbind (handle_new_master cenv msg sock n1) (\<lambda>n2. Inr (close_socket sock n2))
         | _ \<Rightarrow> Inr n1)"

text \<open>One round of the thread that reads what the leader sends: a message, a timeout or a lost connection.\<close>

datatype receipt = Message raft_message | Timeout | Lost

definition follower_round :: "cluster_env \<Rightarrow> receipt \<Rightarrow> raft_node \<Rightarrow> raft_node res" where
  "follower_round cenv r n =
     (if follower_client n = None \<or> role n = Leader then Inr n
      else case r of
             Timeout \<Rightarrow> Inr n
           | Lost \<Rightarrow> init_as_follower (renv cenv) (connections cenv) n
           | Message msg \<Rightarrow> handle_leader_message cenv msg n)"

end
