(* ===== verification/RaftCommands.thy ===== *)
theory RaftCommands
  imports RaftCluster
begin

text \<open>
  The commands clients submit to a Raft node (\<open>submit_command\<close>, \<open>submit_batch_command\<close>,
  \<open>handle_raft_command\<close> in \<open>src/raft/raft.cpp\<close>) and the constructor of the node.
\<close>

section \<open>Cluster commands\<close>

fun role_number :: "raft_role \<Rightarrow> nat" where
  "role_number Follower = 0"
| "role_number Candidate = 1"
| "role_number Leader = 2"

definition list_nodes :: "address list \<Rightarrow> string" where
  "list_nodes nodes =
     (let s = fold (\<lambda>node acc. if is_null node then acc
                      else (if acc \<noteq> [] then acc @ '','' else acc) @ address_to_string node) nodes ''''
      in (if s \<noteq> [] then s @ '','' else s) @ ''current_node'')"

definition node_status :: "raft_node \<Rightarrow> string" where
  "node_status n = ''role='' @ nat_to_string (role_number (role n)) @ '',term='' @ nat_to_string (unat (pterm n)) @
     '',leader='' @ address_to_string (pleader n) @ '',nodes='' @ nat_to_string (length (pnodes n) + 1) @
     '',commit='' @ nat_to_string (unat (pcommit n)) @ '',applied='' @ nat_to_string (unat (papplied n)) @
     '',writable='' @ (if writable n then ''1'' else ''0'')"

text \<open>
  \<open>setmaster\<close> on another node: the data directory, which holds the Raft files too, is renamed when
  the store is not empty, and the log is opened anew at its path. The meta file stays open under
  its new name.
\<close>

definition change_master :: "cluster_env \<Rightarrow> address \<Rightarrow> raft_node \<Rightarrow> (response \<times> raft_node) res" where
  "change_master cenv addr n =
     rbind (run_fuel (clear_and_backup_data (wal_in_data cenv) (fuel cenv) (store_env cenv) (node_store n))) (\<lambda>(ok, st).
       let renamed = \<not> storage_empty (node_store n)
       in rbind (if renamed then raft_log_new (node_platform (renv cenv)) (node_log_config (node_config n)) [] []
                 else raft_log_new (node_platform (renv cenv)) (node_log_config (node_config n)) (wal_bytes (log_array n)) (idx_bytes (log_array n)))
          (\<lambda>l.
            let n1 = n\<lparr>node_store := st, log_array := l, meta_renamed := meta_renamed n \<or> renamed\<rparr>
            in if \<not> ok then Inr (error ''clear data failed'', n1)
               else
                 let n2 = save_persistent_state (upd_ps (\<lambda>p. p\<lparr>last_applied := 0, commit_index := 0, current_term := 0, log_snapshot_index := 0\<rparr>) n1)
                 in rbind (become_follower (renv cenv) (connections cenv) addr 0 False 0 n2) (\<lambda>(b, n3). Inr (success_bool b, n3))))"

definition handle_raft_command :: "cluster_env \<Rightarrow> u8 \<Rightarrow> string list \<Rightarrow> raft_node \<Rightarrow> (response \<times> raft_node) res" where
  "handle_raft_command cenv type args n =
     (if type = kGetMaster \<and> args = [] then
        Inr (if is_null (pleader n) \<or> role n = Leader then error ''no leader elected''
             else success (RString (address_to_string (pleader n))), n)
      else if type = kSetMaster \<and> length args = 2 then
        (if role n \<noteq> Leader then Inr (error ''only leader can set master'', n)
         else rbind (stoi (args ! 1)) (\<lambda>prt.
           let addr = \<lparr>host = args ! 0, port = word_of_int prt\<rparr>
           in if \<not> is_null (pleader n) \<and> addr = pleader n then
                (if follower_client n \<noteq> None then Inr (success (RString ''already connected to master''), n)
                 else rbind (become_follower (renv cenv) (connections cenv) addr (pterm n) True (pcommit n) n)
                        (\<lambda>(b, n'). Inr (success_bool b, n')))
              else change_master cenv addr n))
      else if type = kRemoveNode \<and> length args = 2 then
        (if role n \<noteq> Leader then Inr (error ''only leader can remove node'', n)
         else rbind (stoi (args ! 1)) (\<lambda>prt.
           let (removed, n') = remove_node \<lparr>host = args ! 0, port = ucast (word_of_int prt :: u16)\<rparr> n
           in Inr (if removed then success (RString ''node removed'') else error ''node not found'', n')))
      else if type = kListNodes \<and> args = [] then Inr (success (RString (list_nodes (pnodes n))), n)
      else if type = kGetStatus \<and> args = [] then Inr (success (RString (node_status n)), n)
      else Inr (error ''invalid command'', n))"

section \<open>Single commands\<close>

text \<open>The time stamp of an entry is cut to 32 bits.\<close>

definition get_current_timestamp :: "raft_env \<Rightarrow> u64" where
  "get_current_timestamp env = word_of_nat (wall_ms env mod 2 ^ 32)"

definition new_entry :: "raft_env \<Rightarrow> string \<Rightarrow> string \<Rightarrow> raft_node \<Rightarrow> log_entry" where
  "new_entry env rid cmd n = make_log_entry (pterm n) 0 cmd rid (get_current_timestamp env) 0"

definition forget_leader :: "raft_node \<Rightarrow> raft_node" where
  "forget_leader n = (if is_null (pleader n) then n else save_persistent_state (set_leader null_address n))"

definition cached :: "string \<Rightarrow> raft_node \<Rightarrow> response option \<times> raft_node" where
  "cached rid n = (case lru_get rid (result_cache n) of (r, c) \<Rightarrow> (r, n\<lparr>result_cache := c\<rparr>))"

text \<open>
  Waiting for the entry with an index: it is registered, sent to the followers and committed if the
  leader can do so alone; then the other threads run.
\<close>

definition replicate_and_wait :: "cluster_env \<Rightarrow> u32 \<Rightarrow> raft_node \<Rightarrow> (response option \<times> raft_node) res" where
  "replicate_and_wait cenv i n =
     (let n1 = n\<lparr>pending_requests := aset_insert i (pending_requests n)\<rparr>
      in rbind (try_commit_entries (renv cenv) (fold send_append_entries (follower_sockets n1) n1)) (\<lambda>n2.
         rbind (meanwhile cenv n2) (\<lambda>n3.
           case map_of (answers n3) i of
             Some r \<Rightarrow> Inr (Some r, n3\<lparr>answers := AList.delete i (answers n3)\<rparr>)
           | None \<Rightarrow> Inr (None, n3\<lparr>pending_requests := aset_erase i (pending_requests n3)\<rparr>))))"

definition submit_write :: "cluster_env \<Rightarrow> string \<Rightarrow> string \<Rightarrow> raft_node \<Rightarrow> (response \<times> raft_node) res" where
  "submit_write cenv rid cmd n =
     rbind (log_append (node_platform (renv cenv)) (new_entry (renv cenv) rid cmd n) (log_array n)) (\<lambda>(ok, entry, l).
       let n1 = n\<lparr>log_array := l\<rparr>
       in if \<not> ok then Inr (error ''execute failed'', n1)
          else
            let n2 = forget_leader n1
            in if need_majority_confirm (node_config n2) then
                 rbind (replicate_and_wait cenv (le_index entry) n2) (\<lambda>(r, n3).
                   Inr (case r of Some resp \<Rightarrow> resp | None \<Rightarrow> (error ''command timeout'')\<lparr>request_id := rid\<rparr>, n3))
               else
                 rbind (commit_entries (renv cenv) n2) (\<lambda>n3.
                   let (hit, n4) = cached rid n3
                   in Inr (case hit of Some resp \<Rightarrow> resp | None \<Rightarrow> (error ''execute failed'')\<lparr>request_id := rid\<rparr>, n4)))"

definition submit_command :: "cluster_env \<Rightarrow> string \<Rightarrow> string \<Rightarrow> raft_node \<Rightarrow> (response \<times> raft_node) res" where
  "submit_command cenv rid cmd n =
     (if rid = [] then Inr (error ''request_id cannot be empty'', n)
      else let (hit, n1) = cached rid n
        in case hit of
        Some r \<Rightarrow> Inr (r, n1)
      | None \<Rightarrow>
          (case split_by_spacer_view cmd of
             [] \<Rightarrow> Inr ((error ''invalid command'')\<lparr>request_id := rid\<rparr>, n1)
           | name # args \<Rightarrow>
               rbind (stringToOperationType_view name) (\<lambda>operation.
                 if isRaftOperation operation then
                   rbind (handle_raft_command cenv operation args n1) (\<lambda>(r, n2). Inr (r\<lparr>request_id := rid\<rparr>, n2))
                 else if isReadOperation operation then
                   (let (result, st) = storage_execute (regex (renv cenv)) True (store_env cenv) operation args (node_store n1)
                    in rbind result (\<lambda>r. Inr (r\<lparr>request_id := rid\<rparr>, n1\<lparr>node_store := st\<rparr>)))
                 else if role n1 \<noteq> Leader then
                   Inr ((redirect (address_to_string (pleader n1)))\<lparr>request_id := rid\<rparr>, n1)
                 else submit_write cenv rid cmd n1)))"

section \<open>Batches\<close>

type_synonym responses = "(string \<times> response) list"

definition error_for :: "string \<Rightarrow> string \<Rightarrow> response" where
  "error_for msg rid = (error msg)\<lparr>request_id := rid\<rparr>"

definition answer_all :: "(string \<Rightarrow> response) \<Rightarrow> (string \<times> string) list \<Rightarrow> responses \<Rightarrow> responses" where
  "answer_all f cmds rs = fold (\<lambda>(rid, cmd). AList.update rid (f rid)) cmds rs"

fun batch_read :: "cluster_env \<Rightarrow> nat \<Rightarrow> (string \<times> string) list \<Rightarrow> responses \<Rightarrow> raft_node \<Rightarrow> (responses \<times> raft_node) res" where
  "batch_read cenv i [] rs n = Inr (rs, n)"
| "batch_read cenv i ((rid, cmd) # cmds) rs n =
     (if late cenv i then Inr (answer_all (error_for ''timeout'') ((rid, cmd) # cmds) rs, n)
      else (case execute_command (renv cenv) (store_env cenv) cmd (node_store n) of
          Inl UB \<Rightarrow> Inl UB
        | Inl x \<Rightarrow> batch_read cenv (i + 1) cmds (AList.update rid (error_for (''execute failed: '' @ what x) rid) rs) n
        | Inr (r, st) \<Rightarrow> batch_read cenv (i + 1) cmds (AList.update rid (r\<lparr>request_id := rid\<rparr>) rs) (n\<lparr>node_store := st\<rparr>)))"

definition execute_batch_read_command :: "cluster_env \<Rightarrow> (string \<times> string) list \<Rightarrow> responses \<Rightarrow> raft_node \<Rightarrow> (responses \<times> raft_node) res" where
  "execute_batch_read_command cenv cmds rs n = batch_read cenv 0 cmds rs n"

text \<open>The answers from the cache, or an error for the requests that are not in it.\<close>

fun collect_cached :: "string \<Rightarrow> string list \<Rightarrow> responses \<Rightarrow> raft_node \<Rightarrow> responses \<times> raft_node" where
  "collect_cached msg [] rs n = (rs, n)"
| "collect_cached msg (rid # rids) rs n =
     (let (hit, n1) = cached rid n
      in collect_cached msg rids (AList.update rid (case hit of Some r \<Rightarrow> r | None \<Rightarrow> error_for msg rid) rs) n1)"

definition execute_batch_write_command :: "cluster_env \<Rightarrow> (string \<times> string) list \<Rightarrow> responses \<Rightarrow> raft_node \<Rightarrow> (responses \<times> raft_node) res" where
  "execute_batch_write_command cenv cmds rs n =
     (if cmds = [] then Inr (rs, n)
      else if role n \<noteq> Leader then
        Inr (answer_all (\<lambda>rid. (redirect (address_to_string (pleader n)))\<lparr>request_id := rid\<rparr>) cmds rs, n)
      else
        let n1 = forget_leader n
        in rbind (batch_append (node_platform (renv cenv)) (map (\<lambda>(rid, cmd). new_entry (renv cenv) rid cmd n1) cmds) (log_array n1))
             (\<lambda>(ok, entries, l).
               let n2 = n1\<lparr>log_array := l\<rparr>
               in if \<not> ok then Inr (answer_all (error_for ''execute failed'') cmds rs, n2)
                  else if need_majority_confirm (node_config n2) then
                    rbind (replicate_and_wait cenv (le_index (last entries)) n2) (\<lambda>(r, n3).
                      Inr (collect_cached (if r \<noteq> None \<and> \<not> late cenv 0 then ''execute failed'' else ''timeout'') (map le_request_id entries) rs n3))
                  else
                    rbind (commit_entries (renv cenv) n2) (\<lambda>n3.
                      Inr (collect_cached ''execute failed'' (map fst cmds) rs n3))))"

definition run_pending :: "cluster_env \<Rightarrow> bool \<Rightarrow> (string \<times> string) list \<Rightarrow> responses \<Rightarrow> raft_node \<Rightarrow> (responses \<times> raft_node) res" where
  "run_pending cenv is_read cmds rs n =
     (if cmds = [] then Inr (rs, n)
      else if is_read then execute_batch_read_command cenv cmds rs n
      else execute_batch_write_command cenv cmds rs n)"

text \<open>The loop over the commands: runs of reads and runs of writes are executed together, in order.\<close>

fun run_batch ::
  "cluster_env \<Rightarrow> (string \<times> string) list \<Rightarrow> (string \<times> string) list \<Rightarrow> bool \<Rightarrow> responses \<Rightarrow> raft_node \<Rightarrow> (responses \<times> raft_node) res" where
  "run_batch cenv [] cur is_read rs n = run_pending cenv is_read cur rs n"
| "run_batch cenv ((rid, cmd) # cmds) cur is_read rs n =
     (if cmd = [] then run_batch cenv cmds cur is_read (AList.update rid (error_for ''command cannot be empty'' rid) rs) n
      else if rid = [] then run_batch cenv cmds cur is_read (AList.update rid (error_for ''request_id cannot be empty'' rid) rs) n
      else let (hit, n1) = cached rid n
        in case hit of
        Some r \<Rightarrow> run_batch cenv cmds cur is_read (AList.update rid r rs) n1
      | None \<Rightarrow>
          (case split_by_spacer cmd of
             [] \<Rightarrow> run_batch cenv cmds cur is_read (AList.update rid (error_for ''invalid command'' rid) rs) n1
           | name # args \<Rightarrow>
               rbind (stringToOperationType name) (\<lambda>type.
                 if isReadOperation type then
                   (if is_read \<or> cur = [] then run_batch cenv cmds (cur @ [(rid, cmd)]) True rs n1
                    else rbind (execute_batch_write_command cenv cur rs n1) (\<lambda>(rs', n2). run_batch cenv cmds [(rid, cmd)] True rs' n2))
                 else if isRaftOperation type then
                   rbind (run_pending cenv is_read cur rs n1) (\<lambda>(rs', n2).
                     rbind (handle_raft_command cenv type args n2) (\<lambda>(r, n3).
                       run_batch cenv cmds [] is_read (AList.update rid r rs') n3))
                 else if isWriteOperation type then
                   (if \<not> is_read \<or> cur = [] then run_batch cenv cmds (cur @ [(rid, cmd)]) False rs n1
                    else rbind (execute_batch_read_command cenv cur rs n1) (\<lambda>(rs', n2). run_batch cenv cmds [(rid, cmd)] False rs' n2))
                 else run_batch cenv cmds cur is_read (AList.update rid (error_for ''invalid command'' rid) rs) n1)))"

definition response_for :: "string \<Rightarrow> responses \<Rightarrow> response" where
  "response_for rid rs = (case map_of rs rid of Some r \<Rightarrow> r | None \<Rightarrow> response_new)\<lparr>request_id := rid\<rparr>"

definition submit_batch_command :: "cluster_env \<Rightarrow> (string \<times> string) list \<Rightarrow> raft_node \<Rightarrow> ((string \<times> response) list \<times> raft_node) res" where
  "submit_batch_command cenv cmds n =
     (if cmds = [] then Inr ([], n)
      else rbind (run_batch cenv cmds [] False (answer_all (error_for ''timeout'') cmds []) n) (\<lambda>(rs, n').
             Inr (map (\<lambda>(rid, cmd). (rid, response_for rid rs)) cmds, n')))"

section \<open>Construction\<close>

text \<open>The commit index is cut to the log, then what is committed and not applied is applied.\<close>

definition start_node :: "cluster_env \<Rightarrow> raft_node \<Rightarrow> raft_node res" where
  "start_node cenv n =
     rbind (load_persistent_state n) (\<lambda>n1.
     rbind (if \<not> is_null (pleader n1) then init_as_follower (renv cenv) (connections cenv) n1
            else if pnodes n1 = [] then Inr n1
            else init_with_cluster_discovery (renv cenv) (connections cenv) n1) (\<lambda>n2.
       let last_log_idx = get_last_index (log_array n2);
           n3 = (if last_log_idx < pcommit n2 then set_commit last_log_idx n2 else n2)
       in apply_committed_entries (renv cenv) n3))"

definition raft_node_new ::
  "cluster_env \<Rightarrow> string \<Rightarrow> u16 \<Rightarrow> string list \<Rightarrow> raft_node_config \<Rightarrow> nat \<Rightarrow> bytes \<Rightarrow> bytes \<Rightarrow> bytes \<Rightarrow> bytes option \<Rightarrow> storage \<Rightarrow> raft_node res" where
  "raft_node_new cenv ip prt trusted cfg junk wal idx meta snap st =
     rbind (raft_log_new (node_platform (renv cenv)) (node_log_config cfg) wal idx) (\<lambda>l.
       start_node cenv (raft_node_init ip prt trusted cfg junk l st
         (if disk_ok (node_platform (renv cenv)) then Some meta else None) snap))"

text \<open>A restart on the files the node leaves behind.\<close>

definition node_restart :: "cluster_env \<Rightarrow> storage \<Rightarrow> raft_node \<Rightarrow> raft_node res" where
  "node_restart cenv st n =
     raft_node_new cenv (node_ip n) (node_port n) (trusted_nodes n) (node_config n) (election_timeout n)
       (wal_bytes (log_array n)) (idx_bytes (log_array n))
       (case meta_file n of Some m \<Rightarrow> if meta_renamed n then [] else m | None \<Rightarrow> []) (snapshot_file n) st"

definition stop_accepting_writes :: "raft_node \<Rightarrow> bool \<times> raft_node" where
  "stop_accepting_writes n = (if role n \<noteq> Leader then (False, n) else (True, n\<lparr>writable := False\<rparr>))"

definition start_accepting_writes :: "raft_node \<Rightarrow> bool \<times> raft_node" where
  "start_accepting_writes n = (if role n \<noteq> Leader then (False, n) else (True, n\<lparr>writable := True\<rparr>))"

end
