(* ===== verification/RaftSafety.thy ===== *)
theory RaftSafety
  imports RaftReplication RaftCommands
begin

text \<open>
  Properties of the whole Raft node, over the handlers of \<open>RaftNode\<close>, \<open>RaftCluster\<close> and
  \<open>RaftCommands\<close>: the tables a node keeps about its peers stay tables, a write command is executed
  once however often it is submitted, and two behaviours of joins and snapshots that break what the
  protocol promises.
\<close>

section \<open>The tables of a node\<close>

text \<open>
  The maps from sockets and addresses have one entry for a key, the sets no duplicates. This is what
  the C++ containers guarantee by construction and the association lists of the model have to keep.
\<close>

definition tables_ok :: "raft_node \<Rightarrow> bool" where
  "tables_ok n \<longleftrightarrow> distinct (map fst (next_index n)) \<and> distinct (map fst (match_index n)) \<and> distinct (map fst (snapshot_state n)) \<and>
     distinct (map fst (follower_address_map n)) \<and> distinct (map fst (uninitialized_sockets n)) \<and>
     distinct (follower_sockets n) \<and> distinct (pnodes n)"

text \<open>The set of nodes in a message has no duplicates: it was read into an \<open>unordered_set\<close>.\<close>

definition message_typed :: "raft_message \<Rightarrow> bool" where
  "message_typed msg \<longleftrightarrow> (case join_cluster_response_data msg of None \<Rightarrow> True | Some d \<Rightarrow> distinct (cluster_nodes (jcr_cluster_metadata d)))"

definition same_tables :: "raft_node \<Rightarrow> raft_node \<Rightarrow> bool" where
  "same_tables n n' \<longleftrightarrow> next_index n' = next_index n \<and> match_index n' = match_index n \<and> snapshot_state n' = snapshot_state n \<and>
     follower_address_map n' = follower_address_map n \<and> uninitialized_sockets n' = uninitialized_sockets n \<and>
     follower_sockets n' = follower_sockets n \<and> pnodes n' = pnodes n"

lemma same_tables_ok: "same_tables n n' \<Longrightarrow> tables_ok n \<Longrightarrow> tables_ok n'"
  by (simp add: same_tables_def tables_ok_def)

lemma same_tables_refl [simp]: "same_tables n n"
  by (simp add: same_tables_def)

lemma same_tables_trans: "same_tables n n1 \<Longrightarrow> same_tables n1 n2 \<Longrightarrow> same_tables n n2"
  by (simp add: same_tables_def)

lemma distinct_touch0: "distinct (map fst m) \<Longrightarrow> distinct (map fst (touch0 k m))"
  by (auto simp: touch0_def map_of_eq_None_iff split: option.splits)

lemma same_tables_steps [simp]:
  "same_tables n (save_persistent_state m) = same_tables n m" "same_tables n (send d ms m) = same_tables n m"
  "same_tables n (to_follower m) = same_tables n m" "same_tables n (to_candidate m) = same_tables n m" "same_tables n (to_leader m) = same_tables n m"
  "same_tables n (reset_election_timeout env m) = same_tables n m" "same_tables n (set_term t m) = same_tables n m"
  "same_tables n (set_vote a m) = same_tables n m" "same_tables n (set_commit i m) = same_tables n m"
  "same_tables n (set_applied i m) = same_tables n m" "same_tables n (set_leader a m) = same_tables n m"
  "same_tables n (m\<lparr>log_array := x0\<rparr>) = same_tables n m" "same_tables n (m\<lparr>granted_votes := x1\<rparr>) = same_tables n m"
  "same_tables n (m\<lparr>result_cache := x2\<rparr>) = same_tables n m" "same_tables n (m\<lparr>node_store := x3\<rparr>) = same_tables n m"
  "same_tables n (m\<lparr>follower_client := x4\<rparr>) = same_tables n m" "same_tables n (m\<lparr>answers := x5\<rparr>) = same_tables n m"
  "same_tables n (m\<lparr>pending_requests := x6\<rparr>) = same_tables n m" "same_tables n (m\<lparr>snapshot_file := x7\<rparr>) = same_tables n m"
  "same_tables n (m\<lparr>archives := x8\<rparr>) = same_tables n m" "same_tables n (m\<lparr>meta_renamed := x9\<rparr>) = same_tables n m"
  "same_tables n (m\<lparr>outbox := x10\<rparr>) = same_tables n m" "same_tables n (m\<lparr>closed_sockets := x11\<rparr>) = same_tables n m"
  by (simp_all add: same_tables_def save_persistent_state_def send_def to_follower_def to_candidate_def to_leader_def
      reset_election_timeout_def upd_defs Let_def split: option.splits)

lemma tables_ok_steps [simp]:
  "tables_ok (save_persistent_state m) = tables_ok m" "tables_ok (send d ms m) = tables_ok m" "tables_ok (to_follower m) = tables_ok m"
  "tables_ok (to_candidate m) = tables_ok m" "tables_ok (to_leader m) = tables_ok m" "tables_ok (reset_election_timeout env m) = tables_ok m"
  "tables_ok (set_term t m) = tables_ok m" "tables_ok (set_vote a m) = tables_ok m" "tables_ok (set_commit i m) = tables_ok m"
  "tables_ok (set_applied i m) = tables_ok m" "tables_ok (set_leader a m) = tables_ok m" "tables_ok (m\<lparr>log_array := x0\<rparr>) = tables_ok m"
  "tables_ok (m\<lparr>granted_votes := x1\<rparr>) = tables_ok m" "tables_ok (m\<lparr>result_cache := x2\<rparr>) = tables_ok m"
  "tables_ok (m\<lparr>node_store := x3\<rparr>) = tables_ok m" "tables_ok (m\<lparr>follower_client := x4\<rparr>) = tables_ok m"
  "tables_ok (m\<lparr>answers := x5\<rparr>) = tables_ok m" "tables_ok (m\<lparr>pending_requests := x6\<rparr>) = tables_ok m"
  "tables_ok (m\<lparr>snapshot_file := x7\<rparr>) = tables_ok m" "tables_ok (m\<lparr>archives := x8\<rparr>) = tables_ok m"
  "tables_ok (m\<lparr>meta_renamed := x9\<rparr>) = tables_ok m" "tables_ok (m\<lparr>outbox := x10\<rparr>) = tables_ok m"
  "tables_ok (m\<lparr>closed_sockets := x11\<rparr>) = tables_ok m"
  by (simp_all add: tables_ok_def save_persistent_state_def send_def to_follower_def to_candidate_def to_leader_def
      reset_election_timeout_def upd_defs Let_def split: option.splits)

lemma fold_send_tables: "same_tables n (fold (\<lambda>x. send (d x) (m x)) xs n)"
proof (induction xs arbitrary: n)
  case (Cons x xs)
  show ?case using same_tables_trans [OF _ Cons.IH [of "send (d x) (m x) n"], of n] by simp
qed simp

lemma apply_entry_tables: "apply_entry env i n = Inr (r, n') \<Longrightarrow> same_tables n n'"
  by (auto dest!: apply_entry_same simp: same_tables_def)

lemma apply_loop_tables: "apply_loop env k n = Inr n' \<Longrightarrow> same_tables n n'"
proof (induction k arbitrary: n)
  case (Suc k)
  let ?i = "papplied n + 1"
  from Suc.prems obtain r n2 where a: "apply_entry env ?i (set_applied ?i n) = Inr (r, n2)"
    and l: "apply_loop env k (if role n2 = Leader then notify_request_applied ?i r n2 else n2) = Inr n'"
    by (auto simp: Let_def rbind_eq_Inr_iff)
  have "same_tables n n2" by (rule same_tables_trans [OF _ apply_entry_tables [OF a]]) simp
  moreover have "same_tables n2 (if role n2 = Leader then notify_request_applied ?i r n2 else n2)"
    by (simp add: same_tables_def notify_request_applied_def)
  ultimately show ?case using Suc.IH [OF l] same_tables_trans by blast
qed simp

lemma commit_loop_tables: "commit_loop env k i n = Inr n' \<Longrightarrow> same_tables n n'"
proof (induction k arbitrary: i n)
  case (Suc k)
  then show ?case by (auto simp: rbind_eq_Inr_iff intro: same_tables_trans apply_entry_tables)
qed simp

lemma apply_committed_tables: "apply_committed_entries env n = Inr n' \<Longrightarrow> same_tables n n'"
  by (auto simp: apply_committed_entries_def rbind_eq_Inr_iff split: if_split_asm dest: apply_loop_tables)

lemma try_commit_tables:
  assumes "try_commit_entries env n = Inr n'"
  shows "same_tables n n'"
proof -
  let ?n1 = "if pcommit n < majority_index n \<and> get_term (majority_index n) (log_array n) = pterm n
    then save_persistent_state (set_commit (majority_index n) n) else n"
  have "same_tables n ?n1" by simp
  moreover have "n' = n \<or> n' = ?n1 \<or> apply_committed_entries env ?n1 = Inr n'"
    using assms unfolding try_commit_entries_def Let_def by (auto split: if_split_asm)
  ultimately show ?thesis using same_tables_trans [OF \<open>same_tables n ?n1\<close>, of n'] apply_committed_tables [of env ?n1 n'] same_tables_refl
    by (elim disjE) (simp_all only: simp_thms)
qed

lemma commit_entries_tables:
  assumes "commit_entries env n = Inr n'"
  shows "same_tables n n'"
proof (cases "get_last_index (log_array n) \<le> pcommit n")
  case False
  then obtain n2 where l: "commit_loop env (unat (get_last_index (log_array n)) - unat (papplied n)) (papplied n)
      (set_commit (get_last_index (log_array n)) n) = Inr n2"
    and n': "n' = save_persistent_state (set_applied (get_last_index (log_array n)) n2)"
    using assms by (auto simp: commit_entries_def Let_def upd_defs rbind_eq_Inr_iff)
  show ?thesis unfolding n' using same_tables_trans [OF _ commit_loop_tables [OF l], of n] by simp
qed (use assms in \<open>simp add: commit_entries_def\<close>)


lemma send_append_entries_tables: "tables_ok n \<Longrightarrow> tables_ok (send_append_entries s n)"
  by (simp add: send_append_entries_def tables_ok_def send_def distinct_touch0)

lemma fold_append_entries_tables: "tables_ok n \<Longrightarrow> tables_ok (fold send_append_entries ss n)"
  by (induction ss arbitrary: n) (auto intro: send_append_entries_tables)

lemma fold_send_ok: "tables_ok n \<Longrightarrow> tables_ok (fold (\<lambda>x. send (d x) (m x)) xs n)"
  by (rule same_tables_ok [OF fold_send_tables])

lemma set_nodes_tables: "tables_ok n \<Longrightarrow> distinct ns \<Longrightarrow> tables_ok (set_nodes ns n)"
  by (simp add: tables_ok_def upd_defs)

lemma become_leader_tables: "tables_ok n \<Longrightarrow> tables_ok (become_leader n)"
  by (simp add: become_leader_def set_nodes_tables)

lemma pnodes_distinct: "tables_ok n \<Longrightarrow> distinct (pnodes n)"
  by (simp add: tables_ok_def)

lemma broadcast_new_master_tables: "tables_ok n \<Longrightarrow> tables_ok (broadcast_new_master_with_check env t n)"
  by (simp add: broadcast_new_master_with_check_def broadcast_new_master_impl_def fold_send_ok split: option.splits)

lemma vote_response_tables: "tables_ok n \<Longrightarrow> tables_ok (handle_request_vote_response env msg n)"
  by (auto simp: handle_request_vote_response_def Let_def split: option.splits
      intro!: broadcast_new_master_tables set_nodes_tables become_leader_tables pnodes_distinct)

lemma request_vote_tables: "tables_ok n \<Longrightarrow> tables_ok (snd (handle_request_vote env msg sock n))"
  by (auto simp: handle_request_vote_def Let_def split: option.splits)

lemma election_tables: "tables_ok n \<Longrightarrow> tables_ok (election_round env n)"
  by (auto simp: election_round_def become_candidate_def send_request_vote_def Let_def split: prod.splits intro!: fold_send_ok)

lemma append_entries_tables:
  assumes "handle_append_entries env msg n = Inr (ok, n')"
  shows "same_tables n n'"
proof (cases "m_term msg < pterm n")
  case True
  then show ?thesis using assms by (auto simp: handle_append_entries_def Let_def split: if_split_asm)
next
  case False
  from assms obtain saved applying n3 where a: "accept_entries env msg (pterm n < m_term msg) (follow env msg n) = Inr (ok, saved, applying, n3)"
    and r: "answer_append env ok (if ok then get_last_index (log_array n3) else get_last_index (log_array n)) (m_term msg) saved applying n3 = Inr (ok, n')"
    by (auto simp: handle_append_entries_accept [OF False] rbind_eq_Inr_iff) (frule answer_append_ok, simp)
  have "same_tables n (follow env msg n)" by (simp add: follow_def)
  moreover have "same_tables (follow env msg n) n3"
    using a by (auto simp: accept_entries_def Let_def rbind_eq_Inr_iff split: option.splits if_split_asm prod.splits)
  moreover have "same_tables n3 n'"
    using r by (auto simp: answer_append_def Let_def rbind_eq_Inr_iff split: if_split_asm dest!: apply_committed_tables
        dest: same_tables_trans [of n3, rotated])
  ultimately show ?thesis using same_tables_trans by blast
qed

lemma append_response_tables:
  assumes "handle_append_entries_response env msg sock n = Inr n'" "tables_ok n"
  shows "tables_ok n'"
proof -
  have up: "tables_ok (n\<lparr>match_index := AList.update sock a (match_index n), next_index := AList.update sock b (next_index n)\<rparr>)"
    "tables_ok (n\<lparr>next_index := AList.update sock b (next_index n)\<rparr>)" for a b
    using assms(2) by (simp_all add: tables_ok_def distinct_update)
  show ?thesis
    using assms up
    by (auto simp: handle_append_entries_response_def Let_def rbind_eq_Inr_iff split: option.splits if_split_asm
        intro!: send_append_entries_tables dest!: try_commit_tables intro: same_tables_ok)
qed


lemma aset_distinct: "distinct xs \<Longrightarrow> distinct (aset_insert x xs)" "distinct xs \<Longrightarrow> distinct (aset_erase x xs)"
  by (simp_all add: aset_insert_def aset_erase_def)

lemma delete_distinct: "distinct (map fst m) \<Longrightarrow> distinct (map fst (AList.delete k m))"
  by (rule distinct_delete)

lemma close_socket_tables: "tables_ok n \<Longrightarrow> tables_ok (close_socket s n)"
  by (simp add: close_socket_def tables_ok_def delete_distinct aset_distinct distinct_map_filter)

lemma join_response_tables:
  assumes "handle_join_cluster_response env msg n = Inr n'" "tables_ok n" "message_typed msg"
  shows "tables_ok n'"
proof -
  have "tables_ok (upd_ps (\<lambda>p. p\<lparr>current_term := t, cluster_meta := m\<lparr>cluster_nodes := aset_erase x (aset_insert y (cluster_nodes m)), current_leader := y\<rparr>\<rparr>) n)"
    if "distinct (cluster_nodes m)" for t m x y
    using assms(2) that by (simp add: tables_ok_def upd_ps_def aset_distinct)
  then show ?thesis
    using assms by (auto simp: handle_join_cluster_response_def message_typed_def Let_def split: option.splits if_split_asm
        intro: become_leader_tables)
qed

lemma adopt_leader_tables: "adopt_leader env a t ci n = Inr n' \<Longrightarrow> tables_ok n \<Longrightarrow> tables_ok n'"
  by (auto simp: adopt_leader_def Let_def tables_ok_def upd_defs to_follower_def reset_election_timeout_def save_persistent_state_def
      split: if_split_asm option.splits)

definition connection_typed :: "connection \<Rightarrow> bool" where
  "connection_typed c \<longleftrightarrow> (case c of Refused \<Rightarrow> True | Connected rs \<Rightarrow> (\<forall>m. Some m \<in> set rs \<longrightarrow> message_typed m))"

lemma await_reply_mem: "await_reply k rs = Some m \<Longrightarrow> Some m \<in> set rs"
  by (induction k rs rule: await_reply.induct) (auto split: if_split_asm)

lemma become_follower_tables:
  "become_follower env cs a t rc ci n = Inr (b, n') \<Longrightarrow> tables_ok n \<Longrightarrow> \<forall>c \<in> set cs. connection_typed c \<Longrightarrow> tables_ok n'"
proof (induction env cs a t rc ci n arbitrary: b n' rule: become_follower.induct)
  case (3 env rs cs leader_addr t rejoin ci n)
  let ?n1 = "send ToLeader (join_cluster rejoin ci (node_port n)) (n\<lparr>follower_client := Some leader_addr\<rparr>)"
  have t1: "tables_ok ?n1" using "3.prems"(2) by simp
  show ?case
  proof (cases "await_reply (join_cluster_max_retries (node_config ?n1)) rs")
    case None
    then show ?thesis using "3.prems"(1) t1 by (simp add: Let_def)
  next
    case (Some msg)
    have typed: "message_typed msg" using "3.prems"(3) await_reply_mem [OF Some] by (auto simp: connection_typed_def)
    obtain n2 where n2: "adopt_leader env leader_addr t ci ?n1 = Inr n2" and
      r: "(if m_type msg = JOIN_CLUSTER_RESPONSE then handle_join_cluster_response env msg n2
         else rbind (query_decision env msg n2) (\<lambda>d. case d of Stay \<Rightarrow> Inr n2 | Lead \<Rightarrow> Inr (become_leader n2)
           | Follow a \<Rightarrow> rbind (become_follower env cs a 0 False 0 n2) (\<lambda>(_, n3). Inr n3))) = Inr n'"
      using "3.prems"(1) Some by (auto simp: Let_def rbind_eq_Inr_iff)
    have t2: "tables_ok n2" by (rule adopt_leader_tables [OF n2 t1])
    note ih = "3.IH" [OF refl Some n2]
    show ?thesis
    proof (cases "m_type msg = JOIN_CLUSTER_RESPONSE")
      case True
      then show ?thesis using r t2 typed join_response_tables by simp
    next
      case False
      then obtain d where d: "query_decision env msg n2 = Inr d" and
        c: "(case d of Stay \<Rightarrow> Inr n2 | Lead \<Rightarrow> Inr (become_leader n2)
           | Follow a \<Rightarrow> rbind (become_follower env cs a 0 False 0 n2) (\<lambda>(_, n3). Inr n3)) = Inr n'"
        using r by (auto simp: rbind_eq_Inr_iff)
      show ?thesis
        using c t2 ih [OF False d] "3.prems"(3)
        by (cases d) (auto simp: rbind_eq_Inr_iff intro: become_leader_tables)
    qed
  qed
qed auto


lemma init_follower_tables:
  "init_as_follower env cs n = Inr n' \<Longrightarrow> tables_ok n \<Longrightarrow> \<forall>c \<in> set cs. connection_typed c \<Longrightarrow> tables_ok n'"
  by (auto simp: init_as_follower_def rbind_eq_Inr_iff dest: become_follower_tables)

lemma query_response_tables:
  assumes "handle_query_leader_response cenv msg n = Inr n'" "tables_ok n" "\<forall>c \<in> set (connections cenv). connection_typed c"
  shows "tables_ok n'"
proof -
  from assms(1) obtain d where "(case d of Stay \<Rightarrow> Inr n | Lead \<Rightarrow> Inr (become_leader n)
      | Follow a \<Rightarrow> rbind (become_follower (renv cenv) (connections cenv) a 0 False 0 n) (\<lambda>(_, n'). Inr n')) = Inr n'"
    by (auto simp: handle_query_leader_response_def rbind_eq_Inr_iff)
  then show ?thesis using assms(2,3) become_leader_tables
    by (cases d) (auto simp: rbind_eq_Inr_iff dest: become_follower_tables)
qed

lemma leave_node_tables: "handle_leave_node env msg n = Inr n' \<Longrightarrow> tables_ok n \<Longrightarrow> tables_ok n'"
  by (auto simp: handle_leave_node_def split: option.splits if_split_asm
      intro!: become_leader_tables set_nodes_tables aset_distinct pnodes_distinct)

lemma new_node_tables: "handle_new_node_join env msg n = Inr n' \<Longrightarrow> tables_ok n \<Longrightarrow> tables_ok n'"
  by (auto simp: handle_new_node_join_def split: option.splits if_split_asm
      intro!: set_nodes_tables aset_distinct pnodes_distinct)

lemma new_master_tables:
  "handle_new_master cenv msg sock n = Inr n' \<Longrightarrow> tables_ok n \<Longrightarrow> \<forall>c \<in> set (connections cenv). connection_typed c \<Longrightarrow> tables_ok n'"
  by (auto simp: handle_new_master_def Let_def rbind_eq_Inr_iff split: option.splits if_split_asm dest!: become_follower_tables)

lemma open_snapshot_tables: "open_snapshot cenv s n = Inr (o', n') \<Longrightarrow> same_tables n n'"
  by (auto simp: open_snapshot_def Let_def rbind_eq_Inr_iff split: if_split_asm option.splits)

lemma snapshot_chunk_tables:
  assumes "send_snapshot_chunk cenv sock n = Inr n'" "tables_ok n"
  shows "tables_ok n'"
proof -
  let ?s = "case map_of (snapshot_state n) sock of None \<Rightarrow> snapshot_transfer_new | Some s \<Rightarrow> s"
  have up: "tables_ok (m\<lparr>snapshot_state := AList.update sock s (snapshot_state m)\<rparr>)" if "tables_ok m" for m s
    using that by (simp add: tables_ok_def distinct_update)
  have dis: "tables_ok (discard_snapshot p m)" if "tables_ok m" for p m using that by (simp add: discard_snapshot_def Let_def)
  from assms(1) obtain opened n1 where o1: "open_snapshot cenv ?s (n\<lparr>snapshot_state := AList.update sock ?s (snapshot_state n)\<rparr>) = Inr (opened, n1)"
    by (auto simp: send_snapshot_chunk_def Let_def rbind_eq_Inr_iff)
  have t1: "tables_ok n1" by (rule same_tables_ok [OF open_snapshot_tables [OF o1] up [OF assms(2)]])
  show ?thesis
    using assms(1) o1 t1 up [OF t1] up [OF dis [OF t1]]
    by (auto simp: send_snapshot_chunk_def Let_def split: option.splits if_split_asm)
qed

lemma trigger_sync_tables:
  assumes "trigger_log_sync cenv sock n = Inr n'" "tables_ok n"
  shows "tables_ok n'"
proof -
  have "tables_ok (n\<lparr>next_index := touch0 sock (next_index n)\<rparr>)"
    "tables_ok (n\<lparr>next_index := touch0 sock (next_index n), snapshot_state := AList.update sock s (snapshot_state n)\<rparr>)" for s
    using assms(2) by (simp_all add: tables_ok_def distinct_touch0 distinct_update)
  then show ?thesis
    using assms(1) by (auto simp: trigger_log_sync_def Let_def split: if_split_asm intro: snapshot_chunk_tables send_append_entries_tables)
qed

lemma install_snapshot_tables:
  assumes "handle_install_snapshot cenv msg n = Inr n'" "tables_ok n"
  shows "tables_ok n'"
proof -
  have "tables_ok (upd_ps (\<lambda>p. p\<lparr>log_snapshot_index := i, commit_index := i, last_applied := i\<rparr>) m) = tables_ok m" for i m
    by (simp add: tables_ok_def upd_ps_def)
  then show ?thesis using assms
    by (auto simp: handle_install_snapshot_def Let_def rbind_eq_Inr_iff split: option.splits if_split_asm)
qed

lemma snapshot_response_tables:
  assumes "handle_snapshot_response cenv msg sock n = Inr n'" "tables_ok n"
  shows "tables_ok n'"
proof -
  have "tables_ok (n\<lparr>match_index := AList.update sock a (match_index n), next_index := AList.update sock b (next_index n),
      snapshot_state := AList.delete sock (snapshot_state n)\<rparr>)" for a b
    using assms(2) by (simp add: tables_ok_def distinct_update delete_distinct)
  then show ?thesis using assms
    by (auto simp: handle_snapshot_response_def split: option.splits if_split_asm intro: snapshot_chunk_tables)
qed

lemma send_and_close_tables: "tables_ok n \<Longrightarrow> tables_ok (send_and_close msg sock n)"
  by (simp add: send_and_close_def close_socket_tables)

lemma broadcast_tables: "tables_ok n \<Longrightarrow> tables_ok (broadcast_to_followers msg n)"
  by (simp add: broadcast_to_followers_def fold_send_ok)

lemma reset_peer_tables: "tables_ok n \<Longrightarrow> tables_ok (reset_peer a n)"
  by (simp add: reset_peer_def tables_ok_def delete_distinct split: option.splits)

lemma admit_node_tables:
  assumes "tables_ok n"
  shows "tables_ok (admit_node a i sock n)"
proof -
  define n2 where "n2 = reset_peer a (broadcast_to_followers (new_node_join_broadcast a) n)"
  define n3 where "n3 = n2\<lparr>next_index := AList.update sock (i + 1) (next_index n2), match_index := AList.update sock 0 (match_index n2)\<rparr>"
  define n5 where "n5 = save_persistent_state (set_nodes (aset_insert a (pnodes n3)) (send (ToSocket sock) ((join_cluster_response True []
    ((cluster_meta (persistent n3))\<lparr>current_leader := null_address\<rparr>) (at0 sock (next_index n3)))\<lparr>m_term := pterm n\<rparr>) n3))"
  have "tables_ok n2" unfolding n2_def by (intro reset_peer_tables broadcast_tables assms)
  then have t3: "tables_ok n3" by (simp add: n3_def tables_ok_def distinct_update)
  then have "tables_ok n5" by (simp add: n5_def set_nodes_tables aset_distinct pnodes_distinct)
  moreover have "admit_node a i sock n = n5\<lparr>follower_sockets := aset_insert sock (follower_sockets n5),
      follower_address_map := AList.update a sock (follower_address_map n5)\<rparr>"
    unfolding admit_node_def Let_def n5_def n3_def n2_def by simp
  ultimately show ?thesis by (simp add: tables_ok_def distinct_update aset_distinct)
qed

lemma join_cluster_tables: "handle_join_cluster cenv msg sock n = Inr n' \<Longrightarrow> tables_ok n \<Longrightarrow> tables_ok n'"
  by (auto simp: handle_join_cluster_def split: option.splits if_split_asm
      intro: send_and_close_tables close_socket_tables admit_node_tables trigger_sync_tables)

lemma remove_node_tables: "tables_ok n \<Longrightarrow> tables_ok (snd (remove_node a n))"
proof -
  assume t: "tables_ok n"
  let ?s = "at0 a (follower_address_map n)"
  let ?n1 = "n\<lparr>next_index := AList.delete ?s (next_index n), match_index := AList.delete ?s (match_index n)\<rparr>"
  let ?n2 = "broadcast_to_followers (leave_node a) ?n1"
  have "tables_ok ?n1" using t by (simp add: tables_ok_def delete_distinct)
  then have "tables_ok ?n2" by (rule broadcast_tables)
  then have "tables_ok (?n2\<lparr>follower_sockets := aset_erase ?s (follower_sockets ?n2), follower_address_map := AList.delete a (follower_address_map ?n2)\<rparr>)"
    by (simp add: tables_ok_def delete_distinct aset_distinct)
  then show ?thesis using t by (auto simp: remove_node_def Let_def intro!: set_nodes_tables aset_distinct dest: pnodes_distinct)
qed


text \<open>What a typed environment provides: connections that carry typed messages, and other threads that keep the tables.\<close>

definition env_typed :: "cluster_env \<Rightarrow> bool" where
  "env_typed cenv \<longleftrightarrow> (\<forall>c \<in> set (connections cenv). connection_typed c) \<and>
     (\<forall>n n'. meanwhile cenv n = Inr n' \<longrightarrow> tables_ok n \<longrightarrow> tables_ok n')"

lemma change_master_tables:
  assumes "change_master cenv a n = Inr (r, n')" "tables_ok n" "env_typed cenv"
  shows "tables_ok n'"
proof -
  have z: "tables_ok (upd_ps (\<lambda>p. p\<lparr>last_applied := 0, commit_index := 0, current_term := 0, log_snapshot_index := 0\<rparr>) m) = tables_ok m" for m
    by (simp add: tables_ok_def upd_ps_def)
  have "tables_ok n3" if "become_follower (renv cenv) (connections cenv) a t rc ci m = Inr (b, n3)" "tables_ok m" for t rc ci m b n3
    using become_follower_tables [OF that] assms(3) by (simp add: env_typed_def)
  then show ?thesis using assms(1,2) z
    by (auto simp: change_master_def Let_def rbind_eq_Inr_iff split: if_split_asm)
qed

lemma raft_command_tables:
  assumes "handle_raft_command cenv type args n = Inr (r, n')" "tables_ok n" "env_typed cenv"
  shows "tables_ok n'"
proof -
  have "tables_ok n3" if "become_follower (renv cenv) (connections cenv) a t rc ci n = Inr (b, n3)" for a t rc ci b n3
    using become_follower_tables [OF that assms(2)] assms(3) by (simp add: env_typed_def)
  then show ?thesis using assms remove_node_tables
    by (auto simp: handle_raft_command_def Let_def case_prod_unfold rbind_eq_Inr_iff split: if_split_asm intro: change_master_tables)
qed

lemma forget_leader_tables: "tables_ok (forget_leader n) = tables_ok n"
  by (simp add: forget_leader_def)

lemma cached_tables [simp]: "tables_ok (snd (cached rid n)) = tables_ok n"
  by (simp add: cached_def case_prod_unfold)

lemma replicate_tables:
  assumes "replicate_and_wait cenv i n = Inr (r, n')" "tables_ok n" "env_typed cenv"
  shows "tables_ok n'"
proof -
  let ?n1 = "n\<lparr>pending_requests := aset_insert i (pending_requests n)\<rparr>"
  from assms(1) obtain n2 n3 where s: "try_commit_entries (renv cenv) (fold send_append_entries (follower_sockets ?n1) ?n1) = Inr n2"
    "meanwhile cenv n2 = Inr n3"
    and n': "n' = n3\<lparr>answers := AList.delete i (answers n3)\<rparr> \<or> n' = n3\<lparr>pending_requests := aset_erase i (pending_requests n3)\<rparr>"
    by (auto simp: replicate_and_wait_def Let_def rbind_eq_Inr_iff split: option.splits)
  have "tables_ok ?n1" using assms(2) by simp
  then have "tables_ok n2" by (rule same_tables_ok [OF try_commit_tables [OF s(1)] fold_append_entries_tables])
  then have "tables_ok n3" using s(2) assms(3) by (simp add: env_typed_def)
  then show ?thesis using n' by auto
qed

lemma commit_entries_ok: "commit_entries env n = Inr n' \<Longrightarrow> tables_ok n \<Longrightarrow> tables_ok n'"
  using commit_entries_tables same_tables_ok by blast

lemma submit_write_tables:
  assumes "submit_write cenv rid cmd n = Inr (r, n')" "tables_ok n" "env_typed cenv"
  shows "tables_ok n'"
proof -
  from assms(1) obtain ok e l where a: "log_append (node_platform (renv cenv)) (new_entry (renv cenv) rid cmd n) (log_array n) = Inr (ok, e, l)"
    by (auto simp: submit_write_def rbind_eq_Inr_iff)
  let ?n2 = "forget_leader (n\<lparr>log_array := l\<rparr>)"
  have t2: "tables_ok ?n2" using assms(2) by (simp add: forget_leader_tables)
  consider "n' = n\<lparr>log_array := l\<rparr>" | x where "replicate_and_wait cenv (le_index e) ?n2 = Inr (x, n')"
    | n3 where "commit_entries (renv cenv) ?n2 = Inr n3" "n' = snd (cached rid n3)"
    using assms(1) a by (auto simp: submit_write_def Let_def case_prod_unfold rbind_eq_Inr_iff split: if_split_asm)
  then show ?thesis
    using assms(2,3) t2 replicate_tables commit_entries_ok by cases (simp, blast, simp)
qed

lemma submit_command_tables:
  assumes "submit_command cenv rid cmd n = Inr (r, n')" "tables_ok n" "env_typed cenv"
  shows "tables_ok n'"
proof -
  let ?n1 = "snd (cached rid n)"
  have t1: "tables_ok ?n1" using assms(2) by simp
  note d = assms(1) [unfolded submit_command_def Let_def case_prod_unfold]
  show ?thesis
  proof (cases "rid = [] \<or> fst (cached rid n) \<noteq> None \<or> split_by_spacer_view cmd = []")
    case True
    then have "n' = n \<or> n' = ?n1" using d by (auto split: if_split_asm option.split_asm)
    then show ?thesis using assms(2) t1 by blast
  next
    case False
    then obtain name args where p: "rid \<noteq> []" "fst (cached rid n) = None" "split_by_spacer_view cmd = name # args"
      by (auto simp: neq_Nil_conv)
    then obtain op where o: "stringToOperationType_view name = Inr op"
      using d by (auto simp: rbind_eq_Inr_iff)
    note d' = d [unfolded p(2,3) o, simplified p(1) rbind_simps option.case list.case if_False]
    consider (raft) "isRaftOperation op" | (read) "\<not> isRaftOperation op" "isReadOperation op" | (other) "\<not> isRaftOperation op" "\<not> isReadOperation op"
      by blast
    then show ?thesis
    proof cases
      case raft
      then show ?thesis using d' p o raft_command_tables [OF _ t1 assms(3)] by (auto simp: rbind_eq_Inr_iff)
    next
      case read
      then show ?thesis using d' p o t1 by (auto simp: rbind_eq_Inr_iff)
    next
      case other
      then show ?thesis using d' p o t1 submit_write_tables [OF _ t1 assms(3)] by (auto split: if_split_asm)
    qed
  qed
qed

lemma batch_read_tables: "batch_read cenv i cmds rs n = Inr (rs', n') \<Longrightarrow> tables_ok n \<Longrightarrow> tables_ok n'"
  by (induction cenv i cmds rs n rule: batch_read.induct) (auto split: if_split_asm sum.splits exn.splits)

lemma collect_tables [simp]: "tables_ok (snd (collect_cached msg rids rs n)) = tables_ok n"
  by (induction msg rids rs n rule: collect_cached.induct) (simp_all add: Let_def case_prod_unfold)

lemma batch_write_tables:
  assumes "execute_batch_write_command cenv cmds rs n = Inr (rs', n')" "tables_ok n" "env_typed cenv"
  shows "tables_ok n'"
proof -
  let ?n1 = "forget_leader n"
  have t1: "tables_ok (?n1\<lparr>log_array := l\<rparr>)" for l using assms(2) by (simp add: forget_leader_tables)
  note d = assms(1) [unfolded execute_batch_write_command_def Let_def case_prod_unfold]
  show ?thesis
  proof (cases "cmds = [] \<or> role n \<noteq> Leader")
    case True
    then show ?thesis using d assms(2) by (auto split: if_split_asm)
  next
    case False
    then obtain a where a: "batch_append (node_platform (renv cenv)) (map (\<lambda>p. new_entry (renv cenv) (fst p) (snd p) ?n1) cmds) (log_array ?n1) = Inr a"
      using d by (auto simp: rbind_eq_Inr_iff)
    note d' = d [unfolded a rbind_simps, simplified False simp_thms if_False]
    show ?thesis
    proof (cases "fst a \<and> need_majority_confirm (node_config ?n1)")
      case True
      then obtain x where "replicate_and_wait cenv (le_index (last (fst (snd a)))) (?n1\<lparr>log_array := snd (snd a)\<rparr>) = Inr x"
        "n' = snd (collect_cached (if fst x \<noteq> None \<and> \<not> late cenv 0 then ''execute failed'' else ''timeout'') (map le_request_id (fst (snd a))) rs (snd x))"
        using d' False by (auto simp: rbind_eq_Inr_iff)
      then show ?thesis using replicate_tables [OF _ t1 assms(3)] by (metis collect_tables prod.collapse)
    next
      case maj: False
      show ?thesis
      proof (cases "fst a")
        case True
        then obtain n3 where "commit_entries (renv cenv) (?n1\<lparr>log_array := snd (snd a)\<rparr>) = Inr n3"
          "n' = snd (collect_cached ''execute failed'' (map fst cmds) rs n3)"
          using d' False maj by (auto simp: rbind_eq_Inr_iff)
        then show ?thesis using commit_entries_ok [OF _ t1] by (metis collect_tables)
      qed (use d' False t1 in auto)
    qed
  qed
qed

lemma run_pending_tables: "run_pending cenv b cmds rs n = Inr (rs', n') \<Longrightarrow> tables_ok n \<Longrightarrow> env_typed cenv \<Longrightarrow> tables_ok n'"
  by (auto simp: run_pending_def execute_batch_read_command_def split: if_split_asm dest: batch_read_tables batch_write_tables)


lemma run_batch_tables:
  "run_batch cenv cmds cur b rs n = Inr (rs', n') \<Longrightarrow> tables_ok n \<Longrightarrow> env_typed cenv \<Longrightarrow> tables_ok n'"
proof (induction cmds arbitrary: cur b rs n)
  case Nil
  then show ?case by (auto intro: run_pending_tables)
next
  case (Cons c cmds)
  obtain rid cmd where [simp]: "c = (rid, cmd)" by (rule prod.exhaust)
  let ?n1 = "snd (cached rid n)"
  have t1: "tables_ok ?n1" using Cons.prems(2) by simp
  note ih = Cons.IH [OF _ _ Cons.prems(3)]
  note d = Cons.prems(1) [simplified, unfolded Let_def case_prod_unfold]
  show ?case
  proof (cases "cmd = [] \<or> rid = [] \<or> fst (cached rid n) \<noteq> None \<or> split_by_spacer cmd = []")
    case True
    then show ?thesis using d ih Cons.prems(2) t1 by (auto split: if_split_asm option.split_asm)
  next
    case False
    then obtain name args where p: "cmd \<noteq> []" "rid \<noteq> []" "fst (cached rid n) = None" "split_by_spacer cmd = name # args" by (auto simp: neq_Nil_conv)
    then obtain t where o: "stringToOperationType name = Inr t" using d by (auto simp: rbind_eq_Inr_iff)
    note d' = d [unfolded p(3,4) o, simplified p(1,2) rbind_simps option.case list.case if_False]
    consider (read) "isReadOperation t" | (raft) "\<not> isReadOperation t" "isRaftOperation t" | (other) "\<not> isReadOperation t" "\<not> isRaftOperation t"
      by blast
    then show ?thesis
    proof cases
      case read
      then show ?thesis using d' p o ih t1 batch_write_tables [OF _ t1 Cons.prems(3)] by (auto simp: rbind_eq_Inr_iff split: if_split_asm)
    next
      case raft
      then obtain x y where "run_pending cenv b cur rs ?n1 = Inr x" "handle_raft_command cenv t args (snd x) = Inr y"
        "run_batch cenv cmds [] b (AList.update rid (fst y) (fst x)) (snd y) = Inr (rs', n')"
        using d' p o by (auto simp: rbind_eq_Inr_iff)
      then show ?thesis using ih run_pending_tables [OF _ t1 Cons.prems(3)] raft_command_tables [OF _ _ Cons.prems(3)]
        by (metis prod.collapse)
    next
      case other
      then show ?thesis using d' p o ih t1 batch_read_tables [OF _ t1]
        by (auto simp: rbind_eq_Inr_iff execute_batch_read_command_def split: if_split_asm)
    qed
  qed
qed

lemma submit_batch_tables:
  "submit_batch_command cenv cmds n = Inr (r, n') \<Longrightarrow> tables_ok n \<Longrightarrow> env_typed cenv \<Longrightarrow> tables_ok n'"
  by (auto simp: submit_batch_command_def rbind_eq_Inr_iff split: if_split_asm dest: run_batch_tables)

lemma leader_message_tables:
  assumes "handle_leader_message cenv msg n = Inr n'" "tables_ok n" "env_typed cenv" "message_typed msg"
  shows "tables_ok n'"
  using assms
  by (cases "m_type msg")
    (auto simp: handle_leader_message_def env_typed_def rbind_eq_Inr_iff dest: append_entries_tables [THEN same_tables_ok] new_node_tables
      leave_node_tables query_response_tables join_response_tables install_snapshot_tables)

lemma request_tables:
  assumes "handle_request cenv msg sock n = Inr n'" "tables_ok n" "env_typed cenv"
  shows "tables_ok n'"
proof -
  let ?n1 = "n\<lparr>uninitialized_sockets := AList.delete sock (uninitialized_sockets n)\<rparr>"
  have t1: "tables_ok ?n1" using assms(2) by (simp add: tables_ok_def delete_distinct)
  then have "tables_ok (handle_query_leader (renv cenv) sock ?n1)"
    by (simp add: handle_query_leader_def send_and_close_tables Let_def)
  then show ?thesis using assms(1,3) t1
    by (cases "m_type msg")
      (auto simp: handle_request_def env_typed_def Let_def rbind_eq_Inr_iff dest: join_cluster_tables append_response_tables snapshot_response_tables
        new_master_tables intro: close_socket_tables request_vote_tables)
qed

lemma follower_round_tables:
  assumes "follower_round cenv r n = Inr n'" "tables_ok n" "env_typed cenv" "\<And>msg. r = Message msg \<Longrightarrow> message_typed msg"
  shows "tables_ok n'"
  using assms
  by (cases r) (auto simp: follower_round_def env_typed_def split: if_split_asm dest: leader_message_tables init_follower_tables)

lemma monitor_tables: "tables_ok n \<Longrightarrow> tables_ok (monitor_round env n)"
proof -
  have "tables_ok m \<Longrightarrow> tables_ok (fold close_socket ss m)" for ss m by (induction ss arbitrary: m) (auto intro: close_socket_tables)
  moreover assume "tables_ok n"
  ultimately show ?thesis by (simp add: monitor_round_def Let_def) (simp add: tables_ok_def distinct_map_filter)
qed

lemma connection_tables: "tables_ok n \<Longrightarrow> tables_ok (add_new_connection env sock a v n)"
  by (simp add: add_new_connection_def) (simp add: tables_ok_def distinct_update)


lemma discover_tables:
  "discover env ns cs n = Inr n' \<Longrightarrow> tables_ok n \<Longrightarrow> \<forall>c \<in> set cs. connection_typed c \<Longrightarrow> tables_ok n'"
proof (induction ns arbitrary: cs n)
  case (Cons node ns)
  show ?case
  proof (cases cs)
    case Nil
    then show ?thesis using Cons by auto
  next
    case (Cons c cs')
    let ?n1 = "send (ToNode node) query_leader n"
    have t1: "tables_ok ?n1" "tables_ok (set_leader a ?n1)" "\<forall>c \<in> set cs'. connection_typed c" for a using Cons.prems Cons by auto
    show ?thesis
    proof (cases c)
      case Refused
      then show ?thesis using Cons.IH [of cs' n] Cons.prems Cons by auto
    next
      case (Connected rs)
      then have "discover env ns cs' ?n1 = Inr n' \<or> n' = ?n1 \<or> (\<exists>a. init_as_follower env cs' (set_leader a ?n1) = Inr n')"
        using Cons.prems(1) Cons by (auto simp: Let_def split: list.split_asm option.split_asm if_split_asm)
      then show ?thesis using Cons.IH [OF _ t1(1,3)] t1 init_follower_tables [OF _ t1(2,3)] by blast
    qed
  qed
qed simp

lemma load_tables: "load_persistent_state n = Inr n' \<Longrightarrow> tables_ok n \<Longrightarrow> tables_ok n'"
proof -
  have "distinct (fold aset_insert ns s)" if "distinct s" for ns and s :: "address list"
    using that by (induction ns arbitrary: s) (auto intro: aset_distinct)
  then have "distinct (cluster_nodes (cluster_meta p))" if "deserialize_persistent_state data 0 = Inr (p, off)" for data p off
    using that by (auto simp: deserialize_persistent_state_def deserialize_cluster_metadata_def map_dec_def dec_pair_def rbind_eq_Inr_iff)
  then show "load_persistent_state n = Inr n' \<Longrightarrow> tables_ok n \<Longrightarrow> tables_ok n'"
    by (auto simp: load_persistent_state_def tables_ok_def rbind_eq_Inr_iff split: option.splits if_split_asm)
qed

lemma start_node_tables:
  assumes "start_node cenv n = Inr n'" "tables_ok n" "env_typed cenv"
  shows "tables_ok n'"
proof -
  from assms(1) obtain n1 n2 where 1: "load_persistent_state n = Inr n1" and
    2: "(if \<not> is_null (pleader n1) then init_as_follower (renv cenv) (connections cenv) n1
      else if pnodes n1 = [] then Inr n1 else init_with_cluster_discovery (renv cenv) (connections cenv) n1) = Inr n2" and
    3: "apply_committed_entries (renv cenv) (if get_last_index (log_array n2) < pcommit n2 then set_commit (get_last_index (log_array n2)) n2 else n2) = Inr n'"
    by (auto simp: start_node_def Let_def rbind_eq_Inr_iff)
  have t1: "tables_ok n1" by (rule load_tables [OF 1 assms(2)])
  have "tables_ok n2" using 2 t1 assms(3)
    by (auto simp: env_typed_def init_with_cluster_discovery_def split: if_split_asm dest: init_follower_tables discover_tables)
  then show ?thesis using same_tables_ok [OF apply_committed_tables [OF 3]] by simp
qed

section \<open>Runs of a node\<close>

datatype node_event =
    Request cluster_env raft_message socket
  | FromLeader cluster_env receipt
  | ElectionTimer raft_env
  | HeartbeatTimer
  | VoteReply raft_env raft_message
  | Connect raft_env socket address bool
  | Monitor raft_env
  | Submit cluster_env string string
  | SubmitBatch cluster_env "(string \<times> string) list"

fun cluster_step :: "node_event \<Rightarrow> raft_node \<Rightarrow> raft_node res" where
  "cluster_step (Request cenv msg sock) n = handle_request cenv msg sock n"
| "cluster_step (FromLeader cenv r) n = follower_round cenv r n"
| "cluster_step (ElectionTimer env) n = Inr (election_round env n)"
| "cluster_step HeartbeatTimer n = Inr (heartbeat_round n)"
| "cluster_step (VoteReply env msg) n = Inr (handle_request_vote_response env msg n)"
| "cluster_step (Connect env sock a valid) n = Inr (add_new_connection env sock a valid n)"
| "cluster_step (Monitor env) n = Inr (monitor_round env n)"
| "cluster_step (Submit cenv rid cmd) n = rbind (submit_command cenv rid cmd n) (\<lambda>(_, n'). Inr n')"
| "cluster_step (SubmitBatch cenv cmds) n = rbind (submit_batch_command cenv cmds n) (\<lambda>(_, n'). Inr n')"

fun event_typed :: "node_event \<Rightarrow> bool" where
  "event_typed (Request cenv msg sock) = env_typed cenv"
| "event_typed (FromLeader cenv r) = (env_typed cenv \<and> (case r of Message msg \<Rightarrow> message_typed msg | _ \<Rightarrow> True))"
| "event_typed (Submit cenv rid cmd) = env_typed cenv"
| "event_typed (SubmitBatch cenv cmds) = env_typed cenv"
| "event_typed _ = True"

text \<open>The states a node can be in: constructed on any files, then any sequence of events.\<close>

inductive node_reach :: "raft_node \<Rightarrow> bool" where
  reach_new: "raft_node_new cenv ip prt trusted cfg junk wal idx meta snap st = Inr n \<Longrightarrow> env_typed cenv \<Longrightarrow> node_reach n"
| reach_step: "node_reach n \<Longrightarrow> event_typed e \<Longrightarrow> cluster_step e n = Inr n' \<Longrightarrow> node_reach n'"

lemma cluster_step_tables:
  assumes "cluster_step e n = Inr n'" "tables_ok n" "event_typed e"
  shows "tables_ok n'"
proof (cases e)
  case HeartbeatTimer
  then show ?thesis using assms by (auto simp: heartbeat_round_def send_heartbeat_to_all_def fold_append_entries_tables)
qed (use assms in \<open>auto simp: rbind_eq_Inr_iff dest: request_tables follower_round_tables submit_command_tables submit_batch_tables
  intro: election_tables vote_response_tables connection_tables monitor_tables\<close>)


text \<open>Parameters for the examples: an archiver that returns three bytes, no connections.\<close>

definition sample_cluster :: cluster_env where
  "sample_cluster = \<lparr>renv = good_env, connections = [], arch = \<lparr>compressDir = (\<lambda>_. Inr ''abc''), extractTo = (\<lambda>_. Inr [])\<rparr>, fuel = 1,
     store_env = env_at 7 5, wal_in_data = True, meanwhile = Inr, late = (\<lambda>_. False), unflushed = 0\<rparr>"

lemma sample_cluster_typed: "env_typed sample_cluster"
  by (simp add: env_typed_def sample_cluster_def)


section \<open>A join can undo a vote\<close>

text \<open>
  C39: A node can vote twice in one term. The answer to a join sets the term to the leader's,
  also when that is lower, and leaves the vote of the higher term in place; the next request for the
  higher term then counts as a new term. Here a node votes for the peer on socket 7 in term 2, is
  sent back to term 1 by the answer to its join, and votes for the peer on socket 8 in term 2.
\<close>

theorem join_lets_node_vote_twice:
  "\<exists>F n1 n2 n3 answer. handle_request_vote good_env (request_vote 2 1 1) 7 F = (True, n1) \<and>
     handle_leader_message cenv answer n1 = Inr n2 \<and> m_type answer = JOIN_CLUSTER_RESPONSE \<and>
     handle_request_vote good_env (request_vote 2 1 1) 8 n2 = (True, n3) \<and>
     pterm n1 = 2 \<and> pvote n1 = sample_addr 7 \<and> pterm n3 = 2 \<and> pvote n3 = sample_addr 8 \<and> sample_addr 7 \<noteq> sample_addr 8"
proof -
  let ?F = "sample_follower []" and ?answer = "(join_cluster_response True '''' cluster_metadata_new 1)\<lparr>m_term := 1\<rparr>"
  let ?n1 = "snd (handle_request_vote good_env (request_vote 2 1 1) 7 ?F)"
  have v1: "fst (handle_request_vote good_env (request_vote 2 1 1) 7 ?F)" "pterm ?n1 = 2" "pvote ?n1 = sample_addr 7" "role ?n1 = Follower"
    "follower_client ?n1 \<noteq> None" "l_entries (log_array ?n1) = []"
    using sample_follower_fields(4) [of "[]"]
    by (simp_all add: handle_request_vote_def request_vote_def raft_message_new_def good_env_def sample_env_def log_is_fresh_def
        get_last_info_def to_follower_def reset_election_timeout_def is_null_iff Let_def upd_defs)
  obtain n2 where n2: "handle_leader_message cenv ?answer ?n1 = Inr n2" "pterm n2 = 1" "l_entries (log_array n2) = []"
    using v1 by (simp add: handle_leader_message_def handle_join_cluster_response_def join_cluster_response_def raft_message_new_def Let_def upd_ps_def)
  let ?n3 = "snd (handle_request_vote good_env (request_vote 2 1 1) 8 n2)"
  have v3: "fst (handle_request_vote good_env (request_vote 2 1 1) 8 n2)" "pterm ?n3 = 2" "pvote ?n3 = sample_addr 8"
    using n2
    by (simp_all add: handle_request_vote_def request_vote_def raft_message_new_def good_env_def sample_env_def log_is_fresh_def
        get_last_info_def to_follower_def reset_election_timeout_def is_null_iff Let_def upd_defs)
  have "sample_addr 7 \<noteq> sample_addr 8" by (simp add: sample_addr_def)
  moreover have "m_type ?answer = JOIN_CLUSTER_RESPONSE" by (simp add: join_cluster_response_def raft_message_new_def)
  moreover have "handle_request_vote good_env (request_vote 2 1 1) 7 ?F = (True, ?n1)" "handle_request_vote good_env (request_vote 2 1 1) 8 n2 = (True, ?n3)"
    using v1(1) v3(1) by (metis prod.collapse)+
  ultimately show ?thesis using v1 v3 n2(1) by blast
qed

section \<open>Snapshots larger than nothing\<close>

text \<open>
  The transfer of a snapshot stops after its first chunk. The follower answers with the offset
  the chunk started at, the leader compares that with the offset of the next chunk, and the answer to
  a chunk that is not empty is ignored: neither is the next chunk sent nor, after the last one, the
  follower's next index set.
\<close>

lemma open_snapshot_outbox: "open_snapshot cenv s n = Inr (opened, n1) \<Longrightarrow> outbox n1 = outbox n"
  by (auto simp: open_snapshot_def Let_def rbind_eq_Inr_iff split: if_split_asm option.split_asm)

lemma open_snapshot_starts:
  "open_snapshot cenv s n = Inr (Some s1, n1) \<Longrightarrow> \<not> is_sending s \<Longrightarrow> tr_offset s1 = 0"
  by (auto simp: open_snapshot_def Let_def rbind_eq_Inr_iff split: if_split_asm option.split_asm)

text \<open>What one call sends and leaves in the table, once the file is open.\<close>

lemma send_snapshot_chunk_sends:
  assumes "send_snapshot_chunk cenv sock n = Inr n'" "map_of (snapshot_state n) sock = Some s"
    and "open_snapshot cenv s (n\<lparr>snapshot_state := AList.update sock s (snapshot_state n)\<rparr>) = Inr (Some s1, n1)"
  shows "\<exists>chunk finished s3 i t. outbox n' = outbox n @ [(ToSocket sock, snapshot_install chunk (ucast (tr_offset s1)) finished i t)] \<and>
    map_of (snapshot_state n') sock = Some s3 \<and> tr_offset s3 = tr_offset s1 + word_of_nat (length chunk)"
proof -
  from assms obtain f where f: "tr_file s1 = Some f"
    by (cases "tr_file s1") (auto simp: send_snapshot_chunk_def)
  define size chunk finished where "size = snapshot_chunk_size_bytes (node_config n1)"
    and "chunk = take size (drop (unat (tr_offset s1)) f)" and "finished \<longleftrightarrow> length chunk < size"
  have "outbox n1 = outbox n" using open_snapshot_outbox [OF assms(3)] by simp
  then have "outbox n' = outbox n @ [(ToSocket sock, snapshot_install chunk (ucast (tr_offset s1)) finished (tr_last_included_index s1) (tr_last_included_term s1))] \<and>
    (\<exists>s3. map_of (snapshot_state n') sock = Some s3 \<and> tr_offset s3 = tr_offset s1 + word_of_nat (length chunk))"
    using assms f size_def chunk_def finished_def
    by (auto simp del: length_take length_drop simp: send_snapshot_chunk_def Let_def send_def discard_snapshot_def update_conv')
  then show ?thesis by blast
qed

theorem snapshot_answer_ignored:
  assumes "send_snapshot_chunk cenv sock n = Inr n'" "map_of (snapshot_state n) sock = Some s" "\<not> is_sending s"
    and "outbox n' = outbox n @ [(ToSocket sock, msg)]" "snapshot_install_data msg = Some d"
    and "snapshot_data d \<noteq> []" "length (snapshot_data d) < 2 ^ 64"
  shows "handle_snapshot_response cenv (snapshot_install_response True (si_offset d)) sock n' = Inr n'"
proof -
  let ?n = "n\<lparr>snapshot_state := AList.update sock s (snapshot_state n)\<rparr>"
  from assms(1-3) obtain opened n1 where o: "open_snapshot cenv s ?n = Inr (opened, n1)"
    by (auto simp: send_snapshot_chunk_def rbind_eq_Inr_iff)
  obtain s1 where s1: "opened = Some s1"
  proof (cases opened)
    case None
    then have "n' = n1" using assms(1,2) o by (simp add: send_snapshot_chunk_def)
    then show ?thesis using open_snapshot_outbox [OF o] assms(4) by simp
  qed
  have z: "tr_offset s1 = 0" using open_snapshot_starts o s1 assms(3) by blast
  obtain chunk finished s3 i t
    where r: "outbox n' = outbox n @ [(ToSocket sock, snapshot_install chunk 0 finished i t)]"
      "map_of (snapshot_state n') sock = Some s3" "tr_offset s3 = word_of_nat (length chunk)"
    using send_snapshot_chunk_sends [OF assms(1,2)] o s1 z by fastforce
  have d: "si_offset d = 0" "snapshot_data d = chunk"
    using r(1) assms(4,5) by (auto simp: snapshot_install_def raft_message_new_def)
  have "word_of_nat (length chunk) \<noteq> (0 :: u64)"
    using assms(6,7) d(2) unat_of_nat_lt [of "length chunk", where 'a = 64] by auto
  then show ?thesis using r(2,3) d(1) by (simp add: handle_snapshot_response_def snapshot_install_response_def raft_message_new_def)
qed

theorem snapshot_answer_ignored_witness:
  "\<exists>n' msg. send_snapshot_chunk sample_cluster 7 (sample_node\<lparr>snapshot_state := [(7, snapshot_transfer_new)]\<rparr>) = Inr n' \<and>
     outbox n' = [(ToSocket 7, msg)] \<and> handle_snapshot_response sample_cluster (snapshot_install_response True 0) 7 n' = Inr n'"
proof -
  let ?n = "sample_node\<lparr>snapshot_state := [(7, snapshot_transfer_new)]\<rparr>"
  let ?msg = "snapshot_install ''abc'' 0 True 0 0"
  have "flush_all (fuel sample_cluster) (store_env sample_cluster) (store_fresh True) = Some (Inr (store_fresh True))"
    by (simp add: flush_all_def memtable_new_def)
  moreover have "\<not> snapshot_cache_valid (store_fresh True)" by (simp add: store_fresh_def)
  ultimately obtain st where st: "create_checkpoint (arch sample_cluster) (fuel sample_cluster) (store_env sample_cluster) (wall_ms good_env) (cache_bytes ?n) []
      (store_fresh True) = Some (Inr (True, checkpoint_name (wall_ms good_env), [(checkpoint_name (wall_ms good_env), ''abc'')], st))"
    by (simp add: create_checkpoint_def sample_cluster_def Let_def)
  have f: "renv sample_cluster = good_env" "archives ?n = []" "node_store ?n = store_fresh True" "checkpoint_name k \<noteq> []" "papplied ?n = 0"
      "\<not> is_sending snapshot_transfer_new" "snapshot_state ?n = [(7, snapshot_transfer_new)]" "outbox ?n = []"
      "snapshot_chunk_size_bytes (node_config ?n) = 65536" for k
    by (simp_all add: sample_cluster_def sample_node_def sample_config_def raft_node_init_def persistent_state_new_def checkpoint_name_def snapshot_transfer_new_def)
  have "get_term 0 (log_array ?n) = 0" by (simp add: get_term_def in_log_def sample_node_def raft_node_init_def sample_log_def)
  then have "open_snapshot sample_cluster snapshot_transfer_new (?n\<lparr>snapshot_state := AList.update 7 snapshot_transfer_new (snapshot_state ?n)\<rparr>)
      = Inr (Some \<lparr>tr_offset = 0, is_sending = True, tr_file = Some ''abc'', snapshot_path = checkpoint_name (wall_ms good_env), tr_last_included_index = 0,
          tr_last_included_term = 0\<rparr>, ?n\<lparr>node_store := st, archives := [(checkpoint_name (wall_ms good_env), ''abc'')]\<rparr>)"
    using st f by (simp add: open_snapshot_def)
  then obtain n' where n': "send_snapshot_chunk sample_cluster 7 ?n = Inr n'" "outbox n' = [(ToSocket 7, ?msg)]"
    using f by (simp add: send_snapshot_chunk_def send_def discard_snapshot_def Let_def)
  have "outbox ?n = []" "map_of (snapshot_state ?n) 7 = Some snapshot_transfer_new" "\<not> is_sending snapshot_transfer_new"
    by (simp_all add: sample_node_def raft_node_init_def snapshot_transfer_new_def)
  with n' snapshot_answer_ignored [OF n'(1), of snapshot_transfer_new ?msg] show ?thesis
    by (auto simp: snapshot_install_def raft_message_new_def)
qed

section \<open>A retried write is executed once\<close>

lemma apply_entry_other:
  assumes "apply_entry env i n = Inr (result, n')" "recent m rid r (result_cache n)" "m < capacity (result_cache n)" "rid \<noteq> []"
    and "\<And>e. log_get i (log_array n) = Some e \<Longrightarrow> le_request_id e \<noteq> rid"
  shows "(\<exists>m' \<le> Suc m. recent m' rid r (result_cache n')) \<and> capacity (result_cache n') = capacity (result_cache n) \<and>
    log_array n' = log_array n \<and> papplied n' = papplied n"
proof (cases "log_get i (log_array n)")
  case None
  then have "n' = n" using assms(1) by (simp add: apply_entry_def)
  then show ?thesis using assms(2) le_SucI by blast
next
  case (Some e)
  then obtain x st where x: "execute_command env (envs env (unat i)) (le_cmd e) (node_store n) = Inr (x, st)"
    using assms(1) by (auto simp: apply_entry_def rbind_eq_Inr_iff)
  show ?thesis
  proof (cases "le_request_id e = []")
    case True
    then have "n' = n\<lparr>node_store := st\<rparr>" using x assms(1) Some by (simp add: apply_entry_def)
    then have "result_cache n' = result_cache n \<and> log_array n' = log_array n \<and> papplied n' = papplied n" by simp
    then show ?thesis using assms(2) by (auto intro!: exI [of _ m])
  next
    case False
    then obtain c where "lru_put (le_request_id e) (x\<lparr>request_id := le_request_id e\<rparr>) (result_cache n) = Inr c" "n' = n\<lparr>node_store := st, result_cache := c\<rparr>"
      using x assms(1) Some by (auto simp: apply_entry_def rbind_eq_Inr_iff Let_def)
    then show ?thesis using recent_put [OF assms(2) assms(5) [OF Some] assms(3)] by auto
  qed
qed

lemma apply_loop_keeps_answer:
  assumes "apply_loop env j n = Inr n'" "recent m rid r (result_cache n)" "m + j \<le> capacity (result_cache n)" "rid \<noteq> []"
    and "\<And>d e. 0 < d \<Longrightarrow> d \<le> j \<Longrightarrow> log_get (papplied n + word_of_nat d) (log_array n) = Some e \<Longrightarrow> le_request_id e \<noteq> rid"
  shows "\<exists>m'. recent m' rid r (result_cache n')"
  using assms
proof (induction j arbitrary: n m)
  case (Suc j)
  let ?i = "papplied n + 1"
  obtain result n1 where e: "apply_entry env ?i (set_applied ?i n) = Inr (result, n1)"
    and l: "apply_loop env j (if role n1 = Leader then notify_request_applied ?i result n1 else n1) = Inr n'"
    using Suc.prems(1) by (auto simp: rbind_eq_Inr_iff Let_def)
  have f: "result_cache (set_applied ?i n) = result_cache n" "log_array (set_applied ?i n) = log_array n" "papplied (set_applied ?i n) = ?i"
    by (simp_all add: upd_defs)
  have "log_get ?i (log_array n) = Some x \<Longrightarrow> le_request_id x \<noteq> rid" for x using Suc.prems(5) [of 1 x] by simp
  then obtain m' where m: "m' \<le> Suc m" "recent m' rid r (result_cache n1)" "capacity (result_cache n1) = capacity (result_cache n)"
      "log_array n1 = log_array n" "papplied n1 = ?i"
    using apply_entry_other [OF e, of m rid r] Suc.prems(2-4) f by auto
  let ?n2 = "if role n1 = Leader then notify_request_applied ?i result n1 else n1"
  have g: "result_cache ?n2 = result_cache n1" "log_array ?n2 = log_array n" "papplied ?n2 = ?i"
    using m(4,5) by (simp_all add: notify_request_applied_def)
  have "log_get (papplied ?n2 + word_of_nat d) (log_array ?n2) = Some x \<Longrightarrow> 0 < d \<Longrightarrow> d \<le> j \<Longrightarrow> le_request_id x \<noteq> rid" for d x
    using Suc.prems(5) [of "Suc d" x] g by (simp add: add.assoc)
  then show ?case using Suc.IH [OF l, of m'] m Suc.prems(3,4) g by auto
qed auto

text \<open>
  C29: A request that was executed is not executed again while its answer is cached. When a node has
  applied an entry and at most as many later entries, with other identifiers, as the result cache has
  room for, a client that submits the identifier again, with whatever command, gets the answer the
  entry's command gave when it was executed; nothing is appended to the log, sent or written to the
  store: only the order of the cache changes.
\<close>

theorem retry_gets_first_answer:
  assumes "apply_loop env (Suc j) n = Inr n'" "lru_inv (result_cache n)" "j < capacity (result_cache n)"
    and "log_get (papplied n + 1) (log_array n) = Some entry" "le_request_id entry = rid" "rid \<noteq> []"
    and "\<forall>d e. 0 < d \<longrightarrow> d \<le> j \<longrightarrow> log_get (papplied n + 1 + word_of_nat d) (log_array n) = Some e \<longrightarrow> le_request_id e \<noteq> rid"
  shows "\<exists>r st c. execute_command env (envs env (unat (papplied n + 1))) (le_cmd entry) (node_store n) = Inr (r, st) \<and>
    submit_command cenv rid cmd n' = Inr (r\<lparr>request_id := rid\<rparr>, n'\<lparr>result_cache := c\<rparr>)"
proof -
  let ?i = "papplied n + 1"
  obtain result n1 where e: "apply_entry env ?i (set_applied ?i n) = Inr (result, n1)"
    and l: "apply_loop env j (if role n1 = Leader then notify_request_applied ?i result n1 else n1) = Inr n'"
    using assms(1) by (auto simp: rbind_eq_Inr_iff Let_def)
  have f: "result_cache (set_applied ?i n) = result_cache n" "log_array (set_applied ?i n) = log_array n" "node_store (set_applied ?i n) = node_store n"
    by (simp_all add: upd_defs)
  obtain r st c where x: "execute_command env (envs env (unat ?i)) (le_cmd entry) (node_store n) = Inr (r, st)"
      "lru_put rid (r\<lparr>request_id := rid\<rparr>) (result_cache n) = Inr c" "result_cache n1 = c" "log_array n1 = log_array n" "papplied n1 = ?i"
    using e assms(4-6) f by (auto simp: apply_entry_def rbind_eq_Inr_iff Let_def set_applied_def upd_ps_def)
  have c: "recent 1 rid (r\<lparr>request_id := rid\<rparr>) c" "capacity c = capacity (result_cache n)"
    using recent_new [OF assms(2) _ x(2)] assms(3) by auto
  let ?n2 = "if role n1 = Leader then notify_request_applied ?i result n1 else n1"
  have g: "result_cache ?n2 = c" "log_array ?n2 = log_array n" "papplied ?n2 = ?i"
    using x by (simp_all add: notify_request_applied_def)
  have "\<exists>m'. recent m' rid (r\<lparr>request_id := rid\<rparr>) (result_cache n')"
    using apply_loop_keeps_answer [OF l, of 1 rid "r\<lparr>request_id := rid\<rparr>"] c g assms(3,6,7) by simp
  then obtain c' where "lru_get rid (result_cache n') = (Some (r\<lparr>request_id := rid\<rparr>), c')"
    using recent_get by (metis prod.collapse)
  then show ?thesis using x(1) assms(6) by (auto simp: submit_command_def cached_def)
qed


theorem retry_gets_first_answer_witness:
  "\<exists>n' r c. apply_loop good_env 1 (sample_leader [(blank_entry 1 1)\<lparr>le_request_id := ''r''\<rparr>] [] []) = Inr n' \<and>
     submit_command sample_cluster ''r'' ''SET k v'' n' = Inr (r\<lparr>request_id := ''r''\<rparr>, n'\<lparr>result_cache := c\<rparr>)"
proof -
  let ?e = "(blank_entry 1 1)\<lparr>le_request_id := ''r''\<rparr>" let ?n = "sample_leader [?e] [] []"
  have l: "log_get 1 (log_array ?n) = Some ?e" by (simp add: log_get_def in_log_def)
  have f: "papplied ?n = 0" "result_cache ?n = lru_new 10000" by (simp_all add: sample_defs)
  have c: "lru_inv (result_cache ?n)" "0 < capacity (result_cache ?n)" using f(2) lru_inv_new by (simp_all add: lru_new_def)
  have "split_by_spacer_view [] = []" by (simp add: split_by_spacer_view_def split_by_spacer_view_loop.simps [of "[]" 0 0])
  then have "execute_command good_env (envs good_env 1) (le_cmd ?e) st = Inr (error ''Empty command'', st)" for st
    by (simp add: execute_command_def)
  moreover obtain d where "lru_put ''r'' ((error ''Empty command'')\<lparr>request_id := ''r''\<rparr>) (lru_new 10000) = Inr d"
    using lru_put_step [OF c, of "''r''"] f(2) by metis
  ultimately obtain r n1 where "apply_entry good_env 1 (set_applied 1 ?n) = Inr (r, n1)"
    using l f by (simp add: apply_entry_def upd_defs Let_def)
  then obtain n' where a: "apply_loop good_env (Suc 0) ?n = Inr n'" using f(1) by (simp add: Let_def)
  from retry_gets_first_answer [OF a c(1), of ?e "''r''" sample_cluster "''SET k v''"] c(2) l f a show ?thesis
    by auto
qed

end
