(* ===== verification/ThreadPool.thy ===== *)
theory ThreadPool
  imports Prelude "HOL-Library.Multiset" "HOL-Library.Sublist"
begin

text \<open>
  The bounded thread pool (\<open>include/common/concurrency/threadpool.h\<close>, \<open>src/common/concurrency/threadpool.cpp\<close>), with its
  threads: a state holds the program counter of every worker, of every call of \<open>submit\<close> and of every call of
  \<open>stop\<close> or \<open>stop_immediately\<close>, and a schedule picks which one moves. A step is what the code does between two
  points where another thread can be seen: the atomic flag is read and written without the mutex, the queue only
  by its holder, and a thread that waits on a condition variable gives the mutex up in one step. \<open>notify_one\<close> wakes
  any one waiter, a wait with a timeout may end at any time, and a thread may wake up spuriously, a step of its own.
  The tasks are values; that a task throws makes no difference to the pool.
\<close>

section \<open>State\<close>

record pool_config =
  thread_count :: u32
  queue_size :: u32
  wait_timeout_ms :: u32

datatype tid = Worker_Thread nat | Submit_Thread nat

datatype 't worker_pc = WLock | WTest | WBlock | WWait | WTake | WNotify 't | WStart 't | WRun 't | WExited

datatype 't submit_pc =
    SubCheck 't | SubLock 't | SubFull 't | SubTest 't | SubBlock 't | SubWait 't | SubRelock 't | SubTimeout 't
  | SubResult 't bool | SubPush 't | SubNotify 't | SubReturn 't bool

datatype stop_pc = StopCas bool | StopClear | StopNotifyEmpty bool | StopNotifyFull bool | StopJoin bool | StopReturn

text \<open>
  The last five fields are a history: the tasks put into the queue, those accepted when the flag was set,
  those taken from it, those thrown away and those that have run.
\<close>

record 't pool =
  task_queue :: "'t list"
  stop_flag :: bool
  active_threads :: u32
  max_queue_size :: u32
  mutex :: "tid option"
  workers :: "'t worker_pc list"
  submits :: "'t submit_pc list"
  stops :: "stop_pc list"
  accepted :: "'t list"
  before_stop :: "'t list"
  taken :: "'t list"
  discarded :: "'t list"
  finished :: "'t list"

text \<open>The constructor starts the workers; the calls of \<open>submit\<close> and of \<open>shutdown\<close> that will be made are arguments.\<close>

definition pool_new :: "pool_config \<Rightarrow> 't list \<Rightarrow> bool list \<Rightarrow> 't pool" where
  "pool_new config ts immediates =
     \<lparr>task_queue = [], stop_flag = False, active_threads = 0, max_queue_size = queue_size config, mutex = None,
      workers = replicate (unat (thread_count config)) WLock, submits = map SubCheck ts, stops = map StopCas immediates,
      accepted = [], before_stop = [], taken = [], discarded = [], finished = []\<rparr>"

definition get_pending_task_count :: "'t pool \<Rightarrow> u32" where
  "get_pending_task_count s = word_of_nat (length (task_queue s))"

definition get_active_thread_count :: "'t pool \<Rightarrow> u32" where
  "get_active_thread_count s = active_threads s"

section \<open>Steps\<close>

abbreviation at_worker :: "nat \<Rightarrow> 't worker_pc \<Rightarrow> 't pool \<Rightarrow> 't pool" where
  "at_worker i pc s \<equiv> s\<lparr>workers := (workers s)[i := pc]\<rparr>"

abbreviation at_submit :: "nat \<Rightarrow> 't submit_pc \<Rightarrow> 't pool \<Rightarrow> 't pool" where
  "at_submit j pc s \<equiv> s\<lparr>submits := (submits s)[j := pc]\<rparr>"

abbreviation at_stop :: "nat \<Rightarrow> stop_pc \<Rightarrow> 't pool \<Rightarrow> 't pool" where
  "at_stop j pc s \<equiv> s\<lparr>stops := (stops s)[j := pc]\<rparr>"

fun wake_worker :: "'t worker_pc \<Rightarrow> 't worker_pc" where
  "wake_worker WWait = WLock"
| "wake_worker pc = pc"

fun wake_submit :: "'t submit_pc \<Rightarrow> 't submit_pc" where
  "wake_submit (SubWait t) = SubRelock t"
| "wake_submit pc = pc"

fun submit_waits :: "'t submit_pc \<Rightarrow> bool" where
  "submit_waits (SubWait t) = True"
| "submit_waits pc = False"

text \<open>\<open>notify_one\<close>: waiter number \<open>k\<close> wakes up; when there is a waiter, \<open>k\<close> has to be one.\<close>

definition notify_not_empty :: "nat \<Rightarrow> 't pool \<Rightarrow> 't pool option" where
  "notify_not_empty k s =
     (if WWait \<notin> set (workers s) then Some s
      else if k < length (workers s) \<and> workers s ! k = WWait then Some (at_worker k WLock s)
      else None)"

definition notify_not_full :: "nat \<Rightarrow> 't pool \<Rightarrow> 't pool option" where
  "notify_not_full k s =
     (if \<not> list_ex submit_waits (submits s) then Some s
      else if k < length (submits s) \<and> submit_waits (submits s ! k) then Some (at_submit k (wake_submit (submits s ! k)) s)
      else None)"

text \<open>One step of a worker at its program counter; \<open>k\<close> is the waiter its notification wakes.\<close>

fun worker_thread :: "nat \<Rightarrow> nat \<Rightarrow> 't worker_pc \<Rightarrow> 't pool \<Rightarrow> 't pool option" where
  "worker_thread i k WLock s = (if mutex s = None then Some (at_worker i WTest (s\<lparr>mutex := Some (Worker_Thread i)\<rparr>)) else None)"
| "worker_thread i k WTest s = Some (at_worker i (if task_queue s \<noteq> [] \<or> stop_flag s then WTake else WBlock) s)"
| "worker_thread i k WBlock s = Some (at_worker i WWait (s\<lparr>mutex := None\<rparr>))"
| "worker_thread i k WWait s = None"
| "worker_thread i k WTake s =
     (if stop_flag s \<and> task_queue s = [] then Some (at_worker i WExited (s\<lparr>mutex := None\<rparr>))
      else case task_queue s of
             t # q \<Rightarrow> Some (at_worker i (WNotify t) (s\<lparr>task_queue := q, taken := taken s @ [t], mutex := None\<rparr>))
           | [] \<Rightarrow> Some (at_worker i WLock (s\<lparr>mutex := None\<rparr>)))"
| "worker_thread i k (WNotify t) s = map_option (at_worker i (WStart t)) (notify_not_full k s)"
| "worker_thread i k (WStart t) s = Some (at_worker i (WRun t) (s\<lparr>active_threads := active_threads s + 1\<rparr>))"
| "worker_thread i k (WRun t) s = Some (at_worker i WLock (s\<lparr>finished := finished s @ [t], active_threads := active_threads s - 1\<rparr>))"
| "worker_thread i k WExited s = None"

definition has_room :: "'t pool \<Rightarrow> bool" where
  "has_room s \<longleftrightarrow> length (task_queue s) < unat (max_queue_size s)"

text \<open>One step of a call of \<open>submit\<close>. At \<open>SubWait\<close> the step is that the time is over.\<close>

fun submit :: "nat \<Rightarrow> nat \<Rightarrow> 't submit_pc \<Rightarrow> 't pool \<Rightarrow> 't pool option" where
  "submit j k (SubCheck t) s = Some (at_submit j (if stop_flag s then SubReturn t False else SubLock t) s)"
| "submit j k (SubLock t) s = (if mutex s = None then Some (at_submit j (SubFull t) (s\<lparr>mutex := Some (Submit_Thread j)\<rparr>)) else None)"
| "submit j k (SubFull t) s = Some (at_submit j (if has_room s then SubPush t else SubTest t) s)"
| "submit j k (SubTest t) s = Some (at_submit j (if has_room s \<or> stop_flag s then SubResult t True else SubBlock t) s)"
| "submit j k (SubBlock t) s = Some (at_submit j (SubWait t) (s\<lparr>mutex := None\<rparr>))"
| "submit j k (SubWait t) s = Some (at_submit j (SubTimeout t) s)"
| "submit j k (SubRelock t) s = (if mutex s = None then Some (at_submit j (SubTest t) (s\<lparr>mutex := Some (Submit_Thread j)\<rparr>)) else None)"
| "submit j k (SubTimeout t) s =
     (if mutex s = None
      then Some (at_submit j (SubResult t (has_room s \<or> stop_flag s)) (s\<lparr>mutex := Some (Submit_Thread j)\<rparr>)) else None)"
| "submit j k (SubResult t wait_result) s =
     (if \<not> wait_result \<or> stop_flag s then Some (at_submit j (SubReturn t False) (s\<lparr>mutex := None\<rparr>)) else Some (at_submit j (SubPush t) s))"
| "submit j k (SubPush t) s =
     Some (at_submit j (SubNotify t) (s\<lparr>task_queue := task_queue s @ [t], accepted := accepted s @ [t], mutex := None\<rparr>))"
| "submit j k (SubNotify t) s = map_option (at_submit j (SubReturn t True)) (notify_not_empty k s)"
| "submit j k (SubReturn t r) s = None"

text \<open>One step of \<open>shutdown\<close>.\<close>

fun shutdown :: "nat \<Rightarrow> stop_pc \<Rightarrow> 't pool \<Rightarrow> 't pool option" where
  "shutdown j (StopCas immediate) s =
     Some (if stop_flag s then at_stop j StopReturn s
           else at_stop j (if immediate then StopClear else StopNotifyEmpty False) (s\<lparr>stop_flag := True, before_stop := accepted s\<rparr>))"
| "shutdown j StopClear s =
     (if mutex s = None
      then Some (at_stop j (StopNotifyEmpty True) (s\<lparr>task_queue := [], discarded := discarded s @ task_queue s\<rparr>)) else None)"
| "shutdown j (StopNotifyEmpty immediate) s = Some (at_stop j (StopNotifyFull immediate) (s\<lparr>workers := map wake_worker (workers s)\<rparr>))"
| "shutdown j (StopNotifyFull immediate) s = Some (at_stop j (StopJoin immediate) (s\<lparr>submits := map wake_submit (submits s)\<rparr>))"
| "shutdown j (StopJoin immediate) s = (if list_all (\<lambda>w. w = WExited) (workers s) then Some (at_stop j StopReturn s) else None)"
| "shutdown j StopReturn s = None"

text \<open>Who moves. The last two are threads that wake up without a notification.\<close>

datatype action = WorkerMoves nat nat | SubmitMoves nat nat | StopMoves nat | SpuriousWake nat | SpuriousSubmit nat

fun pool_step :: "action \<Rightarrow> 't pool \<Rightarrow> 't pool option" where
  "pool_step (WorkerMoves i k) s = (if i < length (workers s) then worker_thread i k (workers s ! i) s else None)"
| "pool_step (SubmitMoves j k) s = (if j < length (submits s) then submit j k (submits s ! j) s else None)"
| "pool_step (StopMoves j) s = (if j < length (stops s) then shutdown j (stops s ! j) s else None)"
| "pool_step (SpuriousWake i) s =
     (if i < length (workers s) \<and> workers s ! i = WWait then Some (at_worker i WLock s) else None)"
| "pool_step (SpuriousSubmit j) s =
     (if j < length (submits s) \<and> submit_waits (submits s ! j) then Some (at_submit j (wake_submit (submits s ! j)) s) else None)"

fun schedule :: "action list \<Rightarrow> 't pool \<Rightarrow> 't pool option" where
  "schedule [] s = Some s"
| "schedule (a # as) s = Option.bind (pool_step a s) (schedule as)"

inductive pool_reach :: "'t pool \<Rightarrow> 't pool \<Rightarrow> bool" for s0 where
  reach_start: "pool_reach s0 s0"
| reach_step: "pool_reach s0 s \<Longrightarrow> pool_step a s = Some s' \<Longrightarrow> pool_reach s0 s'"

section \<open>Mutual exclusion\<close>

fun worker_holds :: "'t worker_pc \<Rightarrow> bool" where
  "worker_holds WTest = True"
| "worker_holds WBlock = True"
| "worker_holds WTake = True"
| "worker_holds _ = False"

fun submit_holds :: "'t submit_pc \<Rightarrow> bool" where
  "submit_holds (SubFull t) = True"
| "submit_holds (SubTest t) = True"
| "submit_holds (SubBlock t) = True"
| "submit_holds (SubResult t r) = True"
| "submit_holds (SubPush t) = True"
| "submit_holds _ = False"

text \<open>The invariants are stated over the fields they are about, so that steps on other fields keep them at once.\<close>

definition mutex_ok :: "tid option \<Rightarrow> 't worker_pc list \<Rightarrow> 't submit_pc list \<Rightarrow> bool" where
  "mutex_ok m ws ps \<longleftrightarrow>
     (\<forall>i < length ws. worker_holds (ws ! i) \<longleftrightarrow> m = Some (Worker_Thread i)) \<and>
     (\<forall>j < length ps. submit_holds (ps ! j) \<longleftrightarrow> m = Some (Submit_Thread j)) \<and>
     (\<forall>i. m = Some (Worker_Thread i) \<longrightarrow> i < length ws) \<and> (\<forall>j. m = Some (Submit_Thread j) \<longrightarrow> j < length ps)"

lemma wake_keeps_holds [simp]: "worker_holds (wake_worker w) = worker_holds w" "submit_holds (wake_submit p) = submit_holds p"
  by (cases w; simp) (cases p; simp)

lemma wake_submit_waits: "submit_waits p \<Longrightarrow> \<exists>t. p = SubWait t"
  by (cases p) auto

lemma notify_cases:
  "notify_not_empty k s = Some s' \<Longrightarrow> s' = s \<or> k < length (workers s) \<and> workers s ! k = WWait \<and> s' = at_worker k WLock s"
  "notify_not_full k s = Some s' \<Longrightarrow>
     s' = s \<or> (\<exists>t. k < length (submits s) \<and> submits s ! k = SubWait t \<and> s' = at_submit k (SubRelock t) s)"
  by (auto simp: notify_not_empty_def notify_not_full_def dest!: wake_submit_waits split: if_splits)

lemma mutex_ok_keep:
  "mutex_ok m ws ps \<Longrightarrow> i < length ws \<Longrightarrow> worker_holds w = worker_holds (ws ! i) \<Longrightarrow> mutex_ok m (ws[i := w]) ps"
  "mutex_ok m ws ps \<Longrightarrow> j < length ps \<Longrightarrow> submit_holds p = submit_holds (ps ! j) \<Longrightarrow> mutex_ok m ws (ps[j := p])"
  by (auto simp: mutex_ok_def nth_list_update)

lemma mutex_ok_acquire:
  "mutex_ok None ws ps \<Longrightarrow> i < length ws \<Longrightarrow> worker_holds w \<Longrightarrow> mutex_ok (Some (Worker_Thread i)) (ws[i := w]) ps"
  "mutex_ok None ws ps \<Longrightarrow> j < length ps \<Longrightarrow> submit_holds p \<Longrightarrow> mutex_ok (Some (Submit_Thread j)) ws (ps[j := p])"
  by (auto simp: mutex_ok_def nth_list_update)

lemma mutex_ok_release:
  "mutex_ok m ws ps \<Longrightarrow> i < length ws \<Longrightarrow> worker_holds (ws ! i) \<Longrightarrow> \<not> worker_holds w \<Longrightarrow> mutex_ok None (ws[i := w]) ps"
  "mutex_ok m ws ps \<Longrightarrow> j < length ps \<Longrightarrow> submit_holds (ps ! j) \<Longrightarrow> \<not> submit_holds p \<Longrightarrow> mutex_ok None ws (ps[j := p])"
  by (auto simp: mutex_ok_def nth_list_update)

lemma mutex_ok_wake: "mutex_ok m ws ps \<Longrightarrow> mutex_ok m (map wake_worker ws) (map wake_submit ps)"
  "mutex_ok m ws ps \<Longrightarrow> mutex_ok m (map wake_worker ws) ps" "mutex_ok m ws ps \<Longrightarrow> mutex_ok m ws (map wake_submit ps)"
  by (auto simp: mutex_ok_def)

lemmas mutex_ok_steps = mutex_ok_keep mutex_ok_acquire mutex_ok_wake

abbreviation mutex_inv :: "'t pool \<Rightarrow> bool" where
  "mutex_inv s \<equiv> mutex_ok (mutex s) (workers s) (submits s)"

lemma mutex_step:
  assumes "mutex_inv s" "pool_step a s = Some s'"
  shows "mutex_inv s'"
proof (cases a)
  case (WorkerMoves i k)
  then show ?thesis using assms
    by (cases "workers s ! i") (auto simp: mutex_ok_steps mutex_ok_release [of "mutex s"] split: if_splits list.splits dest!: notify_cases)
next
  case (SubmitMoves j k)
  then show ?thesis using assms
    by (cases "submits s ! j") (auto simp: mutex_ok_steps mutex_ok_release [of "mutex s"] split: if_splits dest!: notify_cases)
next
  case (StopMoves j)
  then show ?thesis using assms
    by (cases "stops s ! j") (auto simp: mutex_ok_steps mutex_ok_release [of "mutex s"] split: if_splits)
next
  case (SpuriousWake i)
  then show ?thesis using assms by (auto simp: mutex_ok_steps mutex_ok_release [of "mutex s"] split: if_splits)
next
  case (SpuriousSubmit j)
  then show ?thesis using assms by (auto simp: mutex_ok_steps mutex_ok_release [of "mutex s"] split: if_splits)
qed

section \<open>The queue is bounded\<close>

fun submit_room :: "bool \<Rightarrow> bool \<Rightarrow> 't submit_pc \<Rightarrow> bool" where
  "submit_room room stop (SubPush t) = room"
| "submit_room room stop (SubResult t r) = (r \<longrightarrow> room \<or> stop)"
| "submit_room room stop _ = True"

definition room_ok :: "'t list \<Rightarrow> nat \<Rightarrow> bool \<Rightarrow> 't submit_pc list \<Rightarrow> bool" where
  "room_ok q n stop ps \<longleftrightarrow> length q \<le> n \<and> (\<forall>p \<in> set ps. submit_room (length q < n) stop p)"

lemma room_ok_update: "room_ok q n stop ps \<Longrightarrow> submit_room (length q < n) stop p \<Longrightarrow> room_ok q n stop (ps[j := p])"
  by (auto simp: room_ok_def dest: set_update_subset_insert [THEN subsetD])

lemma submit_room_facts:
  "submit_room r stop (wake_submit p) = submit_room r stop p"
  "submit_room r stop p \<Longrightarrow> submit_room r True p"
  "\<not> submit_holds p \<Longrightarrow> submit_room r stop p"
  by (cases p; simp)+

lemma room_ok_wake: "room_ok q n stop ps \<Longrightarrow> room_ok q n stop (map wake_submit ps)"
  by (simp add: room_ok_def submit_room_facts)

lemma room_ok_stop: "room_ok q n stop ps \<Longrightarrow> room_ok q n True ps"
  using submit_room_facts(2) by (fastforce simp: room_ok_def)

text \<open>When nobody holds the mutex, no call of \<open>submit\<close> relies on the room it has seen.\<close>

lemma room_ok_free: "mutex_ok None ws ps \<Longrightarrow> length q \<le> n \<Longrightarrow> room_ok q n stop ps"
  by (auto simp: room_ok_def mutex_ok_def in_set_conv_nth submit_room_facts(3))

lemma room_ok_at: "room_ok q n stop ps \<Longrightarrow> j < length ps \<Longrightarrow> submit_room (length q < n) stop (ps ! j)"
  by (simp add: room_ok_def)

abbreviation room_inv :: "'t pool \<Rightarrow> bool" where
  "room_inv s \<equiv> room_ok (task_queue s) (unat (max_queue_size s)) (stop_flag s) (submits s)"

lemma room_step:
  assumes "mutex_inv s" "room_inv s" "pool_step a s = Some s'"
  shows "room_inv s'"
proof -
  have free: "mutex s' = None \<Longrightarrow> length (task_queue s') \<le> unat (max_queue_size s') \<Longrightarrow> ?thesis"
    using mutex_step [OF assms(1,3)] by (simp add: room_ok_free)
  have len: "length (task_queue s) \<le> unat (max_queue_size s)" using assms(2) by (simp add: room_ok_def)
  show ?thesis
  proof (cases a)
    case (WorkerMoves i k)
    then show ?thesis using assms(2,3) free len
      by (cases "workers s ! i") (auto simp: room_ok_update split: if_splits list.splits dest!: notify_cases)
  next
    case (SubmitMoves j k)
    then show ?thesis using assms(2,3) free len room_ok_at [OF assms(2), of j]
      by (cases "submits s ! j") (auto simp: room_ok_update has_room_def split: if_splits dest!: notify_cases)
  next
    case (StopMoves j)
    then show ?thesis using assms(2,3) free len
      by (cases "stops s ! j") (auto simp: room_ok_wake room_ok_stop split: if_splits)
  next
    case (SpuriousWake i)
    then show ?thesis using assms(2,3) by (auto split: if_splits)
  next
    case (SpuriousSubmit j)
    then show ?thesis using assms(2,3) by (auto simp: room_ok_update split: if_splits dest!: wake_submit_waits)
  qed
qed

section \<open>One call stops the pool\<close>

fun stopping :: "stop_pc \<Rightarrow> bool" where
  "stopping (StopCas i) = False"
| "stopping StopReturn = False"
| "stopping _ = True"

definition stops_ok :: "stop_pc list \<Rightarrow> bool \<Rightarrow> 't list \<Rightarrow> bool" where
  "stops_ok cs stop disc \<longleftrightarrow>
     (\<forall>i j. i < length cs \<and> j < length cs \<and> stopping (cs ! i) \<and> stopping (cs ! j) \<longrightarrow> i = j) \<and>
     (\<forall>c \<in> set cs. stopping c \<longrightarrow> stop) \<and> (StopClear \<in> set cs \<or> \<not> stop \<longrightarrow> disc = [])"

lemma stops_ok_enter:
  "stops_ok cs False disc \<Longrightarrow> j < length cs \<Longrightarrow> stops_ok (cs[j := c]) True disc"
  by (auto simp: stops_ok_def nth_list_update set_conv_nth)

lemma stops_ok_go:
  assumes "stops_ok cs stop disc" "j < length cs" "stopping (cs ! j)" "c \<noteq> StopClear"
  shows "stops_ok (cs[j := c]) stop disc'"
proof -
  have "\<not> stopping (cs ! i)" if "i < length cs" "i \<noteq> j" for i using assms that by (auto simp: stops_ok_def)
  moreover have stop using assms by (auto simp: stops_ok_def)
  ultimately show ?thesis using assms(2,4)
    by (auto simp: stops_ok_def nth_list_update set_conv_nth) (metis stopping.simps(3))
qed

lemma stops_ok_return: "stops_ok cs stop disc \<Longrightarrow> stops_ok (cs[j := StopReturn]) stop disc"
  by (cases "j < length cs") (auto simp: stops_ok_def nth_list_update set_conv_nth)

abbreviation stops_inv :: "'t pool \<Rightarrow> bool" where
  "stops_inv s \<equiv> stops_ok (stops s) (stop_flag s) (discarded s)"

lemma stops_step:
  assumes "stops_inv s" "pool_step a s = Some s'"
  shows "stops_inv s'"
proof (cases a)
  case (WorkerMoves i k)
  then show ?thesis using assms by (cases "workers s ! i") (auto split: if_splits list.splits dest!: notify_cases)
next
  case (SubmitMoves j k)
  then show ?thesis using assms by (cases "submits s ! j") (auto split: if_splits dest!: notify_cases)
next
  case (StopMoves j)
  then show ?thesis using assms
    by (cases "stops s ! j") (auto simp: stops_ok_enter stops_ok_return stops_ok_go [OF assms(1)] split: if_splits)
qed (use assms in \<open>auto split: if_splits\<close>)

section \<open>First in, first out\<close>

definition fifo_ok :: "'t list \<Rightarrow> 't list \<Rightarrow> 't list \<Rightarrow> 't list \<Rightarrow> bool" where
  "fifo_ok acc tk disc q \<longleftrightarrow> (\<exists>as bs. acc = as @ disc @ bs \<and> tk @ q = as @ bs)"

lemma fifo_ok_push: "fifo_ok acc tk disc q \<Longrightarrow> fifo_ok (acc @ [t]) tk disc (q @ [t])"
  unfolding fifo_ok_def by (metis append.assoc)

lemma fifo_ok_take: "fifo_ok acc tk disc (t # q) \<Longrightarrow> fifo_ok acc (tk @ [t]) disc q"
  by (simp add: fifo_ok_def)

lemma fifo_ok_clear: "fifo_ok acc tk [] q \<Longrightarrow> fifo_ok acc tk q []"
  unfolding fifo_ok_def by (intro exI [of _ tk] exI [of _ "[]"]) auto

abbreviation fifo_inv :: "'t pool \<Rightarrow> bool" where
  "fifo_inv s \<equiv> fifo_ok (accepted s) (taken s) (discarded s) (task_queue s)"

lemma fifo_step:
  assumes "stops_inv s" "fifo_inv s" "pool_step a s = Some s'"
  shows "fifo_inv s'"
proof (cases a)
  case (WorkerMoves i k)
  then show ?thesis using assms(2,3)
    by (cases "workers s ! i") (auto simp: fifo_ok_take split: if_splits list.splits dest!: notify_cases)
next
  case (SubmitMoves j k)
  then show ?thesis using assms(2,3)
    by (cases "submits s ! j") (auto simp: fifo_ok_push split: if_splits dest!: notify_cases)
next
  case (StopMoves j)
  have "j < length (stops s) \<Longrightarrow> stops s ! j = StopClear \<Longrightarrow> discarded s = []" using assms(1) by (metis nth_mem stops_ok_def)
  then show ?thesis using StopMoves assms(2,3)
    by (cases "stops s ! j") (auto simp: fifo_ok_clear split: if_splits)
qed (use assms in \<open>auto split: if_splits\<close>)

section \<open>Wake-ups\<close>

text \<open>
  Once \<open>stop_immediately\<close> has emptied the queue no worker is about to wait, and after its notification none
  waits: the mutex it took meanwhile lets no worker be between its test and its wait.
\<close>

definition wake_ok :: "'t worker_pc list \<Rightarrow> stop_pc list \<Rightarrow> bool" where
  "wake_ok ws cs \<longleftrightarrow>
     (StopNotifyEmpty True \<in> set cs \<longrightarrow> WBlock \<notin> set ws) \<and>
     (StopNotifyFull True \<in> set cs \<or> StopJoin True \<in> set cs \<longrightarrow> WBlock \<notin> set ws \<and> WWait \<notin> set ws)"

lemma set_update_cases: "x \<in> set (xs[i := y]) \<Longrightarrow> x = y \<or> x \<in> set xs"
  by (auto dest: set_update_subset_insert [THEN subsetD])

lemma wake_ok_worker: "wake_ok ws cs \<Longrightarrow> w \<noteq> WBlock \<Longrightarrow> w \<noteq> WWait \<or> WBlock \<in> set ws \<Longrightarrow> wake_ok (ws[i := w]) cs"
  by (auto simp: wake_ok_def dest!: set_update_cases)

lemma wake_ok_no_stop: "stops_ok cs False disc \<Longrightarrow> wake_ok ws cs"
  by (force simp: stops_ok_def wake_ok_def)

lemma wake_ok_notified: "WBlock \<notin> set ws \<Longrightarrow> wake_ok (map wake_worker ws) cs"
proof -
  assume "WBlock \<notin> set ws"
  then have "wake_worker w \<noteq> WBlock \<and> wake_worker w \<noteq> WWait" if "w \<in> set ws" for w using that by (cases w) auto
  then show ?thesis by (force simp: wake_ok_def)
qed

lemma wake_ok_stop:
  "wake_ok ws cs \<Longrightarrow> (case c of StopNotifyEmpty True \<Rightarrow> WBlock \<notin> set ws | StopNotifyFull True \<Rightarrow> False | StopJoin True \<Rightarrow> StopNotifyFull True \<in> set cs | _ \<Rightarrow> True) \<Longrightarrow>
     wake_ok ws (cs[j := c])"
  by (auto simp: wake_ok_def dest!: set_update_cases)

lemma wake_worker_id: "WWait \<notin> set ws \<Longrightarrow> map wake_worker ws = ws"
proof (induction ws)
  case (Cons w ws)
  then show ?case by (cases w) auto
qed simp

abbreviation wake_inv :: "'t pool \<Rightarrow> bool" where
  "wake_inv s \<equiv> wake_ok (workers s) (stops s)"

lemma wake_ok_map: "wake_ok ws cs \<Longrightarrow> wake_ok (map wake_worker ws) cs"
proof -
  have "wake_worker w = WBlock \<Longrightarrow> w = WBlock" "wake_worker w \<noteq> WWait" for w :: "'a worker_pc" by (cases w; simp)+
  then show "wake_ok ws cs \<Longrightarrow> wake_ok (map wake_worker ws) cs" unfolding wake_ok_def by (metis (no_types, lifting) imageE list.set_map)
qed

lemma mutex_ok_free_worker: "mutex_ok None ws ps \<Longrightarrow> WBlock \<notin> set ws"
  by (fastforce simp: mutex_ok_def in_set_conv_nth)

lemma wake_step:
  assumes "mutex_inv s" "stops_inv s" "wake_inv s" "pool_step a s = Some s'"
  shows "wake_inv s'"
proof (cases a)
  case (WorkerMoves i k)
  have "i < length (workers s) \<Longrightarrow> workers s ! i = WBlock \<Longrightarrow> WBlock \<in> set (workers s)" by (metis nth_mem)
  then show ?thesis using WorkerMoves assms(3,4) wake_ok_no_stop [of "stops s" "discarded s"] assms(2)
    by (cases "workers s ! i") (auto simp: wake_ok_worker split: if_splits list.splits dest!: notify_cases)
next
  case (SubmitMoves j k)
  then show ?thesis using assms(3,4)
    by (cases "submits s ! j") (auto simp: wake_ok_worker split: if_splits dest!: notify_cases)
next
  case (StopMoves j)
  have in_stops: "j < length (stops s) \<Longrightarrow> stops s ! j \<in> set (stops s)" by simp
  show ?thesis
  proof (cases "stops s ! j")
    case (StopNotifyEmpty im)
    have "im \<Longrightarrow> j < length (stops s) \<Longrightarrow> WBlock \<notin> set (workers s)" using assms(3) in_stops StopNotifyEmpty by (auto simp: wake_ok_def)
    then show ?thesis using StopMoves StopNotifyEmpty assms(3,4)
      by (cases im) (auto simp: wake_ok_notified wake_ok_stop wake_ok_map split: if_splits)
  next
    case (StopNotifyFull im)
    then show ?thesis using StopMoves assms(3,4) in_stops by (cases im) (auto simp: wake_ok_stop split: if_splits)
  qed (use StopMoves assms in_stops mutex_ok_free_worker [of "workers s" "submits s"] in
        \<open>auto simp: wake_ok_stop split: if_splits bool.splits\<close>)
next
  case (SpuriousWake i)
  then show ?thesis using assms(3,4) by (auto simp: wake_ok_worker split: if_splits)
next
  case (SpuriousSubmit j)
  then show ?thesis using assms(3,4) by (auto split: if_splits)
qed

section \<open>What becomes of the tasks\<close>

fun worker_task :: "'t worker_pc \<Rightarrow> 't multiset" where
  "worker_task (WNotify t) = {#t#}"
| "worker_task (WStart t) = {#t#}"
| "worker_task (WRun t) = {#t#}"
| "worker_task _ = {#}"

fun worker_active :: "'t worker_pc \<Rightarrow> nat" where
  "worker_active (WRun t) = 1"
| "worker_active _ = 0"

definition run_ok :: "'t list \<Rightarrow> 't list \<Rightarrow> u32 \<Rightarrow> 't worker_pc list \<Rightarrow> bool" where
  "run_ok tk fin act ws \<longleftrightarrow>
     mset tk = mset fin + (\<Sum>w\<in>#mset ws. worker_task w) \<and> act = word_of_nat (\<Sum>w\<in>#mset ws. worker_active w)"

lemma mset_at: "i < length ws \<Longrightarrow> \<exists>M. mset ws = add_mset (ws ! i) M \<and> (\<forall>w. mset (ws[i := w]) = add_mset w M)"
  by (intro exI [of _ "mset ws - {#ws ! i#}"]) (simp add: mset_update)

lemma run_ok_update:
  assumes "run_ok tk fin act ws" "i < length ws" "mset tk' + mset fin + worker_task (ws ! i) = mset tk + mset fin' + worker_task w"
    "act' + word_of_nat (worker_active (ws ! i)) = act + word_of_nat (worker_active w)"
  shows "run_ok tk' fin' act' (ws[i := w])"
proof -
  obtain M where M: "mset ws = add_mset (ws ! i) M" "mset (ws[i := w]) = add_mset w M" using mset_at [OF assms(2)] by blast
  have "mset tk' = mset fin' + (worker_task w + (\<Sum>w\<in>#M. worker_task w))"
    using assms(1,3) M(1) by (simp add: run_ok_def)
  moreover have "act' = word_of_nat (worker_active w + (\<Sum>w\<in>#M. worker_active w))"
    using assms(1,4) M(1) by (simp add: run_ok_def algebra_simps)
  ultimately show ?thesis using M(2) by (simp add: run_ok_def)
qed

lemma run_ok_wake: "run_ok tk fin act ws \<Longrightarrow> run_ok tk fin act (map wake_worker ws)"
proof -
  have "worker_task (wake_worker w) = worker_task w" "worker_active (wake_worker w) = worker_active w" for w :: "'a worker_pc"
    by (cases w; simp)+
  then show "run_ok tk fin act ws \<Longrightarrow> run_ok tk fin act (map wake_worker ws)" by (simp add: run_ok_def multiset.map_comp comp_def)
qed

abbreviation run_inv :: "'t pool \<Rightarrow> bool" where
  "run_inv s \<equiv> run_ok (taken s) (finished s) (active_threads s) (workers s)"

lemma run_step:
  assumes "run_inv s" "pool_step a s = Some s'"
  shows "run_inv s'"
proof (cases a)
  case (WorkerMoves i k)
  then show ?thesis using assms
    by (cases "workers s ! i") (auto simp: run_ok_update split: if_splits list.splits dest!: notify_cases)
next
  case (SubmitMoves j k)
  then show ?thesis using assms by (cases "submits s ! j") (auto simp: run_ok_update split: if_splits dest!: notify_cases)
next
  case (StopMoves j)
  then show ?thesis using assms by (cases "stops s ! j") (auto simp: run_ok_wake split: if_splits)
qed (use assms in \<open>auto simp: run_ok_update split: if_splits\<close>)

section \<open>Workers that have exited\<close>

definition exit_ok :: "'t worker_pc list \<Rightarrow> bool \<Rightarrow> 't list \<Rightarrow> 't list \<Rightarrow> 't list \<Rightarrow> 't list \<Rightarrow> bool" where
  "exit_ok ws stop before acc tk disc \<longleftrightarrow>
     prefix before acc \<and> (WExited \<in> set ws \<longrightarrow> stop \<and> (disc = [] \<longrightarrow> prefix before tk))"

lemma exit_ok_worker: "exit_ok ws stop before acc tk disc \<Longrightarrow> w \<noteq> WExited \<Longrightarrow> exit_ok (ws[i := w]) stop before acc tk disc"
  by (auto simp: exit_ok_def dest!: set_update_cases)

lemma exit_ok_task:
  "exit_ok ws stop before acc tk disc \<Longrightarrow> exit_ok ws stop before (acc @ [t]) tk disc"
  "exit_ok ws stop before acc tk disc \<Longrightarrow> exit_ok ws stop before acc (tk @ [t]) disc"
  "exit_ok ws stop before acc tk disc \<Longrightarrow> exit_ok ws stop before acc tk (disc @ q)"
  by (auto simp: exit_ok_def)

lemma exit_ok_exit: "exit_ok ws True before acc tk disc \<Longrightarrow> fifo_ok acc tk disc [] \<Longrightarrow> exit_ok (ws[i := WExited]) True before acc tk disc"
  by (auto simp: exit_ok_def fifo_ok_def)

lemma exit_ok_stop: "exit_ok ws False before acc tk disc \<Longrightarrow> exit_ok ws True acc acc tk disc"
  by (auto simp: exit_ok_def)

lemma exit_ok_wake: "exit_ok ws stop before acc tk disc \<Longrightarrow> exit_ok (map wake_worker ws) stop before acc tk disc"
proof -
  have "wake_worker w = WExited \<Longrightarrow> w = WExited" for w :: "'a worker_pc" by (cases w; simp)
  then show "exit_ok ws stop before acc tk disc \<Longrightarrow> exit_ok (map wake_worker ws) stop before acc tk disc"
    unfolding exit_ok_def by (metis (no_types, lifting) imageE list.set_map)
qed

abbreviation exit_inv :: "'t pool \<Rightarrow> bool" where
  "exit_inv s \<equiv> exit_ok (workers s) (stop_flag s) (before_stop s) (accepted s) (taken s) (discarded s)"

lemma exit_step:
  assumes "fifo_inv s" "exit_inv s" "pool_step a s = Some s'"
  shows "exit_inv s'"
proof (cases a)
  case (WorkerMoves i k)
  then show ?thesis using assms
    by (cases "workers s ! i") (auto simp: exit_ok_worker exit_ok_task exit_ok_exit split: if_splits list.splits dest!: notify_cases)
next
  case (SubmitMoves j k)
  then show ?thesis using assms(2,3)
    by (cases "submits s ! j") (auto simp: exit_ok_worker exit_ok_task split: if_splits dest!: notify_cases)
next
  case (StopMoves j)
  then show ?thesis using assms(2,3)
    by (cases "stops s ! j") (auto simp: exit_ok_wake exit_ok_task exit_ok_stop split: if_splits)
qed (use assms in \<open>auto simp: exit_ok_worker split: if_splits\<close>)

section \<open>Reachable states\<close>

definition pool_inv :: "'t pool \<Rightarrow> bool" where
  "pool_inv s \<longleftrightarrow> mutex_inv s \<and> room_inv s \<and> stops_inv s \<and> fifo_inv s \<and> wake_inv s \<and> run_inv s \<and> exit_inv s"

lemma pool_inv_new: "pool_inv (pool_new config ts ims)"
proof -
  have "in_set": "w = WLock" if "w \<in> set (workers (pool_new config ts ims))" for w
    using that by (auto simp: pool_new_def)
  have "sum_mset (image_mset worker_task (mset (replicate n (WLock :: 'a worker_pc)))) = {#}"
    "sum_mset (image_mset worker_active (mset (replicate n (WLock :: 'a worker_pc)))) = 0" for n
    by (induction n) simp_all
  then show ?thesis
    by (auto simp: pool_inv_def pool_new_def mutex_ok_def room_ok_def stops_ok_def fifo_ok_def wake_ok_def run_ok_def exit_ok_def)
qed

lemma pool_inv_step: "pool_inv s \<Longrightarrow> pool_step a s = Some s' \<Longrightarrow> pool_inv s'"
  unfolding pool_inv_def by (intro conjI; elim conjE; rule mutex_step room_step stops_step fifo_step wake_step run_step exit_step; assumption)

lemma pool_reach_inv: "pool_reach (pool_new config ts ims) s \<Longrightarrow> pool_inv s"
  by (induction rule: pool_reach.induct) (auto intro: pool_inv_new pool_inv_step)

lemma schedule_reach: "pool_reach s0 s \<Longrightarrow> schedule as s = Some s' \<Longrightarrow> pool_reach s0 s'"
  by (induction as arbitrary: s) (auto simp: bind_eq_Some_conv intro: reach_step)

lemma pool_inv_schedule: "pool_inv s \<Longrightarrow> schedule as s = Some s' \<Longrightarrow> pool_inv s'"
  by (induction as arbitrary: s) (auto simp: bind_eq_Some_conv intro: pool_inv_step)

lemma step_keeps_config: "pool_step a s = Some s' \<Longrightarrow> max_queue_size s' = max_queue_size s \<and> length (workers s') = length (workers s)"
proof (cases a)
  case (WorkerMoves i k)
  then show "pool_step a s = Some s' \<Longrightarrow> ?thesis"
    by (cases "workers s ! i") (auto split: if_splits list.splits dest!: notify_cases)
next
  case (SubmitMoves j k)
  then show "pool_step a s = Some s' \<Longrightarrow> ?thesis" by (cases "submits s ! j") (auto split: if_splits dest!: notify_cases)
next
  case (StopMoves j)
  then show "pool_step a s = Some s' \<Longrightarrow> ?thesis" by (cases "stops s ! j") (auto split: if_splits)
qed (auto split: if_splits)

lemma reach_keeps_config: "pool_reach s0 s \<Longrightarrow> max_queue_size s = max_queue_size s0 \<and> length (workers s) = length (workers s0)"
  by (induction rule: pool_reach.induct) (auto dest: step_keeps_config)

section \<open>After the flag is set, little is left to do\<close>

fun worker_work :: "'t worker_pc \<Rightarrow> nat" where
  "worker_work (WNotify t) = 9" | "worker_work WBlock = 8" | "worker_work (WStart t) = 8" | "worker_work WWait = 7"
| "worker_work (WRun t) = 7" | "worker_work WLock = 6" | "worker_work WTest = 5" | "worker_work WTake = 4" | "worker_work WExited = 0"

fun submit_work :: "'t submit_pc \<Rightarrow> nat" where
  "submit_work (SubCheck t) = 31" | "submit_work (SubBlock t) = 31" | "submit_work (SubLock t) = 30" | "submit_work (SubWait t) = 30"
| "submit_work (SubFull t) = 29" | "submit_work (SubRelock t) = 29" | "submit_work (SubTimeout t) = 29" | "submit_work (SubTest t) = 28"
| "submit_work (SubResult t r) = 27" | "submit_work (SubPush t) = 26" | "submit_work (SubNotify t) = 5" | "submit_work (SubReturn t r) = 0"

fun stop_work :: "stop_pc \<Rightarrow> nat" where
  "stop_work (StopCas i) = 5" | "stop_work StopClear = 4" | "stop_work (StopNotifyEmpty i) = 3" | "stop_work (StopNotifyFull i) = 2"
| "stop_work (StopJoin i) = 1" | "stop_work StopReturn = 0"

definition work :: "'t pool \<Rightarrow> nat" where
  "work s = sum_list (map worker_work (workers s)) + sum_list (map submit_work (submits s)) + sum_list (map stop_work (stops s)) +
     10 * length (task_queue s)"

fun notified :: "action \<Rightarrow> bool" where
  "notified (SpuriousWake i) = False"
| "notified (SpuriousSubmit j) = False"
| "notified a = True"

lemma sum_list_at:
  fixes f :: "'b \<Rightarrow> nat"
  assumes "i < length xs"
  shows "\<exists>m. sum_list (map f xs) = f (xs ! i) + m \<and> (\<forall>x. sum_list (map f (xs[i := x])) = f x + m)"
proof (intro exI conjI allI)
  show "sum_list (map f xs) = f (xs ! i) + sum_list (map f (take i xs @ drop (Suc i) xs))"
    by (subst (1) id_take_nth_drop [OF assms]) simp
  show "\<And>x. sum_list (map f (xs[i := x])) = f x + sum_list (map f (take i xs @ drop (Suc i) xs))"
    using assms by (simp add: upd_conv_take_nth_drop)
qed

lemma work_wake:
  "sum_list (map worker_work (map wake_worker ws)) \<le> sum_list (map worker_work ws)"
  "sum_list (map submit_work (map wake_submit ps)) \<le> sum_list (map submit_work ps)"
proof -
  have "worker_work (wake_worker w) \<le> worker_work w" "submit_work (wake_submit p) \<le> submit_work p"
    for w :: "'a worker_pc" and p :: "'b submit_pc" by (cases w; simp) (cases p; simp)
  then show "sum_list (map worker_work (map wake_worker ws)) \<le> sum_list (map worker_work ws)"
    "sum_list (map submit_work (map wake_submit ps)) \<le> sum_list (map submit_work ps)"
    by (simp_all add: sum_list_mono)
qed

lemma work_of_worker:
  assumes "i < length ws" "worker_work w < worker_work (ws ! i)"
  shows "sum_list (map worker_work (ws[i := w])) < sum_list (map worker_work ws)"
  using sum_list_at [OF assms(1), of worker_work] assms(2) by auto

lemma work_of_submit:
  assumes "j < length ps" "submit_work p < submit_work (ps ! j)"
  shows "sum_list (map submit_work (ps[j := p])) < sum_list (map submit_work ps)"
  using sum_list_at [OF assms(1), of submit_work] assms(2) by auto

lemma work_of_notify:
  "notify_not_empty k s = Some s' \<Longrightarrow> work s' \<le> work s \<and> submits s' = submits s"
  "notify_not_full k s = Some s' \<Longrightarrow> work s' \<le> work s \<and> workers s' = workers s"
  using work_of_worker [of k "workers s" WLock] work_of_submit [of k "submits s"]
  by (auto simp: work_def dest!: notify_cases intro: less_imp_le)

lemma work_worker:
  assumes "stop_flag s" "pool_step (WorkerMoves i k) s = Some s'"
  shows "work s' < work s"
proof -
  have i: "i < length (workers s)" using assms(2) by (simp split: if_splits)
  obtain m where m: "sum_list (map worker_work (workers s)) = worker_work (workers s ! i) + m"
    "\<And>x. sum_list (map worker_work ((workers s)[i := x])) = worker_work x + m" using sum_list_at [OF i, of worker_work] by blast
  show ?thesis
  proof (cases "workers s ! i")
    case (WNotify t)
    then obtain s1 where s1: "notify_not_full k s = Some s1" "s' = at_worker i (WStart t) s1" using assms(2) i by auto
    have "work (at_worker i (WStart t) s1) < work s1"
      using work_of_worker [of i "workers s1" "WStart t"] work_of_notify(2) [OF s1(1)] i WNotify by (simp add: work_def)
    then show ?thesis using s1(2) work_of_notify(2) [OF s1(1)] by simp
  qed (use assms i m in \<open>auto simp: work_def split: if_splits list.splits\<close>)
qed

lemma work_submit:
  assumes "stop_flag s" "pool_step (SubmitMoves j k) s = Some s'"
  shows "work s' < work s"
proof -
  have j: "j < length (submits s)" using assms(2) by (simp split: if_splits)
  obtain m where m: "sum_list (map submit_work (submits s)) = submit_work (submits s ! j) + m"
    "\<And>x. sum_list (map submit_work ((submits s)[j := x])) = submit_work x + m" using sum_list_at [OF j, of submit_work] by blast
  show ?thesis
  proof (cases "submits s ! j")
    case (SubNotify t)
    then obtain s1 where s1: "notify_not_empty k s = Some s1" "s' = at_submit j (SubReturn t True) s1" using assms(2) j by auto
    have "work (at_submit j (SubReturn t True) s1) < work s1"
      using work_of_submit [of j "submits s1" "SubReturn t True"] work_of_notify(1) [OF s1(1)] j SubNotify by (simp add: work_def)
    then show ?thesis using s1(2) work_of_notify(1) [OF s1(1)] by simp
  qed (use assms j m in \<open>auto simp: work_def split: if_splits\<close>)
qed

lemma work_stop:
  assumes "stop_flag s" "pool_step (StopMoves j) s = Some s'"
  shows "work s' < work s"
proof -
  have j: "j < length (stops s)" using assms(2) by (simp split: if_splits)
  obtain m where m: "sum_list (map stop_work (stops s)) = stop_work (stops s ! j) + m"
    "\<And>x. sum_list (map stop_work ((stops s)[j := x])) = stop_work x + m" using sum_list_at [OF j, of stop_work] by blast
  show ?thesis using assms j m work_wake(1) [of "workers s"] work_wake(2) [of "submits s"]
    by (cases "stops s ! j") (auto simp: work_def split: if_splits)
qed

lemma work_step: "stop_flag s \<Longrightarrow> notified a \<Longrightarrow> pool_step a s = Some s' \<Longrightarrow> work s' < work s"
  by (cases a) (auto simp del: pool_step.simps intro: work_worker work_submit work_stop)

section \<open>Somebody can move\<close>

definition stuck :: "'t pool \<Rightarrow> bool" where
  "stuck s \<longleftrightarrow> (\<forall>a. notified a \<longrightarrow> pool_step a s = None)"

lemma stuck_worker: "stuck s \<Longrightarrow> i < length (workers s) \<Longrightarrow> worker_thread i k (workers s ! i) s = None"
  unfolding stuck_def by (metis notified.simps(3) pool_step.simps(1))

lemma stuck_submit: "stuck s \<Longrightarrow> j < length (submits s) \<Longrightarrow> submit j k (submits s ! j) s = None"
  unfolding stuck_def by (metis notified.simps(4) pool_step.simps(2))

lemma stuck_stop: "stuck s \<Longrightarrow> j < length (stops s) \<Longrightarrow> shutdown j (stops s ! j) s = None"
  unfolding stuck_def by (metis notified.simps(5) pool_step.simps(3))

lemma notify_not_full_some: "\<exists>k. notify_not_full k s \<noteq> None"
  by (auto simp: notify_not_full_def list_ex_iff in_set_conv_nth)

lemma stuck_mutex_free:
  assumes "mutex_inv s" "stuck s"
  shows "mutex s = None"
proof (cases "mutex s")
  case (Some t)
  show ?thesis
  proof (cases t)
    case (Worker_Thread i)
    then have "i < length (workers s)" "worker_holds (workers s ! i)" using Some assms(1) by (auto simp: mutex_ok_def)
    then show ?thesis using stuck_worker [OF assms(2), of i] by (cases "workers s ! i") (auto split: list.splits if_splits)
  next
    case (Submit_Thread j)
    then have "j < length (submits s)" "submit_holds (submits s ! j)" using Some assms(1) by (auto simp: mutex_ok_def)
    then show ?thesis using stuck_submit [OF assms(2), of j] by (cases "submits s ! j") (auto split: if_splits)
  qed
qed simp

lemma stuck_worker_waits:
  assumes "mutex_inv s" "stuck s" "w \<in> set (workers s)"
  shows "w = WWait \<or> w = WExited"
proof -
  obtain i where i: "i < length (workers s)" "workers s ! i = w" using assms(3) by (auto simp: in_set_conv_nth)
  have "worker_thread i k w s = None" for k using stuck_worker [OF assms(2) i(1)] i(2) by simp
  then show ?thesis using stuck_mutex_free [OF assms(1,2)] notify_not_full_some [of s]
    by (cases w) (auto split: list.splits if_splits)
qed

fun stopping_immediately :: "stop_pc \<Rightarrow> bool" where
  "stopping_immediately StopClear = True"
| "stopping_immediately (StopNotifyEmpty b) = b"
| "stopping_immediately (StopNotifyFull b) = b"
| "stopping_immediately (StopJoin b) = b"
| "stopping_immediately _ = False"

lemma immediate_not_stuck:
  assumes "pool_inv s" "j < length (stops s)" "stopping_immediately (stops s ! j)"
  shows "\<not> stuck s"
proof
  assume st: "stuck s"
  have in_stops: "stops s ! j \<in> set (stops s)" using assms(2) by simp
  have join: "stops s ! j = StopJoin True"
    using stuck_stop [OF st assms(2)] assms(3) stuck_mutex_free [OF _ st] assms(1) by (cases "stops s ! j") (auto simp: pool_inv_def)
  then have "WWait \<notin> set (workers s)" using assms(1) in_stops by (auto simp: pool_inv_def wake_ok_def)
  then have "list_all (\<lambda>w. w = WExited) (workers s)"
    using stuck_worker_waits [OF _ st] assms(1) by (auto simp: pool_inv_def list_all_iff)
  then show False using stuck_stop [OF st assms(2)] join by simp
qed

text \<open>How a call of \<open>stop_immediately\<close> goes on: it is under way, or has returned and all workers are gone.\<close>

definition stop_call :: "nat \<Rightarrow> 't pool \<Rightarrow> bool" where
  "stop_call j s \<longleftrightarrow> stop_flag s \<and> j < length (stops s) \<and>
     (stopping_immediately (stops s ! j) \<or> stops s ! j = StopReturn \<and> list_all (\<lambda>w. w = WExited) (workers s))"

lemma stop_call_step:
  assumes "stop_call j s" "pool_step a s = Some s'"
  shows "stop_call j s'"
proof (cases a)
  case (WorkerMoves i k)
  then show ?thesis using assms
    by (cases "workers s ! i") (auto simp: stop_call_def list_all_length nth_list_update split: if_splits list.splits dest!: notify_cases)
next
  case (SubmitMoves i k)
  then show ?thesis using assms
    by (cases "submits s ! i") (auto simp: stop_call_def list_all_length nth_list_update split: if_splits dest!: notify_cases)
next
  case (StopMoves i)
  then show ?thesis using assms
    by (cases "stops s ! i") (auto simp: stop_call_def list_all_length nth_list_update split: if_splits)
qed (use assms in \<open>auto simp: stop_call_def list_all_length nth_list_update split: if_splits\<close>)

lemma stop_call_schedule:
  "stop_call j s \<Longrightarrow> list_all notified as \<Longrightarrow> schedule as s = Some s' \<Longrightarrow> stop_call j s' \<and> length as + work s' \<le> work s"
proof (induction as arbitrary: s)
  case (Cons a as)
  obtain s1 where s1: "pool_step a s = Some s1" "schedule as s1 = Some s'" using Cons.prems(3) by (auto simp: bind_eq_Some_conv)
  have "work s1 < work s" using work_step [OF _ _ s1(1)] Cons.prems by (simp add: stop_call_def)
  moreover have "stop_call j s' \<and> length as + work s' \<le> work s1"
    using Cons.IH [OF stop_call_step [OF Cons.prems(1) s1(1)] _ s1(2)] Cons.prems(2) by simp
  ultimately show ?case by simp
qed simp

section \<open>Properties\<close>

text \<open>
  C14: Whatever the schedule, the queue never holds more tasks than its bound, and it is first in, first out: the
  tasks taken by workers and those still in the queue are, in that order, the tasks accepted by \<open>submit\<close> less the
  block that \<open>stop_immediately\<close> threw away; the tasks taken have run or are in the hands of a worker, each once.
\<close>

theorem pool_bounded_fifo:
  assumes "pool_reach (pool_new config ts immediates) s"
  shows "length (task_queue s) \<le> unat (queue_size config) \<and>
    (\<exists>as bs. accepted s = as @ discarded s @ bs \<and> taken s @ task_queue s = as @ bs) \<and>
    mset (taken s) = mset (finished s) + (\<Sum>w\<in>#mset (workers s). worker_task w)"
  using pool_reach_inv [OF assms] reach_keeps_config [OF assms]
  by (auto simp: pool_inv_def room_ok_def fifo_ok_def run_ok_def pool_new_def)

text \<open>
  C13: \<open>stop_immediately\<close> ends: once a call of it has set the flag, every schedule has at most \<open>work\<close> more steps,
  and where no thread can move any further the call has returned and all workers have exited. No worker is
  left asleep, spurious wake-ups are not needed.
\<close>

theorem stop_immediately_ends:
  assumes "pool_reach (pool_new config ts immediates) s" "j < length (stops s)" "stopping_immediately (stops s ! j)"
    "schedule as s = Some s'" "list_all notified as"
  shows "length as \<le> work s \<and> (stuck s' \<longrightarrow> stops s' ! j = StopReturn \<and> list_all (\<lambda>w. w = WExited) (workers s'))"
proof -
  have inv: "pool_inv s" "pool_inv s'" using pool_reach_inv [OF assms(1)] pool_inv_schedule [OF _ assms(4)] by blast+
  have "stopping (stops s ! j)" using assms(3) by (cases "stops s ! j") auto
  then have "stop_flag s" using inv(1) assms(2) by (auto simp: pool_inv_def stops_ok_def)
  then have "stop_call j s" using assms(2,3) by (simp add: stop_call_def)
  then have "stop_call j s'" "length as + work s' \<le> work s" using stop_call_schedule [OF _ assms(5,4)] by blast+
  then show ?thesis using immediate_not_stuck [OF inv(2), of j] by (auto simp: stop_call_def)
qed

text \<open>
  C28: A graceful stop loses no task that was accepted in time: once all workers have exited, and no task was
  thrown away, the tasks that had been accepted when the flag was set have been taken in order, and every
  task taken has run.
\<close>

theorem graceful_stop_runs_tasks:
  assumes "pool_reach (pool_new config ts immediates) s" "0 < thread_count config" "list_all (\<lambda>w. w = WExited) (workers s)" "discarded s = []"
  shows "prefix (before_stop s) (taken s) \<and> mset (finished s) = mset (taken s)"
proof -
  have "length (workers s) = unat (thread_count config)" using reach_keeps_config [OF assms(1)] by (simp add: pool_new_def)
  then have "workers s \<noteq> []" using assms(2) by (auto simp: word_less_nat_alt)
  then have "WExited \<in> set (workers s)" using assms(3) by (cases "workers s") auto
  moreover have "(\<Sum>w\<in>#mset (workers s). worker_task w) = {#}" using assms(3) by (induction "workers s") (auto simp: list_all_iff)
  ultimately show ?thesis using pool_reach_inv [OF assms(1)] assms(4) by (simp add: pool_inv_def exit_ok_def run_ok_def)
qed

text \<open>
  C40: A graceful stop can hang: the flag is set and the workers are notified without the mutex, so a worker that
  has found the queue empty and the flag not set, but does not yet wait, misses the notification. It sleeps for
  ever and \<open>stop\<close> waits for it for ever: no thread can move.
\<close>

theorem graceful_stop_can_hang:
  "\<exists>s. pool_reach (pool_new \<lparr>thread_count = 1, queue_size = 10, wait_timeout_ms = 1000\<rparr> [] [False] :: 't pool) s \<and>
     stops s = [StopJoin False] \<and> workers s = [WWait] \<and> stuck s"
proof -
  let ?s0 = "pool_new \<lparr>thread_count = 1, queue_size = 10, wait_timeout_ms = 1000\<rparr> [] [False] :: 't pool"
  let ?as = "[WorkerMoves 0 0, WorkerMoves 0 0, StopMoves 0, StopMoves 0, StopMoves 0, WorkerMoves 0 0]"
  obtain s where s: "schedule ?as ?s0 = Some s" "workers s = [WWait]" "submits s = []" "stops s = [StopJoin False]"
    by (simp add: pool_new_def)
  have "pool_step a s = None" if "notified a" for a using that s by (cases a) auto
  then show ?thesis using s schedule_reach [OF reach_start s(1)] by (auto simp: stuck_def)
qed

text \<open>
  A task can be accepted and never run: a call of \<open>submit\<close> reads the flag before \<open>stop\<close> sets it and puts its task
  into the queue when the workers have gone. Its caller is told that the task was accepted.
\<close>

lemma accepted_task_never_runs:
  "\<exists>s. pool_reach (pool_new \<lparr>thread_count = 1, queue_size = 10, wait_timeout_ms = 1000\<rparr> [t] [False]) s \<and>
     submits s = [SubReturn t True] \<and> stops s = [StopReturn] \<and> workers s = [WExited] \<and> task_queue s = [t] \<and> stuck s"
proof -
  let ?s0 = "pool_new \<lparr>thread_count = 1, queue_size = 10, wait_timeout_ms = 1000\<rparr> [t] [False]"
  let ?as = "[SubmitMoves 0 0, StopMoves 0, StopMoves 0, StopMoves 0, WorkerMoves 0 0, WorkerMoves 0 0, WorkerMoves 0 0, StopMoves 0,
    SubmitMoves 0 0, SubmitMoves 0 0, SubmitMoves 0 0, SubmitMoves 0 0]"
  obtain s where s: "schedule ?as ?s0 = Some s" "workers s = [WExited]" "submits s = [SubReturn t True]" "stops s = [StopReturn]" "task_queue s = [t]"
    by (simp add: pool_new_def has_room_def notify_not_empty_def)
  have "pool_step a s = None" if "notified a" for a using that s by (cases a) auto
  then show ?thesis using s schedule_reach [OF reach_start s(1)] by (auto simp: stuck_def)
qed

section \<open>Witnesses\<close>

definition pool_example :: "nat pool" where
  "pool_example = pool_new \<lparr>thread_count = 1, queue_size = 1, wait_timeout_ms = 1000\<rparr> [5] [True]"

theorem pool_bounded_fifo_witness:
  "\<exists>s. schedule (replicate 5 (SubmitMoves 0 0) @ replicate 3 (WorkerMoves 0 0)) pool_example = Some s \<and>
    accepted s = [5] \<and> length (task_queue s) \<le> 1 \<and> (\<exists>as bs. accepted s = as @ discarded s @ bs \<and> taken s @ task_queue s = as @ bs)"
proof -
  obtain s where s: "schedule (replicate 5 (SubmitMoves 0 0) @ replicate 3 (WorkerMoves 0 0)) pool_example = Some s" "accepted s = [5]"
    by (simp add: numeral_eq_Suc pool_example_def pool_new_def has_room_def notify_not_empty_def)
  then show ?thesis
    using pool_bounded_fifo [OF schedule_reach [OF reach_start s(1) [unfolded pool_example_def]]] by auto
qed

theorem stop_immediately_ends_witness:
  "\<exists>s s'. schedule [StopMoves 0] pool_example = Some s \<and>
    schedule [StopMoves 0, StopMoves 0, StopMoves 0, SubmitMoves 0 0, WorkerMoves 0 0, WorkerMoves 0 0, WorkerMoves 0 0, StopMoves 0] s = Some s' \<and>
    stuck s' \<and> stops s' ! 0 = StopReturn \<and> list_all (\<lambda>w. w = WExited) (workers s')"
proof -
  let ?as = "[StopMoves 0, StopMoves 0, StopMoves 0, SubmitMoves 0 0, WorkerMoves 0 0, WorkerMoves 0 0, WorkerMoves 0 0, StopMoves 0]"
  obtain s where s: "schedule [StopMoves 0] pool_example = Some s" "stops s = [StopClear]" "workers s = [WLock]" "submits s = [SubCheck 5]"
    "mutex s = None" "stop_flag s" "task_queue s = []"
    by (simp add: pool_example_def pool_new_def)
  obtain s' where s': "schedule ?as s = Some s'" "workers s' = [WExited]" "submits s' = [SubReturn 5 False]" "stops s' = [StopReturn]"
    using s by simp
  have "pool_step a s' = None" if "notified a" for a using that s' by (cases a) auto
  then have "stuck s'" by (simp add: stuck_def)
  then show ?thesis
    using s s' stop_immediately_ends [OF schedule_reach [OF reach_start s(1) [unfolded pool_example_def]] _ _ s'(1), of 0] by auto
qed

theorem graceful_stop_runs_tasks_witness:
  "\<exists>s. schedule (replicate 5 (SubmitMoves 0 0) @ replicate 3 (StopMoves 0) @ replicate 9 (WorkerMoves 0 0))
      (pool_new \<lparr>thread_count = 1, queue_size = 1, wait_timeout_ms = 1000\<rparr> [5 :: nat] [False]) = Some s \<and>
    before_stop s = [5] \<and> prefix (before_stop s) (taken s) \<and> mset (finished s) = mset (taken s)"
proof -
  obtain s where s: "schedule (replicate 5 (SubmitMoves 0 0) @ replicate 3 (StopMoves 0) @ replicate 9 (WorkerMoves 0 0))
      (pool_new \<lparr>thread_count = 1, queue_size = 1, wait_timeout_ms = 1000\<rparr> [5 :: nat] [False]) = Some s"
    "before_stop s = [5]" "workers s = [WExited]" "discarded s = []"
    by (simp add: numeral_eq_Suc pool_new_def has_room_def notify_not_empty_def notify_not_full_def)
  then show ?thesis using graceful_stop_runs_tasks [OF schedule_reach [OF reach_start s(1)]] by auto
qed

end
