(* ===== verification/SocketServer.thy ===== *)
theory SocketServer
  imports Protocol RaftProtocol
begin

text \<open>
  The TCP layer both servers share (\<open>include/common/socket/cs/server.h\<close>, \<open>cs/common.h\<close>, \<open>cs/client.h\<close>,
  \<open>common/socket/protocol/protocol.h\<close>, \<open>send_data\<close> and \<open>receive_data\<close> of \<open>common/socket/socket.h\<close>): frames with a
  header, sessions with their buffers, the event loops, the limit on connections with its queue, and
  the blocking calls of a client.

  The system calls are scripts: what \<open>recv\<close>, \<open>send\<close> and \<open>accept\<close> return, call by call, and a script that
  has ended would block. \<open>wire\<close> collects the bytes the system took for a socket and \<open>shut\<close> the sockets
  that were closed. The methods the derived classes override, \<open>close_socket\<close>, \<open>handle_request\<close> and
  \<open>on_wait_queue_activated\<close>, are arguments; the record is extended by the derived class. Addresses of
  peers only reach the log here. Operations run one at a time; the code paths are those of Linux.
\<close>

type_synonym fd = int

section \<open>Frames\<close>

definition magic :: u32 where "magic = 0xEA1314"

definition HEADER_SIZE :: nat where "HEADER_SIZE = 9"

definition HEADER_SIZE_LIMIT :: nat where "HEADER_SIZE_LIMIT = 1024 * 1024"

record protocol_header =
  version :: u8
  body_length :: u32

definition ser_header :: "protocol_header \<Rightarrow> bytes" where
  "ser_header h = be32 magic @ byte8 (version h) @ be32 (body_length h)"

definition dec_byte8 :: "u8 decoder" where
  "dec_byte8 data off = rbind (read_bytes data off 1) (\<lambda>b. Inr (of_byte8 b, off + 1))"

definition deserialize_header :: "protocol_header decoder" where
  "deserialize_header data off =
     rbind (dec_u32 data off) (\<lambda>(m, off1).
       if m \<noteq> magic then Inl (RuntimeError ''Invalid magic number'')
       else rbind (dec_byte8 data off1) (\<lambda>(v, off2).
            rbind (dec_u32 data off2) (\<lambda>(l, off3). Inr (\<lparr>version = v, body_length = l\<rparr>, off3))))"

definition build_header :: "nat \<Rightarrow> bytes" where
  "build_header n = ser_header \<lparr>version = 1, body_length = word_of_nat n\<rparr>"

definition framed_body :: "bytes \<Rightarrow> bytes" where
  "framed_body body = build_header (length body) @ body"

section \<open>State\<close>

record tcp_session =
  recv_buffer :: bytes
  send_buffer :: bytes
  slave_index :: nat
  session_start :: nat
  close_after_send :: bool

text \<open>An event loop: the sockets registered with it, and whether it waits for them to become writable.\<close>

type_synonym event_loop = "(fd \<times> bool) list"

record tcp_server =
  max_connections :: u32
  connect_wait_queue_size :: u32
  connect_wait_timeout :: u32
  current_connections :: u32
  all_sessions :: "(fd \<times> tcp_session) list"
  wait_queue :: "(fd \<times> nat) list"
  slave_loops :: "event_loop list"
  next_slave :: u32
  is_running :: bool
  wire :: "fd \<Rightarrow> bytes"
  shut :: "fd list"

datatype send_result = Took nat | SendBlocked | SendFailed

datatype recv_result = Data bytes | RecvBlocked | RecvFailed

datatype accept_result = Accepted fd | AcceptFailed

record tcp_env =
  now_ms :: nat
  add_ok :: "fd \<Rightarrow> bool"
  sends :: "fd \<Rightarrow> send_result list"

section \<open>Event loops and sessions\<close>

definition set_write :: "fd \<Rightarrow> bool \<Rightarrow> event_loop \<Rightarrow> event_loop" where
  "set_write sock enable l = (if sock \<in> fst ` set l then AList.update sock enable l else l)"

definition remove_socket :: "fd \<Rightarrow> event_loop \<Rightarrow> event_loop" where
  "remove_socket sock l = AList.delete sock l"

definition session_new :: "tcp_env \<Rightarrow> nat \<Rightarrow> tcp_session" where
  "session_new env i = \<lparr>recv_buffer = [], send_buffer = [], slave_index = i, session_start = now_ms env, close_after_send = False\<rparr>"

text \<open>The index of the loop is taken modulo their number, which is not 0 once the server has started.\<close>

definition assign_to_slave :: "tcp_env \<Rightarrow> fd \<Rightarrow> 'a tcp_server_scheme \<Rightarrow> bool \<times> 'a tcp_server_scheme" where
  "assign_to_slave env sock s =
     (let i = unat (next_slave s) mod length (slave_loops s);
          s1 = s\<lparr>next_slave := next_slave s + 1\<rparr>
      in if add_ok env sock
         then (True, s1\<lparr>all_sessions := AList.update sock (session_new env i) (all_sessions s1),
                        slave_loops := (slave_loops s1)[i := AList.update sock False (slave_loops s1 ! i)]\<rparr>)
         else (False, s1\<lparr>all_sessions := AList.delete sock (all_sessions s1)\<rparr>))"

definition remove_from_slave :: "fd \<Rightarrow> 'a tcp_server_scheme \<Rightarrow> bool \<times> 'a tcp_server_scheme" where
  "remove_from_slave sock s =
     (case map_of (all_sessions s) sock of
        None \<Rightarrow> (False, s)
      | Some se \<Rightarrow>
          (True, s\<lparr>all_sessions := AList.delete sock (all_sessions s),
                   slave_loops := (slave_loops s)[slave_index se := remove_socket sock (slave_loops s ! slave_index se)]\<rparr>))"

text \<open>\<open>TCPServer::close_socket\<close>: the first connection that waits takes the place of the closed one.\<close>

definition tcp_close_socket ::
  "(fd \<Rightarrow> 'a tcp_server_scheme \<Rightarrow> 'a tcp_server_scheme) \<Rightarrow> tcp_env \<Rightarrow> fd \<Rightarrow> 'a tcp_server_scheme \<Rightarrow> 'a tcp_server_scheme" where
  "tcp_close_socket on_wait_queue_activated env sock s =
     (case remove_from_slave sock s of
        (False, s1) \<Rightarrow> s1
      | (True, s1) \<Rightarrow>
          let s2 = s1\<lparr>shut := shut s1 @ [sock],
                      current_connections := (if 0 < current_connections s1 then current_connections s1 - 1 else current_connections s1)\<rparr>
          in case wait_queue s2 of
               [] \<Rightarrow> s2
             | (w, _) # q \<Rightarrow>
                 (case assign_to_slave env w (s2\<lparr>wait_queue := q\<rparr>) of
                    (False, s3) \<Rightarrow> s3\<lparr>shut := shut s3 @ [w]\<rparr>
                  | (True, s3) \<Rightarrow> on_wait_queue_activated w (s3\<lparr>current_connections := current_connections s3 + 1\<rparr>)))"

section \<open>Sending\<close>

text \<open>The loop around \<open>::send\<close>: whether it ended in an error, what the system took and what is left.\<close>

fun send_loop :: "send_result list \<Rightarrow> bytes \<Rightarrow> bool \<times> bytes \<times> bytes" where
  "send_loop rs [] = (False, [], [])"
| "send_loop [] buf = (False, [], buf)"
| "send_loop (SendBlocked # rs) buf = (False, [], buf)"
| "send_loop (SendFailed # rs) buf = (True, [], buf)"
| "send_loop (Took n # rs) buf =
     (if n = 0 then (False, [], buf)
      else let (failed, taken, left) = send_loop rs (drop n buf) in (failed, take n buf @ taken, left))"

definition upd_session :: "fd \<Rightarrow> (tcp_session \<Rightarrow> tcp_session) \<Rightarrow> 'a tcp_server_scheme \<Rightarrow> 'a tcp_server_scheme" where
  "upd_session sock f s = (case map_of (all_sessions s) sock of
       None \<Rightarrow> s
     | Some se \<Rightarrow> s\<lparr>all_sessions := AList.update sock (f se) (all_sessions s)\<rparr>)"

definition flush_send_buffer ::
  "(fd \<Rightarrow> 'a tcp_server_scheme \<Rightarrow> 'a tcp_server_scheme) \<Rightarrow> tcp_env \<Rightarrow> fd \<Rightarrow> 'a tcp_server_scheme \<Rightarrow> 'a tcp_server_scheme" where
  "flush_send_buffer close_socket env sock s =
     (case map_of (all_sessions s) sock of
        None \<Rightarrow> s
      | Some se \<Rightarrow>
          if send_buffer se = [] then (if close_after_send se then close_socket sock s else s)
          else
            let (failed, taken, left) = send_loop (sends env sock) (send_buffer se);
                s1 = upd_session sock (\<lambda>se. se\<lparr>send_buffer := left\<rparr>) (s\<lparr>wire := (wire s)(sock := wire s sock @ taken)\<rparr>)
            in if failed then s1
               else if left = [] \<and> close_after_send se then close_socket sock s1
               else s1\<lparr>slave_loops := (slave_loops s1)[slave_index se := set_write sock (left \<noteq> []) (slave_loops s1 ! slave_index se)]\<rparr>)"

definition async_send ::
  "(fd \<Rightarrow> 'a tcp_server_scheme \<Rightarrow> 'a tcp_server_scheme) \<Rightarrow> tcp_env \<Rightarrow> fd \<Rightarrow> bytes \<Rightarrow> 'a tcp_server_scheme \<Rightarrow> 'a tcp_server_scheme" where
  "async_send close_socket env sock data s =
     (case map_of (all_sessions s) sock of
        None \<Rightarrow> s
      | Some _ \<Rightarrow> flush_send_buffer close_socket env sock (upd_session sock (\<lambda>se. se\<lparr>send_buffer := send_buffer se @ data\<rparr>) s))"

definition tcp_send_and_close ::
  "(fd \<Rightarrow> 'a tcp_server_scheme \<Rightarrow> 'a tcp_server_scheme) \<Rightarrow> tcp_env \<Rightarrow> bytes \<Rightarrow> fd \<Rightarrow> 'a tcp_server_scheme \<Rightarrow> 'a tcp_server_scheme" where
  "tcp_send_and_close close_socket env sbody sock s =
     (case map_of (all_sessions s) sock of
        None \<Rightarrow> s
      | Some _ \<Rightarrow> flush_send_buffer close_socket env sock
          (upd_session sock (\<lambda>se. se\<lparr>send_buffer := send_buffer se @ framed_body sbody, close_after_send := True\<rparr>) s))"

definition tcp_send ::
  "(fd \<Rightarrow> 'a tcp_server_scheme \<Rightarrow> 'a tcp_server_scheme) \<Rightarrow> tcp_env \<Rightarrow> bytes \<Rightarrow> fd \<Rightarrow> 'a tcp_server_scheme \<Rightarrow> 'a tcp_server_scheme" where
  "tcp_send close_socket env sbody sock s = async_send close_socket env sock (framed_body sbody) s"

definition handle_client_write ::
  "(fd \<Rightarrow> 'a tcp_server_scheme \<Rightarrow> 'a tcp_server_scheme) \<Rightarrow> tcp_env \<Rightarrow> fd \<Rightarrow> 'a tcp_server_scheme \<Rightarrow> 'a tcp_server_scheme" where
  "handle_client_write close_socket env sock s = flush_send_buffer close_socket env sock s"

section \<open>Receiving\<close>

text \<open>The loop around \<open>::recv\<close>: whether the connection is to be closed, and the buffer. No bytes is the peer's end.\<close>

fun recv_loop :: "recv_result list \<Rightarrow> bytes \<Rightarrow> bool \<times> bytes" where
  "recv_loop [] buf = (False, buf)"
| "recv_loop (RecvBlocked # rs) buf = (False, buf)"
| "recv_loop (RecvFailed # rs) buf = (True, buf)"
| "recv_loop (Data bs # rs) buf = (if bs = [] then (True, buf) else recv_loop rs (buf @ bs))"

text \<open>
  The loop over the frames in a buffer, from the first byte that is not processed. A frame that is
  too long or not complete ends it, an exception closes the connection. A body is decoded from all
  that is received, not from its own bytes only. The result: whether to close, the bytes left, and
  the state.
\<close>

function process_frames ::
  "'b decoder \<Rightarrow> ('b \<Rightarrow> fd \<Rightarrow> 's \<Rightarrow> unit res \<times> 's) \<Rightarrow> fd \<Rightarrow> bytes \<Rightarrow> 's \<Rightarrow> (bool \<times> bytes) res \<times> 's" where
  "process_frames dec handle sock rest s =
     (if length rest < HEADER_SIZE then (Inr (False, rest), s)
      else case deserialize_header rest 0 of
        Inl e \<Rightarrow> (if e = UB then Inl UB else Inr (True, rest), s)
      | Inr (header, _) \<Rightarrow>
          let n = unat (body_length header)
          in if HEADER_SIZE_LIMIT < n \<or> length rest < HEADER_SIZE + n then (Inr (False, rest), s)
             else case dec (drop HEADER_SIZE rest) 0 of
               Inl e \<Rightarrow> (if e = UB then Inl UB else Inr (True, rest), s)
             | Inr (body, _) \<Rightarrow>
                 (case handle body sock s of
                    (Inl e, s1) \<Rightarrow> (if e = UB then Inl UB else Inr (True, rest), s1)
                  | (Inr _, s1) \<Rightarrow> process_frames dec handle sock (drop (HEADER_SIZE + n) rest) s1))"
  by pat_completeness auto
termination by (relation "measure (\<lambda>(dec, handle, sock, rest, s). length rest)") (auto simp: HEADER_SIZE_def)

declare process_frames.simps [simp del]

definition handle_client_read ::
  "(fd \<Rightarrow> 'a tcp_server_scheme \<Rightarrow> 'a tcp_server_scheme) \<Rightarrow> 'b decoder \<Rightarrow>
   ('b \<Rightarrow> fd \<Rightarrow> 'a tcp_server_scheme \<Rightarrow> unit res \<times> 'a tcp_server_scheme) \<Rightarrow> fd \<Rightarrow> recv_result list \<Rightarrow>
   'a tcp_server_scheme \<Rightarrow> unit res \<times> 'a tcp_server_scheme" where
  "handle_client_read close_socket dec handle_request sock rs s =
     (case map_of (all_sessions s) sock of
        None \<Rightarrow> (Inr (), s)
      | Some se \<Rightarrow>
          let (closing, buf) = recv_loop rs (recv_buffer se);
              s1 = upd_session sock (\<lambda>se. se\<lparr>recv_buffer := buf\<rparr>) s
          in if closing then (Inr (), close_socket sock s1)
             else case process_frames dec handle_request sock buf s1 of
                    (Inl e, s2) \<Rightarrow> (Inl e, s2)
                  | (Inr (True, _), s2) \<Rightarrow> (Inr (), close_socket sock s2)
                  | (Inr (False, rest), s2) \<Rightarrow> (Inr (), upd_session sock (\<lambda>se. se\<lparr>recv_buffer := rest\<rparr>) s2))"

section \<open>Accepting\<close>

text \<open>
  \<open>TCPServer::add_new_connection\<close>. The first result is the argument after the call, which is a
  reference: \<open>INVALID_SOCKET_VALUE\<close> when the connection was refused for lack of room.
\<close>

definition INVALID_SOCKET_VALUE :: fd where "INVALID_SOCKET_VALUE = - 1"

definition tcp_add_new_connection :: "tcp_env \<Rightarrow> fd \<Rightarrow> 'a tcp_server_scheme \<Rightarrow> fd \<times> 'a tcp_server_scheme" where
  "tcp_add_new_connection env sock s =
     (if current_connections s < max_connections s then
        (case assign_to_slave env sock s of
           (False, s1) \<Rightarrow> (sock, s1\<lparr>shut := shut s1 @ [sock]\<rparr>)
         | (True, s1) \<Rightarrow> (sock, s1\<lparr>current_connections := current_connections s1 + 1\<rparr>))
      else if length (wait_queue s) < unat (connect_wait_queue_size s) then
        (sock, s\<lparr>wait_queue := wait_queue s @ [(sock, now_ms env)]\<rparr>)
      else (INVALID_SOCKET_VALUE, s\<lparr>shut := shut s @ [sock]\<rparr>))"

text \<open>An error of \<open>accept\<close> other than \<open>EAGAIN\<close> is logged, and the invalid socket added like any other.\<close>

fun tcp_handle_accept :: "(fd \<Rightarrow> 'a tcp_server_scheme \<Rightarrow> 'a tcp_server_scheme) \<Rightarrow> accept_result list \<Rightarrow> 'a tcp_server_scheme \<Rightarrow> 'a tcp_server_scheme" where
  "tcp_handle_accept add_new_connection [] s = s"
| "tcp_handle_accept add_new_connection (r # rs) s =
     tcp_handle_accept add_new_connection rs
       (add_new_connection (case r of Accepted sock \<Rightarrow> sock | AcceptFailed \<Rightarrow> INVALID_SOCKET_VALUE) s)"

text \<open>One round of the thread that closes connections that waited too long, from the front of the queue.\<close>

fun drop_expired :: "nat \<Rightarrow> nat \<Rightarrow> (fd \<times> nat) list \<Rightarrow> fd list \<times> (fd \<times> nat) list" where
  "drop_expired now timeout [] = ([], [])"
| "drop_expired now timeout ((sock, start) # q) =
     (if timeout \<le> now - start then let (closing, left) = drop_expired now timeout q in (sock # closing, left)
      else ([], (sock, start) # q))"

definition queue_monitor_round :: "tcp_env \<Rightarrow> 'a tcp_server_scheme \<Rightarrow> 'a tcp_server_scheme" where
  "queue_monitor_round env s =
     (let (closing, left) = drop_expired (now_ms env) (unat (connect_wait_timeout s) * 1000) (wait_queue s)
      in s\<lparr>wait_queue := left, shut := shut s @ closing\<rparr>)"

definition tcp_server_start :: "nat \<Rightarrow> 'a tcp_server_scheme \<Rightarrow> 'a tcp_server_scheme" where
  "tcp_server_start hardware_concurrency s =
     s\<lparr>slave_loops := slave_loops s @ replicate (if hardware_concurrency = 0 then 4 else hardware_concurrency) [], is_running := True\<rparr>"

definition tcp_stop :: "(fd \<Rightarrow> 'a tcp_server_scheme \<Rightarrow> 'a tcp_server_scheme) \<Rightarrow> 'a tcp_server_scheme \<Rightarrow> 'a tcp_server_scheme" where
  "tcp_stop close_socket s =
     (if \<not> is_running s then s
      else
        let s1 = s\<lparr>is_running := False, shut := shut s @ map fst (wait_queue s), wait_queue := []\<rparr>
        in fold close_socket (map fst (all_sessions s1)) s1)"

section \<open>Blocking calls\<close>

text \<open>
  \<open>send_data\<close> and \<open>receive_data\<close>, which clients use. The stream of what the peer sent is an argument
  and a result: a script of pieces, as \<open>recv\<close> returns them, each read by one or more calls.
  \<open>RecvBlocked\<close> is a timeout, and \<open>SendBlocked\<close> that the socket does not become writable within the second that is waited for it.
\<close>

datatype receive_result = Received bytes | TimedOut | PeerClosed | ReceiveError

function receive_loop :: "nat \<Rightarrow> bytes \<Rightarrow> recv_result list \<Rightarrow> receive_result \<times> recv_result list" where
  "receive_loop n got rs =
     (if n = 0 then (Received got, rs)
      else case rs of
        [] \<Rightarrow> (TimedOut, [])
      | RecvBlocked # rs' \<Rightarrow> (TimedOut, rs')
      | RecvFailed # rs' \<Rightarrow> (ReceiveError, rs')
      | Data bs # rs' \<Rightarrow>
          if bs = [] then (PeerClosed, rs')
          else if length bs \<le> n then receive_loop (n - length bs) (got @ bs) rs'
          else (Received (got @ take n bs), Data (drop n bs) # rs'))"
  by pat_completeness auto
termination by (relation "measure (\<lambda>(n, got, rs). length rs)") auto

declare receive_loop.simps [simp del]

definition receive_data :: "nat \<Rightarrow> recv_result list \<Rightarrow> receive_result \<times> recv_result list" where
  "receive_data n rs = (if n = 0 then (ReceiveError, rs) else receive_loop n [] rs)"

text \<open>
  \<open>TCPBase::receive\<close>. Header and body are two calls of \<open>receive_data\<close>; an error in the second one
  forgets the header. The outcome is an exception when the header or the body cannot be decoded;
  \<open>c_str\<close> adds a null character after the body.
\<close>

definition tcp_receive :: "'b decoder \<Rightarrow> recv_result list \<Rightarrow> (receive_result + 'b) res \<times> recv_result list" where
  "tcp_receive dec rs =
     (case receive_data HEADER_SIZE rs of
        (Received sheader, rs1) \<Rightarrow>
          (case deserialize_header sheader 0 of
             Inl e \<Rightarrow> (Inl e, rs1)
           | Inr (header, _) \<Rightarrow>
               (case receive_data (unat (body_length header)) rs1 of
                  (Received sbody, rs2) \<Rightarrow>
                    (case dec (sbody @ [CHR 0x00]) 0 of Inl e \<Rightarrow> (Inl e, rs2) | Inr (body, _) \<Rightarrow> (Inr (Inr body), rs2))
                | (r, rs2) \<Rightarrow> (Inr (Inl r), rs2)))
      | (r, rs1) \<Rightarrow> (Inr (Inl r), rs1))"

definition send_data :: "send_result list \<Rightarrow> bytes \<Rightarrow> bool \<times> bytes" where
  "send_data rs data = (let (_, taken, left) = send_loop rs data in (left = [], taken))"

section \<open>Frames are read back\<close>

lemma frame_sizes [simp]: "length (ser_header h) = HEADER_SIZE" "length (build_header n) = HEADER_SIZE"
  "length (framed_body b) = HEADER_SIZE + length b"
  by (simp_all add: ser_header_def build_header_def framed_body_def HEADER_SIZE_def)

lemma build_header_nonempty [simp]: "build_header n \<noteq> []" "[] \<noteq> build_header n"
  using frame_sizes(2) [of n] by (metis HEADER_SIZE_def list.size(3) zero_neq_numeral)+

interpretation cb8: codec byte8 dec_byte8 "\<lambda>_. True"
proof
  fix x :: u8 and pre post :: bytes
  show "dec_byte8 (pre @ byte8 x @ post) (length pre) = Inr (x, length pre + length (byte8 x))"
    using read_bytes_append [of pre "length pre" "byte8 x" 1 post] by (simp add: dec_byte8_def)
qed

interpretation hdr: codec ser_header deserialize_header "\<lambda>_. True"
proof
  fix h pre post
  let ?data = "pre @ ser_header h @ post"
  have 1: "dec_u32 ?data (length pre) = Inr (magic, length pre + 4)"
    using cu32.dec_enc_at [where x = magic and data = ?data and pre = pre and post = "byte8 (version h) @ be32 (body_length h) @ post"] by (simp add: ser_header_def)
  have 2: "dec_byte8 ?data (length pre + 4) = Inr (version h, length pre + 5)"
    using cb8.dec_enc_at [where x = "version h" and data = ?data and pre = "pre @ be32 magic" and post = "be32 (body_length h) @ post"] by (simp add: ser_header_def)
  have 3: "dec_u32 ?data (length pre + 5) = Inr (body_length h, length pre + 9)"
    using cu32.dec_enc_at [where x = "body_length h" and data = ?data and pre = "pre @ be32 magic @ byte8 (version h)" and post = post] by (simp add: ser_header_def)
  show "deserialize_header ?data (length pre) = Inr (h, length pre + length (ser_header h))"
    using 1 2 3 by (simp add: deserialize_header_def HEADER_SIZE_def)
qed

lemma header_of_frame:
  "length b \<le> HEADER_SIZE_LIMIT \<Longrightarrow> deserialize_header (build_header (length b) @ rest) 0 = Inr (\<lparr>version = 1, body_length = word_of_nat (length b)\<rparr>, HEADER_SIZE)"
  using hdr.dec_enc_at [where x = "\<lparr>version = 1, body_length = word_of_nat (length b)\<rparr>" and pre = "[]" and post = rest and off = 0] by (simp add: build_header_def)

lemma frame_length: "length b \<le> HEADER_SIZE_LIMIT \<Longrightarrow> unat (word_of_nat (length b) :: u32) = length b"
  by (simp add: unat_of_nat_lt HEADER_SIZE_LIMIT_def)

lemma prefix_of_append: "a @ b = p @ q \<Longrightarrow> length a \<le> length p \<Longrightarrow> \<exists>c. p = a @ c \<and> b = c @ q"
  by (metis append_eq_append_conv_if append_take_drop_id)

section \<open>Streams of frames\<close>

text \<open>
  A connection as its reader relies on it: messages with an encoding that decodes again, each sent
  as one frame. The stream may arrive cut into any pieces.
\<close>

locale framing = codec_upto enc dec ok norm
  for enc :: "'b \<Rightarrow> bytes" and dec ok norm
begin

definition stream :: "'b list \<Rightarrow> bytes" where
  "stream ms = concat (map (\<lambda>m. framed_body (enc m)) ms)"

definition fits :: "'b \<Rightarrow> bool" where
  "fits m \<longleftrightarrow> ok m \<and> length (enc m) \<le> HEADER_SIZE_LIMIT"

lemma stream_Cons [simp]: "stream [] = []" "stream (m # ms) = framed_body (enc m) @ stream ms"
  by (simp_all add: stream_def)

lemma whole_frame:
  assumes "fits m" "h (norm m) sock s = (Inr (), s1)"
  shows "process_frames dec h sock (framed_body (enc m) @ rest) s = process_frames dec h sock rest s1"
proof -
  have "dec (enc m @ rest) 0 = Inr (norm m, length (enc m))"
    using assms(1) dec_norm_at [of m _ "[]" rest 0] by (simp add: fits_def)
  then show ?thesis using assms header_of_frame [of "enc m"]
    by (subst process_frames.simps) (simp add: framed_body_def fits_def frame_length Let_def)
qed

lemma partial_frame:
  assumes "fits m" "framed_body (enc m) = p @ q" "q \<noteq> []"
  shows "process_frames dec h sock p s = (Inr (False, p), s)"
proof (cases "length p < HEADER_SIZE")
  case True
  then show ?thesis by (simp add: process_frames.simps)
next
  case False
  have "build_header (length (enc m)) @ enc m = p @ q" using assms(2) by (simp add: framed_body_def)
  then obtain b where b: "p = build_header (length (enc m)) @ b" "enc m = b @ q"
    using False prefix_of_append [of "build_header (length (enc m))" "enc m" p q] by auto
  have d: "deserialize_header p 0 = Inr (\<lparr>version = 1, body_length = word_of_nat (length (enc m))\<rparr>, HEADER_SIZE)"
    using header_of_frame [of "enc m" b] assms(1) b(1) by (simp add: fits_def)
  have "length p < HEADER_SIZE + length (enc m)" using b assms(3) by simp
  then show ?thesis using False d assms(1)
    by (subst process_frames.simps) (simp add: fits_def frame_length Let_def)
qed

lemma process_stream:
  assumes "list_all fits ms" "stream ms = buf @ future" "\<And>m s. fst (h (norm m) sock s) = Inr ()"
  shows "\<exists>ms' ms'' rest. ms = ms' @ ms'' \<and> stream ms'' = rest @ future \<and> (future = [] \<longrightarrow> ms'' = []) \<and>
    process_frames dec h sock buf s = (Inr (False, rest), fold (\<lambda>m s. snd (h (norm m) sock s)) ms' s)"
  using assms(1,2)
proof (induction ms arbitrary: buf s)
  case Nil
  then show ?case by (intro exI [of _ "[]"]) (simp add: process_frames.simps HEADER_SIZE_def)
next
  case (Cons m ms)
  show ?case
  proof (cases "length (framed_body (enc m)) \<le> length buf")
    case True
    then obtain buf' where b: "buf = framed_body (enc m) @ buf'" "stream ms = buf' @ future"
      using Cons.prems(2) prefix_of_append [of "framed_body (enc m)" "stream ms" buf future] by auto
    obtain s1 where s1: "h (norm m) sock s = (Inr (), s1)" using assms(3) [of m s] by (metis prod.collapse)
    obtain ms' ms'' rest where "ms = ms' @ ms''" "stream ms'' = rest @ future" "future = [] \<longrightarrow> ms'' = []"
      "process_frames dec h sock buf' s1 = (Inr (False, rest), fold (\<lambda>m s. snd (h (norm m) sock s)) ms' s1)"
      using Cons.IH [of buf' s1] Cons.prems(1) b(2) by auto
    then show ?thesis using whole_frame [of m h sock s s1 buf'] Cons.prems(1) s1 b(1)
      by (intro exI [of _ "m # ms'"] exI [of _ ms''] exI [of _ rest]) simp
  next
    case False
    then obtain q where q: "framed_body (enc m) = buf @ q" "q \<noteq> []" "future = q @ stream ms"
      using Cons.prems(2) False prefix_of_append [of buf future "framed_body (enc m)" "stream ms"] by fastforce
    then show ?thesis using partial_frame [OF _ q(1,2)] Cons.prems by (intro exI [of _ "[]"] exI [of _ "m # ms"] exI [of _ buf]) simp
  qed
qed

end

text \<open>Replacing the bytes received, the only field of a session the reader touches.\<close>

definition set_recv :: "fd \<Rightarrow> bytes \<Rightarrow> 'a tcp_server_scheme \<Rightarrow> 'a tcp_server_scheme" where
  "set_recv sock buf = upd_session sock (\<lambda>se. se\<lparr>recv_buffer := buf\<rparr>)"

lemma alist_update_update [simp]: "AList.update k v (AList.update k w l) = AList.update k v l"
  by (induction l) auto

lemma alist_update_same: "map_of l k = Some v \<Longrightarrow> AList.update k v l = l"
  by (induction l) auto

lemma set_recv_simps:
  "map_of (all_sessions s) sock = Some se \<Longrightarrow>
     map_of (all_sessions (set_recv sock buf s)) = (map_of (all_sessions s))(sock \<mapsto> se\<lparr>recv_buffer := buf\<rparr>)"
  "set_recv sock buf (set_recv sock buf' s) = set_recv sock buf s"
  "map_of (all_sessions s) sock = Some se \<Longrightarrow> recv_buffer se = buf \<Longrightarrow> set_recv sock buf s = s"
  by (auto simp: set_recv_def upd_session_def update_conv' alist_update_same split: option.splits)

lemma recv_loop_data: "[] \<notin> set ps \<Longrightarrow> recv_loop (map Data ps) buf = (False, buf @ concat ps)"
  by (induction ps arbitrary: buf) auto

text \<open>
  What a reader relies on when it hands over a request: the handler returns, keeps the session, and
  neither reads nor writes the bytes received.
\<close>

locale frame_reader = framing enc dec ok norm
  for enc :: "'b \<Rightarrow> bytes" and dec ok norm +
  fixes handle :: "'b \<Rightarrow> fd \<Rightarrow> 'a tcp_server_scheme \<Rightarrow> unit res \<times> 'a tcp_server_scheme"
  assumes answers: "fst (handle m sock s) = Inr ()"
    and keeps_session: "map_of (all_sessions s) sock \<noteq> None \<Longrightarrow> map_of (all_sessions (snd (handle m sock s))) sock \<noteq> None"
    and recv_independent: "snd (handle m sock (set_recv sock buf s)) = set_recv sock buf (snd (handle m sock s))"
begin

definition handle_all :: "fd \<Rightarrow> 'b list \<Rightarrow> 'a tcp_server_scheme \<Rightarrow> 'a tcp_server_scheme" where
  "handle_all sock ms = fold (\<lambda>m s. snd (handle (norm m) sock s)) ms"

lemma handle_all_append: "handle_all sock (ms @ ms') s = handle_all sock ms' (handle_all sock ms s)"
  by (simp add: handle_all_def)

lemma handle_all_recv: "handle_all sock ms (set_recv sock buf s) = set_recv sock buf (handle_all sock ms s)"
  unfolding handle_all_def by (induction ms arbitrary: s) (simp_all add: recv_independent)

lemma handle_all_keeps: "map_of (all_sessions s) sock \<noteq> None \<Longrightarrow> map_of (all_sessions (handle_all sock ms s)) sock \<noteq> None"
  unfolding handle_all_def by (induction ms arbitrary: s) (simp_all add: keeps_session del: not_None_eq)

lemma read_event:
  assumes "list_all fits ms" "map_of (all_sessions s) sock = Some se" "stream ms = recv_buffer se @ concat ps @ future" "[] \<notin> set ps"
  shows "\<exists>ms' ms'' rest. ms = ms' @ ms'' \<and> stream ms'' = rest @ future \<and> (future = [] \<longrightarrow> ms'' = []) \<and>
    handle_client_read close_socket dec handle sock (map Data ps) s = (Inr (), set_recv sock rest (handle_all sock ms' s))"
proof -
  have "stream ms = (recv_buffer se @ concat ps) @ future" using assms(3) by simp
  from process_stream [where h = handle and s = "set_recv sock (recv_buffer se @ concat ps) s", OF assms(1) this answers]
  obtain ms' ms'' rest where p: "ms = ms' @ ms''" "stream ms'' = rest @ future" "future = [] \<longrightarrow> ms'' = []"
    "process_frames dec handle sock (recv_buffer se @ concat ps) (set_recv sock (recv_buffer se @ concat ps) s)
       = (Inr (False, rest), handle_all sock ms' (set_recv sock (recv_buffer se @ concat ps) s))"
    unfolding handle_all_def by blast
  then show ?thesis using assms(2) recv_loop_data [OF assms(4), of "recv_buffer se"]
    by (intro exI [of _ ms'] exI [of _ ms''] exI [of _ rest])
       (simp add: handle_client_read_def set_recv_def [symmetric] handle_all_recv set_recv_simps(2))
qed

lemma read_events:
  assumes "list_all fits ms" "map_of (all_sessions s) sock = Some se" "stream ms = recv_buffer se @ concat (map concat evs)"
    "list_all (\<lambda>ps. [] \<notin> set ps) evs" "evs = [] \<longrightarrow> ms = []"
  shows "fold (\<lambda>ps s. snd (handle_client_read close_socket dec handle sock (map Data ps) s)) evs s = set_recv sock [] (handle_all sock ms s)"
  using assms
proof (induction evs arbitrary: ms s se)
  case Nil
  then show ?case by (simp add: handle_all_def set_recv_simps(3))
next
  case (Cons ps evs)
  obtain ms' ms'' rest where p: "ms = ms' @ ms''" "stream ms'' = rest @ concat (map concat evs)" "concat (map concat evs) = [] \<longrightarrow> ms'' = []"
    "handle_client_read close_socket dec handle sock (map Data ps) s = (Inr (), set_recv sock rest (handle_all sock ms' s))"
  proof -
    have "stream ms = recv_buffer se @ concat ps @ concat (map concat evs)" "[] \<notin> set ps" using Cons.prems by simp_all
    from read_event [OF Cons.prems(1,2) this] show ?thesis using that by blast
  qed
  let ?s1 = "set_recv sock rest (handle_all sock ms' s)"
  obtain se1 where se1: "map_of (all_sessions (handle_all sock ms' s)) sock = Some se1"
    using handle_all_keeps [of s sock ms'] Cons.prems(2) by auto
  then have "map_of (all_sessions ?s1) sock = Some (se1\<lparr>recv_buffer := rest\<rparr>)" by (simp add: set_recv_simps(1))
  then have "fold (\<lambda>ps s. snd (handle_client_read close_socket dec handle sock (map Data ps) s)) evs ?s1 = set_recv sock [] (handle_all sock ms'' ?s1)"
    using Cons.IH [of ms'' ?s1 "se1\<lparr>recv_buffer := rest\<rparr>"] Cons.prems p by auto
  then show ?case using p(1,4) by (simp add: handle_all_append handle_all_recv set_recv_simps(2))
qed

end

section \<open>What is sent arrives in order\<close>

lemma send_loop_split: "send_loop rs buf = (failed, taken, left) \<Longrightarrow> taken @ left = buf"
proof (induction rs buf arbitrary: failed taken left rule: send_loop.induct)
  case (5 n rs b bs)
  then show ?case by (auto simp: Let_def split: if_splits prod.splits)
qed auto

text \<open>What a connection has to carry: the bytes the system took, then those that wait.\<close>

definition outgoing :: "fd \<Rightarrow> 'a tcp_server_scheme \<Rightarrow> bytes" where
  "outgoing sock s = wire s sock @ (case map_of (all_sessions s) sock of None \<Rightarrow> [] | Some se \<Rightarrow> send_buffer se)"

definition stays_open :: "fd \<Rightarrow> 'a tcp_server_scheme \<Rightarrow> bool" where
  "stays_open sock s \<longleftrightarrow> (case map_of (all_sessions s) sock of None \<Rightarrow> False | Some se \<Rightarrow> \<not> close_after_send se)"

lemma flush_keeps_order:
  assumes "stays_open sock s"
  shows "outgoing sock (flush_send_buffer close_socket env sock s) = outgoing sock s"
    and "stays_open sock (flush_send_buffer close_socket env sock s)"
proof -
  obtain se where se: "map_of (all_sessions s) sock = Some se" "\<not> close_after_send se"
    using assms by (auto simp: stays_open_def split: option.splits)
  obtain failed taken left where l: "send_loop (sends env sock) (send_buffer se) = (failed, taken, left)" by (metis prod.exhaust)
  show "outgoing sock (flush_send_buffer close_socket env sock s) = outgoing sock s"
    using se l send_loop_split [OF l] by (simp add: flush_send_buffer_def outgoing_def upd_session_def update_conv' Let_def)
  show "stays_open sock (flush_send_buffer close_socket env sock s)"
    using se l by (simp add: flush_send_buffer_def stays_open_def upd_session_def update_conv' Let_def)
qed

lemma send_keeps_order:
  assumes "stays_open sock s"
  shows "outgoing sock (async_send close_socket env sock data s) = outgoing sock s @ data"
    and "stays_open sock (async_send close_socket env sock data s)"
proof -
  let ?s1 = "upd_session sock (\<lambda>se. se\<lparr>send_buffer := send_buffer se @ data\<rparr>) s"
  obtain se where se: "map_of (all_sessions s) sock = Some se" "\<not> close_after_send se"
    using assms by (auto simp: stays_open_def split: option.splits)
  then have 1: "stays_open sock ?s1" "outgoing sock ?s1 = outgoing sock s @ data"
    by (simp_all add: stays_open_def outgoing_def upd_session_def update_conv')
  show "outgoing sock (async_send close_socket env sock data s) = outgoing sock s @ data"
    "stays_open sock (async_send close_socket env sock data s)"
    using se 1 flush_keeps_order [OF 1(1), of close_socket env] by (simp_all add: async_send_def)
qed

text \<open>The steps that send on one connection: a message to send, or the event that the socket is writable.\<close>

datatype out_step = SendBody bytes | Writable

fun out_steps ::
  "(fd \<Rightarrow> 'a tcp_server_scheme \<Rightarrow> 'a tcp_server_scheme) \<Rightarrow> fd \<Rightarrow> (tcp_env \<times> out_step) list \<Rightarrow> 'a tcp_server_scheme \<Rightarrow> 'a tcp_server_scheme" where
  "out_steps close_socket sock [] s = s"
| "out_steps close_socket sock ((env, SendBody b) # es) s = out_steps close_socket sock es (tcp_send close_socket env b sock s)"
| "out_steps close_socket sock ((env, Writable) # es) s = out_steps close_socket sock es (handle_client_write close_socket env sock s)"

fun bodies :: "(tcp_env \<times> out_step) list \<Rightarrow> bytes list" where
  "bodies [] = []"
| "bodies ((env, SendBody b) # es) = b # bodies es"
| "bodies ((env, Writable) # es) = bodies es"

lemma out_steps_order:
  "stays_open sock s \<Longrightarrow>
     stays_open sock (out_steps close_socket sock es s) \<and>
     outgoing sock (out_steps close_socket sock es s) = outgoing sock s @ concat (map framed_body (bodies es))"
  by (induction close_socket sock es s rule: out_steps.induct)
     (simp_all add: tcp_send_def handle_client_write_def send_keeps_order flush_keeps_order)

section \<open>Blocking receive\<close>

lemma receive_pieces:
  assumes "[] \<notin> set ps" "concat ps = a @ b" "0 < length a"
  shows "\<exists>ps'. receive_loop (length a) got (map Data ps @ rs) = (Received (got @ a), map Data ps' @ rs) \<and> concat ps' = b \<and> [] \<notin> set ps'"
  using assms
proof (induction ps arbitrary: a got)
  case Nil
  then show ?case by simp
next
  case (Cons p ps)
  show ?case
  proof (cases "length p \<le> length a")
    case True
    then obtain a' where a: "a = p @ a'" "concat ps = a' @ b" using Cons.prems(2) prefix_of_append [of p "concat ps" a b] by auto
    show ?thesis
    proof (cases "a' = []")
      case True
      then show ?thesis using a Cons.prems
        by (subst receive_loop.simps) (intro exI [of _ ps], simp add: receive_loop.simps [of 0])
    next
      case False
      then show ?thesis using a Cons.prems Cons.IH [of a' "got @ p"] by (subst receive_loop.simps) auto
    qed
  next
    case False
    then obtain c where c: "p = a @ c" "b = c @ concat ps" "c \<noteq> []"
      using Cons.prems(2) prefix_of_append [of a b p "concat ps"] by fastforce
    then show ?thesis using Cons.prems
      by (subst receive_loop.simps) (intro exI [of _ "c # ps"], simp)
  qed
qed

context framing
begin

lemma receive_message:
  assumes "fits m" "enc m \<noteq> []" "[] \<notin> set ps" "concat ps = framed_body (enc m) @ later"
  shows "\<exists>ps'. tcp_receive dec (map Data ps @ rs) = (Inr (Inr (norm m)), map Data ps' @ rs) \<and> concat ps' = later \<and> [] \<notin> set ps'"
proof -
  let ?h = "build_header (length (enc m))"
  have "concat ps = ?h @ (enc m @ later)" "0 < length ?h" using assms(4) by (simp_all add: framed_body_def HEADER_SIZE_def)
  from receive_pieces [OF assms(3) this, of "[]" rs] obtain ps1 where
    1: "receive_data HEADER_SIZE (map Data ps @ rs) = (Received ?h, map Data ps1 @ rs)" "concat ps1 = enc m @ later" "[] \<notin> set ps1"
    by (auto simp: receive_data_def HEADER_SIZE_def)
  have "deserialize_header ?h 0 = Inr (\<lparr>version = 1, body_length = word_of_nat (length (enc m))\<rparr>, HEADER_SIZE)"
    using header_of_frame [of "enc m" "[]"] assms(1) by (simp add: fits_def)
  moreover obtain ps2 where "receive_data (length (enc m)) (map Data ps1 @ rs) = (Received (enc m), map Data ps2 @ rs)"
    "concat ps2 = later" "[] \<notin> set ps2"
    using receive_pieces [OF 1(3,2), of "[]" rs] assms(2) by (auto simp: receive_data_def)
  moreover have "dec (enc m @ [CHR 0x00]) 0 = Inr (norm m, length (enc m))"
    using assms(1) dec_norm_at [of m _ "[]" "[CHR 0x00]" 0] by (simp add: fits_def)
  ultimately show ?thesis using 1(1) assms(1) by (intro exI [of _ ps2]) (simp add: tcp_receive_def fits_def frame_length)
qed

end

interpretation rqf: framing ser_request deserialize_request request_ok request_norm
  by unfold_locales

interpretation rspf: framing ser_response deserialize_response response_ok response_norm
  by unfold_locales

interpretation msgf: framing ser_raft_message deserialize_raft_message raft_message_ok raft_message_norm
  by unfold_locales

section \<open>Properties\<close>

lemma nonempty_response [simp]: "ser_response r \<noteq> []"
proof -
  have "0 < length (ser_response r)" by (simp add: ser_response_def del: length_greater_0_conv)
  then show ?thesis by simp
qed

text \<open>
  C27: Whatever is sent on a connection reaches the peer in order and without loss or repetition: for every
  sequence of messages and writable events, and whatever part of the buffer each \<open>send\<close> of the system takes,
  also when it fails, the bytes on the wire followed by those in the buffer are the frames of the messages one
  after the other; the connection stays open.
\<close>

theorem sent_in_order:
  assumes "map_of (all_sessions s) sock = Some se" "\<not> close_after_send se"
  shows "\<exists>se'. map_of (all_sessions (out_steps close_socket sock es s)) sock = Some se' \<and>
    wire (out_steps close_socket sock es s) sock @ send_buffer se' =
      wire s sock @ send_buffer se @ concat (map framed_body (bodies es))"
  using out_steps_order [of sock s close_socket es] assms
  by (auto simp: stays_open_def outgoing_def split: option.splits)

text \<open>
  A client that waits for an answer gets it, however the network cuts the stream: when the bytes to come
  are the frame of a response and then anything else, \<open>TCPBase::receive\<close> returns the response and leaves
  exactly the rest to be read.
\<close>

theorem receive_returns_response:
  assumes "response_ok r" "length (ser_response r) \<le> HEADER_SIZE_LIMIT" "[] \<notin> set ps" "concat ps = framed_body (ser_response r) @ later"
  shows "\<exists>ps'. tcp_receive deserialize_response (map Data ps @ rs) = (Inr (Inr (response_norm r)), map Data ps' @ rs) \<and>
    concat ps' = later \<and> [] \<notin> set ps'"
  using rspf.receive_message [of r ps later rs] assms by (simp add: rspf.fits_def)

text \<open>
  A timeout between the header and the body of a frame loses the header: the next call takes the bytes
  of the body for a header.
\<close>

lemma timeout_loses_header:
  assumes "body \<noteq> []" "length body \<le> HEADER_SIZE_LIMIT"
  shows "tcp_receive dec (Data (build_header (length body)) # RecvBlocked # Data body # rs) = (Inr (Inl TimedOut), Data body # rs)"
  using assms header_of_frame [of body "[]"]
  by (simp add: tcp_receive_def receive_data_def receive_loop.simps HEADER_SIZE_def frame_length)

text \<open>
  A frame whose header announces more than the limit is never taken from the buffer and the connection
  is not closed: no later request of that connection is handled, and the buffer only grows.
\<close>

lemma oversized_frame_stalls:
  assumes "HEADER_SIZE_LIMIT < n" "n < 2 ^ 32"
  shows "process_frames dec handle sock (build_header n @ bs) s = (Inr (False, build_header n @ bs), s)"
proof -
  have "deserialize_header (build_header n @ bs) 0 = Inr (\<lparr>version = 1, body_length = word_of_nat n\<rparr>, HEADER_SIZE)"
    using hdr.dec_enc_at [where x = "\<lparr>version = 1, body_length = word_of_nat n\<rparr>" and pre = "[]" and post = bs and off = 0] by (simp add: build_header_def)
  then show ?thesis using assms by (subst process_frames.simps) (simp add: Let_def unat_of_nat_lt)
qed

section \<open>Witnesses\<close>

definition sess_example :: tcp_session where
  "sess_example = \<lparr>recv_buffer = [], send_buffer = ''ab'', slave_index = 0, session_start = 0, close_after_send = False\<rparr>"

definition srv_example :: tcp_server where
  "srv_example = \<lparr>max_connections = 2, connect_wait_queue_size = 1, connect_wait_timeout = 30, current_connections = 1,
     all_sessions = [(7, sess_example)], wait_queue = [], slave_loops = [[(7, False)]], next_slave = 1, is_running = True,
     wire = (\<lambda>_. []), shut = []\<rparr>"

theorem sent_in_order_witness:
  "\<exists>se'. map_of (all_sessions (out_steps (\<lambda>_ s. s) 7
      [(\<lparr>now_ms = 5, add_ok = (\<lambda>_. True), sends = (\<lambda>_. [Took 3, SendBlocked])\<rparr>, SendBody ''x''),
       (\<lparr>now_ms = 6, add_ok = (\<lambda>_. True), sends = (\<lambda>_. [SendFailed])\<rparr>, SendBody ''y'')] srv_example)) 7 = Some se' \<and>
    wire (out_steps (\<lambda>_ s. s) 7
      [(\<lparr>now_ms = 5, add_ok = (\<lambda>_. True), sends = (\<lambda>_. [Took 3, SendBlocked])\<rparr>, SendBody ''x''),
       (\<lparr>now_ms = 6, add_ok = (\<lambda>_. True), sends = (\<lambda>_. [SendFailed])\<rparr>, SendBody ''y'')] srv_example) 7 @ send_buffer se' =
    ''ab'' @ framed_body ''x'' @ framed_body ''y''"
  using sent_in_order [of srv_example 7 sess_example "\<lambda>_ s. s"
      "[(\<lparr>now_ms = 5, add_ok = (\<lambda>_. True), sends = (\<lambda>_. [Took 3, SendBlocked])\<rparr>, SendBody ''x''),
       (\<lparr>now_ms = 6, add_ok = (\<lambda>_. True), sends = (\<lambda>_. [SendFailed])\<rparr>, SendBody ''y'')]"]
  by (simp add: srv_example_def sess_example_def)

theorem receive_returns_response_witness:
  "\<exists>ps'. tcp_receive deserialize_response
      (map Data [build_header (length (ser_response (success (RString ''OK'')))), ser_response (success (RString ''OK'')) @ ''rest''] @ [RecvBlocked])
    = (Inr (Inr (response_norm (success (RString ''OK'')))), map Data ps' @ [RecvBlocked]) \<and> concat ps' = ''rest'' \<and> [] \<notin> set ps'"
  by (rule receive_returns_response)
     (simp_all add: response_ok_def string_ok_def success_def SUCCESS_def ser_response_def framed_body_def HEADER_SIZE_LIMIT_def)

end
