(* ===== verification/EyaServer.thy ===== *)
theory EyaServer
  imports SocketServer RaftSafety
begin

text \<open>
  The server clients talk to (\<open>include/network/tcp_server.h\<close>, \<open>src/network/tcp_server.cpp\<close>): the limit on connections
  with the state that is reported to a client, the password and the key, the thread that closes connections
  which do not authenticate, and the requests, which run as tasks of the thread pool on the Raft node.

  The state extends the TCP server with the server's own members; \<open>tasks\<close> are the tasks of the pool that have
  not started, in order. Whether the pool accepts a task is an argument: it refuses when its queue stays full
  for the time it waits, or when it is stopped. An exception in the node is caught
  and answered; what it leaves of the node is the argument \<open>thrown\<close>. The node exists: the server exits otherwise.
\<close>

section \<open>State\<close>

datatype connection_state = WAITING | READY

fun state_number :: "connection_state \<Rightarrow> nat" where
  "state_number WAITING = 0"
| "state_number READY = 1"

record eya_server = tcp_server +
  srv_password :: string
  srv_auth_key :: string
  connections_without_auth :: "(fd \<times> nat) list"
  tasks :: "(request \<times> fd) list"
  node :: raft_node

record eya_env =
  net :: tcp_env
  cluster :: cluster_env
  thrown :: "raft_node \<Rightarrow> raft_node"

text \<open>The constructor; \<open>distr\<close> are the numbers drawn for the key.\<close>

definition eya_server_new :: "(nat \<Rightarrow> nat) \<Rightarrow> string \<Rightarrow> u32 \<Rightarrow> u32 \<Rightarrow> u32 \<Rightarrow> raft_node \<Rightarrow> eya_server res" where
  "eya_server_new distr pw max_conn queue_sz wait_s n =
     rbind (if pw \<noteq> [] then generate_random_string distr 32 else Inr []) (\<lambda>key.
       Inr \<lparr>max_connections = max_conn, connect_wait_queue_size = queue_sz, connect_wait_timeout = wait_s, current_connections = 0,
            all_sessions = [], wait_queue = [], slave_loops = [], next_slave = 0, is_running = False, wire = (\<lambda>_. []), shut = [],
            srv_password = pw, srv_auth_key = key, connections_without_auth = [], tasks = [], node = n\<rparr>)"

section \<open>Connections\<close>

text \<open>\<open>TCPBase::send\<close>: past the buffer of the session, directly to the system.\<close>

definition send_connection_state :: "tcp_env \<Rightarrow> connection_state \<Rightarrow> fd \<Rightarrow> eya_server \<Rightarrow> eya_server" where
  "send_connection_state env st sock s =
     (let (_, sent) = send_data (sends env sock) (framed_body (ser_response (success (RString (nat_to_string (state_number st))))))
      in s\<lparr>wire := (wire s)(sock := wire s sock @ sent)\<rparr>)"

definition insert_without_auth :: "tcp_env \<Rightarrow> fd \<Rightarrow> eya_server \<Rightarrow> eya_server" where
  "insert_without_auth env sock s =
     (if sock \<in> fst ` set (connections_without_auth s) then s
      else s\<lparr>connections_without_auth := connections_without_auth s @ [(sock, now_ms env)]\<rparr>)"

definition on_wait_queue_activated :: "tcp_env \<Rightarrow> fd \<Rightarrow> eya_server \<Rightarrow> eya_server" where
  "on_wait_queue_activated env sock s = send_connection_state env READY sock (insert_without_auth env sock s)"

definition eya_close_socket :: "tcp_env \<Rightarrow> fd \<Rightarrow> eya_server \<Rightarrow> eya_server" where
  "eya_close_socket env sock s =
     tcp_close_socket (on_wait_queue_activated env) env sock
       (s\<lparr>connections_without_auth := AList.delete sock (connections_without_auth s)\<rparr>)"

definition accept_one :: "tcp_env \<Rightarrow> fd \<Rightarrow> eya_server \<Rightarrow> eya_server" where
  "accept_one env sock s =
     (if current_connections s < max_connections s then
        (case assign_to_slave env sock s of
           (True, s1) \<Rightarrow>
             send_connection_state env READY sock (insert_without_auth env sock (s1\<lparr>current_connections := current_connections s1 + 1\<rparr>))
         | (False, s1) \<Rightarrow> s1\<lparr>shut := shut s1 @ [sock]\<rparr>)
      else if length (wait_queue s) < unat (connect_wait_queue_size s) then
        send_connection_state env WAITING sock (s\<lparr>wait_queue := wait_queue s @ [(sock, now_ms env)]\<rparr>)
      else s\<lparr>shut := shut s @ [sock]\<rparr>)"

text \<open>\<open>EyaServer::handle_accept\<close>: an error of \<open>accept\<close> ends the loop.\<close>

fun eya_handle_accept :: "tcp_env \<Rightarrow> accept_result list \<Rightarrow> eya_server \<Rightarrow> eya_server" where
  "eya_handle_accept env [] s = s"
| "eya_handle_accept env (AcceptFailed # rs) s = s"
| "eya_handle_accept env (Accepted sock # rs) s = eya_handle_accept env rs (accept_one env sock s)"

text \<open>One round of the thread that closes connections without authentication, from the third line of its loop on.\<close>

definition auth_monitor_round :: "tcp_env \<Rightarrow> eya_server \<Rightarrow> eya_server" where
  "auth_monitor_round env s =
     (let expired = \<lambda>(sock, start). 2000 < now_ms env - start;
          sockets_to_close = map fst (filter expired (connections_without_auth s));
          s1 = s\<lparr>connections_without_auth := filter (\<lambda>c. \<not> expired c) (connections_without_auth s)\<rparr>
      in fold (eya_close_socket env) sockets_to_close s1)"

definition eya_stop :: "tcp_env \<Rightarrow> eya_server \<Rightarrow> eya_server" where
  "eya_stop env s = tcp_stop (eya_close_socket env) s"

section \<open>Requests\<close>

abbreviation reply :: "eya_env \<Rightarrow> response \<Rightarrow> fd \<Rightarrow> eya_server \<Rightarrow> eya_server" where
  "reply env r sock s \<equiv> tcp_send (eya_close_socket (net env)) (net env) (ser_response r) sock s"

text \<open>The task of a request: its answer, or that the connection is closed.\<close>

definition process_request :: "eya_env \<Rightarrow> request \<Rightarrow> fd \<Rightarrow> eya_server \<Rightarrow> eya_server res" where
  "process_request env r sock s =
     (case req_type r of
        AUTH \<Rightarrow>
          if password r = srv_password s
          then Inr (reply env (success (RString (srv_auth_key s))) sock
                     (s\<lparr>connections_without_auth := AList.delete sock (connections_without_auth s)\<rparr>))
          else Inr (reply env (error ''Authentication failed'') sock s)
      | NONE \<Rightarrow> Inr (reply env (error ''Unknown request type'') sock s)
      | COMMAND \<Rightarrow>
          if srv_password s \<noteq> [] \<and> auth_key r \<noteq> srv_auth_key s
          then Inr (eya_close_socket (net env) sock (reply env (error ''Authentication required'') sock s))
          else (case submit_command (cluster env) (req_id r) (command r) (node s) of
                  Inr (response, n) \<Rightarrow> Inr (reply env response sock (s\<lparr>node := n\<rparr>))
                | Inl e \<Rightarrow> if e = UB then Inl UB else Inr (reply env (error (what e)) sock (s\<lparr>node := thrown env (node s)\<rparr>)))
      | BATCH_COMMAND \<Rightarrow>
          if srv_password s \<noteq> [] \<and> auth_key r \<noteq> srv_auth_key s
          then Inr (eya_close_socket (net env) sock (reply env (error ''Authentication required'') sock s))
          else (case submit_batch_command (cluster env) (commands r) (node s) of
                  Inr (responses, n) \<Rightarrow>
                    Inr (tcp_send (eya_close_socket (net env)) (net env) (ser_batch (req_id r, responses)) sock (s\<lparr>node := n\<rparr>))
                | Inl e \<Rightarrow> if e = UB then Inl UB else Inr (reply env (error (what e)) sock (s\<lparr>node := thrown env (node s)\<rparr>))))"

definition eya_handle_request :: "bool \<Rightarrow> eya_env \<Rightarrow> request \<Rightarrow> fd \<Rightarrow> eya_server \<Rightarrow> unit res \<times> eya_server" where
  "eya_handle_request is_submitted env body sock s =
     (Inr (), if is_submitted then s\<lparr>tasks := tasks s @ [(body, sock)]\<rparr>
              else reply env (error ''Server busy,please try again'') sock s)"

text \<open>A worker takes the first task and runs it.\<close>

definition run_next_task :: "eya_env \<Rightarrow> eya_server \<Rightarrow> eya_server res" where
  "run_next_task env s = (case tasks s of [] \<Rightarrow> Inr s | (r, sock) # ts \<Rightarrow> process_request env r sock (s\<lparr>tasks := ts\<rparr>))"

section \<open>Connections are counted\<close>

text \<open>
  The connections of a server: as many as it counts, at most as many as allowed, no socket twice, none both served
  and waiting, every one without authentication among those served, every session on an event loop that exists.
\<close>

definition conn_ok ::
  "u32 \<Rightarrow> u32 \<Rightarrow> u32 \<Rightarrow> (fd \<times> tcp_session) list \<Rightarrow> (fd \<times> nat) list \<Rightarrow> event_loop list \<Rightarrow> (fd \<times> nat) list \<Rightarrow> bool" where
  "conn_ok mx qs cur ses wq loops wa \<longleftrightarrow>
     distinct (map fst ses) \<and> distinct (map fst wq) \<and> fst ` set ses \<inter> fst ` set wq = {} \<and>
     length ses \<le> unat mx \<and> cur = word_of_nat (length ses) \<and> length wq \<le> unat qs \<and>
     fst ` set wa \<subseteq> fst ` set ses \<and> loops \<noteq> [] \<and> (\<forall>(sock, se) \<in> set ses. slave_index se < length loops)"

abbreviation conn_inv :: "eya_server \<Rightarrow> bool" where
  "conn_inv s \<equiv> conn_ok (max_connections s) (connect_wait_queue_size s) (current_connections s) (all_sessions s) (wait_queue s)
     (slave_loops s) (connections_without_auth s)"

lemma set_alist_update: "set (AList.update k v l) \<subseteq> insert (k, v) (set l)"
  by (induction l) auto

lemma keys_alist_update: "fst ` set (AList.update k v l) = insert k (fst ` set l)"
  by (induction l) auto

lemma keys_alist_delete: "fst ` set (AList.delete k l) = fst ` set l - {k}"
  by (metis delete_keys image_set set_removeAll)

lemma u32_bound: "unat (x :: u32) < 4294967296"
  using unsigned_less [where w = x] by simp

lemma conn_ok_count: "conn_ok mx qs cur ses wq loops wa \<Longrightarrow> unat cur = length ses"
  using u32_bound [of mx] by (simp add: conn_ok_def unat_of_nat_lt)

lemma conn_ok_loops: "conn_ok mx qs cur ses wq loops wa \<Longrightarrow> length loops' = length loops \<Longrightarrow> conn_ok mx qs cur ses wq loops' wa"
  by (auto simp: conn_ok_def)

lemma conn_ok_session:
  assumes "conn_ok mx qs cur ses wq loops wa" "map_of ses sock = Some se" "slave_index se' = slave_index se"
  shows "conn_ok mx qs cur (AList.update sock se' ses) wq loops wa"
proof -
  have k: "sock \<in> fst ` set ses" using assms(2) by (metis domI dom_map_of_conv_image_fst)
  then have keys: "map fst (AList.update sock se' ses) = map fst ses" by (simp add: update_keys)
  then have "length (AList.update sock se' ses) = length ses" "fst ` set (AList.update sock se' ses) = fst ` set ses"
    by (metis length_map, metis image_set)
  moreover have "slave_index se < length loops" using assms(1) map_of_SomeD [OF assms(2)] by (auto simp: conn_ok_def)
  moreover from this have "\<forall>(k, v) \<in> set (AList.update sock se' ses). slave_index v < length loops"
    using assms(1,3) set_alist_update [of sock se' ses] by (auto simp: conn_ok_def)
  ultimately show ?thesis using assms(1) keys by (simp add: conn_ok_def)
qed

lemma conn_ok_auth: "conn_ok mx qs cur ses wq loops wa \<Longrightarrow> fst ` set wa' \<subseteq> fst ` set wa \<Longrightarrow> conn_ok mx qs cur ses wq loops wa'"
  by (simp add: conn_ok_def subset_trans [of _ "fst ` set wa"])

lemma conn_ok_auth_insert:
  "conn_ok mx qs cur ses wq loops wa \<Longrightarrow> sock \<in> fst ` set ses \<Longrightarrow> fst ` set wa' = insert sock (fst ` set wa) \<Longrightarrow> conn_ok mx qs cur ses wq loops wa'"
  by (simp add: conn_ok_def)

lemma conn_ok_delete:
  assumes "conn_ok mx qs cur ses wq loops wa" "map_of ses sock = Some se" "sock \<notin> fst ` set wa"
  shows "conn_ok mx qs (cur - 1) (AList.delete sock ses) wq loops wa" "0 < cur" "length (AList.delete sock ses) < unat mx"
    "fst ` set (AList.delete sock ses) = fst ` set ses - {sock}"
proof -
  have k: "sock \<in> set (map fst ses)" using assms(2) by (metis domI dom_map_of_conv_image_fst image_set)
  have "length (AList.delete sock ses) = length (removeAll sock (map fst ses))" by (metis delete_keys length_map)
  also have "\<dots> = length ses - 1" using assms(1) k by (simp add: conn_ok_def distinct_remove1_removeAll [symmetric] length_remove1)
  finally have l: "length (AList.delete sock ses) = length ses - 1" .
  have pos: "0 < length ses" using k by (cases ses) auto
  then have cur: "cur - 1 = word_of_nat (length ses - 1)" using assms(1) by (cases ses) (simp_all add: conn_ok_def)
  show ks: "fst ` set (AList.delete sock ses) = fst ` set ses - {sock}" by (rule keys_alist_delete)
  have "distinct (map fst (AList.delete sock ses))" using assms(1) by (simp add: conn_ok_def distinct_delete)
  moreover have "set (AList.delete sock ses) \<subseteq> set ses" by (induction ses) auto
  ultimately show "conn_ok mx qs (cur - 1) (AList.delete sock ses) wq loops wa"
    using assms(1,3) l cur ks unfolding conn_ok_def by auto
  show "length (AList.delete sock ses) < unat mx" using assms(1) l pos unfolding conn_ok_def by linarith
  have "unat cur = length ses" using conn_ok_count [OF assms(1)] .
  then show "0 < cur" using pos by (simp add: word_less_nat_alt)
qed

lemma conn_ok_add:
  assumes "conn_ok mx qs cur ses wq loops wa" "sock \<notin> fst ` set ses" "sock \<notin> fst ` set wq" "length ses < unat mx" "slave_index se < length loops"
  shows "conn_ok mx qs (cur + 1) (AList.update sock se ses) wq loops wa"
proof -
  have "AList.update sock se ses = ses @ [(sock, se)]" using assms(2) by (induction ses) auto
  then show ?thesis using assms by (auto simp: conn_ok_def algebra_simps)
qed

lemma conn_ok_dequeue: "conn_ok mx qs cur ses (w # q) loops wa \<Longrightarrow> conn_ok mx qs cur ses q loops wa"
  by (auto simp: conn_ok_def)

lemma delete_absent: "k \<notin> fst ` set l \<Longrightarrow> AList.delete k l = l"
  by (induction l) auto


section \<open>Closing and accepting keep the count\<close>

lemma insert_without_auth_simps [simp]:
  "max_connections (insert_without_auth env sock s) = max_connections s" "connect_wait_queue_size (insert_without_auth env sock s) = connect_wait_queue_size s"
  "current_connections (insert_without_auth env sock s) = current_connections s" "all_sessions (insert_without_auth env sock s) = all_sessions s"
  "wait_queue (insert_without_auth env sock s) = wait_queue s" "slave_loops (insert_without_auth env sock s) = slave_loops s"
  "node (insert_without_auth env sock s) = node s" "tasks (insert_without_auth env sock s) = tasks s" "wire (insert_without_auth env sock s) = wire s"
  "srv_password (insert_without_auth env sock s) = srv_password s" "srv_auth_key (insert_without_auth env sock s) = srv_auth_key s"
  "shut (insert_without_auth env sock s) = shut s"
  "fst ` set (connections_without_auth (insert_without_auth env sock s)) = insert sock (fst ` set (connections_without_auth s))"
  by (auto simp: insert_without_auth_def)

lemma send_connection_state_simps [simp]:
  "max_connections (send_connection_state env st sock s) = max_connections s" "connect_wait_queue_size (send_connection_state env st sock s) = connect_wait_queue_size s"
  "current_connections (send_connection_state env st sock s) = current_connections s" "all_sessions (send_connection_state env st sock s) = all_sessions s"
  "wait_queue (send_connection_state env st sock s) = wait_queue s" "slave_loops (send_connection_state env st sock s) = slave_loops s"
  "node (send_connection_state env st sock s) = node s" "tasks (send_connection_state env st sock s) = tasks s"
  "srv_password (send_connection_state env st sock s) = srv_password s" "srv_auth_key (send_connection_state env st sock s) = srv_auth_key s"
  "shut (send_connection_state env st sock s) = shut s"
  "connections_without_auth (send_connection_state env st sock s) = connections_without_auth s"
  by (simp_all add: send_connection_state_def split: prod.splits)

text \<open>A socket that is new to a server with room: served from now on, or refused by the event loop.\<close>

definition open_fds :: "eya_server \<Rightarrow> fd set" where
  "open_fds s = fst ` set (all_sessions s) \<union> fst ` set (wait_queue s)"

lemma serve_conn_inv:
  assumes "conn_inv s" "sock \<notin> open_fds s" "length (all_sessions s) < unat (max_connections s)" "assign_to_slave env sock s = (ok, s1)"
  shows "ok \<Longrightarrow> conn_inv (send_connection_state env st sock (insert_without_auth env sock (s1\<lparr>current_connections := current_connections s1 + 1\<rparr>)))"
    and "\<not> ok \<Longrightarrow> conn_inv s1"
proof -
  have idx: "unat (next_slave s) mod length (slave_loops s) < length (slave_loops s)" using assms(1) by (simp add: conn_ok_def)
  show "conn_inv (send_connection_state env st sock (insert_without_auth env sock (s1\<lparr>current_connections := current_connections s1 + 1\<rparr>)))" if ok
  proof -
    have "conn_ok (max_connections s) (connect_wait_queue_size s) (current_connections s + 1)
        (AList.update sock (session_new env (unat (next_slave s) mod length (slave_loops s))) (all_sessions s)) (wait_queue s) (slave_loops s)
        (connections_without_auth s)"
      using conn_ok_add [OF assms(1) _ _ assms(3)] assms(2) idx by (simp add: open_fds_def session_new_def)
    then have "conn_inv (s1\<lparr>current_connections := current_connections s1 + 1\<rparr>)" "sock \<in> fst ` set (all_sessions s1)"
      using assms(4) that by (auto simp: assign_to_slave_def Let_def keys_alist_update intro: conn_ok_loops split: if_splits)
    then show ?thesis by (simp add: conn_ok_auth_insert)
  qed
  show "conn_inv s1" if "\<not> ok"
    using assms that delete_absent [of sock "all_sessions s"] by (auto simp: assign_to_slave_def Let_def open_fds_def split: if_splits)
qed

text \<open>What closing a socket leaves: the session is gone, others stay, and one that waited may be served.\<close>

lemma close_conn_inv:
  assumes "conn_inv s"
  shows "conn_inv (eya_close_socket env sock s)"
proof (cases "map_of (all_sessions s) sock")
  case None
  then show ?thesis using assms
    by (simp add: eya_close_socket_def tcp_close_socket_def remove_from_slave_def conn_ok_auth [OF assms] keys_alist_delete Diff_subset)
next
  case (Some se)
  let ?wa = "AList.delete sock (connections_without_auth s)"
  have wa: "conn_ok (max_connections s) (connect_wait_queue_size s) (current_connections s) (all_sessions s) (wait_queue s) (slave_loops s) ?wa"
    "sock \<notin> fst ` set ?wa" using assms by (simp_all add: conn_ok_auth [OF assms] keys_alist_delete Diff_subset)
  define loops where "loops = (slave_loops s)[slave_index se := remove_socket sock (slave_loops s ! slave_index se)]"
  define s2 where "s2 = s\<lparr>connections_without_auth := ?wa, all_sessions := AList.delete sock (all_sessions s), slave_loops := loops,
    shut := shut s @ [sock], current_connections := current_connections s - 1\<rparr>"
  have inv2: "conn_inv s2" using conn_ok_delete(1) [OF wa(1) Some wa(2)] by (simp add: s2_def loops_def conn_ok_loops)
  have room: "length (all_sessions s2) < unat (max_connections s2)" using conn_ok_delete(3) [OF wa(1) Some wa(2)] by (simp add: s2_def)
  have close: "eya_close_socket env sock s = (case wait_queue s2 of [] \<Rightarrow> s2
      | (w, _) # q \<Rightarrow> (case assign_to_slave env w (s2\<lparr>wait_queue := q\<rparr>) of
          (False, s3) \<Rightarrow> s3\<lparr>shut := shut s3 @ [w]\<rparr>
        | (True, s3) \<Rightarrow> on_wait_queue_activated env w (s3\<lparr>current_connections := current_connections s3 + 1\<rparr>)))"
    using Some conn_ok_delete(2) [OF wa(1) Some wa(2)]
    by (cases "wait_queue s") (auto simp: eya_close_socket_def tcp_close_socket_def remove_from_slave_def s2_def loops_def)
  show ?thesis
  proof (cases "wait_queue s2")
    case (Cons wt q)
    obtain w t where [simp]: "wt = (w, t)" by (cases wt)
    obtain ok s3 where a: "assign_to_slave env w (s2\<lparr>wait_queue := q\<rparr>) = (ok, s3)" by (metis prod.exhaust)
    have "conn_inv (s2\<lparr>wait_queue := q\<rparr>)" "w \<notin> open_fds (s2\<lparr>wait_queue := q\<rparr>)"
      using inv2 Cons by (auto simp: conn_ok_def open_fds_def)
    from serve_conn_inv [OF this _ a] room show ?thesis
      using close Cons a by (cases ok) (auto simp: on_wait_queue_activated_def)
  qed (use close inv2 in simp)
qed

lemma assign_fields:
  "assign_to_slave env w (s :: eya_server) = (ok, s1) \<Longrightarrow> node s1 = node s \<and> tasks s1 = tasks s \<and> srv_password s1 = srv_password s \<and> srv_auth_key s1 = srv_auth_key s"
  by (auto simp: assign_to_slave_def Let_def split: if_splits)

lemma close_fields [simp]:
  "node (eya_close_socket env sock s) = node s" "tasks (eya_close_socket env sock s) = tasks s"
  "srv_password (eya_close_socket env sock s) = srv_password s" "srv_auth_key (eya_close_socket env sock s) = srv_auth_key s"
  by (simp_all add: eya_close_socket_def tcp_close_socket_def remove_from_slave_def on_wait_queue_activated_def Let_def
      split: option.split list.split prod.split bool.split) (auto dest!: assign_fields)

lemma close_removes:
  assumes "sock \<notin> fst ` set (wait_queue s)"
  shows "map_of (all_sessions (eya_close_socket env sock s)) sock = None"
  using assms
  by (auto simp: eya_close_socket_def tcp_close_socket_def remove_from_slave_def assign_to_slave_def on_wait_queue_activated_def Let_def
      update_conv' delete_conv' split: option.splits list.splits prod.splits if_splits)

lemma close_subset: "open_fds (eya_close_socket env sock s) \<subseteq> open_fds s"
  by (auto simp: open_fds_def eya_close_socket_def tcp_close_socket_def remove_from_slave_def assign_to_slave_def on_wait_queue_activated_def Let_def
      keys_alist_update keys_alist_delete split: option.splits list.splits prod.splits if_splits)

section \<open>Every step keeps the count\<close>

lemma upd_session_conn_inv:
  assumes "conn_inv s" "\<And>se. slave_index (f se) = slave_index se"
  shows "conn_inv (upd_session sock f s)"
  using assms conn_ok_session [OF assms(1), of sock _ "f _"] by (simp add: upd_session_def split: option.split)

lemma upd_session_fields [simp]:
  "max_connections (upd_session sock f s) = max_connections s" "slave_loops (upd_session sock f s) = slave_loops s"
  "wait_queue (upd_session sock f s) = wait_queue s" "wire (upd_session sock f s) = wire s" "shut (upd_session sock f s) = shut s"
  by (simp_all add: upd_session_def split: option.split)

lemma upd_session_eya [simp]:
  fixes s :: eya_server
  shows "node (upd_session sock f s) = node s" "tasks (upd_session sock f s) = tasks s" "srv_password (upd_session sock f s) = srv_password s"
    "srv_auth_key (upd_session sock f s) = srv_auth_key s" "connections_without_auth (upd_session sock f s) = connections_without_auth s"
    "open_fds (upd_session sock f s) = open_fds s"
  by (auto simp: upd_session_def open_fds_def keys_alist_update split: option.splits) (metis domI dom_map_of_conv_image_fst)

lemma flush_conn_inv:
  assumes "conn_inv s"
  shows "conn_inv (flush_send_buffer (eya_close_socket env') env sock s)"
proof (cases "map_of (all_sessions s) sock")
  case (Some se)
  obtain failed taken left where l: "send_loop (sends env sock) (send_buffer se) = (failed, taken, left)" by (metis prod.exhaust)
  define s1 where "s1 = upd_session sock (\<lambda>se. se\<lparr>send_buffer := left\<rparr>) (s\<lparr>wire := (wire s)(sock := wire s sock @ taken)\<rparr>)"
  have s1: "conn_inv s1" unfolding s1_def by (rule upd_session_conn_inv) (simp_all add: assms)
  then have "conn_inv (s1\<lparr>slave_loops := (slave_loops s1)[i := el]\<rparr>)" for i el by (simp add: conn_ok_loops [OF s1])
  then show ?thesis using Some l assms s1 close_conn_inv
    by (simp add: flush_send_buffer_def s1_def [symmetric] split: if_split)
qed (simp add: flush_send_buffer_def assms)

lemma send_conn_inv:
  assumes "conn_inv s"
  shows "conn_inv (async_send (eya_close_socket env') env sock data s)" "conn_inv (tcp_send (eya_close_socket env') env b sock s)"
proof -
  show 1: "conn_inv (async_send (eya_close_socket env') env sock data s)" for data
    using flush_conn_inv [OF upd_session_conn_inv [OF assms, of "\<lambda>se. se\<lparr>send_buffer := send_buffer se @ data\<rparr>" sock], of env' env sock] assms
    by (simp add: async_send_def split: option.split)
  show "conn_inv (tcp_send (eya_close_socket env') env b sock s)" unfolding tcp_send_def by (rule 1)
qed

lemma flush_fields [simp]:
  "node (flush_send_buffer (eya_close_socket env') env sock s) = node s" "tasks (flush_send_buffer (eya_close_socket env') env sock s) = tasks s"
  "srv_password (flush_send_buffer (eya_close_socket env') env sock s) = srv_password s"
  "srv_auth_key (flush_send_buffer (eya_close_socket env') env sock s) = srv_auth_key s"
  by (simp_all add: flush_send_buffer_def Let_def split: option.split prod.split)

lemma send_fields [simp]:
  "node (tcp_send (eya_close_socket env') env b sock s) = node s" "tasks (tcp_send (eya_close_socket env') env b sock s) = tasks s"
  "srv_password (tcp_send (eya_close_socket env') env b sock s) = srv_password s"
  "srv_auth_key (tcp_send (eya_close_socket env') env b sock s) = srv_auth_key s"
  by (simp_all add: tcp_send_def async_send_def split: option.split)

lemma process_conn_inv:
  assumes "conn_inv s" "process_request env r sock s = Inr s'"
  shows "conn_inv s'"
proof -
  have auth: "conn_inv (s\<lparr>connections_without_auth := AList.delete sock (connections_without_auth s)\<rparr>)"
    by (simp add: conn_ok_auth [OF assms(1)] keys_alist_delete Diff_subset)
  have "conn_inv (s\<lparr>node := n\<rparr>)" for n using assms(1) by simp
  then show ?thesis using assms auth
    by (cases "req_type r") (auto simp: process_request_def intro!: send_conn_inv close_conn_inv split: if_splits sum.splits)
qed

lemma accept_one_conn_inv:
  assumes "conn_inv s" "sock \<notin> open_fds s"
  shows "conn_inv (accept_one env sock s)"
proof -
  obtain ok s1 where a: "assign_to_slave env sock s = (ok, s1)" by (metis prod.exhaust)
  have "current_connections s < max_connections s \<Longrightarrow> length (all_sessions s) < unat (max_connections s)"
    using conn_ok_count [OF assms(1)] by (simp add: word_less_nat_alt)
  note serve = serve_conn_inv [OF assms this a]
  show ?thesis
  proof (cases "current_connections s < max_connections s")
    case True
    then show ?thesis using serve a by (cases ok) (auto simp: accept_one_def)
  next
    case False
    then show ?thesis using assms by (auto simp: accept_one_def conn_ok_def open_fds_def)
  qed
qed

lemma fold_close_conn_inv: "conn_inv s \<Longrightarrow> conn_inv (fold (eya_close_socket env) socks s)"
  by (induction socks arbitrary: s) (simp_all add: close_conn_inv)

lemma auth_monitor_conn_inv:
  assumes "conn_inv s"
  shows "conn_inv (auth_monitor_round env s)"
proof -
  have "conn_inv (s\<lparr>connections_without_auth := filter P (connections_without_auth s)\<rparr>)" for P
    using conn_ok_auth [OF assms, of "filter P (connections_without_auth s)"] by auto
  then show ?thesis by (simp add: auth_monitor_round_def Let_def fold_close_conn_inv)
qed

lemma drop_expired_split: "drop_expired now t q = (closing, left) \<Longrightarrow> closing @ map fst left = map fst q"
  by (induction now t q arbitrary: closing left rule: drop_expired.induct) (auto simp: Let_def split: if_splits prod.splits)

lemma queue_monitor_conn_inv:
  assumes "conn_inv s"
  shows "conn_inv (queue_monitor_round env s)"
proof -
  obtain closing left where d: "drop_expired (now_ms env) (unat (connect_wait_timeout s) * 1000) (wait_queue s) = (closing, left)" by (metis prod.exhaust)
  have k: "map fst (wait_queue s) = closing @ map fst left" using drop_expired_split [OF d] by simp
  then have "length left \<le> length (wait_queue s)" "fst ` set left \<subseteq> fst ` set (wait_queue s)"
    by (metis length_append length_map le_add2, metis Un_upper2 image_set set_append)
  then show ?thesis using assms d k by (auto simp: queue_monitor_round_def conn_ok_def)
qed

lemma process_frames_inv:
  assumes "\<And>b s. I s \<Longrightarrow> I (snd (h b sock s))" "I s"
  shows "I (snd (process_frames dec h sock rest s))"
  using assms(2)
proof (induction "length rest" arbitrary: rest s rule: less_induct)
  case less
  have I: "I s1" if "h b sock s = (r, s1)" for b r s1 using assms(1) [OF less.prems, of b] that by simp
  have "I (snd (process_frames dec h sock (drop (HEADER_SIZE + n) rest) s1))" if "h b sock s = (r, s1)" "HEADER_SIZE \<le> length rest" for b r s1 n
    using less.hyps [OF _ I [OF that(1)], of "drop (HEADER_SIZE + n) rest"] that(2) by (simp add: HEADER_SIZE_def)
  then show ?case using less.prems I
    by (subst process_frames.simps) (auto simp: Let_def split: sum.split prod.split)
qed

lemma handle_conn_inv: "conn_inv s \<Longrightarrow> conn_inv (snd (eya_handle_request is_submitted env b sock s))"
  by (simp add: eya_handle_request_def send_conn_inv)

lemma read_conn_inv:
  assumes "conn_inv s"
  shows "conn_inv (snd (handle_client_read (eya_close_socket env) deserialize_request (\<lambda>r. eya_handle_request (sub r) eenv r) sock rs s))"
proof (cases "map_of (all_sessions s) sock")
  case (Some se)
  obtain closing buf where l: "recv_loop rs (recv_buffer se) = (closing, buf)" by (metis prod.exhaust)
  define s1 where "s1 = upd_session sock (\<lambda>se. se\<lparr>recv_buffer := buf\<rparr>) s"
  have s1: "conn_inv s1" unfolding s1_def by (rule upd_session_conn_inv) (simp_all add: assms)
  obtain r s2 where p: "process_frames deserialize_request (\<lambda>r. eya_handle_request (sub r) eenv r) sock buf s1 = (r, s2)" by (metis prod.exhaust)
  have "conn_inv (snd (process_frames deserialize_request (\<lambda>r. eya_handle_request (sub r) eenv r) sock buf s1))"
    by (rule process_frames_inv [where I = conn_inv]) (rule handle_conn_inv, assumption, rule s1)
  then have s2: "conn_inv s2" unfolding p snd_conv .
  then have "conn_inv (upd_session sock (\<lambda>se. se\<lparr>recv_buffer := rest\<rparr>) s2)" for rest by (rule upd_session_conn_inv) simp
  then show ?thesis using Some l p s1 s2 close_conn_inv
    by (auto simp: handle_client_read_def s1_def [symmetric] split: sum.split prod.split bool.split)
qed (simp add: handle_client_read_def assms)

section \<open>The server as a whole\<close>

text \<open>
  What the system promises about \<open>accept\<close>: the socket it returns is not open already.
\<close>

fun fresh_accepts :: "tcp_env \<Rightarrow> accept_result list \<Rightarrow> eya_server \<Rightarrow> bool" where
  "fresh_accepts env [] s = True"
| "fresh_accepts env (AcceptFailed # rs) s = True"
| "fresh_accepts env (Accepted sock # rs) s = (sock \<notin> open_fds s \<and> fresh_accepts env rs (accept_one env sock s))"

text \<open>The events of a server that has started: connections, bytes, writable sockets, a worker that runs a task, the two monitors, the end.\<close>

inductive eya_step :: "eya_server \<Rightarrow> eya_server \<Rightarrow> bool" where
  ev_accept: "fresh_accepts env rs s \<Longrightarrow> eya_step s (eya_handle_accept env rs s)"
| ev_read: "handle_client_read (eya_close_socket (net env)) deserialize_request (\<lambda>r. eya_handle_request (sub r) env r) sock rs s = (Inr (), s') \<Longrightarrow> eya_step s s'"
| ev_write: "eya_step s (handle_client_write (eya_close_socket env) env sock s)"
| ev_task: "run_next_task env s = Inr s' \<Longrightarrow> eya_step s s'"
| ev_auth: "eya_step s (auth_monitor_round env s)"
| ev_queue: "eya_step s (queue_monitor_round env s)"
| ev_stop: "eya_step s (eya_stop env s)"

inductive eya_reach :: "eya_server \<Rightarrow> eya_server \<Rightarrow> bool" for s0 where
  reach_init: "eya_reach s0 s0"
| reach_event: "eya_reach s0 s \<Longrightarrow> eya_step s s' \<Longrightarrow> eya_reach s0 s'"

lemma accept_conn_inv: "conn_inv s \<Longrightarrow> fresh_accepts env rs s \<Longrightarrow> conn_inv (eya_handle_accept env rs s)"
  by (induction env rs s rule: eya_handle_accept.induct) (simp_all add: accept_one_conn_inv)

lemma stop_conn_inv:
  assumes "conn_inv s"
  shows "conn_inv (eya_stop env s)"
proof -
  have "conn_inv (s\<lparr>is_running := False, shut := shut s @ map fst (wait_queue s), wait_queue := []\<rparr>)" using assms by (simp add: conn_ok_def)
  from fold_close_conn_inv [OF this] show ?thesis using assms by (simp add: eya_stop_def tcp_stop_def)
qed

lemma step_conn_inv: "eya_step s s' \<Longrightarrow> conn_inv s \<Longrightarrow> conn_inv s'"
proof (induction rule: eya_step.induct)
  case (ev_read env sub sock rs s s')
  then show ?case using read_conn_inv [of s "net env" sub env sock rs] by simp
next
  case (ev_task env s s')
  then show ?case by (auto simp: run_next_task_def dest!: process_conn_inv [rotated] split: list.splits)
qed (simp_all add: accept_conn_inv handle_client_write_def flush_conn_inv auth_monitor_conn_inv queue_monitor_conn_inv stop_conn_inv)

text \<open>A server that has been made and started.\<close>

lemma started_conn_inv:
  "eya_server_new distr pw mx qs wt n = Inr s \<Longrightarrow> conn_inv (tcp_server_start hc s)"
  by (cases pw) (auto simp: eya_server_new_def tcp_server_start_def conn_ok_def generate_random_string_def)

lemma reach_conn_inv: "eya_reach s0 s \<Longrightarrow> conn_inv s0 \<Longrightarrow> conn_inv s"
  by (induction rule: eya_reach.induct) (auto intro: step_conn_inv)

text \<open>What is fixed when the server is made.\<close>

definition limits :: "eya_server \<Rightarrow> u32 \<times> u32 \<times> string \<times> string" where
  "limits s = (max_connections s, connect_wait_queue_size s, srv_password s, srv_auth_key s)"

lemma limits_simps [simp]:
  "limits (upd_session sock f s) = limits s" "limits (insert_without_auth env sock s) = limits s" "limits (send_connection_state env st sock s) = limits s"
  by (simp_all add: limits_def upd_session_def split: option.split)

lemma assign_limits: "assign_to_slave env w s = (ok, s1) \<Longrightarrow> limits s1 = limits s"
  by (auto simp: assign_to_slave_def limits_def Let_def split: if_splits)

lemma limits_other [simp]:
  "limits (s\<lparr>shut := a\<rparr>) = limits s" "limits (s\<lparr>current_connections := b\<rparr>) = limits s" "limits (s\<lparr>wait_queue := c\<rparr>) = limits s"
  "limits (s\<lparr>wire := d\<rparr>) = limits s" "limits (s\<lparr>slave_loops := e\<rparr>) = limits s" "limits (s\<lparr>all_sessions := f\<rparr>) = limits s"
  "limits (s\<lparr>connections_without_auth := g\<rparr>) = limits s" "limits (s\<lparr>tasks := h\<rparr>) = limits s" "limits (s\<lparr>node := i\<rparr>) = limits s"
  "limits (s\<lparr>is_running := j\<rparr>) = limits s"
  by (simp_all add: limits_def)

lemma close_limits [simp]: "limits (eya_close_socket env sock s) = limits s"
  by (simp add: eya_close_socket_def tcp_close_socket_def remove_from_slave_def on_wait_queue_activated_def Let_def
      split: option.split list.split prod.split bool.split) (auto dest!: assign_limits)

lemma flush_limits [simp]: "limits (flush_send_buffer (eya_close_socket env') env sock s) = limits s"
  by (simp add: flush_send_buffer_def Let_def split: option.split prod.split)

lemma send_limits [simp]: "limits (tcp_send (eya_close_socket env') env b sock s) = limits s"
  by (simp add: tcp_send_def async_send_def split: option.split)

lemma process_limits: "process_request env r sock s = Inr s' \<Longrightarrow> limits s' = limits s"
  by (cases "req_type r") (auto simp: process_request_def split: if_splits sum.splits)

lemma fold_close_limits [simp]: "limits (fold (eya_close_socket env) socks s) = limits s"
  by (induction socks arbitrary: s) simp_all

lemma accept_limits: "limits (accept_one env sock s) = limits s"
  by (auto simp: accept_one_def dest!: assign_limits split: prod.split bool.split)

lemma read_limits:
  "limits (snd (handle_client_read (eya_close_socket env) deserialize_request (\<lambda>r. eya_handle_request (sub r) eenv r) sock rs s)) = limits s"
proof -
  have "limits s2 = limits s1" if "process_frames deserialize_request (\<lambda>r. eya_handle_request (sub r) eenv r) sock buf s1 = (r, s2)" for buf s1 s2 r
    using process_frames_inv [where I = "\<lambda>s. limits s = limits s1" and h = "\<lambda>r. eya_handle_request (sub r) eenv r" and sock = sock
      and s = s1 and dec = deserialize_request and rest = buf] that by (simp add: eya_handle_request_def)
  then show ?thesis by (auto simp: handle_client_read_def Let_def split: option.split prod.split sum.split bool.split)
qed

lemma step_limits: "eya_step s s' \<Longrightarrow> limits s' = limits s"
proof (induction rule: eya_step.induct)
  case (ev_accept env rs s)
  then show ?case by (induction env rs s rule: eya_handle_accept.induct) (simp_all add: accept_limits)
next
  case (ev_read env sub sock rs s s')
  then show ?case using read_limits [of "net env" sub env sock rs s] by simp
next
  case (ev_task env s s')
  then show ?case by (auto simp: run_next_task_def dest!: process_limits split: list.splits)
qed (simp_all add: handle_client_write_def auth_monitor_round_def queue_monitor_round_def eya_stop_def tcp_stop_def Let_def split: prod.split)

lemma reach_limits: "eya_reach s0 s \<Longrightarrow> limits s = limits s0"
  by (induction rule: eya_reach.induct) (auto dest: step_limits)

section \<open>Requests wait in order\<close>

text \<open>Accepting a request is all a reader has to do with it.\<close>

interpretation eyar: frame_reader ser_request deserialize_request request_ok request_norm "eya_handle_request True env" for env
proof unfold_locales
  fix m sock s buf
  show "fst (eya_handle_request True env m sock s) = Inr ()" by (simp add: eya_handle_request_def)
  show "map_of (all_sessions (snd (eya_handle_request True env m sock s))) sock \<noteq> None" if "map_of (all_sessions s) sock \<noteq> None"
    using that by (simp add: eya_handle_request_def)
  show "snd (eya_handle_request True env m sock (set_recv sock buf s)) = set_recv sock buf (snd (eya_handle_request True env m sock s))"
    by (simp add: eya_handle_request_def set_recv_def upd_session_def split: option.split)
qed

lemma handle_all_tasks: "eyar.handle_all env sock ms s = s\<lparr>tasks := tasks s @ map (\<lambda>m. (request_norm m, sock)) ms\<rparr>"
  unfolding eyar.handle_all_def by (induction ms arbitrary: s) (simp_all add: eya_handle_request_def)

abbreviation read_bursts :: "eya_env \<Rightarrow> fd \<Rightarrow> bytes list list \<Rightarrow> eya_server \<Rightarrow> eya_server" where
  "read_bursts env sock bursts s \<equiv>
     fold (\<lambda>ps s. snd (handle_client_read (eya_close_socket (net env)) deserialize_request (eya_handle_request True env) sock (map Data ps) s)) bursts s"

lemma read_bursts_tasks:
  assumes "list_all (\<lambda>r. request_ok r \<and> length (ser_request r) \<le> HEADER_SIZE_LIMIT) ms"
    "map_of (all_sessions s) sock = Some se" "recv_buffer se = []"
    "concat (map concat bursts) = concat (map (\<lambda>r. framed_body (ser_request r)) ms)" "list_all (\<lambda>ps. [] \<notin> set ps) bursts"
  shows "read_bursts env sock bursts s = s\<lparr>tasks := tasks s @ map (\<lambda>r. (request_norm r, sock)) ms\<rparr>"
proof -
  have fits: "list_all rqf.fits ms" using assms(1) by (simp add: list_all_iff rqf.fits_def)
  have st: "rqf.stream ms = recv_buffer se @ concat (map concat bursts)" using assms(3,4) by (simp add: rqf.stream_def)
  have none: "bursts = [] \<longrightarrow> ms = []"
  proof
    assume "bursts = []"
    then have "length (concat (map (\<lambda>r. framed_body (ser_request r)) ms)) = 0" using assms(4) by simp
    then show "ms = []" by (cases ms) (simp_all add: HEADER_SIZE_def del: length_0_conv)
  qed
  let ?s1 = "s\<lparr>tasks := tasks s @ map (\<lambda>r. (request_norm r, sock)) ms\<rparr>"
  have "read_bursts env sock bursts s = set_recv sock [] ?s1"
    using eyar.read_events [OF fits assms(2) st assms(5) none, of "eya_close_socket (net env)" env] by (simp add: handle_all_tasks)
  also have "\<dots> = ?s1" using set_recv_simps(3) [of ?s1 sock se "[]"] assms(2,3) by simp
  finally show ?thesis .
qed

section \<open>Answers\<close>

lemma close_queue: "fst ` set (wait_queue (eya_close_socket env k s)) \<subseteq> fst ` set (wait_queue s)"
  by (auto simp: eya_close_socket_def tcp_close_socket_def remove_from_slave_def assign_to_slave_def on_wait_queue_activated_def Let_def
      split: option.splits list.splits prod.splits if_splits)

lemma flush_queue: "fst ` set (wait_queue (flush_send_buffer (eya_close_socket env') env sock s)) \<subseteq> fst ` set (wait_queue s)"
proof -
  have "fst ` set (wait_queue (eya_close_socket env' sock t)) \<subseteq> fst ` set (wait_queue s)" if "wait_queue t = wait_queue s" for t
    using close_queue [of env' sock t] that by simp
  then show ?thesis by (simp add: flush_send_buffer_def Let_def split: option.split prod.split)
qed

lemma send_queue: "fst ` set (wait_queue (tcp_send (eya_close_socket env') env b sock s)) \<subseteq> fst ` set (wait_queue s)"
  using flush_queue [of env' env sock "upd_session sock (\<lambda>se. se\<lparr>send_buffer := send_buffer se @ framed_body b\<rparr>) s"]
  by (simp add: tcp_send_def async_send_def split: option.split)

lemma process_allowed:
  assumes "stays_open sock s" "srv_password s = [] \<or> auth_key r = srv_auth_key s" "req_type r = COMMAND"
    "submit_command (cluster env) (req_id r) (command r) (node s) = Inr (response, n)"
  shows "\<exists>s'. process_request env r sock s = Inr s' \<and> node s' = n \<and> tasks s' = tasks s \<and> stays_open sock s' \<and>
    outgoing sock s' = outgoing sock s @ framed_body (ser_response response)"
proof -
  have "stays_open sock (s\<lparr>node := n\<rparr>)" "outgoing sock (s\<lparr>node := n\<rparr>) = outgoing sock s"
    using assms(1) by (simp_all add: stays_open_def outgoing_def)
  then show ?thesis using assms(2-4) send_keeps_order [of sock "s\<lparr>node := n\<rparr>" "eya_close_socket (net env)" "net env" "framed_body (ser_response response)"]
    by (auto simp: process_request_def) (simp_all add: tcp_send_def)
qed

fun serve_all :: "(eya_env \<times> request \<times> fd) list \<Rightarrow> eya_server \<Rightarrow> eya_server res" where
  "serve_all [] s = Inr s"
| "serve_all ((env, r, sock) # rs) s = rbind (process_request env r sock s) (serve_all rs)"

lemma process_without_key:
  assumes "srv_password s \<noteq> []" "req_type r = COMMAND \<or> req_type r = BATCH_COMMAND \<Longrightarrow> auth_key r \<noteq> srv_auth_key s"
  shows "\<exists>s'. process_request env r sock s = Inr s' \<and> node s' = node s \<and> srv_password s' = srv_password s \<and> srv_auth_key s' = srv_auth_key s"
  using assms by (cases "req_type r") (simp_all add: process_request_def)

lemma fold_close_removes:
  assumes "sock \<in> set socks" "sock \<notin> fst ` set (wait_queue s)"
  shows "map_of (all_sessions (fold (eya_close_socket env) socks s)) sock = None"
proof -
  have gone: "open_fds (fold (eya_close_socket env) ks t) \<subseteq> open_fds t" for ks t
  proof (induction ks arbitrary: t)
    case (Cons k ks)
    show ?case using subset_trans [OF Cons.IH close_subset, of env k t] by simp
  qed simp
  have queue: "fst ` set (wait_queue (fold (eya_close_socket env) ks t)) \<subseteq> fst ` set (wait_queue t)" for ks t
  proof (induction ks arbitrary: t)
    case (Cons k ks)
    show ?case using subset_trans [OF Cons.IH close_queue, of env k t] by simp
  qed simp
  obtain as bs where l: "socks = as @ sock # bs" using split_list [OF assms(1)] by blast
  let ?t = "fold (eya_close_socket env) as s"
  have "map_of (all_sessions (eya_close_socket env sock ?t)) sock = None" "sock \<notin> fst ` set (wait_queue (eya_close_socket env sock ?t))"
    using close_removes [of sock ?t env] assms(2) queue [of as s] close_queue [of env sock ?t] by blast+
  then have "sock \<notin> open_fds (eya_close_socket env sock ?t)" by (simp add: open_fds_def map_of_eq_None_iff)
  then have "sock \<notin> open_fds (fold (eya_close_socket env) bs (eya_close_socket env sock ?t))" using gone by blast
  then show ?thesis using l by (simp add: open_fds_def map_of_eq_None_iff)
qed

section \<open>Properties\<close>


text \<open>
  C24: When the server has a password, requests without the key reach nothing: whatever requests that are no commands, or are
  commands with another key, are processed, in any number, from any connections, the node with its log and its store stays as it is.
\<close>

theorem no_key_no_effect:
  assumes "srv_password s \<noteq> []"
    "\<forall>(env, r, sock) \<in> set rs. req_type r = COMMAND \<or> req_type r = BATCH_COMMAND \<longrightarrow> auth_key r \<noteq> srv_auth_key s"
  shows "\<exists>s'. serve_all rs s = Inr s' \<and> node s' = node s"
  using assms
proof (induction rs arbitrary: s)
  case (Cons x rs)
  obtain env r sock where [simp]: "x = (env, r, sock)" by (metis prod.exhaust)
  obtain s1 where s1: "process_request env r sock s = Inr s1" "node s1 = node s" "srv_password s1 = srv_password s" "srv_auth_key s1 = srv_auth_key s"
    using process_without_key [of s r env sock] Cons.prems by auto
  then obtain s' where "serve_all rs s1 = Inr s'" "node s' = node s1" using Cons.IH [of s1] Cons.prems by auto
  then show ?case using s1 by simp
qed simp

text \<open>
  A command without the key ends its connection: once it has been processed the server has no session for the socket any more.
\<close>

theorem no_key_closes_connection:
  assumes "srv_password s \<noteq> []" "req_type r = COMMAND \<or> req_type r = BATCH_COMMAND" "auth_key r \<noteq> srv_auth_key s"
    "sock \<notin> fst ` set (wait_queue s)"
  shows "\<exists>s'. process_request env r sock s = Inr s' \<and> map_of (all_sessions s') sock = None \<and> node s' = node s"
proof -
  let ?t = "reply env (error ''Authentication required'') sock s"
  have "sock \<notin> fst ` set (wait_queue ?t)" using send_queue [of "net env" "net env" _ sock s] assms(4) by blast
  then show ?thesis using assms(1-3) close_removes [of sock ?t "net env"] by (auto simp: process_request_def)
qed

text \<open>
  After a round of the authentication monitor, no connection is left that has been served for more than two seconds without
  authenticating.
\<close>

theorem auth_monitor_closes:
  assumes "eya_server_new distr pw mx qs wt n = Inr s0" "eya_reach (tcp_server_start hc s0) s"
    "(sock, start) \<in> set (connections_without_auth s)" "2000 < now_ms env - start"
  shows "map_of (all_sessions (auth_monitor_round env s)) sock = None"
proof -
  have inv: "conn_inv s" using reach_conn_inv [OF assms(2) started_conn_inv [OF assms(1)]] .
  then have "sock \<in> fst ` set (all_sessions s)" "fst ` set (all_sessions s) \<inter> fst ` set (wait_queue s) = {}"
    using assms(3) by (force simp: conn_ok_def)+
  then have "sock \<notin> fst ` set (wait_queue s)" by blast
  moreover have "sock \<in> set (map fst (filter (\<lambda>(sock, start). 2000 < now_ms env - start) (connections_without_auth s)))"
    using assms(3,4) by force
  ultimately show ?thesis unfolding auth_monitor_round_def Let_def by (intro fold_close_removes) simp_all
qed



section \<open>Witnesses\<close>

definition net_example :: tcp_env where
  "net_example = \<lparr>now_ms = 0, add_ok = (\<lambda>_. True), sends = (\<lambda>_. [])\<rparr>"

definition eya_example :: eya_server where
  "eya_example =
     \<lparr>max_connections = 1, connect_wait_queue_size = 1, connect_wait_timeout = 30, current_connections = 0, all_sessions = [], wait_queue = [],
      slave_loops = [], next_slave = 0, is_running = False, wire = (\<lambda>_. []), shut = [], srv_password = ''pw'',
      srv_auth_key = replicate 32 (CHR ''0''), connections_without_auth = [], tasks = [], node = sample_leader [] [] []\<rparr>"

definition eya_served :: eya_server where
  "eya_served = eya_handle_accept net_example [Accepted 7, Accepted 8] (tcp_server_start 1 eya_example)"

definition env_example :: eya_env where
  "env_example = \<lparr>net = net_example, cluster = sample_cluster, thrown = id\<rparr>"

lemma eya_example_new: "eya_server_new (\<lambda>_. 0) ''pw'' 1 1 30 (sample_leader [] [] []) = Inr eya_example"
proof -
  have "map (\<lambda>i. charset ! 0) [0..<32] = replicate 32 (CHR ''0'')" by (simp add: charset_def map_replicate_const)
  then show ?thesis by (simp add: eya_server_new_def eya_example_def generate_random_string_def)
qed

lemma eya_served_reach: "eya_reach (tcp_server_start 1 eya_example) eya_served"
proof -
  have "fresh_accepts net_example [Accepted 7, Accepted 8] (tcp_server_start 1 eya_example)"
    by (simp add: open_fds_def tcp_server_start_def eya_example_def accept_one_def assign_to_slave_def net_example_def Let_def)
  from reach_event [OF reach_init ev_accept [OF this]] show ?thesis by (simp add: eya_served_def)
qed

lemma eya_served_fields:
  "all_sessions eya_served = [(7, session_new net_example 0)]" "wait_queue eya_served = [(8, 0)]" "connections_without_auth eya_served = [(7, 0)]"
  "srv_password eya_served = ''pw''" "srv_auth_key eya_served = replicate 32 (CHR ''0'')" "tasks eya_served = []" "node eya_served = sample_leader [] [] []"
  by (simp_all add: eya_served_def tcp_server_start_def eya_example_def accept_one_def assign_to_slave_def net_example_def session_new_def Let_def insert_without_auth_def)


theorem no_key_no_effect_witness:
  "\<exists>s'. serve_all [(env_example, createCommand ''1'' ''set a b'' ''guess'', 7)] eya_served = Inr s' \<and> node s' = sample_leader [] [] []"
  using no_key_no_effect [of eya_served "[(env_example, createCommand ''1'' ''set a b'' ''guess'', 7)]"]
  by (simp add: eya_served_fields createCommand_def request_new_def numeral_eq_Suc)

theorem no_key_closes_connection_witness:
  "\<exists>s'. process_request env_example (createCommand ''1'' ''set a b'' ''guess'') 7 eya_served = Inr s' \<and> map_of (all_sessions s') 7 = None \<and>
     node s' = node eya_served"
  by (rule no_key_closes_connection) (simp_all add: eya_served_fields createCommand_def request_new_def numeral_eq_Suc)

theorem auth_monitor_closes_witness:
  "map_of (all_sessions (auth_monitor_round (net_example\<lparr>now_ms := 2001\<rparr>) eya_served)) 7 = None"
  using auth_monitor_closes [OF eya_example_new eya_served_reach, of 7 0 "net_example\<lparr>now_ms := 2001\<rparr>"] by (simp add: eya_served_fields)

lemma small_request: "request_ok (createCommand ''1'' '''' (replicate 32 (CHR ''0'')))"
  "length (ser_request (createCommand ''1'' '''' (replicate 32 (CHR ''0'')))) \<le> HEADER_SIZE_LIMIT"
  by (simp_all add: createCommand_def request_new_def request_ok_def string_ok_def ser_request_def HEADER_SIZE_LIMIT_def)



end
