(* ===== verification/Config.thy ===== *)
theory Config
  imports StringUtils Doubles "HOL-Library.AList"
begin

text \<open>
  The configuration (\<open>include/config/config.h\<close>), the paths it uses (\<open>include/common/util/path_utils.h\<close>), and how the
  starter turns it into the parameters of the log, the storage engine, the Raft node and the server (\<open>src/starter/starter.cpp\<close>).

  The environment variables are the argument \<open>getenv\<close>, the file is an argument: absent, unreadable, or its
  text. The path of the executable and the resolution of a path by the file system are arguments; the branches are
  those of Linux. The keys and the defaults stand as their texts; \<open>std::to_string\<close> of
  the two floating-point defaults is their text with six digits. The comments of the generated file, which are not
  in ASCII, are the argument \<open>comment\<close>.
\<close>

section \<open>Paths\<close>

text \<open>\<open>resolve\<close>: what \<open>realpath\<close>, or \<open>weakly_canonical\<close> for a path that does not exist, gives, if anything.\<close>

definition combine_path :: "(string \<Rightarrow> string option) \<Rightarrow> string \<Rightarrow> string \<Rightarrow> string" where
  "combine_path resolve dir file =
     (if dir = [] then file else if file = [] then dir
      else let full_path = (if last dir \<noteq> CHR ''/'' then dir @ ''/'' else dir) @ file
           in case resolve full_path of Some p \<Rightarrow> p | None \<Rightarrow> full_path)"

definition up_to_last_slash :: "string \<Rightarrow> string option" where
  "up_to_last_slash p = (if CHR ''/'' \<in> set p then Some (rev (tl (dropWhile (\<lambda>c. c \<noteq> CHR ''/'') (rev p)))) else None)"

definition get_exe_dir :: "string \<Rightarrow> string" where
  "get_exe_dir exe_path =
     (case up_to_last_slash exe_path of
        None \<Rightarrow> ''./''
      | Some exe_dir \<Rightarrow> (case up_to_last_slash exe_dir of Some d \<Rightarrow> d @ ''/'' | None \<Rightarrow> exe_dir @ ''/''))"

definition get_target_file_path :: "(string \<Rightarrow> string option) \<Rightarrow> string \<Rightarrow> string \<Rightarrow> string" where
  "get_target_file_path resolve exe_path relative_path = combine_path resolve (get_exe_dir exe_path) relative_path"

section \<open>Loading\<close>

type_synonym config_map = "(string \<times> string) list"

definition get_config :: "string \<Rightarrow> config_map \<Rightarrow> string option" where
  "get_config key m = map_of m key"

definition put_all :: "(string \<times> string) list \<Rightarrow> config_map \<Rightarrow> config_map" where
  "put_all kvs = fold (\<lambda>(k, v). AList.update k v) kvs"

text \<open>\<open>target\<close> is \<open>get_target_file_path\<close> and \<open>wal_path\<close> the directory of the log under the data directory.\<close>

definition default_entries :: "(string \<Rightarrow> string) \<Rightarrow> string \<Rightarrow> u32 \<Rightarrow> (string \<times> string) list" where
  "default_entries target wal_path hardware_concurrency =
    [
     (''log_dir'', target ''logs''), (''data_dir'', target ''data''), (''wal_dir'', wal_path), (''log_console_enabled'', ''true''),
     (''log_level'', nat_to_string 1), (''log_rotate_size'', nat_to_string (1024 * 1024)), (''ip'', ''0.0.0.0''), (''port'', nat_to_string 5210),
     (''read_only'', ''false''), (''password'', ''''), (''skiplist_max_level'', nat_to_string 16), (''skiplist_probability'', ''0.500000''),
     (''skiplist_max_node_count'', nat_to_string 10000000), (''memtable_size'', nat_to_string (1024 * 1024)), (''wal_enable'', ''true''),
     (''wal_file_size'', nat_to_string (1024 * 1024 * 10)), (''wal_file_max_count'', nat_to_string 10), (''wal_flush_strategy'', nat_to_string 0),
     (''wal_flush_interval'', nat_to_string 1000), (''sstable_merge_strategy'', nat_to_string 0), (''sstable_merge_threshold'', nat_to_string 5),
     (''sstable_zero_level_size'', nat_to_string 10), (''sstable_level_size_ratio'', nat_to_string 10), (''max_connections'', nat_to_string 10000),
     (''memory_pool_size'', nat_to_string (1024 * 3)), (''waiting_queue_size'', nat_to_string 100), (''max_waiting_time'', nat_to_string 30),
     (''worker_thread_count'', nat_to_string (unat (hardware_concurrency + 1))), (''worker_queue_size'', nat_to_string 1000),
     (''worker_wait_timeout'', nat_to_string 30), (''batch_timeout'', nat_to_string 500), (''raft_port'', nat_to_string 5211),
     (''raft_trust_ip'', ''127.0.0.1''), (''raft_election_timeout_min_ms'', nat_to_string 150),
     (''raft_election_timeout_max_ms'', nat_to_string 300), (''raft_heartbeat_interval_ms'', nat_to_string 30),
     (''raft_rpc_timeout_ms'', nat_to_string 2000), (''raft_follower_idle_wait_ms'', nat_to_string 1000),
     (''raft_join_max_retries'', nat_to_string 3), (''raft_request_vote_timeout_ms'', nat_to_string 200),
     (''raft_submit_timeout_ms'', nat_to_string 500), (''raft_append_entries_max_batch'', nat_to_string 1000),
     (''raft_snapshot_chunk_size_bytes'', nat_to_string (64 * 1024)), (''raft_result_cache_capacity'', nat_to_string 10000),
     (''raft_threadpool_workers'', nat_to_string 4), (''raft_threadpool_queue_size'', nat_to_string 10000),
     (''raft_threadpool_wait_timeout_ms'', nat_to_string 1000), (''raft_log_size_threshold'', nat_to_string 1000000),
     (''raft_log_truncate_ratio'', ''0.250000''), (''raft_wal_filename'', ''raft_wal.log''), (''raft_index_filename'', ''raft_index.idx''),
     (''raft_need_majority_confirm'', ''false'')]"

definition load_default_config :: "(string \<Rightarrow> string) \<Rightarrow> string \<Rightarrow> u32 \<Rightarrow> config_map" where
  "load_default_config target wal_path hardware_concurrency = put_all (default_entries target wal_path hardware_concurrency) []"

definition newline :: char where "newline = CHR 0x0A"

text \<open>The lines \<open>std::getline\<close> reads: there is none after the last end of line.\<close>

definition file_lines :: "string \<Rightarrow> string list" where
  "file_lines text = (let ls = split text newline in if last ls = [] then butlast ls else ls)"

definition parse_line :: "string \<Rightarrow> (string \<times> string) option res" where
  "parse_line raw =
     (let line = takeWhile (\<lambda>c. c \<noteq> CHR ''#'') raw
      in if line = [] then Inr None
         else if CHR ''='' \<notin> set line then Inl (RuntimeError (''Invalid config line (missing '='): '' @ line))
         else rbind (trim (takeWhile (\<lambda>c. c \<noteq> CHR ''='') line)) (\<lambda>key.
              rbind (trim (tl (dropWhile (\<lambda>c. c \<noteq> CHR ''='') line))) (\<lambda>value.
                if key = [] \<or> value = [] then Inl (RuntimeError (''Invalid config line (empty key or value): '' @ line))
                else Inr (Some (key, value)))))"

fun load_lines :: "string list \<Rightarrow> config_map \<Rightarrow> config_map res" where
  "load_lines [] m = Inr m"
| "load_lines (l # ls) m =
     rbind (parse_line l) (\<lambda>e. case e of None \<Rightarrow> load_lines ls m | Some (key, value) \<Rightarrow> load_lines ls (AList.update key value m))"

text \<open>What stands at the path of the file: nothing, a file of that path that cannot be opened, or a text.\<close>

datatype config_file = Absent | Unreadable string | Text string

definition load_config :: "config_file \<Rightarrow> config_map \<Rightarrow> config_map res" where
  "load_config file m =
     (case file of Absent \<Rightarrow> Inr m | Unreadable path \<Rightarrow> Inl (RuntimeError (''Failed to open config file: '' @ path)) | Text text \<Rightarrow> load_lines (file_lines text) m)"

definition ENV_KEY_MAP :: "(string \<times> string) list" where
  "ENV_KEY_MAP =
    [
     (''port'', ''EYAKV_PORT''), (''ip'', ''EYAKV_IP''), (''raft_port'', ''EYAKV_RAFT_PORT''), (''raft_trust_ip'', ''EYAKV_RAFT_TRUST_IP''),
     (''log_level'', ''EYAKV_LOG_LEVEL''), (''log_rotate_size'', ''EYAKV_LOG_ROTATE_SIZE''), (''log_dir'', ''EYAKV_LOG_DIR''),
     (''log_console_enabled'', ''EYAKV_LOG_CONSOLE_ENABLED''), (''read_only'', ''EYAKV_READ_ONLY''), (''memtable_size'', ''EYAKV_MEMTABLE_SIZE''),
     (''data_dir'', ''EYAKV_DATA_DIR''), (''skiplist_max_level'', ''EYAKV_SKIPLIST_MAX_LEVEL''),
     (''skiplist_probability'', ''EYAKV_SKIPLIST_PROBABILITY''), (''skiplist_max_node_count'', ''EYAKV_SKIPLIST_MAX_NODE_COUNT''),
     (''wal_enable'', ''EYAKV_WAL_ENABLE''), (''wal_dir'', ''EYAKV_WAL_DIR''), (''wal_file_size'', ''EYAKV_WAL_FILE_SIZE''),
     (''wal_file_max_count'', ''EYAKV_WAL_FILE_MAX_COUNT''), (''wal_flush_interval'', ''EYAKV_WAL_FLUSH_INTERVAL''),
     (''wal_flush_strategy'', ''EYAKV_WAL_FLUSH_STRATEGY''), (''sstable_merge_strategy'', ''EYAKV_SSTABLE_MERGE_STRATEGY''),
     (''sstable_zero_level_size'', ''EYAKV_SSTABLE_ZERO_LEVEL_SIZE''), (''sstable_level_size_ratio'', ''EYAKV_SSTABLE_LEVEL_SIZE_RATIO''),
     (''sstable_merge_threshold'', ''EYAKV_SSTABLE_MERGE_THRESHOLD''), (''max_connections'', ''EYAKV_MAX_CONNECTIONS''),
     (''memory_pool_size'', ''EYAKV_MEMORY_POOL_SIZE''), (''waiting_queue_size'', ''EYAKV_WAITING_QUEUE_SIZE''),
     (''max_waiting_time'', ''EYAKV_MAX_WAITING_TIME''), (''password'', ''EYAKV_PASSWORD''),
     (''worker_thread_count'', ''EYAKV_WORKER_THREAD_COUNT''), (''worker_queue_size'', ''EYAKV_WORKER_QUEUE_SIZE''),
     (''worker_wait_timeout'', ''EYAKV_WORKER_WAIT_TIMEOUT''), (''raft_election_timeout_min_ms'', ''EYAKV_RAFT_ELECTION_TIMEOUT_MIN_MS''),
     (''raft_election_timeout_max_ms'', ''EYAKV_RAFT_ELECTION_TIMEOUT_MAX_MS''),
     (''raft_heartbeat_interval_ms'', ''EYAKV_RAFT_HEARTBEAT_INTERVAL_MS''), (''raft_rpc_timeout_ms'', ''EYAKV_RAFT_RPC_TIMEOUT_MS''),
     (''raft_follower_idle_wait_ms'', ''EYAKV_RAFT_FOLLOWER_IDLE_WAIT_MS''), (''raft_join_max_retries'', ''EYAKV_RAFT_JOIN_MAX_RETRIES''),
     (''raft_request_vote_timeout_ms'', ''EYAKV_RAFT_REQUEST_VOTE_TIMEOUT_MS''), (''raft_submit_timeout_ms'', ''EYAKV_RAFT_SUBMIT_TIMEOUT_MS''),
     (''raft_append_entries_max_batch'', ''EYAKV_RAFT_APPEND_ENTRIES_MAX_BATCH''), (''raft_log_size_threshold'', ''EYAKV_RAFT_LOG_SIZE_THRESHOLD''),
     (''raft_log_truncate_ratio'', ''EYAKV_RAFT_LOG_TRUNCATE_RATIO''), (''raft_wal_filename'', ''EYAKV_RAFT_WAL_FILENAME''),
     (''raft_index_filename'', ''EYAKV_RAFT_INDEX_FILENAME''), (''raft_need_majority_confirm'', ''EYAKV_RAFT_NEED_MAJORITY_CONFIRM''),
     (''raft_snapshot_chunk_size_bytes'', ''EYAKV_RAFT_SNAPSHOT_CHUNK_SIZE_BYTES''),
     (''raft_result_cache_capacity'', ''EYAKV_RAFT_RESULT_CACHE_CAPACITY''), (''raft_threadpool_workers'', ''EYAKV_RAFT_THREADPOOL_WORKERS''),
     (''raft_threadpool_queue_size'', ''EYAKV_RAFT_THREADPOOL_QUEUE_SIZE''),
     (''raft_threadpool_wait_timeout_ms'', ''EYAKV_RAFT_THREADPOOL_WAIT_TIMEOUT_MS''), (''batch_timeout'', ''EYAKV_BATCH_TIMEOUT'')]"

definition load_config_from_env :: "(string \<Rightarrow> string option) \<Rightarrow> config_map \<Rightarrow> config_map" where
  "load_config_from_env getenv m =
     fold (\<lambda>(config_key, env_key) m. case getenv env_key of
             Some env_value \<Rightarrow> if env_value \<noteq> [] then AList.update config_key env_value m else m
           | None \<Rightarrow> m) ENV_KEY_MAP m"

section \<open>Checks\<close>

datatype check = CheckInt string int int | CheckBool string | CheckProbability

definition INT32_MAX :: int where "INT32_MAX = 2147483647"

text \<open>The error of the range check is thrown inside the block that catches the errors of \<open>stoi\<close>.\<close>

definition check_int :: "string \<Rightarrow> int \<Rightarrow> int \<Rightarrow> config_map \<Rightarrow> unit res" where
  "check_int key min_val max_val m =
     (case map_of m key of
        None \<Rightarrow> Inr ()
      | Some v \<Rightarrow>
          (case rbind (stoi v) (\<lambda>i. if i < min_val \<or> max_val < i then Inl (RuntimeError (''Invalid range for '' @ key @ '': '' @ v)) else Inr ()) of
             Inr _ \<Rightarrow> Inr ()
           | Inl _ \<Rightarrow> Inl (RuntimeError (''Invalid integer format for '' @ key @ '': '' @ v))))"

definition check_bool :: "string \<Rightarrow> config_map \<Rightarrow> unit res" where
  "check_bool key m =
     (case map_of m key of
        None \<Rightarrow> Inr ()
      | Some v \<Rightarrow> if v \<notin> {''true'', ''false'', ''0'', ''1''} then Inl (RuntimeError (''Invalid boolean format for '' @ key @ '': '' @ v)) else Inr ())"

definition one_double :: double where "one_double = mk_double False (1023 * 2 ^ 52)"

definition double_le :: "double \<Rightarrow> double \<Rightarrow> bool" where
  "double_le x y \<longleftrightarrow> double_lt x y \<or> double_eq x y"

definition check_probability :: "config_map \<Rightarrow> unit res" where
  "check_probability m =
     (case map_of m ''skiplist_probability'' of
        None \<Rightarrow> Inr ()
      | Some v \<Rightarrow> rbind (stod v) (\<lambda>prob.
          if double_le prob 0 \<or> double_le one_double prob then Inl (RuntimeError (''Invalid skiplist_probability: '' @ v)) else Inr ()))"

fun run_check :: "check \<Rightarrow> config_map \<Rightarrow> unit res" where
  "run_check (CheckInt key lo hi) m = check_int key lo hi m"
| "run_check (CheckBool key) m = check_bool key m"
| "run_check CheckProbability m = check_probability m"

definition config_checks :: "check list" where
  "config_checks =
    [
     CheckInt ''log_level'' 0 4, CheckInt ''log_rotate_size'' 1 INT32_MAX, CheckInt ''port'' 1024 65535, CheckBool ''read_only'',
     CheckInt ''skiplist_max_level'' 1 64, CheckProbability, CheckInt ''skiplist_max_node_count'' 1 INT32_MAX,
     CheckInt ''memtable_size'' 1 INT32_MAX, CheckBool ''wal_enable'', CheckInt ''wal_file_size'' 1 INT32_MAX,
     CheckInt ''wal_file_max_count'' 1 INT32_MAX, CheckInt ''wal_flush_strategy'' 0 2, CheckInt ''wal_flush_interval'' 1 INT32_MAX,
     CheckInt ''sstable_merge_strategy'' 0 1, CheckInt ''sstable_merge_threshold'' 1 INT32_MAX, CheckInt ''sstable_zero_level_size'' 1 INT32_MAX,
     CheckInt ''sstable_level_size_ratio'' 2 INT32_MAX, CheckInt ''max_connections'' 1 100000, CheckInt ''memory_pool_size'' 1 INT32_MAX,
     CheckInt ''waiting_queue_size'' 1 INT32_MAX, CheckInt ''max_waiting_time'' 1 INT32_MAX, CheckInt ''worker_thread_count'' 1 INT32_MAX,
     CheckInt ''worker_queue_size'' 1 INT32_MAX, CheckInt ''worker_wait_timeout'' 1 INT32_MAX]"

fun run_checks :: "check list \<Rightarrow> config_map \<Rightarrow> unit res" where
  "run_checks [] m = Inr ()"
| "run_checks (c # cs) m = rbind (run_check c m) (\<lambda>_. run_checks cs m)"

definition check_config :: "config_map \<Rightarrow> unit res" where
  "check_config m = run_checks config_checks m"

section \<open>The generated file\<close>

definition config_line :: "string \<Rightarrow> string \<Rightarrow> string \<Rightarrow> string" where
  "config_line key value note = key @ ''='' @ value @ ''  # '' @ note"

definition default_lines :: "(nat \<Rightarrow> string) \<Rightarrow> (string \<Rightarrow> string) \<Rightarrow> string \<Rightarrow> u32 \<Rightarrow> string list" where
  "default_lines comment target wal_path hardware_concurrency =
    [
     ''# '' @ comment 0, ''# '' @ comment 1, ''# '' @ comment 2, ''# '' @ comment 3, '''', ''# '' @ comment 4, config_line ''ip'' (''0.0.0.0'') (comment 5),
     config_line ''port'' (nat_to_string 5210) (comment 6), config_line ''raft_port'' (nat_to_string 5211) (comment 7),
     config_line ''raft_trust_ip'' (''127.0.0.1'') (comment 8), config_line ''max_connections'' (nat_to_string 10000) (comment 9),
     config_line ''read_only'' (''false'') (comment 10), '''', ''# '' @ comment 11, config_line ''log_level'' (nat_to_string 1) (comment 12),
     config_line ''log_rotate_size'' (nat_to_string (1024 * 1024)) (comment 13), config_line ''log_console_enabled'' (''true'') (comment 14),
     config_line ''log_dir'' (target ''logs'') (comment 15), '''', ''# '' @ comment 16, config_line ''skiplist_max_level'' (nat_to_string 16) (comment 17),
     config_line ''skiplist_probability'' (''0.5'') (comment 18), config_line ''skiplist_max_node_count'' (nat_to_string 10000000) (comment 19), '''',
     ''# '' @ comment 20, config_line ''memtable_size'' (nat_to_string (1024 * 1024)) (comment 21), '''', ''# '' @ comment 22,
     config_line ''wal_enable'' (''true'') (comment 23), config_line ''wal_dir'' (wal_path) (comment 24),
     config_line ''wal_file_size'' (nat_to_string (1024 * 1024 * 10)) (comment 25), config_line ''wal_file_max_count'' (nat_to_string 10) (comment 26),
     config_line ''wal_flush_interval'' (nat_to_string 1000) (comment 27), config_line ''wal_flush_strategy'' (nat_to_string 0) (comment 28), '''', ''# '' @ comment 29,
     config_line ''sstable_merge_strategy'' (nat_to_string 0) (comment 30), config_line ''sstable_merge_threshold'' (nat_to_string 5) (comment 31),
     config_line ''sstable_zero_level_size'' (nat_to_string 10) (comment 32), config_line ''sstable_level_size_ratio'' (nat_to_string 10) (comment 33), '''',
     ''# '' @ comment 34, config_line ''worker_thread_count'' (nat_to_string (unat (hardware_concurrency + 1))) (comment 35),
     config_line ''worker_queue_size'' (nat_to_string 1000) (comment 36), config_line ''worker_wait_timeout'' (nat_to_string 30) (comment 37),
     config_line ''memory_pool_size'' (nat_to_string (1024 * 3)) (comment 38), config_line ''waiting_queue_size'' (nat_to_string 100) (comment 39),
     config_line ''max_waiting_time'' (nat_to_string 30) (comment 40), '''', ''# '' @ comment 41,
     config_line ''raft_election_timeout_min_ms'' (nat_to_string 150) (comment 42), config_line ''raft_election_timeout_max_ms'' (nat_to_string 300) (comment 43),
     config_line ''raft_heartbeat_interval_ms'' (nat_to_string 30) (comment 44), config_line ''raft_rpc_timeout_ms'' (nat_to_string 2000) (comment 45),
     config_line ''raft_follower_idle_wait_ms'' (nat_to_string 1000) (comment 46), config_line ''raft_join_max_retries'' (nat_to_string 3) (comment 47),
     config_line ''raft_request_vote_timeout_ms'' (nat_to_string 200) (comment 48), config_line ''raft_submit_timeout_ms'' (nat_to_string 500) (comment 49),
     config_line ''raft_append_entries_max_batch'' (nat_to_string 1000) (comment 50),
     config_line ''raft_snapshot_chunk_size_bytes'' (nat_to_string (64 * 1024)) (comment 51),
     config_line ''raft_result_cache_capacity'' (nat_to_string 10000) (comment 52), config_line ''raft_threadpool_workers'' (nat_to_string 4) (comment 53),
     config_line ''raft_threadpool_queue_size'' (nat_to_string 10000) (comment 54), config_line ''raft_threadpool_wait_timeout_ms'' (nat_to_string 1000) (comment 55),
     config_line ''raft_log_size_threshold'' (nat_to_string 1000000) (comment 56), config_line ''raft_log_truncate_ratio'' (''0.25'') (comment 57),
     config_line ''raft_wal_filename'' (''raft_wal.log'') (comment 58), config_line ''raft_index_filename'' (''raft_index.idx'') (comment 59),
     config_line ''raft_need_majority_confirm'' (''false'') (comment 60), '''', ''# '' @ comment 61, config_line ''batch_timeout'' (nat_to_string 500) (comment 62),
     '''', ''# '' @ comment 63, ''#password=  # '' @ comment 64]"

definition generate_default_config_file :: "(nat \<Rightarrow> string) \<Rightarrow> (string \<Rightarrow> string) \<Rightarrow> string \<Rightarrow> u32 \<Rightarrow> string" where
  "generate_default_config_file comment target wal_path hardware_concurrency =
     concat (map (\<lambda>l. l @ [newline]) (default_lines comment target wal_path hardware_concurrency))"

section \<open>The configuration of a process\<close>

text \<open>The constructor: the values, and the file that is written when there was none. That writing fails is left out.\<close>

definition eyakv_config ::
  "(nat \<Rightarrow> string) \<Rightarrow> (string \<Rightarrow> string) \<Rightarrow> string \<Rightarrow> u32 \<Rightarrow> config_file \<Rightarrow> (string \<Rightarrow> string option) \<Rightarrow> (config_map \<times> config_file) res" where
  "eyakv_config comment target wal_path hc file getenv =
     rbind (load_config file (load_default_config target wal_path hc)) (\<lambda>m1.
       let m = load_config_from_env getenv m1
       in rbind (check_config m) (\<lambda>_.
            Inr (m, if file = Absent then Text (generate_default_config_file comment target wal_path hc) else file)))"

section \<open>What starter takes from the configuration\<close>

definition stoul :: "string \<Rightarrow> u64 res" where
  "stoul s = (case stoull s of Inr w \<Rightarrow> Inr w | Inl (InvalidArgument _) \<Rightarrow> Inl (InvalidArgument ''stoul'') | Inl e \<Rightarrow> Inl (OutOfRange ''stoul''))"

definition GetRequiredConfig :: "string \<Rightarrow> config_map \<Rightarrow> string res" where
  "GetRequiredConfig key m =
     (case get_config key m of
        Some v \<Rightarrow> if v = [] then Inl (RuntimeError (''Required configuration missing: '' @ key)) else Inr v
      | None \<Rightarrow> Inl (RuntimeError (''Required configuration missing: '' @ key)))"

text \<open>\<open>GetOptConfig\<close> for each type it is used at; a value that cannot be parsed is reported and counts as absent.\<close>

definition opt_config :: "(string \<Rightarrow> 'a res) \<Rightarrow> string \<Rightarrow> config_map \<Rightarrow> 'a option" where
  "opt_config parse key m =
     (case get_config key m of
        Some v \<Rightarrow> if v = [] then None else (case parse v of Inr x \<Rightarrow> Some x | Inl _ \<Rightarrow> None)
      | None \<Rightarrow> None)"

definition parse_bool :: "string \<Rightarrow> bool res" where
  "parse_bool v = Inr (v = ''1'' \<or> v = ''true'')"

definition parse_u32 :: "string \<Rightarrow> u32 res" where
  "parse_u32 v = rbind (stoul v) (\<lambda>w. Inr (ucast w))"

definition config_or :: "(string \<Rightarrow> 'a res) \<Rightarrow> string \<Rightarrow> 'a \<Rightarrow> config_map \<Rightarrow> 'a" where
  "config_or parse key default_val m = (case opt_config parse key m of Some x \<Rightarrow> x | None \<Rightarrow> default_val)"

record logger_config =
  lc_dir :: string
  lc_level :: int
  lc_rotate_size_mb :: u64
  lc_console :: bool

definition initialize_logger :: "config_map \<Rightarrow> logger_config res" where
  "initialize_logger m =
     rbind (GetRequiredConfig ''log_dir'' m) (\<lambda>dir.
       let level_int = config_or stoi ''log_level'' 1 m
       in Inr \<lparr>lc_dir = dir, lc_level = (if 0 \<le> level_int \<and> level_int \<le> 4 then level_int else 1),
               lc_rotate_size_mb = (case opt_config parse_u32 ''log_rotate_size'' m of Some n \<Rightarrow> ucast n | None \<Rightarrow> 5),
               lc_console = config_or parse_bool ''log_console_enabled'' True m\<rparr>)"

text \<open>The arguments of \<open>Storage::init\<close>.\<close>

record storage_params =
  sp_data_dir :: string
  sp_wal_dir :: string
  sp_read_only :: bool
  sp_wal_enable :: bool
  sp_wal_flush_interval :: "u32 option"
  sp_wal_flush_strategy :: int
  sp_memtable_size :: u32
  sp_skiplist_max_level :: u32
  sp_skiplist_prob :: double
  sp_merge_strategy :: int
  sp_merge_threshold :: u32
  sp_zero_level_size :: u64
  sp_level_size_ratio :: u32

definition initialize_storage :: "config_map \<Rightarrow> storage_params res" where
  "initialize_storage m =
     rbind (GetRequiredConfig ''data_dir'' m) (\<lambda>data_dir.
     rbind (GetRequiredConfig ''wal_dir'' m) (\<lambda>wal_dir.
       Inr \<lparr>sp_data_dir = data_dir, sp_wal_dir = wal_dir,
            sp_read_only = config_or parse_bool ''read_only'' False m, sp_wal_enable = config_or parse_bool ''wal_enable'' True m,
            sp_wal_flush_interval = opt_config parse_u32 ''wal_flush_interval'' m,
            sp_wal_flush_strategy = config_or stoi ''wal_flush_strategy'' 0 m,
            sp_memtable_size = config_or parse_u32 ''memtable_size'' 0 m, sp_skiplist_max_level = config_or parse_u32 ''skiplist_max_level'' 0 m,
            sp_skiplist_prob = config_or stod ''skiplist_probability'' (mk_double False (1022 * 2 ^ 52)) m,
            sp_merge_strategy = config_or stoi ''sstable_merge_strategy'' 0 m,
            sp_merge_threshold = config_or parse_u32 ''sstable_merge_threshold'' 0 m,
            sp_zero_level_size = config_or stoull ''sstable_zero_level_size'' 0 m,
            sp_level_size_ratio = config_or parse_u32 ''sstable_level_size_ratio'' 10 m\<rparr>))"

text \<open>The arguments of the server's constructor.\<close>

record server_params =
  vp_ip :: string
  vp_port :: "16 word"
  vp_password :: string
  vp_max_conn :: u32
  vp_wait_queue_size :: u32
  vp_max_waiting_time :: u32
  vp_worker_threads :: u32
  vp_worker_queue :: u32
  vp_worker_timeout :: u32

definition initialize_server :: "u32 \<Rightarrow> config_map \<Rightarrow> server_params res" where
  "initialize_server hardware_concurrency m =
     rbind (GetRequiredConfig ''ip'' m) (\<lambda>ip.
       Inr \<lparr>vp_ip = ip, vp_port = word_of_int (config_or stoi ''port'' 0 m), vp_password = config_or Inr ''password'' [] m,
            vp_max_conn = config_or parse_u32 ''max_connections'' 10000 m, vp_wait_queue_size = config_or parse_u32 ''waiting_queue_size'' 100 m,
            vp_max_waiting_time = config_or parse_u32 ''max_waiting_time'' 30 m,
            vp_worker_threads = config_or parse_u32 ''worker_thread_count'' (hardware_concurrency + 1) m,
            vp_worker_queue = config_or parse_u32 ''worker_queue_size'' 1000 m, vp_worker_timeout = config_or parse_u32 ''worker_wait_timeout'' 30 m\<rparr>)"

text \<open>The parameters of a Raft node; every one has a default that a value in the configuration replaces.\<close>

record raft_params =
  rp_election_timeout_min_ms :: int
  rp_election_timeout_max_ms :: int
  rp_heartbeat_interval_ms :: int
  rp_rpc_timeout_ms :: int
  rp_follower_idle_wait_ms :: int
  rp_join_cluster_max_retries :: int
  rp_request_vote_recv_timeout_ms :: int
  rp_submit_command_timeout_ms :: int
  rp_append_entries_max_batch :: u32
  rp_snapshot_chunk_size_bytes :: u64
  rp_need_majority_confirm :: bool
  rp_result_cache_capacity :: u64
  rp_batch_command_timeout_ms :: u32
  rp_thread_count :: u32
  rp_queue_size :: u32
  rp_wait_timeout_ms :: u32
  rp_log_size_threshold :: u32
  rp_truncate_ratio :: double
  rp_wal_filename :: string
  rp_index_filename :: string

definition raft_params_default :: raft_params where
  "raft_params_default =
     \<lparr>rp_election_timeout_min_ms = 150, rp_election_timeout_max_ms = 300, rp_heartbeat_interval_ms = 30, rp_rpc_timeout_ms = 2000,
      rp_follower_idle_wait_ms = 1000, rp_join_cluster_max_retries = 3, rp_request_vote_recv_timeout_ms = 200, rp_submit_command_timeout_ms = 500,
      rp_append_entries_max_batch = 1000, rp_snapshot_chunk_size_bytes = 64 * 1024, rp_need_majority_confirm = False, rp_result_cache_capacity = 10000,
      rp_batch_command_timeout_ms = 500, rp_thread_count = 4, rp_queue_size = 10000, rp_wait_timeout_ms = 1000,
      rp_log_size_threshold = 1000000, rp_truncate_ratio = mk_double False (1021 * 2 ^ 52), rp_wal_filename = ''raft_wal.log'', rp_index_filename = ''raft_index.idx''\<rparr>"

definition ApplyConfigIfExists :: "(string \<Rightarrow> 'a res) \<Rightarrow> string \<Rightarrow> ('a \<Rightarrow> 'c \<Rightarrow> 'c) \<Rightarrow> config_map \<Rightarrow> 'c \<Rightarrow> 'c" where
  "ApplyConfigIfExists parse key apply_func m cfg = (case opt_config parse key m of Some v \<Rightarrow> apply_func v cfg | None \<Rightarrow> cfg)"

definition raft_params_of :: "config_map \<Rightarrow> raft_params" where
  "raft_params_of m =
     fold (\<lambda>f. f m)
      [ApplyConfigIfExists stoi ''raft_election_timeout_min_ms'' (\<lambda>v c. c\<lparr>rp_election_timeout_min_ms := v\<rparr>),
       ApplyConfigIfExists stoi ''raft_election_timeout_max_ms'' (\<lambda>v c. c\<lparr>rp_election_timeout_max_ms := v\<rparr>),
       ApplyConfigIfExists stoi ''raft_heartbeat_interval_ms'' (\<lambda>v c. c\<lparr>rp_heartbeat_interval_ms := v\<rparr>),
       ApplyConfigIfExists stoi ''raft_rpc_timeout_ms'' (\<lambda>v c. c\<lparr>rp_rpc_timeout_ms := v\<rparr>),
       ApplyConfigIfExists stoi ''raft_follower_idle_wait_ms'' (\<lambda>v c. c\<lparr>rp_follower_idle_wait_ms := v\<rparr>),
       ApplyConfigIfExists stoi ''raft_join_max_retries'' (\<lambda>v c. c\<lparr>rp_join_cluster_max_retries := v\<rparr>),
       ApplyConfigIfExists stoi ''raft_request_vote_timeout_ms'' (\<lambda>v c. c\<lparr>rp_request_vote_recv_timeout_ms := v\<rparr>),
       ApplyConfigIfExists stoi ''raft_submit_timeout_ms'' (\<lambda>v c. c\<lparr>rp_submit_command_timeout_ms := v\<rparr>),
       ApplyConfigIfExists parse_u32 ''raft_append_entries_max_batch'' (\<lambda>v c. c\<lparr>rp_append_entries_max_batch := v\<rparr>),
       ApplyConfigIfExists stoull ''raft_snapshot_chunk_size_bytes'' (\<lambda>v c. c\<lparr>rp_snapshot_chunk_size_bytes := v\<rparr>),
       ApplyConfigIfExists parse_bool ''raft_need_majority_confirm'' (\<lambda>v c. c\<lparr>rp_need_majority_confirm := v\<rparr>),
       ApplyConfigIfExists stoull ''raft_result_cache_capacity'' (\<lambda>v c. c\<lparr>rp_result_cache_capacity := v\<rparr>),
       ApplyConfigIfExists parse_u32 ''batch_timeout'' (\<lambda>v c. c\<lparr>rp_batch_command_timeout_ms := v\<rparr>),
       ApplyConfigIfExists parse_u32 ''raft_threadpool_workers'' (\<lambda>v c. c\<lparr>rp_thread_count := v\<rparr>),
       ApplyConfigIfExists parse_u32 ''raft_threadpool_queue_size'' (\<lambda>v c. c\<lparr>rp_queue_size := v\<rparr>),
       ApplyConfigIfExists parse_u32 ''raft_threadpool_wait_timeout_ms'' (\<lambda>v c. c\<lparr>rp_wait_timeout_ms := v\<rparr>),
       ApplyConfigIfExists parse_u32 ''raft_log_size_threshold'' (\<lambda>v c. c\<lparr>rp_log_size_threshold := v\<rparr>),
       ApplyConfigIfExists stod ''raft_log_truncate_ratio'' (\<lambda>v c. c\<lparr>rp_truncate_ratio := v\<rparr>),
       ApplyConfigIfExists Inr ''raft_wal_filename'' (\<lambda>v c. c\<lparr>rp_wal_filename := v\<rparr>),
       ApplyConfigIfExists Inr ''raft_index_filename'' (\<lambda>v c. c\<lparr>rp_index_filename := v\<rparr>)] raft_params_default"

text \<open>The arguments of \<open>RaftNode::init\<close>: address, directory, trusted addresses and parameters. A port that is no number is not caught.\<close>

definition initialize_raft :: "config_map \<Rightarrow> (string \<times> string \<times> 16 word \<times> uset \<times> raft_params) res" where
  "initialize_raft m =
     rbind (GetRequiredConfig ''ip'' m) (\<lambda>ip.
     rbind (GetRequiredConfig ''raft_port'' m) (\<lambda>p.
     rbind (stoi p) (\<lambda>port.
     rbind (GetRequiredConfig ''data_dir'' m) (\<lambda>data_dir.
       let trusted = (case opt_config Inr ''raft_trust_ip'' m of
             Some ips \<Rightarrow> fold (\<lambda>x s. snd (uset_insert x s)) (split ips (CHR '','')) []
           | None \<Rightarrow> [])
       in Inr (data_dir, ip, word_of_int port, trusted, raft_params_of m)))))"

section \<open>The last value counts\<close>

lemma map_of_put_all: "map_of (put_all kvs m) = map_of m ++ map_of (rev kvs)"
proof (induction kvs arbitrary: m)
  case (Cons kv kvs)
  obtain k v where "kv = (k, v)" by (cases kv)
  then show ?case using Cons.IH [of "AList.update k v m"] by (auto simp: put_all_def update_conv' fun_eq_iff map_add_def split: option.splits)
qed (simp add: put_all_def)

fun parse_lines :: "string list \<Rightarrow> (string \<times> string) list res" where
  "parse_lines [] = Inr []"
| "parse_lines (l # ls) = rbind (parse_line l) (\<lambda>e. rbind (parse_lines ls) (\<lambda>es. Inr (case e of None \<Rightarrow> es | Some kv \<Rightarrow> kv # es)))"

lemma load_lines_parse: "load_lines ls m = rbind (parse_lines ls) (\<lambda>es. Inr (put_all es m))"
proof (induction ls arbitrary: m)
  case (Cons l ls)
  then show ?case
    by (cases "parse_line l"; cases "parse_lines ls") (auto simp: put_all_def split: option.split)
qed (simp add: put_all_def)

definition env_entries :: "(string \<Rightarrow> string option) \<Rightarrow> (string \<times> string) list" where
  "env_entries getenv = List.map_filter (\<lambda>(k, e). case getenv e of Some v \<Rightarrow> if v \<noteq> [] then Some (k, v) else None | None \<Rightarrow> None) ENV_KEY_MAP"

lemma load_env_put_all: "load_config_from_env getenv m = put_all (env_entries getenv) m"
proof -
  have "fold (\<lambda>(k, e) m. case getenv e of Some v \<Rightarrow> if v \<noteq> [] then AList.update k v m else m | None \<Rightarrow> m) kes m =
      put_all (List.map_filter (\<lambda>(k, e). case getenv e of Some v \<Rightarrow> if v \<noteq> [] then Some (k, v) else None | None \<Rightarrow> None) kes) m" for kes
    by (induction kes arbitrary: m) (auto simp: put_all_def map_filter_simps split: option.split)
  then show ?thesis by (simp add: load_config_from_env_def env_entries_def)
qed

section \<open>Checked values\<close>

lemma run_checks_all: "run_checks cs m = Inr () \<Longrightarrow> c \<in> set cs \<Longrightarrow> run_check c m = Inr ()"
  by (induction cs) (auto simp: rbind_eq_Inr_iff)

lemma check_int_ok: "check_int key lo hi m = Inr () \<Longrightarrow> map_of m key = Some v \<Longrightarrow> \<exists>i. stoi v = Inr i \<and> lo \<le> i \<and> i \<le> hi"
  by (cases "stoi v") (auto simp: check_int_def split: if_splits sum.splits)

lemma stoi_bound: "stoi v = Inr i \<Longrightarrow> i \<le> 2147483647"
  by (auto simp: stoi_def Let_def split: option.splits if_splits)

lemma stoi_stoull: "stoi v = Inr i \<Longrightarrow> 0 \<le> i \<Longrightarrow> stoull v = Inr (word_of_int i)"
  by (auto simp: stoi_def stoull_def Let_def split: option.splits if_splits)

lemma stoi_parse_u32: "stoi v = Inr i \<Longrightarrow> 0 \<le> i \<Longrightarrow> parse_u32 v = Inr (word_of_int i)"
  using stoi_stoull [of v i] stoi_bound [of v i] by (simp add: parse_u32_def stoul_def unsigned_of_int take_bit_int_eq_self)

lemma stoi_nonempty: "stoi v = Inr i \<Longrightarrow> v \<noteq> []"
  by (auto simp: stoi_def strto_parts_def)

section \<open>The generated file is read back\<close>

lemma split_loop_line: "newline \<notin> set l \<Longrightarrow> split_loop newline cur (l @ newline # text) = (cur @ l) # split_loop newline [] text"
  by (induction l arbitrary: cur) auto

lemma file_lines_concat: "list_all (\<lambda>l. newline \<notin> set l) ls \<Longrightarrow> file_lines (concat (map (\<lambda>l. l @ [newline]) ls)) = ls"
proof -
  have "split_loop newline [] (concat (map (\<lambda>l. l @ [newline]) ls)) = ls @ [[]]" if "list_all (\<lambda>l. newline \<notin> set l) ls"
    using that by (induction ls) (simp_all add: split_loop_line)
  then show "list_all (\<lambda>l. newline \<notin> set l) ls \<Longrightarrow> file_lines (concat (map (\<lambda>l. l @ [newline]) ls)) = ls"
    by (simp add: file_lines_def split_def)
qed

text \<open>A text that the file format can carry as a value: not empty, no end of line, no comment, no blank at its ends.\<close>

definition plain :: "string \<Rightarrow> bool" where
  "plain v \<longleftrightarrow> v \<noteq> [] \<and> length v < 2 ^ 32 \<and> newline \<notin> set v \<and> CHR ''#'' \<notin> set v \<and> \<not> isspace (hd v) \<and> \<not> isspace (last v)"

lemma trim_padded:
  assumes "plain v" "list_all isspace pad" "length pad < 2 ^ 32"
  shows "trim (v @ pad) = Inr v"
proof -
  have "dropWhile isspace (v @ pad) = v @ pad" using assms(1) by (cases v) (auto simp: plain_def)
  moreover have "dropWhile isspace (rev pad @ rev v) = dropWhile isspace (rev v)"
    using assms(2) by (intro dropWhile_append2) (simp add: list_all_iff)
  moreover have "dropWhile isspace (rev v) = rev v" using assms(1) by (cases v rule: rev_cases) (auto simp: plain_def)
  ultimately show ?thesis using assms trim_spec [of "v @ pad"] by (simp add: plain_def)
qed

lemma up_to_char: "x \<notin> set xs \<Longrightarrow> takeWhile (\<lambda>c. c \<noteq> x) (xs @ x # ys) = xs" "x \<notin> set xs \<Longrightarrow> dropWhile (\<lambda>c. c \<noteq> x) (xs @ x # ys) = x # ys"
  by (induction xs) auto

lemma parse_config_line:
  assumes "plain key" "CHR ''='' \<notin> set key" "plain value"
  shows "parse_line (config_line key value note) = Inr (Some (key, value))"
proof -
  have "config_line key value note = (key @ CHR ''='' # value @ ''  '') @ CHR ''#'' # '' '' @ note" by (simp add: config_line_def)
  moreover have "CHR ''#'' \<notin> set (key @ CHR ''='' # value @ ''  '')" using assms by (simp add: plain_def)
  ultimately have "takeWhile (\<lambda>c. c \<noteq> CHR ''#'') (config_line key value note) = key @ CHR ''='' # value @ ''  ''" by (metis up_to_char(1))
  moreover have "takeWhile (\<lambda>c. c \<noteq> CHR ''='') (key @ CHR ''='' # value @ ''  '') = key" "tl (dropWhile (\<lambda>c. c \<noteq> CHR ''='') (key @ CHR ''='' # value @ ''  '')) = value @ ''  ''"
    using assms(2) by (simp_all add: up_to_char)
  moreover have "trim key = Inr key" "trim (value @ ''  '') = Inr value"
    using trim_padded [OF assms(1), of "[]"] trim_padded [OF assms(3), of "''  ''"] by (simp_all add: isspace_def)
  ultimately show ?thesis using assms by (simp add: parse_line_def plain_def)
qed

lemma parse_comment: "parse_line (CHR ''#'' # l) = Inr None" "parse_line [] = Inr None"
  by (simp_all add: parse_line_def)

lemma nat_to_string_length: "length (nat_to_string n) \<le> max 1 n"
proof (induction n rule: nat_to_string.induct)
  case (1 n)
  show ?case
  proof (cases "n < 10")
    case False
    then have "length (nat_to_string n) = Suc (length (nat_to_string (n div 10)))" by (subst nat_to_string.simps) simp
    moreover have "length (nat_to_string (n div 10)) \<le> max 1 (n div 10)" using 1 False by simp
    ultimately show ?thesis using False by simp
  qed (simp add: nat_to_string.simps)
qed

lemma plain_number: "n < 2 ^ 32 \<Longrightarrow> plain (nat_to_string n)"
proof -
  assume n: "n < 2 ^ 32"
  have digits: "c \<in> set (nat_to_string n) \<Longrightarrow> isdigit c" for c by (rule nat_to_string_digits)
  have "\<not> isdigit newline" "\<not> isdigit (CHR ''#'')" by (simp_all add: newline_def isdigit_def)
  moreover have "\<not> isspace (hd (nat_to_string n))" "\<not> isspace (last (nat_to_string n))"
    using digits [THEN isdigit_not_space] by simp_all
  moreover have "length (nat_to_string n) < 2 ^ 32" using nat_to_string_length [of n] n by simp
  ultimately show ?thesis using digits by (auto simp: plain_def)
qed

text \<open>The entries of the generated file, in its order.\<close>

definition default_file_entries :: "(string \<Rightarrow> string) \<Rightarrow> string \<Rightarrow> u32 \<Rightarrow> (string \<times> string) list" where
  "default_file_entries target wal_path hardware_concurrency =
    [
     (''ip'', ''0.0.0.0''), (''port'', nat_to_string 5210), (''raft_port'', nat_to_string 5211), (''raft_trust_ip'', ''127.0.0.1''),
     (''max_connections'', nat_to_string 10000), (''read_only'', ''false''), (''log_level'', nat_to_string 1),
     (''log_rotate_size'', nat_to_string (1024 * 1024)), (''log_console_enabled'', ''true''), (''log_dir'', target ''logs''),
     (''skiplist_max_level'', nat_to_string 16), (''skiplist_probability'', ''0.5''), (''skiplist_max_node_count'', nat_to_string 10000000),
     (''memtable_size'', nat_to_string (1024 * 1024)), (''wal_enable'', ''true''), (''wal_dir'', wal_path),
     (''wal_file_size'', nat_to_string (1024 * 1024 * 10)), (''wal_file_max_count'', nat_to_string 10), (''wal_flush_interval'', nat_to_string 1000),
     (''wal_flush_strategy'', nat_to_string 0), (''sstable_merge_strategy'', nat_to_string 0), (''sstable_merge_threshold'', nat_to_string 5),
     (''sstable_zero_level_size'', nat_to_string 10), (''sstable_level_size_ratio'', nat_to_string 10),
     (''worker_thread_count'', nat_to_string (unat (hardware_concurrency + 1))), (''worker_queue_size'', nat_to_string 1000),
     (''worker_wait_timeout'', nat_to_string 30), (''memory_pool_size'', nat_to_string (1024 * 3)), (''waiting_queue_size'', nat_to_string 100),
     (''max_waiting_time'', nat_to_string 30), (''raft_election_timeout_min_ms'', nat_to_string 150),
     (''raft_election_timeout_max_ms'', nat_to_string 300), (''raft_heartbeat_interval_ms'', nat_to_string 30),
     (''raft_rpc_timeout_ms'', nat_to_string 2000), (''raft_follower_idle_wait_ms'', nat_to_string 1000),
     (''raft_join_max_retries'', nat_to_string 3), (''raft_request_vote_timeout_ms'', nat_to_string 200),
     (''raft_submit_timeout_ms'', nat_to_string 500), (''raft_append_entries_max_batch'', nat_to_string 1000),
     (''raft_snapshot_chunk_size_bytes'', nat_to_string (64 * 1024)), (''raft_result_cache_capacity'', nat_to_string 10000),
     (''raft_threadpool_workers'', nat_to_string 4), (''raft_threadpool_queue_size'', nat_to_string 10000),
     (''raft_threadpool_wait_timeout_ms'', nat_to_string 1000), (''raft_log_size_threshold'', nat_to_string 1000000),
     (''raft_log_truncate_ratio'', ''0.25''), (''raft_wal_filename'', ''raft_wal.log''), (''raft_index_filename'', ''raft_index.idx''),
     (''raft_need_majority_confirm'', ''false''), (''batch_timeout'', nat_to_string 500)]"

lemma plain_literals:
  "plain ''0.0.0.0''" "plain ''127.0.0.1''" "plain ''false''" "plain ''true''" "plain ''0.5''" "plain ''0.25''" "plain ''raft_wal.log''" "plain ''raft_index.idx''"
  by (simp_all add: plain_def isspace_def newline_def)

fun key_chars :: "string \<Rightarrow> bool" where
  "key_chars [] = True"
| "key_chars (c # cs) = ((95 :: nat) \<le> of_char c \<and> of_char c \<le> (122 :: nat) \<and> key_chars cs)"

lemma key_chars_plain:
  assumes "key_chars k" "k \<noteq> []" "length k < 100"
  shows "plain k" "CHR ''='' \<notin> set k"
proof -
  have "\<not> isspace c \<and> c \<noteq> newline \<and> c \<noteq> CHR ''#'' \<and> c \<noteq> CHR ''=''" if "c \<in> set k" for c
    using that assms(1) by (induction k) (auto simp: isspace_def newline_def)
  then show "plain k" "CHR ''='' \<notin> set k" using assms(2,3) by (auto simp: plain_def)
qed

lemma default_lines_parse:
  assumes "plain (target ''logs'')" "plain wal_path"
  shows "parse_lines (default_lines comment target wal_path hc) = Inr (default_file_entries target wal_path hc)"
proof -
  have hc: "plain (nat_to_string (unat (hc + 1)))" using unsigned_less [where w = "hc + 1"] by (intro plain_number) simp
  show ?thesis
    by (simp add: default_lines_def default_file_entries_def parse_comment parse_config_line key_chars_plain plain_literals plain_number hc assms)
qed

lemma config_line_no_newline: "plain key \<Longrightarrow> plain value \<Longrightarrow> newline \<notin> set note \<Longrightarrow> newline \<notin> set (config_line key value note)"
  by (simp add: config_line_def plain_def newline_def)

lemma default_lines_no_newline:
  assumes "plain (target ''logs'')" "plain wal_path" "\<And>n. newline \<notin> set (comment n)"
  shows "list_all (\<lambda>l. newline \<notin> set l) (default_lines comment target wal_path hc)"
proof -
  have hc: "plain (nat_to_string (unat (hc + 1)))" using unsigned_less [where w = "hc + 1"] by (intro plain_number) simp
  have c: "newline \<notin> set (''# '' @ comment n)" "newline \<notin> set (''#password=  # '' @ comment n)" for n using assms(3) by (simp_all add: newline_def)
  show ?thesis
    by (simp add: default_lines_def config_line_no_newline key_chars_plain plain_literals plain_number hc assms c [simplified])
qed

text \<open>Where the entries of the file stand among the defaults.\<close>

definition default_file_order :: "nat list" where
  "default_file_order = [6, 7, 31, 32, 23, 8, 4, 5, 3, 0, 10, 11, 12, 13, 14, 2, 15, 16, 18, 17, 19, 20, 21, 22, 27, 28, 29, 24, 25, 26,
     33, 34, 35, 36, 37, 38, 39, 40, 41, 42, 43, 44, 45, 46, 47, 48, 49, 50, 51, 30]"

lemma default_file_entries_order:
  "default_file_entries target wal_path hc =
     map (\<lambda>i. if i = 11 then (''skiplist_probability'', ''0.5'') else if i = 48 then (''raft_log_truncate_ratio'', ''0.25'')
             else default_entries target wal_path hc ! i) default_file_order"
  by (simp add: default_file_entries_def default_entries_def default_file_order_def)

text \<open>The keys differ already in the sum of their characters.\<close>

fun char_sum :: "string \<Rightarrow> nat" where
  "char_sum [] = 0"
| "char_sum (c # cs) = of_char c + char_sum cs"

lemma default_entries_distinct: "distinct (map fst (default_entries target wal_path hc))"
proof -
  have "distinct (map char_sum (map fst (default_entries target wal_path hc)))" by (simp add: default_entries_def)
  then show ?thesis by (simp only: distinct_map)
qed

lemma default_entries_at: "length (default_entries target wal_path hc) = 52"
  "default_entries target wal_path hc ! 11 = (''skiplist_probability'', ''0.500000'')"
  "default_entries target wal_path hc ! 48 = (''raft_log_truncate_ratio'', ''0.250000'')"
  by (simp_all add: default_entries_def)

lemma map_of_default: "map_of (load_default_config target wal_path hc) = map_of (default_entries target wal_path hc)"
proof -
  have "map_of (rev (default_entries target wal_path hc)) = map_of (default_entries target wal_path hc)"
    by (rule map_of_inject_set [THEN iffD2]) (use default_entries_distinct in \<open>auto simp: rev_map [symmetric]\<close>)
  then show ?thesis by (simp add: load_default_config_def map_of_put_all)
qed

lemma default_entry_lookup:
  assumes "i < 52"
  shows "map_of (default_entries target wal_path hc) (fst (default_entries target wal_path hc ! i)) = Some (snd (default_entries target wal_path hc ! i))"
  using assms default_entries_distinct by (intro map_of_is_SomeI) (simp_all add: default_entries_at)

lemma default_key_unique:
  assumes "i < 52" "j < 52" "fst (default_entries target wal_path hc ! i) = fst (default_entries target wal_path hc ! j)"
  shows "i = j"
proof -
  have "map fst (default_entries target wal_path hc) ! i = map fst (default_entries target wal_path hc) ! j" using assms by (simp add: default_entries_at)
  then show ?thesis using nth_eq_iff_index_eq [OF default_entries_distinct, of i target wal_path hc j] assms by (simp add: default_entries_at)
qed

lemma default_file_lookup:
  "map_of (rev (default_file_entries target wal_path hc)) k = Some v \<Longrightarrow>
     k = ''skiplist_probability'' \<and> v = ''0.5'' \<or> k = ''raft_log_truncate_ratio'' \<and> v = ''0.25'' \<or>
     k \<noteq> ''skiplist_probability'' \<and> k \<noteq> ''raft_log_truncate_ratio'' \<and> map_of (default_entries target wal_path hc) k = Some v"
proof -
  let ?d = "default_entries target wal_path hc"
  assume "map_of (rev (default_file_entries target wal_path hc)) k = Some v"
  then have "(k, v) \<in> set (default_file_entries target wal_path hc)" by (auto dest: map_of_SomeD)
  then obtain i where i: "i \<in> set default_file_order"
    "(k, v) = (if i = 11 then (''skiplist_probability'', ''0.5'') else if i = 48 then (''raft_log_truncate_ratio'', ''0.25'') else ?d ! i)"
    by (auto simp: default_file_entries_order)
  have "i < 52" using i(1) by (auto simp: default_file_order_def)
  show ?thesis
  proof (cases "i = 11 \<or> i = 48")
    case False
    then have kv: "fst (?d ! i) = k" "snd (?d ! i) = v" using i(2) by (metis fst_conv, metis snd_conv)
    then show ?thesis using default_key_unique [of i 11] default_key_unique [of i 48] default_entry_lookup [OF \<open>i < 52\<close>] False \<open>i < 52\<close>
      by (auto simp: default_entries_at)
  qed (use i(2) in auto)
qed

section \<open>Environment variables\<close>

definition env_value :: "(string \<Rightarrow> string option) \<Rightarrow> string \<Rightarrow> string option" where
  "env_value getenv key = (case map_of ENV_KEY_MAP key of None \<Rightarrow> None
     | Some e \<Rightarrow> (case getenv e of Some v \<Rightarrow> if v \<noteq> [] then Some v else None | None \<Rightarrow> None))"

lemma env_keys_distinct: "distinct (map fst ENV_KEY_MAP)"
proof -
  have "distinct (map char_sum (map fst ENV_KEY_MAP))" by (simp add: ENV_KEY_MAP_def)
  then show ?thesis by (simp only: distinct_map)
qed

lemma env_entries_lookup: "map_of (rev (env_entries getenv)) key = env_value getenv key"
proof -
  have 1: "distinct (map fst kes) \<Longrightarrow>
      map_of (List.map_filter (\<lambda>(k, e). case getenv e of Some v \<Rightarrow> if v \<noteq> [] then Some (k, v) else None | None \<Rightarrow> None) kes) key =
      (case map_of kes key of None \<Rightarrow> None | Some e \<Rightarrow> (case getenv e of Some v \<Rightarrow> if v \<noteq> [] then Some v else None | None \<Rightarrow> None))" for kes
  proof (induction kes)
    case (Cons ke kes)
    obtain k e where ke: "ke = (k, e)" by (cases ke)
    have "k \<notin> fst ` set kes" using Cons.prems ke by simp
    then have "map_of kes k = None" by (simp add: map_of_eq_None_iff)
    then show ?case using Cons ke by (auto simp: map_filter_simps split: option.splits if_splits)
  qed (simp add: map_filter_simps)
  have 2: "distinct (map fst kes) \<Longrightarrow> distinct (map fst (List.map_filter (\<lambda>(k, e). case getenv e of Some v \<Rightarrow> if v \<noteq> [] then Some (k, v) else None | None \<Rightarrow> None) kes)) \<and>
      fst ` set (List.map_filter (\<lambda>(k, e). case getenv e of Some v \<Rightarrow> if v \<noteq> [] then Some (k, v) else None | None \<Rightarrow> None) kes) \<subseteq> fst ` set kes" for kes
    by (induction kes) (auto simp: map_filter_simps split: option.splits if_splits, metis (no_types, lifting) fst_conv image_eqI subsetD)
  have "map_of (rev (env_entries getenv)) = map_of (env_entries getenv)"
    by (rule map_of_inject_set [THEN iffD2]) (use 2 [OF env_keys_distinct] in \<open>auto simp: env_entries_def rev_map [symmetric]\<close>)
  then show ?thesis using 1 [OF env_keys_distinct] by (simp add: env_entries_def env_value_def)
qed

text \<open>The names of the variables follow the rule the generated file states: the key in capitals after a prefix.\<close>

fun toupper :: "char \<Rightarrow> char" where
  "toupper (Char b0 b1 b2 b3 b4 b5 b6 b7) =
     (let c = Char b0 b1 b2 b3 b4 b5 b6 b7
      in if (97 :: nat) \<le> of_char c \<and> of_char c \<le> (122 :: nat) then Char b0 b1 b2 b3 b4 False b6 b7 else c)"

lemma env_names_follow_rule: "map snd ENV_KEY_MAP = map (\<lambda>k. ''EYAKV_'' @ map toupper k) (map fst ENV_KEY_MAP)"
  by (simp add: ENV_KEY_MAP_def)

section \<open>Every checked key has a value\<close>

fun check_key :: "check \<Rightarrow> string" where
  "check_key (CheckInt k lo hi) = k"
| "check_key (CheckBool k) = k"
| "check_key CheckProbability = ''skiplist_probability''"

definition check_order :: "nat list" where
  "check_order = [4, 5, 7, 8, 10, 11, 12, 13, 14, 15, 16, 17, 18, 19, 20, 21, 22, 23, 24, 25, 26, 27, 28, 29]"

lemma check_keys_order: "map check_key config_checks = map (\<lambda>i. fst (default_entries target wal_path hc ! i)) check_order"
  by (simp add: config_checks_def default_entries_def check_order_def)

lemma check_key_default: "c \<in> set config_checks \<Longrightarrow> map_of (default_entries target wal_path hc) (check_key c) \<noteq> None"
proof -
  assume "c \<in> set config_checks"
  then have "check_key c \<in> set (map (\<lambda>i. fst (default_entries target wal_path hc ! i)) check_order)"
    by (subst check_keys_order [symmetric]) simp
  then obtain i where "i \<in> set check_order" "check_key c = fst (default_entries target wal_path hc ! i)" by auto
  moreover have "i \<in> set check_order \<Longrightarrow> i < 52" by (auto simp: check_order_def)
  ultimately show ?thesis using default_entry_lookup [of i target wal_path hc] by simp
qed

lemma put_all_keeps: "map_of m k \<noteq> None \<Longrightarrow> map_of (put_all kvs m) k \<noteq> None"
  by (auto simp: map_of_put_all map_add_def split: option.splits)

lemma config_loaded:
  assumes "eyakv_config comment target wal_path hc file getenv = Inr (m, file')"
  shows "\<exists>es. (case file of Text text \<Rightarrow> parse_lines (file_lines text) = Inr es | Absent \<Rightarrow> es = [] | Unreadable _ \<Rightarrow> False) \<and>
    m = put_all (env_entries getenv) (put_all es (load_default_config target wal_path hc)) \<and> check_config m = Inr ()"
proof (cases "file")
  case Absent
  then show ?thesis using assms by (auto simp: eyakv_config_def load_config_def load_env_put_all rbind_eq_Inr_iff Let_def put_all_def)
next
  case (Unreadable path)
  then show ?thesis using assms by (simp add: eyakv_config_def load_config_def)
next
  case (Text t)
  then show ?thesis using assms by (auto simp: eyakv_config_def load_config_def load_env_put_all load_lines_parse rbind_eq_Inr_iff Let_def)
qed

lemma checked_int:
  assumes "eyakv_config comment target wal_path hc file getenv = Inr (m, file')" "CheckInt key lo hi \<in> set config_checks"
  shows "\<exists>v i. get_config key m = Some v \<and> stoi v = Inr i \<and> lo \<le> i \<and> i \<le> hi"
proof -
  obtain es where m: "m = put_all (env_entries getenv) (put_all es (load_default_config target wal_path hc))" "check_config m = Inr ()"
    using config_loaded [OF assms(1)] by blast
  have "map_of (load_default_config target wal_path hc) key \<noteq> None" using check_key_default [OF assms(2)] by (simp add: map_of_default)
  then have "map_of m key \<noteq> None" unfolding m(1) by (intro put_all_keeps)
  then obtain v where v: "map_of m key = Some v" by auto
  moreover have "check_int key lo hi m = Inr ()" using run_checks_all [OF _ assms(2), of m] m(2) by (simp add: check_config_def)
  ultimately show ?thesis using check_int_ok by (force simp: get_config_def)
qed

lemma config_or_int: "get_config key m = Some v \<Longrightarrow> stoi v = Inr i \<Longrightarrow> config_or stoi key d m = i"
  using stoi_nonempty [of v i] by (simp add: config_or_def opt_config_def)

lemma config_or_u32: "get_config key m = Some v \<Longrightarrow> stoi v = Inr i \<Longrightarrow> 0 \<le> i \<Longrightarrow> unat (config_or parse_u32 key d m) = nat i"
  using stoi_nonempty [of v i] stoi_bound [of v i]
  by (simp add: config_or_def opt_config_def stoi_parse_u32 unsigned_of_int take_bit_int_eq_self)

lemma checked_u32:
  assumes "eyakv_config comment target wal_path hc file getenv = Inr (m, file')" "CheckInt key lo hi \<in> set config_checks" "0 \<le> lo"
  shows "nat lo \<le> unat (config_or parse_u32 key d m) \<and> unat (config_or parse_u32 key d m) \<le> nat hi"
proof -
  obtain v i where "get_config key m = Some v" "stoi v = Inr i" "lo \<le> i" "i \<le> hi" using checked_int [OF assms(1,2)] by blast
  then show ?thesis using config_or_u32 [of key m v i d] assms(3) by (simp add: nat_mono)
qed

section \<open>Properties\<close>

text \<open>
  C33: Where a value comes from: for every key, the environment variable counts before the file, the last line of the file with the key
  before the others, and the default when there is none of them.
\<close>

theorem config_precedence:
  assumes "eyakv_config comment target wal_path hc file getenv = Inr (m, file')"
  shows "\<exists>es. (case file of Text text \<Rightarrow> parse_lines (file_lines text) = Inr es | Absent \<Rightarrow> es = [] | Unreadable _ \<Rightarrow> False) \<and>
    (\<forall>key. get_config key m =
      (case env_value getenv key of Some v \<Rightarrow> Some v
       | None \<Rightarrow> (case map_of (rev es) key of Some v \<Rightarrow> Some v | None \<Rightarrow> map_of (default_entries target wal_path hc) key)))"
proof -
  obtain es where es: "case file of Text text \<Rightarrow> parse_lines (file_lines text) = Inr es | Absent \<Rightarrow> es = [] | Unreadable _ \<Rightarrow> False"
    "m = put_all (env_entries getenv) (put_all es (load_default_config target wal_path hc))" using config_loaded [OF assms] by blast
  have "get_config key m = (case env_value getenv key of Some v \<Rightarrow> Some v
       | None \<Rightarrow> (case map_of (rev es) key of Some v \<Rightarrow> Some v | None \<Rightarrow> map_of (default_entries target wal_path hc) key))" for key
    unfolding get_config_def es(2) map_of_put_all map_add_def env_entries_lookup map_of_default by (simp split: option.split)
  then show ?thesis using es(1) by blast
qed

text \<open>
  C32: The file that is generated when there is none means the defaults: read back over the defaults it gives the same value for every
  key, but for the two fractions, which it writes with fewer digits.
\<close>

theorem default_file_roundtrip:
  assumes "plain (target ''logs'')" "plain wal_path" "\<And>n. newline \<notin> set (comment n)"
  shows "\<exists>m. load_config (Text (generate_default_config_file comment target wal_path hc)) (load_default_config target wal_path hc) = Inr m \<and>
    map_of m = (map_of (load_default_config target wal_path hc))(''skiplist_probability'' \<mapsto> ''0.5'', ''raft_log_truncate_ratio'' \<mapsto> ''0.25'')"
proof -
  let ?fe = "default_file_entries target wal_path hc" let ?d = "default_entries target wal_path hc"
  have l: "load_config (Text (generate_default_config_file comment target wal_path hc)) (load_default_config target wal_path hc) =
      Inr (put_all ?fe (load_default_config target wal_path hc))"
    using file_lines_concat [OF default_lines_no_newline [of target wal_path comment hc, OF assms]] default_lines_parse [of target wal_path comment hc, OF assms(1,2)]
    by (simp add: load_config_def generate_default_config_file_def load_lines_parse)
  have special: "map_of (rev ?fe) ''skiplist_probability'' \<noteq> None" "map_of (rev ?fe) ''raft_log_truncate_ratio'' \<noteq> None"
    by (auto simp: map_of_eq_None_iff default_file_entries_order default_file_order_def)
  have "(map_of ?d ++ map_of (rev ?fe)) k = ((map_of ?d)(''skiplist_probability'' \<mapsto> ''0.5'', ''raft_log_truncate_ratio'' \<mapsto> ''0.25'')) k" for k
  proof (cases "map_of (rev ?fe) k")
    case None
    then have "k \<noteq> ''skiplist_probability''" "k \<noteq> ''raft_log_truncate_ratio''" using special by auto
    then show ?thesis using None by (simp add: map_add_def)
  next
    case (Some v)
    then show ?thesis using default_file_lookup [OF Some] by (auto simp: map_add_def)
  qed
  then show ?thesis using l by (auto simp: map_of_put_all map_of_default)
qed


text \<open>The error for a value out of its range is never seen: the message is that of a value that is no number.\<close>

lemma range_error_is_format_error:
  "check_int key lo hi m = Inl e \<Longrightarrow> \<exists>v. map_of m key = Some v \<and> e = RuntimeError (''Invalid integer format for '' @ key @ '': '' @ v)"
  by (auto simp: check_int_def split: option.splits sum.splits)

text \<open>A line without a value is undefined behaviour instead of the error the code has for it, and a line of blanks is an error.\<close>

lemma empty_value_undefined: "parse_line ''password='' = Inl UB"
  by (simp add: parse_line_def trim_def substr_def trim_start.simps isspace_def)

lemma blank_line_rejected: "\<exists>e. parse_line '' # comment'' = Inl (RuntimeError e)"
  by (simp add: parse_line_def)

text \<open>The port of the Raft node is not among the values that are checked: a number above 65535 is cut to 16 bits.\<close>

lemma raft_port_wraps:
  assumes "map_of m ''ip'' = Some (c # ip)" "map_of m ''data_dir'' = Some (d # dir)" "map_of m ''raft_port'' = Some (nat_to_string n)" "n < 2147483648"
  shows "\<exists>trusted. initialize_raft m = Inr (d # dir, c # ip, word_of_nat n, trusted, raft_params_of m)"
  using assms by (simp add: initialize_raft_def GetRequiredConfig_def get_config_def stoi_def strto_parts_to_string)

text \<open>A probability that is not a number passes its check.\<close>

lemma nan_passes_check: "check_probability [(''skiplist_probability'', ''nan'')] = Inr ()"
  by (simp add: check_probability_def stod_eval double_le_def double_lt_def double_eq_def is_nan_def mk_double_def)

section \<open>The defaults are accepted\<close>

lemma default_entries_nth:
  "default_entries target wal_path hc ! 4 = (''log_level'', nat_to_string 1)"
  "default_entries target wal_path hc ! 5 = (''log_rotate_size'', nat_to_string (1024 * 1024))"
  "default_entries target wal_path hc ! 7 = (''port'', nat_to_string 5210)"
  "default_entries target wal_path hc ! 8 = (''read_only'', ''false'')"
  "default_entries target wal_path hc ! 10 = (''skiplist_max_level'', nat_to_string 16)"
  "default_entries target wal_path hc ! 11 = (''skiplist_probability'', ''0.500000'')"
  "default_entries target wal_path hc ! 12 = (''skiplist_max_node_count'', nat_to_string 10000000)"
  "default_entries target wal_path hc ! 13 = (''memtable_size'', nat_to_string (1024 * 1024))"
  "default_entries target wal_path hc ! 14 = (''wal_enable'', ''true'')"
  "default_entries target wal_path hc ! 15 = (''wal_file_size'', nat_to_string (1024 * 1024 * 10))"
  "default_entries target wal_path hc ! 16 = (''wal_file_max_count'', nat_to_string 10)"
  "default_entries target wal_path hc ! 17 = (''wal_flush_strategy'', nat_to_string 0)"
  "default_entries target wal_path hc ! 18 = (''wal_flush_interval'', nat_to_string 1000)"
  "default_entries target wal_path hc ! 19 = (''sstable_merge_strategy'', nat_to_string 0)"
  "default_entries target wal_path hc ! 20 = (''sstable_merge_threshold'', nat_to_string 5)"
  "default_entries target wal_path hc ! 21 = (''sstable_zero_level_size'', nat_to_string 10)"
  "default_entries target wal_path hc ! 22 = (''sstable_level_size_ratio'', nat_to_string 10)"
  "default_entries target wal_path hc ! 23 = (''max_connections'', nat_to_string 10000)"
  "default_entries target wal_path hc ! 24 = (''memory_pool_size'', nat_to_string (1024 * 3))"
  "default_entries target wal_path hc ! 25 = (''waiting_queue_size'', nat_to_string 100)"
  "default_entries target wal_path hc ! 26 = (''max_waiting_time'', nat_to_string 30)"
  "default_entries target wal_path hc ! 27 = (''worker_thread_count'', nat_to_string (unat (hc + 1)))"
  "default_entries target wal_path hc ! 28 = (''worker_queue_size'', nat_to_string 1000)"
  "default_entries target wal_path hc ! 29 = (''worker_wait_timeout'', nat_to_string 30)"
  by (simp_all add: default_entries_def)

lemma check_number:
  assumes "map_of m key = Some (nat_to_string n)" "lo \<le> int n" "int n \<le> hi" "n < 2147483648"
  shows "check_int key lo hi m = Inr ()"
  using assms by (simp add: check_int_def stoi_def strto_parts_to_string)

lemma default_lookup:
  "i < 52 \<Longrightarrow> default_entries target wal_path hc ! i = (k, v) \<Longrightarrow> map_of (load_default_config target wal_path hc) k = Some v"
  using default_entry_lookup [of i target wal_path hc] by (simp add: map_of_default)

lemma half_in_range: "stod ''0.500000'' = Inr (mk_double False (1022 * 2 ^ 52))"
  by (simp add: stod_eval)

lemma default_probability_ok:
  assumes "map_of m ''skiplist_probability'' = Some ''0.500000''"
  shows "check_probability m = Inr ()"
proof -
  have "\<not> double_le (mk_double False (1022 * 2 ^ 52)) 0" "\<not> double_le one_double (mk_double False (1022 * 2 ^ 52))"
    by (simp_all add: double_le_def double_lt_def double_eq_def one_double_def mk_double_def dkey_def dneg_def dmag_def)
  then show ?thesis using assms half_in_range by (simp add: check_probability_def)
qed

lemma default_checks_pass:
  assumes "0 < hc + 1" "unat (hc + 1) < 2147483648"
  shows "check_config (load_default_config target wal_path hc) = Inr ()"
proof -
  let ?m = "load_default_config target wal_path hc"
  have n: "check_int k lo hi ?m = Inr ()" if "i < 52" "default_entries target wal_path hc ! i = (k, nat_to_string n)" "lo \<le> int n" "int n \<le> hi" "n < 2147483648" for i k n lo hi
    using check_number [OF default_lookup [OF that(1,2)]] that(3-5) .
  have "check_bool ''read_only'' ?m = Inr ()" "check_bool ''wal_enable'' ?m = Inr ()"
    using default_lookup [of 8 target wal_path hc] default_lookup [of 14 target wal_path hc] by (simp_all add: check_bool_def default_entries_nth)
  moreover have "check_probability ?m = Inr ()"
    using default_lookup [of 11 target wal_path hc] by (intro default_probability_ok) (simp add: default_entries_nth)
  moreover have "check_int ''worker_thread_count'' 1 INT32_MAX ?m = Inr ()"
  proof (rule n [OF _ default_entries_nth(22)])
    have "0 < unat (hc + 1)" using assms(1) by (simp add: word_less_nat_alt)
    then show "1 \<le> int (unat (hc + 1))" by linarith
    show "int (unat (hc + 1)) \<le> INT32_MAX" using assms(2) unfolding INT32_MAX_def by linarith
  qed (use assms(2) in simp_all)
  ultimately show ?thesis
    using n [OF _ default_entries_nth(1), of 0 4] n [OF _ default_entries_nth(2), of 1 INT32_MAX] n [OF _ default_entries_nth(3), of 1024 65535]
      n [OF _ default_entries_nth(5), of 1 64] n [OF _ default_entries_nth(7), of 1 INT32_MAX] n [OF _ default_entries_nth(8), of 1 INT32_MAX]
      n [OF _ default_entries_nth(10), of 1 INT32_MAX] n [OF _ default_entries_nth(11), of 1 INT32_MAX] n [OF _ default_entries_nth(12), of 0 2]
      n [OF _ default_entries_nth(13), of 1 INT32_MAX] n [OF _ default_entries_nth(14), of 0 1] n [OF _ default_entries_nth(15), of 1 INT32_MAX]
      n [OF _ default_entries_nth(16), of 1 INT32_MAX] n [OF _ default_entries_nth(17), of 2 INT32_MAX] n [OF _ default_entries_nth(18), of 1 100000]
      n [OF _ default_entries_nth(19), of 1 INT32_MAX] n [OF _ default_entries_nth(20), of 1 INT32_MAX] n [OF _ default_entries_nth(21), of 1 INT32_MAX]
      n [OF _ default_entries_nth(23), of 1 INT32_MAX] n [OF _ default_entries_nth(24), of 1 INT32_MAX]
    by (simp add: check_config_def config_checks_def INT32_MAX_def)
qed

lemma defaults_accepted:
  assumes "0 < hc + 1" "unat (hc + 1) < 2147483648"
  shows "eyakv_config comment target wal_path hc Absent (\<lambda>_. None) =
    Inr (load_default_config target wal_path hc, Text (generate_default_config_file comment target wal_path hc))"
proof -
  have "fold (\<lambda>(k :: string, e :: string) m. m) kes m = m" for kes and m :: config_map by (induction kes) auto
  then have "load_config_from_env (\<lambda>_. None) m = m" for m by (simp add: load_config_from_env_def)
  then show ?thesis using default_checks_pass [OF assms] by (simp add: eyakv_config_def load_config_def)
qed

text \<open>The defaults of the Raft node are those of the configuration.\<close>

lemma default_raft_entries:
  "default_entries target wal_path hc ! 30 = (''batch_timeout'', nat_to_string 500)"
  "default_entries target wal_path hc ! 33 = (''raft_election_timeout_min_ms'', nat_to_string 150)"
  "default_entries target wal_path hc ! 34 = (''raft_election_timeout_max_ms'', nat_to_string 300)"
  "default_entries target wal_path hc ! 35 = (''raft_heartbeat_interval_ms'', nat_to_string 30)"
  "default_entries target wal_path hc ! 36 = (''raft_rpc_timeout_ms'', nat_to_string 2000)"
  "default_entries target wal_path hc ! 37 = (''raft_follower_idle_wait_ms'', nat_to_string 1000)"
  "default_entries target wal_path hc ! 38 = (''raft_join_max_retries'', nat_to_string 3)"
  "default_entries target wal_path hc ! 39 = (''raft_request_vote_timeout_ms'', nat_to_string 200)"
  "default_entries target wal_path hc ! 40 = (''raft_submit_timeout_ms'', nat_to_string 500)"
  "default_entries target wal_path hc ! 41 = (''raft_append_entries_max_batch'', nat_to_string 1000)"
  "default_entries target wal_path hc ! 42 = (''raft_snapshot_chunk_size_bytes'', nat_to_string (64 * 1024))"
  "default_entries target wal_path hc ! 43 = (''raft_result_cache_capacity'', nat_to_string 10000)"
  "default_entries target wal_path hc ! 44 = (''raft_threadpool_workers'', nat_to_string 4)"
  "default_entries target wal_path hc ! 45 = (''raft_threadpool_queue_size'', nat_to_string 10000)"
  "default_entries target wal_path hc ! 46 = (''raft_threadpool_wait_timeout_ms'', nat_to_string 1000)"
  "default_entries target wal_path hc ! 47 = (''raft_log_size_threshold'', nat_to_string 1000000)"
  "default_entries target wal_path hc ! 48 = (''raft_log_truncate_ratio'', ''0.250000'')"
  "default_entries target wal_path hc ! 49 = (''raft_wal_filename'', ''raft_wal.log'')"
  "default_entries target wal_path hc ! 50 = (''raft_index_filename'', ''raft_index.idx'')"
  "default_entries target wal_path hc ! 51 = (''raft_need_majority_confirm'', ''false'')"
  by (simp_all add: default_entries_def)

lemma apply_number:
  assumes "map_of m key = Some (nat_to_string n)" "n < 2147483648"
  shows "ApplyConfigIfExists stoi key f m c = f (int n) c" "ApplyConfigIfExists parse_u32 key g m c = g (word_of_nat n) c"
    "ApplyConfigIfExists stoull key h m c = h (word_of_nat n) c"
proof -
  have s: "stoi (nat_to_string n) = Inr (int n)" using assms(2) by (simp add: stoi_def strto_parts_to_string)
  then show "ApplyConfigIfExists stoi key f m c = f (int n) c" "ApplyConfigIfExists parse_u32 key g m c = g (word_of_nat n) c"
    "ApplyConfigIfExists stoull key h m c = h (word_of_nat n) c"
    using assms(1) stoi_parse_u32 [OF s] stoi_stoull [OF s] by (simp_all add: ApplyConfigIfExists_def opt_config_def get_config_def)
qed

lemma apply_text: "map_of m key = Some v \<Longrightarrow> v \<noteq> [] \<Longrightarrow> parse v = Inr x \<Longrightarrow> ApplyConfigIfExists parse key f m c = f x c"
  by (simp add: ApplyConfigIfExists_def opt_config_def get_config_def)

lemma quarter: "stod ''0.250000'' = Inr (mk_double False (1021 * 2 ^ 52))"
  by (simp add: stod_eval)

lemma default_raft_params: "raft_params_of (load_default_config target wal_path hc) = raft_params_default"
proof -
  note at = default_raft_entries [THEN default_lookup [rotated]]
  note numbers = apply_number [OF at(1)] apply_number [OF at(2)] apply_number [OF at(3)] apply_number [OF at(4)] apply_number [OF at(5)]
    apply_number [OF at(6)] apply_number [OF at(7)] apply_number [OF at(8)] apply_number [OF at(9)] apply_number [OF at(10)]
    apply_number [OF at(11)] apply_number [OF at(12)] apply_number [OF at(13)] apply_number [OF at(14)] apply_number [OF at(15)]
    apply_number [OF at(16)]
  note texts = apply_text [where parse = stod, OF at(17) _ quarter] apply_text [where parse = Inr, OF at(18) _ refl]
    apply_text [where parse = Inr, OF at(19) _ refl] apply_text [where parse = parse_bool, OF at(20) _ parse_bool_def]
  show ?thesis
    by (simp add: raft_params_of_def numbers texts raft_params_default_def)
qed

section \<open>Witnesses\<close>

definition dir_example :: "string \<Rightarrow> string" where
  "dir_example d = ''/opt/eyakv/'' @ d"

abbreviation config_example :: config_map where
  "config_example \<equiv> load_default_config dir_example ''/opt/eyakv/data/wal'' 3"

lemma config_example_loaded:
  "eyakv_config (\<lambda>_. ''note'') dir_example ''/opt/eyakv/data/wal'' 3 Absent (\<lambda>_. None) =
     Inr (config_example, Text (generate_default_config_file (\<lambda>_. ''note'') dir_example ''/opt/eyakv/data/wal'' 3))"
  by (rule defaults_accepted) simp_all

theorem config_precedence_witness: "get_config ''port'' config_example = map_of (default_entries dir_example ''/opt/eyakv/data/wal'' 3) ''port''"
  using config_precedence [OF config_example_loaded] by (auto simp: env_value_def split: option.splits)

theorem default_file_roundtrip_witness:
  "\<exists>m. load_config (Text (generate_default_config_file (\<lambda>_. ''note'') dir_example ''/opt/eyakv/data/wal'' 3)) config_example = Inr m \<and>
    map_of m = (map_of config_example)(''skiplist_probability'' \<mapsto> ''0.5'', ''raft_log_truncate_ratio'' \<mapsto> ''0.25'')"
  by (rule default_file_roundtrip) (simp_all add: plain_def dir_example_def newline_def isspace_def)


end
